(* ===== verification/Prelude.thy ===== *)
theory Prelude
  imports Main "HOL-Library.Multiset" "HOL-Library.Word"
begin

section \<open>Types, machine integers and generic lemmas shared by the components\<close>

text \<open>
  What every component of the model uses: instants and durations of the Go runtime, the
  wrap-around of \<open>int64\<close>, results of fallible operations, maps ranged over in an
  unspecified order, and the lemma collections of the development.

  \<^item> A \<open>time.Time\<close> is the number of nanoseconds since Go's zero instant, so
    \<open>IsZero\<close> is \<open>t = 0\<close>, \<open>Before\<close> is \<open><\<close>, \<open>After\<close> is \<open>>\<close>. The clock
    is read once per operation and is an argument of it, named \<open>now\<close>.
  \<^item> A \<open>time.Duration\<close> is an \<open>int\<close> holding nanoseconds; where the code multiplies
    or adds durations in a way that can leave 64 bits, the wrap-around \<open>i64\<close> is written.
  \<^item> A Go \<open>map\<close> is a partial function. A loop ranging over a map takes the enumeration
    of its keys as an argument, since Go leaves that order open; \<open>enumerates ks m\<close> says
    the list is such an enumeration.
  \<^item> A mutex-protected method is one atomic step on the state it guards.
\<close>

named_theorems heap_simps "lengths, multisets and entries of the array heap"
named_theorems map_order "facts on maps ranged over by a key enumeration"

subsection \<open>Time and 64-bit integers\<close>

type_synonym gotime = int
type_synonym duration = int

abbreviation (input) zero_time :: gotime where "zero_time \<equiv> 0"
abbreviation (input) millisecond :: duration where "millisecond \<equiv> 1000000"
abbreviation (input) second :: duration where "second \<equiv> 1000000000"

text \<open>Two's complement wrap-around of a mathematical integer to \<open>int64\<close>.\<close>

definition i64 :: "int \<Rightarrow> int" where
  "i64 x = signed_take_bit 63 x"

abbreviation (input) max_i64 :: int where "max_i64 \<equiv> 9223372036854775807"

lemma i64_id: "\<bar>x\<bar> \<le> max_i64 \<Longrightarrow> i64 x = x"
  by (auto simp: i64_def signed_take_bit_int_eq_self_iff abs_le_iff)

lemma i64_range: "- 9223372036854775808 \<le> i64 x \<and> i64 x \<le> max_i64"
proof -
  have "i64 x < 2 ^ 63"
    unfolding i64_def by (rule signed_take_bit_int_less_exp)
  moreover have "- (2 ^ 63) \<le> i64 x"
    unfolding i64_def by (rule signed_take_bit_int_greater_eq_minus_exp)
  ultimately show ?thesis by simp
qed

subsection \<open>Results\<close>

text \<open>
  A method returns a value or an error; where the Go code can panic (a failed type
  assertion, an index out of range) the panic is a third outcome, never an unspecified
  value.
\<close>

datatype ('e, 'a) outcome = Ok 'a | Err 'e | Panic

fun outcome_bind :: "('e, 'a) outcome \<Rightarrow> ('a \<Rightarrow> ('e, 'b) outcome) \<Rightarrow> ('e, 'b) outcome" where
  "outcome_bind (Ok a) f = f a"
| "outcome_bind (Err e) f = Err e"
| "outcome_bind Panic f = Panic"

lemma outcome_bind_Ok_iff:
  "outcome_bind r f = Ok b \<longleftrightarrow> (\<exists>a. r = Ok a \<and> f a = Ok b)"
  by (cases r) auto

lemma option_eqI: "(\<And>x. a = Some x \<longleftrightarrow> b = Some x) \<Longrightarrow> a = b"
  by (cases a; cases b) auto

subsection \<open>Maps and the order of iteration\<close>

definition enumerates :: "'k list \<Rightarrow> ('k \<rightharpoonup> 'v) \<Rightarrow> bool" where
  "enumerates ks m \<longleftrightarrow> distinct ks \<and> set ks = dom m"

lemma enumerates_None [map_order]: "enumerates ks m \<Longrightarrow> k \<notin> set ks \<Longrightarrow> m k = None"
  by (auto simp: enumerates_def)

lemma enumerates_Some [map_order]:
  "enumerates ks m \<Longrightarrow> k \<in> set ks \<Longrightarrow> \<exists>v. m k = Some v"
  by (auto simp: enumerates_def)

lemma enumerates_in [map_order]: "enumerates ks m \<Longrightarrow> m k = Some v \<Longrightarrow> k \<in> set ks"
  by (auto simp: enumerates_def)

lemma enumerates_unique: "enumerates ks m \<Longrightarrow> enumerates ks' m \<Longrightarrow> mset ks = mset ks'"
  by (simp add: enumerates_def set_eq_iff_mset_eq_distinct [symmetric])

lemma enumerates_finite: "enumerates ks m \<Longrightarrow> finite (dom m)"
  by (metis List.finite_set enumerates_def)

text \<open>A count kept in a map: Go reads an absent key as the zero value.\<close>

definition count_of :: "('k \<rightharpoonup> nat) \<Rightarrow> 'k \<Rightarrow> nat" where
  "count_of m k = (case m k of None \<Rightarrow> 0 | Some n \<Rightarrow> n)"

lemma count_of_simps [simp]:
  "count_of (m(k \<mapsto> n)) k = n"
  "count_of (m(k := None)) k = 0"
  "j \<noteq> k \<Longrightarrow> count_of (m(k := x)) j = count_of m j"
  "count_of Map.empty k = 0"
  by (simp_all add: count_of_def)

subsection \<open>Lists\<close>

text \<open>A Go map keyed by position or a set read through \<open>m[k]\<close> is membership.\<close>

lemma distinct_map_filter_id: "distinct (map f xs) \<Longrightarrow> distinct (map f (filter P xs))"
  by (induction xs) auto

lemma mset_nth_upd:
  "i < length xs \<Longrightarrow> mset (xs[i := x]) + {#xs ! i#} = mset xs + {#x#}"
  by (simp add: mset_update)

lemma sum_list_map_filter_split:
  fixes f :: "'a \<Rightarrow> 'b::comm_monoid_add"
  shows "sum_list (map f (filter P xs)) + sum_list (map f (filter (\<lambda>x. \<not> P x) xs))
         = sum_list (map f xs)"
  by (induction xs) (auto simp: ac_simps)

lemma ball_list_update: "\<forall>x \<in> set xs. P x \<Longrightarrow> P y \<Longrightarrow> \<forall>x \<in> set (xs[i := y]). P x"
  using set_update_subset_insert [of xs i y] by blast

end
