(* ===== verification/Go_Heap.thy ===== *)
theory Go_Heap
  imports Prelude
begin

section \<open>The binary heap of container/heap\<close>

text \<open>
  Go's \<open>container/heap\<close> keeps a slice ordered as a binary heap through the interface
  \<open>Less\<close>, \<open>Swap\<close>, \<open>Push\<close>, \<open>Pop\<close>. The evaluation broker, the delaying queue and
  the periodic dispatcher all rest on it. The slice is a list, \<open>Less\<close> a relation on
  entries; \<open>heap_up\<close> and \<open>heap_down\<close> are the library's \<open>up\<close> and \<open>down\<close>
  (\<open>down\<close> also returns where the entry ended, from which the library's boolean result
  is read). The locale holds the contract: for a strict weak order every operation keeps
  the heap invariant and the multiset of entries, and the root is minimal.
\<close>

definition swap_at :: "'a list \<Rightarrow> nat \<Rightarrow> nat \<Rightarrow> 'a list" where
  "swap_at h i j = h[i := h ! j, j := h ! i]"

abbreviation parent :: "nat \<Rightarrow> nat" where "parent j \<equiv> (j - 1) div 2"

function heap_up :: "('a \<Rightarrow> 'a \<Rightarrow> bool) \<Rightarrow> 'a list \<Rightarrow> nat \<Rightarrow> 'a list" where
  "heap_up lt h j =
     (let i = parent j in
      if i = j \<or> \<not> lt (h ! j) (h ! i) then h
      else heap_up lt (swap_at h i j) i)"
  by pat_completeness auto
termination
  by (relation "measure (\<lambda>(_, _, j). j)") auto

text \<open>The smaller child of \<open>i\<close> below \<open>n\<close>: the right one only when it is less.\<close>

definition min_child :: "('a \<Rightarrow> 'a \<Rightarrow> bool) \<Rightarrow> 'a list \<Rightarrow> nat \<Rightarrow> nat \<Rightarrow> nat" where
  "min_child lt h i n =
     (if 2 * i + 2 < n \<and> lt (h ! (2 * i + 2)) (h ! (2 * i + 1)) then 2 * i + 2 else 2 * i + 1)"

lemma min_child_bounds: "2 * i + 1 < n \<Longrightarrow> i < min_child lt h i n \<and> min_child lt h i n < n"
  by (simp add: min_child_def)

lemma parent_min_child [simp]: "parent (min_child lt h i n) = i"
  by (simp add: min_child_def)

function heap_down :: "('a \<Rightarrow> 'a \<Rightarrow> bool) \<Rightarrow> 'a list \<Rightarrow> nat \<Rightarrow> nat \<Rightarrow> 'a list \<times> nat" where
  "heap_down lt h i n =
     (if n \<le> 2 * i + 1 then (h, i)
      else let j = min_child lt h i n in
        if \<not> lt (h ! j) (h ! i) then (h, i)
        else heap_down lt (swap_at h i j) j n)"
  by pat_completeness auto
termination
  by (relation "measure (\<lambda>(_, _, i, n). n - i)") (auto simp: min_child_def)

declare heap_up.simps [simp del] heap_down.simps [simp del]

definition heap_push :: "('a \<Rightarrow> 'a \<Rightarrow> bool) \<Rightarrow> 'a list \<Rightarrow> 'a \<Rightarrow> 'a list" where
  "heap_push lt h x = heap_up lt (h @ [x]) (length h)"

definition heap_fix :: "('a \<Rightarrow> 'a \<Rightarrow> bool) \<Rightarrow> 'a list \<Rightarrow> nat \<Rightarrow> 'a list" where
  "heap_fix lt h i =
     (case heap_down lt h i (length h) of
        (h', i') \<Rightarrow> if i < i' then h' else heap_up lt h' i)"

text \<open>Only called on a non-empty heap; on an empty one Go panics at index \<open>-1\<close>.\<close>

definition heap_pop :: "('a \<Rightarrow> 'a \<Rightarrow> bool) \<Rightarrow> 'a list \<Rightarrow> 'a \<times> 'a list" where
  "heap_pop lt h =
     (let n = length h - 1;
          h' = fst (heap_down lt (swap_at h 0 n) 0 n)
      in (h' ! n, take n h'))"

definition heap_remove :: "('a \<Rightarrow> 'a \<Rightarrow> bool) \<Rightarrow> 'a list \<Rightarrow> nat \<Rightarrow> 'a \<times> 'a list" where
  "heap_remove lt h i =
     (let n = length h - 1;
          h' = (if n \<noteq> i
                then case heap_down lt (swap_at h i n) i n of
                       (h', i') \<Rightarrow> if i < i' then h' else heap_up lt h' i
                else h)
      in (h' ! n, take n h'))"

subsection \<open>Lengths and multisets\<close>

lemma length_swap_at [heap_simps, simp]: "length (swap_at h i j) = length h"
  by (simp add: swap_at_def)

lemma nth_swap_at [heap_simps]:
  "i < length h \<Longrightarrow> j < length h \<Longrightarrow>
   swap_at h i j ! k = (if k = j then h ! i else if k = i then h ! j else h ! k)"
  by (auto simp: swap_at_def nth_list_update)

lemma mset_swap_at [heap_simps]:
  "i < length h \<Longrightarrow> j < length h \<Longrightarrow> mset (swap_at h i j) = mset h"
  by (simp add: swap_at_def mset_swap)

lemma length_heap_up [heap_simps, simp]: "length (heap_up lt h j) = length h"
  by (induction lt h j rule: heap_up.induct) (subst heap_up.simps, auto simp: Let_def)

lemma mset_heap_up [heap_simps]: "j < length h \<Longrightarrow> mset (heap_up lt h j) = mset h"
proof (induction lt h j rule: heap_up.induct)
  case (1 lt h j)
  show ?case
  proof (cases "parent j = j \<or> \<not> lt (h ! j) (h ! parent j)")
    case True
    then show ?thesis by (subst heap_up.simps) (auto simp: Let_def)
  next
    case False
    have "parent j < length h" using "1.prems" by auto
    with False 1 show ?thesis
      by (subst heap_up.simps) (auto simp: Let_def mset_swap_at)
  qed
qed

lemma length_heap_down [heap_simps, simp]: "length (fst (heap_down lt h i n)) = length h"
proof (induction lt h i n rule: heap_down.induct)
  case (1 lt h i n)
  show ?case
    by (subst heap_down.simps) (use 1 in \<open>auto simp: Let_def\<close>)
qed

lemma heap_down_stop:
  "n \<le> 2 * i + 1 \<or> \<not> lt (h ! min_child lt h i n) (h ! i) \<Longrightarrow> heap_down lt h i n = (h, i)"
  by (subst heap_down.simps) (auto simp: Let_def)

lemma heap_down_go:
  "2 * i + 1 < n \<Longrightarrow> lt (h ! min_child lt h i n) (h ! i) \<Longrightarrow>
   heap_down lt h i n = heap_down lt (swap_at h i (min_child lt h i n)) (min_child lt h i n) n"
  by (subst heap_down.simps) (simp add: Let_def)

lemma heap_up_stop: "parent j = j \<or> \<not> lt (h ! j) (h ! parent j) \<Longrightarrow> heap_up lt h j = h"
  by (subst heap_up.simps) (auto simp: Let_def)

lemma heap_up_go:
  "parent j \<noteq> j \<Longrightarrow> lt (h ! j) (h ! parent j) \<Longrightarrow>
   heap_up lt h j = heap_up lt (swap_at h (parent j) j) (parent j)"
  by (subst heap_up.simps) (simp add: Let_def)

lemma mset_heap_down [heap_simps]:
  "n \<le> length h \<Longrightarrow> i < length h \<Longrightarrow> mset (fst (heap_down lt h i n)) = mset h"
proof (induction lt h i n rule: heap_down.induct)
  case (1 lt h i n)
  show ?case
  proof (cases "2 * i + 1 < n \<and> lt (h ! min_child lt h i n) (h ! i)")
    case True
    with min_child_bounds [of i n lt h] "1.IH" [OF _ refl] "1.prems" show ?thesis
      by (simp add: heap_down_go mset_swap_at)
  next
    case False
    then show ?thesis by (subst heap_down_stop) auto
  qed
qed

lemma heap_down_mono: "i \<le> snd (heap_down lt h i n)"
proof (induction lt h i n rule: heap_down.induct)
  case (1 lt h i n)
  show ?case
  proof (cases "2 * i + 1 < n \<and> lt (h ! min_child lt h i n) (h ! i)")
    case True
    with min_child_bounds [of i n lt h] "1.IH" [OF _ refl] show ?thesis
      by (simp add: heap_down_go)
  next
    case False
    then show ?thesis by (subst heap_down_stop) auto
  qed
qed

lemma length_heap_fix [heap_simps, simp]: "length (heap_fix lt h i) = length h"
proof -
  obtain h' i' where d: "heap_down lt h i (length h) = (h', i')" by fastforce
  then show ?thesis
    using length_heap_down [of lt h i "length h"] by (simp add: heap_fix_def)
qed

text \<open>\<open>down\<close> below \<open>n\<close> leaves what is stored from \<open>n\<close> on where it is.\<close>

lemma nth_heap_down_above:
  "n \<le> k \<Longrightarrow> k < length h \<Longrightarrow> i < n \<Longrightarrow> fst (heap_down lt h i n) ! k = h ! k"
proof (induction lt h i n rule: heap_down.induct)
  case (1 lt h i n)
  show ?case
  proof (cases "2 * i + 1 < n \<and> lt (h ! min_child lt h i n) (h ! i)")
    case True
    with min_child_bounds [of i n lt h] "1.IH" [OF _ refl] "1.prems" show ?thesis
      by (simp add: heap_down_go nth_swap_at)
  next
    case False
    then show ?thesis by (subst heap_down_stop) auto
  qed
qed

lemma nth_heap_up_above:
  "j < k \<Longrightarrow> k < length h \<Longrightarrow> heap_up lt h j ! k = h ! k"
proof (induction lt h j rule: heap_up.induct)
  case (1 lt h j)
  show ?case
  proof (cases "parent j \<noteq> j \<and> lt (h ! j) (h ! parent j)")
    case True
    then have "parent j < j" by auto
    with True "1.IH" [OF refl] "1.prems" show ?thesis
      by (auto simp: heap_up_go nth_swap_at)
  next
    case False
    then show ?thesis by (subst heap_up_stop) auto
  qed
qed

lemma heap_remove_content:
  assumes i: "i < length h" and rem: "heap_remove lt h i = (x, h')"
  shows "x = h ! i" and "mset h = add_mset x (mset h')"
proof -
  define n where "n = length h - 1"
  define s where "s = swap_at h i n"
  define r where "r = (if n \<noteq> i then case heap_down lt s i n of (h', i') \<Rightarrow> if i < i' then h' else heap_up lt h' i else h)"
  have n: "n < length h" "i \<le> n" using i by (simp_all add: n_def)
  have "heap_remove lt h i = (r ! n, take n r)"
    unfolding heap_remove_def Let_def r_def s_def n_def ..
  then have x: "x = r ! n" and h': "h' = take n r" using rem by simp_all
  have s: "mset s = mset h" "length s = length h" "s ! n = h ! i"
    using n i by (simp_all add: s_def mset_swap_at nth_swap_at)
  have r: "mset r = mset h \<and> length r = length h \<and> r ! n = h ! i"
  proof (cases "n = i")
    case False
    obtain d i' where d: "heap_down lt s i n = (d, i')" by fastforce
    have "mset d = mset h" "length d = length h" "d ! n = h ! i"
      using False mset_heap_down [of n s i lt] length_heap_down [of lt s i n] nth_heap_down_above [of n n s i lt] d s n
      by simp_all
    then show ?thesis
      using False n d by (simp add: r_def mset_heap_up nth_heap_up_above)
  qed (use i in \<open>simp add: r_def\<close>)
  moreover have "Suc n = length h" using n by (simp add: n_def)
  ultimately have "r = h' @ [x]"
    unfolding x h' using take_Suc_conv_app_nth [of n r] by simp
  then show "mset h = add_mset x (mset h')" using r by simp
  show "x = h ! i" using r x by simp
qed

lemma mset_heap_remove:
  assumes "i < length h"
  shows "mset h = add_mset (h ! i) (mset (snd (heap_remove lt h i)))"
proof -
  obtain x h' where r: "heap_remove lt h i = (x, h')" by fastforce
  show ?thesis using heap_remove_content [OF assms r] unfolding r snd_conv by blast
qed

subsection \<open>The heap invariant and its single defects\<close>

definition heap_upto :: "('a \<Rightarrow> 'a \<Rightarrow> bool) \<Rightarrow> 'a list \<Rightarrow> nat \<Rightarrow> bool" where
  "heap_upto lt h n \<longleftrightarrow> (\<forall>k. 0 < k \<and> k < n \<longrightarrow> \<not> lt (h ! k) (h ! parent k))"

abbreviation is_heap :: "('a \<Rightarrow> 'a \<Rightarrow> bool) \<Rightarrow> 'a list \<Rightarrow> bool" where
  "is_heap lt h \<equiv> heap_upto lt h (length h)"

text \<open>
  A heap but for the edge above \<open>j\<close> (what \<open>up\<close> repairs), and a heap but for all edges at
  \<open>i\<close> (what \<open>down\<close> repairs); in both the children of the defect are no smaller than its
  parent, so that the defect can move.
\<close>

definition up_defect :: "('a \<Rightarrow> 'a \<Rightarrow> bool) \<Rightarrow> 'a list \<Rightarrow> nat \<Rightarrow> nat \<Rightarrow> bool" where
  "up_defect lt h n j \<longleftrightarrow>
     (\<forall>k. 0 < k \<and> k < n \<and> k \<noteq> j \<longrightarrow> \<not> lt (h ! k) (h ! parent k)) \<and>
     (\<forall>k. 0 < k \<and> k < n \<and> parent k = j \<and> 0 < j \<longrightarrow> \<not> lt (h ! k) (h ! parent j))"

definition down_defect :: "('a \<Rightarrow> 'a \<Rightarrow> bool) \<Rightarrow> 'a list \<Rightarrow> nat \<Rightarrow> nat \<Rightarrow> bool" where
  "down_defect lt h n i \<longleftrightarrow>
     (\<forall>k. 0 < k \<and> k < n \<and> k \<noteq> i \<and> parent k \<noteq> i \<longrightarrow> \<not> lt (h ! k) (h ! parent k)) \<and>
     (\<forall>k. 0 < k \<and> k < n \<and> parent k = i \<and> 0 < i \<longrightarrow> \<not> lt (h ! k) (h ! parent i))"

lemma parent_less: "0 < k \<Longrightarrow> parent k < k"
  by auto

lemma parent_self_iff: "parent k = k \<longleftrightarrow> k = 0"
  by auto

lemma child_cases:
  assumes "0 < k" "parent k = i"
  shows "k = 2 * i + 1 \<or> k = 2 * i + 2"
  using assms by presburger

lemma heap_uptoD: "heap_upto lt h n \<Longrightarrow> 0 < k \<Longrightarrow> k < n \<Longrightarrow> \<not> lt (h ! k) (h ! parent k)"
  by (auto simp: heap_upto_def)

lemma heap_upto_mono: "heap_upto lt h n \<Longrightarrow> m \<le> n \<Longrightarrow> heap_upto lt h m"
  by (auto simp: heap_upto_def)

lemma down_defect_cong:
  assumes eq: "\<And>k. k < n \<Longrightarrow> h ! k = h' ! k" and i: "i < n" and d: "down_defect lt h n i"
  shows "down_defect lt h' n i"
proof -
  have p: "k < n \<Longrightarrow> h' ! parent k = h ! parent k" for k
    by (rule sym, rule eq) auto
  have e: "k < n \<Longrightarrow> h' ! k = h ! k" for k
    by (rule sym, rule eq)
  show ?thesis
    unfolding down_defect_def
  proof (intro conjI allI impI; elim conjE)
    fix k assume "0 < k" "k < n" "k \<noteq> i" "parent k \<noteq> i"
    then show "\<not> lt (h' ! k) (h' ! parent k)"
      using d unfolding down_defect_def by (simp only: p e) blast
  next
    fix k assume "0 < k" "k < n" "parent k = i" "0 < i"
    then show "\<not> lt (h' ! k) (h' ! parent i)"
      using d i unfolding down_defect_def by (simp only: p e) blast
  qed
qed

lemma is_heap_take: "heap_upto lt h n \<Longrightarrow> is_heap lt (take n h)"
  by (auto simp: heap_upto_def)

lemma heap_upto_0 [simp]: "heap_upto lt h 0"
  by (simp add: heap_upto_def)

lemma up_defect_root: "up_defect lt h n 0 \<Longrightarrow> heap_upto lt h n"
  by (auto simp: up_defect_def heap_upto_def)

lemma up_defect_close:
  "up_defect lt h n j \<Longrightarrow> \<not> lt (h ! j) (h ! parent j) \<Longrightarrow> heap_upto lt h n"
  by (auto simp: up_defect_def heap_upto_def)

locale strict_weak_order =
  fixes lt :: "'a \<Rightarrow> 'a \<Rightarrow> bool"
  assumes lt_asym: "lt a b \<Longrightarrow> \<not> lt b a"
    and lt_negtrans: "\<not> lt a b \<Longrightarrow> \<not> lt b c \<Longrightarrow> \<not> lt a c"
begin

lemma lt_irrefl: "\<not> lt a a"
  using lt_asym by blast

lemma heap_root_min:
  "heap_upto lt h n \<Longrightarrow> k < n \<Longrightarrow> \<not> lt (h ! k) (h ! 0)"
proof (induction k rule: less_induct)
  case (less k)
  show ?case
  proof (cases "k = 0")
    case True
    then show ?thesis by (simp add: lt_irrefl)
  next
    case False
    then have "parent k < k" by auto
    with less have "\<not> lt (h ! parent k) (h ! 0)" by auto
    moreover have "\<not> lt (h ! k) (h ! parent k)"
      using less.prems False by (auto dest: heap_uptoD)
    ultimately show ?thesis by (blast dest: lt_negtrans)
  qed
qed

lemma heap_head_least: "is_heap lt h \<Longrightarrow> x \<in> set h \<Longrightarrow> \<not> lt x (h ! 0)"
  using heap_root_min by (metis in_set_conv_nth)

subsubsection \<open>Sifting up\<close>

lemma up_defect_swap:
  assumes d: "up_defect lt h n j" and jn: "j < n" "n \<le> length h"
    and go: "parent j \<noteq> j" "lt (h ! j) (h ! parent j)"
  shows "up_defect lt (swap_at h (parent j) j) n (parent j)"
proof -
  let ?i = "parent j" and ?h = "swap_at h (parent j) j"
  have ij: "?i < j" and j0: "0 < j" and len: "?i < length h" "j < length h"
    using go(1) jn by auto
  note sw = nth_swap_at [OF len]
  have d1: "\<not> lt (h ! k) (h ! parent k)" if "0 < k" "k < n" "k \<noteq> j" for k
    using d that by (auto simp: up_defect_def)
  have d2: "\<not> lt (h ! k) (h ! ?i)" if "0 < k" "k < n" "parent k = j" for k
    using d j0 that unfolding up_defect_def by metis
  have "\<not> lt (?h ! k) (?h ! parent k)" if k: "0 < k" "k < n" "k \<noteq> ?i" for k
  proof -
    consider "k = j" | "k \<noteq> j" "parent k = j" | "k \<noteq> j" "parent k \<noteq> j" by blast
    then show ?thesis
    proof cases
      case 1
      then show ?thesis using sw ij lt_asym [OF go(2)] by simp
    next
      case 2
      then show ?thesis using sw d2 [OF k(1,2)] k ij by simp
    next
      case 3
      have dk: "\<not> lt (h ! k) (h ! parent k)" using d1 k 3 by blast
      have hk: "?h ! k = h ! k" using sw 3 k by simp
      show ?thesis
      proof (cases "parent k = ?i")
        case True
        then have "\<not> lt (h ! k) (h ! j)"
          using dk lt_negtrans [OF _ lt_asym [OF go(2)]] by simp
        then show ?thesis using sw True ij hk by simp
      next
        case False
        then show ?thesis using sw 3 dk hk by simp
      qed
    qed
  qed
  moreover have "\<not> lt (?h ! k) (?h ! parent ?i)"
    if k: "0 < k" "k < n" "parent k = ?i" "0 < ?i" for k
  proof -
    have "parent ?i < ?i" using k(4) by (rule parent_less)
    then have pi: "parent ?i < ?i" "parent ?i \<noteq> j" using ij by linarith+
    have i1: "\<not> lt (h ! ?i) (h ! parent ?i)"
      using d1 [of ?i] k(4) jn(1) ij by simp
    have k0: "k \<noteq> ?i" using k(3) k(4) parent_less by auto
    have top: "?h ! parent ?i = h ! parent ?i" using sw pi by simp
    show ?thesis
    proof (cases "k = j")
      case True
      then show ?thesis unfolding top using sw [of j] i1 by simp
    next
      case False
      have "\<not> lt (h ! k) (h ! ?i)" using d1 [OF k(1,2) False] k(3) by simp
      then have "\<not> lt (h ! k) (h ! parent ?i)" using i1 by (rule lt_negtrans)
      then show ?thesis unfolding top using sw [of k] False k0 by simp
    qed
  qed
  ultimately show ?thesis unfolding up_defect_def by blast
qed

lemma heap_up_correct:
  "up_defect lt h n j \<Longrightarrow> j < n \<Longrightarrow> n \<le> length h \<Longrightarrow> heap_upto lt (heap_up lt h j) n"
proof (induction j arbitrary: h rule: less_induct)
  case (less j)
  show ?case
  proof (cases "parent j \<noteq> j \<and> lt (h ! j) (h ! parent j)")
    case True
    then have pj: "parent j < j" by auto
    have "heap_upto lt (heap_up lt (swap_at h (parent j) j) (parent j)) n"
      using less.IH [OF pj up_defect_swap [OF less.prems]] True pj less.prems by simp
    with True show ?thesis by (simp add: heap_up_go)
  next
    case False
    then have "heap_upto lt h n"
      using less.prems up_defect_root up_defect_close by (metis parent_self_iff)
    with False show ?thesis by (subst heap_up_stop) auto
  qed
qed

subsubsection \<open>Sifting down\<close>

lemma min_child_le:
  assumes k: "0 < k" "k < n" "parent k = i" "k \<noteq> min_child lt h i n"
  shows "\<not> lt (h ! k) (h ! min_child lt h i n)"
proof (cases "2 * i + 2 < n \<and> lt (h ! (2 * i + 2)) (h ! (2 * i + 1))")
  case True
  then have m: "min_child lt h i n = 2 * i + 2" by (simp add: min_child_def)
  then have "k = 2 * i + 1" using child_cases [OF k(1,3)] k(4) by simp
  then show ?thesis unfolding m using True lt_asym by blast
next
  case False
  then have m: "min_child lt h i n = 2 * i + 1" by (simp only: min_child_def if_False)
  then have "k = 2 * i + 2" using child_cases [OF k(1,3)] k(4) by simp
  then show ?thesis unfolding m using False k(2) by blast
qed

lemma down_defect_swap:
  assumes d: "down_defect lt h n i" and n: "n \<le> length h" "2 * i + 1 < n"
    and go: "lt (h ! min_child lt h i n) (h ! i)"
  defines "j \<equiv> min_child lt h i n"
  shows "down_defect lt (swap_at h i j) n j"
    and "\<not> lt (swap_at h i j ! j) (swap_at h i j ! parent j)"
    and "0 < i \<Longrightarrow> \<not> lt (swap_at h i j ! i) (swap_at h i j ! parent i)"
proof -
  have j: "i < j" "j < n" "parent j = i"
    using min_child_bounds [OF n(2)] parent_min_child unfolding j_def by blast+
  have len: "i < length h" "j < length h" using j n by auto
  note sw = nth_swap_at [OF len]
  have d1: "\<not> lt (h ! k) (h ! parent k)" if "0 < k" "k < n" "k \<noteq> i" "parent k \<noteq> i" for k
    using d that by (auto simp: down_defect_def)
  have d2: "\<not> lt (h ! k) (h ! parent i)" if "0 < k" "k < n" "parent k = i" "0 < i" for k
    using d that unfolding down_defect_def by metis
  show r1: "\<not> lt (swap_at h i j ! j) (swap_at h i j ! parent j)"
    using sw j lt_asym go unfolding j_def by auto
  show r2: "\<not> lt (swap_at h i j ! i) (swap_at h i j ! parent i)" if "0 < i"
    using sw j d2 [of j] that parent_less [OF that] by auto
  show "down_defect lt (swap_at h i j) n j"
    unfolding down_defect_def
  proof (intro conjI allI impI; elim conjE)
    fix k assume k: "0 < k" "k < n" "k \<noteq> j" "parent k \<noteq> j"
    consider "k = i" | "k \<noteq> i" "parent k = i" | "k \<noteq> i" "parent k \<noteq> i" by blast
    then show "\<not> lt (swap_at h i j ! k) (swap_at h i j ! parent k)"
    proof cases
      case 1
      then show ?thesis using r2 k by simp
    next
      case 2
      then show ?thesis
        using sw j k min_child_le [OF k(1,2) 2(2)] by (simp add: j_def)
    next
      case 3
      then show ?thesis using sw d1 [of k] k by simp
    qed
  next
    fix k assume k: "0 < k" "k < n" "parent k = j" "0 < j"
    have "j < k" using k parent_less by auto
    then show "\<not> lt (swap_at h i j ! k) (swap_at h i j ! parent j)"
      using sw j k d1 [of k] by simp
  qed
qed

text \<open>
  \<open>down\<close> either moves its entry and leaves a heap, or stays and leaves at most the edge
  above it to repair, which is when the library calls \<open>up\<close>.
\<close>

lemma heap_down_correct:
  "down_defect lt h n i \<Longrightarrow> i < n \<Longrightarrow> n \<le> length h \<Longrightarrow>
   (case heap_down lt h i n of (h', i') \<Rightarrow>
      if i < i' then heap_upto lt h' n else h' = h \<and> up_defect lt h n i)"
proof (induction "n - i" arbitrary: h i rule: less_induct)
  case less
  show ?case
  proof (cases "2 * i + 1 < n \<and> lt (h ! min_child lt h i n) (h ! i)")
    case True
    let ?j = "min_child lt h i n"
    let ?h = "swap_at h i ?j"
    have j: "i < ?j" "?j < n" using min_child_bounds True by auto
    note sw = down_defect_swap [OF less.prems(1,3)]
    have "case heap_down lt ?h ?j n of (h', i') \<Rightarrow>
            if ?j < i' then heap_upto lt h' n else h' = ?h \<and> up_defect lt ?h n ?j"
      using less.hyps [of ?j ?h] sw(1) j True less.prems by simp
    moreover have "up_defect lt ?h n ?j \<Longrightarrow> heap_upto lt ?h n"
      using sw(2) True by (blast intro: up_defect_close)
    moreover have "i < i'" if "heap_down lt ?h ?j n = (h', i')" for h' i'
      using heap_down_mono [of ?j lt ?h n] that j by simp
    ultimately show ?thesis
      using True by (auto simp: heap_down_go split: prod.splits if_splits)
  next
    case False
    have "\<not> lt (h ! k) (h ! i)" if "0 < k" "k < n" "parent k = i" for k
    proof -
      have *: "2 * i + 1 < n \<or> k = 2 * i + 1" "2 * i + 1 < n"
        using child_cases [OF that(1,3)] that by auto
      then have "\<not> lt (h ! min_child lt h i n) (h ! i)" using False by simp
      then show ?thesis
        using min_child_le [OF that] lt_negtrans by (cases "k = min_child lt h i n") blast+
    qed
    then have "up_defect lt h n i"
      using less.prems(1) unfolding up_defect_def down_defect_def by metis
    with False show ?thesis by (subst heap_down_stop) auto
  qed
qed

subsubsection \<open>The contract of the operations\<close>

lemma heap_repair:
  assumes "down_defect lt h n i" "i < n" "n \<le> length h"
  shows "heap_upto lt (case heap_down lt h i n of (h', i') \<Rightarrow>
           if i < i' then h' else heap_up lt h' i) n"
  using heap_down_correct [OF assms] heap_up_correct [OF _ assms(2,3)]
  by (auto split: prod.splits if_splits)

lemma down_defect_update:
  assumes h: "heap_upto lt h n" and "i < length h"
  shows "down_defect lt (h[i := x]) n i"
  unfolding down_defect_def
proof (intro conjI allI impI; elim conjE)
  fix k assume "0 < k" "k < n" "k \<noteq> i" "parent k \<noteq> i"
  then show "\<not> lt (h[i := x] ! k) (h[i := x] ! parent k)"
    using heap_uptoD [OF h] by simp
next
  fix k assume k: "0 < k" "k < n" "parent k = i" "0 < i"
  then have "i < k" "parent i < i" using parent_less by auto
  moreover have "\<not> lt (h ! k) (h ! i)" "\<not> lt (h ! i) (h ! parent i)"
    using heap_uptoD [OF h k(1,2)] heap_uptoD [OF h, of i] k \<open>i < k\<close> by auto
  ultimately have "\<not> lt (h ! k) (h ! parent i)"
    using lt_negtrans [of "h ! k" "h ! i" "h ! parent i"] by blast
  then show "\<not> lt (h[i := x] ! k) (h[i := x] ! parent i)"
    using \<open>i < k\<close> \<open>parent i < i\<close> by simp
qed

lemma is_heap_push:
  assumes "is_heap lt h"
  shows "is_heap lt (heap_push lt h x)"
proof -
  have "up_defect lt (h @ [x]) (length (h @ [x])) (length h)"
    unfolding up_defect_def
  proof (intro conjI allI impI; elim conjE)
    fix k assume k: "0 < k" "k < length (h @ [x])" "k \<noteq> length h"
    then have "parent k < k" "k < length h" by auto
    then show "\<not> lt ((h @ [x]) ! k) ((h @ [x]) ! parent k)"
      using heap_uptoD [OF assms k(1)] by (simp add: nth_append)
  next
    fix k assume "k < length (h @ [x])" "parent k = length h" "0 < length h"
    then have False by (cases k) auto
    then show "\<not> lt ((h @ [x]) ! k) ((h @ [x]) ! parent (length h))" ..
  qed
  then show ?thesis
    using heap_up_correct [of "h @ [x]" "length (h @ [x])" "length h"]
    by (simp add: heap_push_def)
qed

lemma is_heap_fix:
  assumes "is_heap lt h" "i < length h"
  shows "is_heap lt (heap_fix lt (h[i := x]) i)"
proof -
  have "length (heap_fix lt (h[i := x]) i) = length h"
    by simp
  then show ?thesis
    using heap_repair [OF down_defect_update [OF assms, of x] assms(2)]
    by (simp add: heap_fix_def)
qed

text \<open>Swapping the last entry to position \<open>i\<close>, repairing below it and cutting it off.\<close>

lemma heap_cut:
  assumes h: "is_heap lt h" and i: "i < n" "n = length h - 1"
  shows "down_defect lt (swap_at h i n) n i"
proof -
  have n: "n < length h" using i by simp
  have "down_defect lt (h[i := h ! n]) n i"
    using down_defect_update [OF heap_upto_mono [OF h, of n]] i by simp
  moreover have "h[i := h ! n] ! k = swap_at h i n ! k" if "k < n" for k
    using that i n by (simp add: nth_swap_at nth_list_update)
  ultimately show ?thesis using down_defect_cong i(1) by blast
qed

lemma heap_pop_correct:
  assumes h: "is_heap lt h" "h \<noteq> []" and pop: "heap_pop lt h = (x, h')"
  shows "x = h ! 0" and "is_heap lt h'" and "mset h = add_mset x (mset h')"
    and "\<forall>y \<in> set h'. \<not> lt y x"
proof -
  define n where "n = length h - 1"
  define d where "d = heap_down lt (swap_at h 0 n) 0 n"
  have n: "n < length h" "0 < length h" using h(2) by (simp_all add: n_def)
  have x: "x = fst d ! n" and h': "h' = take n (fst d)"
    using pop by (simp_all add: heap_pop_def Let_def d_def n_def)
  have md: "mset (fst d) = mset h"
    using n by (simp add: d_def mset_heap_down mset_swap_at)
  have ld: "length (fst d) = Suc n" using n by (simp add: d_def n_def)
  then have "fst d = h' @ [x]"
    unfolding x h' by (simp add: take_Suc_conv_app_nth [symmetric])
  then have "mset (fst d) = add_mset x (mset h')" by simp
  then show m: "mset h = add_mset x (mset h')" using md by simp
  show x0: "x = h ! 0"
  proof (cases "n = 0")
    case True
    then show ?thesis unfolding x d_def by (subst heap_down_stop) (auto simp: swap_at_def)
  next
    case False
    then show ?thesis
      using n by (simp add: x d_def nth_heap_down_above nth_swap_at)
  qed
  show "is_heap lt h'"
  proof (cases "n = 0")
    case True
    then show ?thesis by (simp add: h')
  next
    case False
    have "heap_upto lt (fst d) n"
      using heap_down_correct [OF heap_cut [OF h(1), of 0 n]] False n
      by (auto simp: d_def n_def split: prod.splits if_splits intro: up_defect_root)
    then show ?thesis unfolding h' by (rule is_heap_take)
  qed
  show "\<forall>y \<in> set h'. \<not> lt y x"
  proof
    fix y assume "y \<in> set h'"
    then have "y \<in># mset h" by (simp add: m)
    then obtain k where "k < length h" "y = h ! k" by (auto simp: in_set_conv_nth)
    then show "\<not> lt y x" using heap_root_min [OF h(1)] x0 by simp
  qed
qed

lemma is_heap_remove:
  assumes h: "is_heap lt h" and i: "i < length h"
  shows "is_heap lt (snd (heap_remove lt h i))"
proof -
  define n where "n = length h - 1"
  define s where "s = swap_at h i n"
  define r where "r = (if n \<noteq> i then case heap_down lt s i n of (h', i') \<Rightarrow> if i < i' then h' else heap_up lt h' i else h)"
  have "heap_upto lt r n"
  proof (cases "n = i")
    case True
    then show ?thesis using heap_upto_mono [OF h, of n] by (simp add: r_def n_def)
  next
    case False
    then show ?thesis
      using heap_repair [of s n i] heap_cut [OF h, of i n] i by (simp add: r_def s_def n_def)
  qed
  then have "is_heap lt (take n r)" by (rule is_heap_take)
  moreover have "heap_remove lt h i = (r ! n, take n r)"
    unfolding heap_remove_def Let_def r_def s_def n_def ..
  ultimately show ?thesis by simp
qed

lemma is_heap_set_root:
  assumes "is_heap lt h" "\<forall>y \<in> set h. \<not> lt y x"
  shows "is_heap lt (h[0 := x])"
proof (cases "h = []")
  case False
  have "\<not> lt (h[0 := x] ! k) (h[0 := x] ! parent k)" if k: "0 < k" "k < length h" for k
  proof (cases "parent k = 0")
    case True
    then show ?thesis using k False assms(2) by simp
  next
    case False
    then show ?thesis using heap_uptoD [OF assms(1) k] k by simp
  qed
  then show ?thesis by (simp add: heap_upto_def)
qed (use assms in simp)

end

text \<open>The multiset each operation leaves, whatever the order.\<close>

lemma mset_heap_push [heap_simps]: "mset (heap_push lt h x) = add_mset x (mset h)"
  by (simp add: heap_push_def mset_heap_up)

lemma mset_heap_fix [heap_simps]:
  assumes "i < length h"
  shows "mset (heap_fix lt h i) = mset h"
proof -
  obtain h' i' where d: "heap_down lt h i (length h) = (h', i')" by fastforce
  then have "mset h' = mset h" "length h' = length h"
    using mset_heap_down [of "length h" h i lt] length_heap_down [of lt h i "length h"] assms
    by simp_all
  then show ?thesis using assms d by (simp add: heap_fix_def mset_heap_up)
qed

lemma set_heap_push [heap_simps]: "set (heap_push lt h x) = insert x (set h)"
  using mset_heap_push by (metis set_mset_add_mset_insert set_mset_mset)

lemma set_heap_fix [heap_simps]: "i < length h \<Longrightarrow> set (heap_fix lt h i) = set h"
  using mset_heap_fix by (metis set_mset_mset)

lemma heap_push_Nil [simp]: "heap_push lt [] x = [x]"
  by (simp add: heap_push_def heap_up_stop)

lemma heap_pop_single [simp]: "heap_pop lt [x] = (x, [])"
  by (simp add: heap_pop_def heap_down_stop swap_at_def)

subsection \<open>Heaps of keyed entries\<close>

text \<open>The position of the entry of a key, which the code keeps as a back-reference.\<close>

fun find_key :: "string \<Rightarrow> (string \<times> 'v) list \<Rightarrow> nat option" where
  "find_key k [] = None"
| "find_key k (x # xs) = (if fst x = k then Some 0 else map_option Suc (find_key k xs))"

lemma find_key_None: "find_key k xs = None \<longleftrightarrow> k \<notin> fst ` set xs"
  by (induction xs) auto

lemma find_key_Some: "find_key k xs = Some i \<Longrightarrow> i < length xs \<and> fst (xs ! i) = k"
  by (induction xs arbitrary: i) (auto split: if_splits)

lemma distinct_keys_cong: "mset xs = mset ys \<Longrightarrow> distinct (map fst xs) = distinct (map fst ys)"
  by (metis mset_eq_imp_distinct_iff mset_map)

lemma map_of_mset:
  assumes "distinct (map fst xs)" "mset xs = mset ys"
  shows "map_of xs = map_of ys"
proof (rule ext, rule option_eqI)
  fix k v
  have "distinct (map fst ys)" using assms distinct_keys_cong by blast
  then show "map_of xs k = Some v \<longleftrightarrow> map_of ys k = Some v"
    using mset_eq_setD [OF assms(2)] assms(1) by (simp only: map_of_eq_Some_iff)
qed

end
