(* ===== verification/Eval_Broker.thy ===== *)
theory Eval_Broker
  imports Go_Heap
begin

section \<open>The evaluation broker (internal/evalbroker)\<close>

text \<open>
  A priority queue of work items with explicit ack and nack, redelivery and a dead-letter
  queue: \<open>broker.go\<close> and the heap order of \<open>pq.go\<close>. \<open>broker\<close> is the Go struct of
  that name; its methods are \<open>eb_enqueue\<close>, \<open>eb_dequeue\<close>, \<open>eb_ack\<close>, \<open>eb_nack\<close>, \<open>eb_close\<close> and one
  tick \<open>eb_reap\<close> of the visibility reaper. A payload is opaque and has the type \<open>'p\<close>.
  \<open>eb_nack\<close> and the reaper release the mutex before they enqueue again, so the concurrent
  system \<open>bsys\<close> adds what is then in flight: \<open>outbox\<close>, the evaluations a goroutine or a
  timer has yet to enqueue, and \<open>reaping\<close>, those the reaper has collected and not yet
  processed. \<open>eb_step\<close> interleaves the critical sections.
\<close>

subsection \<open>State\<close>

record 'p evaluation =
  ev_id :: string
  ev_priority :: int
  ev_type :: string
  ev_payload :: 'p
  ev_create :: gotime

record eb_config =
  delivery_limit :: int
  nack_timeout :: duration
  visibility_timeout :: duration

record 'p pending_eval =
  pe_eval :: "'p evaluation"
  pe_deadline :: gotime

record 'p broker =
  eb_cfg :: eb_config
  eb_ready :: "'p evaluation list"
  eb_pending :: "string \<rightharpoonup> 'p pending_eval"
  eb_dlq :: "'p evaluation list"
  eb_attempts :: "string \<rightharpoonup> nat"
  eb_closed :: bool

definition new_broker :: "eb_config \<Rightarrow> 'p broker" where
  "new_broker c = \<lparr>eb_cfg = c, eb_ready = [], eb_pending = Map.empty, eb_dlq = [],
                   eb_attempts = Map.empty, eb_closed = False\<rparr>"

text \<open>Highest priority first, then oldest creation time.\<close>

definition pq_less :: "'p evaluation \<Rightarrow> 'p evaluation \<Rightarrow> bool" where
  "pq_less a b =
     (if ev_priority a \<noteq> ev_priority b then ev_priority a > ev_priority b
      else ev_create a < ev_create b)"

interpretation pq: strict_weak_order pq_less
  by unfold_locales (auto simp: pq_less_def split: if_splits)

subsection \<open>Operations\<close>

fun find_id :: "string \<Rightarrow> 'p evaluation list \<Rightarrow> nat option" where
  "find_id k [] = None"
| "find_id k (e # es) = (if ev_id e = k then Some 0 else map_option Suc (find_id k es))"

definition eb_stamp :: "gotime \<Rightarrow> 'p evaluation \<Rightarrow> 'p evaluation" where
  "eb_stamp now e = (if ev_create e = zero_time then e\<lparr>ev_create := now\<rparr> else e)"

definition eb_enqueue :: "gotime \<Rightarrow> 'p evaluation \<Rightarrow> 'p broker \<Rightarrow> 'p broker" where
  "eb_enqueue now e0 b =
     (let e = eb_stamp now e0 in
      if eb_closed b then b
      else case find_id (ev_id e) (eb_ready b) of
        Some i \<Rightarrow>
          if ev_priority e > ev_priority (eb_ready b ! i)
          then b\<lparr>eb_ready := heap_fix pq_less ((eb_ready b)[i := e]) i\<rparr>
          else b
      | None \<Rightarrow> b\<lparr>eb_ready := heap_push pq_less (eb_ready b) e\<rparr>)"

text \<open>\<open>Dequeue\<close> waits while nothing is ready; \<open>Blocked\<close> is a call still waiting.\<close>

datatype 'p dequeued = Blocked | Closed | Got "'p evaluation"

definition eb_dequeue :: "gotime \<Rightarrow> 'p broker \<Rightarrow> 'p broker \<times> 'p dequeued" where
  "eb_dequeue now b =
     (if eb_closed b then (b, Closed)
      else if eb_ready b = [] then (b, Blocked)
      else
        let (e, r) = heap_pop pq_less (eb_ready b);
            d = (if visibility_timeout (eb_cfg b) > 0
                 then now + visibility_timeout (eb_cfg b) else zero_time)
        in (b\<lparr>eb_ready := r, eb_pending := (eb_pending b)(ev_id e \<mapsto> \<lparr>pe_eval = e, pe_deadline = d\<rparr>)\<rparr>,
            Got e))"

definition eb_ack :: "string \<Rightarrow> 'p broker \<Rightarrow> 'p broker" where
  "eb_ack k b = b\<lparr>eb_pending := (eb_pending b)(k := None), eb_attempts := (eb_attempts b)(k := None)\<rparr>"

text \<open>
  The part of \<open>Nack\<close> under the mutex: an evaluation that is not pending is left alone; one
  past the delivery limit goes to the dead-letter queue (\<open>ErrDeadLetter\<close>); any other is
  handed back to be enqueued.
\<close>

datatype 'p nacked = NotPending | DeadLetter | Requeue "'p evaluation"

definition nack_locked :: "string \<Rightarrow> 'p broker \<Rightarrow> 'p broker \<times> 'p nacked" where
  "nack_locked k b =
     (case eb_pending b k of
        None \<Rightarrow> (b, NotPending)
      | Some pe \<Rightarrow>
          let n = Suc (count_of (eb_attempts b) k);
              b1 = b\<lparr>eb_pending := (eb_pending b)(k := None), eb_attempts := (eb_attempts b)(k \<mapsto> n)\<rparr>
          in if delivery_limit (eb_cfg b) > 0 \<and> int n > delivery_limit (eb_cfg b)
             then (b1\<lparr>eb_dlq := eb_dlq b @ [pe_eval pe], eb_attempts := (eb_attempts b1)(k := None)\<rparr>, DeadLetter)
             else (b1, Requeue (pe_eval pe)))"

text \<open>
  The whole of \<open>Nack\<close>: with a positive delay the enqueue is left to a timer, returned as
  the evaluation and its delay.
\<close>

definition eb_nack :: "gotime \<Rightarrow> string \<Rightarrow> duration \<Rightarrow> 'p broker
    \<Rightarrow> 'p broker \<times> bool \<times> ('p evaluation \<times> duration) option" where
  "eb_nack now k delay b =
     (case nack_locked k b of
        (b1, NotPending) \<Rightarrow> (b1, False, None)
      | (b1, DeadLetter) \<Rightarrow> (b1, True, None)
      | (b1, Requeue e) \<Rightarrow>
          let d = (if delay = 0 then nack_timeout (eb_cfg b) else delay)
          in if d \<le> 0 then (eb_enqueue now e b1, False, None) else (b1, False, Some (e, d)))"

definition eb_close :: "'p broker \<Rightarrow> 'p broker" where
  "eb_close b = b\<lparr>eb_closed := True\<rparr>"

text \<open>
  A tick of the visibility reaper: under the mutex it collects the pending evaluations past
  their deadline (ranging over the map in the order \<open>ks\<close>) and removes them; then, for each,
  \<open>Nack\<close> and \<open>Enqueue\<close>.
\<close>

definition eb_overdue :: "gotime \<Rightarrow> 'p broker \<Rightarrow> string \<Rightarrow> bool" where
  "eb_overdue now b k =
     (case eb_pending b k of None \<Rightarrow> False
      | Some pe \<Rightarrow> pe_deadline pe \<noteq> zero_time \<and> now > pe_deadline pe)"

definition reap_collect :: "gotime \<Rightarrow> string list \<Rightarrow> 'p broker \<Rightarrow> 'p broker \<times> 'p evaluation list" where
  "reap_collect now ks b =
     (if eb_closed b then (b, [])
      else
        let xs = filter (eb_overdue now b) ks
        in (b\<lparr>eb_pending := (\<lambda>k. if k \<in> set xs then None else eb_pending b k)\<rparr>,
            map (\<lambda>k. pe_eval (the (eb_pending b k))) xs))"

fun reap_each :: "gotime \<Rightarrow> 'p evaluation list \<Rightarrow> 'p broker \<Rightarrow> 'p broker" where
  "reap_each now [] b = b"
| "reap_each now (e # es) b = reap_each now es (eb_enqueue now e (fst (eb_nack now (ev_id e) 0 b)))"

definition eb_reap :: "gotime \<Rightarrow> string list \<Rightarrow> 'p broker \<Rightarrow> 'p broker" where
  "eb_reap now ks b = (case reap_collect now ks b of (b1, es) \<Rightarrow> reap_each now es b1)"

subsection \<open>Lookup by identifier\<close>

lemma find_id_None: "find_id k es = None \<longleftrightarrow> k \<notin> ev_id ` set es"
  by (induction es) auto

lemma find_id_Some: "find_id k es = Some i \<Longrightarrow> i < length es \<and> ev_id (es ! i) = k"
  by (induction es arbitrary: i) (auto split: if_splits)

lemma ev_id_stamp [simp]: "ev_id (eb_stamp now e) = ev_id e"
  and ev_priority_stamp [simp]: "ev_priority (eb_stamp now e) = ev_priority e"
  by (simp_all add: eb_stamp_def)

lemma map_ev_id_update:
  "ev_id (xs ! i) = ev_id e \<Longrightarrow> map ev_id (xs[i := e]) = map ev_id xs"
  by (metis list_update_id map_update)

text \<open>What \<open>Enqueue\<close> can do: nothing, replace the entry of the same identifier, or push.\<close>

lemma eb_enqueue_cases:
  obtains (keep) "eb_enqueue now e b = b"
      "eb_closed b \<or> (\<exists>x \<in> set (eb_ready b). ev_id x = ev_id e \<and> ev_priority e \<le> ev_priority x)"
  | (replace) i where "\<not> eb_closed b" "i < length (eb_ready b)" "ev_id (eb_ready b ! i) = ev_id e"
      "ev_priority e > ev_priority (eb_ready b ! i)"
      "eb_enqueue now e b = b\<lparr>eb_ready := heap_fix pq_less ((eb_ready b)[i := eb_stamp now e]) i\<rparr>"
  | (push) "\<not> eb_closed b" "ev_id e \<notin> ev_id ` set (eb_ready b)"
      "eb_enqueue now e b = b\<lparr>eb_ready := heap_push pq_less (eb_ready b) (eb_stamp now e)\<rparr>"
proof (cases "eb_closed b")
  case True
  then show thesis by (intro keep) (simp_all add: eb_enqueue_def Let_def)
next
  case False
  show thesis
  proof (cases "find_id (ev_id e) (eb_ready b)")
    case None
    then have "ev_id e \<notin> ev_id ` set (eb_ready b)" by (simp add: find_id_None)
    with False None show thesis
      by (intro push) (simp_all add: eb_enqueue_def Let_def)
  next
    case (Some i)
    note i = find_id_Some [OF Some]
    show thesis
    proof (cases "ev_priority e > ev_priority (eb_ready b ! i)")
      case True
      with False Some i show thesis
        by (intro replace [of i]) (auto simp: eb_enqueue_def Let_def)
    next
      case lower: False
      with False Some i show thesis
        by (intro keep) (auto simp: eb_enqueue_def Let_def intro!: bexI [of _ "eb_ready b ! i"])
    qed
  qed
qed

lemma eb_enqueue_frame [simp]:
  "eb_cfg (eb_enqueue now e b) = eb_cfg b"
  "eb_pending (eb_enqueue now e b) = eb_pending b"
  "eb_dlq (eb_enqueue now e b) = eb_dlq b"
  "eb_attempts (eb_enqueue now e b) = eb_attempts b"
  "eb_closed (eb_enqueue now e b) = eb_closed b"
  by (simp_all add: eb_enqueue_def Let_def split: option.split)

subsection \<open>The invariant\<close>

text \<open>
  The ready slice is a heap without two entries of one identifier, a pending entry is kept
  under its own identifier, and no identifier has more counted nacks than the limit.
\<close>

definition eb_inv :: "'p broker \<Rightarrow> bool" where
  "eb_inv b \<longleftrightarrow>
     is_heap pq_less (eb_ready b) \<and> distinct (map ev_id (eb_ready b)) \<and>
     (\<forall>k pe. eb_pending b k = Some pe \<longrightarrow> ev_id (pe_eval pe) = k) \<and>
     (delivery_limit (eb_cfg b) > 0 \<longrightarrow>
        (\<forall>k. int (count_of (eb_attempts b) k) \<le> delivery_limit (eb_cfg b)))"

lemma eb_inv_new: "eb_inv (new_broker c)"
  by (simp add: eb_inv_def new_broker_def)

lemma eb_inv_pendingD: "eb_inv b \<Longrightarrow> eb_pending b k = Some pe \<Longrightarrow> ev_id (pe_eval pe) = k"
  by (simp add: eb_inv_def)

lemma distinct_ids_cong: "mset xs = mset ys \<Longrightarrow> distinct (map ev_id xs) = distinct (map ev_id ys)"
  by (metis mset_eq_imp_distinct_iff mset_map)

lemma eb_inv_enqueue: "eb_inv b \<Longrightarrow> eb_inv (eb_enqueue now e b)"
proof (cases rule: eb_enqueue_cases [of now e b])
  case keep
  then show "eb_inv b \<Longrightarrow> ?thesis" by simp
next
  case (replace i)
  assume inv: "eb_inv b"
  let ?r = "(eb_ready b)[i := eb_stamp now e]"
  have "mset (heap_fix pq_less ?r i) = mset ?r"
    using replace(2) by (simp add: mset_heap_fix)
  moreover have "distinct (map ev_id ?r)"
    using inv replace(3) by (simp add: eb_inv_def map_ev_id_update)
  ultimately have "distinct (map ev_id (heap_fix pq_less ?r i))"
    using distinct_ids_cong by blast
  moreover have "is_heap pq_less (heap_fix pq_less ?r i)"
    using inv replace(2) by (intro pq.is_heap_fix) (auto simp: eb_inv_def)
  ultimately show ?thesis using inv replace(5) by (simp add: eb_inv_def)
next
  case push
  assume inv: "eb_inv b"
  let ?r = "heap_push pq_less (eb_ready b) (eb_stamp now e)"
  have "mset ?r = mset (eb_stamp now e # eb_ready b)" by (simp add: mset_heap_push)
  then have "distinct (map ev_id ?r) = distinct (map ev_id (eb_stamp now e # eb_ready b))"
    by (rule distinct_ids_cong)
  then have "distinct (map ev_id ?r)"
    using inv push(2) by (simp add: eb_inv_def)
  moreover have "is_heap pq_less ?r"
    using inv by (intro pq.is_heap_push) (auto simp: eb_inv_def)
  ultimately show ?thesis using inv push(3) by (simp add: eb_inv_def)
qed

lemma eb_dequeue_Got:
  assumes "eb_dequeue now b = (b', Got e)"
  obtains r pe where "\<not> eb_closed b" "eb_ready b \<noteq> []" "heap_pop pq_less (eb_ready b) = (e, r)"
    "pe_eval pe = e" "b' = b\<lparr>eb_ready := r, eb_pending := (eb_pending b)(ev_id e \<mapsto> pe)\<rparr>"
proof -
  let ?pe = "\<lparr>pe_eval = e, pe_deadline = (if visibility_timeout (eb_cfg b) > 0
                 then now + visibility_timeout (eb_cfg b) else 0)\<rparr>"
  have "\<not> eb_closed b" "eb_ready b \<noteq> []" "e = fst (heap_pop pq_less (eb_ready b))"
    "b' = b\<lparr>eb_ready := snd (heap_pop pq_less (eb_ready b)),
            eb_pending := (eb_pending b)(ev_id e \<mapsto> ?pe)\<rparr>"
    using assms by (auto simp: eb_dequeue_def Let_def split: if_splits prod.splits)
  then show thesis
    by (intro that [of "snd (heap_pop pq_less (eb_ready b))" ?pe]) simp_all
qed

lemma eb_inv_dequeue:
  assumes inv: "eb_inv b" and dq: "eb_dequeue now b = (b', Got e)"
  shows "eb_inv b'"
proof -
  from dq obtain r pe where r: "eb_ready b \<noteq> []" "heap_pop pq_less (eb_ready b) = (e, r)"
    "pe_eval pe = e" "b' = b\<lparr>eb_ready := r, eb_pending := (eb_pending b)(ev_id e \<mapsto> pe)\<rparr>"
    by (rule eb_dequeue_Got)
  have h: "is_heap pq_less (eb_ready b)" using inv by (simp add: eb_inv_def)
  note pop = pq.heap_pop_correct [OF h r(1,2)]
  have "mset (eb_ready b) = mset (e # r)" using pop(3) by simp
  then have "distinct (map ev_id (eb_ready b)) = distinct (map ev_id (e # r))"
    by (rule distinct_ids_cong)
  then have "distinct (map ev_id (e # r))"
    using inv by (simp add: eb_inv_def)
  then show ?thesis using inv pop(2) r(3,4) by (auto simp: eb_inv_def)
qed

lemma eb_inv_ack: "eb_inv b \<Longrightarrow> eb_inv (eb_ack k b)"
  by (auto simp: eb_inv_def eb_ack_def count_of_def)

lemma eb_inv_nack_locked: "eb_inv b \<Longrightarrow> nack_locked k b = (b', r) \<Longrightarrow> eb_inv b'"
  by (auto simp: eb_inv_def nack_locked_def Let_def count_of_def split: option.splits if_splits)

lemma eb_inv_collect: "eb_inv b \<Longrightarrow> reap_collect now ks b = (b', es) \<Longrightarrow> eb_inv b'"
  by (auto simp: eb_inv_def reap_collect_def Let_def split: if_splits)

lemma eb_inv_close: "eb_inv b \<Longrightarrow> eb_inv (eb_close b)"
  by (simp add: eb_inv_def eb_close_def)

lemmas eb_inv_ops =
  eb_inv_enqueue eb_inv_dequeue eb_inv_ack eb_inv_nack_locked eb_inv_collect eb_inv_close

subsection \<open>The ready queue as a map\<close>

text \<open>What the ready slice promises: one evaluation per identifier.\<close>

definition ready_map :: "'p broker \<Rightarrow> string \<rightharpoonup> 'p evaluation" where
  "ready_map b = map_of (map (\<lambda>e. (ev_id e, e)) (eb_ready b))"

lemma ready_map_iff:
  assumes "eb_inv b"
  shows "ready_map b k = Some e \<longleftrightarrow> e \<in> set (eb_ready b) \<and> ev_id e = k"
proof -
  have "distinct (map fst (map (\<lambda>e. (ev_id e, e)) (eb_ready b)))"
    using assms by (simp add: eb_inv_def comp_def)
  from map_of_eq_Some_iff [OF this] show ?thesis by (auto simp: ready_map_def)
qed

lemma ready_map_eqI:
  assumes "eb_inv b'" and "\<And>k e. m k = Some e \<longleftrightarrow> e \<in> set (eb_ready b') \<and> ev_id e = k"
  shows "ready_map b' = m"
proof
  fix k
  show "ready_map b' k = m k"
    by (rule option_eqI) (simp add: assms(2) ready_map_iff [OF assms(1)])
qed

text \<open>Enqueueing an identifier that is already ready keeps the one of higher priority.\<close>

definition coalesce :: "'p evaluation option \<Rightarrow> 'p evaluation \<Rightarrow> 'p evaluation" where
  "coalesce old e = (case old of None \<Rightarrow> e | Some x \<Rightarrow> if ev_priority e > ev_priority x then e else x)"

lemma ready_unique:
  assumes "eb_inv b" "x \<in> set (eb_ready b)" "y \<in> set (eb_ready b)" "ev_id x = ev_id y"
  shows "x = y"
  using assms by (auto simp: eb_inv_def distinct_map dest: inj_onD)

lemma ready_map_enqueue:
  assumes inv: "eb_inv b" and opn: "\<not> eb_closed b"
  shows "ready_map (eb_enqueue now e b) =
    (ready_map b)(ev_id e \<mapsto> coalesce (ready_map b (ev_id e)) (eb_stamp now e))"
proof (rule ready_map_eqI [OF eb_inv_enqueue [OF inv]])
  fix k x
  show "((ready_map b)(ev_id e \<mapsto> coalesce (ready_map b (ev_id e)) (eb_stamp now e))) k = Some x
    \<longleftrightarrow> x \<in> set (eb_ready (eb_enqueue now e b)) \<and> ev_id x = k"
  proof (cases rule: eb_enqueue_cases [of now e b])
    case keep
    with opn obtain y where y: "y \<in> set (eb_ready b)" "ev_id y = ev_id e"
      "ev_priority e \<le> ev_priority y" by blast
    then have "ready_map b (ev_id e) = Some y" using ready_map_iff [OF inv] by blast
    then have "coalesce (ready_map b (ev_id e)) (eb_stamp now e) = y"
      using y(3) by (simp add: coalesce_def)
    then show ?thesis
      using y keep(1) ready_map_iff [OF inv] ready_unique [OF inv] by auto
  next
    case (replace i)
    let ?y = "eb_ready b ! i"
    have y: "?y \<in> set (eb_ready b)" using replace(2) by simp
    have old: "ready_map b (ev_id e) = Some ?y" using ready_map_iff [OF inv] y replace(3) by blast
    have "set (eb_ready (eb_enqueue now e b)) = set ((eb_ready b)[i := eb_stamp now e])"
      using replace(2,5) by (simp add: set_heap_fix)
    also have "\<dots> = insert (eb_stamp now e) (set (eb_ready b) - {?y})"
      using inv replace(2) set_update_distinct [of "eb_ready b" i "eb_stamp now e"]
      by (auto simp: eb_inv_def distinct_map)
    finally have set': "set (eb_ready (eb_enqueue now e b)) =
      insert (eb_stamp now e) (set (eb_ready b) - {?y})" .
    have "coalesce (ready_map b (ev_id e)) (eb_stamp now e) = eb_stamp now e"
      using replace(4) by (simp add: coalesce_def old)
    then show ?thesis
      unfolding set' using replace(3) ready_map_iff [OF inv] ready_unique [OF inv _ y] by auto
  next
    case push
    then have "ready_map b (ev_id e) = None"
      using ready_map_iff [OF inv] by (metis image_eqI not_Some_eq)
    moreover have "set (eb_ready (eb_enqueue now e b)) = insert (eb_stamp now e) (set (eb_ready b))"
      using push(3) by (simp add: set_heap_push)
    moreover have "coalesce (ready_map b (ev_id e)) (eb_stamp now e) = eb_stamp now e"
      using calculation(1) by (simp add: coalesce_def)
    ultimately show ?thesis
      using push(2) ready_map_iff [OF inv] by (auto simp: image_iff)
  qed
qed

lemma dequeue_best:
  assumes inv: "eb_inv b" and dq: "eb_dequeue now b = (b', Got e)"
  shows "ready_map b (ev_id e) = Some e"
    and "ready_map b' = (ready_map b)(ev_id e := None)"
    and "\<forall>x \<in> set (eb_ready b). \<not> pq_less x e"
    and "eb_pending b' (ev_id e) \<noteq> None"
proof -
  from dq obtain r pe where r: "eb_ready b \<noteq> []" "heap_pop pq_less (eb_ready b) = (e, r)"
    "pe_eval pe = e" "b' = b\<lparr>eb_ready := r, eb_pending := (eb_pending b)(ev_id e \<mapsto> pe)\<rparr>"
    by (rule eb_dequeue_Got)
  have h: "is_heap pq_less (eb_ready b)" using inv by (simp add: eb_inv_def)
  note pop = pq.heap_pop_correct [OF h r(1,2)]
  have m: "mset (eb_ready b) = mset (e # r)" using pop(3) by simp
  then have s: "set (eb_ready b) = insert e (set r)"
    by (metis list.simps(15) set_mset_mset)
  have "distinct (map ev_id (eb_ready b)) = distinct (map ev_id (e # r))"
    using m by (rule distinct_ids_cong)
  then have e: "ev_id e \<notin> ev_id ` set r" using inv by (simp add: eb_inv_def)
  show "ready_map b (ev_id e) = Some e" using ready_map_iff [OF inv] s by simp
  show "\<forall>x \<in> set (eb_ready b). \<not> pq_less x e"
    using pop(4) s pq.lt_irrefl by auto
  show "eb_pending b' (ev_id e) \<noteq> None" using r(4) by simp
  show "ready_map b' = (ready_map b)(ev_id e := None)"
    by (rule ready_map_eqI [OF eb_inv_dequeue [OF inv dq]])
       (use ready_map_iff [OF inv] s e r(4) in \<open>auto simp: image_iff split: if_splits\<close>)
qed

subsection \<open>The concurrent system\<close>

record 'p bsys =
  bk :: "'p broker"
  outbox :: "'p evaluation list"
  reaping :: "'p evaluation list"

datatype 'p eb_action =
    Enqueue gotime "'p evaluation"
  | Dequeue gotime
  | Ack string
  | Nack string
  | Fire gotime "'p evaluation"
  | Collect gotime "string list"
  | ReapNext
  | CloseBroker

fun requeued :: "'p nacked \<Rightarrow> 'p evaluation list" where
  "requeued (Requeue e) = [e]"
| "requeued _ = []"

text \<open>
  One rule per critical section: \<open>step_nack\<close> leaves the evaluation to be enqueued in the
  outbox (at once or when its timer fires, \<open>step_fire\<close>); \<open>step_reap\<close> is one round of the
  reaper's loop up to its \<open>Enqueue\<close>, which is again a \<open>step_fire\<close>.
\<close>

inductive eb_step :: "'p bsys \<Rightarrow> 'p eb_action \<Rightarrow> 'p bsys \<Rightarrow> bool" where
  step_enqueue: "eb_step s (Enqueue now e) (s\<lparr>bk := eb_enqueue now e (bk s)\<rparr>)"
| step_dequeue: "eb_dequeue now (bk s) = (b, Got e) \<Longrightarrow> eb_step s (Dequeue now) (s\<lparr>bk := b\<rparr>)"
| step_ack: "eb_step s (Ack k) (s\<lparr>bk := eb_ack k (bk s)\<rparr>)"
| step_nack: "nack_locked k (bk s) = (b, r) \<Longrightarrow>
    eb_step s (Nack k) (s\<lparr>bk := b, outbox := requeued r @ outbox s\<rparr>)"
| step_fire: "e \<in> set (outbox s) \<Longrightarrow>
    eb_step s (Fire now e) (s\<lparr>bk := eb_enqueue now e (bk s), outbox := remove1 e (outbox s)\<rparr>)"
| step_collect: "enumerates ks (eb_pending (bk s)) \<Longrightarrow> reaping s = [] \<Longrightarrow>
    reap_collect now ks (bk s) = (b, es) \<Longrightarrow>
    eb_step s (Collect now ks) (s\<lparr>bk := b, reaping := es\<rparr>)"
| step_reap: "reaping s = e # es \<Longrightarrow> nack_locked (ev_id e) (bk s) = (b, r) \<Longrightarrow>
    eb_step s ReapNext (s\<lparr>bk := b, outbox := e # requeued r @ outbox s, reaping := es\<rparr>)"
| step_close: "eb_step s CloseBroker (s\<lparr>bk := eb_close (bk s)\<rparr>)"

inductive eb_run :: "'p bsys \<Rightarrow> 'p eb_action list \<Rightarrow> 'p bsys \<Rightarrow> bool" where
  run_nil: "eb_run s [] s"
| run_cons: "eb_step s a t \<Longrightarrow> eb_run t as u \<Longrightarrow> eb_run s (a # as) u"

inductive_cases eb_stepE: "eb_step s a t"

definition bsys_init :: "eb_config \<Rightarrow> 'p bsys" where
  "bsys_init c = \<lparr>bk = new_broker c, outbox = [], reaping = []\<rparr>"

text \<open>Every place an evaluation can be in: the identifiers the system holds.\<close>

definition held :: "'p bsys \<Rightarrow> string set" where
  "held s = ev_id ` set (eb_ready (bk s)) \<union> dom (eb_pending (bk s)) \<union> ev_id ` set (eb_dlq (bk s))
     \<union> ev_id ` set (outbox s) \<union> ev_id ` set (reaping s)"

lemma eb_step_inv: "eb_step s a t \<Longrightarrow> eb_inv (bk s) \<Longrightarrow> eb_inv (bk t)"
  by (erule eb_stepE) (auto intro: eb_inv_ops)

lemma eb_run_inv: "eb_run s as t \<Longrightarrow> eb_inv (bk s) \<Longrightarrow> eb_inv (bk t)"
  by (induction rule: eb_run.induct) (auto intro: eb_step_inv)

lemma ready_ids_enqueue:
  assumes "\<not> eb_closed b"
  shows "ev_id ` set (eb_ready (eb_enqueue now e b)) = insert (ev_id e) (ev_id ` set (eb_ready b))"
proof (cases rule: eb_enqueue_cases [of now e b])
  case keep
  with assms show ?thesis by (metis image_eqI insert_absorb)
next
  case (replace i)
  have "map ev_id ((eb_ready b)[i := eb_stamp now e]) = map ev_id (eb_ready b)"
    using replace(3) by (simp add: map_ev_id_update)
  then have "ev_id ` set ((eb_ready b)[i := eb_stamp now e]) = ev_id ` set (eb_ready b)"
    by (metis list.set_map)
  moreover have "ev_id e \<in> ev_id ` set (eb_ready b)"
    using replace(2,3) by (metis image_eqI nth_mem)
  ultimately show ?thesis using replace(2,5) by (simp add: set_heap_fix insert_absorb)
next
  case push
  then show ?thesis by (simp add: set_heap_push)
qed

lemma nack_locked_held:
  assumes inv: "eb_inv b" and n: "nack_locked k b = (b', r)"
  shows "dom (eb_pending b) \<union> ev_id ` set (eb_dlq b)
    \<subseteq> dom (eb_pending b') \<union> ev_id ` set (eb_dlq b') \<union> ev_id ` set (requeued r)"
    and "eb_ready b' = eb_ready b" and "eb_closed b' = eb_closed b"
  using n eb_inv_pendingD [OF inv]
  by (auto simp: nack_locked_def Let_def split: option.splits if_splits)

lemma reap_collect_held:
  assumes inv: "eb_inv b" and c: "reap_collect now ks b = (b', es)"
  shows "dom (eb_pending b) \<subseteq> dom (eb_pending b') \<union> ev_id ` set es"
    and "eb_ready b' = eb_ready b" and "eb_closed b' = eb_closed b" and "eb_dlq b' = eb_dlq b"
proof -
  show "dom (eb_pending b) \<subseteq> dom (eb_pending b') \<union> ev_id ` set es"
  proof
    fix k assume "k \<in> dom (eb_pending b)"
    then obtain pe where pe: "eb_pending b k = Some pe" by blast
    show "k \<in> dom (eb_pending b') \<union> ev_id ` set es"
    proof (cases "eb_pending b' k")
      case None
      then have "pe_eval pe \<in> set es"
        using c pe by (force simp: reap_collect_def Let_def split: if_splits)
      then show ?thesis using eb_inv_pendingD [OF inv pe] by blast
    qed auto
  qed
qed (use c in \<open>auto simp: reap_collect_def Let_def split: if_splits\<close>)

lemma eb_step_open: "eb_step s a t \<Longrightarrow> a \<noteq> CloseBroker \<Longrightarrow> eb_closed (bk t) = eb_closed (bk s)"
  by (erule eb_stepE)
     (auto simp: eb_dequeue_def eb_ack_def nack_locked_def reap_collect_def Let_def
       split: option.splits if_splits prod.splits)

lemma eb_step_held:
  assumes st: "eb_step s a t" and inv: "eb_inv (bk s)" and opn: "\<not> eb_closed (bk s)"
    and k: "k \<in> held s" "a \<noteq> Ack k"
  shows "k \<in> held t"
  using st
proof cases
  case (step_enqueue now e)
  then show ?thesis using k ready_ids_enqueue [OF opn] by (auto simp: held_def)
next
  case (step_dequeue now b e)
  then obtain r pe where r: "eb_ready (bk s) \<noteq> []" "heap_pop pq_less (eb_ready (bk s)) = (e, r)"
    "b = (bk s)\<lparr>eb_ready := r, eb_pending := (eb_pending (bk s))(ev_id e \<mapsto> pe)\<rparr>"
    by (auto elim: eb_dequeue_Got)
  have h: "is_heap pq_less (eb_ready (bk s))" using inv by (simp add: eb_inv_def)
  have "mset (eb_ready (bk s)) = mset (e # r)"
    using pq.heap_pop_correct(3) [OF h r(1,2)] by simp
  then have "set (eb_ready (bk s)) = insert e (set r)" by (metis list.simps(15) set_mset_mset)
  then show ?thesis using k step_dequeue r(3) by (auto simp: held_def)
next
  case (step_ack j)
  then show ?thesis using k by (auto simp: held_def eb_ack_def)
next
  case (step_nack j b r)
  then show ?thesis using k nack_locked_held [OF inv step_nack(3)] by (auto simp: held_def)
next
  case (step_fire e now)
  have "set (outbox s) \<subseteq> insert e (set (remove1 e (outbox s)))"
    by (metis insert_absorb order_refl set_remove1_subset subset_insertI2 notin_set_remove1
        in_set_remove1 subsetI insertCI)
  then show ?thesis
    using k step_fire ready_ids_enqueue [OF opn] by (auto simp: held_def)
next
  case (step_collect ks now b es)
  then show ?thesis using k reap_collect_held [OF inv step_collect(5)] by (auto simp: held_def)
next
  case (step_reap e es b r)
  then show ?thesis using k nack_locked_held [OF inv step_reap(4)] by (auto simp: held_def)
next
  case step_close
  then show ?thesis using k by (auto simp: held_def eb_close_def)
qed


lemma eb_run_one: "eb_step s a t \<Longrightarrow> eb_run s [a] t"
  by (rule run_cons [OF _ run_nil])

lemma eb_run_held:
  "eb_run s as t \<Longrightarrow> eb_inv (bk s) \<Longrightarrow> \<not> eb_closed (bk s) \<Longrightarrow> CloseBroker \<notin> set as \<Longrightarrow>
   Ack k \<notin> set as \<Longrightarrow> k \<in> held s \<Longrightarrow> k \<in> held t"
proof (induction rule: eb_run.induct)
  case (run_cons s a t as u)
  then have "a \<noteq> CloseBroker" "a \<noteq> Ack k" by auto
  then have "\<not> eb_closed (bk t)" "eb_inv (bk t)" "k \<in> held t"
    using run_cons.hyps(1) run_cons.prems eb_step_open eb_step_inv eb_step_held by blast+
  then show ?case using run_cons by simp
qed

lemma eb_run_init_inv: "eb_run (bsys_init c) as s \<Longrightarrow> eb_inv (bk s)"
  using eb_run_inv [of "bsys_init c"] by (simp add: bsys_init_def eb_inv_new)

subsection \<open>A tick of the reaper\<close>

text \<open>An identifier that has just left the pending set makes \<open>Nack\<close> return at once.\<close>

lemma eb_nack_not_pending: "eb_pending b k = None \<Longrightarrow> eb_nack now k d b = (b, False, None)"
  by (simp add: eb_nack_def nack_locked_def)

lemma reap_each_frame:
  "\<forall>e \<in> set es. eb_pending b (ev_id e) = None \<Longrightarrow>
   eb_attempts (reap_each now es b) = eb_attempts b \<and> eb_dlq (reap_each now es b) = eb_dlq b \<and>
   eb_pending (reap_each now es b) = eb_pending b \<and> eb_closed (reap_each now es b) = eb_closed b"
  by (induction now es b rule: reap_each.induct) (auto simp: eb_nack_not_pending)

lemma reap_each_ready:
  "\<forall>e \<in> set es. eb_pending b (ev_id e) = None \<Longrightarrow> \<not> eb_closed b \<Longrightarrow>
   ev_id ` set (eb_ready (reap_each now es b)) = ev_id ` set es \<union> ev_id ` set (eb_ready b)"
  by (induction now es b rule: reap_each.induct)
     (auto simp: eb_nack_not_pending ready_ids_enqueue)

lemma reap_collect_open:
  "\<not> eb_closed b \<Longrightarrow> reap_collect now ks b =
     (b\<lparr>eb_pending := (\<lambda>k. if k \<in> set (filter (eb_overdue now b) ks) then None else eb_pending b k)\<rparr>,
      map (\<lambda>k. pe_eval (the (eb_pending b k))) (filter (eb_overdue now b) ks))"
  by (simp add: reap_collect_def Let_def)

lemma eb_overdue_id:
  assumes "eb_inv b" "eb_overdue now b k"
  shows "ev_id (pe_eval (the (eb_pending b k))) = k"
  using assms eb_inv_pendingD by (fastforce simp: eb_overdue_def split: option.splits)

lemma reap_collect_ids:
  assumes inv: "eb_inv b" and c: "reap_collect now ks b = (b', es)"
  shows "\<forall>e \<in> set es. eb_pending b' (ev_id e) = None"
    and "\<not> eb_closed b \<Longrightarrow> ev_id ` set es = {k \<in> set ks. eb_overdue now b k}"
proof -
  show "\<forall>e \<in> set es. eb_pending b' (ev_id e) = None"
  proof (cases "eb_closed b")
    case False
    then show ?thesis using c eb_overdue_id [OF inv] by (auto simp: reap_collect_open)
  qed (use c in \<open>simp add: reap_collect_def\<close>)
  show "\<not> eb_closed b \<Longrightarrow> ev_id ` set es = {k \<in> set ks. eb_overdue now b k}"
    using c eb_overdue_id [OF inv] by (force simp: reap_collect_open image_def)
qed

subsection \<open>Properties\<close>

text \<open>C1. No silent loss: under any interleaving of enqueues, dequeues, nacks, timers and
  reaper ticks, an evaluation the broker holds stays held (ready, in flight, awaiting
  re-enqueue or dead-lettered) until its own Ack, as long as the broker is not closed.\<close>

theorem eval_never_lost:
  assumes "eb_run (bsys_init c) as s" "\<not> eb_closed (bk s)" "k \<in> held s"
    and "eb_run s bs t" "Ack k \<notin> set bs" "CloseBroker \<notin> set bs"
  shows "k \<in> held t"
  using eb_run_held [OF assms(4) eb_run_init_inv [OF assms(1)] assms(2,6,5,3)] .

text \<open>C3. Every state the concurrent broker reaches keeps its ready slice a heap with one
  entry per identifier, pending entries under their own identifier and attempt counters within
  the delivery limit.\<close>

theorem broker_reachable_inv: "eb_run (bsys_init c) as s \<Longrightarrow> eb_inv (bk s)"
  by (rule eb_run_init_inv)

text \<open>Enqueue coalesces: on the map from identifiers to ready evaluations it is an update
  that keeps, of the old and the new evaluation of that identifier, the one of higher priority
  (the old one on a tie), and touches no other identifier.\<close>

theorem enqueue_coalesces:
  assumes "eb_inv b" "\<not> eb_closed b"
  shows "ready_map (eb_enqueue now e b) =
    (ready_map b)(ev_id e \<mapsto> coalesce (ready_map b (ev_id e)) (eb_stamp now e))"
  using assms by (rule ready_map_enqueue)

text \<open>Dequeue returns an evaluation no ready one precedes (priority first, then age),
  removes exactly it from the ready map and records it as pending.\<close>

theorem dequeue_highest_first:
  assumes "eb_inv b" "eb_dequeue now b = (b', Got e)"
  shows "ready_map b (ev_id e) = Some e \<and> (\<forall>x \<in> set (eb_ready b). \<not> pq_less x e) \<and>
    ready_map b' = (ready_map b)(ev_id e := None) \<and> eb_pending b' (ev_id e) \<noteq> None"
  using dequeue_best [OF assms] by blast

text \<open>A nack moves an evaluation to the dead-letter queue exactly when it has already
  been nacked as often as a positive delivery limit allows; otherwise the evaluation itself is
  handed back for redelivery, one more attempt is counted and the dead-letter queue is
  unchanged.\<close>

theorem nack_delivery_limit:
  assumes "eb_pending b k = Some pe"
  shows "(snd (nack_locked k b) = DeadLetter \<longleftrightarrow>
      delivery_limit (eb_cfg b) > 0 \<and> delivery_limit (eb_cfg b) \<le> int (count_of (eb_attempts b) k)) \<and>
    (if snd (nack_locked k b) = DeadLetter
     then eb_dlq (fst (nack_locked k b)) = eb_dlq b @ [pe_eval pe] \<and>
       eb_attempts (fst (nack_locked k b)) k = None
     else snd (nack_locked k b) = Requeue (pe_eval pe) \<and> eb_dlq (fst (nack_locked k b)) = eb_dlq b \<and>
       count_of (eb_attempts (fst (nack_locked k b))) k = Suc (count_of (eb_attempts b) k)) \<and>
    eb_pending (fst (nack_locked k b)) k = None"
  using assms by (auto simp: nack_locked_def Let_def)

text \<open>A reaper tick makes every overdue evaluation ready again and leaves no overdue
  one pending, but it never counts a delivery attempt and never dead-letters: the identifier
  has left the pending set before its Nack is called, so the Nack returns at once.\<close>

theorem reap_redelivers_uncounted:
  assumes "eb_inv b" "\<not> eb_closed b" "enumerates ks (eb_pending b)"
  shows "ev_id ` set (eb_ready (eb_reap now ks b)) =
      ev_id ` set (eb_ready b) \<union> {k. eb_overdue now b k} \<and>
    (\<forall>k. \<not> eb_overdue now (eb_reap now ks b) k) \<and>
    eb_attempts (eb_reap now ks b) = eb_attempts b \<and> eb_dlq (eb_reap now ks b) = eb_dlq b"
proof -
  obtain b1 es where c: "reap_collect now ks b = (b1, es)" by fastforce
  note ids = reap_collect_ids [OF assms(1) c]
  have ks: "{k \<in> set ks. eb_overdue now b k} = {k. eb_overdue now b k}"
    using assms(3) by (auto simp: enumerates_def eb_overdue_def split: option.splits)
  have b1: "eb_ready b1 = eb_ready b" "eb_closed b1 = eb_closed b" "eb_dlq b1 = eb_dlq b"
    "eb_attempts b1 = eb_attempts b"
    using c assms(2) by (auto simp: reap_collect_open)
  have b1': "\<not> eb_overdue now b1 k" for k
    using c assms(2) enumerates_None [OF assms(3), of k]
    by (auto simp: reap_collect_open eb_overdue_def split: option.splits if_splits)
  have "eb_overdue now (reap_each now es b1) k = eb_overdue now b1 k" for k
    using reap_each_frame [OF ids(1)] by (simp add: eb_overdue_def)
  then show ?thesis
    using reap_each_frame [OF ids(1), of now] reap_each_ready [OF ids(1), of now] ids(2) b1 b1' ks assms(2)
    by (simp add: eb_reap_def c Un_commute)
qed


subsection \<open>Witnesses\<close>

text \<open>A broker with one nack allowed, two ready evaluations and one in flight past its deadline.\<close>

definition demo_eval :: "string \<Rightarrow> int \<Rightarrow> unit evaluation" where
  "demo_eval k p = \<lparr>ev_id = k, ev_priority = p, ev_type = [], ev_payload = (), ev_create = 5\<rparr>"

definition demo_cfg :: eb_config where
  "demo_cfg = \<lparr>delivery_limit = 1, nack_timeout = 0, visibility_timeout = 10\<rparr>"

definition demo_broker :: "unit broker" where
  "demo_broker = \<lparr>eb_cfg = demo_cfg, eb_ready = [demo_eval ''a'' 3, demo_eval ''b'' 1],
     eb_pending = [''c'' \<mapsto> \<lparr>pe_eval = demo_eval ''c'' 2, pe_deadline = 15\<rparr>],
     eb_dlq = [], eb_attempts = [''c'' \<mapsto> 1], eb_closed = False\<rparr>"

lemma demo_broker_inv: "eb_inv demo_broker"
  by (auto simp: eb_inv_def demo_broker_def demo_cfg_def demo_eval_def heap_upto_def pq_less_def
      less_Suc_eq count_of_def)

definition demo_sys :: "unit bsys" where
  "demo_sys = (bsys_init demo_cfg)\<lparr>bk := eb_enqueue 5 (demo_eval ''a'' 3) (bk (bsys_init demo_cfg))\<rparr>"

lemma demo_run: "eb_run (bsys_init demo_cfg) [Enqueue 5 (demo_eval ''a'' 3)] demo_sys"
  unfolding demo_sys_def by (rule eb_run_one [OF step_enqueue])

theorem eval_never_lost_witness:
  "\<exists>t. eb_run demo_sys [Dequeue 7] t \<and> ''a'' \<in> held t"
proof -
  have o: "\<not> eb_closed (bk demo_sys)"
    by (simp add: demo_sys_def bsys_init_def new_broker_def)
  have h: "''a'' \<in> held demo_sys"
    by (simp add: held_def demo_sys_def bsys_init_def ready_ids_enqueue new_broker_def demo_eval_def)
  have "snd (eb_dequeue 7 (bk demo_sys)) = Got (demo_eval ''a'' 3)"
    by (simp add: demo_sys_def bsys_init_def new_broker_def eb_enqueue_def Let_def eb_dequeue_def
        eb_stamp_def demo_eval_def)
  then have "eb_dequeue 7 (bk demo_sys) = (fst (eb_dequeue 7 (bk demo_sys)), Got (demo_eval ''a'' 3))"
    by (metis prod.collapse)
  then have r: "eb_run demo_sys [Dequeue 7] (demo_sys\<lparr>bk := fst (eb_dequeue 7 (bk demo_sys))\<rparr>)"
    by (rule eb_run_one [OF step_dequeue])
  show ?thesis using r eval_never_lost [OF demo_run o h r] by auto
qed

theorem broker_reachable_inv_witness: "eb_inv (bk demo_sys)"
  by (rule broker_reachable_inv [OF demo_run])

theorem enqueue_coalesces_witness:
  "ready_map (eb_enqueue 9 (demo_eval ''b'' 7) demo_broker) ''b'' = Some (demo_eval ''b'' 7)"
  by (subst enqueue_coalesces [OF demo_broker_inv])
     (simp_all add: demo_broker_def demo_eval_def ready_map_def coalesce_def eb_stamp_def)

theorem dequeue_highest_first_witness:
  "\<exists>b'. eb_dequeue 7 demo_broker = (b', Got (demo_eval ''a'' 3)) \<and> ready_map b' ''a'' = None"
proof -
  have "snd (eb_dequeue 7 demo_broker) = Got (demo_eval ''a'' 3)"
    by (simp add: demo_broker_def demo_cfg_def eb_dequeue_def heap_pop_def heap_down.simps swap_at_def
        demo_eval_def)
  then obtain b' where d: "eb_dequeue 7 demo_broker = (b', Got (demo_eval ''a'' 3))"
    by (metis prod.collapse)
  from dequeue_highest_first [OF demo_broker_inv d] d show ?thesis
    by (auto simp: demo_eval_def)
qed

theorem nack_delivery_limit_witness:
  "snd (nack_locked ''c'' demo_broker) = DeadLetter"
  using nack_delivery_limit [of demo_broker "''c''" "\<lparr>pe_eval = demo_eval ''c'' 2, pe_deadline = 15\<rparr>"]
  by (simp add: demo_broker_def demo_cfg_def)

theorem reap_redelivers_uncounted_witness:
  "''c'' \<in> ev_id ` set (eb_ready (eb_reap 20 [''c''] demo_broker)) \<and>
   eb_attempts (eb_reap 20 [''c''] demo_broker) ''c'' = Some 1"
  using reap_redelivers_uncounted [OF demo_broker_inv, of "[''c'']" 20]
  by (simp add: enumerates_def demo_broker_def eb_overdue_def)

end
