(* ===== verification/Plan_Applier.thy ===== *)
theory Plan_Applier
  imports Prelude
begin

section \<open>The plan applier (internal/planner/applier.go)\<close>

text \<open>
  The serialising committer of scheduler plans: it keeps, per node, a total and a used
  resource vector and the demand of every committed allocation, and commits the part of a
  plan that still fits. \<open>int64\<close> fields are integers and every sum and difference of the
  code is wrapped with \<open>i64\<close>. The eviction loop ranges over the node map; the order of the
  \<open>i\<close>-th such range is the argument \<open>ord i\<close>.
\<close>

subsection \<open>Resources\<close>

record resources =
  r_cpu :: int
  r_mem :: int
  r_disk :: int

definition res_add :: "resources \<Rightarrow> resources \<Rightarrow> resources" where
  "res_add a b = \<lparr>r_cpu = i64 (r_cpu a + r_cpu b), r_mem = i64 (r_mem a + r_mem b),
                  r_disk = i64 (r_disk a + r_disk b)\<rparr>"

definition res_fits :: "resources \<Rightarrow> resources \<Rightarrow> bool" where
  "res_fits a b \<longleftrightarrow> r_cpu a \<ge> r_cpu b \<and> r_mem a \<ge> r_mem b \<and> r_disk a \<ge> r_disk b"

definition clamp0 :: "int \<Rightarrow> int" where
  "clamp0 x = (if x < 0 then 0 else x)"

definition res_sub :: "resources \<Rightarrow> resources \<Rightarrow> resources" where
  "res_sub a b = \<lparr>r_cpu = clamp0 (i64 (r_cpu a - r_cpu b)), r_mem = clamp0 (i64 (r_mem a - r_mem b)),
                  r_disk = clamp0 (i64 (r_disk a - r_disk b))\<rparr>"

definition no_resources :: resources where
  "no_resources = \<lparr>r_cpu = 0, r_mem = 0, r_disk = 0\<rparr>"

text \<open>Facts hold field by field, so they are stated over the dimension read.\<close>

datatype dim = Cpu | Mem | Disk

fun fld :: "dim \<Rightarrow> resources \<Rightarrow> int" where
  "fld Cpu r = r_cpu r"
| "fld Mem r = r_mem r"
| "fld Disk r = r_disk r"

definition res_ok :: "resources \<Rightarrow> bool" where
  "res_ok r \<longleftrightarrow> (\<forall>d. 0 \<le> fld d r \<and> fld d r \<le> max_i64)"

lemma fld_add: "fld d (res_add a b) = i64 (fld d a + fld d b)"
  by (cases d) (auto simp: res_add_def)

lemma fld_sub: "fld d (res_sub a b) = clamp0 (i64 (fld d a - fld d b))"
  by (cases d) (auto simp: res_sub_def)

lemma fld_none [simp]: "fld d no_resources = 0"
  by (cases d) (auto simp: no_resources_def)

lemma all_dim: "(\<forall>d. P d) \<longleftrightarrow> P Cpu \<and> P Mem \<and> P Disk"
  by (metis dim.exhaust)

lemma res_fits_fld: "res_fits a b \<longleftrightarrow> (\<forall>d. fld d b \<le> fld d a)"
  by (simp add: all_dim res_fits_def)

lemma fld_sub_ok: "res_ok a \<Longrightarrow> res_ok b \<Longrightarrow> fld d (res_sub a b) = max 0 (fld d a - fld d b)"
proof -
  assume "res_ok a" "res_ok b"
  then have "0 \<le> fld d a" "fld d a \<le> max_i64" "0 \<le> fld d b" "fld d b \<le> max_i64"
    by (simp_all add: res_ok_def)
  then show ?thesis by (simp add: fld_sub clamp0_def i64_id)
qed

lemma res_ok_none [simp]: "res_ok no_resources"
  by (simp add: res_ok_def)

lemma res_ok_sub:
  assumes "res_ok a" "res_ok b"
  shows "res_ok (res_sub a b)" and "res_fits a (res_sub a b)"
proof -
  have "0 \<le> fld d (res_sub a b) \<and> fld d (res_sub a b) \<le> fld d a \<and> fld d a \<le> max_i64" for d
    using assms by (simp add: fld_sub_ok) (simp add: res_ok_def)
  then show "res_ok (res_sub a b)" "res_fits a (res_sub a b)"
    unfolding res_ok_def res_fits_fld by (meson order_trans)+
qed

text \<open>The step of the commit loop: what fits into the available part can be added.\<close>

lemma res_fits_add:
  assumes "res_ok tot" "res_ok used" "res_ok r" "res_fits tot used"
    and "res_fits (res_sub tot used) r"
  shows "res_fits tot (res_add used r)" and "res_ok (res_add used r)"
    and "fld d (res_add used r) = fld d used + fld d r"
proof -
  have sum: "0 \<le> fld d used + fld d r \<and> fld d used + fld d r \<le> fld d tot" for d
  proof -
    have "fld d r \<le> max 0 (fld d tot - fld d used)" "fld d used \<le> fld d tot"
      using assms(4,5) by (simp_all add: res_fits_fld fld_sub_ok [OF assms(1,2)])
    then show ?thesis using assms(2,3) by (auto simp: res_ok_def max_def split: if_splits)
  qed
  have eq: "fld d (res_add used r) = fld d used + fld d r" for d
  proof -
    have "fld d tot \<le> max_i64" using assms(1) by (simp add: res_ok_def)
    then show ?thesis using sum [of d] by (simp add: fld_add i64_id)
  qed
  then show "fld d (res_add used r) = fld d used + fld d r" .
  show "res_fits tot (res_add used r)" using sum eq by (simp add: res_fits_fld)
  show "res_ok (res_add used r)"
    using sum eq assms(1) order_trans unfolding res_ok_def by metis
qed

subsection \<open>State and operations\<close>

record allocation =
  al_id :: string
  al_node :: string
  al_res :: resources
  al_job :: string

record plan =
  pl_scheduler :: string
  pl_snapshot :: "64 word"
  pl_add :: "allocation list"
  pl_evict :: "string list"

record plan_result =
  pr_index :: "64 word"
  pr_committed :: "allocation list"
  pr_rejected :: "allocation list"
  pr_evicted :: "string list"

record node_state =
  nd_id :: string
  nd_total :: resources
  nd_used :: resources
  nd_allocs :: "string \<rightharpoonup> resources"

type_synonym node_map = "string \<rightharpoonup> node_state"

record applier =
  ap_nodes :: node_map
  ap_index :: "64 word"

datatype plan_error = UnknownNode

definition is_partial :: "plan_result \<Rightarrow> bool" where
  "is_partial r \<longleftrightarrow> length (pr_rejected r) > 0"

definition nd_available :: "node_state \<Rightarrow> resources" where
  "nd_available n = res_sub (nd_total n) (nd_used n)"

definition new_applier :: applier where
  "new_applier = \<lparr>ap_nodes = Map.empty, ap_index = 1\<rparr>"

definition upsert_node :: "string \<Rightarrow> resources \<Rightarrow> applier \<Rightarrow> applier" where
  "upsert_node k tot a =
     (case ap_nodes a k of
        Some n \<Rightarrow> a\<lparr>ap_nodes := (ap_nodes a)(k \<mapsto> n\<lparr>nd_total := tot\<rparr>)\<rparr>
      | None \<Rightarrow> a\<lparr>ap_nodes := (ap_nodes a)(k \<mapsto> \<lparr>nd_id = k, nd_total = tot, nd_used = no_resources,
                                                 nd_allocs = Map.empty\<rparr>),
                  ap_index := ap_index a + 1\<rparr>)"

definition ap_snapshot :: "applier \<Rightarrow> 64 word" where
  "ap_snapshot a = ap_index a"

definition nd_evict :: "string \<Rightarrow> resources \<Rightarrow> node_state \<Rightarrow> node_state" where
  "nd_evict aid r n = n\<lparr>nd_used := res_sub (nd_used n) r, nd_allocs := (nd_allocs n)(aid := None)\<rparr>"

text \<open>The inner eviction loop: the first node, in range order, that holds the allocation.\<close>

fun evict_from :: "string list \<Rightarrow> string \<Rightarrow> node_map \<Rightarrow> node_map" where
  "evict_from [] aid ns = ns"
| "evict_from (k # ks) aid ns =
     (case ns k of
        None \<Rightarrow> evict_from ks aid ns
      | Some n \<Rightarrow>
          (case nd_allocs n aid of
             None \<Rightarrow> evict_from ks aid ns
           | Some r \<Rightarrow> ns(k \<mapsto> nd_evict aid r n)))"

fun evict_all :: "(nat \<Rightarrow> string list) \<Rightarrow> nat \<Rightarrow> string list \<Rightarrow> node_map \<Rightarrow> node_map" where
  "evict_all ord i [] ns = ns"
| "evict_all ord i (aid # ids) ns = evict_all ord (Suc i) ids (evict_from (ord i) aid ns)"

text \<open>
  The commit loop, returning the nodes, the committed and the rejected allocations. Every
  target node was looked up before the loop, so the lookup that Go would dereference always
  succeeds; \<open>Panic\<close> is the nil dereference.
\<close>

definition nd_commit :: "allocation \<Rightarrow> node_state \<Rightarrow> node_state" where
  "nd_commit al n = n\<lparr>nd_used := res_add (nd_used n) (al_res al),
                      nd_allocs := (nd_allocs n)(al_id al \<mapsto> al_res al)\<rparr>"

fun place_all :: "allocation list \<Rightarrow> node_map
    \<Rightarrow> (plan_error, node_map \<times> allocation list \<times> allocation list) outcome" where
  "place_all [] ns = Ok (ns, [], [])"
| "place_all (al # als) ns =
     (case ns (al_node al) of
        None \<Rightarrow> Panic
      | Some n \<Rightarrow>
          if \<not> res_fits (nd_available n) (al_res al)
          then outcome_bind (place_all als ns) (\<lambda>(ns', cs, rs). Ok (ns', cs, al # rs))
          else outcome_bind (place_all als (ns(al_node al \<mapsto> nd_commit al n)))
                 (\<lambda>(ns', cs, rs). Ok (ns', al # cs, rs)))"

definition submit :: "(nat \<Rightarrow> string list) \<Rightarrow> plan \<Rightarrow> applier
    \<Rightarrow> applier \<times> (plan_error, plan_result) outcome" where
  "submit ord p a =
     (if \<exists>al \<in> set (pl_add p). ap_nodes a (al_node al) = None then (a, Err UnknownNode)
      else case place_all (pl_add p) (evict_all ord 0 (pl_evict p) (ap_nodes a)) of
        Ok (ns, cs, rs) \<Rightarrow>
          (\<lparr>ap_nodes = ns, ap_index = ap_index a + 1\<rparr>,
           Ok \<lparr>pr_index = ap_index a + 1, pr_committed = cs, pr_rejected = rs, pr_evicted = pl_evict p\<rparr>)
      | Err e \<Rightarrow> (a, Err e)
      | Panic \<Rightarrow> (a, Panic))"

subsection \<open>Eviction\<close>

lemma evict_from_cases:
  obtains (none) "evict_from ks aid ns = ns" "\<forall>k \<in> set ks. \<forall>n. ns k = Some n \<longrightarrow> nd_allocs n aid = None"
  | (one) k n r where "k \<in> set ks" "ns k = Some n" "nd_allocs n aid = Some r"
      "evict_from ks aid ns = ns(k \<mapsto> nd_evict aid r n)"
proof -
  define P where "P ns' \<longleftrightarrow> (ns' = ns \<and> (\<forall>k \<in> set ks. \<forall>n. ns k = Some n \<longrightarrow> nd_allocs n aid = None)) \<or>
    (\<exists>k n r. k \<in> set ks \<and> ns k = Some n \<and> nd_allocs n aid = Some r \<and> ns' = ns(k \<mapsto> nd_evict aid r n))" for ns'
  have "P (evict_from ks aid ns)"
    unfolding P_def
  proof (induction ks)
    case (Cons k ks)
    show ?case
    proof (cases "\<exists>n r. ns k = Some n \<and> nd_allocs n aid = Some r")
      case True
      then show ?thesis by (intro disjI2) (auto simp del: fun_upd_apply)
    next
      case False
      then have "evict_from (k # ks) aid ns = evict_from ks aid ns"
        by (auto split: option.splits)
      then show ?thesis using Cons False by (metis (no_types) not_Some_eq set_ConsD list.set_intros(2))
    qed
  qed simp
  then show thesis
    unfolding P_def by (elim disjE exE conjE) (erule (1) none, erule (3) one)
qed

text \<open>Any property of nodes that the removal of one allocation keeps survives all evictions.\<close>

lemma evict_all_keeps:
  assumes step: "\<And>n aid r. P n \<Longrightarrow> nd_allocs n aid = Some r \<Longrightarrow> P (nd_evict aid r n)"
  shows "\<forall>n \<in> ran ns. P n \<Longrightarrow> \<forall>n \<in> ran (evict_all ord i ids ns). P n"
proof (induction ids arbitrary: i ns)
  case (Cons aid ids)
  have "\<forall>n \<in> ran (evict_from (ord i) aid ns). P n"
  proof (cases rule: evict_from_cases [of "ord i" aid ns])
    case (one k n r)
    have "P (nd_evict aid r n)" using Cons.prems one(2) by (intro step [OF _ one(3)]) (auto intro: ranI)
    moreover have "ran (ns(k \<mapsto> nd_evict aid r n)) \<subseteq> insert (nd_evict aid r n) (ran ns)"
      by (auto simp: ran_def)
    ultimately show ?thesis using Cons.prems one(4) by auto
  qed (use Cons.prems in simp)
  then show ?case by (simp add: Cons.IH)
qed simp

lemma dom_upd_Some: "m k = Some x \<Longrightarrow> dom (m(k \<mapsto> y)) = dom m"
  by (simp add: insert_absorb domI)

lemma dom_evict_from [simp]: "dom (evict_from ks aid ns) = dom ns"
proof (cases rule: evict_from_cases [of ks aid ns])
  case (one k n r)
  then show ?thesis by (simp only: dom_upd_Some)
qed simp

lemma dom_evict_all [simp]: "dom (evict_all ord i ids ns) = dom ns"
  by (induction ids arbitrary: i ns) simp_all

subsection \<open>The commit loop\<close>

text \<open>Its induction, on the successful runs: what \<open>place_all\<close> does to the head and the tail.\<close>

lemma place_all_Cons_Ok:
  assumes "place_all (al # als) ns = Ok (ns', cs, rs)"
  obtains (reject) n rs' where "ns (al_node al) = Some n" "\<not> res_fits (nd_available n) (al_res al)"
      "place_all als ns = Ok (ns', cs, rs')" "rs = al # rs'"
  | (commit) n cs' where "ns (al_node al) = Some n" "res_fits (nd_available n) (al_res al)"
      "place_all als (ns(al_node al \<mapsto> nd_commit al n)) = Ok (ns', cs', rs)" "cs = al # cs'"
  using assms
  by (auto simp: outcome_bind_Ok_iff split: option.splits if_splits)

lemma place_all_total:
  "al_node ` set als \<subseteq> dom ns \<Longrightarrow> \<exists>r. place_all als ns = Ok r"
proof (induction als arbitrary: ns)
  case (Cons al als)
  then obtain n where n: "ns (al_node al) = Some n" by auto
  have "al_node ` set als \<subseteq> dom ns" using Cons.prems by auto
  then obtain r where r: "place_all als ns = Ok r" using Cons.IH by blast
  have "al_node ` set als \<subseteq> dom (ns(al_node al \<mapsto> nd_commit al n))" using Cons.prems by auto
  then obtain r' where "place_all als (ns(al_node al \<mapsto> nd_commit al n)) = Ok r'"
    using Cons.IH by blast
  then show ?case using n r by (cases r; cases r') simp
qed simp

lemma place_all_partition:
  "place_all als ns = Ok (ns', cs, rs) \<Longrightarrow> mset cs + mset rs = mset als \<and> dom ns' = dom ns"
proof (induction als arbitrary: ns ns' cs rs)
  case (Cons al als)
  from Cons.prems show ?case
  proof (cases rule: place_all_Cons_Ok)
    case (reject n rs')
    then show ?thesis using Cons.IH [OF reject(3)] by simp
  next
    case (commit n cs')
    then show ?thesis
      using Cons.IH [OF commit(3)] dom_upd_Some [of ns "al_node al", OF commit(1), of "nd_commit al n"] commit(4)
      by (simp del: dom_fun_upd fun_upd_apply)
  qed
qed simp

lemma place_all_keeps:
  assumes step: "\<And>n al. al \<in> set als \<Longrightarrow> P n \<Longrightarrow> res_fits (nd_available n) (al_res al) \<Longrightarrow> P (nd_commit al n)"
  shows "\<forall>n \<in> ran ns. P n \<Longrightarrow> place_all als ns = Ok (ns', cs, rs) \<Longrightarrow> \<forall>n \<in> ran ns'. P n"
  using step
proof (induction als arbitrary: ns ns' cs rs)
  case (Cons al als)
  from Cons.prems(2) show ?case
  proof (cases rule: place_all_Cons_Ok)
    case (reject n rs')
    then show ?thesis using Cons by (meson list.set_intros(2))
  next
    case (commit n cs')
    have "P (nd_commit al n)"
      using Cons.prems(1,3) commit(1,2) by (auto intro: ranI)
    moreover have "ran (ns(al_node al \<mapsto> nd_commit al n)) \<subseteq> insert (nd_commit al n) (ran ns)"
      by (auto simp: ran_def)
    ultimately have "\<forall>n \<in> ran (ns(al_node al \<mapsto> nd_commit al n)). P n"
      using Cons.prems(1) by auto
    then show ?thesis using Cons.IH [OF _ commit(3)] Cons.prems(3) by (meson list.set_intros(2))
  qed
qed simp

subsection \<open>The node invariant and the accounting\<close>

definition nd_ok :: "node_state \<Rightarrow> bool" where
  "nd_ok n \<longleftrightarrow> res_ok (nd_total n) \<and> res_ok (nd_used n) \<and> res_fits (nd_total n) (nd_used n) \<and>
     (\<forall>r \<in> ran (nd_allocs n). res_ok r)"

text \<open>\<open>Used\<close> is the sum of the demands of the allocations on the node.\<close>

definition nd_balanced :: "node_state \<Rightarrow> bool" where
  "nd_balanced n \<longleftrightarrow> finite (dom (nd_allocs n)) \<and>
     (\<forall>d. fld d (nd_used n) = (\<Sum>k \<in> dom (nd_allocs n). fld d (the (nd_allocs n k))))"

lemma nd_ok_evict:
  assumes "nd_ok n" "nd_allocs n aid = Some r"
  shows "nd_ok (nd_evict aid r n)"
proof -
  have r: "res_ok r" using assms by (auto simp: nd_ok_def intro: ranI)
  note u = res_ok_sub [OF _ r, of "nd_used n"]
  have "res_fits (nd_total n) (res_sub (nd_used n) r)"
    using assms u unfolding nd_ok_def res_fits_fld by (meson order_trans)
  moreover have "ran ((nd_allocs n)(aid := None)) \<subseteq> ran (nd_allocs n)" by (auto simp: ran_def)
  ultimately show ?thesis using assms u by (auto simp: nd_ok_def nd_evict_def)
qed

lemma nd_ok_commit:
  assumes "nd_ok n" "res_ok (al_res al)" "res_fits (nd_available n) (al_res al)"
  shows "nd_ok (nd_commit al n)"
    and "fld d (nd_used (nd_commit al n)) = fld d (nd_used n) + fld d (al_res al)"
proof -
  note n = assms(1) [unfolded nd_ok_def]
  note add = res_fits_add [of "nd_total n" "nd_used n" "al_res al"]
  have "ran ((nd_allocs n)(al_id al \<mapsto> al_res al)) \<subseteq> insert (al_res al) (ran (nd_allocs n))"
    by (auto simp: ran_def)
  then show "nd_ok (nd_commit al n)"
    using n assms(2,3) add by (auto simp: nd_ok_def nd_commit_def nd_available_def)
  show "fld d (nd_used (nd_commit al n)) = fld d (nd_used n) + fld d (al_res al)"
    using n assms(2,3) add by (auto simp: nd_commit_def nd_available_def)
qed

lemma sum_dom_update:
  fixes g :: "'v \<Rightarrow> int"
  assumes "finite (dom m)" "m k = None"
  shows "(\<Sum>j \<in> dom (m(k \<mapsto> v)). g (the ((m(k \<mapsto> v)) j))) = g v + (\<Sum>j \<in> dom m. g (the (m j)))"
proof -
  have "(\<Sum>j \<in> dom m. g (the ((m(k \<mapsto> v)) j))) = (\<Sum>j \<in> dom m. g (the (m j)))"
    using assms(2) by (intro sum.cong) (auto simp: domIff)
  then show ?thesis using assms by (simp add: domIff)
qed

lemma nd_balanced_commit:
  assumes "nd_ok n" "nd_balanced n" "res_ok (al_res al)" "res_fits (nd_available n) (al_res al)"
    and "nd_allocs n (al_id al) = None"
  shows "nd_balanced (nd_commit al n)"
proof -
  have alloc: "nd_allocs (nd_commit al n) = (nd_allocs n)(al_id al \<mapsto> al_res al)"
    by (simp add: nd_commit_def)
  show ?thesis
    unfolding nd_balanced_def alloc
    using assms(2) sum_dom_update [of "nd_allocs n" "al_id al", OF _ assms(5)] nd_ok_commit(2) [OF assms(1,3,4)]
    by (auto simp: nd_balanced_def)
qed

lemma nd_balanced_evict:
  assumes "nd_ok n" "nd_balanced n" "nd_allocs n aid = Some r"
  shows "nd_balanced (nd_evict aid r n)"
proof -
  let ?m = "(nd_allocs n)(aid := None)"
  have r: "res_ok r" using assms by (auto simp: nd_ok_def intro: ranI)
  have m: "?m(aid \<mapsto> r) = nd_allocs n" using assms(3) by auto
  have fin: "finite (dom ?m)" using assms(2) by (simp add: nd_balanced_def)
  have used: "fld d (nd_used n) = fld d r + (\<Sum>k \<in> dom ?m. fld d (the (?m k)))" for d
    using assms(2) sum_dom_update [OF fin, of aid "fld d" r] unfolding m by (simp add: nd_balanced_def)
  have pos: "0 \<le> (\<Sum>k \<in> dom ?m. fld d (the (?m k)))" for d
    using assms(1) by (intro sum_nonneg) (auto simp: nd_ok_def res_ok_def ran_def split: if_splits)
  have "fld d (res_sub (nd_used n) r) = (\<Sum>k \<in> dom ?m. fld d (the (?m k)))" for d
    using fld_sub_ok [OF _ r, of "nd_used n" d] assms(1) used [of d] pos [of d] by (simp add: nd_ok_def)
  moreover have "nd_allocs (nd_evict aid r n) = ?m" "nd_used (nd_evict aid r n) = res_sub (nd_used n) r"
    by (simp_all add: nd_evict_def)
  ultimately show ?thesis unfolding nd_balanced_def using fin by metis
qed

subsection \<open>Plans\<close>

definition ap_ok :: "applier \<Rightarrow> bool" where
  "ap_ok a \<longleftrightarrow> (\<forall>n \<in> ran (ap_nodes a). nd_ok n)"

lemma submit_cases:
  obtains (unknown) "submit ord p a = (a, Err UnknownNode)"
      "\<exists>al \<in> set (pl_add p). ap_nodes a (al_node al) = None"
  | (placed) ns cs rs where "\<forall>al \<in> set (pl_add p). ap_nodes a (al_node al) \<noteq> None"
      "place_all (pl_add p) (evict_all ord 0 (pl_evict p) (ap_nodes a)) = Ok (ns, cs, rs)"
      "submit ord p a = (\<lparr>ap_nodes = ns, ap_index = ap_index a + 1\<rparr>,
         Ok \<lparr>pr_index = ap_index a + 1, pr_committed = cs, pr_rejected = rs, pr_evicted = pl_evict p\<rparr>)"
proof (cases "\<exists>al \<in> set (pl_add p). ap_nodes a (al_node al) = None")
  case True
  then show thesis by (intro unknown) (simp_all add: submit_def)
next
  case False
  then have "al_node ` set (pl_add p) \<subseteq> dom (evict_all ord 0 (pl_evict p) (ap_nodes a))"
    by (auto simp: domIff)
  then obtain ns cs rs where
    "place_all (pl_add p) (evict_all ord 0 (pl_evict p) (ap_nodes a)) = Ok (ns, cs, rs)"
    using place_all_total by (metis prod_cases3)
  then show thesis using False by (intro placed) (auto simp: submit_def)
qed

text \<open>A property kept by evicting and by committing one allocation of the plan is kept by \<open>Submit\<close>.\<close>

lemma submit_keeps:
  assumes "\<And>n aid r. P n \<Longrightarrow> nd_allocs n aid = Some r \<Longrightarrow> P (nd_evict aid r n)"
    and "\<And>n al. al \<in> set (pl_add p) \<Longrightarrow> P n \<Longrightarrow> res_fits (nd_available n) (al_res al) \<Longrightarrow> P (nd_commit al n)"
    and "\<forall>n \<in> ran (ap_nodes a). P n"
  shows "\<forall>n \<in> ran (ap_nodes (fst (submit ord p a))). P n"
proof (cases rule: submit_cases [of ord p a])
  case (placed ns cs rs)
  have "\<forall>n \<in> ran ns. P n"
    by (rule place_all_keeps [OF assms(2) evict_all_keeps [OF assms(1) assms(3)] placed(2)])
  then show ?thesis by (simp add: placed(3))
qed (use assms(3) in simp)

lemma ap_ok_submit:
  assumes "ap_ok a" "\<forall>al \<in> set (pl_add p). res_ok (al_res al)"
  shows "ap_ok (fst (submit ord p a))"
  unfolding ap_ok_def
  by (rule submit_keeps) (use assms nd_ok_evict nd_ok_commit(1) in \<open>auto simp: ap_ok_def\<close>)

lemma ap_ok_upsert:
  assumes "ap_ok a" "res_ok tot" "\<forall>n. ap_nodes a k = Some n \<longrightarrow> res_fits tot (nd_used n)"
  shows "ap_ok (upsert_node k tot a)"
proof -
  have "nd_ok \<lparr>nd_id = k, nd_total = tot, nd_used = no_resources, nd_allocs = Map.empty\<rparr>"
    using assms(2) by (simp add: nd_ok_def res_fits_fld res_ok_def)
  moreover have "nd_ok (n\<lparr>nd_total := tot\<rparr>)" if "ap_nodes a k = Some n" for n
    using assms that by (auto simp: nd_ok_def ap_ok_def ran_def)
  ultimately show ?thesis
    using assms(1) by (auto simp: ap_ok_def upsert_node_def ran_def split: option.splits)
qed

text \<open>
  What a cluster goes through: registrations that do not shrink a node below what it uses,
  and plans whose demands are not negative.
\<close>

inductive ap_reach :: "applier \<Rightarrow> bool" where
  reach_new: "ap_reach new_applier"
| reach_upsert: "ap_reach a \<Longrightarrow> res_ok tot \<Longrightarrow>
    \<forall>n. ap_nodes a k = Some n \<longrightarrow> res_fits tot (nd_used n) \<Longrightarrow> ap_reach (upsert_node k tot a)"
| reach_submit: "ap_reach a \<Longrightarrow> \<forall>al \<in> set (pl_add p). res_ok (al_res al) \<Longrightarrow>
    \<forall>i. enumerates (ord i) (ap_nodes a) \<Longrightarrow> ap_reach (fst (submit ord p a))"

lemma ap_reach_ok: "ap_reach a \<Longrightarrow> ap_ok a"
  by (induction rule: ap_reach.induct) (simp_all add: ap_ok_submit ap_ok_upsert, simp add: ap_ok_def new_applier_def)

text \<open>
  During the commit loop the totals stay and the used part only grows, so that a rejection
  stays justified.
\<close>

lemma res_sub_mono:
  assumes "res_ok tot" "res_ok u" "res_ok u'" "res_fits u' u" "\<not> res_fits (res_sub tot u) r"
  shows "\<not> res_fits (res_sub tot u') r"
proof
  assume "res_fits (res_sub tot u') r"
  have "fld d r \<le> fld d (res_sub tot u)" for d
  proof -
    have "fld d r \<le> max 0 (fld d tot - fld d u')" "fld d u \<le> fld d u'"
      using \<open>res_fits (res_sub tot u') r\<close> assms(4) by (simp_all add: res_fits_fld fld_sub_ok [OF assms(1,3)])
    then show ?thesis by (simp add: fld_sub_ok [OF assms(1,2)])
  qed
  then show False using assms(5) by (simp add: res_fits_fld)
qed

lemma place_all_grows:
  assumes "\<forall>n \<in> ran ns. nd_ok n" "\<forall>al \<in> set als. res_ok (al_res al)"
    and "place_all als ns = Ok (ns', cs, rs)" "ns k = Some n"
  shows "\<exists>n'. ns' k = Some n' \<and> nd_ok n' \<and> nd_total n' = nd_total n \<and> res_fits (nd_used n') (nd_used n)"
  using assms
proof (induction als arbitrary: ns cs rs n)
  case Nil
  then show ?case by (auto simp: res_fits_fld intro: ranI)
next
  case (Cons al als)
  from Cons.prems(3) show ?case
  proof (cases rule: place_all_Cons_Ok)
    case (reject m rs')
    then show ?thesis using Cons by simp
  next
    case (commit m cs')
    note ok = nd_ok_commit [of m al]
    have m: "nd_ok m" using Cons.prems(1) commit(1) by (auto intro: ranI)
    have "ran (ns(al_node al \<mapsto> nd_commit al m)) \<subseteq> insert (nd_commit al m) (ran ns)"
      by (auto simp: ran_def)
    then have all: "\<forall>n \<in> ran (ns(al_node al \<mapsto> nd_commit al m)). nd_ok n"
      using ok(1) [OF m] Cons.prems(1,2) commit(2) by auto
    show ?thesis
    proof (cases "k = al_node al")
      case False
      then show ?thesis using Cons.IH [OF all _ commit(3)] Cons.prems by simp
    next
      case True
      then have "m = n" using commit(1) Cons.prems(4) by simp
      have "res_fits (nd_used (nd_commit al m)) (nd_used m)"
        using ok(2) [OF m _ commit(2)] Cons.prems(2) by (simp add: res_fits_fld res_ok_def)
      moreover obtain n' where n': "ns' k = Some n'" "nd_ok n'" "nd_total n' = nd_total (nd_commit al m)"
        "res_fits (nd_used n') (nd_used (nd_commit al m))"
        using Cons.IH [OF all _ commit(3), of "nd_commit al m"] Cons.prems(2) True by auto
      ultimately have "res_fits (nd_used n') (nd_used m)"
        by (meson order_trans res_fits_fld)
      then show ?thesis using n' \<open>m = n\<close> by (simp add: nd_commit_def)
    qed
  qed
qed

lemma place_all_rejects:
  assumes "\<forall>n \<in> ran ns. nd_ok n" "\<forall>al \<in> set als. res_ok (al_res al)"
    and "place_all als ns = Ok (ns', cs, rs)" "x \<in> set rs"
  shows "\<exists>n. ns' (al_node x) = Some n \<and> \<not> res_fits (nd_available n) (al_res x)"
  using assms
proof (induction als arbitrary: ns cs rs)
  case (Cons al als)
  from Cons.prems(3) show ?case
  proof (cases rule: place_all_Cons_Ok)
    case (reject m rs')
    show ?thesis
    proof (cases "x = al")
      case True
      obtain n' where n': "ns' (al_node al) = Some n'" "nd_ok n'" "nd_total n' = nd_total m"
        "res_fits (nd_used n') (nd_used m)"
        using place_all_grows [OF Cons.prems(1) _ reject(3,1)] Cons.prems(2) by auto
      moreover have "nd_ok m" using Cons.prems(1) reject(1) by (auto intro: ranI)
      ultimately have "\<not> res_fits (nd_available n') (al_res al)"
        using res_sub_mono [of "nd_total m" "nd_used m" "nd_used n'"] reject(2)
        by (simp add: nd_available_def nd_ok_def)
      then show ?thesis using n' True by simp
    next
      case False
      then show ?thesis using Cons reject by simp
    qed
  next
    case (commit m cs')
    have m: "nd_ok m" using Cons.prems(1) commit(1) by (auto intro: ranI)
    have "ran (ns(al_node al \<mapsto> nd_commit al m)) \<subseteq> insert (nd_commit al m) (ran ns)"
      by (auto simp: ran_def)
    then have "\<forall>n \<in> ran (ns(al_node al \<mapsto> nd_commit al m)). nd_ok n"
      using nd_ok_commit(1) [OF m _ commit(2)] Cons.prems(1,2) by auto
    from Cons.IH [OF this _ commit(3) Cons.prems(4)] Cons.prems(2) show ?thesis by simp
  qed
qed simp

text \<open>Accounting through the loop: the plan's identifiers are new and pairwise distinct.\<close>

lemma place_all_balanced:
  assumes "\<forall>n \<in> ran ns. nd_ok n \<and> nd_balanced n" "\<forall>al \<in> set als. res_ok (al_res al)"
    and "\<forall>al \<in> set als. \<forall>n \<in> ran ns. nd_allocs n (al_id al) = None" "distinct (map al_id als)"
    and "place_all als ns = Ok (ns', cs, rs)"
  shows "\<forall>n \<in> ran ns'. nd_ok n \<and> nd_balanced n"
  using assms
proof (induction als arbitrary: ns cs rs)
  case (Cons al als)
  from Cons.prems(5) show ?case
  proof (cases rule: place_all_Cons_Ok)
    case (reject m rs')
    from Cons.IH [OF Cons.prems(1) _ _ _ reject(3)] Cons.prems(2-4) show ?thesis by simp
  next
    case (commit m cs')
    have "m \<in> ran ns" using commit(1) by (rule ranI)
    then have m: "nd_ok m" "nd_balanced m" "nd_allocs m (al_id al) = None" "res_ok (al_res al)"
      using Cons.prems(1,2,3) by auto
    have sub: "ran (ns(al_node al \<mapsto> nd_commit al m)) \<subseteq> insert (nd_commit al m) (ran ns)"
      by (auto simp: ran_def)
    have 1: "\<forall>n \<in> ran (ns(al_node al \<mapsto> nd_commit al m)). nd_ok n \<and> nd_balanced n"
      using sub Cons.prems(1) nd_ok_commit(1) [OF m(1,4) commit(2)]
        nd_balanced_commit [OF m(1,2,4) commit(2) m(3)] by blast
    have "nd_allocs (nd_commit al m) (al_id x) = None" if "x \<in> set als" for x
      using that Cons.prems(3,4) \<open>m \<in> ran ns\<close> by (auto simp: nd_commit_def image_iff)
    then have 2: "\<forall>x \<in> set als. \<forall>n \<in> ran (ns(al_node al \<mapsto> nd_commit al m)). nd_allocs n (al_id x) = None"
      using sub Cons.prems(3) by auto
    from Cons.IH [OF 1 _ 2 _ commit(3)] Cons.prems(2,4) show ?thesis by simp
  qed
qed simp

lemma evict_all_fresh:
  "\<forall>n \<in> ran ns. nd_allocs n x = None \<Longrightarrow> \<forall>n \<in> ran (evict_all ord i ids ns). nd_allocs n x = None"
  by (rule evict_all_keeps [where P = "\<lambda>n. nd_allocs n x = None"]) (auto simp: nd_evict_def)

subsection \<open>Properties\<close>


text \<open>A plan naming an unknown node is refused and changes nothing; any other is answered
  (the commit loop never dereferences a missing node) with every added allocation either
  committed or rejected exactly once, the evictions echoed and the index advanced by one.\<close>

theorem submit_total_partition:
  shows "if \<exists>al \<in> set (pl_add p). ap_nodes a (al_node al) = None
    then submit ord p a = (a, Err UnknownNode)
    else (\<exists>a' r. submit ord p a = (a', Ok r) \<and>
      mset (pr_committed r) + mset (pr_rejected r) = mset (pl_add p) \<and>
      pr_evicted r = pl_evict p \<and> pr_index r = ap_index a + 1 \<and> ap_index a' = pr_index r \<and>
      dom (ap_nodes a') = dom (ap_nodes a))"
proof (cases rule: submit_cases [of ord p a])
  case (placed ns cs rs)
  then show ?thesis
    using place_all_partition [OF placed(2)] by auto
qed simp

text \<open>A rejection is justified to the end: after a plan committed, a rejected allocation
  still does not fit on its node, so resubmitting it at once would be rejected again.\<close>

theorem rejected_does_not_fit:
  assumes "ap_ok a" "\<forall>al \<in> set (pl_add p). res_ok (al_res al)"
    and "submit ord p a = (a', Ok r)" "x \<in> set (pr_rejected r)"
  shows "\<exists>n. ap_nodes a' (al_node x) = Some n \<and> \<not> res_fits (nd_available n) (al_res x)"
proof (cases rule: submit_cases [of ord p a])
  case (placed ns cs rs)
  have "\<forall>n \<in> ran (evict_all ord 0 (pl_evict p) (ap_nodes a)). nd_ok n"
    using assms(1) by (intro evict_all_keeps nd_ok_evict) (auto simp: ap_ok_def)
  from place_all_rejects [OF this assms(2) placed(2)] placed(3) assms(3,4) show ?thesis by auto
qed (use assms(3) in simp)

text \<open>Accounting: when the plan's allocation identifiers are new and distinct, Used stays on
  every node the exact sum of the demands of the allocations recorded there, through evictions
  and placements.\<close>

theorem submit_keeps_balance:
  assumes "\<forall>n \<in> ran (ap_nodes a). nd_ok n \<and> nd_balanced n"
    and "\<forall>al \<in> set (pl_add p). res_ok (al_res al)" "distinct (map al_id (pl_add p))"
    and "\<forall>al \<in> set (pl_add p). \<forall>n \<in> ran (ap_nodes a). nd_allocs n (al_id al) = None"
  shows "\<forall>n \<in> ran (ap_nodes (fst (submit ord p a))). nd_ok n \<and> nd_balanced n"
proof (cases rule: submit_cases [of ord p a])
  case (placed ns cs rs)
  let ?ns = "evict_all ord 0 (pl_evict p) (ap_nodes a)"
  have "\<forall>n \<in> ran ?ns. nd_ok n \<and> nd_balanced n"
    using assms(1) by (intro evict_all_keeps [where P = "\<lambda>n. nd_ok n \<and> nd_balanced n"])
      (auto intro: nd_ok_evict nd_balanced_evict)
  moreover have "\<forall>al \<in> set (pl_add p). \<forall>n \<in> ran ?ns. nd_allocs n (al_id al) = None"
    using evict_all_fresh assms(4) by blast
  ultimately have "\<forall>n \<in> ran ns. nd_ok n \<and> nd_balanced n"
    by (rule place_all_balanced [OF _ assms(2) _ assms(3) placed(2)])
  then show ?thesis by (simp add: placed(3))
qed (use assms(1) in simp)

text \<open>Placing an identifier that the node already holds loses capacity: its demand is
  counted a second time while the record is overwritten, so after evicting the allocation the
  node still uses one demand that no recorded allocation accounts for.\<close>

theorem duplicate_id_leaks:
  assumes "nd_ok n" "nd_allocs n (al_id al) = None" "res_ok (al_res al)"
    and "res_fits (nd_available n) (al_res al)"
    and "res_fits (nd_available (nd_commit al n)) (al_res al)"
  shows "place_all [al, al] [al_node al \<mapsto> n] = Ok ([al_node al \<mapsto> nd_commit al (nd_commit al n)], [al, al], []) \<and>
    (\<exists>m. evict_from [al_node al] (al_id al) [al_node al \<mapsto> nd_commit al (nd_commit al n)] = [al_node al \<mapsto> m] \<and>
       nd_allocs m = nd_allocs n \<and> (\<forall>d. fld d (nd_used m) = fld d (nd_used n) + fld d (al_res al)))"
proof -
  note ok1 = nd_ok_commit [OF assms(1,3,4)]
  note ok2 = nd_ok_commit [OF ok1(1) assms(3,5)]
  define m where "m = nd_evict (al_id al) (al_res al) (nd_commit al (nd_commit al n))"
  have "place_all [al, al] [al_node al \<mapsto> n] = Ok ([al_node al \<mapsto> nd_commit al (nd_commit al n)], [al, al], [])"
    using assms(4,5) by simp
  moreover have "evict_from [al_node al] (al_id al) [al_node al \<mapsto> nd_commit al (nd_commit al n)] = [al_node al \<mapsto> m]"
    by (simp add: m_def nd_commit_def)
  moreover have "nd_allocs m = nd_allocs n"
    using assms(2) by (auto simp: m_def nd_evict_def nd_commit_def)
  moreover have "fld d (nd_used m) = fld d (nd_used n) + fld d (al_res al)" for d
  proof -
    have "fld d (nd_used m) = max 0 (fld d (nd_used (nd_commit al (nd_commit al n))) - fld d (al_res al))"
      using ok2(1) assms(3) by (simp add: m_def nd_evict_def nd_ok_def fld_sub_ok)
    moreover have "0 \<le> fld d (nd_used n)" "0 \<le> fld d (al_res al)"
      using assms(1,3) by (simp_all add: nd_ok_def res_ok_def)
    ultimately show ?thesis using ok1(2) ok2(2) by simp
  qed
  ultimately show ?thesis by blast
qed

subsection \<open>Witnesses\<close>

definition demo_res :: "int \<Rightarrow> resources" where
  "demo_res x = \<lparr>r_cpu = x, r_mem = x, r_disk = x\<rparr>"

definition demo_alloc :: "string \<Rightarrow> int \<Rightarrow> allocation" where
  "demo_alloc k x = \<lparr>al_id = k, al_node = ''n'', al_res = demo_res x, al_job = []\<rparr>"

definition demo_node :: node_state where
  "demo_node = \<lparr>nd_id = ''n'', nd_total = demo_res 10, nd_used = demo_res 4,
                nd_allocs = [''a'' \<mapsto> demo_res 4]\<rparr>"

definition demo_applier :: applier where
  "demo_applier = \<lparr>ap_nodes = [''n'' \<mapsto> demo_node], ap_index = 2\<rparr>"

definition demo_plan :: plan where
  "demo_plan = \<lparr>pl_scheduler = [], pl_snapshot = 0,
     pl_add = [demo_alloc ''b'' 8, demo_alloc ''c'' 5], pl_evict = [''a'']\<rparr>"

lemma fld_demo [simp]: "fld d (demo_res x) = x"
  by (cases d) (simp_all add: demo_res_def)

lemma demo_alloc_sel:
  "al_id (demo_alloc k x) = k" "al_node (demo_alloc k x) = ''n''" "al_res (demo_alloc k x) = demo_res x"
  by (simp_all add: demo_alloc_def)

lemma demo_node_ok: "nd_ok demo_node" "nd_balanced demo_node"
  by (simp_all add: nd_ok_def nd_balanced_def res_ok_def res_fits_fld demo_node_def)

lemma i64_small: "\<bar>x\<bar> < 1000 \<Longrightarrow> i64 x = x"
  by (simp add: i64_id)

lemmas demo_eval_simps = res_fits_def nd_available_def res_sub_def res_add_def demo_res_def demo_alloc_def
  demo_node_def demo_applier_def demo_plan_def nd_evict_def nd_commit_def clamp0_def i64_small


theorem rejected_does_not_fit_witness:
  "\<not> res_fits (nd_available (nd_commit (demo_alloc ''b'' 8) (nd_evict ''a'' (demo_res 4) demo_node))) (demo_res 5)"
proof -
  let ?n = "nd_commit (demo_alloc ''b'' 8) (nd_evict ''a'' (demo_res 4) demo_node)"
  have s: "submit (\<lambda>_. [''n'']) demo_plan demo_applier = (\<lparr>ap_nodes = [''n'' \<mapsto> ?n], ap_index = 3\<rparr>,
      Ok \<lparr>pr_index = 3, pr_committed = [demo_alloc ''b'' 8], pr_rejected = [demo_alloc ''c'' 5],
          pr_evicted = [''a'']\<rparr>)"
    by (simp add: submit_def demo_eval_simps)
  have "ap_ok demo_applier" by (simp add: ap_ok_def demo_applier_def demo_node_ok ran_def)
  from rejected_does_not_fit [OF this _ s, of "demo_alloc ''c'' 5"] show ?thesis
    by (simp add: demo_plan_def demo_alloc_def res_ok_def)
qed

theorem submit_keeps_balance_witness:
  "\<exists>n. ap_nodes (fst (submit (\<lambda>_. [''n'']) demo_plan demo_applier)) ''n'' = Some n \<and>
     nd_balanced n \<and> r_cpu (nd_used n) = 8"
proof -
  have b: "\<forall>n \<in> ran (ap_nodes (fst (submit (\<lambda>_. [''n'']) demo_plan demo_applier))). nd_ok n \<and> nd_balanced n"
    by (rule submit_keeps_balance)
       (auto simp: demo_plan_def demo_applier_def demo_alloc_def res_ok_def ran_def demo_node_ok,
        auto simp: demo_node_def)
  have "\<exists>n. ap_nodes (fst (submit (\<lambda>_. [''n'']) demo_plan demo_applier)) ''n'' = Some n \<and> r_cpu (nd_used n) = 8"
    by (simp add: submit_def demo_eval_simps)
  then show ?thesis using b by (meson ranI)
qed

theorem duplicate_id_leaks_witness:
  "\<exists>m. evict_from [''n''] ''b'' [''n'' \<mapsto> nd_commit (demo_alloc ''b'' 2) (nd_commit (demo_alloc ''b'' 2) demo_node)]
     = [''n'' \<mapsto> m] \<and> nd_allocs m = [''a'' \<mapsto> demo_res 4] \<and> r_cpu (nd_used m) = 6"
proof -
  let ?al = "demo_alloc ''b'' 2"
  have "nd_allocs demo_node (al_id ?al) = None" "res_ok (al_res ?al)"
    "res_fits (nd_available demo_node) (al_res ?al)"
    "res_fits (nd_available (nd_commit ?al demo_node)) (al_res ?al)"
    by (simp_all add: demo_eval_simps res_ok_def all_dim)
  from conjunct2 [OF duplicate_id_leaks [OF demo_node_ok(1) this]]
  obtain m where m: "evict_from [''n''] ''b'' [''n'' \<mapsto> nd_commit ?al (nd_commit ?al demo_node)] = [''n'' \<mapsto> m]"
    "nd_allocs m = nd_allocs demo_node" "\<forall>d. fld d (nd_used m) = fld d (nd_used demo_node) + 2"
    unfolding demo_alloc_sel fld_demo by blast
  then show ?thesis by (intro exI [of _ m]) (simp add: all_dim demo_node_def demo_res_def)
qed

end
