(* ===== verification/Gatekeeper_FSM.thy ===== *)
theory Gatekeeper_FSM
  imports Prelude
begin

section \<open>The two-factor state machine (internal/gatekeeper/raft, internal/gatekeeper/models)\<close>

text \<open>
  The replicated state of the gatekeeper: factors, challenges, consumed backup codes and
  trusted devices, changed only by \<open>FSM.Apply\<close> on committed log entries and moved between
  replicas by \<open>Snapshot\<close> and \<open>Restore\<close>. Payloads are the bytes of a log entry;
  decoding them is \<open>encoding/json\<close>, a record \<open>gk_codec\<close> of partial functions. A replica's own
  \<open>time.Now\<close>, which \<open>SetCondition\<close> reads, is the argument \<open>clk\<close>. The snapshot's JSON form is
  modelled by what its struct tags keep: a field tagged \<open>json:"-"\<close> is lost.
\<close>

subsection \<open>Data\<close>

type_synonym uuid = "128 word"
type_synonym bytes = "string"

datatype factor_phase = FPending | FActive | FDisabled | FRevoked | FFailed
datatype challenge_phase = Waiting | Verified | Expired | ChFailed | ChRejected
datatype cond_type = CondReady | CondProvisioning | CondError | CondVerified | CondMFARequired
datatype cond_status = CondTrue | CondFalse | CondUnknown

record condition =
  c_type :: cond_type
  c_status :: cond_status
  c_reason :: string
  c_message :: string
  c_transition :: gotime

record factor_spec =
  fs_type :: string
  fs_label :: string
  fs_phone :: string
  fs_email :: string
  fs_secret :: bytes
  fs_issuer :: string

record factor_status =
  ft_phase :: factor_phase
  ft_conditions :: "condition list"
  ft_last_verified :: "gotime option"
  ft_activated :: "gotime option"
  ft_disabled :: "gotime option"
  ft_revoked :: "gotime option"
  ft_observed :: int

record factor =
  f_id :: uuid
  f_user :: uuid
  f_spec :: factor_spec
  f_status :: factor_status
  f_created :: gotime
  f_updated :: gotime
  f_deleted :: "gotime option"
  f_version :: int

record challenge =
  ch_id :: uuid
  ch_user :: uuid
  ch_factor :: uuid
  ch_phase :: challenge_phase
  ch_nonce :: string
  ch_attempts :: int
  ch_expires :: gotime
  ch_resolved :: "gotime option"
  ch_ip :: string
  ch_agent :: string
  ch_created :: gotime
  ch_version :: int

record trusted_device =
  td_id :: uuid
  td_user :: uuid
  td_token :: bytes
  td_fingerprint :: string
  td_agent :: string
  td_ip :: string
  td_expires :: gotime
  td_revoked :: "gotime option"
  td_created :: gotime

definition ch_is_terminal :: "challenge \<Rightarrow> bool" where
  "ch_is_terminal c \<longleftrightarrow> ch_phase c \<in> {Verified, Expired, ChFailed, ChRejected}"

definition ch_is_expired :: "gotime \<Rightarrow> challenge \<Rightarrow> bool" where
  "ch_is_expired now c \<longleftrightarrow> now > ch_expires c"

definition factor_active :: "factor \<Rightarrow> bool" where
  "factor_active f \<longleftrightarrow> ft_phase (f_status f) = FActive"

definition td_is_expired :: "gotime \<Rightarrow> trusted_device \<Rightarrow> bool" where
  "td_is_expired now d \<longleftrightarrow> now > td_expires d"

definition td_is_active :: "gotime \<Rightarrow> trusted_device \<Rightarrow> bool" where
  "td_is_active now d \<longleftrightarrow> td_revoked d = None \<and> \<not> td_is_expired now d"

text \<open>\<open>SetCondition\<close>: the first condition of the type is replaced, its transition time kept
  when the status is the same and read from the local clock otherwise.\<close>

fun upsert_condition :: "gotime \<Rightarrow> condition \<Rightarrow> condition list \<Rightarrow> condition list" where
  "upsert_condition clk c [] = [c\<lparr>c_transition := clk\<rparr>]"
| "upsert_condition clk c (x # xs) =
     (if c_type x = c_type c
      then (if c_status x \<noteq> c_status c then c\<lparr>c_transition := clk\<rparr>
            else c\<lparr>c_transition := c_transition x\<rparr>) # xs
      else x # upsert_condition clk c xs)"

definition set_condition :: "gotime \<Rightarrow> condition \<Rightarrow> factor_status \<Rightarrow> factor_status" where
  "set_condition clk c s = s\<lparr>ft_conditions := upsert_condition clk c (ft_conditions s)\<rparr>"

subsection \<open>Commands\<close>

record enroll_cmd =
  en_factor :: uuid
  en_user :: uuid
  en_type :: string
  en_secret :: bytes
  en_issuer :: string
  en_at :: gotime
  en_version :: int

record factor_cmd =
  fc_factor :: uuid
  fc_at :: gotime
  fc_version :: int

record revoke_cmd =
  rv_factor :: uuid
  rv_reason :: string
  rv_at :: gotime
  rv_version :: int

record begin_cmd =
  bg_challenge :: uuid
  bg_user :: uuid
  bg_factor :: uuid
  bg_nonce :: string
  bg_expires :: gotime
  bg_ip :: string
  bg_agent :: string
  bg_created :: gotime

record challenge_cmd =
  cc_challenge :: uuid
  cc_at :: gotime

record fail_cmd =
  fl_challenge :: uuid
  fl_attempts :: int
  fl_terminal :: bool
  fl_at :: gotime

record backup_cmd =
  bc_code :: uuid
  bc_user :: uuid
  bc_at :: gotime

record trust_cmd =
  tr_device :: uuid
  tr_user :: uuid
  tr_token :: bytes
  tr_fingerprint :: string
  tr_expires :: gotime
  tr_created :: gotime

record device_cmd =
  dc_device :: uuid
  dc_at :: gotime

text \<open>The command type is a string; any but the declared ones is \<open>OtherCmd\<close>.\<close>

datatype raft_cmd =
    EnrollFactor | ActivateFactor | DisableFactor
  | CreateChallenge | VerifyChallenge | ExpireChallenge
  | GenerateBackupCodes | ConsumeBackupCode
  | TrustDevice | RevokeDevice
  | OtherCmd string

record gk_codec =
  dec_command :: "bytes \<rightharpoonup> raft_cmd \<times> bytes"
  dec_enroll :: "bytes \<rightharpoonup> enroll_cmd"
  dec_activate :: "bytes \<rightharpoonup> factor_cmd"
  dec_disable :: "bytes \<rightharpoonup> factor_cmd"
  dec_revoke :: "bytes \<rightharpoonup> revoke_cmd"
  dec_begin :: "bytes \<rightharpoonup> begin_cmd"
  dec_verify :: "bytes \<rightharpoonup> challenge_cmd"
  dec_expire :: "bytes \<rightharpoonup> challenge_cmd"
  dec_fail :: "bytes \<rightharpoonup> fail_cmd"
  dec_backup :: "bytes \<rightharpoonup> backup_cmd"
  dec_trust :: "bytes \<rightharpoonup> trust_cmd"
  dec_device :: "bytes \<rightharpoonup> device_cmd"

subsection \<open>State and the apply helpers\<close>

record gk_fsm =
  gk_factors :: "uuid \<rightharpoonup> factor"
  gk_challenges :: "uuid \<rightharpoonup> challenge"
  gk_used :: "uuid \<rightharpoonup> gotime"
  gk_devices :: "uuid \<rightharpoonup> trusted_device"
  gk_index :: "64 word"

definition gk_new :: gk_fsm where
  "gk_new = \<lparr>gk_factors = Map.empty, gk_challenges = Map.empty, gk_used = Map.empty,
             gk_devices = Map.empty, gk_index = 0\<rparr>"

datatype gk_error =
    BadPayload
  | BadEntry
  | UnknownCommand string
  | FactorNotFound uuid
  | ChallengeNotFound uuid
  | CodeUsed uuid

type_synonym gk_result = "gk_fsm \<times> gk_error option"

definition enroll_factor :: "enroll_cmd \<Rightarrow> factor" where
  "enroll_factor c =
     \<lparr>f_id = en_factor c, f_user = en_user c,
      f_spec = \<lparr>fs_type = en_type c, fs_label = [], fs_phone = [], fs_email = [],
                fs_secret = en_secret c, fs_issuer = en_issuer c\<rparr>,
      f_status = \<lparr>ft_phase = FPending,
        ft_conditions = [\<lparr>c_type = CondReady, c_status = CondFalse, c_reason = ''PendingActivation'',
          c_message = ''Factor enrolled; awaiting OTP verification.'', c_transition = en_at c\<rparr>],
        ft_last_verified = None, ft_activated = None, ft_disabled = None, ft_revoked = None,
        ft_observed = 0\<rparr>,
      f_created = en_at c, f_updated = en_at c, f_deleted = None, f_version = en_version c\<rparr>"

definition apply_enroll :: "gk_codec \<Rightarrow> bytes \<Rightarrow> gk_fsm \<Rightarrow> gk_result" where
  "apply_enroll cd p f =
     (case dec_enroll cd p of
        None \<Rightarrow> (f, Some BadPayload)
      | Some c \<Rightarrow> (f\<lparr>gk_factors := (gk_factors f)(en_factor c \<mapsto> enroll_factor c)\<rparr>, None))"

text \<open>The three phase changes of a factor share their shape: look up, set the phase and its
  time, the ready condition, the update time and the version.\<close>

definition activate_factor :: "gotime \<Rightarrow> factor_cmd \<Rightarrow> factor \<Rightarrow> factor" where
  "activate_factor clk c x = x\<lparr>
     f_status := set_condition clk
       \<lparr>c_type = CondReady, c_status = CondTrue, c_reason = ''Activated'',
        c_message = ''Factor verified and active.'', c_transition = zero_time\<rparr>
       ((f_status x)\<lparr>ft_phase := FActive, ft_activated := Some (fc_at c)\<rparr>),
     f_updated := fc_at c, f_version := fc_version c\<rparr>"

definition disable_factor :: "gotime \<Rightarrow> factor_cmd \<Rightarrow> factor \<Rightarrow> factor" where
  "disable_factor clk c x = x\<lparr>
     f_status := set_condition clk
       \<lparr>c_type = CondReady, c_status = CondFalse, c_reason = ''Disabled'',
        c_message = ''Factor disabled by user.'', c_transition = zero_time\<rparr>
       ((f_status x)\<lparr>ft_phase := FDisabled, ft_disabled := Some (fc_at c)\<rparr>),
     f_updated := fc_at c, f_version := fc_version c\<rparr>"

definition revoke_factor :: "gotime \<Rightarrow> revoke_cmd \<Rightarrow> factor \<Rightarrow> factor" where
  "revoke_factor clk c x = x\<lparr>
     f_status := set_condition clk
       \<lparr>c_type = CondReady, c_status = CondFalse, c_reason = ''Revoked'',
        c_message = rv_reason c, c_transition = zero_time\<rparr>
       ((f_status x)\<lparr>ft_phase := FRevoked, ft_revoked := Some (rv_at c)\<rparr>),
     f_updated := rv_at c, f_version := rv_version c\<rparr>"

definition apply_activate :: "gk_codec \<Rightarrow> gotime \<Rightarrow> bytes \<Rightarrow> gk_fsm \<Rightarrow> gk_result" where
  "apply_activate cd clk p f =
     (case dec_activate cd p of
        None \<Rightarrow> (f, Some BadPayload)
      | Some c \<Rightarrow>
          (case gk_factors f (fc_factor c) of
             None \<Rightarrow> (f, Some (FactorNotFound (fc_factor c)))
           | Some x \<Rightarrow> (f\<lparr>gk_factors := (gk_factors f)(fc_factor c \<mapsto> activate_factor clk c x)\<rparr>, None)))"

definition apply_disable :: "gk_codec \<Rightarrow> gotime \<Rightarrow> bytes \<Rightarrow> gk_fsm \<Rightarrow> gk_result" where
  "apply_disable cd clk p f =
     (case dec_disable cd p of
        None \<Rightarrow> (f, Some BadPayload)
      | Some c \<Rightarrow>
          (case gk_factors f (fc_factor c) of
             None \<Rightarrow> (f, Some (FactorNotFound (fc_factor c)))
           | Some x \<Rightarrow> (f\<lparr>gk_factors := (gk_factors f)(fc_factor c \<mapsto> disable_factor clk c x)\<rparr>, None)))"

definition apply_revoke :: "gk_codec \<Rightarrow> gotime \<Rightarrow> bytes \<Rightarrow> gk_fsm \<Rightarrow> gk_result" where
  "apply_revoke cd clk p f =
     (case dec_revoke cd p of
        None \<Rightarrow> (f, Some BadPayload)
      | Some c \<Rightarrow>
          (case gk_factors f (rv_factor c) of
             None \<Rightarrow> (f, Some (FactorNotFound (rv_factor c)))
           | Some x \<Rightarrow> (f\<lparr>gk_factors := (gk_factors f)(rv_factor c \<mapsto> revoke_factor clk c x)\<rparr>, None)))"

definition begin_challenge :: "begin_cmd \<Rightarrow> challenge" where
  "begin_challenge c =
     \<lparr>ch_id = bg_challenge c, ch_user = bg_user c, ch_factor = bg_factor c, ch_phase = Waiting,
      ch_nonce = bg_nonce c, ch_attempts = 0, ch_expires = bg_expires c, ch_resolved = None,
      ch_ip = bg_ip c, ch_agent = bg_agent c, ch_created = bg_created c, ch_version = 0\<rparr>"

definition apply_begin :: "gk_codec \<Rightarrow> bytes \<Rightarrow> gk_fsm \<Rightarrow> gk_result" where
  "apply_begin cd p f =
     (case dec_begin cd p of
        None \<Rightarrow> (f, Some BadPayload)
      | Some c \<Rightarrow> (f\<lparr>gk_challenges := (gk_challenges f)(bg_challenge c \<mapsto> begin_challenge c)\<rparr>, None))"

definition apply_verify :: "gk_codec \<Rightarrow> bytes \<Rightarrow> gk_fsm \<Rightarrow> gk_result" where
  "apply_verify cd p f =
     (case dec_verify cd p of
        None \<Rightarrow> (f, Some BadPayload)
      | Some c \<Rightarrow>
          (case gk_challenges f (cc_challenge c) of
             None \<Rightarrow> (f, Some (ChallengeNotFound (cc_challenge c)))
           | Some x \<Rightarrow> (f\<lparr>gk_challenges := (gk_challenges f)(cc_challenge c \<mapsto>
               x\<lparr>ch_phase := Verified, ch_resolved := Some (cc_at c)\<rparr>)\<rparr>, None)))"

definition apply_expire :: "gk_codec \<Rightarrow> bytes \<Rightarrow> gk_fsm \<Rightarrow> gk_result" where
  "apply_expire cd p f =
     (case dec_expire cd p of
        None \<Rightarrow> (f, Some BadPayload)
      | Some c \<Rightarrow>
          (case gk_challenges f (cc_challenge c) of
             None \<Rightarrow> (f, None)
           | Some x \<Rightarrow> (f\<lparr>gk_challenges := (gk_challenges f)(cc_challenge c \<mapsto>
               x\<lparr>ch_phase := Expired, ch_resolved := Some (cc_at c)\<rparr>)\<rparr>, None)))"

definition apply_fail :: "gk_codec \<Rightarrow> bytes \<Rightarrow> gk_fsm \<Rightarrow> gk_result" where
  "apply_fail cd p f =
     (case dec_fail cd p of
        None \<Rightarrow> (f, Some BadPayload)
      | Some c \<Rightarrow>
          (case gk_challenges f (fl_challenge c) of
             None \<Rightarrow> (f, Some (ChallengeNotFound (fl_challenge c)))
           | Some x \<Rightarrow>
               let x1 = x\<lparr>ch_attempts := fl_attempts c\<rparr>;
                   x2 = (if fl_terminal c then x1\<lparr>ch_phase := ChFailed, ch_resolved := Some (fl_at c)\<rparr> else x1)
               in (f\<lparr>gk_challenges := (gk_challenges f)(fl_challenge c \<mapsto> x2)\<rparr>, None)))"

definition apply_use_code :: "gk_codec \<Rightarrow> bytes \<Rightarrow> gk_fsm \<Rightarrow> gk_result" where
  "apply_use_code cd p f =
     (case dec_backup cd p of
        None \<Rightarrow> (f, Some BadPayload)
      | Some c \<Rightarrow>
          (case gk_used f (bc_code c) of
             Some _ \<Rightarrow> (f, Some (CodeUsed (bc_code c)))
           | None \<Rightarrow> (f\<lparr>gk_used := (gk_used f)(bc_code c \<mapsto> bc_at c)\<rparr>, None)))"

definition trust_device :: "trust_cmd \<Rightarrow> trusted_device" where
  "trust_device c =
     \<lparr>td_id = tr_device c, td_user = tr_user c, td_token = tr_token c, td_fingerprint = tr_fingerprint c,
      td_agent = [], td_ip = [], td_expires = tr_expires c, td_revoked = None, td_created = tr_created c\<rparr>"

definition apply_trust :: "gk_codec \<Rightarrow> bytes \<Rightarrow> gk_fsm \<Rightarrow> gk_result" where
  "apply_trust cd p f =
     (case dec_trust cd p of
        None \<Rightarrow> (f, Some BadPayload)
      | Some c \<Rightarrow> (f\<lparr>gk_devices := (gk_devices f)(tr_device c \<mapsto> trust_device c)\<rparr>, None))"

definition apply_revoke_device :: "gk_codec \<Rightarrow> bytes \<Rightarrow> gk_fsm \<Rightarrow> gk_result" where
  "apply_revoke_device cd p f =
     (case dec_device cd p of
        None \<Rightarrow> (f, Some BadPayload)
      | Some c \<Rightarrow>
          (case gk_devices f (dc_device c) of
             None \<Rightarrow> (f, None)
           | Some d \<Rightarrow> (f\<lparr>gk_devices := (gk_devices f)(dc_device c \<mapsto> d\<lparr>td_revoked := Some (dc_at c)\<rparr>)\<rparr>, None)))"

subsection \<open>Apply, snapshot, restore\<close>

text \<open>The dispatch. \<open>GenerateBackupCodes\<close> shares the handler of \<open>ConsumeBackupCode\<close>;
  \<open>apply_revoke\<close> and \<open>apply_fail\<close> have no command that reaches them.\<close>

definition gk_dispatch :: "gk_codec \<Rightarrow> gotime \<Rightarrow> raft_cmd \<Rightarrow> bytes \<Rightarrow> gk_fsm \<Rightarrow> gk_result" where
  "gk_dispatch cd clk t p f =
     (case t of
        EnrollFactor \<Rightarrow> apply_enroll cd p f
      | ActivateFactor \<Rightarrow> apply_activate cd clk p f
      | DisableFactor \<Rightarrow> apply_disable cd clk p f
      | CreateChallenge \<Rightarrow> apply_begin cd p f
      | VerifyChallenge \<Rightarrow> apply_verify cd p f
      | ExpireChallenge \<Rightarrow> apply_expire cd p f
      | GenerateBackupCodes \<Rightarrow> apply_use_code cd p f
      | ConsumeBackupCode \<Rightarrow> apply_use_code cd p f
      | TrustDevice \<Rightarrow> apply_trust cd p f
      | RevokeDevice \<Rightarrow> apply_revoke_device cd p f
      | OtherCmd u \<Rightarrow> (f, Some (UnknownCommand u)))"

record log_entry =
  lg_index :: "64 word"
  lg_data :: bytes

definition gk_apply :: "gk_codec \<Rightarrow> gotime \<Rightarrow> log_entry \<Rightarrow> gk_fsm \<Rightarrow> gk_result" where
  "gk_apply cd clk l f =
     (case dec_command cd (lg_data l) of
        None \<Rightarrow> (f, Some BadEntry)
      | Some (t, p) \<Rightarrow> gk_dispatch cd clk t p (f\<lparr>gk_index := lg_index l\<rparr>))"

text \<open>A replica applies the log in order, each entry at a reading of its own clock.\<close>

fun gk_replay :: "gk_codec \<Rightarrow> (gotime \<times> log_entry) list \<Rightarrow> gk_fsm \<Rightarrow> gk_fsm" where
  "gk_replay cd [] f = f"
| "gk_replay cd ((clk, l) # ls) f = gk_replay cd ls (fst (gk_apply cd clk l f))"

text \<open>The results a log gives its callers.\<close>

fun gk_results :: "gk_codec \<Rightarrow> (gotime \<times> log_entry) list \<Rightarrow> gk_fsm \<Rightarrow> gk_error option list" where
  "gk_results cd [] f = []"
| "gk_results cd ((clk, l) # ls) f =
     snd (gk_apply cd clk l f) # gk_results cd ls (fst (gk_apply cd clk l f))"

definition gk_snapshot :: "gk_fsm \<Rightarrow> gk_fsm" where
  "gk_snapshot f = f"

text \<open>What survives the JSON of a snapshot: \<open>Challenge.Nonce\<close> and \<open>TrustedDevice.TokenHash\<close>
  are tagged \<open>json:"-"\<close>.\<close>

definition persist_challenge :: "challenge \<Rightarrow> challenge" where
  "persist_challenge c = c\<lparr>ch_nonce := []\<rparr>"

definition persist_device :: "trusted_device \<Rightarrow> trusted_device" where
  "persist_device d = d\<lparr>td_token := []\<rparr>"

definition gk_persist :: "gk_fsm \<Rightarrow> gk_fsm" where
  "gk_persist f = f\<lparr>gk_challenges := map_option persist_challenge \<circ> gk_challenges f,
                     gk_devices := map_option persist_device \<circ> gk_devices f\<rparr>"

text \<open>\<open>Restore\<close> of a decoded snapshot (\<open>None\<close> when decoding failed).\<close>

definition gk_restore :: "gk_fsm option \<Rightarrow> gk_fsm \<Rightarrow> gk_result" where
  "gk_restore snap f =
     (case snap of
        None \<Rightarrow> (f, Some BadEntry)
      | Some s \<Rightarrow> (f\<lparr>gk_index := gk_index s, gk_factors := gk_factors s, gk_challenges := gk_challenges s,
                      gk_used := gk_used s, gk_devices := gk_devices s\<rparr>, None))"

definition gk_read_factor :: "uuid \<Rightarrow> gk_fsm \<Rightarrow> factor option" where
  "gk_read_factor k f = gk_factors f k"

definition gk_read_challenge :: "uuid \<Rightarrow> gk_fsm \<Rightarrow> challenge option" where
  "gk_read_challenge k f = gk_challenges f k"

subsection \<open>What one entry changes\<close>

lemmas apply_defs = apply_enroll_def apply_activate_def apply_disable_def apply_begin_def apply_verify_def
  apply_expire_def apply_use_code_def apply_trust_def apply_revoke_device_def

text \<open>The part of the state each handler writes: any property of a factor kept by the three
  factor handlers, and of a challenge kept by the three challenge handlers, holds of every
  state a log leads to.\<close>

lemma gk_apply_factors:
  assumes P: "\<forall>k x. gk_factors f k = Some x \<longrightarrow> P k x"
    and "\<And>c. P (en_factor c) (enroll_factor c)"
    and "\<And>k x c. P k x \<Longrightarrow> P k (disable_factor clk c x)"
    and "\<And>x c p. P (fc_factor c) x \<Longrightarrow> dec_command cd (lg_data l) = Some (ActivateFactor, p) \<Longrightarrow>
           dec_activate cd p = Some c \<Longrightarrow> P (fc_factor c) (activate_factor clk c x)"
  shows "\<forall>k x. gk_factors (fst (gk_apply cd clk l f)) k = Some x \<longrightarrow> P k x"
proof (cases "dec_command cd (lg_data l)")
  case (Some tp)
  obtain t p where tp: "tp = (t, p)" by fastforce
  have upd: "\<forall>j x. ((gk_factors f)(k \<mapsto> y)) j = Some x \<longrightarrow> P j x" if "P k y" for k y
    using that P by simp
  show ?thesis
  proof (cases t)
    case ActivateFactor
    then show ?thesis
      using P Some tp
      by (auto simp: gk_apply_def gk_dispatch_def apply_activate_def split: option.split intro!: assms(4))
  next
    case DisableFactor
    then show ?thesis
      using P Some tp
      by (auto simp: gk_apply_def gk_dispatch_def apply_disable_def split: option.split intro!: assms(3))
  next
    case EnrollFactor
    then show ?thesis
      using P Some tp upd [OF assms(2)]
      by (simp add: gk_apply_def gk_dispatch_def apply_enroll_def del: fun_upd_apply split: option.split)
  qed (use P Some tp in \<open>simp_all add: gk_apply_def gk_dispatch_def apply_defs split: option.split\<close>)
qed (use P in \<open>simp add: gk_apply_def\<close>)

lemma gk_apply_challenges:
  assumes "\<forall>x \<in> ran (gk_challenges f). P x"
    and "\<And>c. P (begin_challenge c)"
    and "\<And>x r. P x \<Longrightarrow> P (x\<lparr>ch_phase := Verified, ch_resolved := r\<rparr>)"
    and "\<And>x r. P x \<Longrightarrow> P (x\<lparr>ch_phase := Expired, ch_resolved := r\<rparr>)"
  shows "\<forall>x \<in> ran (gk_challenges (fst (gk_apply cd clk l f))). P x"
proof (cases "dec_command cd (lg_data l)")
  case (Some tp)
  obtain t p where tp: "tp = (t, p)" by fastforce
  have upd: "\<forall>x \<in> ran ((gk_challenges f)(k \<mapsto> y)). P x" if "P y" for k y
    using that assms(1) by (auto simp: ran_def)
  have old: "P x" if "gk_challenges f k = Some x" for k x
    using that assms(1) by (auto intro: ranI)
  show ?thesis
  proof (cases t)
    case VerifyChallenge
    then show ?thesis
      using assms(1) Some tp
      by (auto simp: gk_apply_def gk_dispatch_def apply_verify_def simp del: fun_upd_apply
          split: option.split intro!: upd assms(3) intro: old)
  next
    case ExpireChallenge
    then show ?thesis
      using assms(1) Some tp
      by (auto simp: gk_apply_def gk_dispatch_def apply_expire_def simp del: fun_upd_apply
          split: option.split intro!: upd assms(4) intro: old)
  next
    case CreateChallenge
    then show ?thesis
      using assms(1) Some tp upd [OF assms(2)]
      by (simp add: gk_apply_def gk_dispatch_def apply_begin_def del: fun_upd_apply split: option.split)
  qed (use assms(1) Some tp in \<open>simp_all add: gk_apply_def gk_dispatch_def apply_defs split: option.split\<close>)
qed (use assms(1) in \<open>simp add: gk_apply_def\<close>)

text \<open>Used codes only accumulate, and a second use is refused.\<close>

definition consumes :: "gk_codec \<Rightarrow> uuid \<Rightarrow> log_entry \<Rightarrow> bool" where
  "consumes cd k l =
     (case dec_command cd (lg_data l) of
        None \<Rightarrow> False
      | Some (t, p) \<Rightarrow> t \<in> {GenerateBackupCodes, ConsumeBackupCode} \<and>
          (case dec_backup cd p of None \<Rightarrow> False | Some c \<Rightarrow> bc_code c = k))"

lemma gk_dispatch_used:
  "gk_used (fst (gk_dispatch cd clk t p f)) =
     (if t = GenerateBackupCodes \<or> t = ConsumeBackupCode then gk_used (fst (apply_use_code cd p f)) else gk_used f)"
proof (cases t)
  case EnrollFactor then show ?thesis by (simp add: gk_dispatch_def apply_enroll_def split: option.split)
next
  case ActivateFactor then show ?thesis by (simp add: gk_dispatch_def apply_activate_def split: option.split)
next
  case DisableFactor then show ?thesis by (simp add: gk_dispatch_def apply_disable_def split: option.split)
next
  case CreateChallenge then show ?thesis by (simp add: gk_dispatch_def apply_begin_def split: option.split)
next
  case VerifyChallenge then show ?thesis by (simp add: gk_dispatch_def apply_verify_def split: option.split)
next
  case ExpireChallenge then show ?thesis by (simp add: gk_dispatch_def apply_expire_def split: option.split)
next
  case TrustDevice then show ?thesis by (simp add: gk_dispatch_def apply_trust_def split: option.split)
next
  case RevokeDevice then show ?thesis by (simp add: gk_dispatch_def apply_revoke_device_def split: option.split)
qed (simp_all add: gk_dispatch_def)

lemma use_code_used:
  "gk_used f k \<noteq> None \<Longrightarrow> gk_used (fst (apply_use_code cd p f)) k \<noteq> None"
  by (simp add: apply_use_code_def split: option.split)

lemma gk_apply_used:
  "gk_used f k \<noteq> None \<Longrightarrow> gk_used (fst (gk_apply cd clk l f)) k \<noteq> None"
  using use_code_used [of "f\<lparr>gk_index := lg_index l\<rparr>" k]
  by (simp add: gk_apply_def gk_dispatch_used split: option.split)

lemma consumesE:
  assumes "consumes cd k l"
  obtains t p c where "dec_command cd (lg_data l) = Some (t, p)" "t = GenerateBackupCodes \<or> t = ConsumeBackupCode"
    "dec_backup cd p = Some c" "bc_code c = k"
    "gk_apply cd clk l f = apply_use_code cd p (f\<lparr>gk_index := lg_index l\<rparr>)"
  using assms by (auto simp: consumes_def gk_apply_def gk_dispatch_def split: option.splits)

lemma consume_twice:
  assumes "gk_used f k \<noteq> None" "consumes cd k l"
  shows "snd (gk_apply cd clk l f) = Some (CodeUsed k)"
  using assms(2)
proof (rule consumesE)
  fix t p c
  assume "dec_backup cd p = Some c" "bc_code c = k"
    "gk_apply cd clk l f = apply_use_code cd p (f\<lparr>gk_index := lg_index l\<rparr>)"
  then show ?thesis using assms(1) by (auto simp: apply_use_code_def)
qed

lemma consume_marks:
  assumes "snd (gk_apply cd clk l f) = None" "consumes cd k l"
  shows "gk_used (fst (gk_apply cd clk l f)) k \<noteq> None"
  using assms(2)
proof (rule consumesE)
  fix t p c
  assume "dec_backup cd p = Some c" "bc_code c = k"
    "gk_apply cd clk l f = apply_use_code cd p (f\<lparr>gk_index := lg_index l\<rparr>)"
  then show ?thesis using assms(1) by (auto simp: apply_use_code_def split: option.splits)
qed

text \<open>The entries of a log whose consumption of \<open>k\<close> was accepted.\<close>

definition accepted_uses :: "gk_codec \<Rightarrow> uuid \<Rightarrow> (gotime \<times> log_entry) list \<Rightarrow> gk_fsm \<Rightarrow> (gotime \<times> log_entry) list" where
  "accepted_uses cd k ls f =
     map fst (filter (\<lambda>(e, r). consumes cd k (snd e) \<and> r = None) (zip ls (gk_results cd ls f)))"

lemma accepted_uses_simps [simp]:
  "accepted_uses cd k [] f = []"
  "accepted_uses cd k ((clk, l) # ls) f =
     (if consumes cd k l \<and> snd (gk_apply cd clk l f) = None then [(clk, l)] else []) @
     accepted_uses cd k ls (fst (gk_apply cd clk l f))"
  by (simp_all add: accepted_uses_def)

lemma accepted_uses_used: "gk_used f k \<noteq> None \<Longrightarrow> accepted_uses cd k ls f = []"
proof (induction cd ls f rule: gk_replay.induct)
  case (2 cd clk l ls f)
  then show ?case using consume_twice [OF "2.prems"] gk_apply_used [OF "2.prems"] by auto
qed simp

subsection \<open>Local clocks\<close>

text \<open>The state without the transition times, the only fields a local clock enters.\<close>

definition erase_cond :: "condition \<Rightarrow> condition" where
  "erase_cond c = c\<lparr>c_transition := zero_time\<rparr>"

definition erase_factor :: "factor \<Rightarrow> factor" where
  "erase_factor x = x\<lparr>f_status := (f_status x)\<lparr>ft_conditions := map erase_cond (ft_conditions (f_status x))\<rparr>\<rparr>"

definition erase_times :: "gk_fsm \<Rightarrow> gk_fsm" where
  "erase_times f = f\<lparr>gk_factors := map_option erase_factor \<circ> gk_factors f\<rparr>"

lemma erase_upsert:
  "map erase_cond xs = map erase_cond ys \<Longrightarrow>
   map erase_cond (upsert_condition clk c xs) = map erase_cond (upsert_condition clk' c ys)"
proof (induction clk c xs arbitrary: ys rule: upsert_condition.induct)
  case (2 clk c x xs)
  from "2.prems" obtain y ys' where y: "ys = y # ys'" "erase_cond x = erase_cond y"
    "map erase_cond xs = map erase_cond ys'"
    by (auto simp: Cons_eq_map_conv)
  have "c_type x = c_type y" "c_status x = c_status y"
    using arg_cong [OF y(2), of c_type] arg_cong [OF y(2), of c_status] by (simp_all add: erase_cond_def)
  then show ?case using 2 y by (auto simp: erase_cond_def)
qed (simp add: erase_cond_def)

lemma erase_factorD:
  assumes "erase_factor x = erase_factor y"
  shows "map erase_cond (ft_conditions (f_status x)) = map erase_cond (ft_conditions (f_status y))"
    and "x\<lparr>f_status := (f_status x)\<lparr>ft_conditions := cs\<rparr>\<rparr> = y\<lparr>f_status := (f_status y)\<lparr>ft_conditions := cs\<rparr>\<rparr>"
proof -
  show "map erase_cond (ft_conditions (f_status x)) = map erase_cond (ft_conditions (f_status y))"
    using arg_cong [OF assms, of "ft_conditions \<circ> f_status"] by (simp add: erase_factor_def)
  show "x\<lparr>f_status := (f_status x)\<lparr>ft_conditions := cs\<rparr>\<rparr> = y\<lparr>f_status := (f_status y)\<lparr>ft_conditions := cs\<rparr>\<rparr>"
    using arg_cong [OF assms, of "\<lambda>z. z\<lparr>f_status := (f_status z)\<lparr>ft_conditions := cs\<rparr>\<rparr>"]
    by (simp add: erase_factor_def)
qed

lemma erase_activate:
  assumes "erase_factor x = erase_factor y"
  shows "erase_factor (activate_factor clk c x) = erase_factor (activate_factor clk' c y)"
    and "erase_factor (disable_factor clk d x) = erase_factor (disable_factor clk' d y)"
proof -
  note e = erase_factorD [OF assms]
  note u = erase_upsert [OF e(1)]
  show "erase_factor (activate_factor clk c x) = erase_factor (activate_factor clk' c y)"
    using e(2) [of "[]"] u unfolding erase_factor_def activate_factor_def set_condition_def
    by (cases x; cases y; cases "f_status x"; cases "f_status y") simp
  show "erase_factor (disable_factor clk d x) = erase_factor (disable_factor clk' d y)"
    using e(2) [of "[]"] u unfolding erase_factor_def disable_factor_def set_condition_def
    by (cases x; cases y; cases "f_status x"; cases "f_status y") simp
qed

lemma gk_fsm_eq_iff:
  "(f :: gk_fsm) = g \<longleftrightarrow> gk_factors f = gk_factors g \<and> gk_challenges f = gk_challenges g \<and>
     gk_used f = gk_used g \<and> gk_devices f = gk_devices g \<and> gk_index f = gk_index g"
  by (auto intro: gk_fsm.equality)

lemma erase_times_iff:
  "erase_times f = erase_times g \<longleftrightarrow>
     (\<forall>k. map_option erase_factor (gk_factors f k) = map_option erase_factor (gk_factors g k)) \<and>
     gk_challenges f = gk_challenges g \<and> gk_used f = gk_used g \<and> gk_devices f = gk_devices g \<and>
     gk_index f = gk_index g"
  unfolding gk_fsm_eq_iff by (auto simp: erase_times_def fun_eq_iff)

lemma erase_apply_activate:
  assumes "erase_times f = erase_times g"
  shows "erase_times (fst (apply_activate cd clk p f)) = erase_times (fst (apply_activate cd clk' p g)) \<and>
    snd (apply_activate cd clk p f) = snd (apply_activate cd clk' p g)"
proof (cases "dec_activate cd p")
  case (Some c)
  have e: "map_option erase_factor (gk_factors f (fc_factor c)) = map_option erase_factor (gk_factors g (fc_factor c))"
    using assms by (simp add: erase_times_iff)
  show ?thesis
  proof (cases "gk_factors f (fc_factor c)")
    case None
    then show ?thesis using e assms Some by (simp add: apply_activate_def)
  next
    case (Some x)
    then obtain y where y: "gk_factors g (fc_factor c) = Some y" "erase_factor x = erase_factor y"
      using e Some by (cases "gk_factors g (fc_factor c)") auto
    show ?thesis
      using assms Some \<open>dec_activate cd p = Some c\<close> y(1) erase_activate(1) [OF y(2)]
      by (simp add: apply_activate_def erase_times_iff)
  qed
qed (use assms in \<open>simp add: apply_activate_def\<close>)

lemma erase_apply_disable:
  assumes "erase_times f = erase_times g"
  shows "erase_times (fst (apply_disable cd clk p f)) = erase_times (fst (apply_disable cd clk' p g)) \<and>
    snd (apply_disable cd clk p f) = snd (apply_disable cd clk' p g)"
proof (cases "dec_disable cd p")
  case (Some c)
  have e: "map_option erase_factor (gk_factors f (fc_factor c)) = map_option erase_factor (gk_factors g (fc_factor c))"
    using assms by (simp add: erase_times_iff)
  show ?thesis
  proof (cases "gk_factors f (fc_factor c)")
    case None
    then show ?thesis using e assms Some by (simp add: apply_disable_def)
  next
    case (Some x)
    then obtain y where y: "gk_factors g (fc_factor c) = Some y" "erase_factor x = erase_factor y"
      using e Some by (cases "gk_factors g (fc_factor c)") auto
    show ?thesis
      using assms Some \<open>dec_disable cd p = Some c\<close> y(1) erase_activate(2) [OF y(2)]
      by (simp add: apply_disable_def erase_times_iff)
  qed
qed (use assms in \<open>simp add: apply_disable_def\<close>)

lemma erase_dispatch:
  assumes "erase_times f = erase_times g"
  shows "erase_times (fst (gk_dispatch cd clk t p f)) = erase_times (fst (gk_dispatch cd clk' t p g)) \<and>
    snd (gk_dispatch cd clk t p f) = snd (gk_dispatch cd clk' t p g)"
proof (cases t)
  case EnrollFactor then show ?thesis
    using assms by (simp add: gk_dispatch_def apply_enroll_def erase_times_iff split: option.split)
next
  case ActivateFactor then show ?thesis using erase_apply_activate [OF assms] by (simp add: gk_dispatch_def)
next
  case DisableFactor then show ?thesis using erase_apply_disable [OF assms] by (simp add: gk_dispatch_def)
next
  case CreateChallenge then show ?thesis
    using assms by (simp add: gk_dispatch_def apply_begin_def erase_times_iff split: option.split)
next
  case VerifyChallenge then show ?thesis
    using assms by (simp add: gk_dispatch_def apply_verify_def erase_times_iff split: option.split)
next
  case ExpireChallenge then show ?thesis
    using assms by (simp add: gk_dispatch_def apply_expire_def erase_times_iff split: option.split)
next
  case TrustDevice then show ?thesis
    using assms by (simp add: gk_dispatch_def apply_trust_def erase_times_iff split: option.split)
next
  case RevokeDevice then show ?thesis
    using assms by (simp add: gk_dispatch_def apply_revoke_device_def erase_times_iff split: option.split)
qed (use assms in \<open>simp_all add: gk_dispatch_def apply_use_code_def erase_times_iff split: option.split\<close>)

lemma erase_apply:
  assumes "erase_times f = erase_times g"
  shows "erase_times (fst (gk_apply cd clk l f)) = erase_times (fst (gk_apply cd clk' l g)) \<and>
    snd (gk_apply cd clk l f) = snd (gk_apply cd clk' l g)"
proof -
  have "erase_times (f\<lparr>gk_index := lg_index l\<rparr>) = erase_times (g\<lparr>gk_index := lg_index l\<rparr>)"
    using assms by (simp add: erase_times_iff)
  from erase_dispatch [OF this] show ?thesis
    using assms by (auto simp: gk_apply_def split: option.split)
qed

lemma erase_replay:
  "erase_times f = erase_times g \<Longrightarrow> map snd ls = map snd ls' \<Longrightarrow>
   erase_times (gk_replay cd ls f) = erase_times (gk_replay cd ls' g) \<and> gk_results cd ls f = gk_results cd ls' g"
proof (induction ls arbitrary: ls' f g)
  case (Cons e ls)
  obtain clk l where e: "e = (clk, l)" by fastforce
  from Cons.prems(2) e obtain clk' ls'' where ls': "ls' = (clk', l) # ls''" "map snd ls = map snd ls''"
    by (cases ls') (auto simp: prod_eq_iff)
  note step = erase_apply [OF Cons.prems(1), of cd clk l clk']
  show ?case
    using step Cons.IH [OF conjunct1 [OF step] ls'(2)] unfolding e ls'(1) by simp
qed simp

subsection \<open>Properties\<close>

text \<open>C6. A backup code is consumed at most once: whatever log a replica applies, from whatever
  state, at most one entry consuming a given code is accepted; every later one is refused.\<close>

theorem backup_code_single_use: "length (accepted_uses cd k ls f) \<le> 1"
proof (induction cd ls f rule: gk_replay.induct)
  case (2 cd clk l ls f)
  then show ?case
    using consume_marks [of cd clk l f k] accepted_uses_used by auto
qed simp

text \<open>Replicas that apply the same log from the same state at their own clocks give the
  same result for every entry and end in states that differ at most in the transition times of
  factor conditions.\<close>

theorem replicas_agree_but_for_times:
  assumes "map snd ls = map snd ls'"
  shows "erase_times (gk_replay cd ls f) = erase_times (gk_replay cd ls' f) \<and>
    gk_results cd ls f = gk_results cd ls' f"
  using erase_replay [OF refl assms] .

text \<open>Apply is not deterministic: activating an enrolled factor, whose ready condition is
  false, at two different local clock readings leaves two different states, although the log
  entry is the same.\<close>

theorem activate_depends_on_clock:
  assumes "dec_command cd (lg_data l) = Some (ActivateFactor, p)" "dec_activate cd p = Some c"
    and "gk_factors f (fc_factor c) = Some (enroll_factor e)" "clk \<noteq> clk'"
  shows "fst (gk_apply cd clk l f) \<noteq> fst (gk_apply cd clk' l f)"
proof
  assume eq: "fst (gk_apply cd clk l f) = fst (gk_apply cd clk' l f)"
  have "gk_factors (fst (gk_apply cd t l f)) (fc_factor c) = Some (activate_factor t c (enroll_factor e))" for t
    using assms(1,2,3) by (simp add: gk_apply_def gk_dispatch_def apply_activate_def)
  with eq have "activate_factor clk c (enroll_factor e) = activate_factor clk' c (enroll_factor e)"
    by (metis option.inject)
  moreover have "map c_transition (ft_conditions (f_status (activate_factor t c (enroll_factor e)))) = [t]" for t
    by (simp add: activate_factor_def enroll_factor_def set_condition_def)
  ultimately show False using assms(4) by (metis list.inject)
qed

text \<open>A factor is active only because a committed entry activated it: in every state a log
  leads to from the empty one, each active factor stands under an identifier that an
  ActivateFactor entry of that log names.\<close>

theorem active_only_if_activated:
  assumes "gk_factors (gk_replay cd ls gk_new) k = Some x" "factor_active x"
  shows "\<exists>e p c. e \<in> set ls \<and> dec_command cd (lg_data (snd e)) = Some (ActivateFactor, p) \<and>
    dec_activate cd p = Some c \<and> fc_factor c = k"
proof -
  define Q where "Q ls k x \<longleftrightarrow> (factor_active x \<longrightarrow> (\<exists>e p c. e \<in> set ls \<and>
    dec_command cd (lg_data (snd e)) = Some (ActivateFactor, p) \<and> dec_activate cd p = Some c \<and> fc_factor c = k))"
    for ls :: "(gotime \<times> log_entry) list" and k x
  have step: "\<forall>k x. gk_factors (fst (gk_apply cd clk l f)) k = Some x \<longrightarrow> Q (ms @ [(clk, l)]) k x"
    if "\<forall>k x. gk_factors f k = Some x \<longrightarrow> Q ms k x" for ms clk l f
  proof (rule gk_apply_factors)
    show "\<forall>k x. gk_factors f k = Some x \<longrightarrow> Q (ms @ [(clk, l)]) k x"
      using that unfolding Q_def by (metis Un_iff set_append)
  qed (auto simp: Q_def factor_active_def enroll_factor_def disable_factor_def set_condition_def)
  have "\<forall>k x. gk_factors (gk_replay cd ls f) k = Some x \<longrightarrow> Q (ms @ ls) k x"
    if "\<forall>k x. gk_factors f k = Some x \<longrightarrow> Q ms k x" for ms f
    using that
  proof (induction ls arbitrary: ms f)
    case (Cons e ls)
    obtain clk l where e: "e = (clk, l)" by fastforce
    from Cons.IH [OF step [OF Cons.prems, of clk l]] show ?case unfolding e by simp
  qed simp
  from this [of gk_new "[]"] show ?thesis using assms by (simp add: gk_new_def Q_def)
qed

text \<open>Revocation and failed attempts cannot be recorded: no log leads from the empty state
  to a revoked factor or to a challenge that failed or has counted an attempt, because no
  command type dispatches to the handlers that record them.\<close>

theorem revoke_and_fail_unreachable:
  shows "(\<forall>k x. gk_factors (gk_replay cd ls gk_new) k = Some x \<longrightarrow> ft_phase (f_status x) \<noteq> FRevoked) \<and>
    (\<forall>k c. gk_challenges (gk_replay cd ls gk_new) k = Some c \<longrightarrow> ch_phase c \<noteq> ChFailed \<and> ch_attempts c = 0)"
proof -
  have "(\<forall>k x. gk_factors (gk_replay cd ls f) k = Some x \<longrightarrow> ft_phase (f_status x) \<noteq> FRevoked) \<and>
    (\<forall>c \<in> ran (gk_challenges (gk_replay cd ls f)). ch_phase c \<noteq> ChFailed \<and> ch_attempts c = 0)"
    if "\<forall>k x. gk_factors f k = Some x \<longrightarrow> ft_phase (f_status x) \<noteq> FRevoked"
      "\<forall>c \<in> ran (gk_challenges f). ch_phase c \<noteq> ChFailed \<and> ch_attempts c = 0" for f
    using that
  proof (induction cd ls f rule: gk_replay.induct)
    case (2 cd clk l ls f)
    have 1: "\<forall>k x. gk_factors (fst (gk_apply cd clk l f)) k = Some x \<longrightarrow> ft_phase (f_status x) \<noteq> FRevoked"
      by (rule gk_apply_factors [OF "2.prems"(1)])
         (simp_all add: enroll_factor_def disable_factor_def activate_factor_def set_condition_def)
    have 2: "\<forall>c \<in> ran (gk_challenges (fst (gk_apply cd clk l f))). ch_phase c \<noteq> ChFailed \<and> ch_attempts c = 0"
      by (rule gk_apply_challenges [OF "2.prems"(2)]) (simp_all add: begin_challenge_def)
    show ?case unfolding gk_replay.simps by (rule "2.IH" [OF 1 2])
  qed simp
  from this [of gk_new] show ?thesis by (auto simp: gk_new_def ran_def)
qed

text \<open>A snapshot carried through its JSON form restores the state exactly when no challenge has
  a nonce and no trusted device a token hash; any other state comes back without them.\<close>

theorem snapshot_loses_secrets:
  shows "fst (gk_restore (Some (gk_persist (gk_snapshot f))) g) = f \<longleftrightarrow>
    (\<forall>k c. gk_challenges f k = Some c \<longrightarrow> ch_nonce c = []) \<and>
    (\<forall>k d. gk_devices f k = Some d \<longrightarrow> td_token d = [])"
proof -
  have "map_option persist_challenge (gk_challenges f k) = gk_challenges f k \<longleftrightarrow>
    (\<forall>c. gk_challenges f k = Some c \<longrightarrow> ch_nonce c = [])" for k
    by (cases "gk_challenges f k") (auto simp: persist_challenge_def dest!: arg_cong [where f = ch_nonce])
  moreover have "map_option persist_device (gk_devices f k) = gk_devices f k \<longleftrightarrow>
    (\<forall>d. gk_devices f k = Some d \<longrightarrow> td_token d = [])" for k
    by (cases "gk_devices f k") (auto simp: persist_device_def dest!: arg_cong [where f = td_token])
  ultimately show ?thesis
    unfolding gk_fsm_eq_iff by (simp add: gk_restore_def gk_persist_def gk_snapshot_def fun_eq_iff)
qed

text \<open>A terminal challenge can be reopened: a VerifyChallenge entry is accepted for a challenge
  in any phase, an expired one included, and leaves it verified.\<close>

theorem verify_ignores_phase:
  assumes "dec_command cd (lg_data l) = Some (VerifyChallenge, p)" "dec_verify cd p = Some c"
    and "gk_challenges f (cc_challenge c) = Some x" "ch_is_terminal x"
  shows "snd (gk_apply cd clk l f) = None \<and>
    (\<exists>y. gk_challenges (fst (gk_apply cd clk l f)) (cc_challenge c) = Some y \<and> ch_phase y = Verified \<and>
       ch_resolved y = Some (cc_at c))"
  using assms by (simp add: gk_apply_def gk_dispatch_def apply_verify_def)

subsection \<open>Witnesses\<close>

definition gk_demo_codec :: gk_codec where
  "gk_demo_codec = \<lparr>
     dec_command = (\<lambda>b. if b = ''E'' then Some (EnrollFactor, ''e'') else if b = ''A'' then Some (ActivateFactor, ''a'')
       else if b = ''V'' then Some (VerifyChallenge, ''v'') else None),
     dec_enroll = (\<lambda>b. Some \<lparr>en_factor = 7, en_user = 1, en_type = ''totp'', en_secret = [], en_issuer = [],
       en_at = 10, en_version = 1\<rparr>),
     dec_activate = (\<lambda>b. Some \<lparr>fc_factor = 7, fc_at = 20, fc_version = 2\<rparr>),
     dec_disable = Map.empty, dec_revoke = Map.empty, dec_begin = Map.empty,
     dec_verify = (\<lambda>b. Some \<lparr>cc_challenge = 3, cc_at = 99\<rparr>),
     dec_expire = Map.empty, dec_fail = Map.empty, dec_backup = Map.empty, dec_trust = Map.empty,
     dec_device = Map.empty\<rparr>"

definition gk_demo_entry :: "bytes \<Rightarrow> log_entry" where
  "gk_demo_entry b = \<lparr>lg_index = 1, lg_data = b\<rparr>"

lemmas gk_demo_simps = gk_demo_codec_def gk_demo_entry_def gk_apply_def gk_dispatch_def
  apply_enroll_def apply_activate_def apply_verify_def gk_new_def

theorem replicas_agree_but_for_times_witness:
  "erase_times (gk_replay gk_demo_codec [(5, gk_demo_entry ''E''), (6, gk_demo_entry ''A'')] gk_new) =
   erase_times (gk_replay gk_demo_codec [(8, gk_demo_entry ''E''), (9, gk_demo_entry ''A'')] gk_new)"
  using replicas_agree_but_for_times
    [of "[(5, gk_demo_entry ''E''), (6, gk_demo_entry ''A'')]" "[(8, gk_demo_entry ''E''), (9, gk_demo_entry ''A'')]"]
  by simp

theorem activate_depends_on_clock_witness:
  "\<exists>f. fst (gk_apply gk_demo_codec 30 (gk_demo_entry ''A'') f) \<noteq> fst (gk_apply gk_demo_codec 31 (gk_demo_entry ''A'') f)"
proof -
  let ?c = "\<lparr>en_factor = 7, en_user = 1, en_type = ''totp'', en_secret = [], en_issuer = [], en_at = 10, en_version = 1\<rparr>"
  have "fst (gk_apply gk_demo_codec 30 (gk_demo_entry ''A'') (gk_new\<lparr>gk_factors := [7 \<mapsto> enroll_factor ?c]\<rparr>))
      \<noteq> fst (gk_apply gk_demo_codec 31 (gk_demo_entry ''A'') (gk_new\<lparr>gk_factors := [7 \<mapsto> enroll_factor ?c]\<rparr>))"
    by (rule activate_depends_on_clock [where e = ?c and p = "''a''" and c = "\<lparr>fc_factor = 7, fc_at = 20, fc_version = 2\<rparr>"])
       (simp_all add: gk_demo_codec_def gk_demo_entry_def)
  then show ?thesis by blast
qed

theorem active_only_if_activated_witness:
  "\<exists>e \<in> {(5, gk_demo_entry ''E''), (6, gk_demo_entry ''A'')}. \<exists>p c.
     dec_command gk_demo_codec (lg_data (snd e)) = Some (ActivateFactor, p) \<and>
     dec_activate gk_demo_codec p = Some c \<and> fc_factor c = 7"
proof -
  let ?ls = "[(5, gk_demo_entry ''E''), (6, gk_demo_entry ''A'')]"
  have "\<exists>x. gk_factors (gk_replay gk_demo_codec ?ls gk_new) 7 = Some x \<and> factor_active x"
    by (simp add: gk_demo_simps factor_active_def activate_factor_def set_condition_def)
  then obtain x where "gk_factors (gk_replay gk_demo_codec ?ls gk_new) 7 = Some x" "factor_active x" by blast
  from active_only_if_activated [OF this] show ?thesis by auto
qed

theorem revoke_and_fail_unreachable_witness:
  "\<exists>x. gk_factors (gk_replay gk_demo_codec [(5, gk_demo_entry ''E'')] gk_new) 7 = Some x \<and>
     ft_phase (f_status x) \<noteq> FRevoked"
proof -
  have "\<exists>x. gk_factors (gk_replay gk_demo_codec [(5, gk_demo_entry ''E'')] gk_new) 7 = Some x"
    by (simp add: gk_demo_simps)
  then show ?thesis
    using revoke_and_fail_unreachable [of gk_demo_codec "[(5, gk_demo_entry ''E'')]"] by blast
qed

definition gk_demo_challenge :: challenge where
  "gk_demo_challenge = \<lparr>ch_id = 3, ch_user = 1, ch_factor = 7, ch_phase = Expired, ch_nonce = ''n'', ch_attempts = 0,
     ch_expires = 50, ch_resolved = Some 51, ch_ip = [], ch_agent = [], ch_created = 1, ch_version = 0\<rparr>"

theorem snapshot_loses_secrets_witness:
  "fst (gk_restore (Some (gk_persist (gk_snapshot (gk_new\<lparr>gk_challenges := [3 \<mapsto> gk_demo_challenge]\<rparr>)))) gk_new)
     \<noteq> gk_new\<lparr>gk_challenges := [3 \<mapsto> gk_demo_challenge]\<rparr>"
  using snapshot_loses_secrets [of "gk_new\<lparr>gk_challenges := [3 \<mapsto> gk_demo_challenge]\<rparr>" gk_new]
  by (simp add: gk_demo_challenge_def)

theorem verify_ignores_phase_witness:
  "snd (gk_apply gk_demo_codec 60 (gk_demo_entry ''V'') (gk_new\<lparr>gk_challenges := [3 \<mapsto> gk_demo_challenge]\<rparr>)) = None"
  using verify_ignores_phase [of gk_demo_codec "gk_demo_entry ''V''" "''v''" "\<lparr>cc_challenge = 3, cc_at = 99\<rparr>"
      "gk_new\<lparr>gk_challenges := [3 \<mapsto> gk_demo_challenge]\<rparr>" gk_demo_challenge 60]
  by (simp add: gk_demo_codec_def gk_demo_entry_def gk_demo_challenge_def ch_is_terminal_def)

end
