(* ===== verification/Gatekeeper_Challenge.thy ===== *)
theory Gatekeeper_Challenge
  imports Gatekeeper_FSM "HOL-Library.Signed_Division"
begin

section \<open>Challenges and one-time codes (internal/gatekeeper/challenge, totp, pgstore)\<close>

text \<open>
  The challenge service over its repository. The repository is the map the SQL statements of
  \<open>pgstore/challenge_repository.go\<close> describe: \<open>Update\<close> succeeds only at the stored version
  and returns the next one. Each call takes an environment: the clock reading, the factor
  repository (\<open>None\<close> an error, \<open>Some None\<close> no such factor), the AES-GCM decryption with
  the service's key and the TOTP validator (\<open>None\<close> an error). \<open>verify_on\<close> is the part of
  \<open>VerifyChallenge\<close> after the read, so that calls which read before others write can be
  interleaved. The validator itself is \<open>totp_validate\<close>, over the HMAC of the runtime library.
\<close>

subsection \<open>The phase machine (state.go)\<close>

datatype sm_phase = Known challenge_phase | UnknownPhase string

record phase_machine =
  sm_current :: sm_phase
  sm_attempts :: int
  sm_max :: int

definition new_machine :: "sm_phase \<Rightarrow> int \<Rightarrow> int \<Rightarrow> phase_machine" where
  "new_machine p a m = \<lparr>sm_current = p, sm_attempts = a, sm_max = m\<rparr>"

definition can_transition :: "phase_machine \<Rightarrow> sm_phase \<Rightarrow> bool" where
  "can_transition m tgt =
     (case sm_current m of
        Known Waiting \<Rightarrow> tgt = Known Verified \<or> tgt = Known Expired \<or> tgt = Known ChFailed \<or> tgt = Known ChRejected
      | _ \<Rightarrow> False)"

definition sm_transition :: "sm_phase \<Rightarrow> phase_machine \<Rightarrow> phase_machine \<times> bool" where
  "sm_transition tgt m =
     (if \<not> can_transition m tgt then (m, False) else (m\<lparr>sm_current := tgt\<rparr>, True))"

definition record_attempt :: "phase_machine \<Rightarrow> phase_machine" where
  "record_attempt m =
     (let m1 = m\<lparr>sm_attempts := sm_attempts m + 1\<rparr> in
      if sm_attempts m1 \<ge> sm_max m1 then m1\<lparr>sm_current := Known ChFailed\<rparr> else m1)"

definition sm_is_terminal :: "phase_machine \<Rightarrow> bool" where
  "sm_is_terminal m \<longleftrightarrow> sm_current m \<in> {Known Verified, Known Expired, Known ChFailed, Known ChRejected}"

subsection \<open>The repository\<close>

type_synonym challenge_db = "uuid \<rightharpoonup> challenge"

definition repo_update :: "challenge \<Rightarrow> challenge_db \<Rightarrow> (challenge_db \<times> challenge) option" where
  "repo_update c db =
     (case db (ch_id c) of
        None \<Rightarrow> None
      | Some old \<Rightarrow>
          if ch_version old = ch_version c
          then Some (db(ch_id c \<mapsto> old\<lparr>ch_phase := ch_phase c, ch_nonce := ch_nonce c, ch_attempts := ch_attempts c,
                  ch_expires := ch_expires c, ch_resolved := ch_resolved c, ch_version := ch_version old + 1\<rparr>),
                c\<lparr>ch_version := ch_version old + 1\<rparr>)
          else None)"

text \<open>An update whose error the caller discards.\<close>

definition try_update :: "challenge \<Rightarrow> challenge_db \<Rightarrow> challenge_db" where
  "try_update c db = (case repo_update c db of None \<Rightarrow> db | Some (db', _) \<Rightarrow> db')"

subsection \<open>The service\<close>

datatype verify_error =
    NotFound | TerminalState | ChallengeExpired | FactorMissing | DecryptFailed | InvalidCode | UpdateFailed | FactorInactive
  | FactorLookupFailed

record ch_env =
  ce_now :: gotime
  ce_factor :: "uuid \<Rightarrow> factor option option"
  ce_decrypt :: "bytes \<rightharpoonup> string"
  ce_totp :: "string \<Rightarrow> string \<Rightarrow> bool option"

definition hex_digit :: "nat \<Rightarrow> char" where
  "hex_digit n = (if n < 10 then char_of (48 + n) else char_of (87 + n))"

definition hex_encode :: "8 word list \<Rightarrow> string" where
  "hex_encode bs = concat (map (\<lambda>b. [hex_digit (unat b div 16), hex_digit (unat b mod 16)]) bs)"

text \<open>The random bytes are an argument; the number computed from them is not used.\<close>

definition generate_nonce :: "8 word list \<Rightarrow> string" where
  "generate_nonce rnd = hex_encode rnd"

definition begin_new :: "ch_env \<Rightarrow> uuid \<Rightarrow> 8 word list \<Rightarrow> uuid \<Rightarrow> uuid \<Rightarrow> string \<Rightarrow> string \<Rightarrow> challenge_db
    \<Rightarrow> challenge_db \<times> (verify_error, challenge) outcome" where
  "begin_new env fresh rnd user fid ip agent db =
     (case ce_factor env fid of
        Some (Some f) \<Rightarrow>
          if \<not> factor_active f then (db, Err FactorInactive)
          else
            let c = \<lparr>ch_id = fresh, ch_user = user, ch_factor = fid, ch_phase = Waiting,
                     ch_nonce = generate_nonce rnd, ch_attempts = 0,
                     ch_expires = ce_now env + 5 * 60 * second, ch_resolved = None, ch_ip = ip, ch_agent = agent,
                     ch_created = ce_now env, ch_version = 0\<rparr>
            in (db(fresh \<mapsto> c), Ok c)
      | Some None \<Rightarrow> (db, Err FactorInactive)
      | None \<Rightarrow> (db, Err FactorLookupFailed))"

definition resolve :: "challenge_phase \<Rightarrow> gotime \<Rightarrow> challenge \<Rightarrow> challenge" where
  "resolve p now c = c\<lparr>ch_phase := p, ch_resolved := Some now\<rparr>"

definition verify_on :: "ch_env \<Rightarrow> string \<Rightarrow> challenge \<Rightarrow> challenge_db
    \<Rightarrow> challenge_db \<times> (verify_error, challenge) outcome" where
  "verify_on env code c db =
     (if ch_is_terminal c then (db, Err TerminalState)
      else if ch_is_expired (ce_now env) c
      then (try_update (resolve Expired (ce_now env) c) db, Err ChallengeExpired)
      else
        let c1 = c\<lparr>ch_attempts := ch_attempts c + 1\<rparr> in
        case ce_factor env (ch_factor c) of
          Some (Some f) \<Rightarrow>
            (case ce_decrypt env (fs_secret (f_spec f)) of
               None \<Rightarrow> (try_update (resolve ChFailed (ce_now env) c1) db, Err DecryptFailed)
             | Some secret \<Rightarrow>
                 if ce_totp env secret code \<noteq> Some True
                 then (try_update (if ch_attempts c1 \<ge> 3 then resolve ChFailed (ce_now env) c1 else c1) db,
                       Err InvalidCode)
                 else (case repo_update (resolve Verified (ce_now env) c1) db of
                         None \<Rightarrow> (db, Err UpdateFailed)
                       | Some (db', c2) \<Rightarrow> (db', Ok c2)))
        | _ \<Rightarrow> (try_update (resolve ChFailed (ce_now env) c1) db, Err FactorMissing))"

definition verify_challenge :: "ch_env \<Rightarrow> string \<Rightarrow> uuid \<Rightarrow> challenge_db
    \<Rightarrow> challenge_db \<times> (verify_error, challenge) outcome" where
  "verify_challenge env code k db =
     (case db k of None \<Rightarrow> (db, Err NotFound) | Some c \<Rightarrow> verify_on env code c db)"

definition expire_challenge :: "ch_env \<Rightarrow> uuid \<Rightarrow> challenge_db \<Rightarrow> challenge_db \<times> verify_error option" where
  "expire_challenge env k db =
     (case db k of
        None \<Rightarrow> (db, Some NotFound)
      | Some c \<Rightarrow>
          if ch_is_terminal c then (db, None)
          else (case repo_update (resolve Expired (ce_now env) c) db of
                  None \<Rightarrow> (db, Some UpdateFailed)
                | Some (db', _) \<Rightarrow> (db', None)))"

text \<open>A sequence of verification calls on one challenge, each with its environment and code.\<close>

fun verify_seq :: "uuid \<Rightarrow> (ch_env \<times> string) list \<Rightarrow> challenge_db
    \<Rightarrow> challenge_db \<times> (verify_error, challenge) outcome list" where
  "verify_seq k [] db = (db, [])"
| "verify_seq k ((env, code) # rs) db =
     (case verify_challenge env code k db of
        (db', r) \<Rightarrow> (case verify_seq k rs db' of (db'', xs) \<Rightarrow> (db'', r # xs)))"

text \<open>Calls that have all read \<open>c\<close> before the first of them writes.\<close>

fun verify_par :: "challenge \<Rightarrow> (ch_env \<times> string) list \<Rightarrow> challenge_db
    \<Rightarrow> challenge_db \<times> (verify_error, challenge) outcome list" where
  "verify_par c [] db = (db, [])"
| "verify_par c ((env, code) # rs) db =
     (case verify_on env code c db of
        (db', r) \<Rightarrow> (case verify_par c rs db' of (db'', xs) \<Rightarrow> (db'', r # xs)))"

subsection \<open>One-time codes (totp)\<close>

text \<open>\<open>hmac\<close> is HMAC-SHA1 of the runtime library, a digest of 20 bytes.\<close>

definition unix_seconds :: "gotime \<Rightarrow> int" where
  "unix_seconds t = t div second - 62135596800"

definition be64 :: "int \<Rightarrow> 8 word list" where
  "be64 x = map (\<lambda>i. word_of_int (x div 2 ^ (8 * i))) (rev [0..<8])"

definition be32_at :: "8 word list \<Rightarrow> nat \<Rightarrow> nat" where
  "be32_at d i = unat (d ! i) * 2 ^ 24 + unat (d ! (i + 1)) * 2 ^ 16 + unat (d ! (i + 2)) * 2 ^ 8 + unat (d ! (i + 3))"

fun digits :: "nat \<Rightarrow> nat \<Rightarrow> string" where
  "digits 0 n = []"
| "digits (Suc w) n = digits w (n div 10) @ [char_of (48 + n mod 10)]"

definition totp_code :: "(bytes \<Rightarrow> 8 word list \<Rightarrow> 8 word list) \<Rightarrow> bytes \<Rightarrow> int \<Rightarrow> string" where
  "totp_code hmac secret t =
     (let d = hmac secret (be64 t);
          off = unat (d ! (length d - 1)) mod 16;
          p = be32_at d off mod 2 ^ 31
      in digits 6 (p mod 1000000))"

definition totp_validate :: "(bytes \<Rightarrow> 8 word list \<Rightarrow> 8 word list) \<Rightarrow> bytes \<Rightarrow> string \<Rightarrow> gotime \<Rightarrow> int \<Rightarrow> bool" where
  "totp_validate hmac secret code now step =
     (if code = [] \<or> length code \<noteq> 6 then False
      else code = totp_code hmac secret (unix_seconds now sdiv step))"

definition totp_check :: "(string \<rightharpoonup> bytes) \<Rightarrow> (bytes \<Rightarrow> 8 word list \<Rightarrow> 8 word list) \<Rightarrow> gotime
    \<Rightarrow> string \<Rightarrow> string \<Rightarrow> bool option" where
  "totp_check b32 hmac now secret code =
     (if secret = [] \<or> code = [] then None
      else case b32 secret of
        None \<Rightarrow> None
      | Some sb \<Rightarrow> Some (totp_validate hmac sb code now 30 \<or>
                       totp_validate hmac sb code (now - 30 * second) 30 \<or>
                       totp_validate hmac sb code (now + 30 * second) 30))"

subsection \<open>One call\<close>

definition db_ok :: "challenge_db \<Rightarrow> bool" where
  "db_ok db \<longleftrightarrow> (\<forall>k c. db k = Some c \<longrightarrow> ch_id c = k)"

text \<open>What an update stores, when it applies.\<close>

definition stored :: "challenge \<Rightarrow> challenge \<Rightarrow> challenge" where
  "stored old c = old\<lparr>ch_phase := ch_phase c, ch_nonce := ch_nonce c, ch_attempts := ch_attempts c,
     ch_expires := ch_expires c, ch_resolved := ch_resolved c, ch_version := ch_version old + 1\<rparr>"

lemma stored_simps [simp]:
  "ch_id (stored old c) = ch_id old" "ch_phase (stored old c) = ch_phase c"
  "ch_attempts (stored old c) = ch_attempts c" "ch_version (stored old c) = ch_version old + 1"
  "ch_expires (stored old c) = ch_expires c" "ch_factor (stored old c) = ch_factor old"
  by (simp_all add: stored_def)

lemma repo_update_Some:
  "db (ch_id c) = Some old \<Longrightarrow> ch_version old = ch_version c \<Longrightarrow>
   repo_update c db = Some (db(ch_id c \<mapsto> stored old c), c\<lparr>ch_version := ch_version old + 1\<rparr>)"
  by (simp add: repo_update_def stored_def)

lemma repo_update_stale:
  "db (ch_id c) = Some old \<Longrightarrow> ch_version old \<noteq> ch_version c \<Longrightarrow> repo_update c db = None"
  by (simp add: repo_update_def)

lemma resolve_simps [simp]:
  "ch_id (resolve p now c) = ch_id c" "ch_version (resolve p now c) = ch_version c"
  "ch_phase (resolve p now c) = p" "ch_attempts (resolve p now c) = ch_attempts c"
  "ch_expires (resolve p now c) = ch_expires c" "ch_factor (resolve p now c) = ch_factor c"
  by (simp_all add: resolve_def)

text \<open>
  A call on a stored challenge: refused without a change on a terminal one; otherwise the
  challenge stored afterwards, by outcome.
\<close>

lemma verify_challenge_cases:
  assumes "db_ok db" "db k = Some c"
  obtains (terminal) "ch_is_terminal c" "verify_challenge env code k db = (db, Err TerminalState)"
  | (ended) e p a where "\<not> ch_is_terminal c" "e \<noteq> InvalidCode" "p = Expired \<or> p = ChFailed" "ch_attempts c \<le> a"
      "verify_challenge env code k db = (db(k \<mapsto> stored c (resolve p (ce_now env) (c\<lparr>ch_attempts := a\<rparr>))), Err e)"
  | (wrong) c1 where "\<not> ch_is_terminal c" "\<not> ch_is_expired (ce_now env) c"
      "c1 = (if ch_attempts c + 1 \<ge> 3 then resolve ChFailed (ce_now env) (c\<lparr>ch_attempts := ch_attempts c + 1\<rparr>)
             else c\<lparr>ch_attempts := ch_attempts c + 1\<rparr>)"
      "verify_challenge env code k db = (db(k \<mapsto> stored c c1), Err InvalidCode)"
  | (verified) f secret c2 where "\<not> ch_is_terminal c" "\<not> ch_is_expired (ce_now env) c"
      "ce_factor env (ch_factor c) = Some (Some f)" "ce_decrypt env (fs_secret (f_spec f)) = Some secret"
      "ce_totp env secret code = Some True" "ch_phase c2 = Verified"
      "verify_challenge env code k db =
        (db(k \<mapsto> stored c (resolve Verified (ce_now env) (c\<lparr>ch_attempts := ch_attempts c + 1\<rparr>))), Ok c2)"
proof -
  have id: "ch_id c = k" using assms by (simp add: db_ok_def)
  have upd: "try_update x db = db(k \<mapsto> stored c x)" if "ch_id x = k" "ch_version x = ch_version c" for x
    using repo_update_Some [of db x c] that assms(2) by (simp add: try_update_def)
  let ?c1 = "c\<lparr>ch_attempts := ch_attempts c + 1\<rparr>"
  show thesis
  proof (cases "ch_is_terminal c")
    case True
    then show thesis using assms(2) by (intro terminal) (simp_all add: verify_challenge_def verify_on_def)
  next
    case live: False
    show thesis
    proof (cases "ch_is_expired (ce_now env) c")
      case True
      then show thesis using live assms(2) id
        by (intro ended [of ChallengeExpired Expired "ch_attempts c"])
           (simp_all add: verify_challenge_def verify_on_def upd)
    next
      case fresh: False
      note body = verify_challenge_def verify_on_def Let_def
      show thesis
      proof (cases "\<exists>f. ce_factor env (ch_factor c) = Some (Some f)")
        case False
        then show thesis using live fresh assms(2) id
          by (intro ended [of FactorMissing ChFailed "ch_attempts c + 1"])
             (auto simp: body upd split: option.split)
      next
        case True
        then obtain f where f: "ce_factor env (ch_factor c) = Some (Some f)" by blast
        show thesis
        proof (cases "ce_decrypt env (fs_secret (f_spec f))")
          case None
          then show thesis using live fresh assms(2) id f
            by (intro ended [of DecryptFailed ChFailed "ch_attempts c + 1"]) (simp_all add: body upd)
        next
          case (Some secret)
          show thesis
          proof (cases "ce_totp env secret code = Some True")
            case False
            then show thesis using live fresh assms(2) id f Some
              by (intro wrong) (simp_all add: body upd)
          next
            case True
            have "repo_update (resolve Verified (ce_now env) ?c1) db =
              Some (db(k \<mapsto> stored c (resolve Verified (ce_now env) ?c1)),
                    (resolve Verified (ce_now env) ?c1)\<lparr>ch_version := ch_version c + 1\<rparr>)"
              using repo_update_Some [of db "resolve Verified (ce_now env) ?c1" c] assms(2) id by simp
            then show thesis using live fresh assms(2) f Some True
              by (intro verified [of f secret "(resolve Verified (ce_now env) ?c1)\<lparr>ch_version := ch_version c + 1\<rparr>"])
                 (simp_all add: body)
          qed
        qed
      qed
    qed
  qed
qed

lemma verify_challenge_db_ok:
  assumes "db_ok db"
  shows "db_ok (fst (verify_challenge env code k db))"
proof (cases "db k")
  case (Some c)
  then have "ch_id c = k" using assms by (simp add: db_ok_def)
  from assms Some show ?thesis
    by (cases rule: verify_challenge_cases [where env = env and code = code])
       (use assms \<open>ch_id c = k\<close> in \<open>auto simp: db_ok_def\<close>)
qed (use assms in \<open>simp add: verify_challenge_def\<close>)

text \<open>How many wrong codes a stored challenge still takes.\<close>

definition budget :: "challenge option \<Rightarrow> nat" where
  "budget o_c = (case o_c of None \<Rightarrow> 0 | Some c \<Rightarrow> if ch_is_terminal c then 0 else max 1 (nat (3 - ch_attempts c)))"

lemma budget_step:
  assumes "db_ok db" "verify_challenge env code k db = (db', r)"
  shows "budget (db' k) + (if r = Err InvalidCode then 1 else 0) \<le> budget (db k)"
proof (cases "db k")
  case None
  then show ?thesis using assms(2) by (auto simp: verify_challenge_def)
next
  case (Some c)
  from assms(1) Some show ?thesis
  proof (cases rule: verify_challenge_cases [where env = env and code = code])
    case (wrong c1)
    then show ?thesis using assms(2) Some
      by (auto simp: budget_def ch_is_terminal_def split: if_splits)
  qed (use assms(2) Some in \<open>auto simp: budget_def ch_is_terminal_def\<close>)
qed

lemma verify_seq_budget:
  "db_ok db \<Longrightarrow> length (filter (\<lambda>r. r = Err InvalidCode) (snd (verify_seq k rs db))) \<le> budget (db k)"
proof (induction rs arbitrary: db)
  case (Cons e rs)
  obtain env code where e: "e = (env, code)" by fastforce
  obtain db' r where v: "verify_challenge env code k db = (db', r)" by fastforce
  obtain db'' xs where s: "verify_seq k rs db' = (db'', xs)" by fastforce
  have "db_ok db'" using verify_challenge_db_ok [OF Cons.prems, of env code k] v by simp
  from Cons.IH [OF this] budget_step [OF Cons.prems v] show ?case
    by (auto simp: e v s split: if_splits)
qed simp

subsection \<open>Codes\<close>

lemma length_digits [simp]: "length (digits w n) = w"
  by (induction w arbitrary: n) simp_all

lemma length_totp_code [simp]: "length (totp_code hmac secret t) = 6"
  by (simp add: totp_code_def Let_def)

lemma totp_code_decimal: "set (totp_code hmac secret t) \<subseteq> set ''0123456789''"
proof -
  have "list_all (\<lambda>m. char_of (48 + m) \<in> set ''0123456789'') [0..<10::nat]"
    by code_simp
  then have "char_of (48 + n mod 10) \<in> set ''0123456789''" for n :: nat
    by (metis (no_types, lifting) atLeastLessThan_iff bot_nat_0.extremum list_all_iff mod_less_divisor
        set_upt zero_less_numeral)
  then have "set (digits w n) \<subseteq> set ''0123456789''" for w n
    by (induction w arbitrary: n) simp_all
  then show ?thesis unfolding totp_code_def Let_def by blast
qed

lemma sdiv_nonneg: "0 \<le> a \<Longrightarrow> a sdiv 30 = a div (30 :: int)"
  by (simp add: signed_divide_int_def sgn_if)

lemma unix_shift: "unix_seconds (t + 30 * second) = unix_seconds t + 30"
  "unix_seconds (t - 30 * second) = unix_seconds t - 30"
proof -
  have "(t + 30 * second) div second = t div second + 30"
    using div_mult_self1 [of second t 30] by simp
  moreover have "(t - 30 * second) div second = t div second - 30"
    using div_mult_self1 [of second t "- 30"] by simp
  ultimately show "unix_seconds (t + 30 * second) = unix_seconds t + 30"
    "unix_seconds (t - 30 * second) = unix_seconds t - 30"
    by (simp_all add: unix_seconds_def)
qed

subsection \<open>Calls that overlap\<close>

definition wrong_guess :: "challenge \<Rightarrow> ch_env \<times> string \<Rightarrow> bool" where
  "wrong_guess c g \<longleftrightarrow>
     (case g of (env, code) \<Rightarrow> \<not> ch_is_expired (ce_now env) c \<and>
        (\<exists>f secret. ce_factor env (ch_factor c) = Some (Some f) \<and>
           ce_decrypt env (fs_secret (f_spec f)) = Some secret \<and> ce_totp env secret code \<noteq> Some True))"

lemma verify_on_wrong:
  assumes "wrong_guess c (env, code)" "\<not> ch_is_terminal c" "ch_attempts c < 2"
  shows "verify_on env code c db = (try_update (c\<lparr>ch_attempts := ch_attempts c + 1\<rparr>) db, Err InvalidCode)"
  using assms by (auto simp: wrong_guess_def verify_on_def Let_def)

lemma verify_par_stale:
  assumes "\<not> ch_is_terminal c" "ch_attempts c < 2" "db (ch_id c) = Some old" "ch_version old \<noteq> ch_version c"
    and "\<And>g. g \<in> set rs \<Longrightarrow> wrong_guess c g"
  shows "verify_par c rs db = (db, map (\<lambda>_. Err InvalidCode) rs)"
  using assms(5)
proof (induction rs)
  case (Cons g rs)
  obtain env code where g: "g = (env, code)" by fastforce
  have "verify_on env code c db = (db, Err InvalidCode)"
    using verify_on_wrong [OF _ assms(1,2), of env code db] Cons.prems g
      repo_update_stale [of db "c\<lparr>ch_attempts := ch_attempts c + 1\<rparr>" old] assms(3,4)
    by (simp add: try_update_def)
  then show ?case using Cons by (simp add: g)
qed simp

subsection \<open>Properties\<close>


text \<open>C8. Verification succeeds only on a live, unexpired challenge whose factor's secret
  decrypts and validates the code, and it stores the challenge as verified.\<close>

theorem verified_needs_valid_code:
  assumes "db_ok db" "verify_challenge env code k db = (db', Ok c')"
  shows "\<exists>c f secret. db k = Some c \<and> \<not> ch_is_terminal c \<and> ce_now env \<le> ch_expires c \<and>
    ce_factor env (ch_factor c) = Some (Some f) \<and> ce_decrypt env (fs_secret (f_spec f)) = Some secret \<and>
    ce_totp env secret code = Some True \<and> map_option ch_phase (db' k) = Some Verified"
proof (cases "db k")
  case (Some c)
  from assms(1) Some show ?thesis
  proof (cases rule: verify_challenge_cases [where env = env and code = code])
    case (verified f secret c2)
    then show ?thesis using assms(2) Some by (intro exI [of _ c] exI [of _ f] exI [of _ secret])
      (auto simp: ch_is_expired_def)
  qed (use assms(2) in simp_all)
qed (use assms(2) in \<open>simp add: verify_challenge_def\<close>)

text \<open>The service refines the phase machine: whatever a verification or an expiry does to any
  stored challenge, its phase is unchanged or changed along a transition the machine allows, so
  that a terminal challenge keeps its phase for ever.\<close>

theorem phase_changes_follow_machine:
  assumes "db_ok db" "db j = Some c"
    and "db' = fst (verify_challenge env code k db) \<or> db' = fst (expire_challenge env k db)"
  shows "\<exists>c'. db' j = Some c' \<and> (ch_phase c' = ch_phase c \<or>
    can_transition (new_machine (Known (ch_phase c)) a m) (Known (ch_phase c')))"
proof -
  have live: "ch_phase x = Waiting" if "\<not> ch_is_terminal x" for x
    using that by (cases "ch_phase x") (auto simp: ch_is_terminal_def)
  have machine: "can_transition (new_machine (Known Waiting) a m) (Known p)" if "p \<noteq> Waiting" for p
    using that by (cases p) (auto simp: can_transition_def new_machine_def)
  show ?thesis
  proof (cases "db k")
    case None
    then show ?thesis using assms by (auto simp: verify_challenge_def expire_challenge_def)
  next
    case (Some x)
    have id: "ch_id x = k" using assms(1) Some by (simp add: db_ok_def)
    from assms(3) show ?thesis
    proof
      assume v: "db' = fst (verify_challenge env code k db)"
      from assms(1) Some show ?thesis
        by (cases rule: verify_challenge_cases [where env = env and code = code])
           (use v assms(2) Some live [of x] machine in \<open>auto split: if_splits\<close>)
    next
      assume e: "db' = fst (expire_challenge env k db)"
      have "repo_update (resolve Expired (ce_now env) x) db =
        Some (db(k \<mapsto> stored x (resolve Expired (ce_now env) x)), (resolve Expired (ce_now env) x)\<lparr>ch_version := ch_version x + 1\<rparr>)"
        using repo_update_Some [of db "resolve Expired (ce_now env) x" x] Some id by simp
      then show ?thesis
        using e assms(2) Some live [of x] machine [of Expired] by (auto simp: expire_challenge_def)
    qed
  qed
qed

text \<open>Overlapping guesses are counted as one: when any number of calls with wrong codes have
  read the challenge before the first of them writes, every one has its code checked, but only
  the first update applies and the counter ends one higher.\<close>

theorem parallel_guesses_count_once:
  assumes "db (ch_id c) = Some c" "\<not> ch_is_terminal c" "ch_attempts c < 2"
    and "rs \<noteq> []" "\<forall>g \<in> set rs. wrong_guess c g"
  shows "snd (verify_par c rs db) = map (\<lambda>_. Err InvalidCode) rs \<and>
    map_option ch_attempts (fst (verify_par c rs db) (ch_id c)) = Some (ch_attempts c + 1) \<and>
    map_option ch_phase (fst (verify_par c rs db) (ch_id c)) = Some (ch_phase c)"
proof -
  obtain env code rs' where rs: "rs = (env, code) # rs'" using assms(4) by (cases rs) auto
  let ?c = "c\<lparr>ch_attempts := ch_attempts c + 1\<rparr>"
  let ?db = "db(ch_id c \<mapsto> stored c ?c)"
  have "verify_on env code c db = (?db, Err InvalidCode)"
    using verify_on_wrong [OF _ assms(2,3), of env code db] assms(5) rs
      repo_update_Some [of db ?c c] assms(1)
    by (simp add: try_update_def)
  moreover have "verify_par c rs' ?db = (?db, map (\<lambda>_. Err InvalidCode) rs')"
    using assms(2,3,5) rs by (intro verify_par_stale [where old = "stored c ?c"]) simp_all
  ultimately show ?thesis by (simp add: rs)
qed

text \<open>One-time codes have a window of three time steps: at a time at least one step after the
  epoch, a six-character code is accepted exactly when it is the code of the current, the
  previous or the next 30-second step; the code of the current step is always accepted.\<close>

theorem totp_window:
  assumes "30 \<le> unix_seconds now" "secret \<noteq> []" "code \<noteq> []" "b32 secret = Some sb"
  shows "totp_check b32 hmac now secret code = Some (\<exists>d \<in> {-1, 0, 1}.
      code = totp_code hmac sb (unix_seconds now div 30 + d))"
proof -
  let ?u = "unix_seconds now"
  have q: "(?u + 30) div 30 = ?u div 30 + 1" "(?u - 30) div 30 = ?u div 30 + - 1"
    using div_add_self2 [of 30 ?u] div_add_self2 [of 30 "?u - 30"] by simp_all
  have pos: "0 \<le> ?u + 30" "0 \<le> ?u - 30" "0 \<le> ?u" using assms(1) by linarith+
  have steps: "unix_seconds (now + 30 * second) sdiv 30 = ?u div 30 + 1"
    "unix_seconds (now - 30 * second) sdiv 30 = ?u div 30 + - 1" "?u sdiv 30 = ?u div 30 + 0"
    unfolding unix_shift sdiv_nonneg [OF pos(1)] sdiv_nonneg [OF pos(2)] sdiv_nonneg [OF pos(3)] q by (rule refl refl add_0_right [symmetric])+
  have val: "totp_validate hmac sb code t 30 \<longleftrightarrow> code = totp_code hmac sb (unix_seconds t sdiv 30)" for t
    using assms(3) by (auto simp: totp_validate_def)
  have bex: "(\<exists>d \<in> {-1, 0, 1}. code = totp_code hmac sb (?u div 30 + d)) \<longleftrightarrow>
      code = totp_code hmac sb (?u div 30 + 0) \<or> code = totp_code hmac sb (?u div 30 + - 1) \<or>
      code = totp_code hmac sb (?u div 30 + 1)"
    by blast
  have "totp_check b32 hmac now secret code = Some (totp_validate hmac sb code now 30 \<or>
      totp_validate hmac sb code (now - 30 * second) 30 \<or> totp_validate hmac sb code (now + 30 * second) 30)"
    using assms(2,3,4) by (simp add: totp_check_def)
  then show ?thesis unfolding val steps bex .
qed

subsection \<open>Witnesses\<close>

definition chal_demo :: challenge where
  "chal_demo = \<lparr>ch_id = 3, ch_user = 1, ch_factor = 7, ch_phase = Waiting, ch_nonce = [], ch_attempts = 0,
     ch_expires = 50, ch_resolved = None, ch_ip = [], ch_agent = [], ch_created = 1, ch_version = 0\<rparr>"

definition env_demo :: "gotime \<Rightarrow> ch_env" where
  "env_demo t = \<lparr>ce_now = t,
     ce_factor = (\<lambda>_. Some (Some (enroll_factor \<lparr>en_factor = 7, en_user = 1, en_type = [], en_secret = [],
       en_issuer = [], en_at = 0, en_version = 1\<rparr>))),
     ce_decrypt = (\<lambda>_. Some ''s''), ce_totp = (\<lambda>_ code. Some (code = ''123456''))\<rparr>"

lemma chal_demo_ok: "db_ok [3 \<mapsto> chal_demo]" "\<not> ch_is_terminal chal_demo"
  by (simp_all add: db_ok_def chal_demo_def ch_is_terminal_def)


lemma verify_demo:
  "\<exists>db' c'. verify_challenge (env_demo 10) ''123456'' 3 [3 \<mapsto> chal_demo] = (db', Ok c')"
  by (simp add: verify_challenge_def verify_on_def Let_def env_demo_def ch_is_expired_def repo_update_def chal_demo_ok)
     (simp add: chal_demo_def)

theorem verified_needs_valid_code_witness:
  "\<exists>db' c'. verify_challenge (env_demo 10) ''123456'' 3 [3 \<mapsto> chal_demo] = (db', Ok c') \<and>
     map_option ch_phase (db' 3) = Some Verified"
proof -
  obtain db' c' where v: "verify_challenge (env_demo 10) ''123456'' 3 [3 \<mapsto> chal_demo] = (db', Ok c')"
    using verify_demo by blast
  from verified_needs_valid_code [OF chal_demo_ok(1) v] v show ?thesis by blast
qed

theorem phase_changes_follow_machine_witness:
  "\<exists>c'. fst (verify_challenge (env_demo 90) ''123456'' 3 [3 \<mapsto> chal_demo]) 3 = Some c' \<and>
     (ch_phase c' = Waiting \<or> can_transition (new_machine (Known Waiting) 0 3) (Known (ch_phase c')))"
  using phase_changes_follow_machine [OF chal_demo_ok(1), of 3 chal_demo _ "env_demo 90" "''123456''" 3 0 3]
  by (simp add: chal_demo_def)

theorem parallel_guesses_count_once_witness:
  "map_option ch_attempts (fst (verify_par chal_demo (replicate 9 (env_demo 10, ''000000'')) [3 \<mapsto> chal_demo]) 3) = Some 1"
  using parallel_guesses_count_once [of "[3 \<mapsto> chal_demo]" chal_demo "replicate 9 (env_demo 10, ''000000'')"]
  by (simp add: chal_demo_def wrong_guess_def env_demo_def ch_is_expired_def ch_is_terminal_def)

definition hmac_demo :: "bytes \<Rightarrow> 8 word list \<Rightarrow> 8 word list" where
  "hmac_demo s m = m @ replicate 12 0"

theorem totp_window_witness:
  "totp_check (\<lambda>s. Some s) hmac_demo 62135596860000000000 ''k'' (totp_code hmac_demo ''k'' 3) = Some True"
proof -
  have u: "unix_seconds 62135596860000000000 = 60" by (simp add: unix_seconds_def)
  have c: "totp_code hmac_demo ''k'' 3 \<noteq> []"
    using length_totp_code [of hmac_demo "''k''" 3] by force
  have "30 \<le> unix_seconds 62135596860000000000" unfolding u by simp
  from totp_window [OF this _ c, of "''k''" "\<lambda>s. Some s" "''k''" hmac_demo] show ?thesis
    unfolding u by simp
qed

end
