(* ===== verification/Gatekeeper_Policy.thy ===== *)
theory Gatekeeper_Policy
  imports Gatekeeper_FSM "HOL-Library.Sublist"
begin

section \<open>Policy and risk (internal/gatekeeper/policy, internal/gatekeeper/risk)\<close>

text \<open>
  When a second factor is required: the evaluators and rules the engine combines, and the
  scorers that turn risk signals into a number. The engine's interfaces are datatypes of the
  implementations the package has. A Go map of labels is the list of its entries, since the
  one loop over it does not depend on their order; \<open>label_at\<close> reads an absent key as the
  empty string.
\<close>

subsection \<open>Requests and results\<close>

record eval_request =
  rq_user :: string
  rq_labels :: "(string \<times> string) list"
  rq_type :: string
  rq_path :: string
  rq_method :: string
  rq_ip :: string
  rq_geo :: string
  rq_browser :: string
  rq_new_device :: bool
  rq_last_mfa :: int
  rq_risk :: int

record eval_result =
  rs_mfa :: bool
  rs_factors :: "string list"
  rs_ttl :: int
  rs_attempts :: int
  rs_trust :: bool
  rs_action :: string
  rs_reason :: string

definition label_at :: "(string \<times> string) list \<Rightarrow> string \<Rightarrow> string" where
  "label_at m k = (case map_of m k of None \<Rightarrow> [] | Some v \<Rightarrow> v)"

definition factor_allowed :: "eval_result \<Rightarrow> string \<Rightarrow> bool" where
  "factor_allowed r ft \<longleftrightarrow> ft \<in> set (rs_factors r)"

definition should_block :: "eval_result \<Rightarrow> bool" where
  "should_block r \<longleftrightarrow> rs_action r = ''block''"

definition should_challenge :: "eval_result \<Rightarrow> bool" where
  "should_challenge r \<longleftrightarrow> rs_mfa r \<or> rs_action r = ''challenge''"

subsection \<open>Evaluators\<close>

definition base_result :: "string list \<Rightarrow> eval_result" where
  "base_result fs = \<lparr>rs_mfa = False, rs_factors = fs, rs_ttl = 300, rs_attempts = 3, rs_trust = True,
     rs_action = [], rs_reason = []\<rparr>"

definition default_evaluate :: "eval_request \<Rightarrow> eval_result" where
  "default_evaluate q =
     (let r = base_result [''totp'', ''sms'', ''email''] in
      if rq_risk q > 75
      then r\<lparr>rs_mfa := True, rs_action := ''require'', rs_reason := ''High risk score detected'', rs_trust := False\<rparr>
      else if rq_risk q > 50
      then r\<lparr>rs_mfa := True, rs_action := ''challenge'', rs_reason := ''Elevated risk score''\<rparr>
      else if rq_type q = ''sensitive-operation''
      then r\<lparr>rs_mfa := True, rs_reason := ''Resource requires MFA''\<rparr>
      else if rq_new_device q
      then r\<lparr>rs_mfa := True, rs_action := ''challenge'', rs_reason := ''New device detected'', rs_trust := True\<rparr>
      else r\<lparr>rs_mfa := False, rs_reason := ''Policy allows optional MFA''\<rparr>)"

definition adaptive_evaluate :: "int \<Rightarrow> eval_request \<Rightarrow> eval_result" where
  "adaptive_evaluate hours q =
     (let r = base_result [''totp''] in
      if rq_risk q > 75
      then r\<lparr>rs_mfa := True, rs_factors := [''webauthn'', ''totp''], rs_action := ''block'',
             rs_reason := ''Critical risk score'', rs_trust := False\<rparr>
      else if rq_risk q > 50
      then r\<lparr>rs_mfa := True, rs_factors := [''webauthn'', ''totp''], rs_action := ''challenge'',
             rs_reason := ''Elevated risk score''\<rparr>
      else if rq_new_device q
      then r\<lparr>rs_mfa := True, rs_action := ''challenge'', rs_reason := ''New device detected'', rs_trust := True\<rparr>
      else if hours > 0 \<and> rq_last_mfa q > 0
      then r\<lparr>rs_mfa := True, rs_action := ''challenge'', rs_reason := ''MFA session expired''\<rparr>
      else if rq_type q = ''sensitive-operation''
      then r\<lparr>rs_mfa := True, rs_factors := [''webauthn'', ''totp''], rs_action := ''require'',
             rs_reason := ''Sensitive operation requires MFA''\<rparr>
      else r\<lparr>rs_mfa := False, rs_action := ''allow'', rs_reason := ''Policy allows optional MFA''\<rparr>)"

datatype evaluator = NoEvaluator | DefaultEvaluator | AdaptiveEvaluator int

subsection \<open>Rules\<close>

datatype policy_rule =
    IPRestriction "string list"
  | SensitiveResource "string list"
  | HighRiskBlock int
  | LabelBased "(string \<times> string) list"

fun rule_match :: "policy_rule \<Rightarrow> eval_request \<Rightarrow> bool" where
  "rule_match (IPRestriction ps) q = (\<exists>p \<in> set ps. prefix p (rq_ip q))"
| "rule_match (SensitiveResource ts) q = (\<exists>t \<in> set ts. rq_type q = t \<or> rq_path q = t)"
| "rule_match (HighRiskBlock th) q = (rq_risk q \<ge> th)"
| "rule_match (LabelBased ls) q = ((\<forall>(k, v) \<in> set ls. label_at (rq_labels q) k = v) \<and> length ls > 0)"

fun rule_action :: "policy_rule \<Rightarrow> eval_result" where
  "rule_action (IPRestriction ps) = \<lparr>rs_mfa = True, rs_factors = [''totp''], rs_ttl = 300, rs_attempts = 3,
     rs_trust = False, rs_action = ''challenge'', rs_reason = ''IP requires MFA verification''\<rparr>"
| "rule_action (SensitiveResource ts) = \<lparr>rs_mfa = True, rs_factors = [''totp'', ''email''], rs_ttl = 300, rs_attempts = 3,
     rs_trust = False, rs_action = ''require'', rs_reason = ''Resource requires MFA''\<rparr>"
| "rule_action (HighRiskBlock th) = \<lparr>rs_mfa = True, rs_factors = [], rs_ttl = 0, rs_attempts = 0,
     rs_trust = False, rs_action = ''block'', rs_reason = ''Risk score too high, access blocked''\<rparr>"
| "rule_action (LabelBased ls) = \<lparr>rs_mfa = True, rs_factors = [''totp''], rs_ttl = 300, rs_attempts = 3,
     rs_trust = True, rs_action = ''challenge'', rs_reason = ''User label policy requires MFA''\<rparr>"

subsection \<open>The engine\<close>

fun run_evaluator :: "evaluator \<Rightarrow> eval_request \<Rightarrow> eval_result" where
  "run_evaluator NoEvaluator q = (base_result [''totp'', ''sms'', ''email''])
     \<lparr>rs_action := ''allow'', rs_reason := ''default policy''\<rparr>"
| "run_evaluator DefaultEvaluator q = default_evaluate q"
| "run_evaluator (AdaptiveEvaluator h) q = adaptive_evaluate h q"

fun apply_rules :: "policy_rule list \<Rightarrow> eval_request \<Rightarrow> eval_result \<Rightarrow> eval_result" where
  "apply_rules [] q r = r"
| "apply_rules (x # xs) q r = (if rule_match x q then rule_action x else apply_rules xs q r)"

definition engine_evaluate :: "evaluator \<Rightarrow> policy_rule list \<Rightarrow> eval_request option \<Rightarrow> eval_result option" where
  "engine_evaluate ev rules req =
     (case req of None \<Rightarrow> None | Some q \<Rightarrow> Some (apply_rules rules q (run_evaluator ev q)))"

text \<open>\<open>EvaluatePolicy\<close> knows only the user: every other signal is the zero value.\<close>

definition user_only :: "string \<Rightarrow> eval_request" where
  "user_only u = \<lparr>rq_user = u, rq_labels = [], rq_type = [], rq_path = [], rq_method = [], rq_ip = [], rq_geo = [],
     rq_browser = [], rq_new_device = False, rq_last_mfa = 0, rq_risk = 0\<rparr>"

definition evaluate_policy :: "evaluator \<Rightarrow> policy_rule list \<Rightarrow> string \<Rightarrow> (bool \<times> string list) option" where
  "evaluate_policy ev rules u =
     map_option (\<lambda>r. (rs_mfa r, rs_factors r)) (engine_evaluate ev rules (Some (user_only u)))"

subsection \<open>Risk scores\<close>

record signals =
  sg_new_device :: bool
  sg_new_browser :: bool
  sg_vpn :: bool
  sg_datacenter :: bool
  sg_asn :: bool
  sg_geo :: int
  sg_reputation :: int
  sg_time :: bool
  sg_days :: int
  sg_activity :: bool
  sg_suspicious :: bool
  sg_frequent :: bool
  sg_failures :: int
  sg_age :: duration
  sg_privilege :: bool
  sg_sensitive :: bool

definition pts :: "bool \<Rightarrow> int \<Rightarrow> int" where
  "pts b n = (if b then n else 0)"

definition tiers :: "int \<Rightarrow> int \<Rightarrow> int \<Rightarrow> int \<Rightarrow> int \<Rightarrow> int" where
  "tiers x hi a lo b = (if x > hi then a else if x > lo then b else 0)"

definition default_score :: "signals \<Rightarrow> int" where
  "default_score s =
     (let s1 = pts (sg_new_device s) 10 + pts (sg_new_browser s) 5 + pts (sg_vpn s) 10 + pts (sg_datacenter s) 5
             + pts (sg_asn s) 10 + tiers (sg_geo s) 1000 15 500 10 + tiers (sg_reputation s) 70 20 50 10
             + pts (sg_time s) 5 + pts (sg_days s > 90) 5 + pts (sg_activity s) 10 + pts (sg_suspicious s) 15
             + tiers (sg_failures s) 3 15 1 5;
          s2 = (if sg_age s > 365 * 24 * 3600 * second then (if s1 - 5 < 0 then 0 else s1 - 5) else s1);
          s3 = s2 + pts (sg_privilege s) 15 + pts (sg_sensitive s) 10
      in if s3 > 100 then 100 else s3)"

definition geo_score :: "signals \<Rightarrow> int" where
  "geo_score s =
     (let n = pts (sg_vpn s) 25 + pts (sg_datacenter s) 15 + pts (sg_asn s) 20 + tiers (sg_geo s) 1000 25 500 15
            + tiers (sg_reputation s) 70 20 50 10
      in if n > 100 then 100 else n)"

definition behavioral_score :: "signals \<Rightarrow> int" where
  "behavioral_score s =
     (let n = pts (sg_activity s) 25 + pts (sg_suspicious s) 30 + pts (sg_frequent s) 20
            + tiers (sg_failures s) 5 25 2 15 + pts (sg_time s) 10
      in if n > 100 then 100 else n)"

datatype risk_level = RiskLow | RiskMedium | RiskHigh | RiskCritical

definition level_for_score :: "int \<Rightarrow> risk_level" where
  "level_for_score n =
     (if n \<le> 30 then RiskLow else if n \<le> 60 then RiskMedium else if n \<le> 80 then RiskHigh else RiskCritical)"

definition is_high_risk :: "int \<Rightarrow> bool" where
  "is_high_risk n \<longleftrightarrow> n \<ge> 70"

text \<open>Signals at least as bad: each flag implied, each measure no smaller, the account no older.\<close>

definition sig_le :: "signals \<Rightarrow> signals \<Rightarrow> bool" where
  "sig_le s t \<longleftrightarrow>
     (sg_new_device s \<longrightarrow> sg_new_device t) \<and> (sg_new_browser s \<longrightarrow> sg_new_browser t) \<and> (sg_vpn s \<longrightarrow> sg_vpn t) \<and>
     (sg_datacenter s \<longrightarrow> sg_datacenter t) \<and> (sg_asn s \<longrightarrow> sg_asn t) \<and> sg_geo s \<le> sg_geo t \<and>
     sg_reputation s \<le> sg_reputation t \<and> (sg_time s \<longrightarrow> sg_time t) \<and> sg_days s \<le> sg_days t \<and>
     (sg_activity s \<longrightarrow> sg_activity t) \<and> (sg_suspicious s \<longrightarrow> sg_suspicious t) \<and>
     (sg_frequent s \<longrightarrow> sg_frequent t) \<and> sg_failures s \<le> sg_failures t \<and> sg_age t \<le> sg_age s \<and>
     (sg_privilege s \<longrightarrow> sg_privilege t) \<and> (sg_sensitive s \<longrightarrow> sg_sensitive t)"

lemma pts_mono: "(a \<longrightarrow> b) \<Longrightarrow> 0 \<le> n \<Longrightarrow> pts a n \<le> pts b n"
  by (simp add: pts_def)

lemma tiers_mono: "x \<le> y \<Longrightarrow> lo \<le> hi \<Longrightarrow> 0 \<le> b \<Longrightarrow> b \<le> a \<Longrightarrow> tiers x hi a lo b \<le> tiers y hi a lo b"
  by (simp add: tiers_def)

lemma pts_range: "0 \<le> n \<Longrightarrow> 0 \<le> pts b n"
  by (simp add: pts_def)

lemma tiers_range: "0 \<le> a \<Longrightarrow> 0 \<le> b \<Longrightarrow> 0 \<le> tiers x hi a lo b"
  by (simp add: tiers_def)

text \<open>The three stages of the score: the sum, the discount of an old account, the cap.\<close>

lemma discount_mono: "x \<le> (y :: int) \<Longrightarrow> 0 \<le> x \<Longrightarrow> (q \<longrightarrow> p) \<Longrightarrow>
  (if p then (if x - 5 < 0 then 0 else x - 5) else x) \<le> (if q then (if y - 5 < 0 then 0 else y - 5) else y)"
  by auto

lemma cap_mono: "x \<le> (y :: int) \<Longrightarrow> (if x > 100 then 100 else x) \<le> (if y > 100 then 100 else y)"
  by auto

lemma apply_rules_cases: "apply_rules rs q r = r \<or> (\<exists>x \<in> set rs. rule_match x q \<and> apply_rules rs q r = rule_action x)"
  by (induction rs) auto

lemma rule_action_mfa: "rs_mfa (rule_action x)"
  by (cases x) simp_all

subsection \<open>Properties\<close>

text \<open>With either evaluator and any rules, a risk score above 50, a new device or a sensitive
  operation always requires a second factor: no rule can relax the requirement.\<close>

theorem risky_requests_require_mfa:
  assumes "ev \<noteq> NoEvaluator" "rq_risk q > 50 \<or> rq_new_device q \<or> rq_type q = ''sensitive-operation''"
  shows "\<exists>r. engine_evaluate ev rules (Some q) = Some r \<and> rs_mfa r \<and> should_challenge r"
proof -
  have "rs_mfa (run_evaluator ev q)"
    using assms by (cases ev) (auto simp: default_evaluate_def adaptive_evaluate_def Let_def)
  then have "rs_mfa (apply_rules rules q (run_evaluator ev q))"
    using apply_rules_cases [of rules q "run_evaluator ev q"] rule_action_mfa by metis
  then show ?thesis by (simp add: engine_evaluate_def should_challenge_def)
qed

text \<open>A matching rule discards the evaluator's verdict: a request the adaptive evaluator blocks
  for its risk score is only challenged, with trusting the device allowed, when the first
  rule that matches is a label rule.\<close>

theorem label_rule_lifts_block:
  assumes "rq_risk q > 75" "rule_match (LabelBased ls) q" "\<forall>x \<in> set before. \<not> rule_match x q"
  shows "should_block (run_evaluator (AdaptiveEvaluator h) q) \<and>
    (\<exists>r. engine_evaluate (AdaptiveEvaluator h) (before @ LabelBased ls # after) (Some q) = Some r \<and>
       \<not> should_block r \<and> rs_trust r)"
proof -
  have "apply_rules (before @ LabelBased ls # after) q r = rule_action (LabelBased ls)" for r
    using assms(2,3) by (induction before) auto
  then show ?thesis
    using assms(1) by (simp add: engine_evaluate_def should_block_def adaptive_evaluate_def Let_def)
qed

text \<open>The default score stays between 0 and 100 and is monotone: signals at least as bad in
  every respect never score lower.\<close>

theorem default_score_monotone:
  assumes "sig_le s t"
  shows "0 \<le> default_score s \<and> default_score s \<le> default_score t \<and> default_score t \<le> 100"
proof -
  define raw where "raw s = pts (sg_new_device s) 10 + pts (sg_new_browser s) 5 + pts (sg_vpn s) 10
    + pts (sg_datacenter s) 5 + pts (sg_asn s) 10 + tiers (sg_geo s) 1000 15 500 10
    + tiers (sg_reputation s) 70 20 50 10 + pts (sg_time s) 5 + pts (sg_days s > 90) 5 + pts (sg_activity s) 10
    + pts (sg_suspicious s) 15 + tiers (sg_failures s) 3 15 1 5" for s :: signals
  define old where "old s \<longleftrightarrow> sg_age s > 365 * 24 * 3600 * second" for s :: signals
  define mid where "mid s = (if old s then (if raw s - 5 < 0 then 0 else raw s - 5) else raw s)" for s :: signals
  have score: "default_score s = (if mid s + pts (sg_privilege s) 15 + pts (sg_sensitive s) 10 > 100 then 100
      else mid s + pts (sg_privilege s) 15 + pts (sg_sensitive s) 10)" for s :: signals
    by (simp only: default_score_def Let_def mid_def old_def raw_def)
  have pos: "0 \<le> raw s" for s
    unfolding raw_def by (intro add_nonneg_nonneg pts_range tiers_range) simp_all
  have le: "raw s \<le> raw t"
    unfolding raw_def using assms by (intro add_mono pts_mono tiers_mono) (auto simp: sig_le_def)
  have "old t \<longrightarrow> old s" using assms by (auto simp: old_def sig_le_def)
  then have mid: "mid s \<le> mid t" unfolding mid_def by (rule discount_mono [OF le pos])
  have "0 \<le> mid s" using pos [of s] by (simp add: mid_def)
  moreover have "default_score s \<le> default_score t"
    unfolding score using assms mid by (intro cap_mono add_mono pts_mono) (auto simp: sig_le_def)
  ultimately show ?thesis
    using pts_range [of 15 "sg_privilege s"] pts_range [of 10 "sg_sensitive s"] by (simp add: score)
qed

subsection \<open>Witnesses\<close>

definition req_demo :: eval_request where
  "req_demo = (user_only ''u'')\<lparr>rq_risk := 90, rq_labels := [(''team'', ''ops'')]\<rparr>"

theorem risky_requests_require_mfa_witness:
  "\<exists>r. engine_evaluate DefaultEvaluator [LabelBased [(''team'', ''ops'')]] (Some req_demo) = Some r \<and> rs_mfa r"
  using risky_requests_require_mfa [of DefaultEvaluator req_demo "[LabelBased [(''team'', ''ops'')]]"]
  by (auto simp: req_demo_def)

theorem label_rule_lifts_block_witness:
  "\<exists>r. engine_evaluate (AdaptiveEvaluator 8) [LabelBased [(''team'', ''ops'')]] (Some req_demo) = Some r \<and>
     \<not> should_block r"
  using label_rule_lifts_block [of req_demo "[(''team'', ''ops'')]" "[]" 8 "[]"]
  by (auto simp: req_demo_def label_at_def)

definition sig_demo :: "bool \<Rightarrow> signals" where
  "sig_demo b = \<lparr>sg_new_device = b, sg_new_browser = False, sg_vpn = b, sg_datacenter = False, sg_asn = True,
     sg_geo = 700, sg_reputation = 60, sg_time = False, sg_days = 1, sg_activity = False, sg_suspicious = b,
     sg_frequent = False, sg_failures = 2, sg_age = 0, sg_privilege = False, sg_sensitive = b\<rparr>"

theorem default_score_monotone_witness:
  "default_score (sig_demo False) \<le> default_score (sig_demo True) \<and> default_score (sig_demo True) \<le> 100"
proof -
  have "sig_le (sig_demo False) (sig_demo True)" by (simp add: sig_le_def sig_demo_def)
  from default_score_monotone [OF this] show ?thesis by simp
qed

end
