(* ===== verification/Rate_Limiters.thy ===== *)
theory Rate_Limiters
  imports Prelude
begin

section \<open>Rate limiters (internal/workqueue/ratelimiters.go, queue.go)\<close>

text \<open>
  The \<open>RateLimiter\<close> interface is the locale \<open>rate_limiter\<close>: a delay for a requeued item, a
  reset and a count. The implementations are the constructors of \<open>limiter\<close>: the default one
  of \<open>queue.go\<close>, the exponential and the fast/slow ones, and the maximum of several. The
  exponential limiter multiplies in \<open>float64\<close>; the product of a base below \<open>2 ^ 53\<close> with a power
  of two is exact there, so it is an integer here. Converting the product \<open>2 ^ 63\<close> itself to
  \<open>int64\<close> is left open by Go: \<open>unrepresentable\<close> is the value it gives. The token bucket
  keeps its state in \<open>float64\<close> and is not modelled.
\<close>

locale rate_limiter =
  fixes when_rl :: "string \<Rightarrow> int \<Rightarrow> 'l \<Rightarrow> 'l \<times> duration"
    and forget_rl :: "string \<Rightarrow> 'l \<Rightarrow> 'l"
    and num_rl :: "'l \<Rightarrow> string \<Rightarrow> nat"
  assumes num_forget: "num_rl (forget_rl k l) k = 0"
    and num_forget_other: "j \<noteq> k \<Longrightarrow> num_rl (forget_rl k l) j = num_rl l j"
    and num_when_other: "j \<noteq> k \<Longrightarrow> num_rl (fst (when_rl k r l)) j = num_rl l j"
    and num_when_mono: "num_rl l k \<le> num_rl (fst (when_rl k r l)) k"
begin

text \<open>A reset after a requeue leaves nothing of the requeue behind.\<close>

lemma num_forget_when: "num_rl (forget_rl k (fst (when_rl k r l))) j = num_rl (forget_rl k l) j"
  by (cases "j = k") (simp_all add: num_forget num_forget_other num_when_other)

end

subsection \<open>The implementations\<close>

datatype limiter =
    DefaultLimiter duration duration "string \<rightharpoonup> nat"
  | ExponentialLimiter duration duration "string \<rightharpoonup> nat"
  | FastSlowLimiter duration duration int "string \<rightharpoonup> nat"
  | MaxOfLimiter "limiter list"

definition new_default_limiter :: "duration \<Rightarrow> duration \<Rightarrow> limiter" where
  "new_default_limiter b m = DefaultLimiter b m Map.empty"

definition new_exponential_limiter :: "duration \<Rightarrow> duration \<Rightarrow> limiter" where
  "new_exponential_limiter b m = ExponentialLimiter b m Map.empty"

definition new_fast_slow_limiter :: "duration \<Rightarrow> duration \<Rightarrow> int \<Rightarrow> limiter" where
  "new_fast_slow_limiter f s n = FastSlowLimiter f s n Map.empty"

text \<open>The doubling loop of \<open>DefaultRateLimiter.When\<close>, with \<open>n\<close> rounds left.\<close>

fun double_delay :: "duration \<Rightarrow> nat \<Rightarrow> duration \<Rightarrow> duration" where
  "double_delay m 0 d = d"
| "double_delay m (Suc n) d = (let d' = i64 (d * 2) in if d' > m then m else double_delay m n d')"

definition exponential_delay :: "int \<Rightarrow> duration \<Rightarrow> duration \<Rightarrow> nat \<Rightarrow> duration" where
  "exponential_delay unrepresentable b m e =
     (let x = b * 2 ^ e;
          dur = (if x = 2 ^ 63 then unrepresentable else x)
      in if x > 2 ^ 63 \<or> dur > m then m else dur)"

definition bump :: "string \<Rightarrow> (string \<rightharpoonup> nat) \<Rightarrow> (string \<rightharpoonup> nat)" where
  "bump k c = c(k \<mapsto> Suc (count_of c k))"

definition max_duration :: "duration list \<Rightarrow> duration" where
  "max_duration ds = foldl (\<lambda>m d. if d > m then d else m) 0 ds"

fun lim_when :: "int \<Rightarrow> string \<Rightarrow> int \<Rightarrow> limiter \<Rightarrow> limiter \<times> duration" where
  "lim_when u k r (DefaultLimiter b m c) = (DefaultLimiter b m (bump k c), double_delay m (nat r) b)"
| "lim_when u k r (ExponentialLimiter b m c) =
     (ExponentialLimiter b m (bump k c), exponential_delay u b m (count_of c k))"
| "lim_when u k r (FastSlowLimiter f s n c) =
     (FastSlowLimiter f s n (bump k c), if int (Suc (count_of c k)) \<le> n then f else s)"
| "lim_when u k r (MaxOfLimiter ls) =
     (MaxOfLimiter (map (\<lambda>l. fst (lim_when u k r l)) ls), max_duration (map (\<lambda>l. snd (lim_when u k r l)) ls))"

fun lim_forget :: "string \<Rightarrow> limiter \<Rightarrow> limiter" where
  "lim_forget k (DefaultLimiter b m c) = DefaultLimiter b m (c(k := None))"
| "lim_forget k (ExponentialLimiter b m c) = ExponentialLimiter b m (c(k := None))"
| "lim_forget k (FastSlowLimiter f s n c) = FastSlowLimiter f s n (c(k := None))"
| "lim_forget k (MaxOfLimiter ls) = MaxOfLimiter (map (lim_forget k) ls)"

fun max_count :: "nat list \<Rightarrow> nat" where
  "max_count [] = 0"
| "max_count (x # xs) = max x (max_count xs)"

fun lim_num :: "limiter \<Rightarrow> string \<Rightarrow> nat" where
  "lim_num (DefaultLimiter b m c) k = count_of c k"
| "lim_num (ExponentialLimiter b m c) k = count_of c k"
| "lim_num (FastSlowLimiter f s n c) k = count_of c k"
| "lim_num (MaxOfLimiter ls) k = max_count (map (\<lambda>l. lim_num l k) ls)"

subsection \<open>The contract\<close>

lemma count_bump [simp]: "count_of (bump k c) k = Suc (count_of c k)"
  "j \<noteq> k \<Longrightarrow> count_of (bump k c) j = count_of c j"
  by (simp_all add: bump_def)

lemma max_count_cong: "(\<And>x. x \<in> set xs \<Longrightarrow> f x = g x) \<Longrightarrow> max_count (map f xs) = max_count (map g xs)"
  by (metis map_eq_conv)

lemma max_count_mono: "(\<And>x. x \<in> set xs \<Longrightarrow> f x \<le> g x) \<Longrightarrow> max_count (map f xs) \<le> max_count (map g xs)"
proof (induction xs)
  case (Cons x xs)
  have "max (f x) (max_count (map f xs)) \<le> max (g x) (max_count (map g xs))"
    using Cons by (intro max.mono) simp_all
  then show ?case by simp
qed simp

lemma max_count_zero: "(\<And>x. x \<in> set xs \<Longrightarrow> f x = 0) \<Longrightarrow> max_count (map f xs) = 0"
  by (induction xs) auto

lemma lim_num_forget: "lim_num (lim_forget k l) k = 0"
  by (induction l) (auto simp: comp_def intro: max_count_zero)

lemma lim_num_forget_other: "j \<noteq> k \<Longrightarrow> lim_num (lim_forget k l) j = lim_num l j"
  by (induction l) (auto simp: comp_def intro: max_count_cong)

lemma lim_num_when_other: "j \<noteq> k \<Longrightarrow> lim_num (fst (lim_when u k r l)) j = lim_num l j"
  by (induction l) (auto simp: comp_def intro: max_count_cong)

lemma lim_num_when_mono: "lim_num l k \<le> lim_num (fst (lim_when u k r l)) k"
  by (induction l) (auto simp: comp_def intro: max_count_mono)

interpretation lim: rate_limiter "lim_when u" lim_forget lim_num for u
  by unfold_locales
     (simp_all add: lim_num_forget lim_num_forget_other lim_num_when_other lim_num_when_mono)

subsection \<open>Closed forms of the delays\<close>

lemma double_delay_bounded:
  "0 < b \<Longrightarrow> b \<le> m \<Longrightarrow> m < 2 ^ 62 \<Longrightarrow> double_delay m n b = min m (b * 2 ^ n)"
proof (induction n arbitrary: b)
  case 0
  then show ?case by simp
next
  case (Suc n)
  have "i64 (b * 2) = b * 2" using Suc.prems by (intro i64_id) simp
  moreover have "m < b * 2 \<Longrightarrow> m < b * 2 * 2 ^ n"
    using Suc.prems by (smt (verit) mult_le_cancel_left1 one_le_power)
  ultimately show ?case using Suc.IH [of "b * 2"] Suc.prems
    by (auto simp: Let_def mult.assoc min_def)
qed

lemma exponential_delay_bounded:
  assumes "0 < b" "m < 2 ^ 63" "b * 2 ^ e \<noteq> 2 ^ 63"
  shows "exponential_delay u b m e = min m (b * 2 ^ e)"
  using assms by (auto simp: exponential_delay_def Let_def min_def)

lemma max_duration_ge: "\<forall>d \<in> set ds. d \<le> max_duration ds" and max_duration_nonneg: "0 \<le> max_duration ds"
proof -
  have "a \<le> foldl (\<lambda>m d. if d > m then d else m) a ds \<and>
    (\<forall>d \<in> set ds. d \<le> foldl (\<lambda>m d. if d > m then d else m) a ds)" for a :: int
  proof (induction ds arbitrary: a)
    case (Cons d ds)
    from Cons.IH [of "if d > a then d else a"] show ?case by (auto split: if_splits)
  qed simp
  then show "\<forall>d \<in> set ds. d \<le> max_duration ds" "0 \<le> max_duration ds"
    by (simp_all add: max_duration_def)
qed

text \<open>The delays of \<open>n\<close> successive requeues of one key.\<close>

fun requeue_delays :: "int \<Rightarrow> string \<Rightarrow> nat \<Rightarrow> limiter \<Rightarrow> duration list" where
  "requeue_delays u k 0 l = []"
| "requeue_delays u k (Suc n) l =
     (case lim_when u k (int (lim_num l k)) l of (l', d) \<Rightarrow> d # requeue_delays u k n l')"

lemma upt_self: "[i ..< (i :: nat)] = []"
  by simp

lemma upt_start: "[i ..< i + Suc n] = i # [Suc i ..< Suc i + n]"
  by (simp add: upt_conv_Cons del: upt_Suc)

lemma requeue_delays_default:
  "0 < b \<Longrightarrow> b \<le> m \<Longrightarrow> m < 2 ^ 62 \<Longrightarrow>
   requeue_delays u k n (DefaultLimiter b m c) = map (\<lambda>i. min m (b * 2 ^ i)) [count_of c k ..< count_of c k + n]"
  by (induction n arbitrary: c) (simp_all only: upt_start requeue_delays.simps lim_when.simps lim_num.simps
      count_bump prod.case nat_int double_delay_bounded list.map add_0_right upt_self)

lemma requeue_delays_exponential:
  assumes "0 < b" "m < 2 ^ 63" "\<And>e. b * 2 ^ e \<noteq> 2 ^ 63"
  shows "requeue_delays u k n (ExponentialLimiter b m c) =
    map (\<lambda>i. min m (b * 2 ^ i)) [count_of c k ..< count_of c k + n]"
  by (induction n arbitrary: c) (simp_all only: upt_start requeue_delays.simps lim_when.simps lim_num.simps
      count_bump prod.case exponential_delay_bounded [OF assms] list.map add_0_right upt_self)

subsection \<open>Properties\<close>

text \<open>Capped exponential backoff: requeued without a reset in between, a new default limiter
  whose base is positive and at most a maximum below 2^62 gives the delays min(max, base * 2^i)
  for i = 0, 1, 2, and so on; the exponential limiter gives the same sequence for any maximum
  unless a doubling of the base is exactly 2^63.\<close>

theorem backoff_doubles_to_cap:
  assumes "0 < b" "b \<le> m" "m < 2 ^ 62" "\<And>e. b * 2 ^ e \<noteq> 2 ^ 63"
  shows "requeue_delays u k n (new_default_limiter b m) = map (\<lambda>i. min m (b * 2 ^ i)) [0..<n] \<and>
    requeue_delays u k n (new_exponential_limiter b m) = map (\<lambda>i. min m (b * 2 ^ i)) [0..<n]"
  using assms requeue_delays_default [of b m u k n Map.empty]
    requeue_delays_exponential [of b m u k n Map.empty]
  by (simp add: new_default_limiter_def new_exponential_limiter_def)

subsection \<open>Witnesses\<close>

theorem backoff_doubles_to_cap_witness:
  "requeue_delays 0 ''k'' 5 (new_default_limiter 3 20) = [3, 6, 12, 20, 20]"
proof -
  have "(3 :: int) * 2 ^ e \<noteq> 2 ^ 63" for e :: nat
  proof
    assume "(3 :: int) * 2 ^ e = 2 ^ 63"
    then have "(3 :: int) dvd 2 ^ 63" by (metis dvd_triv_left)
    then show False by (simp add: dvd_eq_mod_eq_0)
  qed
  then have "requeue_delays 0 ''k'' 5 (new_default_limiter 3 20) = map (\<lambda>i. min 20 (3 * 2 ^ i)) [0..<5]"
    using backoff_doubles_to_cap [of 3 20 0 "''k''" 5] by simp
  then show ?thesis by (simp add: upt_rec)
qed

end
