(* ===== verification/Work_Queue.thy ===== *)
theory Work_Queue
  imports Rate_Limiters
begin

section \<open>The work queue and its workers (internal/workqueue/queue.go, internal/platform/controller)\<close>

text \<open>
  \<open>SimpleQueue\<close> over any rate limiter (its operations are the arguments \<open>rw\<close>, \<open>rf\<close>, \<open>rn\<close> and
  its state the field \<open>sq_rl\<close>), the priority queue of several of them, the \<open>Worker\<close> loop and
  the worker of the generic controller. The Go maps \<open>inProgress\<close> and \<open>dirty\<close> only ever hold
  \<open>true\<close>, so they are sets. A goroutine sleeping in \<open>AddAfter\<close> is an entry of \<open>sq_timers\<close>: its
  key and its delay; \<open>sq_fire\<close> is its wake-up.
\<close>

subsection \<open>SimpleQueue\<close>

record 'l simple_queue =
  sq_queue :: "string list"
  sq_progress :: "string set"
  sq_dirty :: "string set"
  sq_rl :: 'l
  sq_shut :: bool
  sq_timers :: "(string \<times> duration) list"

record work_item =
  wi_key :: string
  wi_retries :: int
  wi_added :: gotime

datatype queue_error = QueueShutDown

definition new_simple_queue :: "'l \<Rightarrow> 'l simple_queue" where
  "new_simple_queue l = \<lparr>sq_queue = [], sq_progress = {}, sq_dirty = {}, sq_rl = l, sq_shut = False, sq_timers = []\<rparr>"

definition default_simple_queue :: "limiter simple_queue" where
  "default_simple_queue = new_simple_queue (new_default_limiter millisecond (16 * second))"

definition sq_add :: "string \<Rightarrow> 'l simple_queue \<Rightarrow> 'l simple_queue \<times> queue_error option" where
  "sq_add k q =
     (if sq_shut q then (q, Some QueueShutDown)
      else if k \<in> sq_dirty q then (q, None)
      else (q\<lparr>sq_queue := sq_queue q @ [k], sq_dirty := insert k (sq_dirty q)\<rparr>, None))"

definition sq_add_after :: "string \<Rightarrow> duration \<Rightarrow> 'l simple_queue \<Rightarrow> 'l simple_queue" where
  "sq_add_after k d q = q\<lparr>sq_timers := sq_timers q @ [(k, d)]\<rparr>"

definition sq_fire :: "(string \<times> duration) \<Rightarrow> 'l simple_queue \<Rightarrow> 'l simple_queue" where
  "sq_fire t q = fst (sq_add (fst t) (q\<lparr>sq_timers := remove1 t (sq_timers q)\<rparr>))"

definition sq_add_limited :: "(string \<Rightarrow> int \<Rightarrow> 'l \<Rightarrow> 'l \<times> duration) \<Rightarrow> ('l \<Rightarrow> string \<Rightarrow> nat)
    \<Rightarrow> string \<Rightarrow> 'l simple_queue \<Rightarrow> 'l simple_queue" where
  "sq_add_limited rw rn k q =
     (case rw k (int (rn (sq_rl q) k)) (sq_rl q) of
        (l, d) \<Rightarrow> sq_add_after k d (q\<lparr>sq_rl := l\<rparr>))"

text \<open>\<open>Get\<close> waits on an empty queue: then there is no item.\<close>

definition sq_get :: "('l \<Rightarrow> string \<Rightarrow> nat) \<Rightarrow> gotime \<Rightarrow> 'l simple_queue
    \<Rightarrow> 'l simple_queue \<times> (queue_error, work_item option) outcome" where
  "sq_get rn now q =
     (if sq_shut q then (q, Err QueueShutDown)
      else case sq_queue q of
        [] \<Rightarrow> (q, Ok None)
      | k # ks \<Rightarrow>
          (q\<lparr>sq_queue := ks, sq_progress := insert k (sq_progress q), sq_dirty := sq_dirty q - {k}\<rparr>,
           Ok (Some \<lparr>wi_key = k, wi_retries = int (rn (sq_rl q) k), wi_added = now\<rparr>)))"

definition sq_done :: "(string \<Rightarrow> 'l \<Rightarrow> 'l) \<Rightarrow> string \<Rightarrow> 'l simple_queue \<Rightarrow> 'l simple_queue" where
  "sq_done rf k q = q\<lparr>sq_progress := sq_progress q - {k}, sq_rl := rf k (sq_rl q)\<rparr>"

definition sq_forget :: "(string \<Rightarrow> 'l \<Rightarrow> 'l) \<Rightarrow> string \<Rightarrow> 'l simple_queue \<Rightarrow> 'l simple_queue" where
  "sq_forget rf k q = q\<lparr>sq_rl := rf k (sq_rl q), sq_dirty := sq_dirty q - {k}, sq_progress := sq_progress q - {k}\<rparr>"

definition sq_num :: "('l \<Rightarrow> string \<Rightarrow> nat) \<Rightarrow> string \<Rightarrow> 'l simple_queue \<Rightarrow> nat" where
  "sq_num rn k q = rn (sq_rl q) k"

definition sq_shutdown :: "'l simple_queue \<Rightarrow> 'l simple_queue" where
  "sq_shutdown q = q\<lparr>sq_shut := True\<rparr>"

definition sq_len :: "'l simple_queue \<Rightarrow> nat" where
  "sq_len q = length (sq_queue q)"

subsection \<open>PriorityQueue\<close>

text \<open>Over simple queues with the default limiter. An index out of range panics.\<close>

record prio_queue =
  pq_queues :: "limiter simple_queue list"
  pq_prio :: "string \<rightharpoonup> int"

definition new_prio_queue :: "nat \<Rightarrow> prio_queue" where
  "new_prio_queue n = \<lparr>pq_queues = replicate n default_simple_queue, pq_prio = Map.empty\<rparr>"

definition clamp_prio :: "int \<Rightarrow> prio_queue \<Rightarrow> int" where
  "clamp_prio p q =
     (let p1 = (if p \<ge> int (length (pq_queues q)) then int (length (pq_queues q)) - 1 else p)
      in if p1 < 0 then 0 else p1)"

definition pq_add_prio :: "string \<Rightarrow> int \<Rightarrow> prio_queue \<Rightarrow> prio_queue \<times> (queue_error, unit) outcome" where
  "pq_add_prio k p q =
     (let i = clamp_prio p q;
          q1 = q\<lparr>pq_prio := (pq_prio q)(k \<mapsto> i)\<rparr>
      in if i \<ge> int (length (pq_queues q)) then (q1, Panic)
         else case sq_add k (pq_queues q ! nat i) of
           (s, None) \<Rightarrow> (q1\<lparr>pq_queues := (pq_queues q)[nat i := s]\<rparr>, Ok ())
         | (s, Some e) \<Rightarrow> (q1\<lparr>pq_queues := (pq_queues q)[nat i := s]\<rparr>, Err e))"

definition pq_add :: "string \<Rightarrow> prio_queue \<Rightarrow> prio_queue \<times> (queue_error, unit) outcome" where
  "pq_add k q = pq_add_prio k 0 q"

text \<open>The queue \<open>Get\<close> reads: the last non-empty one, or else the highest, on which it waits.\<close>

fun last_nonempty :: "nat \<Rightarrow> 'l simple_queue list \<Rightarrow> nat option" where
  "last_nonempty 0 qs = None"
| "last_nonempty (Suc i) qs = (if sq_len (qs ! i) > 0 then Some i else last_nonempty i qs)"

definition pq_target :: "prio_queue \<Rightarrow> nat option" where
  "pq_target q =
     (case last_nonempty (length (pq_queues q)) (pq_queues q) of
        Some i \<Rightarrow> Some i
      | None \<Rightarrow> if pq_queues q = [] then None else Some (length (pq_queues q) - 1))"

definition pq_get :: "gotime \<Rightarrow> prio_queue \<Rightarrow> prio_queue \<times> (queue_error, work_item option) outcome" where
  "pq_get now q =
     (case pq_target q of
        None \<Rightarrow> (q, Panic)
      | Some i \<Rightarrow>
          (case sq_get lim_num now (pq_queues q ! i) of
             (s, r) \<Rightarrow> (q\<lparr>pq_queues := (pq_queues q)[i := s]\<rparr>, r)))"

definition pq_done :: "string \<Rightarrow> prio_queue \<Rightarrow> prio_queue" where
  "pq_done k q = q\<lparr>pq_queues := map (sq_done lim_forget k) (pq_queues q)\<rparr>"

definition pq_forget :: "string \<Rightarrow> prio_queue \<Rightarrow> prio_queue" where
  "pq_forget k q = q\<lparr>pq_prio := (pq_prio q)(k := None), pq_queues := map (sq_forget lim_forget k) (pq_queues q)\<rparr>"

definition pq_prio_of :: "string \<Rightarrow> prio_queue \<Rightarrow> int" where
  "pq_prio_of k q = (case pq_prio q k of None \<Rightarrow> 0 | Some p \<Rightarrow> p)"

definition pq_add_limited :: "int \<Rightarrow> string \<Rightarrow> prio_queue \<Rightarrow> prio_queue option" where
  "pq_add_limited u k q =
     (let i = nat (pq_prio_of k q) in
      if i \<ge> length (pq_queues q) then None
      else Some (q\<lparr>pq_queues := (pq_queues q)[i := sq_add_limited (lim_when u) lim_num k (pq_queues q ! i)]\<rparr>))"

definition pq_shutdown :: "prio_queue \<Rightarrow> prio_queue" where
  "pq_shutdown q = q\<lparr>pq_queues := map sq_shutdown (pq_queues q)\<rparr>"

definition pq_len :: "prio_queue \<Rightarrow> nat" where
  "pq_len q = sum_list (map sq_len (pq_queues q))"

subsection \<open>Worker\<close>

text \<open>
  One round of \<open>Worker.Run\<close> on a queue that has an item; \<open>failed\<close> is whether the process
  function returned an error for it.
\<close>

definition worker_handle :: "(string \<Rightarrow> int \<Rightarrow> 'l \<Rightarrow> 'l \<times> duration) \<Rightarrow> (string \<Rightarrow> 'l \<Rightarrow> 'l) \<Rightarrow> ('l \<Rightarrow> string \<Rightarrow> nat)
    \<Rightarrow> int \<Rightarrow> (work_item \<Rightarrow> bool) \<Rightarrow> work_item \<Rightarrow> 'l simple_queue \<Rightarrow> 'l simple_queue" where
  "worker_handle rw rf rn mx failed it q =
     (if failed it
      then (if wi_retries it < mx then sq_add_limited rw rn (wi_key it) q else sq_forget rf (wi_key it) q)
      else sq_done rf (wi_key it) q)"

definition worker_round :: "(string \<Rightarrow> int \<Rightarrow> 'l \<Rightarrow> 'l \<times> duration) \<Rightarrow> (string \<Rightarrow> 'l \<Rightarrow> 'l) \<Rightarrow> ('l \<Rightarrow> string \<Rightarrow> nat)
    \<Rightarrow> int \<Rightarrow> (work_item \<Rightarrow> bool) \<Rightarrow> gotime \<Rightarrow> 'l simple_queue \<Rightarrow> 'l simple_queue option" where
  "worker_round rw rf rn mx failed now q =
     (case sq_get rn now q of
        (q1, Ok (Some it)) \<Rightarrow> Some (worker_handle rw rf rn mx failed it q1)
      | _ \<Rightarrow> None)"

subsection \<open>The generic controller\<close>

text \<open>
  What \<open>processItem\<close> sees of one key: the store has no such resource (or failed), the
  reconciler panicked, or it returned whether and after what delay to requeue.
\<close>

datatype reconcile_outcome = StoreMiss | Panicked | NoRequeue | RequeueIn duration | RequeueLimited

definition gc_result :: "bool \<Rightarrow> duration \<Rightarrow> reconcile_outcome" where
  "gc_result requeue after = (if requeue then (if after > 0 then RequeueIn after else RequeueLimited) else NoRequeue)"

fun gc_process :: "(string \<Rightarrow> int \<Rightarrow> 'l \<Rightarrow> 'l \<times> duration) \<Rightarrow> (string \<Rightarrow> 'l \<Rightarrow> 'l) \<Rightarrow> ('l \<Rightarrow> string \<Rightarrow> nat)
    \<Rightarrow> string \<Rightarrow> reconcile_outcome \<Rightarrow> 'l simple_queue \<Rightarrow> 'l simple_queue" where
  "gc_process rw rf rn k StoreMiss q = sq_forget rf k q"
| "gc_process rw rf rn k Panicked q = q"
| "gc_process rw rf rn k NoRequeue q = sq_forget rf k q"
| "gc_process rw rf rn k (RequeueIn d) q = sq_add_after k d q"
| "gc_process rw rf rn k RequeueLimited q = sq_add_limited rw rn k q"

definition gc_worker :: "(string \<Rightarrow> int \<Rightarrow> 'l \<Rightarrow> 'l \<times> duration) \<Rightarrow> (string \<Rightarrow> 'l \<Rightarrow> 'l) \<Rightarrow> ('l \<Rightarrow> string \<Rightarrow> nat)
    \<Rightarrow> (string \<Rightarrow> reconcile_outcome) \<Rightarrow> gotime \<Rightarrow> 'l simple_queue \<Rightarrow> 'l simple_queue option" where
  "gc_worker rw rf rn rec now q =
     (case sq_get rn now q of
        (q1, Ok (Some it)) \<Rightarrow> Some (sq_done rf (wi_key it) (gc_process rw rf rn (wi_key it) (rec (wi_key it)) q1))
      | _ \<Rightarrow> None)"

text \<open>A watch event or a listed resource with an empty key is skipped.\<close>

definition gc_enqueue :: "string \<Rightarrow> 'l simple_queue \<Rightarrow> 'l simple_queue" where
  "gc_enqueue k q = (if k \<noteq> [] then fst (sq_add k q) else q)"

definition gc_initial_sync :: "string list option \<Rightarrow> 'l simple_queue \<Rightarrow> 'l simple_queue" where
  "gc_initial_sync ks q = (case ks of None \<Rightarrow> q | Some xs \<Rightarrow> foldl (\<lambda>q k. gc_enqueue k q) q xs)"

definition gc_workers :: "int \<Rightarrow> int" where
  "gc_workers n = (if n < 1 then 1 else n)"

subsection \<open>De-duplication\<close>

text \<open>The dirty set is exactly the queued keys, and no key is queued twice.\<close>

definition sq_ok :: "'l simple_queue \<Rightarrow> bool" where
  "sq_ok q \<longleftrightarrow> distinct (sq_queue q) \<and> set (sq_queue q) = sq_dirty q"

lemma sq_ok_add: "sq_ok q \<Longrightarrow> sq_ok (fst (sq_add k q))"
  by (auto simp: sq_ok_def sq_add_def)

lemma sq_ok_get: "sq_ok q \<Longrightarrow> sq_ok (fst (sq_get rn now q))"
  by (cases "sq_queue q") (auto simp: sq_ok_def sq_get_def)

lemma sq_ok_done: "sq_ok q \<Longrightarrow> sq_ok (sq_done rf k q)"
  by (simp add: sq_ok_def sq_done_def)

lemma sq_ok_after: "sq_ok q \<Longrightarrow> sq_ok (sq_add_after k d q)"
  by (simp add: sq_ok_def sq_add_after_def)

lemma sq_ok_limited: "sq_ok q \<Longrightarrow> sq_ok (sq_add_limited rw rn k q)"
  by (simp add: sq_ok_def sq_add_limited_def sq_add_after_def split: prod.split)

lemma sq_ok_fire: "sq_ok q \<Longrightarrow> sq_ok (sq_fire t q)"
  unfolding sq_fire_def by (rule sq_ok_add) (simp add: sq_ok_def)

lemma sq_ok_shutdown: "sq_ok q \<Longrightarrow> sq_ok (sq_shutdown q)"
  by (simp add: sq_ok_def sq_shutdown_def)

lemmas sq_ok_ops = sq_ok_add sq_ok_get sq_ok_done sq_ok_after sq_ok_limited sq_ok_fire sq_ok_shutdown

text \<open>The calls of a client and the wake-ups of timers, as one sequence.\<close>

datatype sq_op = SAdd string | SAfter string duration | SLimited string | SGet gotime | SDone string
  | SForget string | SFire "string \<times> duration" | SShutdown

fun sq_exec :: "(string \<Rightarrow> int \<Rightarrow> 'l \<Rightarrow> 'l \<times> duration) \<Rightarrow> (string \<Rightarrow> 'l \<Rightarrow> 'l) \<Rightarrow> ('l \<Rightarrow> string \<Rightarrow> nat)
    \<Rightarrow> sq_op \<Rightarrow> 'l simple_queue \<Rightarrow> 'l simple_queue" where
  "sq_exec rw rf rn (SAdd k) q = fst (sq_add k q)"
| "sq_exec rw rf rn (SAfter k d) q = sq_add_after k d q"
| "sq_exec rw rf rn (SLimited k) q = sq_add_limited rw rn k q"
| "sq_exec rw rf rn (SGet now) q = fst (sq_get rn now q)"
| "sq_exec rw rf rn (SDone k) q = sq_done rf k q"
| "sq_exec rw rf rn (SForget k) q = sq_forget rf k q"
| "sq_exec rw rf rn (SFire t) q = (if t \<in> set (sq_timers q) then sq_fire t q else q)"
| "sq_exec rw rf rn SShutdown q = sq_shutdown q"

lemma sq_ok_exec: "sq_ok q \<Longrightarrow> (\<forall>k. op \<noteq> SForget k) \<Longrightarrow> sq_ok (sq_exec rw rf rn op q)"
  by (cases op) (simp_all add: sq_ok_ops)

lemma sq_ok_execs:
  "sq_ok q \<Longrightarrow> (\<And>k. SForget k \<notin> set ops) \<Longrightarrow> sq_ok (foldl (\<lambda>q op. sq_exec rw rf rn op q) q ops)"
proof (induction ops arbitrary: q)
  case (Cons op ops)
  have "sq_ok (sq_exec rw rf rn op q)"
    using Cons.prems by (intro sq_ok_exec) auto
  with Cons show ?case by simp
qed simp

subsection \<open>What a round does to the rate limiter\<close>

context rate_limiter
begin

text \<open>The controller calls \<open>Done\<close> after every item, which resets the key's count.\<close>

lemma gc_worker_resets:
  assumes "gc_worker when_rl forget_rl num_rl rec now q = Some q'"
  shows "\<exists>k. sq_queue q = k # tl (sq_queue q) \<and> num_rl (sq_rl q') k = 0"
proof -
  obtain k ks where q: "sq_queue q = k # ks"
    using assms by (auto simp: gc_worker_def sq_get_def split: if_splits list.splits)
  have "num_rl (sq_rl q') k = 0"
    using assms q by (auto simp: gc_worker_def sq_get_def sq_done_def num_forget split: if_splits)
  with q show ?thesis by simp
qed

end

text \<open>Rounds of one always-requeued key under the controller: the delays it is given.\<close>

fun gc_delays :: "int \<Rightarrow> nat \<Rightarrow> limiter simple_queue \<Rightarrow> duration list" where
  "gc_delays u 0 q = []"
| "gc_delays u (Suc n) q =
     (case gc_worker (lim_when u) lim_forget lim_num (\<lambda>_. RequeueLimited) 0 q of
        None \<Rightarrow> []
      | Some q1 \<Rightarrow>
          (case sq_timers q1 of
             [] \<Rightarrow> []
           | t # _ \<Rightarrow> snd t # gc_delays u n (sq_fire t q1)))"

text \<open>A queue whose only work is one queued key, without a failure counted for it.\<close>

definition single_key :: "string \<Rightarrow> limiter \<Rightarrow> limiter simple_queue \<Rightarrow> bool" where
  "single_key k l q \<longleftrightarrow> sq_queue q = [k] \<and> sq_dirty q = {k} \<and> \<not> sq_shut q \<and> sq_timers q = [] \<and> sq_rl q = l"

lemma gc_round_single:
  assumes "single_key k (ExponentialLimiter b m (c(k := None))) q"
  shows "\<exists>q1. gc_worker (lim_when u) lim_forget lim_num (\<lambda>_. RequeueLimited) 0 q = Some q1 \<and>
    sq_timers q1 = [(k, exponential_delay u b m 0)] \<and>
    single_key k (ExponentialLimiter b m (c(k := None))) (sq_fire (k, exponential_delay u b m 0) q1)"
  using assms
  by (simp add: single_key_def gc_worker_def sq_get_def sq_add_limited_def sq_add_after_def sq_done_def
      sq_fire_def sq_add_def bump_def)

lemma gc_delays_single:
  "single_key k (ExponentialLimiter b m (c(k := None))) q \<Longrightarrow>
   gc_delays u n q = replicate n (exponential_delay u b m 0)"
proof (induction n arbitrary: q)
  case (Suc n)
  from gc_round_single [OF Suc.prems, of u] obtain q1 where q1:
    "gc_worker (lim_when u) lim_forget lim_num (\<lambda>_. RequeueLimited) 0 q = Some q1"
    "sq_timers q1 = [(k, exponential_delay u b m 0)]"
    "single_key k (ExponentialLimiter b m (c(k := None))) (sq_fire (k, exponential_delay u b m 0) q1)"
    by blast
  show ?case using Suc.IH [OF q1(3)] by (simp add: q1(1,2))
qed simp

text \<open>Rounds of one always-failing key under \<open>Worker.Run\<close>: each round, then its timer if one is set.\<close>

definition fire_first :: "'l simple_queue \<Rightarrow> 'l simple_queue" where
  "fire_first q = (case sq_timers q of [] \<Rightarrow> q | t # _ \<Rightarrow> sq_fire t q)"

fun worker_rounds :: "int \<Rightarrow> int \<Rightarrow> nat \<Rightarrow> limiter simple_queue \<Rightarrow> limiter simple_queue option" where
  "worker_rounds u mx 0 q = Some q"
| "worker_rounds u mx (Suc n) q =
     (case worker_round (lim_when u) lim_forget lim_num mx (\<lambda>_. True) 0 q of
        None \<Rightarrow> None
      | Some q1 \<Rightarrow> worker_rounds u mx n (fire_first q1))"

lemma worker_round_retry:
  assumes "single_key k (DefaultLimiter b m c) q" "int (count_of c k) < mx"
  shows "\<exists>q1. worker_round (lim_when u) lim_forget lim_num mx (\<lambda>_. True) 0 q = Some q1 \<and>
    single_key k (DefaultLimiter b m (bump k c)) (fire_first q1)"
  using assms
  by (simp add: single_key_def worker_round_def worker_handle_def sq_get_def sq_add_limited_def
      sq_add_after_def fire_first_def sq_fire_def sq_add_def)

lemma worker_rounds_retry:
  "single_key k (DefaultLimiter b m c) q \<Longrightarrow> int (count_of c k + n) \<le> mx \<Longrightarrow>
   \<exists>q' c'. worker_rounds u mx n q = Some q' \<and> single_key k (DefaultLimiter b m c') q' \<and>
     count_of c' k = count_of c k + n"
proof (induction n arbitrary: q c)
  case (Suc n)
  obtain q1 where q1: "worker_round (lim_when u) lim_forget lim_num mx (\<lambda>_. True) 0 q = Some q1"
    "single_key k (DefaultLimiter b m (bump k c)) (fire_first q1)"
    using worker_round_retry [OF Suc.prems(1), of mx u] Suc.prems(2) by auto
  have "int (count_of (bump k c) k + n) \<le> mx" using Suc.prems(2) by simp
  from Suc.IH [OF q1(2) this] show ?case by (simp add: q1(1))
qed auto

lemma worker_round_give_up:
  assumes "single_key k (DefaultLimiter b m c) q" "mx \<le> int (count_of c k)"
  shows "\<exists>q1. worker_round (lim_when u) lim_forget lim_num mx (\<lambda>_. True) 0 q = Some q1 \<and>
    sq_queue q1 = [] \<and> sq_timers q1 = [] \<and> sq_num lim_num k q1 = 0"
  using assms
  by (simp add: single_key_def worker_round_def worker_handle_def sq_get_def sq_forget_def sq_num_def)

lemma worker_rounds_add:
  "worker_rounds u mx (n + j) q = (case worker_rounds u mx n q of None \<Rightarrow> None | Some q1 \<Rightarrow> worker_rounds u mx j q1)"
  by (induction n arbitrary: q) (auto split: option.split)

subsection \<open>Priorities\<close>

lemma last_nonempty_Some:
  "last_nonempty n qs = Some i \<Longrightarrow> i < n \<and> sq_len (qs ! i) > 0 \<and> (\<forall>j. i < j \<and> j < n \<longrightarrow> sq_len (qs ! j) = 0)"
  by (induction n) (auto simp: less_Suc_eq split: if_splits)

lemma last_nonempty_None: "last_nonempty n qs = None \<longleftrightarrow> (\<forall>j < n. sq_len (qs ! j) = 0)"
  by (induction n) (auto simp: less_Suc_eq)

lemma clamp_prio_nonneg: "0 \<le> clamp_prio p q"
  by (simp add: clamp_prio_def Let_def)

lemma pq_add_other:
  assumes "clamp_prio p q < int i" "i < length (pq_queues q)"
  shows "pq_queues (fst (pq_add_prio k p q)) ! i = pq_queues q ! i"
proof -
  have "nat (clamp_prio p q) \<noteq> i" using assms(1) clamp_prio_nonneg [of p q] by auto
  then show ?thesis by (simp add: pq_add_prio_def Let_def split: prod.split option.split)
qed

subsection \<open>Properties\<close>

text \<open>C9. De-duplication: over any sequence of calls and timer wake-ups without Forget, whatever the
  rate limiter, a new queue never holds a key twice and its dirty set is exactly its keys.\<close>

theorem queue_never_duplicates:
  assumes "\<And>k. SForget k \<notin> set ops"
  shows "sq_ok (foldl (\<lambda>q op. sq_exec rw rf rn op q) (new_simple_queue l) ops)"
  by (rule sq_ok_execs [OF _ assms]) (simp add: sq_ok_def new_simple_queue_def)

text \<open>Forget breaks de-duplication: forgetting a key that is queued clears its dirty mark but
  leaves it queued, so the next Add queues it a second time.\<close>

theorem forget_then_add_duplicates:
  assumes "sq_ok q" "k \<in> set (sq_queue q)" "\<not> sq_shut q"
  shows "count_list (sq_queue (fst (sq_add k (sq_forget rf k q)))) k = 2"
proof -
  have "count_list (sq_queue q) k = 1"
    using assms(1,2) by (simp add: sq_ok_def count_list_eq_length_filter distinct_filter
        distinct_length_filter Int_absorb2 flip: set_filter)
  then show ?thesis using assms(3) by (simp add: sq_add_def sq_forget_def)
qed

text \<open>The controller never backs off: a key whose reconciler always asks for a rate-limited
  requeue gets the base delay every time under the exponential limiter, since the worker's Done
  forgets the failure that AddRateLimited has just counted.\<close>

theorem controller_never_backs_off:
  assumes "sq_queue q = [k]" "sq_dirty q = {k}" "\<not> sq_shut q" "sq_timers q = []"
    and "sq_rl q = new_exponential_limiter b m" "0 < b" "b \<le> m" "m < 2 ^ 62"
  shows "gc_delays u n q = replicate n b"
proof -
  have "single_key k (ExponentialLimiter b m (Map.empty(k := None))) q"
    using assms(1-5) by (simp add: single_key_def new_exponential_limiter_def)
  moreover have "exponential_delay u b m 0 = b"
    using assms(6-8) by (simp add: exponential_delay_def Let_def)
  ultimately show ?thesis using gc_delays_single [of k b m Map.empty q u n] by simp
qed

text \<open>A worker gives up: a key that fails every time is attempted exactly maxRetries + 1 times;
  after the last attempt it is neither queued nor scheduled and its count is reset.\<close>

theorem worker_gives_up:
  assumes "sq_queue q = [k]" "sq_dirty q = {k}" "\<not> sq_shut q" "sq_timers q = []"
    and "sq_rl q = new_default_limiter b m"
  shows "(\<forall>n \<le> mx. \<exists>q'. worker_rounds u (int mx) n q = Some q' \<and> sq_queue q' = [k]) \<and>
    (\<exists>q'. worker_rounds u (int mx) (Suc mx) q = Some q' \<and> sq_queue q' = [] \<and> sq_timers q' = [] \<and>
       sq_num lim_num k q' = 0 \<and> worker_rounds u (int mx) (Suc (Suc mx)) q = None)"
proof -
  have s: "single_key k (DefaultLimiter b m Map.empty) q"
    using assms by (simp add: single_key_def new_default_limiter_def)
  have retry: "\<exists>q' c'. worker_rounds u (int mx) n q = Some q' \<and> single_key k (DefaultLimiter b m c') q' \<and>
     count_of c' k = n" if "n \<le> mx" for n
    using worker_rounds_retry [OF s, of n "int mx" u] that by simp
  obtain q1 c1 where q1: "worker_rounds u (int mx) mx q = Some q1" "single_key k (DefaultLimiter b m c1) q1"
    "count_of c1 k = mx"
    using retry [of mx] by blast
  obtain q2 where q2: "worker_round (lim_when u) lim_forget lim_num (int mx) (\<lambda>_. True) 0 q1 = Some q2"
    "sq_queue q2 = []" "sq_timers q2 = []" "sq_num lim_num k q2 = 0"
    using worker_round_give_up [OF q1(2), of "int mx" u] q1(3) by auto
  have "worker_rounds u (int mx) (Suc mx) q = Some q2"
    using worker_rounds_add [of u "int mx" mx 1 q] q1(1) q2(1,3) by (simp add: fire_first_def)
  moreover have "worker_rounds u (int mx) (Suc (Suc mx)) q = None"
    using worker_rounds_add [of u "int mx" mx 2 q] q1(1) q2(1,2,3)
    by (simp add: numeral_2_eq_2 fire_first_def worker_round_def sq_get_def)
  ultimately show ?thesis using retry q2(2,3,4) unfolding single_key_def by blast
qed

text \<open>Get takes an item of the highest priority that has one; but with all queues empty it waits
  on the highest, where an item added at any lower priority never reaches it.\<close>

theorem priority_get_and_starvation:
  assumes "pq_queues q \<noteq> []"
  shows "\<exists>i < length (pq_queues q). pq_target q = Some i \<and>
    (\<forall>j. i < j \<and> j < length (pq_queues q) \<longrightarrow> sq_len (pq_queues q ! j) = 0) \<and>
    (pq_len q = 0 \<and> clamp_prio p q < int i \<longrightarrow>
       sq_len (pq_queues (fst (pq_add_prio k p q)) ! i) = 0)"
proof (cases "last_nonempty (length (pq_queues q)) (pq_queues q)")
  case None
  let ?i = "length (pq_queues q) - 1"
  have empty: "\<forall>j < length (pq_queues q). sq_len (pq_queues q ! j) = 0"
    using None last_nonempty_None by blast
  have lt: "?i < length (pq_queues q)" using assms by simp
  have "sq_len (pq_queues (fst (pq_add_prio k p q)) ! ?i) = 0" if "clamp_prio p q < int ?i"
    using pq_add_other [OF that lt] empty lt by simp
  with None assms lt show ?thesis
    by (intro exI [of _ ?i]) (auto simp: pq_target_def)
next
  case (Some i)
  then have i: "i < length (pq_queues q)" "sq_len (pq_queues q ! i) > 0"
    "\<forall>j. i < j \<and> j < length (pq_queues q) \<longrightarrow> sq_len (pq_queues q ! j) = 0"
    using last_nonempty_Some by blast+
  then have "pq_len q \<noteq> 0"
    unfolding pq_len_def using nth_mem [of i "pq_queues q"] by (auto simp: sum_list_eq_0_iff)
  with Some i show ?thesis by (intro exI [of _ i]) (auto simp: pq_target_def)
qed

subsection \<open>Witnesses\<close>

definition wq_demo :: "limiter \<Rightarrow> limiter simple_queue" where
  "wq_demo l = fst (sq_add ''k'' (new_simple_queue l))"

lemma wq_demo_sel: "sq_queue (wq_demo l) = [''k'']" "sq_dirty (wq_demo l) = {''k''}" "\<not> sq_shut (wq_demo l)"
  "sq_timers (wq_demo l) = []" "sq_rl (wq_demo l) = l"
  by (simp_all add: wq_demo_def sq_add_def new_simple_queue_def)

theorem queue_never_duplicates_witness:
  "sq_ok (foldl (\<lambda>q op. sq_exec (lim_when 0) lim_forget lim_num op q)
     (new_simple_queue (new_default_limiter 1 8)) [SAdd ''a'', SAdd ''a'', SGet 0, SAdd ''a'', SLimited ''a'', SDone ''a''])"
  by (rule queue_never_duplicates) simp

theorem forget_then_add_duplicates_witness:
  "count_list (sq_queue (fst (sq_add ''k'' (sq_forget lim_forget ''k'' (wq_demo (new_default_limiter 1 8)))))) ''k'' = 2"
  by (rule forget_then_add_duplicates) (simp_all add: sq_ok_def wq_demo_sel)

theorem controller_never_backs_off_witness:
  "gc_delays 0 4 (wq_demo (new_exponential_limiter 5 100)) = [5, 5, 5, 5]"
  using controller_never_backs_off [of "wq_demo (new_exponential_limiter 5 100)" "''k''" 5 100 0 4]
  by (simp add: wq_demo_sel numeral_eq_Suc)

theorem worker_gives_up_witness:
  "\<exists>q'. worker_rounds 0 3 4 (wq_demo (new_default_limiter 1 8)) = Some q' \<and> sq_queue q' = []"
  using worker_gives_up [of "wq_demo (new_default_limiter 1 8)" "''k''" 1 8 3 0]
  by (simp add: wq_demo_sel) (auto simp: numeral_eq_Suc)

theorem priority_get_and_starvation_witness:
  "sq_len (pq_queues (fst (pq_add_prio ''k'' 0 (new_prio_queue 3))) ! 2) = 0"
proof -
  have e: "sq_len default_simple_queue = 0"
    by (simp add: sq_len_def default_simple_queue_def new_simple_queue_def)
  have q: "pq_queues (new_prio_queue 3) = replicate 3 default_simple_queue" by (simp add: new_prio_queue_def)
  then have t: "pq_target (new_prio_queue 3) = Some 2"
    by (simp add: pq_target_def numeral_eq_Suc e)
  have "pq_len (new_prio_queue 3) = 0" "clamp_prio 0 (new_prio_queue 3) < 2"
    by (simp_all add: pq_len_def q e sum_list_replicate clamp_prio_def Let_def)
  then show ?thesis
    using priority_get_and_starvation [of "new_prio_queue 3" 0 "''k''"] t q by auto
qed

end
