(* ===== verification/Delaying_Queue.thy ===== *)
theory Delaying_Queue
  imports Work_Queue Go_Heap
begin

section \<open>The delaying queue (internal/workqueue/delaying.go)\<close>

text \<open>
  A work queue whose delayed additions wait in one heap ordered by their deadline. An entry is
  the pair of key and deadline; its back-reference \<open>index\<close> is its position in the slice. \<open>dq_run\<close>
  is one round of the background goroutine at one reading of the clock, \<open>dq_drain\<close> the rounds it
  makes until it has to sleep. The wrapped queue is a \<open>SimpleQueue\<close>.
\<close>

subsection \<open>State and operations\<close>

record 'l delaying_queue =
  dq_inner :: "'l simple_queue"
  dq_heap :: "(string \<times> gotime) list"
  dq_shut :: bool

definition dq_less :: "string \<times> gotime \<Rightarrow> string \<times> gotime \<Rightarrow> bool" where
  "dq_less a b \<longleftrightarrow> snd a < snd b"

interpretation dq: strict_weak_order dq_less
  by unfold_locales (auto simp: dq_less_def)

definition new_delaying_queue :: "'l simple_queue \<Rightarrow> 'l delaying_queue" where
  "new_delaying_queue inner = \<lparr>dq_inner = inner, dq_heap = [], dq_shut = False\<rparr>"

definition dq_add_after :: "gotime \<Rightarrow> string \<Rightarrow> duration \<Rightarrow> 'l delaying_queue
    \<Rightarrow> 'l delaying_queue \<times> queue_error option" where
  "dq_add_after now k d q =
     (if d \<le> 0 then (case sq_add k (dq_inner q) of (s, e) \<Rightarrow> (q\<lparr>dq_inner := s\<rparr>, e))
      else
        let ready = now + d in
        if dq_shut q then (q, None)
        else case find_key k (dq_heap q) of
          Some i \<Rightarrow>
            if ready < snd (dq_heap q ! i)
            then (q\<lparr>dq_heap := heap_fix dq_less ((dq_heap q)[i := (k, ready)]) i\<rparr>, None)
            else (q, None)
        | None \<Rightarrow> (q\<lparr>dq_heap := heap_push dq_less (dq_heap q) (k, ready)\<rparr>, None))"

text \<open>One round: return, sleep for a time, or release the head.\<close>

datatype dq_round = RunExit | RunSleep duration | RunForward

definition dq_run :: "gotime \<Rightarrow> 'l delaying_queue \<Rightarrow> 'l delaying_queue \<times> dq_round" where
  "dq_run now q =
     (if dq_shut q \<and> dq_heap q = [] then (q, RunExit)
      else if dq_heap q = [] then (q, RunSleep (3600 * second))
      else
        let wait = snd (dq_heap q ! 0) - now in
        if wait \<le> 0
        then (case heap_pop dq_less (dq_heap q) of
                (x, h) \<Rightarrow> (q\<lparr>dq_heap := h, dq_inner := fst (sq_add (fst x) (dq_inner q))\<rparr>, RunForward))
        else (q, RunSleep wait))"

text \<open>\<open>Shutdown\<close> before it waits for the goroutine.\<close>

definition dq_shutdown :: "'l delaying_queue \<Rightarrow> 'l delaying_queue" where
  "dq_shutdown q = q\<lparr>dq_shut := True\<rparr>"

lemma length_heap_pop: "heap_pop lt h = (x, h') \<Longrightarrow> h \<noteq> [] \<Longrightarrow> length h' < length h"
  by (auto simp: heap_pop_def Let_def)

lemma dq_run_forward:
  assumes "dq_run now q = (q', RunForward)"
  obtains x h where "dq_heap q \<noteq> []" "snd (dq_heap q ! 0) \<le> now" "heap_pop dq_less (dq_heap q) = (x, h)"
    "q' = q\<lparr>dq_heap := h, dq_inner := fst (sq_add (fst x) (dq_inner q))\<rparr>"
  using assms by (auto simp: dq_run_def Let_def split: if_splits prod.splits)

function dq_drain :: "gotime \<Rightarrow> 'l delaying_queue \<Rightarrow> 'l delaying_queue" where
  "dq_drain now q = (case dq_run now q of (q', RunForward) \<Rightarrow> dq_drain now q' | (q', _) \<Rightarrow> q')"
  by pat_completeness auto
termination
  by (relation "measure (\<lambda>(now, q). length (dq_heap q))")
     (auto dest!: sym [of "(_, _)"] elim!: dq_run_forward simp: length_heap_pop)

declare dq_drain.simps [simp del]

subsection \<open>The heap as a map of deadlines\<close>

definition dq_ok :: "'l delaying_queue \<Rightarrow> bool" where
  "dq_ok q \<longleftrightarrow> is_heap dq_less (dq_heap q) \<and> distinct (map fst (dq_heap q))"

definition dq_map :: "'l delaying_queue \<Rightarrow> string \<rightharpoonup> gotime" where
  "dq_map q = map_of (dq_heap q)"

lemma dq_map_iff: "dq_ok q \<Longrightarrow> dq_map q k = Some t \<longleftrightarrow> (k, t) \<in> set (dq_heap q)"
  by (simp add: dq_ok_def dq_map_def map_of_eq_Some_iff)

lemma dq_map_eqI:
  assumes "dq_ok q'" "\<And>k t. m k = Some t \<longleftrightarrow> (k, t) \<in> set (dq_heap q')"
  shows "dq_map q' = m"
proof
  fix k
  show "dq_map q' k = m k" by (rule option_eqI) (simp add: assms(2) dq_map_iff [OF assms(1)])
qed

lemma dq_add_after_correct:
  assumes ok: "dq_ok q" and d: "0 < d" and opn: "\<not> dq_shut q"
  shows "dq_ok (fst (dq_add_after now k d q)) \<and>
    dq_map (fst (dq_add_after now k d q)) =
      (dq_map q)(k \<mapsto> (case dq_map q k of None \<Rightarrow> now + d | Some t \<Rightarrow> min t (now + d))) \<and>
    dq_inner (fst (dq_add_after now k d q)) = dq_inner q"
proof (cases "find_key k (dq_heap q)")
  case None
  let ?h = "heap_push dq_less (dq_heap q) (k, now + d)"
  let ?q = "q\<lparr>dq_heap := ?h\<rparr>"
  have k: "k \<notin> fst ` set (dq_heap q)" using None by (simp add: find_key_None)
  have op: "fst (dq_add_after now k d q) = ?q"
    using d opn None by (simp add: dq_add_after_def Let_def)
  have "distinct (map fst ?h) = distinct (map fst ((k, now + d) # dq_heap q))"
    by (rule distinct_keys_cong) (simp add: mset_heap_push)
  then have ok': "dq_ok ?q"
    using ok k by (auto simp: dq_ok_def intro: dq.is_heap_push)
  have none: "dq_map q k = None" using k by (simp add: dq_map_def map_of_eq_None_iff)
  have "dq_map ?q = (dq_map q)(k \<mapsto> now + d)"
    using k by (intro dq_map_eqI [OF ok']) (auto simp: set_heap_push dq_map_iff [OF ok] image_iff)
  then show ?thesis using op ok' none by simp
next
  case (Some i)
  note i = find_key_Some [OF Some]
  obtain t where t: "dq_heap q ! i = (k, t)" using i by (metis prod.collapse)
  have old: "dq_map q k = Some t" using dq_map_iff [OF ok] i t by (metis nth_mem)
  show ?thesis
  proof (cases "now + d < t")
    case False
    then have "fst (dq_add_after now k d q) = q" using d opn Some t by (simp add: dq_add_after_def Let_def)
    moreover have "(dq_map q)(k \<mapsto> t) = dq_map q" using old by auto
    ultimately show ?thesis using ok old False by (simp add: min_def)
  next
    case True
    let ?r = "(dq_heap q)[i := (k, now + d)]"
    let ?q = "q\<lparr>dq_heap := heap_fix dq_less ?r i\<rparr>"
    have op: "fst (dq_add_after now k d q) = ?q"
      using d opn Some t True by (simp add: dq_add_after_def Let_def)
    have "map fst ?r = map fst (dq_heap q)"
      using i t by (simp add: map_update list_update_same_conv)
    then have "distinct (map fst (heap_fix dq_less ?r i))"
      using ok i distinct_keys_cong [of "heap_fix dq_less ?r i" ?r] by (simp add: dq_ok_def mset_heap_fix)
    then have ok': "dq_ok ?q"
      using ok i dq.is_heap_fix [of "dq_heap q" i "(k, now + d)"] by (simp add: dq_ok_def)
    have dist: "distinct (dq_heap q)" using ok by (auto simp: dq_ok_def distinct_map)
    have uniq: "x = t" if "(k, x) \<in> set (dq_heap q)" for x
      using that dq_map_iff [OF ok] old by (metis option.inject)
    have "set (heap_fix dq_less ?r i) = insert (k, now + d) (set (dq_heap q) - {(k, t)})"
      using i t set_update_distinct [OF dist, of i "(k, now + d)"] by (simp add: set_heap_fix)
    then have "dq_map ?q = (dq_map q)(k \<mapsto> now + d)"
      by (intro dq_map_eqI [OF ok']) (auto simp: dq_map_iff [OF ok] dest: uniq split: if_splits)
    then show ?thesis using op ok' old True by (simp add: min_def)
  qed
qed

lemma dq_run_forward_correct:
  assumes ok: "dq_ok q" and run: "dq_run now q = (q', RunForward)"
  shows "\<exists>k t. dq_map q k = Some t \<and> t \<le> now \<and> (\<forall>j u. dq_map q j = Some u \<longrightarrow> t \<le> u) \<and>
    dq_ok q' \<and> dq_map q' = (dq_map q)(k := None) \<and> dq_inner q' = fst (sq_add k (dq_inner q))"
  using run
proof (rule dq_run_forward)
  fix x h
  assume h: "dq_heap q \<noteq> []" "snd (dq_heap q ! 0) \<le> now" "heap_pop dq_less (dq_heap q) = (x, h)"
    "q' = q\<lparr>dq_heap := h, dq_inner := fst (sq_add (fst x) (dq_inner q))\<rparr>"
  have heap: "is_heap dq_less (dq_heap q)" using ok by (simp add: dq_ok_def)
  note pop = dq.heap_pop_correct [OF heap h(1,3)]
  have m: "mset (dq_heap q) = mset (x # h)" using pop(3) by simp
  then have s: "set (dq_heap q) = insert x (set h)" by (metis list.simps(15) set_mset_mset)
  have d: "distinct (map fst (x # h))" using ok distinct_keys_cong [OF m] by (simp add: dq_ok_def)
  have ok': "dq_ok q'" using d pop(2) h(4) by (simp add: dq_ok_def)
  have "dq_map q' = (dq_map q)(fst x := None)"
    using d s h(4) by (intro dq_map_eqI [OF ok']) (auto simp: dq_map_iff [OF ok] image_iff split: if_splits)
  moreover have "snd x \<le> u" if "dq_map q j = Some u" for j u
    using that s pop(4) by (auto simp: dq_map_iff [OF ok] dq_less_def)
  moreover have "dq_map q (fst x) = Some (snd x)" using dq_map_iff [OF ok] s by simp
  moreover have "snd x \<le> now" using h(2) pop(1) by simp
  ultimately show ?thesis using ok' h(4) by (intro exI [of _ "fst x"] exI [of _ "snd x"]) simp
qed

lemma dq_run_stop:
  assumes "dq_ok q" "dq_run now q = (q', r)" "r \<noteq> RunForward"
  shows "q' = q" and "\<forall>k t. dq_map q k = Some t \<longrightarrow> now < t"
proof -
  show "q' = q" using assms(2,3) by (auto simp: dq_run_def Let_def split: if_splits prod.splits)
  show "\<forall>k t. dq_map q k = Some t \<longrightarrow> now < t"
  proof (intro allI impI)
    fix k t assume "dq_map q k = Some t"
    then have kt: "(k, t) \<in> set (dq_heap q)" using dq_map_iff [OF assms(1)] by blast
    then have "dq_heap q \<noteq> []" by auto
    then have head: "now < snd (dq_heap q ! 0)"
      using assms(2,3) by (auto simp: dq_run_def Let_def split: if_splits prod.splits)
    obtain i where "i < length (dq_heap q)" "dq_heap q ! i = (k, t)" using kt by (auto simp: in_set_conv_nth)
    moreover have "is_heap dq_less (dq_heap q)" using assms(1) by (simp add: dq_ok_def)
    ultimately have "\<not> dq_less (k, t) (dq_heap q ! 0)" using dq.heap_root_min by metis
    then show "now < t" using head by (simp add: dq_less_def)
  qed
qed

text \<open>What a full set of rounds releases: exactly what is due.\<close>

lemma dq_drain_correct:
  "dq_ok q \<Longrightarrow> dq_ok (dq_drain now q) \<and>
   dq_map (dq_drain now q) = (\<lambda>k. case dq_map q k of None \<Rightarrow> None | Some t \<Rightarrow> if t \<le> now then None else Some t) \<and>
   (\<not> sq_shut (dq_inner q) \<longrightarrow> sq_ok (dq_inner q) \<longrightarrow> sq_ok (dq_inner (dq_drain now q)) \<and>
     set (sq_queue (dq_inner (dq_drain now q))) =
       set (sq_queue (dq_inner q)) \<union> {k. \<exists>t. dq_map q k = Some t \<and> t \<le> now})"
proof (induction now q rule: dq_drain.induct)
  case (1 now q)
  obtain q' r where run: "dq_run now q = (q', r)" by fastforce
  show ?case
  proof (cases "r = RunForward")
    case False
    then have "dq_drain now q = q"
      using dq_run_stop(1) [OF "1.prems" run] by (subst dq_drain.simps) (simp add: run split: dq_round.split)
    moreover have no: "\<not> t \<le> now" if "dq_map q k = Some t" for k t
      using dq_run_stop(2) [OF "1.prems" run False] that by force
    ultimately show ?thesis
      using "1.prems" by (auto simp: fun_eq_iff dest: no split: option.split)
  next
    case True
    then have step: "dq_drain now q = dq_drain now q'" by (subst dq_drain.simps) (simp add: run)
    from dq_run_forward_correct [OF "1.prems", of now q'] run True obtain k t where kt:
      "dq_map q k = Some t" "t \<le> now" "dq_ok q'" "dq_map q' = (dq_map q)(k := None)"
      "dq_inner q' = fst (sq_add k (dq_inner q))" by auto
    have IH: "dq_ok (dq_drain now q') \<and>
       dq_map (dq_drain now q') = (\<lambda>k. case dq_map q' k of None \<Rightarrow> None | Some t \<Rightarrow> if t \<le> now then None else Some t) \<and>
       (\<not> sq_shut (dq_inner q') \<longrightarrow> sq_ok (dq_inner q') \<longrightarrow> sq_ok (dq_inner (dq_drain now q')) \<and>
         set (sq_queue (dq_inner (dq_drain now q'))) =
           set (sq_queue (dq_inner q')) \<union> {k. \<exists>t. dq_map q' k = Some t \<and> t \<le> now})"
      by (rule "1.IH" [OF run [symmetric] True kt(3)])
    have map: "(\<lambda>k. case dq_map q' k of None \<Rightarrow> None | Some t \<Rightarrow> if t \<le> now then None else Some t) =
      (\<lambda>k. case dq_map q k of None \<Rightarrow> None | Some t \<Rightarrow> if t \<le> now then None else Some t)"
      using kt(1,2,4) by (auto simp: fun_eq_iff)
    have inner: "\<not> sq_shut (dq_inner q') \<and> sq_ok (dq_inner q') \<and>
        set (sq_queue (dq_inner q')) = insert k (set (sq_queue (dq_inner q)))"
      if "\<not> sq_shut (dq_inner q)" "sq_ok (dq_inner q)"
      using that sq_ok_add [OF that(2), of k] kt(5) by (auto simp: sq_add_def sq_ok_def)
    have due: "{j. \<exists>t. dq_map q j = Some t \<and> t \<le> now} = insert k {j. \<exists>t. dq_map q' j = Some t \<and> t \<le> now}"
      using kt(1,2,4) by auto
    show ?thesis using IH inner unfolding step map [symmetric] due by auto
  qed
qed

subsection \<open>Properties\<close>

text \<open>Delayed additions collapse to the earliest deadline: on the map from keys to deadlines a
  positive-delay AddAfter of an open queue is an update of that key to the minimum of its old
  and new deadline; the heap order and the one-entry-per-key property are kept.\<close>

theorem add_after_keeps_earliest:
  assumes "dq_ok q" "0 < d" "\<not> dq_shut q"
  shows "dq_ok (fst (dq_add_after now k d q)) \<and>
    dq_map (fst (dq_add_after now k d q)) =
      (dq_map q)(k \<mapsto> (case dq_map q k of None \<Rightarrow> now + d | Some t \<Rightarrow> min t (now + d)))"
  using dq_add_after_correct [OF assms, of now k] by simp

text \<open>The goroutine releases exactly what is due: its rounds at one clock reading end, hand every
  key whose deadline has passed to the wrapped queue, keep every other deadline, and add nothing
  else.\<close>

theorem drain_releases_due:
  assumes "dq_ok q" "\<not> sq_shut (dq_inner q)" "sq_ok (dq_inner q)"
  shows "set (sq_queue (dq_inner (dq_drain now q))) =
      set (sq_queue (dq_inner q)) \<union> {k. \<exists>t. dq_map q k = Some t \<and> t \<le> now} \<and>
    dq_map (dq_drain now q) = (\<lambda>k. case dq_map q k of None \<Rightarrow> None | Some t \<Rightarrow> if t \<le> now then None else Some t)"
  using dq_drain_correct [OF assms(1), of now] assms(2,3) by blast

text \<open>Shutdown does not return while a deadline lies ahead: after it is requested, the goroutine it
  waits for exits only on an empty heap, and at a clock reading before every deadline a
  non-empty heap makes it sleep instead.\<close>

lemma shutdown_waits_for_deadlines:
  assumes "dq_ok q" "dq_heap q \<noteq> []" "\<forall>k t. dq_map q k = Some t \<longrightarrow> now < t"
  shows "\<exists>w > 0. dq_run now (dq_shutdown q) = (dq_shutdown q, RunSleep w)"
proof -
  have "dq_map q (fst (dq_heap q ! 0)) = Some (snd (dq_heap q ! 0))"
    using assms(1,2) by (simp add: dq_map_iff)
  then have "now < snd (dq_heap q ! 0)" using assms(3) by blast
  then show ?thesis using assms(2) by (simp add: dq_run_def dq_shutdown_def Let_def)
qed

subsection \<open>Witnesses\<close>

definition dq_demo :: "limiter delaying_queue" where
  "dq_demo = fst (dq_add_after 100 ''k'' 50 (new_delaying_queue (new_simple_queue (new_default_limiter 1 8))))"

lemma dq_demo_ok: "dq_ok dq_demo" "\<not> dq_shut dq_demo" "\<not> sq_shut (dq_inner dq_demo)" "sq_ok (dq_inner dq_demo)"
  "dq_map dq_demo ''k'' = Some 150" "sq_queue (dq_inner dq_demo) = []"
  by (simp_all add: dq_demo_def dq_add_after_def new_delaying_queue_def new_simple_queue_def Let_def dq_ok_def
      dq_map_def sq_ok_def heap_upto_def)

theorem add_after_keeps_earliest_witness:
  "dq_map (fst (dq_add_after 110 ''k'' 20 dq_demo)) ''k'' = Some 130"
  using add_after_keeps_earliest [OF dq_demo_ok(1), of 20 110 "''k''"] dq_demo_ok by simp

theorem drain_releases_due_witness:
  "''k'' \<in> set (sq_queue (dq_inner (dq_drain 150 dq_demo)))"
  using drain_releases_due [OF dq_demo_ok(1,3,4), of 150] dq_demo_ok(5) by auto

end
