(* ===== verification/Go_Encoding.thy ===== *)
theory Go_Encoding
  imports Prelude
begin

section \<open>What the stores use of encoding/json and encoding/base64\<close>

text \<open>
  A byte slice is a string of 8-bit characters. \<open>base64\<close> is the standard encoding that
  \<open>encoding/json\<close> gives a \<open>[]byte\<close> field. \<open>json_compact\<close> is what it does to a
  \<open>json.RawMessage\<close>: check that the bytes are one JSON value, drop the space outside strings
  and escape \<open><\<close>, \<open>>\<close>, \<open>&\<close> and the two Unicode line separators; \<open>None\<close> is its error. The scanner is a recursive descent
  with fuel, which the length of the input bounds: every call consumes a character or is one
  of at most three nested calls on the same suffix.
\<close>

subsection \<open>Base64\<close>

definition b64_alphabet :: string where
  "b64_alphabet = ''ABCDEFGHIJKLMNOPQRSTUVWXYZabcdefghijklmnopqrstuvwxyz0123456789+/''"

definition b64_digit :: "nat \<Rightarrow> char" where
  "b64_digit n = b64_alphabet ! n"

fun base64 :: "nat list \<Rightarrow> string" where
  "base64 [] = []"
| "base64 [a] = [b64_digit (a div 4), b64_digit (a mod 4 * 16), CHR ''='', CHR ''='']"
| "base64 [a, b] = [b64_digit (a div 4), b64_digit (a mod 4 * 16 + b div 16), b64_digit (b mod 16 * 4), CHR ''='']"
| "base64 (a # b # c # r) =
     [b64_digit (a div 4), b64_digit (a mod 4 * 16 + b div 16), b64_digit (b mod 16 * 4 + c div 64),
      b64_digit (c mod 64)] @ base64 r"

definition base64_bytes :: "string \<Rightarrow> string" where
  "base64_bytes s = base64 (map of_char s)"

lemma length_base64: "length (base64 xs) = 4 * ((length xs + 2) div 3)"
proof (induction xs rule: base64.induct)
  case (4 a b c r)
  have "(length (a # b # c # r) + 2) div 3 = (length r + 2) div 3 + 1"
    using div_add_self2 [of 3 "length r + 2"] by (simp add: add.commute)
  then show ?case using 4 by simp
qed simp_all

subsection \<open>JSON values\<close>

definition dquote :: char where "dquote = char_of (34 :: nat)"
definition backslash :: char where "backslash = char_of (92 :: nat)"

definition json_space :: "char \<Rightarrow> bool" where
  "json_space c \<longleftrightarrow> of_char c \<in> {32, 9, 10, 13 :: nat}"

definition is_digit :: "char \<Rightarrow> bool" where
  "is_digit c \<longleftrightarrow> 48 \<le> (of_char c :: nat) \<and> (of_char c :: nat) \<le> 57"

definition is_hex :: "char \<Rightarrow> bool" where
  "is_hex c \<longleftrightarrow> is_digit c \<or> (65 \<le> (of_char c :: nat) \<and> (of_char c :: nat) \<le> 70) \<or>
     (97 \<le> (of_char c :: nat) \<and> (of_char c :: nat) \<le> 102)"

fun skip_space :: "string \<Rightarrow> string" where
  "skip_space [] = []"
| "skip_space (c # cs) = (if json_space c then skip_space cs else c # cs)"

definition html_escape :: "char \<Rightarrow> string" where
  "html_escape c =
     (if c = CHR ''<'' then backslash # ''u003c''
      else if c = CHR ''>'' then backslash # ''u003e''
      else if c = CHR ''&'' then backslash # ''u0026''
      else [c])"

text \<open>The UTF-8 bytes of U+2028 or U+2029, which are escaped too.\<close>

definition line_separator :: "string \<Rightarrow> bool" where
  "line_separator s \<longleftrightarrow> take 3 s = map char_of [226, 128, 168 :: nat] \<or> take 3 s = map char_of [226, 128, 169 :: nat]"

text \<open>The rest of a string literal after its opening quote: its compacted text and what follows.\<close>

function json_string :: "string \<Rightarrow> (string \<times> string) option" where
  "json_string [] = None"
| "json_string (c # cs) =
     (if c = dquote then Some ([dquote], cs)
      else if c = backslash
      then (case cs of
              [] \<Rightarrow> None
            | e # r \<Rightarrow>
                if e \<in> set (dquote # backslash # ''/bfnrt'')
                then map_option (\<lambda>(t, u). (c # e # t, u)) (json_string r)
                else if e = CHR ''u''
                then (case r of
                        h1 # h2 # h3 # h4 # r' \<Rightarrow>
                          if is_hex h1 \<and> is_hex h2 \<and> is_hex h3 \<and> is_hex h4
                          then map_option (\<lambda>(t, u). (c # e # h1 # h2 # h3 # h4 # t, u)) (json_string r')
                          else None
                      | _ \<Rightarrow> None)
                else None)
      else if (of_char c :: nat) < 32 then None
      else if line_separator (c # cs)
      then map_option (\<lambda>(t, u). (backslash # ''u202'' @ [if cs ! 1 = char_of (168 :: nat) then CHR ''8'' else CHR ''9''] @ t, u))
             (json_string (drop 2 cs))
      else map_option (\<lambda>(t, u). (html_escape c @ t, u)) (json_string cs))"
  by pat_completeness auto
termination
  by (relation "measure length") auto

definition json_digits :: "string \<Rightarrow> string \<times> string" where
  "json_digits s = (takeWhile is_digit s, dropWhile is_digit s)"

text \<open>A number: sign, integer part without leading zeros, fraction, exponent.\<close>

definition json_frac :: "string \<Rightarrow> (string \<times> string) option" where
  "json_frac s =
     (case s of
        c # r \<Rightarrow>
          if c = CHR ''.''
          then (case json_digits r of (d, u) \<Rightarrow> if d = [] then None else Some (c # d, u))
          else Some ([], s)
      | [] \<Rightarrow> Some ([], []))"

definition json_exp :: "string \<Rightarrow> (string \<times> string) option" where
  "json_exp s =
     (case s of
        c # r \<Rightarrow>
          if c = CHR ''e'' \<or> c = CHR ''E''
          then
            let (sg, r') = (case r of
                  p # q \<Rightarrow> if p = CHR ''+'' \<or> p = CHR ''-'' then ([p], q) else ([], r)
                | [] \<Rightarrow> ([], []))
            in case json_digits r' of (d, u) \<Rightarrow> if d = [] then None else Some (c # sg @ d, u)
          else Some ([], s)
      | [] \<Rightarrow> Some ([], []))"

definition json_number :: "string \<Rightarrow> (string \<times> string) option" where
  "json_number s =
     (let (sg, r) = (case s of c # q \<Rightarrow> if c = CHR ''-'' then ([c], q) else ([], s) | [] \<Rightarrow> ([], []));
          (d, u) = json_digits r;
          (d', u') = (if take 1 d = ''0'' then (''0'', drop 1 r) else (d, u))
      in if d = [] then None
         else case json_frac u' of
           None \<Rightarrow> None
         | Some (fr, v) \<Rightarrow>
             (case json_exp v of None \<Rightarrow> None | Some (ex, w) \<Rightarrow> Some (sg @ d' @ fr @ ex, w)))"

definition json_literal :: "string \<Rightarrow> string \<Rightarrow> (string \<times> string) option" where
  "json_literal lit s = (if take (length lit) s = lit then Some (lit, drop (length lit) s) else None)"

text \<open>A value, the members of an object after an opening brace or comma, the elements of an array.\<close>

fun json_value :: "nat \<Rightarrow> string \<Rightarrow> (string \<times> string) option"
  and json_members :: "nat \<Rightarrow> string \<Rightarrow> (string \<times> string) option"
  and json_elements :: "nat \<Rightarrow> string \<Rightarrow> (string \<times> string) option" where
  "json_value 0 s = None"
| "json_value (Suc n) s =
     (case skip_space s of
        [] \<Rightarrow> None
      | c # r \<Rightarrow>
          if c = dquote then map_option (\<lambda>(t, u). (c # t, u)) (json_string r)
          else if c = CHR ''{''
          then (case skip_space r of
                  [] \<Rightarrow> None
                | e # u \<Rightarrow> if e = CHR ''}'' then Some (''{}'', u)
                          else map_option (\<lambda>(t, v). (c # t, v)) (json_members n (e # u)))
          else if c = CHR ''[''
          then (case skip_space r of
                  [] \<Rightarrow> None
                | e # u \<Rightarrow> if e = CHR '']'' then Some (''[]'', u)
                          else map_option (\<lambda>(t, v). (c # t, v)) (json_elements n (e # u)))
          else if c = CHR ''t'' then json_literal ''true'' (c # r)
          else if c = CHR ''f'' then json_literal ''false'' (c # r)
          else if c = CHR ''n'' then json_literal ''null'' (c # r)
          else json_number (c # r))"
| "json_members 0 s = None"
| "json_members (Suc n) s =
     (case skip_space s of
        [] \<Rightarrow> None
      | c # r \<Rightarrow>
          if c \<noteq> dquote then None
          else (case json_string r of
            None \<Rightarrow> None
          | Some (k, u) \<Rightarrow>
              (case skip_space u of
                 [] \<Rightarrow> None
               | d # v \<Rightarrow>
                   if d \<noteq> CHR '':'' then None
                   else (case json_value n v of
                     None \<Rightarrow> None
                   | Some (x, w) \<Rightarrow>
                       (case skip_space w of
                          [] \<Rightarrow> None
                        | e # y \<Rightarrow>
                            if e = CHR ''}'' then Some (c # k @ d # x @ [e], y)
                            else if e = CHR '',''
                            then map_option (\<lambda>(t, z). (c # k @ d # x @ e # t, z)) (json_members n y)
                            else None)))))"
| "json_elements 0 s = None"
| "json_elements (Suc n) s =
     (case json_value n s of
        None \<Rightarrow> None
      | Some (x, w) \<Rightarrow>
          (case skip_space w of
             [] \<Rightarrow> None
           | e # y \<Rightarrow>
               if e = CHR '']'' then Some (x @ [e], y)
               else if e = CHR '','' then map_option (\<lambda>(t, z). (x @ e # t, z)) (json_elements n y)
               else None))"

definition json_compact :: "string \<Rightarrow> string option" where
  "json_compact s =
     (case json_value (3 * length s + 3) s of
        None \<Rightarrow> None
      | Some (t, u) \<Rightarrow> if skip_space u = [] then Some t else None)"

lemma json_compact_examples:
  "json_compact ''hello'' = None"
  "json_compact ''[1, 2.5e3 , true]'' = Some ''[1,2.5e3,true]''"
  "json_compact (dquote # ''a<b'' @ [dquote]) = Some (dquote # ''a'' @ backslash # ''u003cb'' @ [dquote])"
  "json_compact [] = None"
  by code_simp+

subsection \<open>Base64 literals are compact\<close>

definition json_plain :: "char \<Rightarrow> bool" where
  "json_plain c \<longleftrightarrow> c \<noteq> dquote \<and> c \<noteq> backslash \<and> 32 \<le> (of_char c :: nat) \<and> (of_char c :: nat) < 128 \<and> html_escape c = [c]"

lemma json_string_plain:
  "\<forall>c \<in> set s. json_plain c \<Longrightarrow> json_string (s @ dquote # r) = Some (s @ [dquote], r)"
proof (induction s)
  case (Cons c s)
  have "(of_char c :: nat) < 128" using Cons.prems by (simp add: json_plain_def)
  then have "\<not> line_separator (c # s @ dquote # r)"
    by (auto simp: line_separator_def take_Cons')
  then show ?case using Cons by (simp add: json_plain_def)
qed simp

lemma b64_plain: "n < 64 \<Longrightarrow> json_plain (b64_digit n)"
proof -
  have "\<forall>n \<in> set [0..<64]. json_plain (b64_digit n)" by code_simp
  then show "n < 64 \<Longrightarrow> json_plain (b64_digit n)" by simp
qed

lemma base64_plain: "\<forall>x \<in> set xs. x < 256 \<Longrightarrow> \<forall>c \<in> set (base64 xs). json_plain c"
proof (induction xs rule: base64.induct)
  case 1
  then show ?case by simp
next
  case (2 a)
  then have "json_plain (b64_digit (a div 4))" "json_plain (b64_digit (a mod 4 * 16))"
    by (auto intro!: b64_plain)
  moreover have "json_plain (CHR ''='')" by code_simp
  ultimately show ?case by simp
next
  case (3 a b)
  then have "json_plain (b64_digit (a div 4))" "json_plain (b64_digit (a mod 4 * 16 + b div 16))"
    "json_plain (b64_digit (b mod 16 * 4))"
    by (auto intro!: b64_plain)
  moreover have "json_plain (CHR ''='')" by code_simp
  ultimately show ?case by simp
next
  case (4 a b c r)
  then have "json_plain (b64_digit (a div 4))" "json_plain (b64_digit (a mod 4 * 16 + b div 16))"
    "json_plain (b64_digit (b mod 16 * 4 + c div 64))" "json_plain (b64_digit (c mod 64))"
    by (auto intro!: b64_plain)
  then show ?case using 4 by simp
qed

lemma base64_bytes_plain: "\<forall>c \<in> set (base64_bytes s). json_plain c"
  unfolding base64_bytes_def by (rule base64_plain) auto

lemma json_compact_plain:
  assumes "\<forall>c \<in> set s. json_plain c"
  shows "json_compact (dquote # s @ [dquote]) = Some (dquote # s @ [dquote])"
proof -
  have "\<not> json_space dquote" by code_simp
  then show ?thesis
    using json_string_plain [OF assms, of "[]"] by (simp add: json_compact_def numeral_eq_Suc)
qed

end
