(* ===== verification/Platform_FSM.thy ===== *)
theory Platform_FSM
  imports Go_Encoding "HOL-Library.Sublist"
begin

section \<open>The replicated state machine (internal/platform/raft)\<close>

text \<open>
  \<open>FSM.Apply\<close> turns committed commands into mutations of a go-memdb database, \<open>Snapshot\<close> and
  \<open>Restore\<close> carry its content. go-memdb is a record of operations \<open>memdb\<close> over an abstract
  database type, with its documented behaviour the locale \<open>memdb_laws\<close>: over the tables of the
  schema the database is a map from keys to entries, an insert without a key fails, iteration
  visits every entry of a table once. The interface values it stores are the four entry
  structs of the program, one constructor each. A nil byte slice is the empty string, which is
  what decoding a command leaves in \<open>Data\<close>. The text of a command and of the snapshot's
  envelope is encoding/json's own round trip; what it does to the entry data inside a snapshot
  is \<open>json_compact\<close>.
\<close>

subsection \<open>Entries and the database\<close>

datatype entry =
    FsmEntry string string string
  | KvFsmEntry string string string gotime
  | MemdbEntry string string string
  | KvEntry string string string gotime

fun en_key :: "entry \<Rightarrow> string" where
  "en_key (FsmEntry k n d) = k"
| "en_key (KvFsmEntry k n d x) = k"
| "en_key (MemdbEntry k n d) = k"
| "en_key (KvEntry k n d x) = k"

fun en_ns :: "entry \<Rightarrow> string" where
  "en_ns (FsmEntry k n d) = n"
| "en_ns (KvFsmEntry k n d x) = n"
| "en_ns (MemdbEntry k n d) = n"
| "en_ns (KvEntry k n d x) = n"

fun en_data :: "entry \<Rightarrow> string" where
  "en_data (FsmEntry k n d) = d"
| "en_data (KvFsmEntry k n d x) = d"
| "en_data (MemdbEntry k n d) = d"
| "en_data (KvEntry k n d x) = d"

fun en_expires :: "entry \<Rightarrow> gotime" where
  "en_expires (FsmEntry k n d) = zero_time"
| "en_expires (KvFsmEntry k n d x) = x"
| "en_expires (MemdbEntry k n d) = zero_time"
| "en_expires (KvEntry k n d x) = x"

text \<open>Each operation fails with \<open>None\<close>. \<open>md_all\<close> is the iteration over the primary index,
  \<open>md_by_ns\<close> the one over the namespace index, which every table but the key-value one has.\<close>

record 'db memdb =
  md_first :: "'db \<Rightarrow> string \<Rightarrow> string \<Rightarrow> entry option option"
  md_insert :: "'db \<Rightarrow> string \<Rightarrow> entry \<Rightarrow> 'db option"
  md_delete :: "'db \<Rightarrow> string \<Rightarrow> entry \<Rightarrow> 'db option"
  md_all :: "'db \<Rightarrow> string \<Rightarrow> entry list option"
  md_by_ns :: "'db \<Rightarrow> string \<Rightarrow> string \<Rightarrow> entry list option"

type_synonym view = "string \<Rightarrow> string \<rightharpoonup> entry"

definition view_put :: "string \<Rightarrow> entry \<Rightarrow> view \<Rightarrow> view" where
  "view_put t e v = v(t := (v t)(en_key e \<mapsto> e))"

definition view_drop :: "string \<Rightarrow> string \<Rightarrow> view \<Rightarrow> view" where
  "view_drop t k v = v(t := (v t)(k := None))"

locale memdb_laws =
  fixes md :: "'db memdb" and tables :: "string set" and view :: "'db \<Rightarrow> string \<Rightarrow> string \<Rightarrow> entry option"
  assumes first: "t \<in> tables \<Longrightarrow> md_first md db t k = Some (view db t k)"
    and keyed: "view db t k = Some e \<Longrightarrow> en_key e = k"
    and no_empty_key: "view db t [] = None"
    and insert: "t \<in> tables \<Longrightarrow> en_key e \<noteq> [] \<Longrightarrow>
      \<exists>db'. md_insert md db t e = Some db' \<and> view db' = view_put t e (view db)"
    and insert_no_key: "en_key e = [] \<Longrightarrow> md_insert md db t e = None"
    and delete: "t \<in> tables \<Longrightarrow> view db t (en_key e) = Some e \<Longrightarrow>
      \<exists>db'. md_delete md db t e = Some db' \<and> view db' = view_drop t (en_key e) (view db)"
    and all: "t \<in> tables \<Longrightarrow> \<exists>es. md_all md db t = Some es \<and> distinct (map en_key es) \<and> set es = ran (view db t)"
    and by_ns: "t \<in> tables \<Longrightarrow> t \<noteq> ''_kv'' \<Longrightarrow> n \<noteq> [] \<Longrightarrow>
      md_by_ns md db t n = map_option (filter (\<lambda>e. en_ns e = n)) (md_all md db t)"

subsection \<open>Commands and Apply\<close>

datatype command_type = CmdCreate | CmdUpdate | CmdDelete | CmdOther "8 word"

record command =
  cmd_type :: command_type
  cmd_table :: string
  cmd_key :: string
  cmd_namespace :: string
  cmd_data :: string

definition command_name :: "(8 word \<Rightarrow> string) \<Rightarrow> command_type \<Rightarrow> string" where
  "command_name fmt c =
     (case c of CmdCreate \<Rightarrow> ''Create'' | CmdUpdate \<Rightarrow> ''Update'' | CmdDelete \<Rightarrow> ''Delete''
      | CmdOther n \<Rightarrow> ''Unknown('' @ fmt n @ '')'')"

datatype fsm_error =
    DecodeFailed | UnknownType "8 word" | LookupFailed | Conflict string | InsertFailed string | DeleteFailed

definition make_entry :: "command \<Rightarrow> entry" where
  "make_entry c =
     (if cmd_table c = ''_kv'' then KvFsmEntry (cmd_key c) [] (cmd_data c) zero_time
      else FsmEntry (cmd_key c) (cmd_namespace c) (cmd_data c))"

definition fsm_create :: "'db memdb \<Rightarrow> command \<Rightarrow> 'db \<Rightarrow> 'db \<times> fsm_error option" where
  "fsm_create md c db =
     (case md_first md db (cmd_table c) (cmd_key c) of
        None \<Rightarrow> (db, Some LookupFailed)
      | Some (Some _) \<Rightarrow> (db, Some (Conflict (cmd_key c)))
      | Some None \<Rightarrow>
          (case md_insert md db (cmd_table c) (make_entry c) of
             None \<Rightarrow> (db, Some (InsertFailed (cmd_key c)))
           | Some db' \<Rightarrow> (db', None)))"

definition fsm_update :: "'db memdb \<Rightarrow> command \<Rightarrow> 'db \<Rightarrow> 'db \<times> fsm_error option" where
  "fsm_update md c db =
     (case md_insert md db (cmd_table c) (make_entry c) of
        None \<Rightarrow> (db, Some (InsertFailed (cmd_key c)))
      | Some db' \<Rightarrow> (db', None))"

definition fsm_delete :: "'db memdb \<Rightarrow> command \<Rightarrow> 'db \<Rightarrow> 'db \<times> fsm_error option" where
  "fsm_delete md c db =
     (case md_first md db (cmd_table c) (cmd_key c) of
        None \<Rightarrow> (db, Some LookupFailed)
      | Some None \<Rightarrow> (db, None)
      | Some (Some e) \<Rightarrow>
          (case md_delete md db (cmd_table c) e of
             None \<Rightarrow> (db, Some DeleteFailed)
           | Some db' \<Rightarrow> (db', None)))"

text \<open>A log entry is the decoded command, or nothing when its bytes do not decode.\<close>

definition fsm_apply :: "'db memdb \<Rightarrow> command option \<Rightarrow> 'db \<Rightarrow> 'db \<times> fsm_error option" where
  "fsm_apply md log db =
     (case log of
        None \<Rightarrow> (db, Some DecodeFailed)
      | Some c \<Rightarrow>
          (case cmd_type c of
             CmdCreate \<Rightarrow> fsm_create md c db
           | CmdUpdate \<Rightarrow> fsm_update md c db
           | CmdDelete \<Rightarrow> fsm_delete md c db
           | CmdOther n \<Rightarrow> (db, Some (UnknownType n))))"

fun fsm_replay :: "'db memdb \<Rightarrow> command option list \<Rightarrow> 'db \<Rightarrow> 'db" where
  "fsm_replay md [] db = db"
| "fsm_replay md (l # ls) db = fsm_replay md ls (fst (fsm_apply md l db))"

subsection \<open>Snapshot, persist, restore\<close>

record snap_entry =
  se_table :: string
  se_key :: string
  se_namespace :: string
  se_data :: string

text \<open>The default branch goes through the JSON form of the struct: the data is a base64 string
  literal (\<open>null\<close> when nil) and the namespace and expiry are dropped.\<close>

definition json_bytes :: "string \<Rightarrow> string" where
  "json_bytes d = (if d = [] then ''null'' else dquote # base64_bytes d @ [dquote])"

fun snap_of :: "string \<Rightarrow> entry \<Rightarrow> snap_entry" where
  "snap_of t (FsmEntry k n d) = \<lparr>se_table = t, se_key = k, se_namespace = n, se_data = d\<rparr>"
| "snap_of t (KvFsmEntry k n d x) = \<lparr>se_table = t, se_key = k, se_namespace = [], se_data = d\<rparr>"
| "snap_of t (MemdbEntry k n d) = \<lparr>se_table = t, se_key = k, se_namespace = [], se_data = json_bytes d\<rparr>"
| "snap_of t (KvEntry k n d x) = \<lparr>se_table = t, se_key = k, se_namespace = [], se_data = json_bytes d\<rparr>"

fun fsm_snapshot :: "'db memdb \<Rightarrow> string list \<Rightarrow> 'db \<Rightarrow> snap_entry list option" where
  "fsm_snapshot md [] db = Some []"
| "fsm_snapshot md (t # ts) db =
     (case md_all md db t of
        None \<Rightarrow> None
      | Some es \<Rightarrow> map_option (\<lambda>rest. map (snap_of t) es @ rest) (fsm_snapshot md ts db))"

definition persist_data :: "string \<Rightarrow> string option" where
  "persist_data d = (if d = [] then Some ''null'' else json_compact d)"

fun fsm_persist :: "snap_entry list \<Rightarrow> snap_entry list option" where
  "fsm_persist [] = Some []"
| "fsm_persist (s # ss) =
     (case persist_data (se_data s) of
        None \<Rightarrow> None
      | Some d \<Rightarrow> map_option (\<lambda>rest. s\<lparr>se_data := d\<rparr> # rest) (fsm_persist ss))"

definition restored_entry :: "snap_entry \<Rightarrow> entry" where
  "restored_entry s =
     (if se_table s = ''_kv'' then KvFsmEntry (se_key s) [] (se_data s) zero_time
      else FsmEntry (se_key s) (se_namespace s) (se_data s))"

fun restore_entries :: "'db memdb \<Rightarrow> snap_entry list \<Rightarrow> 'db \<Rightarrow> 'db option" where
  "restore_entries md [] db = Some db"
| "restore_entries md (s # ss) db =
     (case md_insert md db (se_table s) (restored_entry s) of
        None \<Rightarrow> None
      | Some db' \<Rightarrow> restore_entries md ss db')"

definition fsm_restore :: "'db memdb \<Rightarrow> snap_entry list option \<Rightarrow> 'db \<Rightarrow> 'db \<times> fsm_error option" where
  "fsm_restore md snap db =
     (case snap of
        None \<Rightarrow> (db, Some DecodeFailed)
      | Some ss \<Rightarrow>
          (case restore_entries md ss db of
             None \<Rightarrow> (db, Some (InsertFailed []))
           | Some db' \<Rightarrow> (db', None)))"

subsection \<open>The map the state machine implements\<close>

definition spec_apply :: "command \<Rightarrow> view \<Rightarrow> view \<times> fsm_error option" where
  "spec_apply c v =
     (case cmd_type c of
        CmdCreate \<Rightarrow>
          if v (cmd_table c) (cmd_key c) \<noteq> None then (v, Some (Conflict (cmd_key c)))
          else if cmd_key c = [] then (v, Some (InsertFailed []))
          else (view_put (cmd_table c) (make_entry c) v, None)
      | CmdUpdate \<Rightarrow>
          if cmd_key c = [] then (v, Some (InsertFailed []))
          else (view_put (cmd_table c) (make_entry c) v, None)
      | CmdDelete \<Rightarrow> (view_drop (cmd_table c) (cmd_key c) v, None)
      | CmdOther n \<Rightarrow> (v, Some (UnknownType n)))"

lemma en_key_make [simp]: "en_key (make_entry c) = cmd_key c"
  by (simp add: make_entry_def)

lemma en_key_restored [simp]: "en_key (restored_entry s) = se_key s"
  by (simp add: restored_entry_def)

lemma view_drop_absent: "v t k = None \<Longrightarrow> view_drop t k v = v"
  by (simp add: view_drop_def fun_upd_idem)

lemma view_put_at: "view_put t e v t' k' = (if t' = t \<and> k' = en_key e then Some e else v t' k')"
  by (auto simp: view_put_def)

context memdb_laws
begin

lemma insert_cases:
  assumes "t \<in> tables"
  shows "(en_key e = [] \<and> md_insert md db t e = None) \<or>
    (en_key e \<noteq> [] \<and> (\<exists>db'. md_insert md db t e = Some db' \<and> view db' = view_put t e (view db)))"
  using insert [OF assms] insert_no_key by blast

lemma fsm_apply_spec:
  assumes "cmd_table c \<in> tables"
  shows "view (fst (fsm_apply md (Some c) db)) = fst (spec_apply c (view db)) \<and>
    snd (fsm_apply md (Some c) db) = snd (spec_apply c (view db))"
proof (cases "cmd_type c")
  case CmdCreate
  show ?thesis
  proof (cases "view db (cmd_table c) (cmd_key c)")
    case None
    then show ?thesis
      using CmdCreate first [OF assms] insert_cases [OF assms, of "make_entry c" db]
      by (auto simp: fsm_apply_def fsm_create_def spec_apply_def)
  next
    case (Some e)
    then show ?thesis using CmdCreate first [OF assms]
      by (simp add: fsm_apply_def fsm_create_def spec_apply_def)
  qed
next
  case CmdUpdate
  then show ?thesis
    using insert_cases [OF assms, of "make_entry c" db]
    by (auto simp: fsm_apply_def fsm_update_def spec_apply_def)
next
  case CmdDelete
  show ?thesis
  proof (cases "view db (cmd_table c) (cmd_key c)")
    case None
    then show ?thesis using CmdDelete first [OF assms]
      by (simp add: fsm_apply_def fsm_delete_def spec_apply_def view_drop_absent)
  next
    case (Some e)
    then have "en_key e = cmd_key c" by (rule keyed)
    then show ?thesis
      using CmdDelete first [OF assms] delete [OF assms, of db e] Some
      by (auto simp: fsm_apply_def fsm_delete_def spec_apply_def)
  qed
next
  case (CmdOther n)
  then show ?thesis by (simp add: fsm_apply_def spec_apply_def)
qed

text \<open>Restoring inserts into whatever the database holds.\<close>

lemma restore_entries_view:
  "se_table ` set ss \<subseteq> tables \<Longrightarrow> [] \<notin> se_key ` set ss \<Longrightarrow>
   \<exists>db'. restore_entries md ss db = Some db' \<and>
     view db' = foldl (\<lambda>v s. view_put (se_table s) (restored_entry s) v) (view db) ss"
proof (induction ss arbitrary: db)
  case (Cons s ss)
  obtain db1 where "md_insert md db (se_table s) (restored_entry s) = Some db1"
    "view db1 = view_put (se_table s) (restored_entry s) (view db)"
    using Cons.prems insert [of "se_table s" "restored_entry s" db] by auto
  moreover obtain db' where "restore_entries md ss db1 = Some db'"
    "view db' = foldl (\<lambda>v s. view_put (se_table s) (restored_entry s) v) (view db1) ss"
    using Cons.IH [of db1] Cons.prems by auto
  ultimately show ?case by auto
qed simp

lemma snapshot_entries:
  "set ts \<subseteq> tables \<Longrightarrow> \<exists>ss. fsm_snapshot md ts db = Some ss \<and>
     set ss = {snap_of t e | t k e. t \<in> set ts \<and> view db t k = Some e}"
proof (induction ts)
  case (Cons t ts)
  obtain es where es: "md_all md db t = Some es" "set es = ran (view db t)"
    using all [of t db] Cons.prems by auto
  obtain ss where "fsm_snapshot md ts db = Some ss"
    "set ss = {snap_of t e | t k e. t \<in> set ts \<and> view db t k = Some e}"
    using Cons by auto
  then show ?case using es by (auto simp: ran_def)
qed simp

end

lemma foldl_put_absent:
  "(t, k) \<notin> (\<lambda>s. (se_table s, se_key s)) ` set ss \<Longrightarrow>
   foldl (\<lambda>v s. view_put (se_table s) (restored_entry s) v) v ss t k = v t k"
  by (induction ss arbitrary: v) (auto simp: view_put_at)

lemma foldl_put_agree:
  assumes "\<forall>s \<in> set ss. se_table s = t \<and> se_key s = k \<longrightarrow> restored_entry s = e"
  shows "v t k = Some e \<or> (t, k) \<in> (\<lambda>s. (se_table s, se_key s)) ` set ss \<Longrightarrow>
    foldl (\<lambda>v s. view_put (se_table s) (restored_entry s) v) v ss t k = Some e"
  using assms
proof (induction ss arbitrary: v)
  case (Cons s ss)
  then show ?case by (cases "se_table s = t \<and> se_key s = k") (auto simp: view_put_at)
qed simp

lemma fsm_persist_Some:
  "fsm_persist ss = Some ps \<longleftrightarrow>
   list_all2 (\<lambda>s p. \<exists>d. persist_data (se_data s) = Some d \<and> p = s\<lparr>se_data := d\<rparr>) ss ps"
proof (induction ss arbitrary: ps)
  case (Cons s ss)
  then show ?case by (cases ps) (auto split: option.splits)
qed auto

lemma fsm_persist_None: "fsm_persist ss = None \<longleftrightarrow> (\<exists>s \<in> set ss. persist_data (se_data s) = None)"
  by (induction ss) (auto split: option.splits)

text \<open>What an entry becomes on its way through a persisted snapshot.\<close>

definition revive :: "string \<Rightarrow> entry \<Rightarrow> entry" where
  "revive t e = restored_entry ((snap_of t e)\<lparr>se_data := the (persist_data (se_data (snap_of t e)))\<rparr>)"

lemma snap_of_sel [simp]: "se_table (snap_of t e) = t" "se_key (snap_of t e) = en_key e"
  by (cases e; simp)+

lemma fsm_persist_set:
  assumes "fsm_persist ss = Some ps"
  shows "set ps = (\<lambda>s. s\<lparr>se_data := the (persist_data (se_data s))\<rparr>) ` set ss"
proof -
  have "ps = map (\<lambda>s. s\<lparr>se_data := the (persist_data (se_data s))\<rparr>) ss"
    using assms by (induction ss arbitrary: ps) (auto split: option.splits)
  then show ?thesis by simp
qed

text \<open>Entries the state machine itself writes whose data a snapshot keeps as it is.\<close>

fun clean_entry :: "string \<Rightarrow> entry \<Rightarrow> bool" where
  "clean_entry t (FsmEntry k n d) = (t \<noteq> ''_kv'' \<and> d \<noteq> [] \<and> json_compact d = Some d)"
| "clean_entry t (KvFsmEntry k n d x) = (t = ''_kv'' \<and> n = [] \<and> x = zero_time \<and> d \<noteq> [] \<and> json_compact d = Some d)"
| "clean_entry t e = False"

lemma revive_clean: "clean_entry t e \<Longrightarrow> revive t e = e"
  by (cases e) (simp_all add: revive_def restored_entry_def persist_data_def)

context memdb_laws
begin

text \<open>Restoring is a union in which the snapshot wins.\<close>

lemma restore_union:
  assumes ts: "set ts \<subseteq> tables"
    and snap: "fsm_snapshot md ts db = Some ss" and per: "fsm_persist ss = Some ps"
  shows "\<exists>db'. fsm_restore md (Some ps) db0 = (db', None) \<and>
    (\<forall>t \<in> set ts. \<forall>k. view db' t k = (case view db t k of None \<Rightarrow> view db0 t k | Some e \<Rightarrow> Some (revive t e)))"
proof -
  have ss: "set ss = {snap_of t e | t k e. t \<in> set ts \<and> view db t k = Some e}"
    using snapshot_entries [OF ts, of db] snap by auto
  have ps: "set ps = {(snap_of t e)\<lparr>se_data := the (persist_data (se_data (snap_of t e)))\<rparr> | t k e.
      t \<in> set ts \<and> view db t k = Some e}"
    unfolding fsm_persist_set [OF per] ss by auto
  have "se_table ` set ps \<subseteq> tables" using ts ps by auto
  moreover have "[] \<notin> se_key ` set ps"
  proof
    assume "[] \<in> se_key ` set ps"
    then obtain t k e where "view db t k = Some e" "en_key e = []"
      using ps by auto
    then show False using keyed [of db t k e] no_empty_key [of db t] by simp
  qed
  ultimately obtain db' where db': "restore_entries md ps db0 = Some db'"
    "view db' = foldl (\<lambda>v s. view_put (se_table s) (restored_entry s) v) (view db0) ps"
    using restore_entries_view by blast
  have "view db' t k = (case view db t k of None \<Rightarrow> view db0 t k | Some e \<Rightarrow> Some (revive t e))"
    if "t \<in> set ts" for t k
  proof (cases "view db t k")
    case None
    then have "(t, k) \<notin> (\<lambda>s. (se_table s, se_key s)) ` set ps"
      using ps keyed by auto
    then show ?thesis by (simp add: db'(2) foldl_put_absent None)
  next
    case (Some e)
    have "\<forall>s \<in> set ps. se_table s = t \<and> se_key s = k \<longrightarrow> restored_entry s = revive t e"
    proof (intro ballI impI)
      fix s assume "s \<in> set ps" and at: "se_table s = t \<and> se_key s = k"
      then obtain t' k' e' where s: "s = (snap_of t' e')\<lparr>se_data := the (persist_data (se_data (snap_of t' e')))\<rparr>"
        "view db t' k' = Some e'" using ps by auto
      then have "t' = t" "k' = k" using at keyed by auto
      then show "restored_entry s = revive t e" using s Some by (simp add: revive_def)
    qed
    moreover have "(t, k) \<in> (\<lambda>s. (se_table s, se_key s)) ` set ps"
    proof -
      have "(snap_of t e)\<lparr>se_data := the (persist_data (se_data (snap_of t e)))\<rparr> \<in> set ps"
        using ps that Some by blast
      then show ?thesis using keyed [OF Some] by (force simp: image_iff)
    qed
    ultimately show ?thesis using foldl_put_agree [of ps t k "revive t e" "view db0"] Some by (simp add: db'(2))
  qed
  then show ?thesis using db'(1) by (auto simp: fsm_restore_def)
qed

end

subsection \<open>A reference database\<close>

text \<open>Lists of entries per table, the first entry of a key being the current one.\<close>

fun norm_entries :: "entry list \<Rightarrow> entry list" where
  "norm_entries [] = []"
| "norm_entries (e # es) = e # filter (\<lambda>x. en_key x \<noteq> en_key e) (norm_entries es)"

definition ref_view :: "(string \<Rightarrow> entry list) \<Rightarrow> string \<Rightarrow> string \<Rightarrow> entry option" where
  "ref_view db t k = (if k = [] then None else List.find (\<lambda>e. en_key e = k) (db t))"

definition ref_db :: "string list \<Rightarrow> (string \<Rightarrow> entry list) memdb" where
  "ref_db ts = \<lparr>
     md_first = (\<lambda>db t k. if t \<in> set ts then Some (ref_view db t k) else None),
     md_insert = (\<lambda>db t e. if t \<in> set ts \<and> en_key e \<noteq> [] then Some (db(t := e # db t)) else None),
     md_delete = (\<lambda>db t e. if t \<in> set ts \<and> ref_view db t (en_key e) \<noteq> None
        then Some (db(t := filter (\<lambda>x. en_key x \<noteq> en_key e) (db t))) else None),
     md_all = (\<lambda>db t. if t \<in> set ts then Some (filter (\<lambda>e. en_key e \<noteq> []) (norm_entries (db t))) else None),
     md_by_ns = (\<lambda>db t n. if t \<in> set ts \<and> t \<noteq> ''_kv''
        then Some (filter (\<lambda>e. en_ns e = n) (filter (\<lambda>e. en_key e \<noteq> []) (norm_entries (db t)))) else None)\<rparr>"

lemma find_filter_other: "j \<noteq> k \<Longrightarrow>
  List.find (\<lambda>e. en_key e = k) (filter (\<lambda>x. en_key x \<noteq> j) es) = List.find (\<lambda>e. en_key e = k) es"
  by (induction es) auto

lemma find_filter_same: "List.find (\<lambda>e. en_key e = k) (filter (\<lambda>x. en_key x \<noteq> k) es) = None"
  by (induction es) auto

lemma norm_entries_find: "e \<in> set (norm_entries es) \<longleftrightarrow> List.find (\<lambda>x. en_key x = en_key e) es = Some e"
  by (induction es) auto

lemma distinct_norm: "distinct (map en_key (norm_entries es))"
  by (induction es) (auto simp: distinct_map_filter_id)

lemma find_key_eq: "List.find (\<lambda>x. en_key x = k) es = Some e \<Longrightarrow> en_key e = k"
  by (induction es) (auto split: if_splits)

interpretation ref: memdb_laws "ref_db ts" "set ts" ref_view for ts
proof (unfold_locales, goal_cases)
  case (1 t db k) then show ?case by (simp add: ref_db_def)
next
  case (2 db t k e) then show ?case by (auto simp: ref_view_def dest: find_key_eq split: if_splits)
next
  case (3 db t) then show ?case by (simp add: ref_view_def)
next
  case (4 t e db)
  have "ref_view (db(t := e # db t)) = view_put t e (ref_view db)"
    using 4 by (auto simp: ref_view_def view_put_def fun_eq_iff)
  then show ?case using 4 by (simp add: ref_db_def)
next
  case (5 e db t) then show ?case by (simp add: ref_db_def)
next
  case (6 t db e)
  have "ref_view (db(t := filter (\<lambda>x. en_key x \<noteq> en_key e) (db t))) = view_drop t (en_key e) (ref_view db)"
    by (auto simp: ref_view_def view_drop_def fun_eq_iff find_filter_other find_filter_same)
  then show ?case using 6 by (simp add: ref_db_def)
next
  case (7 t db)
  then show ?case
    by (auto simp: ref_db_def distinct_map_filter_id distinct_norm norm_entries_find ran_def ref_view_def
        dest: find_key_eq split: if_splits)
next
  case (8 t n db)
  then show ?case by (simp add: ref_db_def)
qed

subsection \<open>Properties\<close>

definition sample_command :: "command_type \<Rightarrow> string \<Rightarrow> string \<Rightarrow> command" where
  "sample_command ty t d = \<lparr>cmd_type = ty, cmd_table = t, cmd_key = ''k'', cmd_namespace = ''ns'', cmd_data = d\<rparr>"

abbreviation sample_tables :: "string list" where
  "sample_tables \<equiv> [''_kv'', ''pods'']"

abbreviation sample_ref :: "(string \<Rightarrow> entry list) memdb" where
  "sample_ref \<equiv> ref_db sample_tables"

text \<open>C4. The state machine is a map: replaying any log of commands on registered tables, undecodable
  entries and unknown types included, leaves exactly the map from tables and keys to entries
  that create-if-absent, overwrite and delete give, so replicas with equal content stay equal.\<close>

theorem fsm_replay_refines_map:
  assumes "memdb_laws md tables view" "\<And>c. Some c \<in> set ls \<Longrightarrow> cmd_table c \<in> tables"
  shows "view (fsm_replay md ls db) =
    foldl (\<lambda>v l. case l of None \<Rightarrow> v | Some c \<Rightarrow> fst (spec_apply c v)) (view db) ls"
  using assms(2)
proof (induction ls arbitrary: db)
  case (Cons l ls)
  have "view (fst (fsm_apply md l db)) = (case l of None \<Rightarrow> view db | Some c \<Rightarrow> fst (spec_apply c (view db)))"
    using memdb_laws.fsm_apply_spec [OF assms(1)] Cons.prems by (cases l) (auto simp: fsm_apply_def)
  then show ?case using Cons by simp
qed simp

lemma fsm_replay_refines_map_witness:
  "ref_view (fsm_replay sample_ref [Some (sample_command CmdCreate ''pods'' ''{}''), None, Some (sample_command CmdDelete ''pods'' [])] (\<lambda>_. []))
    ''pods'' ''k'' = None"
  by (subst fsm_replay_refines_map [OF ref.memdb_laws_axioms [of sample_tables]])
    (auto simp: sample_command_def spec_apply_def view_drop_def view_put_def ref_view_def make_entry_def)

text \<open>C5. Snapshot and restore round trip: when every entry is one the state machine wrote and its data
  is compact JSON, the persisted snapshot restored into a database without entries in the
  snapshot's tables gives back the same content.\<close>

theorem snapshot_restore_roundtrip:
  assumes "memdb_laws md tables view" "set ts \<subseteq> tables"
    and "\<And>t k e. t \<in> set ts \<Longrightarrow> view db t k = Some e \<Longrightarrow> clean_entry t e"
    and "\<And>t. t \<in> set ts \<Longrightarrow> view db0 t = Map.empty"
  shows "\<exists>ss ps db'. fsm_snapshot md ts db = Some ss \<and> fsm_persist ss = Some ps \<and>
    fsm_restore md (Some ps) db0 = (db', None) \<and> (\<forall>t \<in> set ts. view db' t = view db t)"
proof -
  obtain ss where ss: "fsm_snapshot md ts db = Some ss"
    "set ss = {snap_of t e | t k e. t \<in> set ts \<and> view db t k = Some e}"
    using memdb_laws.snapshot_entries [OF assms(1,2)] by blast
  have "persist_data (se_data (snap_of t e)) \<noteq> None" if "clean_entry t e" for t e
    using that by (cases e) (auto simp: persist_data_def)
  then have "fsm_persist ss \<noteq> None" using ss(2) assms(3) by (auto simp: fsm_persist_None)
  then obtain ps where ps: "fsm_persist ss = Some ps" by blast
  obtain db' where db': "fsm_restore md (Some ps) db0 = (db', None)"
    "\<And>t k. t \<in> set ts \<Longrightarrow> view db' t k = (case view db t k of None \<Rightarrow> view db0 t k | Some e \<Rightarrow> Some (revive t e))"
    using memdb_laws.restore_union [OF assms(1,2) ss(1) ps] by blast
  have "view db' t k = view db t k" if "t \<in> set ts" for t k
    using db'(2) [OF that] assms(3,4) [OF that] revive_clean by (auto split: option.split)
  then show ?thesis using ss(1) ps db'(1) by blast
qed

lemma snapshot_restore_roundtrip_witness:
  "\<exists>ss ps db'. fsm_snapshot sample_ref sample_tables (\<lambda>t. if t = ''pods'' then [FsmEntry ''k'' ''ns'' ''{}''] else []) = Some ss \<and>
    fsm_persist ss = Some ps \<and> fsm_restore sample_ref (Some ps) (\<lambda>_. []) = (db', None) \<and>
    ref_view db' ''pods'' ''k'' = Some (FsmEntry ''k'' ''ns'' ''{}'')"
proof -
  have clean: "json_compact ''{}'' = Some ''{}''" by code_simp
  let ?db = "\<lambda>t. if t = ''pods'' then [FsmEntry ''k'' ''ns'' ''{}''] else []"
  have "\<exists>ss ps db'. fsm_snapshot sample_ref sample_tables ?db = Some ss \<and> fsm_persist ss = Some ps \<and>
    fsm_restore sample_ref (Some ps) (\<lambda>_. []) = (db', None) \<and>
    (\<forall>t \<in> set sample_tables. ref_view db' t = ref_view ?db t)"
    by (rule snapshot_restore_roundtrip [OF ref.memdb_laws_axioms [of sample_tables]])
      (auto simp: ref_view_def clean fun_eq_iff split: if_splits)
  moreover have "ref_view ?db ''pods'' ''k'' = Some (FsmEntry ''k'' ''ns'' ''{}'')" by (simp add: ref_view_def)
  ultimately show ?thesis by (metis list.set_intros)
qed

text \<open>Restore does not replace the state: an entry that the snapshot's source does not have but the
  restoring replica does is still there afterwards.\<close>

theorem restore_keeps_stale_entries:
  assumes "memdb_laws md tables view" "set ts \<subseteq> tables" "fsm_snapshot md ts db = Some ss" "fsm_persist ss = Some ps"
    and "t \<in> set ts" "view db t k = None" "view db0 t k = Some e"
  shows "\<exists>db'. fsm_restore md (Some ps) db0 = (db', None) \<and> view db' t k = Some e"
  using memdb_laws.restore_union [OF assms(1-4), of db0] assms(5-7) by auto

lemma restore_keeps_stale_entries_witness:
  "\<exists>db'. fsm_restore sample_ref (Some []) (\<lambda>t. if t = ''pods'' then [FsmEntry ''k'' ''ns'' ''{}''] else []) = (db', None) \<and>
    ref_view db' ''pods'' ''k'' = Some (FsmEntry ''k'' ''ns'' ''{}'')"
  by (rule restore_keeps_stale_entries [OF ref.memdb_laws_axioms [of sample_tables], of sample_tables "\<lambda>_. []" "[]"])
    (simp_all add: ref_db_def ref_view_def)

text \<open>One value that is not JSON blocks every snapshot: persisting fails exactly when some entry of
  a registered table, written through the log, has non-empty data that is not a JSON text, which
  the key-value table stores freely.\<close>

theorem persist_fails_on_plain_text:
  assumes "memdb_laws md tables view" "set ts \<subseteq> tables"
    and "\<And>t k e. t \<in> set ts \<Longrightarrow> view db t k = Some e \<Longrightarrow> \<exists>c. e = make_entry c"
  shows "\<exists>ss. fsm_snapshot md ts db = Some ss \<and>
    (fsm_persist ss = None \<longleftrightarrow>
      (\<exists>t k e. t \<in> set ts \<and> view db t k = Some e \<and> en_data e \<noteq> [] \<and> json_compact (en_data e) = None))"
proof -
  obtain ss where ss: "fsm_snapshot md ts db = Some ss"
    "set ss = {snap_of t e | t k e. t \<in> set ts \<and> view db t k = Some e}"
    using memdb_laws.snapshot_entries [OF assms(1,2)] by blast
  have data: "se_data (snap_of t e) = en_data e" if "t \<in> set ts" "view db t k = Some e" for t k e
    using assms(3) [OF that] by (auto simp: make_entry_def)
  have "fsm_persist ss = None \<longleftrightarrow> (\<exists>t k e. t \<in> set ts \<and> view db t k = Some e \<and> persist_data (se_data (snap_of t e)) = None)"
    unfolding fsm_persist_None ss(2) by blast
  also have "\<dots> \<longleftrightarrow> (\<exists>t k e. t \<in> set ts \<and> view db t k = Some e \<and> en_data e \<noteq> [] \<and> json_compact (en_data e) = None)"
    using data by (metis persist_data_def option.distinct(1))
  finally show ?thesis using ss(1) by (intro exI [of _ ss] conjI)
qed

lemma persist_fails_on_plain_text_witness:
  "\<exists>ss. fsm_snapshot sample_ref sample_tables (\<lambda>t. if t = ''_kv'' then [KvFsmEntry ''k'' [] ''hello'' zero_time] else []) = Some ss \<and>
    fsm_persist ss = None"
proof -
  have plain: "json_compact ''hello'' = None" by code_simp
  have made: "KvFsmEntry ''k'' [] ''hello'' zero_time = make_entry (sample_command CmdUpdate ''_kv'' ''hello'')"
    by (simp add: make_entry_def sample_command_def)
  let ?db = "\<lambda>t. if t = ''_kv'' then [KvFsmEntry ''k'' [] ''hello'' zero_time] else []"
  have "\<exists>ss. fsm_snapshot sample_ref sample_tables ?db = Some ss \<and>
    (fsm_persist ss = None \<longleftrightarrow>
      (\<exists>t k e. t \<in> set sample_tables \<and> ref_view ?db t k = Some e \<and> en_data e \<noteq> [] \<and> json_compact (en_data e) = None))"
    by (rule persist_fails_on_plain_text [OF ref.memdb_laws_axioms [of sample_tables]])
      (auto simp: ref_view_def split: if_splits intro: made)
  moreover have "ref_view ?db ''_kv'' ''k'' = Some (KvFsmEntry ''k'' [] ''hello'' zero_time)" by (simp add: ref_view_def)
  ultimately show ?thesis using plain by (metis en_data.simps(2) list.set_intros(1) list.distinct(1))
qed

end
