(* ===== verification/Watch_Hub.thy ===== *)
theory Watch_Hub
  imports Prelude
begin

section \<open>Watch subscriptions (internal/platform/store: Watch, Close, emit)\<close>

text \<open>
  The fan-out of watch events that the stores share. A subscription is a channel with a buffer
  of 64 events; sending never blocks and drops the event when the buffer is full; sending on a
  closed channel, or closing one twice, panics. Channels are numbered in the order they are
  made. \<open>hub_cancel\<close> is the goroutine that waits for the context of a subscription, and exists
  only for subscriptions made before \<open>Close\<close>. \<open>emit\<close> copies the list of watchers under the
  mutex and sends without it, so \<open>hub_emit_to\<close> takes the copied list.
\<close>

datatype watch_type = WatchAdded | WatchModified | WatchDeleted

type_synonym 'r watch_event = "watch_type \<times> 'r"

record 'e channel =
  cn_buf :: "'e list"
  cn_closed :: bool

record 'e hub =
  hb_chan :: "nat \<Rightarrow> 'e channel"
  hb_next :: nat
  hb_watchers :: "nat list"
  hb_closed :: bool

definition new_hub :: "'e hub" where
  "new_hub = \<lparr>hb_chan = (\<lambda>_. \<lparr>cn_buf = [], cn_closed = False\<rparr>), hb_next = 0, hb_watchers = [], hb_closed = False\<rparr>"

abbreviation chan_cap :: nat where "chan_cap \<equiv> 64"

definition chan_send :: "'e \<Rightarrow> 'e channel \<Rightarrow> 'e channel option" where
  "chan_send e c =
     (if cn_closed c then None
      else if length (cn_buf c) < chan_cap then Some (c\<lparr>cn_buf := cn_buf c @ [e]\<rparr>) else Some c)"

definition chan_close :: "'e channel \<Rightarrow> 'e channel option" where
  "chan_close c = (if cn_closed c then None else Some (c\<lparr>cn_closed := True\<rparr>))"

definition hub_watch :: "'e hub \<Rightarrow> 'e hub \<times> nat" where
  "hub_watch h =
     (let i = hb_next h in
      if hb_closed h
      then (h\<lparr>hb_chan := (hb_chan h)(i := \<lparr>cn_buf = [], cn_closed = True\<rparr>), hb_next := Suc i\<rparr>, i)
      else (h\<lparr>hb_chan := (hb_chan h)(i := \<lparr>cn_buf = [], cn_closed = False\<rparr>), hb_next := Suc i,
              hb_watchers := hb_watchers h @ [i]\<rparr>, i))"

definition hub_cancel :: "nat \<Rightarrow> 'e hub \<Rightarrow> 'e hub option" where
  "hub_cancel i h =
     map_option (\<lambda>c. h\<lparr>hb_watchers := remove1 i (hb_watchers h), hb_chan := (hb_chan h)(i := c)\<rparr>)
       (chan_close (hb_chan h i))"

fun close_each :: "nat list \<Rightarrow> (nat \<Rightarrow> 'e channel) \<Rightarrow> (nat \<Rightarrow> 'e channel) option" where
  "close_each [] cs = Some cs"
| "close_each (i # is) cs = (case chan_close (cs i) of None \<Rightarrow> None | Some c \<Rightarrow> close_each is (cs(i := c)))"

definition hub_close :: "'e hub \<Rightarrow> 'e hub option" where
  "hub_close h =
     map_option (\<lambda>cs. h\<lparr>hb_closed := True, hb_watchers := [], hb_chan := cs\<rparr>)
       (close_each (hb_watchers h) (hb_chan h))"

fun send_each :: "nat list \<Rightarrow> 'e \<Rightarrow> (nat \<Rightarrow> 'e channel) \<Rightarrow> (nat \<Rightarrow> 'e channel) option" where
  "send_each [] e cs = Some cs"
| "send_each (i # is) e cs = (case chan_send e (cs i) of None \<Rightarrow> None | Some c \<Rightarrow> send_each is e (cs(i := c)))"

definition hub_emit_to :: "nat list \<Rightarrow> 'e \<Rightarrow> 'e hub \<Rightarrow> 'e hub option" where
  "hub_emit_to ws e h = map_option (\<lambda>cs. h\<lparr>hb_chan := cs\<rparr>) (send_each ws e (hb_chan h))"

definition hub_emit :: "'e \<Rightarrow> 'e hub \<Rightarrow> 'e hub option" where
  "hub_emit e h = hub_emit_to (hb_watchers h) e h"

text \<open>The subscriber takes the oldest buffered event.\<close>

definition hub_receive :: "nat \<Rightarrow> 'e hub \<Rightarrow> 'e hub \<times> 'e option" where
  "hub_receive i h =
     (case cn_buf (hb_chan h i) of
        [] \<Rightarrow> (h, None)
      | e # es \<Rightarrow> (h\<lparr>hb_chan := (hb_chan h)(i := (hb_chan h i)\<lparr>cn_buf := es\<rparr>)\<rparr>, Some e))"

fun hub_emits :: "'e list \<Rightarrow> 'e hub \<Rightarrow> 'e hub option" where
  "hub_emits [] h = Some h"
| "hub_emits (e # es) h = (case hub_emit e h of None \<Rightarrow> None | Some h' \<Rightarrow> hub_emits es h')"

subsection \<open>Invariant\<close>

text \<open>Registered watchers are distinct, were made, and are open.\<close>

definition hub_ok :: "'e hub \<Rightarrow> bool" where
  "hub_ok h \<longleftrightarrow> distinct (hb_watchers h) \<and> (\<forall>i \<in> set (hb_watchers h). i < hb_next h \<and> \<not> cn_closed (hb_chan h i)) \<and>
     (hb_closed h \<longrightarrow> hb_watchers h = [])"

lemma hub_ok_new: "hub_ok new_hub"
  by (simp add: hub_ok_def new_hub_def)

lemma hub_ok_watch: "hub_ok h \<Longrightarrow> hub_ok (fst (hub_watch h))"
  by (auto simp: hub_ok_def hub_watch_def Let_def)

lemma hub_ok_receive: "hub_ok h \<Longrightarrow> hub_ok (fst (hub_receive i h))"
  by (auto simp: hub_ok_def hub_receive_def split: list.split)

lemma hub_ok_cancel:
  assumes "hub_ok h" "i \<in> set (hb_watchers h)"
  obtains h' where "hub_cancel i h = Some h'" "hub_ok h'" "i \<notin> set (hb_watchers h')"
  using assms by (auto simp: hub_ok_def hub_cancel_def chan_close_def)

lemma close_each_open:
  "distinct ws \<Longrightarrow> (\<forall>i \<in> set ws. \<not> cn_closed (cs i)) \<Longrightarrow>
   close_each ws cs = Some (\<lambda>i. if i \<in> set ws then (cs i)\<lparr>cn_closed := True\<rparr> else cs i)"
proof (induction ws arbitrary: cs)
  case (Cons w ws)
  have "close_each ws (cs(w := (cs w)\<lparr>cn_closed := True\<rparr>)) = Some (\<lambda>i. if i \<in> set ws
    then ((cs(w := (cs w)\<lparr>cn_closed := True\<rparr>)) i)\<lparr>cn_closed := True\<rparr> else (cs(w := (cs w)\<lparr>cn_closed := True\<rparr>)) i)"
    using Cons.prems by (intro Cons.IH) auto
  then show ?case using Cons.prems by (auto simp: chan_close_def fun_eq_iff)
qed simp

text \<open>What a send leaves in an open channel.\<close>

definition push_event :: "'e \<Rightarrow> 'e channel \<Rightarrow> 'e channel" where
  "push_event e c = c\<lparr>cn_buf := take chan_cap (cn_buf c @ [e])\<rparr>"

lemma push_event_simps [simp]:
  "cn_closed (push_event e c) = cn_closed c" "cn_buf (push_event e c) = take chan_cap (cn_buf c @ [e])"
  by (simp_all add: push_event_def)

lemma push_event_bounded: "length (cn_buf (push_event e c)) \<le> chan_cap"
  unfolding push_event_simps length_take by (rule min.cobounded2)

lemma chan_send_open: "\<not> cn_closed c \<Longrightarrow> length (cn_buf c) \<le> chan_cap \<Longrightarrow> chan_send e c = Some (push_event e c)"
  by (cases "length (cn_buf c) < chan_cap") (simp_all add: chan_send_def push_event_def)

lemma send_each_open:
  "distinct ws \<Longrightarrow> (\<forall>i \<in> set ws. \<not> cn_closed (cs i) \<and> length (cn_buf (cs i)) \<le> chan_cap) \<Longrightarrow>
   send_each ws e cs = Some (\<lambda>i. if i \<in> set ws then push_event e (cs i) else cs i)"
proof (induction ws arbitrary: cs)
  case (Cons w ws)
  have "send_each ws e (cs(w := push_event e (cs w))) = Some (\<lambda>i. if i \<in> set ws
    then push_event e ((cs(w := push_event e (cs w))) i) else (cs(w := push_event e (cs w))) i)"
    using Cons.prems by (intro Cons.IH) auto
  then show ?case using Cons.prems by (auto simp: chan_send_open fun_eq_iff)
qed simp

definition hub_bounded :: "'e hub \<Rightarrow> bool" where
  "hub_bounded h \<longleftrightarrow> (\<forall>i. length (cn_buf (hb_chan h i)) \<le> chan_cap)"

lemma hub_emit_Some:
  assumes "hub_ok h" "hub_bounded h"
  obtains h' where "hub_emit e h = Some h'" "hub_ok h'" "hub_bounded h'" "hb_watchers h' = hb_watchers h"
    "hb_closed h' = hb_closed h"
    "\<And>i. hb_chan h' i = (if i \<in> set (hb_watchers h) then push_event e (hb_chan h i) else hb_chan h i)"
proof -
  define h' where "h' = h\<lparr>hb_chan := (\<lambda>i. if i \<in> set (hb_watchers h) then push_event e (hb_chan h i) else hb_chan h i)\<rparr>"
  have "hub_emit e h = Some h'"
    using assms send_each_open [of "hb_watchers h" "hb_chan h" e]
    by (simp add: hub_emit_def hub_emit_to_def hub_ok_def hub_bounded_def h'_def)
  moreover have "hub_ok h'" using assms(1) by (auto simp: h'_def hub_ok_def)
  moreover have "hub_bounded h'"
    using assms(2) push_event_bounded by (auto simp: h'_def hub_bounded_def simp del: push_event_simps)
  ultimately show thesis using that [of h'] by (simp add: h'_def)
qed

subsection \<open>Delivery and closing\<close>

text \<open>A watcher that does not read gets the first events up to the capacity of its channel.\<close>

lemma hub_emits_buffer:
  assumes "hub_ok h" "hub_bounded h" "i \<in> set (hb_watchers h)"
  shows "\<exists>h'. hub_emits es h = Some h' \<and> hub_ok h' \<and> hub_bounded h' \<and> hb_watchers h' = hb_watchers h \<and>
    cn_buf (hb_chan h' i) = take chan_cap (cn_buf (hb_chan h i) @ es)"
  using assms
proof (induction es arbitrary: h)
  case Nil
  then show ?case by (simp add: hub_bounded_def)
next
  case (Cons e es)
  obtain h1 where h1: "hub_emit e h = Some h1" "hub_ok h1" "hub_bounded h1" "hb_watchers h1 = hb_watchers h"
    "cn_buf (hb_chan h1 i) = take chan_cap (cn_buf (hb_chan h i) @ [e])"
    using hub_emit_Some [OF Cons.prems(1,2), of e] Cons.prems(3) push_event_simps(2) by metis
  obtain h' where "hub_emits es h1 = Some h'" "hub_ok h'" "hub_bounded h'" "hb_watchers h' = hb_watchers h"
    "cn_buf (hb_chan h' i) = take chan_cap (take chan_cap (cn_buf (hb_chan h i) @ [e]) @ es)"
    using Cons.IH [OF h1(2,3)] Cons.prems(3) h1(4,5) by auto
  moreover have "take chan_cap (take chan_cap (xs @ [e]) @ es) = take chan_cap (xs @ e # es)"
    if "length xs \<le> chan_cap" for xs :: "'a list"
    using that by (cases "length xs < chan_cap") auto
  ultimately show ?case using h1(1) Cons.prems(2) by (simp add: hub_bounded_def)
qed

lemma hub_close_ok:
  assumes "hub_ok h"
  obtains h' where "hub_close h = Some h'" "hub_ok h'" "hb_closed h'" "hb_watchers h' = []"
    "\<forall>i \<in> set (hb_watchers h). cn_closed (hb_chan h' i)"
  using assms by (auto simp: hub_close_def hub_ok_def close_each_open)

lemma send_closed: "i \<in> set ws \<Longrightarrow> cn_closed (cs i) \<Longrightarrow> send_each ws e cs = None"
proof (induction ws arbitrary: cs)
  case (Cons w ws)
  have "cn_closed ((cs(w := c)) i)" if "chan_send e (cs w) = Some c" for c
    using that Cons.prems(2) by (auto simp: chan_send_def split: if_splits)
  then show ?case using Cons by (auto simp: chan_send_def split: option.split if_splits)
qed simp

text \<open>A subscriber that reads slowly loses the latest events: whatever is published, its channel
  holds the first 64 of the unread and the new events, in order; nothing blocks. Once the store is
  closed, the end of the subscriber's context closes its channel a second time, and a writer that
  had copied the list of watchers before the close sends on a closed channel: both panic.\<close>

theorem watch_drops_and_close_panics:
  assumes "hub_ok h" "hub_bounded h" "i \<in> set (hb_watchers h)"
  shows "\<exists>h1 h2. hub_emits es h = Some h1 \<and> cn_buf (hb_chan h1 i) = take 64 (cn_buf (hb_chan h i) @ es) \<and>
    hub_close h1 = Some h2 \<and> hub_cancel i h2 = None \<and> hub_emit_to (hb_watchers h1) e h2 = None"
proof -
  obtain h1 where h1: "hub_emits es h = Some h1" "hub_ok h1" "hb_watchers h1 = hb_watchers h"
    "cn_buf (hb_chan h1 i) = take chan_cap (cn_buf (hb_chan h i) @ es)"
    using hub_emits_buffer [OF assms] by blast
  obtain h2 where "hub_close h1 = Some h2" "\<forall>j \<in> set (hb_watchers h1). cn_closed (hb_chan h2 j)"
    using hub_close_ok [OF h1(2)] by metis
  then show ?thesis
    using h1 assms(3) by (auto simp: hub_cancel_def chan_close_def hub_emit_to_def intro!: send_closed)
qed

theorem watch_drops_and_close_panics_witness:
  "\<exists>h1 h2. hub_emits [True] (fst (hub_watch new_hub)) = Some h1 \<and> cn_buf (hb_chan h1 0) = [True] \<and>
    hub_close h1 = Some h2 \<and> hub_cancel 0 h2 = None"
  using watch_drops_and_close_panics [OF hub_ok_watch [OF hub_ok_new], of 0 "[True]" False]
  by (auto simp: hub_watch_def new_hub_def hub_bounded_def)

end
