(* ===== verification/Resource_Stores.thy ===== *)
theory Resource_Stores
  imports Platform_FSM Watch_Hub
begin

section \<open>Typed resource stores (internal/platform/store: memdb_store.go, raft_store.go)\<close>

text \<open>
  \<open>MemDBStore\<close> keeps the JSON of each resource in go-memdb; \<open>RaftStore\<close> reads the database
  the replicated state machine writes and sends its own writes through Raft. A resource is its
  key, its metadata (which may be nil) and the rest of the object; its JSON form is the
  resource type's own, an argument. \<open>time.Now\<close> is read up to twice per call. A failed type
  assertion is \<open>Panic\<close>. What Raft answers to \<open>Apply\<close> is \<open>raft_verdict\<close>: the node is not the
  leader, the call failed (and the entry may still have been committed), or it was committed.
  The error texts of go-memdb and hashicorp/raft do not contain the word \<open>conflict\<close>, so
  \<open>RaftStore.Create\<close> maps exactly the state machine's conflict to \<open>ErrConflict\<close>.
\<close>

subsection \<open>Resources\<close>

record obj_meta =
  om_created :: gotime
  om_updated :: gotime
  om_generation :: int

record 'b resource =
  ro_key :: string
  ro_meta :: "obj_meta option"
  ro_body :: 'b

record 'b res_codec =
  rc_encode :: "'b resource \<Rightarrow> string option"
  rc_decode :: "string \<Rightarrow> 'b resource option"

datatype store_error = ErrNotFound | ErrConflict | EncodeFailed | ObjDecodeFailed | DbFailed | ApplyFailed

definition stamp_create :: "gotime \<Rightarrow> gotime \<Rightarrow> 'b resource \<Rightarrow> 'b resource" where
  "stamp_create t1 t2 r = r\<lparr>ro_meta := map_option (\<lambda>m. m\<lparr>
     om_created := (if om_created m = zero_time then t1 else om_created m), om_updated := t2,
     om_generation := (if om_generation m = 0 then 1 else om_generation m)\<rparr>) (ro_meta r)\<rparr>"

definition stamp_update :: "gotime \<Rightarrow> 'b resource \<Rightarrow> 'b resource" where
  "stamp_update t r = r\<lparr>ro_meta := map_option (\<lambda>m. m\<lparr>om_updated := t\<rparr>) (ro_meta r)\<rparr>"

lemma stamp_key [simp]: "ro_key (stamp_create t1 t2 r) = ro_key r" "ro_key (stamp_update t r) = ro_key r"
  by (simp_all add: stamp_create_def stamp_update_def)

definition extract_namespace :: "string \<Rightarrow> string" where
  "extract_namespace k = (if CHR ''/'' \<in> set k then takeWhile (\<lambda>c. c \<noteq> CHR ''/'') k else [])"

subsection \<open>Reads\<close>

definition entry_resource :: "'b res_codec \<Rightarrow> entry \<Rightarrow> (store_error, 'b resource) outcome" where
  "entry_resource cd e =
     (case e of
        MemdbEntry k n d \<Rightarrow> (case rc_decode cd d of None \<Rightarrow> Err ObjDecodeFailed | Some r \<Rightarrow> Ok r)
      | _ \<Rightarrow> Panic)"

definition store_get :: "'b res_codec \<Rightarrow> 'db memdb \<Rightarrow> string \<Rightarrow> string \<Rightarrow> 'db \<Rightarrow> (store_error, 'b resource) outcome" where
  "store_get cd md t k db =
     (case md_first md db t k of
        None \<Rightarrow> Err DbFailed
      | Some None \<Rightarrow> Err ErrNotFound
      | Some (Some e) \<Rightarrow> entry_resource cd e)"

fun decode_all :: "'b res_codec \<Rightarrow> entry list \<Rightarrow> (store_error, 'b resource list) outcome" where
  "decode_all cd [] = Ok []"
| "decode_all cd (e # es) = outcome_bind (entry_resource cd e) (\<lambda>r. outcome_bind (decode_all cd es) (\<lambda>rs. Ok (r # rs)))"

definition store_list :: "'b res_codec \<Rightarrow> 'db memdb \<Rightarrow> string \<Rightarrow> string \<Rightarrow> 'db \<Rightarrow> (store_error, 'b resource list) outcome" where
  "store_list cd md t n db =
     (case (if n \<noteq> [] then md_by_ns md db t n else md_all md db t) of
        None \<Rightarrow> Err DbFailed
      | Some es \<Rightarrow> decode_all cd es)"

subsection \<open>MemDBStore\<close>

record ('db, 'b) res_store =
  st_db :: 'db
  st_hub :: "'b resource watch_event hub"

definition store_emit :: "watch_type \<Rightarrow> 'b resource \<Rightarrow> ('db, 'b) res_store
    \<Rightarrow> ('db, 'b) res_store \<times> (store_error, unit) outcome" where
  "store_emit w r s =
     (case hub_emit (w, r) (st_hub s) of
        None \<Rightarrow> (s, Panic)
      | Some h \<Rightarrow> (s\<lparr>st_hub := h\<rparr>, Ok ()))"

definition mem_create :: "'b res_codec \<Rightarrow> 'db memdb \<Rightarrow> string \<Rightarrow> gotime \<Rightarrow> gotime \<Rightarrow> 'b resource
    \<Rightarrow> ('db, 'b) res_store \<Rightarrow> ('db, 'b) res_store \<times> (store_error, unit) outcome" where
  "mem_create cd md t t1 t2 obj s =
     (let r = stamp_create t1 t2 obj; k = ro_key obj in
      case rc_encode cd r of
        None \<Rightarrow> (s, Err EncodeFailed)
      | Some d \<Rightarrow>
          (case md_first md (st_db s) t k of
             None \<Rightarrow> (s, Err DbFailed)
           | Some (Some _) \<Rightarrow> (s, Err ErrConflict)
           | Some None \<Rightarrow>
               (case md_insert md (st_db s) t (MemdbEntry k (extract_namespace k) d) of
                  None \<Rightarrow> (s, Err DbFailed)
                | Some db' \<Rightarrow> store_emit WatchAdded r (s\<lparr>st_db := db'\<rparr>))))"

definition mem_update :: "'b res_codec \<Rightarrow> 'db memdb \<Rightarrow> string \<Rightarrow> gotime \<Rightarrow> 'b resource
    \<Rightarrow> ('db, 'b) res_store \<Rightarrow> ('db, 'b) res_store \<times> (store_error, unit) outcome" where
  "mem_update cd md t t2 obj s =
     (let r = stamp_update t2 obj; k = ro_key obj in
      case rc_encode cd r of
        None \<Rightarrow> (s, Err EncodeFailed)
      | Some d \<Rightarrow>
          (case md_insert md (st_db s) t (MemdbEntry k (extract_namespace k) d) of
             None \<Rightarrow> (s, Err DbFailed)
           | Some db' \<Rightarrow> store_emit WatchModified r (s\<lparr>st_db := db'\<rparr>)))"

definition mem_delete :: "'b res_codec \<Rightarrow> 'db memdb \<Rightarrow> string \<Rightarrow> string
    \<Rightarrow> ('db, 'b) res_store \<Rightarrow> ('db, 'b) res_store \<times> (store_error, unit) outcome" where
  "mem_delete cd md t k s =
     (let prior = store_get cd md t k (st_db s);
          remove =
            (case md_first md (st_db s) t k of
               None \<Rightarrow> (s, Err DbFailed)
             | Some None \<Rightarrow> (s, Ok ())
             | Some (Some e) \<Rightarrow>
                 (case md_delete md (st_db s) t e of
                    None \<Rightarrow> (s, Err DbFailed)
                  | Some db' \<Rightarrow>
                      (case prior of
                         Ok r \<Rightarrow> store_emit WatchDeleted r (s\<lparr>st_db := db'\<rparr>)
                       | _ \<Rightarrow> (s\<lparr>st_db := db'\<rparr>, Ok ()))))
      in case prior of
        Panic \<Rightarrow> (s, Panic)
      | Err e \<Rightarrow> if e \<noteq> ErrNotFound then (s, Err e) else remove
      | Ok _ \<Rightarrow> remove)"

subsection \<open>RaftStore\<close>

datatype raft_verdict = NotLeader | RaftFailed bool | Committed

text \<open>\<open>Server.Apply\<close>: the state machine's error becomes the call's.\<close>

datatype apply_error = ApplyNotLeader | ApplyRaftError | ApplyFsmError fsm_error

definition server_apply :: "'db memdb \<Rightarrow> raft_verdict \<Rightarrow> command \<Rightarrow> 'db \<Rightarrow> 'db \<times> apply_error option" where
  "server_apply md v c db =
     (case v of
        NotLeader \<Rightarrow> (db, Some ApplyNotLeader)
      | RaftFailed applied \<Rightarrow> (if applied then fst (fsm_apply md (Some c) db) else db, Some ApplyRaftError)
      | Committed \<Rightarrow> (case fsm_apply md (Some c) db of (db', e) \<Rightarrow> (db', map_option ApplyFsmError e)))"

definition resource_command :: "command_type \<Rightarrow> string \<Rightarrow> string \<Rightarrow> string \<Rightarrow> command" where
  "resource_command ty t k d =
     \<lparr>cmd_type = ty, cmd_table = t, cmd_key = k, cmd_namespace = extract_namespace k, cmd_data = d\<rparr>"

definition raft_create :: "'b res_codec \<Rightarrow> 'db memdb \<Rightarrow> string \<Rightarrow> raft_verdict \<Rightarrow> gotime \<Rightarrow> gotime \<Rightarrow> 'b resource
    \<Rightarrow> ('db, 'b) res_store \<Rightarrow> ('db, 'b) res_store \<times> (store_error, unit) outcome" where
  "raft_create cd md t v t1 t2 obj s =
     (let r = stamp_create t1 t2 obj in
      case rc_encode cd r of
        None \<Rightarrow> (s, Err EncodeFailed)
      | Some d \<Rightarrow>
          (case server_apply md v (resource_command CmdCreate t (ro_key obj) d) (st_db s) of
             (db', Some (ApplyFsmError (Conflict k))) \<Rightarrow> (s\<lparr>st_db := db'\<rparr>, Err ErrConflict)
           | (db', Some e) \<Rightarrow> (s\<lparr>st_db := db'\<rparr>, Err ApplyFailed)
           | (db', None) \<Rightarrow> store_emit WatchAdded r (s\<lparr>st_db := db'\<rparr>)))"

definition raft_update :: "'b res_codec \<Rightarrow> 'db memdb \<Rightarrow> string \<Rightarrow> raft_verdict \<Rightarrow> gotime \<Rightarrow> 'b resource
    \<Rightarrow> ('db, 'b) res_store \<Rightarrow> ('db, 'b) res_store \<times> (store_error, unit) outcome" where
  "raft_update cd md t v t2 obj s =
     (let r = stamp_update t2 obj in
      case rc_encode cd r of
        None \<Rightarrow> (s, Err EncodeFailed)
      | Some d \<Rightarrow>
          (case server_apply md v (resource_command CmdUpdate t (ro_key obj) d) (st_db s) of
             (db', Some e) \<Rightarrow> (s\<lparr>st_db := db'\<rparr>, Err ApplyFailed)
           | (db', None) \<Rightarrow> store_emit WatchModified r (s\<lparr>st_db := db'\<rparr>)))"

definition raft_delete :: "'b res_codec \<Rightarrow> 'db memdb \<Rightarrow> string \<Rightarrow> raft_verdict \<Rightarrow> string
    \<Rightarrow> ('db, 'b) res_store \<Rightarrow> ('db, 'b) res_store \<times> (store_error, unit) outcome" where
  "raft_delete cd md t v k s =
     (let prior = store_get cd md t k (st_db s);
          remove =
            (case server_apply md v (resource_command CmdDelete t k []) (st_db s) of
               (db', Some e) \<Rightarrow> (s\<lparr>st_db := db'\<rparr>, Err ApplyFailed)
             | (db', None) \<Rightarrow>
                 (case prior of
                    Ok r \<Rightarrow> store_emit WatchDeleted r (s\<lparr>st_db := db'\<rparr>)
                  | _ \<Rightarrow> (s\<lparr>st_db := db'\<rparr>, Ok ())))
      in case prior of
        Panic \<Rightarrow> (s, Panic)
      | Err e \<Rightarrow> if e \<noteq> ErrNotFound then (s, Err e) else remove
      | Ok _ \<Rightarrow> remove)"

subsection \<open>The map a store implements\<close>

datatype 'b store_op =
    OpCreate gotime gotime "'b resource"
  | OpUpdate gotime "'b resource"
  | OpDelete string
  | OpGet string

fun no_value :: "(store_error, unit) outcome \<Rightarrow> (store_error, 'b resource option) outcome" where
  "no_value (Ok u) = Ok None"
| "no_value (Err e) = Err e"
| "no_value Panic = Panic"

fun mem_exec :: "'b res_codec \<Rightarrow> 'db memdb \<Rightarrow> string \<Rightarrow> 'b store_op \<Rightarrow> ('db, 'b) res_store
    \<Rightarrow> ('db, 'b) res_store \<times> (store_error, 'b resource option) outcome" where
  "mem_exec cd md t (OpCreate t1 t2 r) s = map_prod id no_value (mem_create cd md t t1 t2 r s)"
| "mem_exec cd md t (OpUpdate t2 r) s = map_prod id no_value (mem_update cd md t t2 r s)"
| "mem_exec cd md t (OpDelete k) s = map_prod id no_value (mem_delete cd md t k s)"
| "mem_exec cd md t (OpGet k) s = (s, outcome_bind (store_get cd md t k (st_db s)) (\<lambda>r. Ok (Some r)))"

fun mem_execs :: "'b res_codec \<Rightarrow> 'db memdb \<Rightarrow> string \<Rightarrow> 'b store_op list \<Rightarrow> ('db, 'b) res_store
    \<Rightarrow> ('db, 'b) res_store \<times> (store_error, 'b resource option) outcome list" where
  "mem_execs cd md t [] s = (s, [])"
| "mem_execs cd md t (op # ops) s =
     (case mem_exec cd md t op s of
        (s1, r) \<Rightarrow> (case mem_execs cd md t ops s1 of (s2, rs) \<Rightarrow> (s2, r # rs)))"

fun map_exec :: "'b store_op \<Rightarrow> (string \<rightharpoonup> 'b resource)
    \<Rightarrow> (string \<rightharpoonup> 'b resource) \<times> (store_error, 'b resource option) outcome" where
  "map_exec (OpCreate t1 t2 r) m =
     (if m (ro_key r) \<noteq> None then (m, Err ErrConflict)
      else if ro_key r = [] then (m, Err DbFailed)
      else (m(ro_key r \<mapsto> stamp_create t1 t2 r), Ok None))"
| "map_exec (OpUpdate t2 r) m =
     (if ro_key r = [] then (m, Err DbFailed) else (m(ro_key r \<mapsto> stamp_update t2 r), Ok None))"
| "map_exec (OpDelete k) m = (m(k := None), Ok None)"
| "map_exec (OpGet k) m = (m, case m k of None \<Rightarrow> Err ErrNotFound | Some r \<Rightarrow> Ok (Some r))"

fun map_execs :: "'b store_op list \<Rightarrow> (string \<rightharpoonup> 'b resource)
    \<Rightarrow> (string \<rightharpoonup> 'b resource) \<times> (store_error, 'b resource option) outcome list" where
  "map_execs [] m = (m, [])"
| "map_execs (op # ops) m =
     (case map_exec op m of (m1, r) \<Rightarrow> (case map_execs ops m1 of (m2, rs) \<Rightarrow> (m2, r # rs)))"

text \<open>The objects an operation stores, and a codec whose JSON round-trips them.\<close>

fun stored_by :: "'b store_op \<Rightarrow> 'b resource set" where
  "stored_by (OpCreate t1 t2 r) = {stamp_create t1 t2 r}"
| "stored_by (OpUpdate t2 r) = {stamp_update t2 r}"
| "stored_by op = {}"

definition codec_ok :: "'b res_codec \<Rightarrow> 'b resource set \<Rightarrow> bool" where
  "codec_ok cd R \<longleftrightarrow> (\<forall>r \<in> R. \<exists>d. rc_encode cd r = Some d \<and> rc_decode cd d = Some r)"

fun decoded :: "'b res_codec \<Rightarrow> entry option \<Rightarrow> 'b resource option" where
  "decoded cd None = None"
| "decoded cd (Some e) = (case entry_resource cd e of Ok r \<Rightarrow> Some r | _ \<Rightarrow> None)"

definition store_map :: "'b res_codec \<Rightarrow> ('db \<Rightarrow> view) \<Rightarrow> string \<Rightarrow> ('db, 'b) res_store \<Rightarrow> string \<rightharpoonup> 'b resource" where
  "store_map cd view t s = (\<lambda>k. decoded cd (view (st_db s) t k))"

text \<open>Every entry of the table decodes, and the hub is in order.\<close>

definition store_ok :: "'b res_codec \<Rightarrow> ('db \<Rightarrow> view) \<Rightarrow> string \<Rightarrow> ('db, 'b) res_store \<Rightarrow> bool" where
  "store_ok cd view t s \<longleftrightarrow> hub_ok (st_hub s) \<and> hub_bounded (st_hub s) \<and>
     (\<forall>k e. view (st_db s) t k = Some e \<longrightarrow> (\<exists>r. entry_resource cd e = Ok r))"

lemma store_emit_ok:
  assumes "hub_ok (st_hub s)" "hub_bounded (st_hub s)"
  obtains s' where "store_emit w r s = (s', Ok ())" "st_db s' = st_db s" "hub_ok (st_hub s')" "hub_bounded (st_hub s')"
  using hub_emit_Some [OF assms, of "(w, r)"] by (metis (no_types, lifting) option.simps(5) res_store.select_convs
    res_store.update_convs(2) res_store.surjective store_emit_def)

lemma decoded_put: "decoded cd (view_put t e v t k) = ((\<lambda>k. decoded cd (v t k))(en_key e := decoded cd (Some e))) k"
  by (simp add: view_put_at)

lemma decoded_drop: "decoded cd (view_drop t k v t j) = ((\<lambda>k. decoded cd (v t k))(k := None)) j"
  by (simp add: view_drop_def)

context memdb_laws
begin

lemma store_insert:
  assumes ok: "store_ok cd view t s" and t: "t \<in> tables" and k: "en_key e \<noteq> []" and r: "entry_resource cd e = Ok r"
  obtains db' s' where "md_insert md (st_db s) t e = Some db'" "store_emit w x (s\<lparr>st_db := db'\<rparr>) = (s', Ok ())"
    "store_ok cd view t s'" "store_map cd view t s' = (store_map cd view t s)(en_key e \<mapsto> r)"
    "view (st_db s') = view_put t e (view (st_db s))"
proof -
  obtain db' where db': "md_insert md (st_db s) t e = Some db'" "view db' = view_put t e (view (st_db s))"
    using insert [OF t k] by blast
  obtain s' where s': "store_emit w x (s\<lparr>st_db := db'\<rparr>) = (s', Ok ())" "st_db s' = db'"
    "hub_ok (st_hub s')" "hub_bounded (st_hub s')"
    using store_emit_ok [of "s\<lparr>st_db := db'\<rparr>"] ok by (auto simp: store_ok_def)
  have "store_ok cd view t s'"
    using ok s' db' r by (auto simp: store_ok_def view_put_at split: if_splits)
  moreover have "store_map cd view t s' = (store_map cd view t s)(en_key e \<mapsto> r)"
    by (auto simp: store_map_def s' db' decoded_put r fun_eq_iff)
  ultimately show thesis using that db' s' by metis
qed

lemma store_remove:
  assumes ok: "store_ok cd view t s" and t: "t \<in> tables" and e: "view (st_db s) t k = Some e"
  obtains db' s' where "md_delete md (st_db s) t e = Some db'" "store_emit w x (s\<lparr>st_db := db'\<rparr>) = (s', Ok ())"
    "store_ok cd view t s'" "store_map cd view t s' = (store_map cd view t s)(k := None)"
proof -
  have k: "en_key e = k" by (rule keyed [OF e])
  obtain db' where db': "md_delete md (st_db s) t e = Some db'" "view db' = view_drop t k (view (st_db s))"
    using delete [OF t, of "st_db s" e] e k by auto
  obtain s' where s': "store_emit w x (s\<lparr>st_db := db'\<rparr>) = (s', Ok ())" "st_db s' = db'"
    "hub_ok (st_hub s')" "hub_bounded (st_hub s')"
    using store_emit_ok [of "s\<lparr>st_db := db'\<rparr>"] ok by (auto simp: store_ok_def)
  have "store_ok cd view t s'"
    using ok s' db' by (auto simp: store_ok_def view_drop_def split: if_splits)
  moreover have "store_map cd view t s' = (store_map cd view t s)(k := None)"
    by (auto simp: store_map_def s' db' decoded_drop fun_eq_iff)
  ultimately show thesis using that db' s' by metis
qed

lemma store_get_map:
  assumes ok: "store_ok cd view t s" and t: "t \<in> tables"
  shows "store_get cd md t k (st_db s) =
    (case store_map cd view t s k of None \<Rightarrow> Err ErrNotFound | Some r \<Rightarrow> Ok r)"
proof (cases "view (st_db s) t k")
  case None
  then show ?thesis using first [OF t, of "st_db s" k] by (simp add: store_get_def store_map_def)
next
  case (Some e)
  then obtain r where "entry_resource cd e = Ok r" using ok by (auto simp: store_ok_def)
  then show ?thesis using first [OF t, of "st_db s" k] Some by (simp add: store_get_def store_map_def)
qed

lemma mem_exec_refines:
  assumes ok: "store_ok cd view t s" and t: "t \<in> tables" and cd: "codec_ok cd (stored_by op)"
  obtains s' where "mem_exec cd md t op s = (s', snd (map_exec op (store_map cd view t s)))" "store_ok cd view t s'"
    "store_map cd view t s' = fst (map_exec op (store_map cd view t s))"
proof (cases op)
  case (OpCreate t1 t2 r)
  obtain d where d: "rc_encode cd (stamp_create t1 t2 r) = Some d" "rc_decode cd d = Some (stamp_create t1 t2 r)"
    using cd by (auto simp: codec_ok_def OpCreate)
  let ?e = "MemdbEntry (ro_key r) (extract_namespace (ro_key r)) d"
  show thesis
  proof (cases "view (st_db s) t (ro_key r)")
    case None
    show thesis
    proof (cases "ro_key r = []")
      case True
      have "md_insert md (st_db s) t ?e = None" by (rule insert_no_key) (simp add: True)
      then show thesis
        using that [of s] ok None True d first [OF t, of "st_db s" "ro_key r"]
        by (simp add: OpCreate mem_create_def store_map_def)
    next
      case False
      have ek: "en_key ?e \<noteq> []" using False by simp
      have er: "entry_resource cd ?e = Ok (stamp_create t1 t2 r)" by (simp add: entry_resource_def d)
      obtain db' s' where "md_insert md (st_db s) t ?e = Some db'"
        "store_emit WatchAdded (stamp_create t1 t2 r) (s\<lparr>st_db := db'\<rparr>) = (s', Ok ())" "store_ok cd view t s'"
        "store_map cd view t s' = (store_map cd view t s)(ro_key r \<mapsto> stamp_create t1 t2 r)"
        "view (st_db s') = view_put t ?e (view (st_db s))"
        by (rule store_insert [OF ok t ek er, unfolded en_key.simps])
      then show thesis
        using that [of s'] ok None False d first [OF t, of "st_db s" "ro_key r"]
        by (simp add: OpCreate mem_create_def store_map_def)
    qed
  next
    case (Some e)
    then obtain x where "entry_resource cd e = Ok x" using ok by (auto simp: store_ok_def)
    then show thesis
      using that [of s] ok Some d first [OF t, of "st_db s" "ro_key r"]
      by (simp add: OpCreate mem_create_def store_map_def)
  qed
next
  case (OpUpdate t2 r)
  obtain d where d: "rc_encode cd (stamp_update t2 r) = Some d" "rc_decode cd d = Some (stamp_update t2 r)"
    using cd by (auto simp: codec_ok_def OpUpdate)
  let ?e = "MemdbEntry (ro_key r) (extract_namespace (ro_key r)) d"
  show thesis
  proof (cases "ro_key r = []")
    case True
    have "md_insert md (st_db s) t ?e = None" by (rule insert_no_key) (simp add: True)
    then show thesis using that [of s] ok True d by (simp add: OpUpdate mem_update_def)
  next
    case False
    have ek: "en_key ?e \<noteq> []" using False by simp
    have er: "entry_resource cd ?e = Ok (stamp_update t2 r)" by (simp add: entry_resource_def d)
    obtain db' s' where "md_insert md (st_db s) t ?e = Some db'"
      "store_emit WatchModified (stamp_update t2 r) (s\<lparr>st_db := db'\<rparr>) = (s', Ok ())" "store_ok cd view t s'"
      "store_map cd view t s' = (store_map cd view t s)(ro_key r \<mapsto> stamp_update t2 r)"
      "view (st_db s') = view_put t ?e (view (st_db s))"
      by (rule store_insert [OF ok t ek er, unfolded en_key.simps])
    then show thesis using that [of s'] False d by (simp add: OpUpdate mem_update_def)
  qed
next
  case (OpDelete k)
  show thesis
  proof (cases "view (st_db s) t k")
    case None
    then have none: "store_map cd view t s k = None" by (simp add: store_map_def)
    then have "store_map cd view t s = (store_map cd view t s)(k := None)" by (simp add: fun_upd_idem)
    then show thesis
      using that [of s] ok none first [OF t, of "st_db s" k] None store_get_map [OF ok t, of k]
      by (simp add: OpDelete mem_delete_def)
  next
    case (Some e)
    then obtain x where x: "entry_resource cd e = Ok x" using ok by (auto simp: store_ok_def)
    obtain db' s' where "md_delete md (st_db s) t e = Some db'"
      "store_emit WatchDeleted x (s\<lparr>st_db := db'\<rparr>) = (s', Ok ())" "store_ok cd view t s'"
      "store_map cd view t s' = (store_map cd view t s)(k := None)"
      using store_remove [OF ok t Some] by metis
    then show thesis
      using that [of s'] Some x first [OF t, of "st_db s" k] by (simp add: OpDelete mem_delete_def store_get_def)
  qed
next
  case (OpGet k)
  then show thesis
    using that [of s] ok store_get_map [OF ok t, of k] by (auto split: option.splits)
qed

lemma mem_execs_refines:
  "store_ok cd view t s \<Longrightarrow> t \<in> tables \<Longrightarrow> codec_ok cd (\<Union> (stored_by ` set ops)) \<Longrightarrow>
   \<exists>s'. mem_execs cd md t ops s = (s', snd (map_execs ops (store_map cd view t s))) \<and>
     store_map cd view t s' = fst (map_execs ops (store_map cd view t s))"
proof (induction ops arbitrary: s)
  case (Cons op ops)
  obtain s1 where s1: "mem_exec cd md t op s = (s1, snd (map_exec op (store_map cd view t s)))" "store_ok cd view t s1"
    "store_map cd view t s1 = fst (map_exec op (store_map cd view t s))"
    using mem_exec_refines [OF Cons.prems(1,2), of op] Cons.prems(3) by (auto simp: codec_ok_def)
  moreover have "codec_ok cd (\<Union> (stored_by ` set ops))" using Cons.prems(3) by (simp add: codec_ok_def)
  ultimately show ?case using Cons.IH [OF s1(2) Cons.prems(2)] by (auto split: prod.split)
qed simp

end

subsection \<open>Properties\<close>


text \<open>Reads of the replicated store panic: once \<open>Create\<close> has returned without an error, \<open>Get\<close> of
  that key, \<open>Delete\<close> of it and \<open>List\<close> of a table written through the log all fail the type
  assertion on the entry, whatever the resource, and the delete never reaches the log.\<close>

theorem raft_store_reads_panic:
  assumes "memdb_laws md tables view" "t \<in> tables" "raft_create cd md t v t1 t2 r s = (s', Ok ())"
    and "\<And>k e. view (st_db s) t k = Some e \<Longrightarrow> \<exists>c. e = make_entry c"
  shows "store_get cd md t (ro_key r) (st_db s') = Panic \<and> store_list cd md t [] (st_db s') = Panic \<and>
    raft_delete cd md t v' (ro_key r) s' = (s', Panic)"
proof -
  obtain d where d: "rc_encode cd (stamp_create t1 t2 r) = Some d"
    using assms(3) by (cases "rc_encode cd (stamp_create t1 t2 r)") (auto simp: raft_create_def Let_def)
  let ?c = "resource_command CmdCreate t (ro_key r) d"
  obtain db' where v: "server_apply md v ?c (st_db s) = (db', None)"
    and "store_emit WatchAdded (stamp_create t1 t2 r) (s\<lparr>st_db := db'\<rparr>) = (s', Ok ())"
    using assms(3) d by (auto simp: raft_create_def split: prod.splits option.splits apply_error.splits fsm_error.splits)
  then have db': "st_db s' = db'" by (auto simp: store_emit_def split: option.splits)
  have "fsm_apply md (Some ?c) (st_db s) = (db', None)"
    using v by (auto simp: server_apply_def split: raft_verdict.splits prod.splits)
  then have new: "view db' = view_put t (make_entry ?c) (view (st_db s))"
    using memdb_laws.fsm_apply_spec [OF assms(1), of ?c "st_db s"] assms(2)
    by (auto simp: resource_command_def spec_apply_def split: if_splits)
  have made: "\<exists>c. e = make_entry c" if "view db' t k = Some e" for k e
    using that new assms(4) by (auto simp: view_put_at split: if_splits)
  have panics: "entry_resource cd (make_entry c) = Panic" for c
    by (simp add: entry_resource_def make_entry_def)
  have here: "view db' t (ro_key r) = Some (make_entry ?c)"
    by (simp add: new view_put_at resource_command_def)
  have get: "store_get cd md t (ro_key r) db' = Panic"
    using memdb_laws.first [OF assms(1,2), of db'] here panics by (simp add: store_get_def)
  obtain es where es: "md_all md db' t = Some es" "set es = ran (view db' t)"
    using memdb_laws.all [OF assms(1,2)] by blast
  then obtain e es' where "es = e # es'" using here by (cases es) (auto simp: ran_def)
  moreover have "entry_resource cd e = Panic"
  proof -
    have "e \<in> ran (view db' t)" using es(2) calculation by (metis list.set_intros(1))
    then obtain k where "view db' t k = Some e" by (auto simp: ran_def)
    then show ?thesis using made panics by metis
  qed
  ultimately have "store_list cd md t [] db' = Panic" by (simp add: store_list_def es(1))
  then show ?thesis using get db' by (simp add: raft_delete_def)
qed

subsection \<open>Sample runs\<close>

definition sample_resource :: "unit resource" where
  "sample_resource = \<lparr>ro_key = ''ns/a'', ro_meta = Some \<lparr>om_created = 0, om_updated = 0, om_generation = 0\<rparr>, ro_body = ()\<rparr>"

definition sample_codec :: "unit res_codec" where
  "sample_codec = \<lparr>rc_encode = (\<lambda>r. Some ''{}''), rc_decode = (\<lambda>d. Some (stamp_create 1 2 sample_resource))\<rparr>"

definition sample_store :: "(string \<Rightarrow> entry list, unit) res_store" where
  "sample_store = \<lparr>st_db = (\<lambda>_. []), st_hub = fst (hub_watch new_hub)\<rparr>"

lemma sample_store_ok: "store_ok cd ref_view t sample_store"
  by (simp add: store_ok_def sample_store_def ref_view_def hub_ok_watch hub_ok_new)
     (simp add: hub_bounded_def hub_watch_def new_hub_def)


theorem raft_store_reads_panic_witness:
  "\<exists>s'. raft_create sample_codec sample_ref ''pods'' Committed 1 2 sample_resource sample_store = (s', Ok ()) \<and>
    store_get sample_codec sample_ref ''pods'' ''ns/a'' (st_db s') = Panic"
proof -
  obtain s' where s': "raft_create sample_codec sample_ref ''pods'' Committed 1 2 sample_resource sample_store = (s', Ok ())"
    by (auto simp: raft_create_def sample_codec_def server_apply_def fsm_apply_def resource_command_def fsm_create_def
        ref_db_def ref_view_def sample_store_def sample_resource_def stamp_create_def make_entry_def store_emit_def
        hub_emit_def hub_emit_to_def hub_watch_def new_hub_def chan_send_def)
  have "store_get sample_codec sample_ref ''pods'' (ro_key sample_resource) (st_db s') = Panic \<and>
    store_list sample_codec sample_ref ''pods'' [] (st_db s') = Panic \<and>
    raft_delete sample_codec sample_ref ''pods'' Committed (ro_key sample_resource) s' = (s', Panic)"
    by (rule raft_store_reads_panic [OF ref.memdb_laws_axioms [of sample_tables] _ s'])
      (auto simp: sample_store_def ref_view_def split: if_splits)
  then show ?thesis using s' by (simp add: sample_resource_def)
qed

end
