(* ===== verification/KV_Store.thy ===== *)
theory KV_Store
  imports Platform_FSM
begin

section \<open>The key-value store (internal/platform/store/kvstore.go)\<close>

text \<open>
  \<open>MemDBKVStore\<close> over the \<open>_kv\<close> table: alone it writes the database itself, with Raft its
  \<open>Put\<close> and \<open>Delete\<close> go through the log. The operations of the Raft mode return, beside the
  local database, the commands that were committed, since those are what the other replicas
  see; \<open>ok\<close> is whether Raft committed the command (a node that is not the leader, or loses
  its leadership, reports an error). \<open>kvExtract\<close> reads data and expiry of whatever entry type
  is in the table, through JSON if it is not its own; for every entry type it gives the fields
  of that name. Values are strings; a missing key reads as the empty string.
\<close>

abbreviation kv_table :: string where "kv_table \<equiv> ''_kv''"

datatype kv_error = KvDbError | KvRaftError | KvFsmError fsm_error

definition kv_live :: "gotime \<Rightarrow> entry \<Rightarrow> bool" where
  "kv_live now e \<longleftrightarrow> en_expires e = zero_time \<or> \<not> now > en_expires e"

definition kv_get :: "'db memdb \<Rightarrow> gotime \<Rightarrow> string \<Rightarrow> 'db \<Rightarrow> (kv_error, string) outcome" where
  "kv_get md now k db =
     (case md_first md db kv_table k of
        None \<Rightarrow> Err KvDbError
      | Some None \<Rightarrow> Ok []
      | Some (Some e) \<Rightarrow> if \<not> kv_live now e then Ok [] else Ok (en_data e))"

definition kv_put_local :: "'db memdb \<Rightarrow> string \<Rightarrow> string \<Rightarrow> gotime \<Rightarrow> 'db \<Rightarrow> 'db \<times> (kv_error, unit) outcome" where
  "kv_put_local md k v x db =
     (case md_insert md db kv_table (KvEntry k [] v x) of
        None \<Rightarrow> (db, Err KvDbError)
      | Some db' \<Rightarrow> (db', Ok ()))"

definition kv_set_ttl :: "'db memdb \<Rightarrow> string \<Rightarrow> gotime \<Rightarrow> 'db \<Rightarrow> 'db" where
  "kv_set_ttl md k x db =
     (case md_first md db kv_table k of
        Some (Some e) \<Rightarrow>
          (case md_insert md db kv_table (KvEntry k [] (en_data e) x) of None \<Rightarrow> db | Some db' \<Rightarrow> db')
      | _ \<Rightarrow> db)"

definition kv_command :: "command_type \<Rightarrow> string \<Rightarrow> string \<Rightarrow> command" where
  "kv_command ty k v = \<lparr>cmd_type = ty, cmd_table = kv_table, cmd_key = k, cmd_namespace = [], cmd_data = v\<rparr>"

definition kv_apply :: "'db memdb \<Rightarrow> bool \<Rightarrow> command \<Rightarrow> 'db \<Rightarrow> 'db \<times> command list \<times> (kv_error, unit) outcome" where
  "kv_apply md ok c db =
     (if \<not> ok then (db, [], Err KvRaftError)
      else case fsm_apply md (Some c) db of
        (db', None) \<Rightarrow> (db', [c], Ok ())
      | (db', Some e) \<Rightarrow> (db', [c], Err (KvFsmError e)))"

definition kv_put_raft :: "'db memdb \<Rightarrow> bool \<Rightarrow> string \<Rightarrow> string \<Rightarrow> gotime \<Rightarrow> 'db
    \<Rightarrow> 'db \<times> command list \<times> (kv_error, unit) outcome" where
  "kv_put_raft md ok k v x db =
     (case kv_apply md ok (kv_command CmdUpdate k v) db of
        (db', cs, Ok u) \<Rightarrow> (if x \<noteq> zero_time then kv_set_ttl md k x db' else db', cs, Ok ())
      | r \<Rightarrow> r)"

text \<open>\<open>Put\<close> and \<open>PutWithTTL\<close>; the flag tells whether the store has a Raft server.\<close>

definition kv_put_internal :: "'db memdb \<Rightarrow> bool \<Rightarrow> bool \<Rightarrow> string \<Rightarrow> string \<Rightarrow> gotime \<Rightarrow> 'db
    \<Rightarrow> 'db \<times> command list \<times> (kv_error, unit) outcome" where
  "kv_put_internal md raft ok k v x db =
     (if raft then kv_put_raft md ok k v x db
      else case kv_put_local md k v x db of (db', r) \<Rightarrow> (db', [], r))"

definition kv_put :: "'db memdb \<Rightarrow> bool \<Rightarrow> bool \<Rightarrow> string \<Rightarrow> string \<Rightarrow> 'db
    \<Rightarrow> 'db \<times> command list \<times> (kv_error, unit) outcome" where
  "kv_put md raft ok k v db = kv_put_internal md raft ok k v zero_time db"

definition kv_put_ttl :: "'db memdb \<Rightarrow> bool \<Rightarrow> bool \<Rightarrow> gotime \<Rightarrow> string \<Rightarrow> string \<Rightarrow> duration \<Rightarrow> 'db
    \<Rightarrow> 'db \<times> command list \<times> (kv_error, unit) outcome" where
  "kv_put_ttl md raft ok now k v ttl db = kv_put_internal md raft ok k v (now + ttl) db"

definition kv_delete :: "'db memdb \<Rightarrow> bool \<Rightarrow> bool \<Rightarrow> string \<Rightarrow> 'db
    \<Rightarrow> 'db \<times> command list \<times> (kv_error, unit) outcome" where
  "kv_delete md raft ok k db =
     (if raft then kv_apply md ok (kv_command CmdDelete k []) db
      else case md_first md db kv_table k of
        None \<Rightarrow> (db, [], Err KvDbError)
      | Some None \<Rightarrow> (db, [], Ok ())
      | Some (Some e) \<Rightarrow>
          (case md_delete md db kv_table e of
             None \<Rightarrow> (db, [], Err KvDbError)
           | Some db' \<Rightarrow> (db', [], Ok ())))"

text \<open>The result of \<open>List\<close> is a Go map.\<close>

definition kv_list :: "'db memdb \<Rightarrow> gotime \<Rightarrow> string \<Rightarrow> 'db \<Rightarrow> (kv_error, string \<rightharpoonup> string) outcome" where
  "kv_list md now p db =
     (case md_all md db kv_table of
        None \<Rightarrow> Err KvDbError
      | Some es \<Rightarrow> Ok (foldl (\<lambda>m e. if \<not> prefix p (en_key e) then m else if \<not> kv_live now e then m
                             else m(en_key e \<mapsto> en_data e)) Map.empty es))"

text \<open>\<open>CAS\<close> writes the local database in both modes.\<close>

definition kv_cas :: "'db memdb \<Rightarrow> gotime \<Rightarrow> string \<Rightarrow> string \<Rightarrow> 'db \<Rightarrow> 'db \<times> (kv_error, string \<times> bool) outcome" where
  "kv_cas md now k v db =
     (let create =
        (case md_insert md db kv_table (KvEntry k [] v zero_time) of
           None \<Rightarrow> (db, Err KvDbError)
         | Some db' \<Rightarrow> (db', Ok (v, True)))
      in case md_first md db kv_table k of
        None \<Rightarrow> (db, Err KvDbError)
      | Some None \<Rightarrow> create
      | Some (Some e) \<Rightarrow> if \<not> kv_live now e then create else (db, Ok (en_data e, False)))"

text \<open>A tick of the reaper: the expired entries are collected, then deleted, errors ignored.\<close>

fun kv_delete_each :: "'db memdb \<Rightarrow> entry list \<Rightarrow> 'db \<Rightarrow> 'db" where
  "kv_delete_each md [] db = db"
| "kv_delete_each md (e # es) db =
     kv_delete_each md es (case md_delete md db kv_table e of None \<Rightarrow> db | Some db' \<Rightarrow> db')"

definition kv_reap :: "'db memdb \<Rightarrow> gotime \<Rightarrow> 'db \<Rightarrow> 'db" where
  "kv_reap md now db =
     (case md_all md db kv_table of
        None \<Rightarrow> db
      | Some es \<Rightarrow> kv_delete_each md (filter (\<lambda>e. \<not> kv_live now e) es) db)"

subsection \<open>The table as a map with expiry\<close>

definition kv_value :: "gotime \<Rightarrow> entry option \<Rightarrow> string" where
  "kv_value now oe = (case oe of None \<Rightarrow> [] | Some e \<Rightarrow> if kv_live now e then en_data e else [])"

lemma kv_live_entry [simp]:
  "kv_live now (KvEntry k n d 0)" "kv_live now (KvFsmEntry k n d 0)"
  by (simp_all add: kv_live_def)

lemma kv_command_sel [simp]:
  "cmd_type (kv_command ty k v) = ty" "cmd_table (kv_command ty k v) = kv_table" "cmd_key (kv_command ty k v) = k"
  by (simp_all add: kv_command_def)

lemma kv_make [simp]: "make_entry (kv_command ty k v) = KvFsmEntry k [] v zero_time"
  by (simp add: make_entry_def kv_command_def)

context memdb_laws
begin

lemma kv_get_view: "kv_table \<in> tables \<Longrightarrow> kv_get md now k db = Ok (kv_value now (view db kv_table k))"
  using first [of kv_table db k] by (simp add: kv_get_def kv_value_def split: option.split)

lemma kv_delete_each_view:
  assumes kv: "kv_table \<in> tables"
  shows "distinct (map en_key es) \<Longrightarrow> \<forall>e \<in> set es. view db kv_table (en_key e) = Some e \<Longrightarrow>
    view (kv_delete_each md es db) kv_table k = (if k \<in> en_key ` set es then None else view db kv_table k)"
proof (induction es arbitrary: db)
  case (Cons e es)
  obtain db1 where db1: "md_delete md db kv_table e = Some db1" "view db1 = view_drop kv_table (en_key e) (view db)"
    using delete [OF kv] Cons.prems(2) by (metis list.set_intros(1))
  have "\<forall>x \<in> set es. view db1 kv_table (en_key x) = Some x"
    using Cons.prems db1(2) by (auto simp: view_drop_def image_iff)
  then have "view (kv_delete_each md es db1) kv_table k = (if k \<in> en_key ` set es then None else view db1 kv_table k)"
    using Cons.IH [of db1] Cons.prems(1) by simp
  then show ?case using db1 by (simp add: view_drop_def)
qed simp

lemma kv_reap_view:
  assumes kv: "kv_table \<in> tables"
  shows "view (kv_reap md now db) kv_table k =
    (case view db kv_table k of None \<Rightarrow> None | Some e \<Rightarrow> if kv_live now e then Some e else None)"
proof -
  obtain es where es: "md_all md db kv_table = Some es" "distinct (map en_key es)" "set es = ran (view db kv_table)"
    using all [OF kv] by blast
  let ?xs = "filter (\<lambda>e. \<not> kv_live now e) es"
  have at: "view db kv_table (en_key e) = Some e" if "e \<in> set es" for e
    using that es(3) keyed by (force simp: ran_def)
  have "view (kv_reap md now db) kv_table k = (if k \<in> en_key ` set ?xs then None else view db kv_table k)"
    using kv_delete_each_view [OF kv distinct_map_filter_id [OF es(2)]] at es(1) by (simp add: kv_reap_def)
  moreover have "k \<in> en_key ` set ?xs \<longleftrightarrow> (\<exists>e. view db kv_table k = Some e \<and> \<not> kv_live now e)"
    using at es(3) keyed by (force simp: ran_def)
  ultimately show ?thesis by (auto split: option.split)
qed

lemma kv_update_view:
  assumes kv: "kv_table \<in> tables" and k: "k \<noteq> []"
  obtains db' where "kv_apply md True (kv_command CmdUpdate k v) db = (db', [kv_command CmdUpdate k v], Ok ())"
    "view db' = view_put kv_table (KvFsmEntry k [] v zero_time) (view db)"
proof -
  have "view (fst (fsm_apply md (Some (kv_command CmdUpdate k v)) db)) = view_put kv_table (KvFsmEntry k [] v zero_time) (view db)"
    and err: "snd (fsm_apply md (Some (kv_command CmdUpdate k v)) db) = None"
    using fsm_apply_spec [of "kv_command CmdUpdate k v" db] kv k by (simp_all add: spec_apply_def)
  moreover have "kv_apply md True (kv_command CmdUpdate k v) db =
      (fst (fsm_apply md (Some (kv_command CmdUpdate k v)) db), [kv_command CmdUpdate k v], Ok ())"
    using err by (cases "fsm_apply md (Some (kv_command CmdUpdate k v)) db") (simp add: kv_apply_def)
  ultimately show thesis using that by blast
qed

lemma kv_set_ttl_view:
  assumes kv: "kv_table \<in> tables" and e: "view db kv_table k = Some e"
  shows "view (kv_set_ttl md k x db) = view_put kv_table (KvEntry k [] (en_data e) x) (view db)"
proof -
  have "k \<noteq> []" using e no_empty_key [of db kv_table] by auto
  then show ?thesis
    using insert [OF kv, of "KvEntry k [] (en_data e) x" db] first [OF kv, of db k] e
    by (auto simp: kv_set_ttl_def)
qed

lemma kv_put_ttl_view:
  assumes kv: "kv_table \<in> tables" and k: "k \<noteq> []" and x: "now + ttl \<noteq> zero_time"
  obtains db' where "kv_put_ttl md True True now k v ttl db = (db', [kv_command CmdUpdate k v], Ok ())"
    "view db' kv_table k = Some (KvEntry k [] v (now + ttl))"
    "\<And>j. j \<noteq> k \<Longrightarrow> view db' kv_table j = view db kv_table j"
proof -
  obtain db1 where db1: "kv_apply md True (kv_command CmdUpdate k v) db = (db1, [kv_command CmdUpdate k v], Ok ())"
    "view db1 = view_put kv_table (KvFsmEntry k [] v zero_time) (view db)"
    by (rule kv_update_view [OF kv k])
  have "view db1 kv_table k = Some (KvFsmEntry k [] v zero_time)" by (simp add: db1(2) view_put_at)
  then have "view (kv_set_ttl md k (now + ttl) db1) = view_put kv_table (KvEntry k [] v (now + ttl)) (view db1)"
    using kv_set_ttl_view [OF kv, of db1 k] by simp
  moreover have "kv_put_ttl md True True now k v ttl db =
      (kv_set_ttl md k (now + ttl) db1, [kv_command CmdUpdate k v], Ok ())"
    by (simp add: kv_put_ttl_def kv_put_internal_def kv_put_raft_def db1(1) x)
  ultimately show thesis
    using that [of "kv_set_ttl md k (now + ttl) db1"] by (simp add: db1(2) view_put_at)
qed

lemma kv_cas_result:
  assumes kv: "kv_table \<in> tables" and k: "k \<noteq> []"
  obtains db' where "kv_cas md now k v db =
    (case view db kv_table k of None \<Rightarrow> (db', Ok (v, True))
     | Some e \<Rightarrow> if kv_live now e then (db, Ok (en_data e, False)) else (db', Ok (v, True)))"
    "view db' = view_put kv_table (KvEntry k [] v zero_time) (view db)"
proof -
  obtain db' where "md_insert md db kv_table (KvEntry k [] v zero_time) = Some db'"
    "view db' = view_put kv_table (KvEntry k [] v zero_time) (view db)"
    using insert [OF kv, of "KvEntry k [] v zero_time" db] k by auto
  then show thesis
    using that [of db'] first [OF kv, of db k] by (simp add: kv_cas_def split: option.split)
qed

lemma kv_cas_snd:
  assumes "kv_table \<in> tables" "k \<noteq> []"
  shows "snd (kv_cas md now k v db) =
    (case view db kv_table k of None \<Rightarrow> Ok (v, True)
     | Some e \<Rightarrow> if kv_live now e then Ok (en_data e, False) else Ok (v, True))"
  by (rule kv_cas_result [OF assms, of now v db]) (simp split: option.split)

lemma kv_list_step:
  assumes "distinct (map en_key es)" "\<forall>e \<in> set es. en_key e \<notin> dom m"
  shows "foldl (\<lambda>m e. if \<not> prefix p (en_key e) then m else if \<not> kv_live now e then m else m(en_key e \<mapsto> en_data e)) m es k
    = (case List.find (\<lambda>e. en_key e = k \<and> prefix p k \<and> kv_live now e) es of None \<Rightarrow> m k | Some e \<Rightarrow> Some (en_data e))"
  using assms
proof (induction es arbitrary: m)
  case (Cons e es)
  let ?m = "if \<not> prefix p (en_key e) then m else if \<not> kv_live now e then m else m(en_key e \<mapsto> en_data e)"
  have "\<forall>x \<in> set es. en_key x \<notin> dom ?m" using Cons.prems by (auto simp: image_iff)
  moreover have "List.find (\<lambda>x. en_key x = en_key e \<and> prefix p k \<and> kv_live now x) es = None"
    using Cons.prems(1) by (auto simp: find_None_iff image_iff)
  ultimately show ?case using Cons.IH [of ?m] Cons.prems(1) by (auto split: option.split)
qed simp

text \<open>\<open>List\<close> is the live part of the table under a prefix.\<close>

lemma kv_list_view:
  assumes kv: "kv_table \<in> tables"
  shows "kv_list md now p db = Ok (\<lambda>k. case view db kv_table k of None \<Rightarrow> None
    | Some e \<Rightarrow> if prefix p k \<and> kv_live now e then Some (en_data e) else None)"
proof -
  obtain es where es: "md_all md db kv_table = Some es" "distinct (map en_key es)" "set es = ran (view db kv_table)"
    using all [OF kv] by blast
  have found: "List.find (\<lambda>e. en_key e = k \<and> prefix p k \<and> kv_live now e) es =
      (case view db kv_table k of None \<Rightarrow> None | Some e \<Rightarrow> if prefix p k \<and> kv_live now e then Some e else None)" for k
  proof (rule option_eqI)
    fix x
    have "List.find (\<lambda>e. en_key e = k \<and> prefix p k \<and> kv_live now e) es = Some x \<longleftrightarrow>
        x \<in> set es \<and> en_key x = k \<and> prefix p k \<and> kv_live now x"
      using es(2) by (induction es) auto
    also have "\<dots> \<longleftrightarrow> view db kv_table k = Some x \<and> prefix p k \<and> kv_live now x"
      using es(3) keyed by (force simp: ran_def)
    finally show "List.find (\<lambda>e. en_key e = k \<and> prefix p k \<and> kv_live now e) es = Some x \<longleftrightarrow>
        (case view db kv_table k of None \<Rightarrow> None | Some e \<Rightarrow> if prefix p k \<and> kv_live now e then Some e else None) = Some x"
      by (auto split: option.split)
  qed
  show ?thesis
    by (auto simp: kv_list_def es(1) kv_list_step [OF es(2)] found fun_eq_iff split: option.split)
qed

lemma kv_live_later: "t' \<le> t \<Longrightarrow> kv_live t e \<Longrightarrow> kv_live t' e"
  by (auto simp: kv_live_def)

lemma kv_reap_unseen:
  assumes kv: "kv_table \<in> tables" and t: "t' \<le> t"
  shows "kv_value t (view (kv_reap md t' db) kv_table k) = kv_value t (view db kv_table k)"
  using kv_live_later [OF t] by (auto simp: kv_reap_view [OF kv] kv_value_def split: option.split)

end

lemma null_compact: "json_compact ''null'' = Some ''null''"
  by code_simp

subsection \<open>Properties\<close>

text \<open>Expiry is exact and the reaper cannot be observed: a tick at time \<open>t'\<close> changes no later
  read and no outcome of a later compare-and-swap, and after it no expired entry is left.\<close>

theorem kv_reaper_invisible:
  assumes "memdb_laws md tables view" "kv_table \<in> tables" "t' \<le> t"
  shows "kv_get md t k (kv_reap md t' db) = kv_get md t k db \<and>
    (k \<noteq> [] \<longrightarrow> snd (kv_cas md t k v (kv_reap md t' db)) = snd (kv_cas md t k v db)) \<and>
    (\<forall>e. view (kv_reap md t' db) kv_table k = Some e \<longrightarrow> kv_live t' e)"
proof (intro conjI impI)
  note laws = assms(1)
  show "kv_get md t k (kv_reap md t' db) = kv_get md t k db"
    by (simp add: memdb_laws.kv_get_view [OF laws assms(2)] memdb_laws.kv_reap_unseen [OF laws assms(2,3)])
  show "\<forall>e. view (kv_reap md t' db) kv_table k = Some e \<longrightarrow> kv_live t' e"
    by (simp add: memdb_laws.kv_reap_view [OF laws assms(2)] split: option.split)
  assume k: "k \<noteq> []"
  show "snd (kv_cas md t k v (kv_reap md t' db)) = snd (kv_cas md t k v db)"
    using memdb_laws.kv_cas_snd [OF laws assms(2) k, of t v] memdb_laws.kv_live_later [OF laws assms(3)]
    by (auto simp: memdb_laws.kv_reap_view [OF laws assms(2)] split: option.split)
qed

text \<open>A compare-and-swap initialises a key once per node only: on the node where it won, every
  later one on the same database loses and returns the stored value, at any time; but nothing is
  sent through Raft, so on any other replica without the key another one wins as well.\<close>

theorem kv_cas_wins_per_replica:
  assumes "memdb_laws md tables view" "kv_table \<in> tables" "k \<noteq> []"
    and "kv_cas md t k v db1 = (db1', Ok (v, True))" "view db1 kv_table k = None" "view db2 kv_table k = None"
  shows "kv_cas md t' k v' db1' = (db1', Ok (v, False)) \<and> kv_get md t'' k db1' = Ok v \<and>
    (\<exists>db2'. kv_cas md t' k v' db2 = (db2', Ok (v', True)) \<and> kv_get md t'' k db2' = Ok v')"
proof -
  note laws = assms(1)
  have won: "view db1' = view_put kv_table (KvEntry k [] v zero_time) (view db1)"
    by (rule memdb_laws.kv_cas_result [OF laws assms(2,3), of t v db1]) (use assms(4,5) in simp)
  then have here: "view db1' kv_table k = Some (KvEntry k [] v zero_time)" by (simp add: view_put_at)
  obtain db2' where db2': "kv_cas md t' k v' db2 = (db2', Ok (v', True))"
    "view db2' kv_table k = Some (KvEntry k [] v' zero_time)"
    by (rule memdb_laws.kv_cas_result [OF laws assms(2,3), of t' v' db2]) (use assms(6) in \<open>simp add: view_put_at\<close>)
  have "kv_cas md t' k v' db1' = (db1', Ok (v, False))"
    by (rule memdb_laws.kv_cas_result [OF laws assms(2,3), of t' v' db1']) (simp add: here)
  then show ?thesis
    using here db2' by (auto simp: memdb_laws.kv_get_view [OF laws assms(2)] kv_value_def)
qed

text \<open>A time-to-live holds only on the node that took the write: there the value is gone once the
  time has passed, while a replica that applies the committed commands keeps it for ever; and a
  snapshot of that node, restored anywhere, holds in its place the JSON text of the value's base64
  form, without an expiry.\<close>

theorem kv_ttl_local_and_corrupted:
  assumes "memdb_laws md tables view" "kv_table \<in> tables" "k \<noteq> []" "now + ttl \<noteq> zero_time"
    and "kv_put_ttl md True True now k v ttl db1 = (db1', cs, Ok ())"
  shows "(\<forall>t. kv_get md t k db1' = (if t > now + ttl then Ok [] else Ok v)) \<and>
    (\<forall>t. kv_get md t k (fsm_replay md (map Some cs) db2) = Ok v) \<and>
    (\<forall>ss ps db3. fsm_snapshot md [kv_table] db1' = Some ss \<longrightarrow> fsm_persist ss = Some ps \<longrightarrow>
      (\<exists>db3'. fsm_restore md (Some ps) db3 = (db3', None) \<and> (\<forall>t. kv_get md t k db3' = Ok (json_bytes v))))"
proof (intro conjI allI impI)
  note laws = assms(1) and kv = assms(2)
  note get = memdb_laws.kv_get_view [OF laws kv]
  have leader: "view db1' kv_table k = Some (KvEntry k [] v (now + ttl))" and cs: "cs = [kv_command CmdUpdate k v]"
    by (rule memdb_laws.kv_put_ttl_view [OF laws kv assms(3,4), of v db1]; use assms(5) in simp)+
  show "kv_get md t k db1' = (if t > now + ttl then Ok [] else Ok v)" for t
    using assms(4) by (simp add: get leader kv_value_def kv_live_def)
  have "view (fsm_replay md (map Some cs) db2) kv_table k = Some (KvFsmEntry k [] v zero_time)"
    using memdb_laws.fsm_apply_spec [OF laws, of "kv_command CmdUpdate k v" db2] kv assms(3)
    by (simp add: cs spec_apply_def view_put_at)
  then show "kv_get md t k (fsm_replay md (map Some cs) db2) = Ok v" for t
    by (simp add: get kv_value_def)
  fix ss ps db3
  assume "fsm_snapshot md [kv_table] db1' = Some ss" "fsm_persist ss = Some ps"
  then obtain db3' where db3': "fsm_restore md (Some ps) db3 = (db3', None)"
    "view db3' kv_table k = Some (revive kv_table (KvEntry k [] v (now + ttl)))"
    using memdb_laws.restore_union [OF laws, of "[kv_table]" db1' ss ps db3] kv leader by auto
  have "persist_data (json_bytes v) = Some (json_bytes v)"
    using json_compact_plain [OF base64_bytes_plain] null_compact by (auto simp: json_bytes_def persist_data_def)
  then have "revive kv_table (KvEntry k [] v (now + ttl)) = KvFsmEntry k [] (json_bytes v) zero_time"
    by (simp add: revive_def restored_entry_def)
  then show "\<exists>db3'. fsm_restore md (Some ps) db3 = (db3', None) \<and> (\<forall>t. kv_get md t k db3' = Ok (json_bytes v))"
    using db3' by (auto simp: get kv_value_def)
qed

subsection \<open>Sample runs\<close>

definition kv_sample :: "string \<Rightarrow> entry list" where
  "kv_sample = (\<lambda>t. if t = kv_table then [KvEntry ''k'' [] ''v'' 5] else [])"

theorem kv_reaper_invisible_witness:
  "kv_get sample_ref 9 ''k'' (kv_reap sample_ref 7 kv_sample) = Ok []"
  using kv_reaper_invisible [OF ref.memdb_laws_axioms [of sample_tables], of 7 9 "''k''" kv_sample]
  by (simp add: kv_get_def kv_sample_def ref_db_def ref_view_def kv_live_def)

theorem kv_cas_wins_per_replica_witness:
  "\<exists>db1'. kv_cas sample_ref 1 ''k'' ''a'' (\<lambda>_. []) = (db1', Ok (''a'', True)) \<and>
    kv_cas sample_ref 2 ''k'' ''b'' db1' = (db1', Ok (''a'', False))"
proof -
  obtain db1' where won: "kv_cas sample_ref 1 ''k'' ''a'' (\<lambda>_. []) = (db1', Ok (''a'', True))"
    by (simp add: kv_cas_def ref_db_def ref_view_def)
  have "kv_cas sample_ref 2 ''k'' ''b'' db1' = (db1', Ok (''a'', False)) \<and> kv_get sample_ref 3 ''k'' db1' = Ok ''a'' \<and>
    (\<exists>db2'. kv_cas sample_ref 2 ''k'' ''b'' (\<lambda>_. []) = (db2', Ok (''b'', True)) \<and> kv_get sample_ref 3 ''k'' db2' = Ok ''b'')"
    by (rule kv_cas_wins_per_replica [OF ref.memdb_laws_axioms [of sample_tables] _ _ won])
      (simp_all add: ref_view_def)
  then show ?thesis using won by blast
qed

theorem kv_ttl_local_and_corrupted_witness:
  "\<exists>db1' cs. kv_put_ttl sample_ref True True 10 ''k'' ''hi'' 5 (\<lambda>_. []) = (db1', cs, Ok ()) \<and>
    kv_get sample_ref 16 ''k'' db1' = Ok [] \<and> kv_get sample_ref 16 ''k'' (fsm_replay sample_ref (map Some cs) (\<lambda>_. [])) = Ok ''hi''"
proof -
  obtain db1' cs where put: "kv_put_ttl sample_ref True True 10 ''k'' ''hi'' 5 (\<lambda>_. []) = (db1', cs, Ok ())"
    by (simp add: kv_put_ttl_def kv_put_internal_def kv_put_raft_def kv_apply_def fsm_apply_def fsm_update_def
        make_entry_def kv_command_def kv_set_ttl_def ref_db_def ref_view_def)
  have kv: "kv_table \<in> set sample_tables" by simp
  show ?thesis
    using kv_ttl_local_and_corrupted [OF ref.memdb_laws_axioms [of sample_tables] kv _ _ put] put by auto
qed

end
