(* ===== verification/Resilience.thy ===== *)
theory Resilience
  imports Prelude
begin

section \<open>Retries and the circuit breaker (internal/platform/resilience)\<close>

text \<open>
  \<open>CircuitBreaker.Execute\<close> is two critical sections with the protected call between them:
  \<open>cb_enter\<close> admits or rejects, \<open>cb_leave\<close> records the outcome. Calls overlap, so a run of the
  breaker is any sequence of the two, a leave for each admitted call, whatever came between
  (\<open>cb_run\<close>). \<open>Do\<close> is the retry loop; the waits between its attempts are computed in \<open>float64\<close>
  with random jitter and decide only how long it sleeps, so the model keeps what a sleep can
  end with: the timer, or the cancellation of the context.
\<close>

subsection \<open>The breaker\<close>

datatype circuit = CClosed | COpen | CHalfOpen

record breaker =
  cb_state :: circuit
  cb_failures :: int
  cb_successes :: int
  cb_fail_threshold :: int
  cb_success_threshold :: int
  cb_timeout :: duration
  cb_last_fail :: gotime
  cb_last_change :: gotime

definition new_breaker :: "int \<Rightarrow> duration \<Rightarrow> gotime \<Rightarrow> breaker" where
  "new_breaker th to now = \<lparr>cb_state = CClosed, cb_failures = 0, cb_successes = 0, cb_fail_threshold = th,
     cb_success_threshold = 2, cb_timeout = to, cb_last_fail = zero_time, cb_last_change = now\<rparr>"

definition cb_enter :: "gotime \<Rightarrow> breaker \<Rightarrow> breaker \<times> bool" where
  "cb_enter now b =
     (if cb_state b = COpen
      then (if now - cb_last_fail b > cb_timeout b
            then (b\<lparr>cb_state := CHalfOpen, cb_successes := 0, cb_last_change := now\<rparr>, True)
            else (b, False))
      else (b, True))"

definition cb_leave :: "gotime \<Rightarrow> bool \<Rightarrow> breaker \<Rightarrow> breaker" where
  "cb_leave now failed b =
     (if failed
      then
        let b1 = b\<lparr>cb_failures := cb_failures b + 1, cb_last_fail := now\<rparr> in
        if cb_failures b1 \<ge> cb_fail_threshold b1 then b1\<lparr>cb_state := COpen, cb_last_change := now\<rparr> else b1
      else
        let b1 = b\<lparr>cb_successes := cb_successes b + 1\<rparr> in
        if cb_state b1 = CHalfOpen \<and> cb_successes b1 \<ge> cb_success_threshold b1
        then b1\<lparr>cb_state := CClosed, cb_failures := 0, cb_last_change := now\<rparr>
        else if cb_state b1 = CClosed then b1\<lparr>cb_failures := 0\<rparr> else b1)"

text \<open>One call alone, entering at \<open>t\<close> and returning at \<open>t'\<close>; a rejected call does not run.\<close>

definition cb_execute :: "gotime \<Rightarrow> gotime \<Rightarrow> bool \<Rightarrow> breaker \<Rightarrow> breaker \<times> bool" where
  "cb_execute t t' failed b =
     (case cb_enter t b of
        (b1, False) \<Rightarrow> (b1, False)
      | (b1, True) \<Rightarrow> (cb_leave t' failed b1, True))"

text \<open>Overlapping calls: the state is the breaker and the number of calls in flight.\<close>

inductive cb_run :: "breaker \<Rightarrow> gotime \<Rightarrow> breaker \<Rightarrow> nat \<Rightarrow> bool" for b0 where
  cb_start: "cb_run b0 t b0 0"
| cb_admit: "cb_run b0 t b n \<Longrightarrow> t \<le> t' \<Longrightarrow> cb_enter t' b = (b', True) \<Longrightarrow> cb_run b0 t' b' (Suc n)"
| cb_reject: "cb_run b0 t b n \<Longrightarrow> t \<le> t' \<Longrightarrow> cb_enter t' b = (b', False) \<Longrightarrow> cb_run b0 t' b' n"
| cb_return: "cb_run b0 t b (Suc n) \<Longrightarrow> t \<le> t' \<Longrightarrow> cb_run b0 t' (cb_leave t' failed b) n"

text \<open>Closed means fewer failures than the threshold; half-open, fewer successes than theirs.\<close>

definition cb_ok :: "breaker \<Rightarrow> bool" where
  "cb_ok b \<longleftrightarrow> (cb_state b = CClosed \<longleftrightarrow> cb_failures b < cb_fail_threshold b) \<and>
     (cb_state b = CHalfOpen \<longrightarrow> 0 \<le> cb_successes b \<and> cb_successes b < cb_success_threshold b) \<and>
     0 < cb_fail_threshold b \<and> cb_success_threshold b = 2"

lemma cb_ok_new: "0 < th \<Longrightarrow> cb_ok (new_breaker th to now)"
  by (simp add: cb_ok_def new_breaker_def)

lemma cb_ok_enter: "cb_ok b \<Longrightarrow> cb_ok (fst (cb_enter now b))"
  by (auto simp: cb_ok_def cb_enter_def)

lemma cb_ok_leave: "cb_ok b \<Longrightarrow> cb_ok (cb_leave now failed b)"
  by (cases "cb_state b") (auto simp: cb_ok_def cb_leave_def Let_def)

lemma cb_frame [simp]:
  "cb_timeout (fst (cb_enter now b)) = cb_timeout b" "cb_timeout (cb_leave now failed b) = cb_timeout b"
  "cb_fail_threshold (cb_leave now failed b) = cb_fail_threshold b"
  "cb_last_fail (fst (cb_enter now b)) = cb_last_fail b"
  by (simp_all add: cb_enter_def cb_leave_def Let_def)

lemma cb_run_ok: "cb_run b0 t b n \<Longrightarrow> cb_ok b0 \<Longrightarrow> cb_ok b"
proof (induction rule: cb_run.induct)
  case (cb_admit t b n t' b')
  then show ?case using cb_ok_enter [of b t'] by simp
next
  case (cb_reject t b n t' b')
  then show ?case using cb_ok_enter [of b t'] by simp
qed (simp_all add: cb_ok_leave)

lemma cb_run_frame: "cb_run b0 t b n \<Longrightarrow> cb_timeout b = cb_timeout b0 \<and> cb_fail_threshold b = cb_fail_threshold b0"
proof (induction rule: cb_run.induct)
  case (cb_admit t b n t' b')
  then show ?case by (auto simp: cb_enter_def split: if_splits)
next
  case (cb_reject t b n t' b')
  then show ?case by (auto simp: cb_enter_def split: if_splits)
qed simp_all

text \<open>Failing calls one after the other.\<close>

fun fail_times :: "gotime list \<Rightarrow> breaker \<Rightarrow> breaker" where
  "fail_times [] b = b"
| "fail_times (t # ts) b = fail_times ts (fst (cb_execute t t True b))"

lemma fail_step: "cb_ok b \<Longrightarrow> cb_state b = CClosed \<Longrightarrow>
  cb_execute t t True b = (if cb_failures b + 1 \<ge> cb_fail_threshold b
     then b\<lparr>cb_failures := cb_failures b + 1, cb_last_fail := t, cb_state := COpen, cb_last_change := t\<rparr>
     else b\<lparr>cb_failures := cb_failures b + 1, cb_last_fail := t\<rparr>, True)"
  by (simp add: cb_execute_def cb_enter_def cb_leave_def Let_def)

lemma fail_times_closed:
  "cb_ok b \<Longrightarrow> cb_state b = CClosed \<Longrightarrow> cb_failures b + int (length ts) < cb_fail_threshold b \<Longrightarrow>
   cb_state (fail_times ts b) = CClosed \<and> cb_failures (fail_times ts b) = cb_failures b + int (length ts) \<and>
   cb_ok (fail_times ts b) \<and> cb_fail_threshold (fail_times ts b) = cb_fail_threshold b \<and>
   cb_timeout (fail_times ts b) = cb_timeout b"
proof (induction ts arbitrary: b)
  case (Cons t ts)
  let ?b = "b\<lparr>cb_failures := cb_failures b + 1, cb_last_fail := t\<rparr>"
  have "cb_ok ?b" using Cons.prems by (simp add: cb_ok_def)
  then show ?case using Cons.IH [of ?b] Cons.prems by (simp add: fail_step)
qed simp

subsection \<open>The retry loop\<close>

text \<open>
  What one attempt meets: the context already cancelled before it, the call's result, and
  whether the context is cancelled during the wait after it.
\<close>

record ('e, 'a) attempt =
  at_cancelled :: bool
  at_result :: "'e + 'a"
  at_wait_cancelled :: bool

datatype ('e, 'a) do_result = Returned 'a | Exhausted 'e | NotRetryable 'e | Cancelled

text \<open>\<open>k\<close> attempts remain after this one; the second component counts the calls of the function.\<close>

fun retry_loop :: "('e \<Rightarrow> bool) option \<Rightarrow> nat \<Rightarrow> nat \<Rightarrow> (nat \<Rightarrow> ('e, 'a) attempt) \<Rightarrow> ('e, 'a) do_result \<times> nat" where
  "retry_loop chk k i env =
     (if at_cancelled (env i) then (Cancelled, 0)
      else case at_result (env i) of
        Inr x \<Rightarrow> (Returned x, 1)
      | Inl e \<Rightarrow>
          if (case chk of None \<Rightarrow> False | Some p \<Rightarrow> \<not> p e) then (NotRetryable e, 1)
          else (case k of
            0 \<Rightarrow> (Exhausted e, 1)
          | Suc k' \<Rightarrow>
              if at_wait_cancelled (env i) then (Cancelled, 1)
              else (case retry_loop chk k' (Suc i) env of (r, n) \<Rightarrow> (r, Suc n))))"

definition retry_do :: "int \<Rightarrow> ('e \<Rightarrow> bool) option \<Rightarrow> (nat \<Rightarrow> ('e, 'a) attempt) \<Rightarrow> ('e, 'a) do_result \<times> nat" where
  "retry_do mx chk env = retry_loop chk (nat ((if mx \<le> 0 then 1 else mx) - 1)) 1 env"

declare retry_loop.simps [simp del]

lemma retry_loop_calls: "snd (retry_loop chk k i env) \<le> Suc k"
proof (induction k arbitrary: i)
  case 0
  show ?case by (subst retry_loop.simps) (simp split: sum.split option.split)
next
  case (Suc k)
  then have "snd (retry_loop chk k (Suc i) env) \<le> Suc k" .
  then show ?case by (subst retry_loop.simps) (auto split: sum.split option.split prod.split)
qed

lemma retry_loop_result:
  "(\<forall>x. fst (retry_loop chk k i env) = Returned x \<longrightarrow>
      (\<exists>j. i \<le> j \<and> j \<le> i + k \<and> at_result (env j) = Inr x \<and> (\<forall>m. i \<le> m \<and> m < j \<longrightarrow> isl (at_result (env m))) \<and>
           snd (retry_loop chk k i env) = Suc (j - i)))"
proof (induction k arbitrary: i)
  case 0
  show ?case by (subst (1 2) retry_loop.simps) (auto split: sum.splits option.splits)
next
  case (Suc k)
  show ?case
  proof (intro allI impI)
    fix x
    assume ret: "fst (retry_loop chk (Suc k) i env) = Returned x"
    show "\<exists>j. i \<le> j \<and> j \<le> i + Suc k \<and> at_result (env j) = Inr x \<and> (\<forall>m. i \<le> m \<and> m < j \<longrightarrow> isl (at_result (env m))) \<and>
           snd (retry_loop chk (Suc k) i env) = Suc (j - i)"
    proof (cases "at_result (env i)")
      case (Inr y)
      then show ?thesis using ret by (subst (asm) retry_loop.simps, subst retry_loop.simps)
        (auto split: if_splits intro!: exI [of _ i])
    next
      case (Inl e)
      have rec: "fst (retry_loop chk k (Suc i) env) = Returned x"
        and n: "snd (retry_loop chk (Suc k) i env) = Suc (snd (retry_loop chk k (Suc i) env))"
        using ret Inl by (subst (asm) retry_loop.simps, auto split: if_splits prod.splits)
          (subst (asm) retry_loop.simps, subst retry_loop.simps, auto split: if_splits prod.splits)
      obtain j where j: "Suc i \<le> j" "j \<le> Suc i + k" "at_result (env j) = Inr x"
        "\<forall>m. Suc i \<le> m \<and> m < j \<longrightarrow> isl (at_result (env m))" "snd (retry_loop chk k (Suc i) env) = Suc (j - Suc i)"
        using Suc.IH rec by blast
      have "\<forall>m. i \<le> m \<and> m < j \<longrightarrow> isl (at_result (env m))"
        using j(4) Inl by (metis Suc_leI isl_def le_neq_implies_less)
      then show ?thesis using j n by (intro exI [of _ j]) auto
    qed
  qed
qed

subsection \<open>Properties\<close>

text \<open>The breaker trips exactly at its threshold: in any run of overlapping calls it is closed if
  and only if fewer failures than the threshold are counted; a closed breaker with no failure
  stays closed through one failing call fewer than the threshold, opens with the next, and then
  turns every call away until the timeout has passed.\<close>

theorem breaker_trips_at_threshold:
  assumes "cb_run (new_breaker th to t0) now b n" "0 < th"
  shows "(cb_state b = CClosed \<longleftrightarrow> cb_failures b < th) \<and>
    (cb_state b = CClosed \<longrightarrow> cb_failures b = 0 \<longrightarrow> int (length ts) = th - 1 \<longrightarrow>
      cb_state (fail_times ts b) = CClosed \<and> cb_state (fail_times (ts @ [t]) b) = COpen \<and>
      (\<forall>t'. t' - t \<le> to \<longrightarrow> cb_enter t' (fail_times (ts @ [t]) b) = (fail_times (ts @ [t]) b, False)))"
proof -
  have ok: "cb_ok b" and th: "cb_fail_threshold b = th" and tmo: "cb_timeout b = to"
    using cb_run_ok [OF assms(1)] cb_ok_new [OF assms(2)] cb_run_frame [OF assms(1)] by (simp_all add: new_breaker_def)
  have append: "fail_times (ts @ [t]) b = fst (cb_execute t t True (fail_times ts b))"
    by (induction ts arbitrary: b) auto
  show ?thesis
  proof (intro conjI impI)
    show "cb_state b = CClosed \<longleftrightarrow> cb_failures b < th" using ok th by (simp add: cb_ok_def)
    assume *: "cb_state b = CClosed" "cb_failures b = 0" "int (length ts) = th - 1"
    then have c: "cb_state (fail_times ts b) = CClosed" "cb_failures (fail_times ts b) = th - 1" "cb_ok (fail_times ts b)"
      "cb_fail_threshold (fail_times ts b) = th" "cb_timeout (fail_times ts b) = to"
      using fail_times_closed [OF ok, of ts] th tmo by auto
    show "cb_state (fail_times ts b) = CClosed" by (rule c(1))
    show "cb_state (fail_times (ts @ [t]) b) = COpen"
      "\<forall>t'. t' - t \<le> to \<longrightarrow> cb_enter t' (fail_times (ts @ [t]) b) = (fail_times (ts @ [t]) b, False)"
      by (simp_all add: append fail_step [OF c(3,1)] c cb_enter_def)
  qed
qed

text \<open>The breaker recovers: from whatever state overlapping calls have left it in, once the timeout
  since the last failure has passed, two successful calls in a row run and leave it closed with no
  failure counted.\<close>

theorem breaker_recovers:
  assumes "cb_run (new_breaker th to t0) now b n" "0 < th" "t1 - cb_last_fail b > to" "t2 - cb_last_fail b > to"
  shows "snd (cb_execute t1 t1' False b) \<and>
    snd (cb_execute t2 t2' False (fst (cb_execute t1 t1' False b))) \<and>
    cb_state (fst (cb_execute t2 t2' False (fst (cb_execute t1 t1' False b)))) = CClosed \<and>
    cb_failures (fst (cb_execute t2 t2' False (fst (cb_execute t1 t1' False b)))) = 0"
proof -
  have "cb_ok b" "cb_timeout b = to"
    using cb_run_ok [OF assms(1)] cb_ok_new [OF assms(2)] cb_run_frame [OF assms(1)] by (simp_all add: new_breaker_def)
  then show ?thesis
    using assms(3,4) by (cases "cb_state b") (auto simp: cb_ok_def cb_execute_def cb_enter_def cb_leave_def Let_def)
qed

text \<open>The retry loop ends after at most the configured number of calls (one when it is not
  positive), and a value it returns is that of the first call that did not fail.\<close>

theorem retry_bounded_first_success:
  "snd (retry_do mx chk env) \<le> nat (max 1 mx) \<and>
   (\<forall>x. fst (retry_do mx chk env) = Returned x \<longrightarrow>
     (\<exists>j. 1 \<le> j \<and> j \<le> nat (max 1 mx) \<and> at_result (env j) = Inr x \<and> (\<forall>m. 1 \<le> m \<and> m < j \<longrightarrow> isl (at_result (env m))) \<and>
       snd (retry_do mx chk env) = j))"
proof -
  let ?k = "nat ((if mx \<le> 0 then 1 else mx) - 1)"
  have k: "nat (max 1 mx) = Suc ?k" by auto
  show ?thesis
    using retry_loop_calls [of chk ?k 1 env] retry_loop_result [of chk ?k 1 env]
    unfolding retry_do_def k by (auto; force)
qed

subsection \<open>Sample runs\<close>

theorem breaker_trips_at_threshold_witness:
  "cb_state (fail_times ([1, 2] @ [3]) (new_breaker 3 10 0)) = COpen"
  using breaker_trips_at_threshold [OF cb_start [of "new_breaker 3 10 0" 0], of "[1, 2]" 3]
  by (simp add: new_breaker_def)

theorem breaker_recovers_witness:
  "cb_state (fst (cb_execute 30 30 False (fst (cb_execute 20 20 False (cb_leave 3 True (new_breaker 1 10 0)))))) = CClosed"
proof -
  have "cb_run (new_breaker 1 10 0) 0 (new_breaker 1 10 0) (Suc 0)"
    by (rule cb_admit [OF cb_start, of 0 0]) (simp_all add: cb_enter_def new_breaker_def)
  from breaker_recovers [OF cb_return [OF this, of 3 True], of 20 30 20 30] show ?thesis
    by (simp add: cb_leave_def new_breaker_def)
qed

definition flaky :: "nat \<Rightarrow> (string, nat) attempt" where
  "flaky i = \<lparr>at_cancelled = False, at_result = (if i < 3 then Inl ''busy'' else Inr i), at_wait_cancelled = False\<rparr>"

theorem retry_bounded_first_success_witness:
  "retry_do 5 None flaky = (Returned 3, 3) \<and> snd (retry_do 5 None flaky) \<le> 5"
  using retry_bounded_first_success [of 5 None flaky]
  by (simp add: retry_do_def retry_loop.simps flaky_def eval_nat_numeral)

end
