(* ===== verification/Go_Strings.thy ===== *)
theory Go_Strings
  imports Prelude "HOL-Library.Sublist"
begin

section \<open>What the components use of strings and strconv\<close>

text \<open>
  \<open>strings.Split\<close> at one character, \<open>Join\<close>, \<open>Index\<close>, \<open>HasSuffix\<close>, \<open>TrimSpace\<close>, \<open>Fields\<close>,
  \<open>ToLower\<close>, \<open>ReplaceAll\<close> and \<open>strconv.Atoi\<close>, on ASCII text: the wider notion of space and case that Go has
  for other Unicode text is not modelled.
\<close>

fun split_on :: "char \<Rightarrow> string \<Rightarrow> string list" where
  "split_on c [] = [[]]"
| "split_on c (x # xs) =
     (if x = c then [] # split_on c xs
      else case split_on c xs of [] \<Rightarrow> [[x]] | w # ws \<Rightarrow> (x # w) # ws)"

fun join_with :: "string \<Rightarrow> string list \<Rightarrow> string" where
  "join_with sep [] = []"
| "join_with sep [w] = w"
| "join_with sep (w # v # ws) = w @ sep @ join_with sep (v # ws)"

fun index_of :: "string \<Rightarrow> string \<Rightarrow> nat option" where
  "index_of w [] = (if w = [] then Some 0 else None)"
| "index_of w (x # xs) = (if prefix w (x # xs) then Some 0 else map_option Suc (index_of w xs))"

definition ascii_space :: "char \<Rightarrow> bool" where
  "ascii_space c \<longleftrightarrow> (of_char c :: nat) \<in> {9, 10, 11, 12, 13, 32}"

definition trim_left :: "string \<Rightarrow> string" where
  "trim_left s = dropWhile ascii_space s"

definition trim_right :: "string \<Rightarrow> string" where
  "trim_right s = rev (dropWhile ascii_space (rev s))"

definition trim_space :: "string \<Rightarrow> string" where
  "trim_space s = trim_right (trim_left s)"

text \<open>Maximal runs of non-spaces; the argument \<open>w\<close> is the run being read.\<close>

fun fields_acc :: "string \<Rightarrow> string \<Rightarrow> string list" where
  "fields_acc w [] = (if w = [] then [] else [w])"
| "fields_acc w (x # xs) =
     (if ascii_space x then (if w = [] then fields_acc [] xs else w # fields_acc [] xs)
      else fields_acc (w @ [x]) xs)"

definition fields_of :: "string \<Rightarrow> string list" where
  "fields_of s = fields_acc [] s"

definition lower_char :: "char \<Rightarrow> char" where
  "lower_char c = (if 65 \<le> (of_char c :: nat) \<and> (of_char c :: nat) \<le> 90 then char_of ((of_char c :: nat) + 32) else c)"

definition to_lower :: "string \<Rightarrow> string" where
  "to_lower s = map lower_char s"

definition upper_char :: "char \<Rightarrow> char" where
  "upper_char c = (if 97 \<le> (of_char c :: nat) \<and> (of_char c :: nat) \<le> 122 then char_of ((of_char c :: nat) - 32) else c)"

definition to_upper :: "string \<Rightarrow> string" where
  "to_upper s = map upper_char s"

text \<open>\<open>strings.Contains\<close>; a nonempty text replaced everywhere, from the left.\<close>

definition contains :: "string \<Rightarrow> string \<Rightarrow> bool" where
  "contains s w \<longleftrightarrow> index_of w s \<noteq> None"

definition ascii_digit :: "char \<Rightarrow> bool" where
  "ascii_digit c \<longleftrightarrow> 48 \<le> (of_char c :: nat) \<and> (of_char c :: nat) \<le> 57"

definition digits_value :: "string \<Rightarrow> int" where
  "digits_value s = foldl (\<lambda>n c. 10 * n + (of_char c - 48)) 0 s"

text \<open>A sign, at least one digit, and a value of 64 bits.\<close>

definition atoi :: "string \<Rightarrow> int option" where
  "atoi s =
     (let (neg, ds) = (case s of
            c # cs \<Rightarrow> if c = CHR ''-'' then (True, cs) else if c = CHR ''+'' then (False, cs) else (False, s)
          | [] \<Rightarrow> (False, []));
          v = (if neg then - digits_value ds else digits_value ds)
      in if ds = [] \<or> \<not> list_all ascii_digit ds then None
         else if - 9223372036854775808 \<le> v \<and> v \<le> max_i64 then Some v else None)"

subsection \<open>Split and join\<close>

lemma split_on_ne [simp]: "split_on c s \<noteq> []"
  by (induction s) (auto split: list.split)

lemma join_Cons: "ws \<noteq> [] \<Longrightarrow> join_with sep (w # ws) = w @ sep @ join_with sep ws"
  by (cases ws) auto

lemma join_split [simp]: "join_with [c] (split_on c s) = s"
proof (induction s)
  case (Cons x xs)
  obtain w ws where "split_on c xs = w # ws" by (cases "split_on c xs") auto
  then show ?case using Cons by (cases ws) (auto simp: join_Cons)
qed simp

lemma split_on_plain [simp]: "c \<notin> set w \<Longrightarrow> split_on c w = [w]"
  by (induction w) auto

lemma split_on_append: "c \<notin> set w \<Longrightarrow> split_on c (w @ c # s) = w # split_on c s"
  by (induction w) auto

lemma split_join: "ws \<noteq> [] \<Longrightarrow> \<forall>w \<in> set ws. c \<notin> set w \<Longrightarrow> split_on c (join_with [c] ws) = ws"
proof (induction ws rule: induct_list012)
  case (3 w v ws)
  then show ?case by (simp add: split_on_append)
qed auto

lemma split_on_no_sep: "w \<in> set (split_on c s) \<Longrightarrow> c \<notin> set w"
proof (induction s arbitrary: w)
  case (Cons x xs)
  obtain v vs where "split_on c xs = v # vs" by (cases "split_on c xs") auto
  then show ?case using Cons by (auto split: if_splits)
qed simp

subsection \<open>Index and trimming\<close>

lemma index_of_absent: "w \<noteq> [] \<Longrightarrow> hd w \<notin> set s \<Longrightarrow> index_of w s = None"
  by (induction s) (auto simp: prefix_Cons neq_Nil_conv)

lemma index_of_at: "w \<noteq> [] \<Longrightarrow> hd w \<notin> set s \<Longrightarrow> index_of w (s @ w @ r) = Some (length s)"
proof (induction s)
  case Nil
  then show ?case by (cases w) auto
next
  case (Cons x xs)
  then have "\<not> prefix w (x # xs @ w @ r)" by (auto simp: prefix_Cons neq_Nil_conv)
  then show ?case using Cons by simp
qed

lemma trim_id [simp]: "\<forall>c \<in> set s. \<not> ascii_space c \<Longrightarrow> trim_space s = s"
proof -
  assume "\<forall>c \<in> set s. \<not> ascii_space c"
  then have "dropWhile ascii_space s = s" "dropWhile ascii_space (rev s) = rev s"
    by (simp_all add: dropWhile_eq_self_iff) (metis hd_in_set rev_is_Nil_conv set_rev)+
  then show ?thesis by (simp add: trim_space_def trim_left_def trim_right_def)
qed

lemma trim_ends: "s \<noteq> [] \<Longrightarrow> \<not> ascii_space (hd s) \<Longrightarrow> \<not> ascii_space (last s) \<Longrightarrow> trim_space s = s"
proof -
  assume "s \<noteq> []" "\<not> ascii_space (hd s)" "\<not> ascii_space (last s)"
  then have "dropWhile ascii_space s = s" "dropWhile ascii_space (rev s) = rev s"
    by (auto simp: dropWhile_eq_self_iff hd_rev)
  then show ?thesis by (simp add: trim_space_def trim_left_def trim_right_def)
qed

subsection \<open>Replacing\<close>

text \<open>\<open>strings.ReplaceAll\<close> for a nonempty text.\<close>

function replace_all :: "string \<Rightarrow> string \<Rightarrow> string \<Rightarrow> string" where
  "replace_all old new s =
     (if old = [] then s
      else case index_of old s of None \<Rightarrow> s
        | Some i \<Rightarrow> take i s @ new @ replace_all old new (drop (i + length old) s))"
  by auto

lemma index_of_le: "index_of w s = Some i \<Longrightarrow> i + length w \<le> length s"
  by (induction s arbitrary: i) (auto split: if_splits dest: prefix_length_le)

lemma index_of_prefix: "index_of w s = Some i \<Longrightarrow> prefix w (drop i s)"
  by (induction s arbitrary: i) (auto split: if_splits)

termination replace_all
proof (relation "measure (\<lambda>(old, new, s). length s)")
  fix old new s :: string and i assume "old \<noteq> []" "index_of old s = Some i"
  then show "((old, new, drop (i + length old) s), old, new, s) \<in> measure (\<lambda>(old, new, s). length s)"
    using index_of_le[of old s i] by (cases old) auto
qed simp
declare replace_all.simps [simp del]

lemma replace_all_Nil [simp]: "old \<noteq> [] \<Longrightarrow> replace_all old new [] = []"
  by (simp add: replace_all.simps)

lemma replace_all_Cons:
  assumes "old \<noteq> []"
  shows "replace_all old new (x # xs) =
    (if prefix old (x # xs) then new @ replace_all old new (drop (length old) (x # xs)) else x # replace_all old new xs)"
  using assms by (subst (1 3) replace_all.simps) (auto split: option.split)

subsection \<open>Printing numbers\<close>

definition digit_char :: "nat \<Rightarrow> char" where
  "digit_char d = char_of (48 + d)"

fun print_nat :: "nat \<Rightarrow> string" where
  "print_nat n = (if n < 10 then [digit_char n] else print_nat (n div 10) @ [digit_char (n mod 10)])"

declare print_nat.simps [simp del]

definition print_int :: "int \<Rightarrow> string" where
  "print_int i = (if i < 0 then CHR ''-'' # print_nat (nat (- i)) else print_nat (nat i))"

lemma of_digit_char: "d < 10 \<Longrightarrow> (of_char (digit_char d) :: nat) = 48 + d"
  by (simp add: digit_char_def of_char_of take_bit_eq_mod)

lemma of_digit_char_int: "d < 10 \<Longrightarrow> (of_char (digit_char d) :: int) = 48 + int d"
  using of_digit_char[of d] by (metis of_nat_add of_nat_numeral of_nat_of_char)

lemma digit_char_digit: "d < 10 \<Longrightarrow> ascii_digit (digit_char d)"
  by (simp add: ascii_digit_def of_digit_char)

lemma digits_value_append: "digits_value (s @ t) = digits_value s * 10 ^ length t + digits_value t"
proof (induction t rule: rev_induct)
  case (snoc c t)
  have "digits_value (u @ [c]) = 10 * digits_value u + (of_char c - 48)" for u by (simp add: digits_value_def)
  from this[of "s @ t"] this[of t] show ?case using snoc by (simp add: algebra_simps)
qed (simp add: digits_value_def)

lemma digits_value_zeros: "digits_value (replicate k CHR ''0'') = 0"
  by (induction k) (simp_all add: digits_value_def)

lemma print_nat_props: "print_nat n \<noteq> [] \<and> list_all ascii_digit (print_nat n) \<and> digits_value (print_nat n) = int n"
proof (induction n rule: print_nat.induct)
  case (1 n)
  show ?case
  proof (cases "n < 10")
    case True then show ?thesis by (simp add: print_nat.simps[of n] digit_char_digit digits_value_def of_digit_char_int)
  next
    case False
    then show ?thesis using 1 by (simp add: print_nat.simps[of n] digit_char_digit digits_value_append)
      (simp add: digits_value_def of_digit_char_int zdiv_int zmod_int)
  qed
qed

lemma print_nat_digits: "c \<in> set (print_nat n) \<Longrightarrow> ascii_digit c"
  using print_nat_props[of n] by (simp add: list_all_iff)

lemma print_nat_length: "n < 10 ^ k \<Longrightarrow> 0 < k \<Longrightarrow> length (print_nat n) \<le> k"
proof (induction n arbitrary: k rule: print_nat.induct)
  case (1 n)
  show ?case
  proof (cases "n < 10")
    case True then show ?thesis using 1 by (simp add: print_nat.simps[of n])
  next
    case False
    then obtain j where j: "k = Suc j" "0 < j" using 1(2,3) by (cases k; cases "k - 1") auto
    have "n div 10 < 10 ^ j" using 1(2) j by (simp add: less_mult_imp_div_less mult.commute)
    then show ?thesis using 1(1)[OF False, of j] j False by (simp add: print_nat.simps[of n])
  qed
qed

lemma not_digit: "\<not> ascii_digit CHR ''.''" "\<not> ascii_digit CHR ''-''" "\<not> ascii_digit CHR ''+''" "\<not> ascii_digit CHR ''e''" "\<not> ascii_digit CHR ''E''"
  by (simp_all add: ascii_digit_def)

lemma digit_not_space: "ascii_digit c \<Longrightarrow> \<not> ascii_space c"
  by (auto simp: ascii_digit_def ascii_space_def)

end
