(* ===== verification/Client_Cache.thy ===== *)
theory Client_Cache
  imports Go_Strings
begin

section \<open>The client-side cache (internal/client/cache)\<close>

text \<open>
  Keys, the indexed \<open>ThreadSafeStore\<close> and the \<open>DeltaFIFO\<close>. Objects are opaque: the metadata
  accessor and the index functions are arguments (a \<open>None\<close> of theirs is an error). An item of the
  store may be a nil interface, so it is an option. The loop over the indexers touches, for
  each name, that name's index only, so its order does not matter and it is written pointwise;
  a Go set \<open>map[string]struct{}\<close> is a set.
\<close>

subsection \<open>Keys (key.go)\<close>

datatype 'o cached = Obj 'o | Tombstone string

definition meta_key :: "('o \<Rightarrow> (string \<times> string) option) \<Rightarrow> 'o cached \<Rightarrow> string option" where
  "meta_key acc x =
     (case x of
        Tombstone k \<Rightarrow> Some k
      | Obj y \<Rightarrow>
          (case acc y of
             None \<Rightarrow> None
           | Some (ns, name) \<Rightarrow> if name = [] then None else if ns = [] then Some name else Some (ns @ ''/'' @ name)))"

definition split_key :: "string \<Rightarrow> (string \<times> string) option" where
  "split_key k =
     (case split_on CHR ''/'' k of
        [n] \<Rightarrow> Some ([], n)
      | [ns, n] \<Rightarrow> Some (ns, n)
      | _ \<Rightarrow> None)"

subsection \<open>ThreadSafeStore\<close>

type_synonym index = "string \<rightharpoonup> string set"

record 'o ts_store =
  ts_items :: "string \<rightharpoonup> 'o option"
  ts_indexers :: "string \<rightharpoonup> ('o \<Rightarrow> string list option)"
  ts_indices :: "string \<rightharpoonup> index"

definition new_ts_store :: "(string \<rightharpoonup> ('o \<Rightarrow> string list option)) \<Rightarrow> 'o ts_store" where
  "new_ts_store ixs = \<lparr>ts_items = Map.empty, ts_indexers = ixs, ts_indices = Map.empty\<rparr>"

fun drop_keys :: "string \<Rightarrow> string list \<Rightarrow> index \<Rightarrow> index" where
  "drop_keys k [] b = b"
| "drop_keys k (v # vs) b =
     drop_keys k vs (case b v of None \<Rightarrow> b
       | Some ks \<Rightarrow> if ks - {k} = {} then b(v := None) else b(v \<mapsto> ks - {k}))"

fun add_keys :: "string \<Rightarrow> string list \<Rightarrow> index \<Rightarrow> index" where
  "add_keys k [] b = b"
| "add_keys k (v # vs) b = add_keys k vs (b(v \<mapsto> insert k (case b v of None \<Rightarrow> {} | Some ks \<Rightarrow> ks)))"

definition update_index :: "('o \<Rightarrow> string list option) \<Rightarrow> 'o option \<Rightarrow> 'o option \<Rightarrow> string \<Rightarrow> index option \<Rightarrow> index option" where
  "update_index fn old new k b =
     (let b1 = (case old of None \<Rightarrow> b
            | Some x \<Rightarrow> (case fn x of None \<Rightarrow> b | Some vs \<Rightarrow> map_option (drop_keys k vs) b))
      in case new of None \<Rightarrow> b1
         | Some y \<Rightarrow> (case fn y of None \<Rightarrow> b1
             | Some vs \<Rightarrow> Some (add_keys k vs (case b1 of None \<Rightarrow> Map.empty | Some m \<Rightarrow> m))))"

definition update_indices :: "'o option \<Rightarrow> 'o option \<Rightarrow> string \<Rightarrow> 'o ts_store \<Rightarrow> 'o ts_store" where
  "update_indices old new k s = s\<lparr>ts_indices := (\<lambda>name. case ts_indexers s name of
     None \<Rightarrow> ts_indices s name
   | Some fn \<Rightarrow> update_index fn old new k (ts_indices s name))\<rparr>"

definition ts_add :: "string \<Rightarrow> 'o option \<Rightarrow> 'o ts_store \<Rightarrow> 'o ts_store" where
  "ts_add k x s =
     (let s1 = s\<lparr>ts_items := (ts_items s)(k \<mapsto> x)\<rparr> in
      case ts_items s k of
        Some old \<Rightarrow> update_indices old x k s1
      | None \<Rightarrow> update_indices None x k s1)"

definition ts_delete :: "string \<Rightarrow> 'o ts_store \<Rightarrow> 'o ts_store" where
  "ts_delete k s =
     (case ts_items s k of
        None \<Rightarrow> s
      | Some x \<Rightarrow> update_indices x None k (s\<lparr>ts_items := (ts_items s)(k := None)\<rparr>))"

definition ts_get :: "string \<Rightarrow> 'o ts_store \<Rightarrow> 'o option option" where
  "ts_get k s = ts_items s k"

text \<open>\<open>List\<close> and \<open>ListKeys\<close> range over the items in some order \<open>ks\<close>.\<close>

definition ts_list :: "string list \<Rightarrow> 'o ts_store \<Rightarrow> 'o option list" where
  "ts_list ks s = List.map_filter (\<lambda>k. ts_items s k) ks"

definition bucket_of :: "index option \<Rightarrow> string \<Rightarrow> string set" where
  "bucket_of ob v = (case ob of None \<Rightarrow> {} | Some b \<Rightarrow> (case b v of None \<Rightarrow> {} | Some ks \<Rightarrow> ks))"

definition bucket :: "string \<Rightarrow> string \<Rightarrow> 'o ts_store \<Rightarrow> string set" where
  "bucket name v s = bucket_of (ts_indices s name) v"

text \<open>\<open>ByIndex\<close>, with the order \<open>ks\<close> in which the bucket is ranged over.\<close>

definition ts_by_index :: "string list \<Rightarrow> 'o ts_store \<Rightarrow> 'o option list" where
  "ts_by_index ks s = List.map_filter (\<lambda>k. ts_items s k) ks"

definition ts_replace :: "string list \<Rightarrow> (string \<rightharpoonup> 'o option) \<Rightarrow> 'o ts_store \<Rightarrow> 'o ts_store" where
  "ts_replace ks items s =
     foldl (\<lambda>s k. update_indices None (the (items k)) k s) (s\<lparr>ts_items := items, ts_indices := Map.empty\<rparr>) ks"

subsection \<open>DeltaFIFO\<close>

datatype delta_type = DeltaAdded | DeltaUpdated | DeltaDeleted | DeltaSync

type_synonym 'o delta = "delta_type \<times> 'o cached"

record 'o fifo =
  ff_items :: "string \<rightharpoonup> 'o delta list"
  ff_queue :: "string list"
  ff_closed :: bool

datatype fifo_error = KeyFailed | FifoClosed

definition new_fifo :: "'o fifo" where
  "new_fifo = \<lparr>ff_items = Map.empty, ff_queue = [], ff_closed = False\<rparr>"

text \<open>\<open>dedupCompress\<close> looks at the last two deltas.\<close>

definition dedup_compress :: "'o delta list \<Rightarrow> 'o delta list" where
  "dedup_compress d =
     (if length d < 2 then d
      else if fst (last d) = DeltaDeleted \<and> fst (d ! (length d - 2)) = DeltaDeleted then butlast d
      else d)"

definition queue_delta :: "('o cached \<Rightarrow> string option) \<Rightarrow> delta_type \<Rightarrow> 'o cached \<Rightarrow> 'o fifo \<Rightarrow> 'o fifo \<times> fifo_error option" where
  "queue_delta key t x f =
     (case key x of
        None \<Rightarrow> (f, Some KeyFailed)
      | Some k \<Rightarrow>
          if ff_closed f then (f, Some FifoClosed)
          else
            let ds = (case ff_items f k of None \<Rightarrow> [] | Some ds \<Rightarrow> ds) in
            (f\<lparr>ff_items := (ff_items f)(k \<mapsto> dedup_compress (ds @ [(t, x)])),
               ff_queue := (if ff_items f k = None then ff_queue f @ [k] else ff_queue f)\<rparr>, None))"

text \<open>\<open>Pop\<close> waits on an empty queue that is not closed: \<open>Ok None\<close>.\<close>

definition fifo_pop :: "'o fifo \<Rightarrow> 'o fifo \<times> (fifo_error, 'o delta list option) outcome" where
  "fifo_pop f =
     (if ff_closed f then (f, Err FifoClosed)
      else case ff_queue f of
        [] \<Rightarrow> (f, Ok None)
      | k # ks \<Rightarrow> (f\<lparr>ff_queue := ks, ff_items := (ff_items f)(k := None)\<rparr>,
                   Ok (Some (case ff_items f k of None \<Rightarrow> [] | Some ds \<Rightarrow> ds))))"

definition fifo_close :: "'o fifo \<Rightarrow> 'o fifo" where
  "fifo_close f = f\<lparr>ff_closed := True\<rparr>"

fun sync_all :: "('o cached \<Rightarrow> string option) \<Rightarrow> 'o cached list \<Rightarrow> 'o fifo \<Rightarrow> 'o fifo \<times> fifo_error option" where
  "sync_all key [] f = (f, None)"
| "sync_all key (x # xs) f =
     (case queue_delta key DeltaSync x f of
        (f', Some e) \<Rightarrow> (f', Some e)
      | (f', None) \<Rightarrow> sync_all key xs f')"

fun bury_all :: "('o cached \<Rightarrow> string option) \<Rightarrow> string list \<Rightarrow> 'o fifo \<Rightarrow> 'o fifo \<times> fifo_error option" where
  "bury_all key [] f = (f, None)"
| "bury_all key (k # ks) f =
     (case queue_delta key DeltaDeleted (Tombstone k) f of
        (f', Some e) \<Rightarrow> (f', Some e)
      | (f', None) \<Rightarrow> bury_all key ks f')"

text \<open>\<open>Replace\<close>; \<open>ks\<close> is the order in which the items are ranged over for stale keys.\<close>

definition fifo_replace :: "('o cached \<Rightarrow> string option) \<Rightarrow> string list \<Rightarrow> 'o cached list
    \<Rightarrow> 'o fifo \<Rightarrow> 'o fifo \<times> fifo_error option" where
  "fifo_replace key ks xs f =
     (case sync_all key xs f of
        (f1, Some e) \<Rightarrow> (f1, Some e)
      | (f1, None) \<Rightarrow>
          bury_all key (filter (\<lambda>k. Some k \<notin> key ` set xs) ks) f1)"

subsection \<open>Keys round-trip\<close>

lemma split_key_simps:
  "CHR ''/'' \<notin> set n \<Longrightarrow> split_key n = Some ([], n)"
  "CHR ''/'' \<notin> set ns \<Longrightarrow> CHR ''/'' \<notin> set n \<Longrightarrow> split_key (ns @ CHR ''/'' # n) = Some (ns, n)"
  by (simp_all add: split_key_def split_on_append)

lemma meta_key_split:
  "acc x = Some (ns, n) \<Longrightarrow> meta_key acc (Obj x) = Some k \<Longrightarrow> CHR ''/'' \<notin> set ns \<Longrightarrow> CHR ''/'' \<notin> set n \<Longrightarrow>
   split_key k = Some (ns, n)"
  by (auto simp: meta_key_def split_key_simps split: if_splits)

subsection \<open>The index is exact\<close>

fun index_vals :: "('o \<Rightarrow> string list option) \<Rightarrow> 'o option \<Rightarrow> string set" where
  "index_vals fn None = {}"
| "index_vals fn (Some x) = (case fn x of None \<Rightarrow> {} | Some vs \<Rightarrow> set vs)"

definition no_empty_bucket :: "index option \<Rightarrow> bool" where
  "no_empty_bucket ob \<longleftrightarrow> (\<forall>b v. ob = Some b \<longrightarrow> b v \<noteq> Some {})"

lemma bucket_drop1: "bucket_of (Some (case b w of None \<Rightarrow> b
    | Some ks \<Rightarrow> if ks - {k} = {} then b(w := None) else b(w \<mapsto> ks - {k}))) v
  = bucket_of (Some b) v - (if v = w then {k} else {})"
  by (auto simp: bucket_of_def split: option.split)

lemma bucket_add1: "bucket_of (Some (b(w \<mapsto> insert k (case b w of None \<Rightarrow> {} | Some ks \<Rightarrow> ks)))) v
  = bucket_of (Some b) v \<union> (if v = w then {k} else {})"
  by (auto simp: bucket_of_def split: option.split)

lemma bucket_drop: "bucket_of (Some (drop_keys k vs b)) v = bucket_of (Some b) v - (if v \<in> set vs then {k} else {})"
proof (induction vs arbitrary: b)
  case (Cons w vs)
  show ?case unfolding drop_keys.simps Cons.IH bucket_drop1 by auto
qed simp

lemma bucket_add: "bucket_of (Some (add_keys k vs b)) v = bucket_of (Some b) v \<union> (if v \<in> set vs then {k} else {})"
proof (induction vs arbitrary: b)
  case (Cons w vs)
  show ?case unfolding add_keys.simps Cons.IH bucket_add1 by auto
qed simp

lemma bucket_None [simp]: "bucket_of None v = {}" "bucket_of (Some Map.empty) v = {}"
  by (simp_all add: bucket_of_def)

lemma bucket_update: "bucket_of (update_index fn old new k b) v =
  (bucket_of b v - (if v \<in> index_vals fn old then {k} else {})) \<union> (if v \<in> index_vals fn new then {k} else {})"
proof -
  define b1 where "b1 = (case old of None \<Rightarrow> b
    | Some x \<Rightarrow> (case fn x of None \<Rightarrow> b | Some vs \<Rightarrow> map_option (drop_keys k vs) b))"
  have b1: "bucket_of b1 v = bucket_of b v - (if v \<in> index_vals fn old then {k} else {})"
    by (cases b; cases old) (simp_all add: b1_def bucket_drop split: option.split)
  have "update_index fn old new k b = (case new of None \<Rightarrow> b1
         | Some y \<Rightarrow> (case fn y of None \<Rightarrow> b1
             | Some vs \<Rightarrow> Some (add_keys k vs (case b1 of None \<Rightarrow> Map.empty | Some m \<Rightarrow> m))))"
    unfolding update_index_def b1_def Let_def ..
  then show ?thesis unfolding b1 [symmetric] by (cases new; cases b1) (simp_all add: bucket_add split: option.split)
qed

lemma no_empty_drop: "no_empty_bucket (Some b) \<Longrightarrow> no_empty_bucket (Some (drop_keys k vs b))"
  by (induction k vs b rule: drop_keys.induct) (auto simp: no_empty_bucket_def split: option.splits if_splits)

lemma no_empty_add: "no_empty_bucket (Some b) \<Longrightarrow> no_empty_bucket (Some (add_keys k vs b))"
  by (induction k vs b rule: add_keys.induct) (auto simp: no_empty_bucket_def split: option.splits if_splits)

lemma no_empty_update: "no_empty_bucket b \<Longrightarrow> no_empty_bucket (update_index fn old new k b)"
proof -
  assume b: "no_empty_bucket b"
  have "no_empty_bucket (case old of None \<Rightarrow> b
    | Some x \<Rightarrow> (case fn x of None \<Rightarrow> b | Some vs \<Rightarrow> map_option (drop_keys k vs) b))" (is "no_empty_bucket ?b1")
    using b by (cases b) (auto simp: no_empty_drop split: option.split)
  then have "no_empty_bucket (Some (case ?b1 of None \<Rightarrow> Map.empty | Some m \<Rightarrow> m))"
    by (cases ?b1) (simp_all add: no_empty_bucket_def)
  then show ?thesis using \<open>no_empty_bucket ?b1\<close>
    by (auto simp: update_index_def Let_def no_empty_add split: option.split)
qed

definition indexed :: "'o ts_store \<Rightarrow> string \<Rightarrow> string \<Rightarrow> string \<Rightarrow> bool" where
  "indexed s name v k \<longleftrightarrow> (\<exists>fn x. ts_indexers s name = Some fn \<and> ts_items s k = Some x \<and> v \<in> index_vals fn x)"

definition ts_ok :: "'o ts_store \<Rightarrow> bool" where
  "ts_ok s \<longleftrightarrow> (\<forall>name v. bucket name v s = {k. indexed s name v k}) \<and> (\<forall>name. no_empty_bucket (ts_indices s name))"

lemma ts_ok_new: "ts_ok (new_ts_store ixs)"
  by (simp add: ts_ok_def new_ts_store_def bucket_def indexed_def no_empty_bucket_def)

text \<open>An update of the indices that follows a change of the items at one key.\<close>

lemma ts_ok_change:
  assumes ok: "ts_ok s" and items: "items' = (ts_items s)(k := x')"
    and old: "old = (case ts_items s k of None \<Rightarrow> None | Some x \<Rightarrow> x)" and new: "new = (case x' of None \<Rightarrow> None | Some x \<Rightarrow> x)"
  shows "ts_ok (update_indices old new k (s\<lparr>ts_items := items'\<rparr>))"
proof -
  let ?s = "update_indices old new k (s\<lparr>ts_items := items'\<rparr>)"
  have "bucket name v ?s = {j. indexed ?s name v j}" for name v
  proof (cases "ts_indexers s name")
    case None
    then show ?thesis using ok by (auto simp: ts_ok_def bucket_def indexed_def update_indices_def)
  next
    case (Some fn)
    have before: "bucket_of (ts_indices s name) v = {j. \<exists>x. ts_items s j = Some x \<and> v \<in> index_vals fn x}"
      using ok Some by (auto simp: ts_ok_def bucket_def indexed_def)
    then have "k \<in> bucket_of (ts_indices s name) v \<longleftrightarrow> v \<in> index_vals fn old"
      by (auto simp: old split: option.split)
    moreover have "(\<exists>x. x' = Some x \<and> v \<in> index_vals fn x) \<longleftrightarrow> v \<in> index_vals fn new"
      by (auto simp: new split: option.split)
    ultimately show ?thesis
      using Some before by (auto simp: bucket_def indexed_def update_indices_def bucket_update items)
  qed
  moreover have "no_empty_bucket (ts_indices ?s name)" for name
    using ok by (simp add: update_indices_def ts_ok_def no_empty_update split: option.split)
  ultimately show ?thesis by (simp add: ts_ok_def)
qed

lemma ts_ok_add: "ts_ok s \<Longrightarrow> ts_ok (ts_add k x s)"
  using ts_ok_change [OF _ refl refl refl, of s k "Some x"] by (auto simp: ts_add_def Let_def split: option.splits)

lemma ts_ok_delete: "ts_ok s \<Longrightarrow> ts_ok (ts_delete k s)"
  using ts_ok_change [OF _ refl refl refl, of s k None] by (auto simp: ts_delete_def split: option.splits)

text \<open>Replacing rebuilds the indices key by key: after a prefix of the keys they are exact for it.\<close>

lemma ts_replace_prefix:
  "ts_ok (s\<lparr>ts_items := items |` A\<rparr>) \<Longrightarrow> distinct ks \<Longrightarrow> set ks \<inter> A = {} \<Longrightarrow> set ks \<subseteq> dom items \<Longrightarrow>
   ts_items s = items \<Longrightarrow>
   ts_ok ((foldl (\<lambda>s k. update_indices None (the (items k)) k s) s ks)\<lparr>ts_items := items |` (A \<union> set ks)\<rparr>) \<and>
   ts_items (foldl (\<lambda>s k. update_indices None (the (items k)) k s) s ks) = items"
proof (induction ks arbitrary: s A)
  case (Cons k ks)
  let ?s = "update_indices None (the (items k)) k s"
  have eq: "?s\<lparr>ts_items := items |` (insert k A)\<rparr> =
    update_indices None (the (items k)) k ((s\<lparr>ts_items := items |` A\<rparr>)\<lparr>ts_items := items |` (insert k A)\<rparr>)"
    by (rule ts_store.equality) (simp_all add: update_indices_def fun_eq_iff split: option.split)
  have "ts_ok (?s\<lparr>ts_items := items |` (insert k A)\<rparr>)"
    unfolding eq
    by (rule ts_ok_change [OF Cons.prems(1), where x' = "items k"])
      (use Cons.prems in \<open>auto simp: restrict_map_def fun_eq_iff\<close>)
  then show ?case using Cons.IH [of "insert k A" ?s] Cons.prems by (auto simp: update_indices_def)
qed simp

lemma ts_ok_replace:
  assumes "enumerates ks items"
  shows "ts_ok (ts_replace ks items s)"
proof -
  let ?s = "s\<lparr>ts_items := items, ts_indices := Map.empty\<rparr>"
  have "ts_ok (?s\<lparr>ts_items := items |` {}\<rparr>)"
    by (simp add: ts_ok_def bucket_def indexed_def no_empty_bucket_def)
  from ts_replace_prefix [OF this, of ks] assms
  have "ts_ok ((ts_replace ks items s)\<lparr>ts_items := items |` dom items\<rparr>)" "ts_items (ts_replace ks items s) = items"
    by (auto simp: enumerates_def ts_replace_def)
  moreover have "items |` dom items = items" by (auto simp: restrict_map_def fun_eq_iff dom_def)
  ultimately show ?thesis by (metis ts_store.surjective ts_store.update_convs(1))
qed

datatype 'o ts_op = TsAdd string "'o option" | TsDelete string | TsReplace "string list" "string \<rightharpoonup> 'o option"

fun ts_exec :: "'o ts_store \<Rightarrow> 'o ts_op \<Rightarrow> 'o ts_store" where
  "ts_exec s (TsAdd k x) = ts_add k x s"
| "ts_exec s (TsDelete k) = ts_delete k s"
| "ts_exec s (TsReplace ks items) = ts_replace ks items s"

fun ts_valid :: "'o ts_op \<Rightarrow> bool" where
  "ts_valid (TsReplace ks items) = enumerates ks items"
| "ts_valid op = True"

lemma ts_ok_exec: "ts_ok s \<Longrightarrow> ts_valid op \<Longrightarrow> ts_ok (ts_exec s op)"
  by (cases op) (simp_all add: ts_ok_add ts_ok_delete ts_ok_replace)

lemma ts_ok_execs: "ts_ok s \<Longrightarrow> \<forall>op \<in> set ops. ts_valid op \<Longrightarrow> ts_ok (foldl ts_exec s ops)"
  by (induction ops arbitrary: s) (simp_all add: ts_ok_exec)

subsection \<open>What the queue delivers\<close>

text \<open>Of adjacent deletes the first is kept.\<close>

fun collapse :: "'o delta list \<Rightarrow> 'o delta list" where
  "collapse (d # e # ds) =
     (if fst d = DeltaDeleted \<and> fst e = DeltaDeleted then collapse (d # ds) else d # collapse (e # ds))"
| "collapse ds = ds"

definition first_seen :: "'k list \<Rightarrow> 'k list" where
  "first_seen ks = rev (remdups (rev ks))"

lemma first_seen_snoc: "first_seen (ks @ [k]) = (if k \<in> set ks then first_seen ks else first_seen ks @ [k])"
  by (simp add: first_seen_def)

lemma first_seen_simps [simp]: "first_seen [] = []" "set (first_seen ks) = set ks" "distinct (first_seen ks)"
  by (simp_all add: first_seen_def)

lemma collapse_ne [simp]: "collapse ds = [] \<longleftrightarrow> ds = []"
  by (induction ds rule: collapse.induct) auto

lemma last_collapse: "ds \<noteq> [] \<Longrightarrow> fst (last (collapse ds)) = fst (last ds)"
  by (induction ds rule: collapse.induct) auto

lemma dedup_snoc: "dedup_compress (ds @ [d]) =
  (if ds \<noteq> [] \<and> fst d = DeltaDeleted \<and> fst (last ds) = DeltaDeleted then ds else ds @ [d])"
  by (cases ds rule: rev_cases) (auto simp: dedup_compress_def nth_append butlast_append)

lemma collapse_snoc: "collapse (ds @ [d]) = dedup_compress (collapse ds @ [d])"
proof (induction ds rule: collapse.induct)
  case (1 x y zs)
  show ?case
  proof (cases "fst x = DeltaDeleted \<and> fst y = DeltaDeleted")
    case True
    then show ?thesis using 1(1) by simp
  next
    case False
    have "x # dedup_compress (collapse (y # zs) @ [d]) = dedup_compress ((x # collapse (y # zs)) @ [d])"
      unfolding dedup_snoc by simp
    then show ?thesis using False 1(2) [OF False] by auto
  qed
qed (auto simp: dedup_compress_def)

fun queue_all :: "('o cached \<Rightarrow> string option) \<Rightarrow> 'o delta list \<Rightarrow> 'o fifo \<Rightarrow> 'o fifo" where
  "queue_all key [] f = f"
| "queue_all key (d # ds) f = queue_all key ds (fst (queue_delta key (fst d) (snd d) f))"

lemma queue_all_snoc: "queue_all key (ds @ [d]) f = fst (queue_delta key (fst d) (snd d) (queue_all key ds f))"
  by (induction ds arbitrary: f) auto

lemma fifo_pop_shorter: "fifo_pop f = (f', Ok (Some ds)) \<Longrightarrow> length (ff_queue f') < length (ff_queue f)"
  by (cases "ff_queue f") (auto simp: fifo_pop_def split: if_splits)

function fifo_drain :: "'o fifo \<Rightarrow> 'o delta list list" where
  "fifo_drain f = (case fifo_pop f of (f', Ok (Some ds)) \<Rightarrow> ds # fifo_drain f' | _ \<Rightarrow> [])"
  by pat_completeness auto
termination
  by (relation "measure (\<lambda>f. length (ff_queue f))") (simp, metis fifo_pop_shorter in_measure)

declare fifo_drain.simps [simp del]

lemma fifo_drain_open:
  "\<not> ff_closed f \<Longrightarrow> ff_queue f = ks \<Longrightarrow> distinct ks \<Longrightarrow> \<forall>k \<in> set ks. ff_items f k \<noteq> None \<Longrightarrow>
   fifo_drain f = map (\<lambda>k. the (ff_items f k)) ks"
proof (induction ks arbitrary: f)
  case Nil
  then show ?case by (subst fifo_drain.simps) (simp add: fifo_pop_def)
next
  case (Cons k ks)
  let ?f = "f\<lparr>ff_queue := ks, ff_items := (ff_items f)(k := None)\<rparr>"
  obtain ds where ds: "ff_items f k = Some ds" using Cons.prems(4) by auto
  have "fifo_drain ?f = map (\<lambda>k. the (ff_items ?f k)) ks"
    using Cons.prems by (intro Cons.IH) auto
  also have "\<dots> = map (\<lambda>k. the (ff_items f k)) ks"
    using Cons.prems(3) by simp
  finally show ?case
    using Cons.prems ds by (subst fifo_drain.simps) (simp add: fifo_pop_def)
qed

definition for_key :: "('o cached \<Rightarrow> string option) \<Rightarrow> string \<Rightarrow> 'o delta list \<Rightarrow> 'o delta list" where
  "for_key key k ds = filter (\<lambda>d. key (snd d) = Some k) ds"

lemma queue_all_state:
  assumes "\<forall>d \<in> set ds. key (snd d) \<noteq> None"
  shows "ff_queue (queue_all key ds new_fifo) = first_seen (map (\<lambda>d. the (key (snd d))) ds) \<and>
    \<not> ff_closed (queue_all key ds new_fifo) \<and>
    (\<forall>k. ff_items (queue_all key ds new_fifo) k =
      (if for_key key k ds = [] then None else Some (collapse (for_key key k ds))))"
  using assms
proof (induction ds rule: rev_induct)
  case Nil
  then show ?case by (simp add: new_fifo_def for_key_def)
next
  case (snoc d ds)
  let ?f = "queue_all key ds new_fifo"
  obtain k where k: "key (snd d) = Some k" using snoc.prems by auto
  have f: "ff_queue ?f = first_seen (map (\<lambda>d. the (key (snd d))) ds)" "\<not> ff_closed ?f"
    "\<And>j. ff_items ?f j = (if for_key key j ds = [] then None else Some (collapse (for_key key j ds)))"
    using snoc by auto
  have "for_key key k ds = [] \<longleftrightarrow> k \<notin> (\<lambda>d. the (key (snd d))) ` set ds"
    using snoc.prems by (force simp: for_key_def filter_empty_conv image_iff)
  moreover have "for_key key j (ds @ [d]) = (if j = k then for_key key j ds @ [d] else for_key key j ds)" for j
    using k by (simp add: for_key_def)
  ultimately show ?case
    using f k by (cases d) (auto simp: queue_all_snoc queue_delta_def Let_def first_seen_snoc collapse_snoc)
qed

text \<open>Queueing one more delta.\<close>

lemma queue_delta_last:
  assumes "queue_delta key t x f = (f', None)"
  obtains k ds where "key x = Some k" "ff_items f' = (ff_items f)(k \<mapsto> ds)" "ds \<noteq> []" "fst (last ds) = t"
proof -
  obtain k where k: "key x = Some k" using assms by (auto simp: queue_delta_def split: option.splits)
  let ?ds = "dedup_compress ((case ff_items f k of None \<Rightarrow> [] | Some ds \<Rightarrow> ds) @ [(t, x)])"
  have "ff_items f' = (ff_items f)(k \<mapsto> ?ds)"
    using assms k by (auto simp: queue_delta_def Let_def split: if_splits)
  moreover have "?ds \<noteq> [] \<and> fst (last ?ds) = t" by (auto simp: dedup_snoc)
  ultimately show thesis using that k by blast
qed

definition last_type :: "'o fifo \<Rightarrow> string \<Rightarrow> delta_type option" where
  "last_type f k = (case ff_items f k of None \<Rightarrow> None | Some ds \<Rightarrow> if ds = [] then None else Some (fst (last ds)))"

lemma last_type_queue:
  assumes "queue_delta key t x f = (f', None)"
  shows "\<exists>k. key x = Some k \<and> last_type f' = (last_type f)(k \<mapsto> t) \<and> dom (ff_items f') = insert k (dom (ff_items f))"
  by (rule queue_delta_last [OF assms]) (auto simp: last_type_def fun_eq_iff)

lemma sync_all_last:
  "sync_all key xs f = (f', None) \<Longrightarrow>
   (\<forall>x \<in> set xs. key x \<noteq> None) \<and> dom (ff_items f') = dom (ff_items f) \<union> {k. Some k \<in> key ` set xs} \<and>
   (\<forall>k. last_type f' k = (if Some k \<in> key ` set xs then Some DeltaSync else last_type f k))"
proof (induction xs arbitrary: f)
  case (Cons x xs)
  obtain f1 where f1: "queue_delta key DeltaSync x f = (f1, None)" "sync_all key xs f1 = (f', None)"
    using Cons.prems by (auto split: prod.splits option.splits)
  show ?case using last_type_queue [OF f1(1)] Cons.IH [OF f1(2)] by auto
qed simp

lemma bury_all_last:
  "bury_all key ks f = (f', None) \<Longrightarrow> \<forall>k. key (Tombstone k) = Some k \<Longrightarrow>
   dom (ff_items f') = dom (ff_items f) \<union> set ks \<and>
   (\<forall>k. last_type f' k = (if k \<in> set ks then Some DeltaDeleted else last_type f k))"
proof (induction ks arbitrary: f)
  case (Cons k ks)
  obtain f1 where f1: "queue_delta key DeltaDeleted (Tombstone k) f = (f1, None)" "bury_all key ks f1 = (f', None)"
    using Cons.prems(1) by (auto split: prod.splits option.splits)
  show ?case using last_type_queue [OF f1(1)] Cons.IH [OF f1(2) Cons.prems(2)] Cons.prems(2) by auto
qed simp

subsection \<open>Properties\<close>

text \<open>C11. The secondary indices are exact: after any sequence of adds, deletes and replacements,
  \<open>ByIndex\<close> returns, once each, precisely the stored objects whose index function yields the
  value, however often objects under the key were replaced, and no empty bucket is left behind.\<close>

theorem by_index_exact:
  assumes "\<forall>op \<in> set ops. ts_valid op" "s = foldl ts_exec (new_ts_store ixs) ops"
    and "distinct ks" "set ks = bucket name v s"
  shows "set ks = {k. indexed s name v k} \<and> length (ts_by_index ks s) = length ks \<and>
    set (ts_by_index ks s) = {x. \<exists>k. ts_items s k = Some x \<and> indexed s name v k} \<and>
    (\<forall>name. no_empty_bucket (ts_indices s name))"
proof -
  have ok: "ts_ok s" using ts_ok_execs [OF ts_ok_new assms(1)] by (simp add: assms(2))
  then have ks: "set ks = {k. indexed s name v k}" by (simp add: assms(4) ts_ok_def)
  then have "\<forall>k \<in> set ks. ts_items s k \<noteq> None" by (auto simp: indexed_def)
  then have "ts_by_index ks s = map (\<lambda>k. the (ts_items s k)) ks"
    by (induction ks) (auto simp: ts_by_index_def map_filter_simps)
  moreover have "{x. \<exists>k. ts_items s k = Some x \<and> indexed s name v k} = (\<lambda>k. the (ts_items s k)) ` set ks"
    unfolding ks by (force simp: indexed_def)
  ultimately show ?thesis using ks ok by (simp add: ts_ok_def)
qed

text \<open>The queue delivers everything in order: draining it pops the keys in the order they were first
  seen, each once, with all the deltas queued for it, only a delete that directly follows a delete
  of the same key being dropped.\<close>

theorem fifo_delivers_in_order:
  assumes "\<forall>d \<in> set ds. key (snd d) \<noteq> None"
  shows "fifo_drain (queue_all key ds new_fifo) =
    map (\<lambda>k. collapse (for_key key k ds)) (first_seen (map (\<lambda>d. the (key (snd d))) ds))"
proof -
  let ?f = "queue_all key ds new_fifo"
  have f: "ff_queue ?f = first_seen (map (\<lambda>d. the (key (snd d))) ds)" "\<not> ff_closed ?f"
    "\<And>k. ff_items ?f k = (if for_key key k ds = [] then None else Some (collapse (for_key key k ds)))"
    using queue_all_state [OF assms] by auto
  have ne: "for_key key k ds \<noteq> []" if "k \<in> set (first_seen (map (\<lambda>d. the (key (snd d))) ds))" for k
    using that assms by (force simp: for_key_def filter_empty_conv)
  have "fifo_drain ?f = map (\<lambda>k. the (ff_items ?f k)) (first_seen (map (\<lambda>d. the (key (snd d))) ds))"
    by (rule fifo_drain_open [OF f(2,1)]) (use f(3) ne in auto)
  also have "\<dots> = map (\<lambda>k. collapse (for_key key k ds)) (first_seen (map (\<lambda>d. the (key (snd d))) ds))"
    by (rule map_cong) (use f(3) ne in auto)
  finally show ?thesis .
qed

text \<open>A successful \<open>Replace\<close> leaves no queued key in doubt: the last delta of every listed object is
  a sync, that of every queued key which is not listed is a deletion, and nothing else is queued.\<close>

theorem fifo_replace_marks_missing:
  assumes "fifo_replace (meta_key acc) ks xs f = (f', None)"
    and "enumerates ks (ff_items (fst (sync_all (meta_key acc) xs f)))"
  shows "dom (ff_items f') = dom (ff_items f) \<union> {k. Some k \<in> meta_key acc ` set xs} \<and>
    (\<forall>k \<in> dom (ff_items f'). last_type f' k =
       Some (if Some k \<in> meta_key acc ` set xs then DeltaSync else DeltaDeleted))"
proof -
  obtain f1 where f1: "sync_all (meta_key acc) xs f = (f1, None)"
    "bury_all (meta_key acc) (filter (\<lambda>k. Some k \<notin> meta_key acc ` set xs) ks) f1 = (f', None)"
    using assms(1) by (auto simp: fifo_replace_def split: prod.splits option.splits)
  have "\<forall>k. meta_key acc (Tombstone k :: 'a cached) = Some k" by (simp add: meta_key_def)
  from bury_all_last [OF f1(2) this] sync_all_last [OF f1(1)] assms(2) show ?thesis
    by (auto simp: enumerates_def f1(1))
qed

subsection \<open>Sample runs\<close>

definition sample_acc :: "string \<Rightarrow> (string \<times> string) option" where
  "sample_acc x = Some (''ns'', x)"

theorem by_index_exact_witness:
  "bucket ''ns'' ''p'' (foldl ts_exec (new_ts_store [''ns'' \<mapsto> (\<lambda>x. Some [x])]) [TsAdd ''a'' (Some ''p''), TsAdd ''a'' (Some ''q'')]) = {}"
  using by_index_exact [of "[TsAdd ''a'' (Some ''p''), TsAdd ''a'' (Some ''q'')]" _ "[''ns'' \<mapsto> (\<lambda>x. Some [x])]" "[]" "''ns''" "''p''", OF _ refl]
  by (simp add: ts_add_def new_ts_store_def update_indices_def update_index_def bucket_def bucket_of_def Let_def)

theorem fifo_delivers_in_order_witness:
  "fifo_drain (queue_all (meta_key sample_acc) [(DeltaAdded, Obj ''a''), (DeltaAdded, Obj ''b''), (DeltaDeleted, Obj ''a''),
     (DeltaDeleted, Obj ''a'')] new_fifo)
   = [[(DeltaAdded, Obj ''a''), (DeltaDeleted, Obj ''a'')], [(DeltaAdded, Obj ''b'')]]"
  by (subst fifo_delivers_in_order) (simp_all add: for_key_def first_seen_def meta_key_def sample_acc_def)

definition sample_fifo :: "string fifo" where
  "sample_fifo = fst (queue_delta (meta_key sample_acc) DeltaAdded (Obj ''a'') new_fifo)"

theorem fifo_replace_marks_missing_witness:
  "last_type (fst (fifo_replace (meta_key sample_acc) [''ns/b'', ''ns/a''] [Obj ''b''] sample_fifo)) ''ns/a'' = Some DeltaDeleted"
proof -
  have "enumerates [''ns/b'', ''ns/a''] (ff_items (fst (sync_all (meta_key sample_acc) [Obj ''b''] sample_fifo)))"
    by (auto simp: enumerates_def sample_fifo_def queue_delta_def meta_key_def sample_acc_def new_fifo_def)
  moreover obtain f' where f': "fifo_replace (meta_key sample_acc) [''ns/b'', ''ns/a''] [Obj ''b''] sample_fifo = (f', None)"
    by (simp add: fifo_replace_def sample_fifo_def queue_delta_def meta_key_def sample_acc_def new_fifo_def Let_def)
  ultimately show ?thesis
    using fifo_replace_marks_missing [OF f'] f'
    by (auto simp: sample_fifo_def queue_delta_def meta_key_def sample_acc_def new_fifo_def Let_def)
qed

end
