(* ===== verification/Go_Calendar.thy ===== *)
theory Go_Calendar
  imports Prelude
begin

section \<open>The civil calendar of package time\<close>

text \<open>
  \<open>Year\<close>, \<open>Month\<close>, \<open>Day\<close>, \<open>Weekday\<close>, \<open>Hour\<close>, \<open>Minute\<close>, \<open>Truncate\<close> and \<open>time.Date\<close> in UTC,
  for an instant in nanoseconds since the first of January of year 1, a Monday. \<open>go_date\<close>
  normalises its month, day and hour as the library does.
\<close>

abbreviation minute_ns :: int where "minute_ns \<equiv> 60 * second"
abbreviation hour_ns :: int where "hour_ns \<equiv> 3600 * second"
abbreviation day_ns :: int where "day_ns \<equiv> 86400 * second"

definition leap :: "int \<Rightarrow> bool" where
  "leap y \<longleftrightarrow> y mod 4 = 0 \<and> (y mod 100 \<noteq> 0 \<or> y mod 400 = 0)"

definition days_before_year :: "int \<Rightarrow> int" where
  "days_before_year y = 365 * (y - 1) + (y - 1) div 4 - (y - 1) div 100 + (y - 1) div 400"

text \<open>Days of the year before month \<open>m\<close>, for \<open>m\<close> from 1 to 13.\<close>

definition days_before_month :: "bool \<Rightarrow> int \<Rightarrow> int" where
  "days_before_month lp m =
     [0, 31, 59, 90, 120, 151, 181, 212, 243, 273, 304, 334, 365] ! nat (m - 1) + (if lp \<and> m > 2 then 1 else 0)"

definition year_of_day :: "int \<Rightarrow> int \<times> int" where
  "year_of_day n =
     (let c = n div 146097; r = n mod 146097;
          d = min 3 (r div 36524); r1 = r - 36524 * d;
          e = r1 div 1461; r2 = r1 mod 1461;
          f = min 3 (r2 div 365)
      in (400 * c + 100 * d + 4 * e + f + 1, r2 - 365 * f))"

fun month_from :: "bool \<Rightarrow> int \<Rightarrow> nat \<Rightarrow> int" where
  "month_from lp yd 0 = 1"
| "month_from lp yd (Suc k) = (if days_before_month lp (int k + 2) \<le> yd then int k + 2 else month_from lp yd k)"

text \<open>Year, month and day of the month of a day number.\<close>

definition civil :: "int \<Rightarrow> int \<times> int \<times> int" where
  "civil n =
     (case year_of_day n of
        (y, yd) \<Rightarrow> let m = month_from (leap y) yd 11 in (y, m, yd - days_before_month (leap y) m + 1))"

definition t_day :: "gotime \<Rightarrow> int" where
  "t_day t = t div day_ns"

definition t_year :: "gotime \<Rightarrow> int" where
  "t_year t = fst (civil (t_day t))"

definition t_month :: "gotime \<Rightarrow> int" where
  "t_month t = fst (snd (civil (t_day t)))"

definition t_dom :: "gotime \<Rightarrow> int" where
  "t_dom t = snd (snd (civil (t_day t)))"

definition t_weekday :: "gotime \<Rightarrow> int" where
  "t_weekday t = (t_day t + 1) mod 7"

definition t_hour :: "gotime \<Rightarrow> int" where
  "t_hour t = t mod day_ns div hour_ns"

definition t_minute :: "gotime \<Rightarrow> int" where
  "t_minute t = t mod hour_ns div minute_ns"

definition truncate_minute :: "gotime \<Rightarrow> gotime" where
  "truncate_minute t = t - t mod minute_ns"

definition go_date :: "int \<Rightarrow> int \<Rightarrow> int \<Rightarrow> int \<Rightarrow> gotime" where
  "go_date y m d h =
     (let y' = y + (m - 1) div 12; m' = (m - 1) mod 12 + 1
      in (days_before_year y' + days_before_month (leap y') m' + (d - 1)) * day_ns + h * hour_ns)"

subsection \<open>Years\<close>

lemma div_next:
  fixes x k :: int
  assumes "0 < k"
  shows "x div k = (x - 1) div k + (if x mod k = 0 then 1 else 0)"
proof -
  define q r where "q = (x - 1) div k" and "r = (x - 1) mod k"
  have x: "x - 1 = k * q + r" and r: "0 \<le> r" "r < k" using assms by (simp_all add: q_def r_def)
  show ?thesis
  proof (cases "r = k - 1")
    case True
    then have e: "x = k * (q + 1) + 0" using x by (simp add: distrib_left)
    have "x div k = q + 1" "x mod k = 0"
      by (rule int_div_pos_eq [OF e]; simp add: assms) (rule int_mod_pos_eq [OF e]; simp add: assms)
    then show ?thesis unfolding q_def [symmetric] by simp
  next
    case False
    then have e: "x = k * q + (r + 1)" and "r + 1 < k" using x r by simp_all
    have "x div k = q" "x mod k = r + 1"
      by (rule int_div_pos_eq [OF e]; use r \<open>r + 1 < k\<close> in simp) (rule int_mod_pos_eq [OF e]; use r \<open>r + 1 < k\<close> in simp)
    then show ?thesis unfolding q_def [symmetric] using r by simp
  qed
qed

lemma mod_coarser: "(a :: int) mod (b * c) = 0 \<Longrightarrow> a mod b = 0"
  by (metis dvd_mult_left mod_0_imp_dvd dvd_imp_mod_0)

lemma sum_shift: "365 * y + (a + u) - (b + v) + (c + w) = 365 * (y - 1) + a - b + c + 365 + (u - v + w :: int)"
  by simp

lemma days_in_year: "days_before_year (y + 1) = days_before_year y + (if leap y then 366 else 365)"
proof -
  define u v w :: int where "u = (if y mod 4 = 0 then 1 else 0)" and "v = (if y mod 100 = 0 then 1 else 0)"
    and "w = (if y mod 400 = 0 then 1 else 0)"
  have q: "y div 4 = (y - 1) div 4 + u" "y div 100 = (y - 1) div 100 + v" "y div 400 = (y - 1) div 400 + w"
    unfolding u_def v_def w_def by (rule div_next, simp)+
  have "y mod 100 = 0 \<Longrightarrow> y mod 4 = 0" "y mod 400 = 0 \<Longrightarrow> y mod 100 = 0"
    using mod_coarser [of y 4 25] mod_coarser [of y 100 4] by simp_all
  then have l: "u - v + w = (if leap y then 1 else 0)"
    unfolding u_def v_def w_def leap_def by (cases "y mod 4 = 0"; cases "y mod 100 = 0"; cases "y mod 400 = 0"; simp)
  have "days_before_year (y + 1) = days_before_year y + 365 + (u - v + w)"
    unfolding days_before_year_def add_diff_cancel_right' q by (rule sum_shift)
  then show ?thesis unfolding l by simp
qed

lemma days_before_year_mono: "x < y \<Longrightarrow> days_before_year (x + 1) \<le> days_before_year y"
proof (induction "nat (y - x - 1)" arbitrary: y)
  case 0
  then have "y = x + 1" by simp
  then show ?case by simp
next
  case (Suc k)
  then have "days_before_year (x + 1) \<le> days_before_year (y - 1)" by (intro Suc.hyps(1)) simp_all
  also have "\<dots> \<le> days_before_year y" using days_in_year [of "y - 1"] by simp
  finally show ?case .
qed

lemma year_of_day_bounds:
  assumes "year_of_day n = (y, yd)"
  shows "n = days_before_year y + yd" "0 \<le> yd" "yd < (if leap y then 366 else 365)"
proof -
  define c r where "c = n div 146097" and "r = n mod 146097"
  define d where "d = min 3 (r div 36524)"
  define r1 where "r1 = r - 36524 * d"
  define e r2 where "e = r1 div 1461" and "r2 = r1 mod 1461"
  define f where "f = min 3 (r2 div 365)"
  have "year_of_day n = (400 * c + 100 * d + 4 * e + f + 1, r2 - 365 * f)"
    unfolding year_of_day_def Let_def c_def r_def d_def r1_def e_def r2_def f_def ..
  then have y: "y = 400 * c + 100 * d + 4 * e + f + 1" and yd: "yd = r2 - 365 * f"
    using assms by simp_all
  have r: "0 \<le> r" "r < 146097" "n = 146097 * c + r" by (simp_all add: c_def r_def)
  have d: "0 \<le> d" "d \<le> 3" "0 \<le> r1" "r1 \<le> 36524" "d < 3 \<Longrightarrow> r1 < 36524"
  proof -
    define q w where "q = r div 36524" and "w = r mod 36524"
    have qw: "r = 36524 * q + w" "0 \<le> w" "w < 36524" by (simp_all add: q_def w_def)
    have "0 \<le> q" "q \<le> 4" using qw r(1,2) by linarith+
    then show "0 \<le> d" "d \<le> 3" "0 \<le> r1" "r1 \<le> 36524" "d < 3 \<Longrightarrow> r1 < 36524"
      using qw r(2) unfolding r1_def d_def q_def [symmetric] by (cases "q \<le> 3"; simp)+
  qed
  have e: "0 \<le> e" "e \<le> 24" "0 \<le> r2" "r2 < 1461" "r1 = 1461 * e + r2"
  proof -
    show "r1 = 1461 * e + r2" "0 \<le> r2" "r2 < 1461" by (simp_all add: e_def r2_def)
    then show "0 \<le> e" "e \<le> 24" using d(3,4) by linarith+
  qed
  have f: "0 \<le> f" "f \<le> 3" "0 \<le> yd" "f < 3 \<Longrightarrow> yd < 365" "yd \<le> 365"
  proof -
    define q w where "q = r2 div 365" and "w = r2 mod 365"
    have qw: "r2 = 365 * q + w" "0 \<le> w" "w < 365" by (simp_all add: q_def w_def)
    have "0 \<le> q" "q \<le> 4" using qw e(3,4) by linarith+
    then show "0 \<le> f" "f \<le> 3" "0 \<le> yd" "f < 3 \<Longrightarrow> yd < 365" "yd \<le> 365"
      using qw e(4) unfolding yd f_def q_def [symmetric] by (cases "q \<le> 3"; simp)+
  qed
  have y4: "y - 1 = 4 * (100 * c + 25 * d + e) + f" by (simp add: y)
  have y100: "y - 1 = 100 * (4 * c + d) + (4 * e + f)" by (simp add: y)
  have y400: "y - 1 = 400 * c + (100 * d + 4 * e + f)" by (simp add: y)
  have q4: "(y - 1) div 4 = 100 * c + 25 * d + e" by (rule int_div_pos_eq [OF y4]) (use f in simp_all)
  have q100: "(y - 1) div 100 = 4 * c + d" by (rule int_div_pos_eq [OF y100]) (use e f in simp_all)
  have q400: "(y - 1) div 400 = c" by (rule int_div_pos_eq [OF y400]) (use d e f in simp_all)
  show n: "n = days_before_year y + yd"
    unfolding days_before_year_def q4 q100 q400 using r(3) by (simp add: y yd r1_def [symmetric] e(5) [symmetric]) (simp add: r1_def e(5))
  show "0 \<le> yd" by (rule f(3))
  show "yd < (if leap y then 366 else 365)"
  proof (cases "yd < 365")
    case False
    then have yd: "yd = 365" using f(5) by linarith
    have f3: "f = 3" using False f(2,4) by linarith
    have m4: "y mod 4 = 0" using y4 f3 int_mod_pos_eq [of y 4 "100 * c + 25 * d + e + 1" 0] by simp
    have "e = 24 \<Longrightarrow> d = 3" using d(2,4,5) e(5) yd f3 \<open>yd = r2 - 365 * f\<close> by linarith
    then have "leap y"
    proof (cases "e = 24")
      case True
      then have "y = 400 * (c + 1) + 0" using \<open>e = 24 \<Longrightarrow> d = 3\<close> f3 y by simp
      then have "y mod 400 = 0" by simp
      then show ?thesis using m4 by (simp add: leap_def)
    next
      case False
      then have y': "y = 100 * (4 * c + d) + (4 * e + 4)" and "0 < 4 * e + 4" "4 * e + 4 < 100" using e f3 y by simp_all
      then have "y mod 100 = 4 * e + 4" by (intro int_mod_pos_eq [OF y']) simp_all
      then show ?thesis using m4 e(1) by (simp add: leap_def)
    qed
    then show ?thesis using yd by simp
  qed simp
qed

lemma year_unique:
  assumes "days_before_year y \<le> n" "n < days_before_year (y + 1)"
  shows "year_of_day n = (y, n - days_before_year y)"
proof -
  obtain x xd where x: "year_of_day n = (x, xd)" by fastforce
  have n: "n = days_before_year x + xd" "0 \<le> xd" "xd < (if leap x then 366 else 365)"
    by (rule year_of_day_bounds [OF x])+
  then have "n < days_before_year (x + 1)" unfolding days_in_year by simp
  then have "\<not> x < y" "\<not> y < x" using days_before_year_mono [of x y] days_before_year_mono [of y x] assms n by linarith+
  then show ?thesis using x n by simp
qed

subsection \<open>Months\<close>

lemma month_cases: "1 \<le> (m :: int) \<Longrightarrow> m \<le> 12 \<Longrightarrow>
  m = 1 \<or> m = 2 \<or> m = 3 \<or> m = 4 \<or> m = 5 \<or> m = 6 \<or> m = 7 \<or> m = 8 \<or> m = 9 \<or> m = 10 \<or> m = 11 \<or> m = 12"
  by presburger

lemma days_before_month_simps:
  "days_before_month lp 1 = 0" "days_before_month lp 2 = 31" "days_before_month lp 3 = 59 + (if lp then 1 else 0)"
  "days_before_month lp 4 = 90 + (if lp then 1 else 0)" "days_before_month lp 5 = 120 + (if lp then 1 else 0)"
  "days_before_month lp 6 = 151 + (if lp then 1 else 0)" "days_before_month lp 7 = 181 + (if lp then 1 else 0)"
  "days_before_month lp 8 = 212 + (if lp then 1 else 0)" "days_before_month lp 9 = 243 + (if lp then 1 else 0)"
  "days_before_month lp 10 = 273 + (if lp then 1 else 0)" "days_before_month lp 11 = 304 + (if lp then 1 else 0)"
  "days_before_month lp 12 = 334 + (if lp then 1 else 0)" "days_before_month lp 13 = 365 + (if lp then 1 else 0)"
  by (simp_all add: days_before_month_def nth_Cons')

lemma month_from_eq:
  "month_from lp yd 11 =
     (if days_before_month lp 12 \<le> yd then 12 else if days_before_month lp 11 \<le> yd then 11
      else if days_before_month lp 10 \<le> yd then 10 else if days_before_month lp 9 \<le> yd then 9
      else if days_before_month lp 8 \<le> yd then 8 else if days_before_month lp 7 \<le> yd then 7
      else if days_before_month lp 6 \<le> yd then 6 else if days_before_month lp 5 \<le> yd then 5
      else if days_before_month lp 4 \<le> yd then 4 else if days_before_month lp 3 \<le> yd then 3
      else if days_before_month lp 2 \<le> yd then 2 else 1)"
  by (simp add: numeral_eq_Suc)

lemma month_unique:
  assumes "1 \<le> m" "m \<le> 12" "days_before_month lp m \<le> yd" "yd < days_before_month lp (m + 1)"
  shows "month_from lp yd 11 = m"
  using month_cases [OF assms(1,2)] assms(3,4) unfolding month_from_eq
  by (elim disjE) (simp_all add: days_before_month_simps split: if_splits)

lemma month_bounds:
  assumes "0 \<le> yd" "yd < (if lp then 366 else 365)" "m = month_from lp yd 11"
  shows "1 \<le> m" "m \<le> 12" "days_before_month lp m \<le> yd" "yd < days_before_month lp (m + 1)"
  using assms unfolding month_from_eq by (auto simp: days_before_month_simps split: if_splits)

text \<open>Days of one month share year and month.\<close>

definition month_start :: "int \<Rightarrow> int \<Rightarrow> int" where
  "month_start y m = days_before_year y + days_before_month (leap y) m"

lemma civil_bounds:
  assumes "civil n = (y, m, d)"
  shows "1 \<le> m" "m \<le> 12" "month_start y m \<le> n" "n < month_start y (m + 1)" "d = n - month_start y m + 1"
proof -
  obtain x xd where x: "year_of_day n = (x, xd)" by fastforce
  have n: "n = days_before_year x + xd" "0 \<le> xd" "xd < (if leap x then 366 else 365)"
    by (rule year_of_day_bounds [OF x])+
  have y: "y = x" "m = month_from (leap x) xd 11" "d = xd - days_before_month (leap x) m + 1"
    using assms x by (auto simp: civil_def Let_def)
  note b = month_bounds [OF n(2,3) y(2)]
  show "1 \<le> m" "m \<le> 12" by (rule b)+
  show "month_start y m \<le> n" "n < month_start y (m + 1)" "d = n - month_start y m + 1"
    using b n y by (simp_all add: month_start_def)
qed

lemma civil_unique:
  assumes "1 \<le> m" "m \<le> 12" "month_start y m \<le> n" "n < month_start y (m + 1)"
  shows "civil n = (y, m, n - month_start y m + 1)"
proof -
  have "0 \<le> days_before_month (leap y) m" "days_before_month (leap y) (m + 1) \<le> (if leap y then 366 else 365)"
    using month_cases [OF assms(1,2)] by (auto simp: days_before_month_simps)
  then have "year_of_day n = (y, n - days_before_year y)"
    using assms(3,4) days_in_year [of y] by (intro year_unique) (auto simp: month_start_def)
  moreover have "month_from (leap y) (n - days_before_year y) 11 = m"
    by (rule month_unique [OF assms(1,2)]) (use assms(3,4) in \<open>simp_all add: month_start_def\<close>)
  ultimately show ?thesis by (simp add: civil_def Let_def month_start_def)
qed

subsection \<open>Instants\<close>

lemma div_interval: "0 < (k :: int) \<Longrightarrow> n * k \<le> u \<Longrightarrow> u < (n + 1) * k \<Longrightarrow> u div k = n"
  by (rule int_div_pos_eq [of _ _ _ "u - n * k"]) (simp_all add: algebra_simps)

lemma day_interval: "t_day t * day_ns \<le> t" "t < (t_day t + 1) * day_ns"
proof -
  have "t = day_ns * (t div day_ns) + t mod day_ns" by simp
  moreover have "0 \<le> t mod day_ns" "t mod day_ns < day_ns" by simp_all
  ultimately show "t_day t * day_ns \<le> t" "t < (t_day t + 1) * day_ns" by (simp_all add: t_day_def algebra_simps)
qed

lemma same_day: "t \<le> u \<Longrightarrow> u < (t_day t + 1) * day_ns \<Longrightarrow> t_day u = t_day t"
  unfolding t_day_def [of u] using day_interval(1) [of t] by (intro div_interval) simp_all

lemma go_date_month:
  assumes "1 \<le> m" "m \<le> 12"
  shows "go_date y (m + 1) 1 0 = month_start y (m + 1) * day_ns"
proof (cases "m = 12")
  case True
  then show ?thesis
    by (simp add: go_date_def month_start_def days_before_month_simps days_in_year Let_def)
next
  case False
  then have "m div 12 = 0" "m mod 12 = m" using assms by simp_all
  then show ?thesis by (simp add: go_date_def month_start_def Let_def)
qed

lemma next_month:
  defines "t' \<equiv> \<lambda>t. go_date (t_year t) (t_month t + 1) 1 0"
  shows "t < t' t" "t \<le> u \<Longrightarrow> u < t' t \<Longrightarrow> t_month u = t_month t"
proof -
  obtain y m d where c: "civil (t_day t) = (y, m, d)" by (metis prod.exhaust)
  note b = civil_bounds [OF c]
  have t': "t' t = month_start y (m + 1) * day_ns"
    using c b(1,2) by (simp add: t'_def t_year_def t_month_def go_date_month)
  have "(t_day t + 1) * day_ns \<le> t' t" using b(4) unfolding t' by simp
  then show "t < t' t" using day_interval(2) [of t] by linarith
  assume u: "t \<le> u" "u < t' t"
  have "t_day u * day_ns < month_start y (m + 1) * day_ns" using day_interval(1) [of u] u(2) t' by linarith
  then have "t_day u < month_start y (m + 1)" by simp
  moreover have "t_day t \<le> t_day u" unfolding t_day_def by (rule zdiv_mono1) (use u in simp_all)
  ultimately have "civil (t_day u) = (y, m, t_day u - month_start y m + 1)"
    using b by (intro civil_unique) simp_all
  then show "t_month u = t_month t" using c by (simp add: t_month_def)
qed

lemma civil_day:
  assumes "civil n = (y, m, d)"
  shows "go_date y m d 0 = n * day_ns" "go_date y m (d + k) h = (n + k) * day_ns + h * hour_ns"
proof -
  note b = civil_bounds [OF assms]
  have m: "(m - 1) div 12 = 0" "(m - 1) mod 12 + 1 = m" using b(1,2) by simp_all
  have "days_before_year y + days_before_month (leap y) m + (d + j - 1) = n + j" for j
    using b(5) by (simp add: month_start_def)
  from this [of 0] this [of k] show "go_date y m d 0 = n * day_ns" "go_date y m (d + k) h = (n + k) * day_ns + h * hour_ns"
    by (simp_all add: go_date_def m Let_def)
qed

lemma next_day:
  defines "t' \<equiv> \<lambda>t. go_date (t_year t) (t_month t) (t_dom t + 1) 0"
  shows "t < t' t" "t \<le> u \<Longrightarrow> u < t' t \<Longrightarrow> t_dom u = t_dom t \<and> t_weekday u = t_weekday t"
proof -
  obtain y m d where c: "civil (t_day t) = (y, m, d)" by (metis prod.exhaust)
  have t': "t' t = (t_day t + 1) * day_ns"
    using civil_day(2) [OF c, of 1 0] c by (simp add: t'_def t_year_def t_month_def t_dom_def)
  show "t < t' t" using day_interval(2) [of t] t' by simp
  show "t \<le> u \<Longrightarrow> u < t' t \<Longrightarrow> t_dom u = t_dom t \<and> t_weekday u = t_weekday t"
    using same_day [of t u] t' by (simp add: t_dom_def t_weekday_def)
qed

lemma next_hour:
  defines "t' \<equiv> \<lambda>t. go_date (t_year t) (t_month t) (t_dom t) (t_hour t + 1)"
  shows "t < t' t" "t \<le> u \<Longrightarrow> u < t' t \<Longrightarrow> t_hour u = t_hour t"
proof -
  obtain y m d where c: "civil (t_day t) = (y, m, d)" by (metis prod.exhaust)
  have t': "t' t = t_day t * day_ns + (t_hour t + 1) * hour_ns"
    using civil_day(2) [OF c, of 0 "t_hour t + 1"] c by (simp add: t'_def t_year_def t_month_def t_dom_def)
  define r where "r = t mod day_ns"
  have t: "t = t_day t * day_ns + r" by (simp add: r_def t_day_def)
  have r: "0 \<le> r" "r < day_ns" by (simp_all add: r_def)
  have h: "t_hour t * hour_ns \<le> r" "r < (t_hour t + 1) * hour_ns"
  proof -
    have "r = hour_ns * (r div hour_ns) + r mod hour_ns" "0 \<le> r mod hour_ns" "r mod hour_ns < hour_ns" by simp_all
    then show "t_hour t * hour_ns \<le> r" "r < (t_hour t + 1) * hour_ns"
      unfolding t_hour_def r_def [symmetric] by (simp_all add: algebra_simps)
  qed
  show "t < t' t" using t h(2) t' by linarith
  have "t_hour t \<le> 23" using h(1) r(2) by simp
  assume u: "t \<le> u" "u < t' t"
  then have "u < (t_day t + 1) * day_ns" using t' \<open>t_hour t \<le> 23\<close> by simp
  then have d: "t_day u = t_day t" by (rule same_day [OF u(1)])
  have "u mod day_ns = u - t_day t * day_ns" using d unfolding t_day_def by (metis minus_div_mult_eq_mod)
  then show "t_hour u = t_hour t"
    unfolding t_hour_def [of u] using u t h t' by (intro div_interval) simp_all
qed

lemma weekday_range: "0 \<le> t_weekday t \<and> t_weekday t \<le> 6"
  using pos_mod_bound [of 7 "t_day t + 1"] by (simp add: t_weekday_def)

end
