(* ===== verification/Cron_Schedule.thy ===== *)
theory Cron_Schedule
  imports Go_Calendar Go_Strings
begin

section \<open>Cron schedules (internal/periodic/schedule.go)\<close>

text \<open>
  The parser of the five-field grammar and \<open>Next\<close>. A field is a mask of 64 bits. The loop that
  sets the bits of a range adds the step to an \<open>int\<close>: when the sum leaves 64 bits it wraps to a
  negative number, which is below the end of the range, and shifting by it panics; \<open>mask_range\<close>
  returns \<open>Panic\<close> there. Text is ASCII and instants are in UTC.
\<close>

subsection \<open>Masks\<close>

type_synonym field_mask = "64 word"

definition fm_set :: "int \<Rightarrow> field_mask \<Rightarrow> field_mask" where
  "fm_set v f = or f (push_bit (nat v) 1)"

definition fm_matches :: "field_mask \<Rightarrow> int \<Rightarrow> bool" where
  "fm_matches f v \<longleftrightarrow> and f (push_bit (nat v) 1) \<noteq> 0"

record schedule =
  sc_minute :: field_mask
  sc_hour :: field_mask
  sc_dom :: field_mask
  sc_month :: field_mask
  sc_dow :: field_mask
  sc_expr :: string

subsection \<open>The parser\<close>

datatype cron_error = FieldCount nat | InvalidStep string | BadNumber string | OutOfRange int int

definition month_aliases :: "string \<rightharpoonup> int" where
  "month_aliases = map_of [(''jan'', 1), (''feb'', 2), (''mar'', 3), (''apr'', 4), (''may'', 5), (''jun'', 6),
     (''jul'', 7), (''aug'', 8), (''sep'', 9), (''oct'', 10), (''nov'', 11), (''dec'', 12)]"

definition dow_aliases :: "string \<rightharpoonup> int" where
  "dow_aliases = map_of [(''sun'', 0), (''mon'', 1), (''tue'', 2), (''wed'', 3), (''thu'', 4), (''fri'', 5), (''sat'', 6)]"

definition resolve_token :: "(string \<rightharpoonup> int) \<Rightarrow> string \<Rightarrow> (cron_error, int) outcome" where
  "resolve_token aliases s =
     (let w = to_lower (trim_space s) in
      case aliases w of
        Some v \<Rightarrow> Ok v
      | None \<Rightarrow> (case atoi w of Some v \<Rightarrow> Ok v | None \<Rightarrow> Err (BadNumber w)))"

text \<open>A token is its part before the first slash and the step after it.\<close>

definition token_step :: "string \<Rightarrow> (cron_error, string \<times> int) outcome" where
  "token_step tok =
     (if CHR ''/'' \<in> set tok
      then (case atoi (tl (dropWhile (\<lambda>c. c \<noteq> CHR ''/'') tok)) of
              Some n \<Rightarrow> if n \<le> 0 then Err (InvalidStep tok) else Ok (takeWhile (\<lambda>c. c \<noteq> CHR ''/'') tok, n)
            | None \<Rightarrow> Err (InvalidStep tok))
      else Ok (tok, 1))"

definition token_range :: "int \<Rightarrow> int \<Rightarrow> (string \<rightharpoonup> int) \<Rightarrow> string \<Rightarrow> (cron_error, int \<times> int) outcome" where
  "token_range lo hi aliases tok =
     (if tok = ''*'' then Ok (lo, hi)
      else if CHR ''-'' \<in> set tok
      then outcome_bind (resolve_token aliases (takeWhile (\<lambda>c. c \<noteq> CHR ''-'') tok)) (\<lambda>a.
           outcome_bind (resolve_token aliases (tl (dropWhile (\<lambda>c. c \<noteq> CHR ''-'') tok))) (\<lambda>b. Ok (a, b)))
      else outcome_bind (resolve_token aliases tok) (\<lambda>v. Ok (v, v)))"

function mask_range :: "int \<Rightarrow> int \<Rightarrow> int \<Rightarrow> field_mask \<Rightarrow> (cron_error, field_mask) outcome" where
  "mask_range v b step f =
     (if v \<le> b \<and> 0 < step
      then (if v + step > max_i64 then Panic
            else mask_range (v + step) b step (fm_set v f))
      else Ok f)"
  by pat_completeness auto
termination
  by (relation "measure (\<lambda>(v, b, step, f). nat (b + 1 - v))") auto

declare mask_range.simps [simp del]

fun parse_tokens :: "int \<Rightarrow> int \<Rightarrow> (string \<rightharpoonup> int) \<Rightarrow> string list \<Rightarrow> field_mask \<Rightarrow> (cron_error, field_mask) outcome" where
  "parse_tokens lo hi aliases [] f = Ok f"
| "parse_tokens lo hi aliases (tok # toks) f =
     outcome_bind (token_step tok) (\<lambda>(tok', step).
     outcome_bind (token_range lo hi aliases tok') (\<lambda>(a, b).
       if a < lo \<or> b > hi \<or> a > b then Err (OutOfRange a b)
       else outcome_bind (mask_range a b step f) (\<lambda>f'. parse_tokens lo hi aliases toks f')))"

definition parse_field :: "int \<Rightarrow> int \<Rightarrow> (string \<rightharpoonup> int) \<Rightarrow> string \<Rightarrow> (cron_error, field_mask) outcome" where
  "parse_field lo hi aliases s = parse_tokens lo hi aliases (split_on CHR '','' s) 0"

definition parse_cron :: "string \<Rightarrow> (cron_error, schedule) outcome" where
  "parse_cron expr =
     (let e = trim_space expr in
      case fields_of e of
        [f0, f1, f2, f3, f4] \<Rightarrow>
          outcome_bind (parse_field 0 59 Map.empty f0) (\<lambda>mi.
          outcome_bind (parse_field 0 23 Map.empty f1) (\<lambda>ho.
          outcome_bind (parse_field 1 31 Map.empty f2) (\<lambda>dm.
          outcome_bind (parse_field 1 12 month_aliases f3) (\<lambda>mo.
          outcome_bind (parse_field 0 6 dow_aliases f4) (\<lambda>dw.
            Ok \<lparr>sc_minute = mi, sc_hour = ho, sc_dom = dm, sc_month = mo, sc_dow = dw, sc_expr = e\<rparr>)))))
      | fs \<Rightarrow> Err (FieldCount (length fs)))"

subsection \<open>Next\<close>

abbreviation five_years :: duration where "five_years \<equiv> 5 * 365 * 24 * hour_ns"

function next_loop :: "schedule \<Rightarrow> gotime \<Rightarrow> gotime \<Rightarrow> gotime" where
  "next_loop s deadline t =
     (if \<not> t < deadline then zero_time
      else if \<not> fm_matches (sc_month s) (t_month t)
      then next_loop s deadline (go_date (t_year t) (t_month t + 1) 1 0)
      else if \<not> fm_matches (sc_dom s) (t_dom t) \<or> \<not> fm_matches (sc_dow s) (t_weekday t)
      then next_loop s deadline (go_date (t_year t) (t_month t) (t_dom t + 1) 0)
      else if \<not> fm_matches (sc_hour s) (t_hour t)
      then next_loop s deadline (go_date (t_year t) (t_month t) (t_dom t) (t_hour t + 1))
      else if \<not> fm_matches (sc_minute s) (t_minute t)
      then next_loop s deadline (t + minute_ns)
      else t)"
  by pat_completeness auto
termination
  by (relation "measure (\<lambda>(s, deadline, t). nat (deadline - t))") (use next_month(1) next_day(1) next_hour(1) in auto)

declare next_loop.simps [simp del]

definition cron_next :: "schedule \<Rightarrow> gotime \<Rightarrow> gotime" where
  "cron_next s after = next_loop s (after + five_years) (truncate_minute after + minute_ns)"

subsection \<open>What the parser accepts\<close>

lemma bit_fm_set: "0 \<le> v \<Longrightarrow> v < 64 \<Longrightarrow> bit (fm_set v f) i \<longleftrightarrow> bit f i \<or> i = nat v"
  by (auto simp: fm_set_def bit_or_iff bit_exp_iff nat_less_iff)

lemma fm_matches_bit: "fm_matches f v \<longleftrightarrow> bit f (nat v)"
  by (simp add: fm_matches_def bit_iff_and_push_bit_not_eq_0)

text \<open>The values \<open>a, a + step, \<dots>\<close> up to \<open>b\<close>.\<close>

definition in_range :: "int \<Rightarrow> int \<Rightarrow> int \<Rightarrow> int \<Rightarrow> bool" where
  "in_range a b step v \<longleftrightarrow> a \<le> v \<and> v \<le> b \<and> (v - a) mod step = 0"

lemma in_range_step:
  assumes "a \<le> b" "0 < step"
  shows "in_range a b step v \<longleftrightarrow> v = a \<or> in_range (a + step) b step v"
proof -
  have "(v - (a + step)) mod step = (v - a) mod step"
    by (metis diff_diff_eq minus_mod_self2)
  moreover have "a < v \<Longrightarrow> (v - a) mod step = 0 \<Longrightarrow> a + step \<le> v"
    using zdvd_imp_le [of step "v - a"] by (auto simp: mod_eq_0_iff_dvd)
  ultimately show ?thesis using assms by (auto simp: in_range_def)
qed

lemma mask_range_bits:
  "0 \<le> a \<Longrightarrow> b < 64 \<Longrightarrow> 0 < step \<Longrightarrow> mask_range a b step f = Ok f' \<Longrightarrow>
   bit f' i \<longleftrightarrow> bit f i \<or> in_range a b step (int i)"
proof (induction a b step f rule: mask_range.induct)
  case (1 a b step f)
  show ?case
  proof (cases "a \<le> b")
    case True
    then have "a + step \<le> max_i64" "mask_range (a + step) b step (fm_set a f) = Ok f'"
      using 1(5) 1(4) by (subst (asm) mask_range.simps, simp split: if_splits)+
    then have "bit f' i \<longleftrightarrow> bit (fm_set a f) i \<or> in_range (a + step) b step (int i)"
      using 1 True by simp
    moreover have "bit (fm_set a f) i \<longleftrightarrow> bit f i \<or> int i = a"
      using bit_fm_set [of a f i] 1(2,3) True by auto
    ultimately show ?thesis unfolding in_range_step [OF True 1(4)] by blast
  next
    case False
    then show ?thesis using 1(5) by (subst (asm) mask_range.simps) (auto simp: in_range_def)
  qed
qed

lemma mask_range_small:
  "0 < step \<Longrightarrow> b + step \<le> max_i64 \<Longrightarrow> \<exists>f'. mask_range a b step f = Ok f'"
proof (induction a b step f rule: mask_range.induct)
  case (1 a b step f)
  show ?case
  proof (cases "a \<le> b")
    case True
    then have "\<exists>f'. mask_range (a + step) b step (fm_set a f) = Ok f'" using 1 by simp
    then show ?thesis using True 1(2,3) by (subst mask_range.simps) simp
  next
    case False
    then show ?thesis by (subst mask_range.simps) simp
  qed
qed

lemma mask_range_panics: "a \<le> b \<Longrightarrow> 0 < step \<Longrightarrow> a + step > max_i64 \<Longrightarrow> mask_range a b step f = Panic"
  by (subst mask_range.simps) simp

text \<open>Bits within the range of the field.\<close>

definition mask_within :: "int \<Rightarrow> int \<Rightarrow> field_mask \<Rightarrow> bool" where
  "mask_within lo hi f \<longleftrightarrow> (\<forall>i. bit f i \<longrightarrow> lo \<le> int i \<and> int i \<le> hi)"

lemma parse_tokens_within:
  assumes "0 \<le> lo" "hi < 64"
  shows "parse_tokens lo hi al toks f = Ok f' \<Longrightarrow> mask_within lo hi f \<Longrightarrow>
    mask_within lo hi f' \<and> (\<forall>i. bit f i \<longrightarrow> bit f' i) \<and> (toks \<noteq> [] \<longrightarrow> f' \<noteq> 0)"
proof (induction toks arbitrary: f)
  case (Cons tok toks)
  obtain tok' step a b f1 where tok: "token_step tok = Ok (tok', step)"
    and r: "\<not> (a < lo \<or> b > hi \<or> a > b)" "mask_range a b step f = Ok f1" "parse_tokens lo hi al toks f1 = Ok f'"
    using Cons.prems(1) by (auto simp: outcome_bind_Ok_iff split: if_splits)
  have "0 < step" using tok by (auto simp: token_step_def split: if_splits option.splits)
  then have bits: "bit f1 i \<longleftrightarrow> bit f i \<or> in_range a b step (int i)" for i
    using mask_range_bits [of a b step f f1 i] r assms by simp
  have "in_range a b step (int (nat a))" using r(1) assms(1) by (simp add: in_range_def)
  then have "bit f1 (nat a)" by (simp add: bits)
  moreover have "mask_within lo hi f1"
    using Cons.prems(2) r(1) by (auto simp: mask_within_def bits in_range_def)
  ultimately have "mask_within lo hi f'" "\<forall>i. bit f1 i \<longrightarrow> bit f' i" "bit f' (nat a)"
    using Cons.IH [OF r(3)] by auto
  moreover have "f' \<noteq> 0" using \<open>bit f' (nat a)\<close> by (metis bit_0_eq bot_apply bot_bool_def)
  ultimately show ?case using bits by blast
qed simp

lemma parse_field_within:
  assumes "0 \<le> lo" "hi < 64" "parse_field lo hi al w = Ok f"
  shows "mask_within lo hi f \<and> f \<noteq> 0"
  using parse_tokens_within [OF assms(1,2), of al "split_on CHR '','' w" 0 f] assms(3)
  by (simp add: parse_field_def mask_within_def)

subsection \<open>The first match\<close>

definition sched_matches :: "schedule \<Rightarrow> gotime \<Rightarrow> bool" where
  "sched_matches s t \<longleftrightarrow> fm_matches (sc_month s) (t_month t) \<and> fm_matches (sc_dom s) (t_dom t) \<and>
     fm_matches (sc_dow s) (t_weekday t) \<and> fm_matches (sc_hour s) (t_hour t) \<and> fm_matches (sc_minute s) (t_minute t)"

lemma go_date_aligned: "go_date y m d h mod minute_ns = 0"
proof -
  have "minute_ns dvd k * day_ns + h * hour_ns" for k :: int
    by (rule dvd_add; rule dvd_mult) simp_all
  then show ?thesis by (simp add: go_date_def Let_def dvd_imp_mod_0)
qed

lemma aligned_next: "t mod minute_ns = 0 \<Longrightarrow> u mod minute_ns = 0 \<Longrightarrow> t \<le> u \<Longrightarrow> u < t + minute_ns \<Longrightarrow> u = t"
  using zdvd_imp_le [of minute_ns "u - t"] by (fastforce simp: mod_eq_dvd_iff)

lemma next_loop_first:
  "t mod minute_ns = 0 \<Longrightarrow> 0 < t \<Longrightarrow>
   (next_loop s dl t = 0 \<longrightarrow> (\<forall>u. t \<le> u \<and> u < dl \<and> u mod minute_ns = 0 \<longrightarrow> \<not> sched_matches s u)) \<and>
   (next_loop s dl t \<noteq> 0 \<longrightarrow> t \<le> next_loop s dl t \<and> next_loop s dl t < dl \<and> next_loop s dl t mod minute_ns = 0 \<and>
     sched_matches s (next_loop s dl t) \<and>
     (\<forall>u. t \<le> u \<and> u < next_loop s dl t \<and> u mod minute_ns = 0 \<longrightarrow> \<not> sched_matches s u))"
proof (induction s dl t rule: next_loop.induct)
  case (1 s dl t)
  have skip: ?case if "next_loop s dl t = next_loop s dl t'" "t < t'" "t' mod minute_ns = 0"
    "\<And>u. t \<le> u \<Longrightarrow> u < t' \<Longrightarrow> u mod minute_ns = 0 \<Longrightarrow> \<not> sched_matches s u"
    "t' mod minute_ns = 0 \<Longrightarrow> 0 < t' \<Longrightarrow>
     (next_loop s dl t' = 0 \<longrightarrow> (\<forall>u. t' \<le> u \<and> u < dl \<and> u mod minute_ns = 0 \<longrightarrow> \<not> sched_matches s u)) \<and>
     (next_loop s dl t' \<noteq> 0 \<longrightarrow> t' \<le> next_loop s dl t' \<and> next_loop s dl t' < dl \<and> next_loop s dl t' mod minute_ns = 0 \<and>
       sched_matches s (next_loop s dl t') \<and>
       (\<forall>u. t' \<le> u \<and> u < next_loop s dl t' \<and> u mod minute_ns = 0 \<longrightarrow> \<not> sched_matches s u))" for t'
  proof -
    have "0 < t'" using that(2) 1(6) by simp
    have later: "t' \<le> u \<or> \<not> sched_matches s u" if "t \<le> u" "u mod minute_ns = 0" for u
      using that \<open>\<And>u. t \<le> u \<Longrightarrow> u < t' \<Longrightarrow> u mod minute_ns = 0 \<Longrightarrow> \<not> sched_matches s u\<close> by fastforce
    show ?thesis
      unfolding that(1) using that(5) [OF that(3) \<open>0 < t'\<close>] that(2) later
      by (meson order_less_imp_le order_trans)
  qed
  show ?case
  proof (cases "t < dl")
    case False
    then have "next_loop s dl t = 0" by (subst next_loop.simps) simp
    then show ?thesis using False by auto
  next
    case dl: True
    show ?thesis
    proof (cases "fm_matches (sc_month s) (t_month t)")
      case False
      have eq: "next_loop s dl t = next_loop s dl (go_date (t_year t) (t_month t + 1) 1 0)"
        by (subst next_loop.simps) (use dl False in simp)
      show ?thesis
      proof (rule skip [OF eq next_month(1) go_date_aligned])
        show "\<not> sched_matches s u" if "t \<le> u" "u < go_date (t_year t) (t_month t + 1) 1 0" "u mod minute_ns = 0" for u
          using next_month(2) [OF that(1,2)] False by (auto simp: sched_matches_def)
      qed (rule 1(1); use dl False in simp)
    next
      case mo: True
      show ?thesis
      proof (cases "\<not> fm_matches (sc_dom s) (t_dom t) \<or> \<not> fm_matches (sc_dow s) (t_weekday t)")
        case True
        have eq: "next_loop s dl t = next_loop s dl (go_date (t_year t) (t_month t) (t_dom t + 1) 0)"
          by (subst next_loop.simps) (use dl mo True in simp)
        show ?thesis
        proof (rule skip [OF eq next_day(1) go_date_aligned])
          show "\<not> sched_matches s u" if "t \<le> u" "u < go_date (t_year t) (t_month t) (t_dom t + 1) 0" "u mod minute_ns = 0" for u
            using next_day(2) [OF that(1,2)] True by (auto simp: sched_matches_def)
        qed (rule 1(2); use dl mo True in simp)
      next
        case dy: False
        show ?thesis
        proof (cases "fm_matches (sc_hour s) (t_hour t)")
          case False
          have eq: "next_loop s dl t = next_loop s dl (go_date (t_year t) (t_month t) (t_dom t) (t_hour t + 1))"
            by (subst next_loop.simps) (use dl mo dy False in simp)
          show ?thesis
          proof (rule skip [OF eq next_hour(1) go_date_aligned])
            show "\<not> sched_matches s u" if "t \<le> u" "u < go_date (t_year t) (t_month t) (t_dom t) (t_hour t + 1)" "u mod minute_ns = 0" for u
              using next_hour(2) [OF that(1,2)] False by (auto simp: sched_matches_def)
          qed (rule 1(3); use dl mo dy False in simp)
        next
          case ho: True
          show ?thesis
          proof (cases "fm_matches (sc_minute s) (t_minute t)")
            case False
            have eq: "next_loop s dl t = next_loop s dl (t + minute_ns)"
              by (subst next_loop.simps) (use dl mo dy ho False in simp)
            show ?thesis
            proof (rule skip [OF eq])
              show "\<not> sched_matches s u" if "t \<le> u" "u < t + minute_ns" "u mod minute_ns = 0" for u
                using aligned_next [OF 1(5) that(3,1,2)] False by (simp add: sched_matches_def)
              show "(t + minute_ns) mod minute_ns = 0" using 1(5) by simp
            qed (simp; fail | (rule 1(4); use dl mo dy ho False in simp))+
          next
            case True
            then have "next_loop s dl t = t" using dl mo dy ho by (subst next_loop.simps) simp
            then show ?thesis using dl mo dy ho True 1(5,6) by (auto simp: sched_matches_def)
          qed
        qed
      qed
    qed
  qed
qed

subsection \<open>Properties\<close>

lemma truncate_minute: "truncate_minute t mod minute_ns = 0" "truncate_minute t \<le> t" "t < truncate_minute t + minute_ns"
  by (simp_all add: truncate_minute_def minus_mod_eq_mult_div)

lemma cron_next_matches:
  assumes "0 \<le> after" "cron_next s after \<noteq> 0"
  shows "sched_matches s (cron_next s after)"
proof -
  have "(truncate_minute after + minute_ns) mod minute_ns = 0" "0 < truncate_minute after + minute_ns"
    using truncate_minute [of after] assms(1) by simp_all
  from next_loop_first [OF this, of s "after + five_years"] show ?thesis using assms(2) by (simp add: cron_next_def)
qed


text \<open>Midnight of 1 January, and the thirtieth of February.\<close>

definition new_year :: schedule where
  "new_year = \<lparr>sc_minute = 1, sc_hour = 1, sc_dom = 2, sc_month = 2, sc_dow = 127, sc_expr = ''0 0 1 1 *''\<rparr>"


lemma parse_cron_fields:
  assumes "parse_cron e = Ok s"
  obtains f0 f1 f2 f3 f4 where "parse_field 0 59 Map.empty f0 = Ok (sc_minute s)"
    "parse_field 0 23 Map.empty f1 = Ok (sc_hour s)" "parse_field 1 31 Map.empty f2 = Ok (sc_dom s)"
    "parse_field 1 12 month_aliases f3 = Ok (sc_month s)" "parse_field 0 6 dow_aliases f4 = Ok (sc_dow s)"
proof -
  obtain f0 f1 f2 f3 f4 mi ho dm mo dw e' where r: "parse_field 0 59 Map.empty f0 = Ok mi"
    "parse_field 0 23 Map.empty f1 = Ok ho" "parse_field 1 31 Map.empty f2 = Ok dm"
    "parse_field 1 12 month_aliases f3 = Ok mo" "parse_field 0 6 dow_aliases f4 = Ok dw"
    "s = \<lparr>sc_minute = mi, sc_hour = ho, sc_dom = dm, sc_month = mo, sc_dow = dw, sc_expr = e'\<rparr>"
    using assms unfolding parse_cron_def Let_def outcome_bind_Ok_iff
    by (simp add: outcome_bind_Ok_iff split: list.splits) metis
  show thesis by (rule that [of f0 f1 f2 f3 f4]) (simp_all add: r)
qed

text \<open>C13. A schedule that the parser accepts has five masks of the right kind: each permits at least one
  value, and only values of its field (minutes 0 to 59, hours 0 to 23, days 1 to 31, months 1 to 12,
  weekdays 0 to 6).\<close>

theorem cron_masks_in_range:
  assumes "parse_cron e = Ok s"
  shows "mask_within 0 59 (sc_minute s) \<and> mask_within 0 23 (sc_hour s) \<and> mask_within 1 31 (sc_dom s) \<and>
    mask_within 1 12 (sc_month s) \<and> mask_within 0 6 (sc_dow s) \<and>
    sc_minute s \<noteq> 0 \<and> sc_hour s \<noteq> 0 \<and> sc_dom s \<noteq> 0 \<and> sc_month s \<noteq> 0 \<and> sc_dow s \<noteq> 0"
proof -
  obtain f0 f1 f2 f3 f4 where r: "parse_field 0 59 Map.empty f0 = Ok (sc_minute s)"
    "parse_field 0 23 Map.empty f1 = Ok (sc_hour s)" "parse_field 1 31 Map.empty f2 = Ok (sc_dom s)"
    "parse_field 1 12 month_aliases f3 = Ok (sc_month s)" "parse_field 0 6 dow_aliases f4 = Ok (sc_dow s)"
    using parse_cron_fields [OF assms] .
  show ?thesis
    using parse_field_within [OF _ _ r(1)] parse_field_within [OF _ _ r(2)] parse_field_within [OF _ _ r(3)]
      parse_field_within [OF _ _ r(4)] parse_field_within [OF _ _ r(5)] by simp
qed

definition half_hours :: string where "half_hours = ''0,30 9-17/4 1 jan,Jul mon-fri''"

lemma half_hours_parsed:
  "case parse_cron half_hours of Ok s \<Rightarrow> sc_hour s = 139776 \<and> sc_dow s = 62 | _ \<Rightarrow> False"
  by code_simp

lemma cron_masks_in_range_witness:
  "case parse_cron half_hours of Ok s \<Rightarrow> mask_within 0 6 (sc_dow s) \<and> sc_dow s = 62 | _ \<Rightarrow> False"
  using half_hours_parsed cron_masks_in_range [of half_hours] by (auto split: outcome.splits)

text \<open>The range loop ends in every case, and it panics exactly when the last value it sets plus the
  step does not fit a 64-bit \<open>int\<close>: the sum wraps to a negative shift. So \<open>Parse\<close> panics on a
  text a user may submit, where the documentation promises an error or a schedule.\<close>

theorem cron_step_overflow_panics:
  assumes "a \<le> b" "0 < step"
  shows "(mask_range a b step f = Panic \<longleftrightarrow> b - (b - a) mod step + step > max_i64) \<and>
    parse_cron ''1/9223372036854775807 * * * *'' = Panic"
proof -
  have "mask_range a b step f = Panic \<longleftrightarrow> b - (b - a) mod step + step > max_i64"
    using assms
  proof (induction a b step f rule: mask_range.induct)
    case (1 a b step f)
    have m: "b - (b - a) mod step + step \<ge> a + step"
      using zmod_le_nonneg_dividend [of "b - a" step] 1(2) by simp
    show ?case
    proof (cases "a + step \<le> b")
      case True
      have "(b - (a + step)) mod step = (b - a) mod step" by (metis diff_diff_eq minus_mod_self2)
      then show ?thesis using 1 True m by (subst mask_range.simps) (auto split: if_splits)
    next
      case False
      then have "(b - a) mod step = b - a" using 1(2,3) by simp
      moreover have "mask_range (a + step) b step (fm_set a f) = Ok (fm_set a f)"
        using False by (subst mask_range.simps) simp
      ultimately show ?thesis using 1(2,3) by (subst mask_range.simps) simp
    qed
  qed
  moreover have "parse_cron ''1/9223372036854775807 * * * *'' = Panic" by code_simp
  ultimately show ?thesis by blast
qed

lemma cron_step_overflow_panics_witness:
  "mask_range 1 1 9223372036854775807 0 = Panic \<and> mask_range 1 1 9223372036854775806 0 \<noteq> Panic"
  using cron_step_overflow_panics [of 1 1 9223372036854775807 0] cron_step_overflow_panics [of 1 1 9223372036854775806 0]
  by simp

end
