(* ===== verification/Dispatcher.thy ===== *)
theory Dispatcher
  imports Cron_Schedule Go_Heap
begin

section \<open>The periodic dispatcher (internal/periodic/dispatcher.go)\<close>

text \<open>
  Schedules under job ids, in a heap ordered by their next firing. An entry is its id with the
  schedule and the next instant; the back-reference \<open>index\<close> is its position in the slice, and the
  map \<open>byID\<close> holds the same entries under their ids, so a lookup in it is \<open>find_key\<close> on the
  slice. \<open>wake\<close> is a channel of capacity one that carries nothing: one bit. \<open>run_round\<close> is one
  iteration of the goroutine, from the case its \<open>select\<close> takes; the callbacks it starts are the
  list of ids and scheduled instants it returns. \<open>Stop\<close> is the flag of the closed channel.
\<close>

subsection \<open>State and operations\<close>

type_synonym job_entry = "string \<times> schedule \<times> gotime"

abbreviation je_next :: "job_entry \<Rightarrow> gotime" where "je_next e \<equiv> snd (snd e)"

definition job_less :: "job_entry \<Rightarrow> job_entry \<Rightarrow> bool" where
  "job_less a b \<longleftrightarrow> je_next a < je_next b"

interpretation jobs: strict_weak_order job_less
  by unfold_locales (auto simp: job_less_def)

record dispatcher =
  dp_jobs :: "job_entry list"
  dp_wake :: bool
  dp_stopped :: bool

definition new_dispatcher :: dispatcher where
  "new_dispatcher = \<lparr>dp_jobs = [], dp_wake = False, dp_stopped = False\<rparr>"

definition dp_signal :: "dispatcher \<Rightarrow> dispatcher" where
  "dp_signal d = d\<lparr>dp_wake := True\<rparr>"

definition dp_stop :: "dispatcher \<Rightarrow> dispatcher" where
  "dp_stop d = d\<lparr>dp_stopped := True\<rparr>"

definition drop_job :: "string \<Rightarrow> job_entry list \<Rightarrow> job_entry list" where
  "drop_job k h = (case find_key k h of Some i \<Rightarrow> snd (heap_remove job_less h i) | None \<Rightarrow> h)"

definition dp_add :: "gotime \<Rightarrow> string \<Rightarrow> schedule \<Rightarrow> dispatcher \<Rightarrow> dispatcher" where
  "dp_add now k s d =
     dp_signal (d\<lparr>dp_jobs := heap_push job_less (drop_job k (dp_jobs d)) (k, s, cron_next s now)\<rparr>)"

definition dp_remove :: "string \<Rightarrow> dispatcher \<Rightarrow> dispatcher" where
  "dp_remove k d =
     (case find_key k (dp_jobs d) of
        Some i \<Rightarrow> dp_signal (d\<lparr>dp_jobs := snd (heap_remove job_less (dp_jobs d) i)\<rparr>)
      | None \<Rightarrow> d)"

definition run_sleep :: "gotime \<Rightarrow> dispatcher \<Rightarrow> duration" where
  "run_sleep now d = (if dp_jobs d = [] then hour_ns else max 0 (je_next (dp_jobs d ! 0) - now))"

text \<open>The firing pass under the lock.\<close>

lemma next_loop_forward: "next_loop s dl t = 0 \<or> t \<le> next_loop s dl t"
proof (induction s dl t rule: next_loop.induct)
  case (1 s dl t)
  then show ?case
    using next_month(1) [of t] next_day(1) [of t] next_hour(1) [of t]
    by (subst (1 2) next_loop.simps) (smt (verit))
qed

lemma cron_next_forward: "cron_next s now = 0 \<or> now < cron_next s now"
  using next_loop_forward [of s "now + five_years" "truncate_minute now + minute_ns"] truncate_minute(3) [of now]
  by (fastforce simp: cron_next_def)

definition job_due :: "gotime \<Rightarrow> job_entry \<Rightarrow> bool" where
  "job_due now e \<longleftrightarrow> \<not> now < je_next e"

definition fire_top :: "gotime \<Rightarrow> job_entry list \<Rightarrow> job_entry list" where
  "fire_top now h =
     (case h ! 0 of (k, s, t) \<Rightarrow>
        let next = cron_next s now in
        if next = zero_time then snd (heap_remove job_less (h[0 := (k, s, next)]) 0)
        else heap_fix job_less (h[0 := (k, s, next)]) 0)"

lemma mset_fire_top:
  assumes "h \<noteq> []" "h ! 0 = (k, s, t)"
  shows "add_mset (k, s, t) (mset (fire_top now h)) =
    mset h + (if cron_next s now = 0 then {#} else {#(k, s, cron_next s now)#})"
proof -
  let ?h = "h[0 := (k, s, cron_next s now)]"
  have m: "add_mset (k, s, t) (mset ?h) = add_mset (k, s, cron_next s now) (mset h)"
    using assms by (cases h) simp_all
  show ?thesis
  proof (cases "cron_next s now = 0")
    case True
    have "mset ?h = add_mset (k, s, 0) (mset (snd (heap_remove job_less ?h 0)))"
      using mset_heap_remove [of 0 ?h job_less] assms True by simp
    then show ?thesis using m True assms(2) by (simp add: fire_top_def)
  next
    case False
    then show ?thesis using m assms by (simp add: fire_top_def mset_heap_fix)
  qed
qed

lemma due_fire_top:
  assumes "h \<noteq> []" "job_due now (h ! 0)"
  shows "size (filter_mset (job_due now) (mset (fire_top now h))) < size (filter_mset (job_due now) (mset h))"
proof -
  obtain k s t where top: "h ! 0 = (k, s, t)" by (metis surj_pair)
  have "\<not> job_due now (k, s, cron_next s now)" if "cron_next s now \<noteq> 0"
    using cron_next_forward [of s now] that by (auto simp: job_due_def)
  then have "filter_mset (job_due now) (add_mset (k, s, t) (mset (fire_top now h))) = filter_mset (job_due now) (mset h)"
    unfolding mset_fire_top [OF assms(1) top] by simp
  then have "filter_mset (job_due now) (mset h) = add_mset (k, s, t) (filter_mset (job_due now) (mset (fire_top now h)))"
    using assms(2) top by simp
  then show ?thesis by simp
qed

function fire_loop :: "gotime \<Rightarrow> job_entry list \<Rightarrow> (string \<times> gotime) list \<times> job_entry list" where
  "fire_loop now h =
     (if h = [] \<or> now < je_next (h ! 0) then ([], h)
      else case fire_loop now (fire_top now h) of
        (fires, h') \<Rightarrow> ((fst (h ! 0), je_next (h ! 0)) # fires, h'))"
  by pat_completeness auto
termination
  by (relation "measure (\<lambda>(now, h). size (filter_mset (job_due now) (mset h)))")
     (use due_fire_top in \<open>auto simp: job_due_def\<close>)

declare fire_loop.simps [simp del]

text \<open>One iteration of the goroutine; the select may take the timer although \<open>wake\<close> is set.\<close>

datatype run_case = StopCase | WakeCase | TimerCase

datatype run_result = RunReturn | RunContinue dispatcher | RunFires "(string \<times> gotime) list" dispatcher

definition case_ready :: "dispatcher \<Rightarrow> run_case \<Rightarrow> bool" where
  "case_ready d c = (case c of StopCase \<Rightarrow> dp_stopped d | WakeCase \<Rightarrow> dp_wake d | TimerCase \<Rightarrow> True)"

definition run_round :: "gotime \<Rightarrow> run_case \<Rightarrow> dispatcher \<Rightarrow> run_result" where
  "run_round now c d =
     (case c of
        StopCase \<Rightarrow> RunReturn
      | WakeCase \<Rightarrow> RunContinue (d\<lparr>dp_wake := False\<rparr>)
      | TimerCase \<Rightarrow> (case fire_loop now (dp_jobs d) of (fires, h) \<Rightarrow> RunFires fires (d\<lparr>dp_jobs := h\<rparr>)))"

subsection \<open>The registered jobs\<close>

text \<open>The heap order, one entry per id, and no next firing before the epoch.\<close>

definition jobs_ok :: "job_entry list \<Rightarrow> bool" where
  "jobs_ok h \<longleftrightarrow> is_heap job_less h \<and> distinct (map fst h) \<and> (\<forall>e \<in> set h. 0 \<le> je_next e)"

definition dp_map :: "dispatcher \<Rightarrow> string \<rightharpoonup> schedule \<times> gotime" where
  "dp_map d = map_of (dp_jobs d)"

lemma jobs_ok_mset:
  assumes "is_heap job_less h'" "mset h' = mset xs" "distinct (map fst xs)" "\<forall>e \<in> set xs. 0 \<le> je_next e"
  shows "jobs_ok h' \<and> map_of h' = map_of xs"
  using assms distinct_keys_cong [of h' xs] map_of_mset [of h' xs] by (auto simp: jobs_ok_def dest: mset_eq_setD)

lemma drop_job_correct:
  assumes ok: "jobs_ok h"
  shows "jobs_ok (drop_job k h) \<and> map_of (drop_job k h) = (map_of h)(k := None)"
proof (cases "find_key k h")
  case None
  then have "map_of h k = None" by (simp add: find_key_None map_of_eq_None_iff)
  then show ?thesis using ok None by (simp add: drop_job_def fun_upd_idem)
next
  case (Some i)
  note i = find_key_Some [OF Some]
  let ?h = "snd (heap_remove job_less h i)"
  have m: "mset h = mset (h ! i # ?h)" using mset_heap_remove [of i h job_less] i by simp
  have d: "distinct (map fst (h ! i # ?h))" using ok distinct_keys_cong [OF m] by (simp add: jobs_ok_def)
  have s: "set ?h \<subseteq> set h" using mset_eq_setD [OF m] by auto
  have "map_of h = map_of (h ! i # ?h)" by (rule map_of_mset) (use ok m in \<open>auto simp: jobs_ok_def\<close>)
  moreover have "map_of ?h k = None" using d i by (auto simp: map_of_eq_None_iff)
  ultimately have "(map_of h)(k := None) = map_of ?h" using i by (auto simp: fun_eq_iff)
  moreover have "is_heap job_less ?h" using jobs.is_heap_remove ok i by (simp add: jobs_ok_def)
  ultimately show ?thesis using d s ok Some by (auto simp: drop_job_def jobs_ok_def)
qed

lemma cron_next_nonneg: "0 \<le> now \<Longrightarrow> 0 \<le> cron_next s now"
  using cron_next_forward [of s now] by auto

lemma fire_top_correct:
  assumes ok: "jobs_ok h" and h: "h \<noteq> []" "h ! 0 = (k, s, t)" and now: "0 \<le> now"
  shows "jobs_ok (fire_top now h) \<and>
    map_of (fire_top now h) = (map_of h)(k := (if cron_next s now = 0 then None else Some (s, cron_next s now)))"
proof -
  obtain r where r: "h = (k, s, t) # r" using h by (cases h) auto
  let ?n = "cron_next s now"
  let ?xs = "if ?n = 0 then r else (k, s, ?n) # r"
  have m: "mset (fire_top now h) = mset ?xs" using mset_fire_top [OF h, of now] r by auto
  have "is_heap job_less (fire_top now h)"
  proof (cases "?n = 0")
    case True
    have "is_heap job_less (h[0 := (k, s, ?n)])"
      using ok True by (intro jobs.is_heap_set_root) (auto simp: jobs_ok_def job_less_def)
    then show ?thesis using jobs.is_heap_remove h True by (simp add: fire_top_def)
  next
    case False
    then show ?thesis using jobs.is_heap_fix ok h by (simp add: fire_top_def jobs_ok_def)
  qed
  then have "jobs_ok (fire_top now h) \<and> map_of (fire_top now h) = map_of ?xs"
    by (rule jobs_ok_mset [OF _ m]) (use ok r cron_next_nonneg [OF now] in \<open>auto simp: jobs_ok_def\<close>)
  moreover have "map_of r k = None" using ok r by (auto simp: jobs_ok_def map_of_eq_None_iff)
  then have "map_of ?xs = (map_of h)(k := (if ?n = 0 then None else Some (s, ?n)))"
    using r by (auto simp: fun_eq_iff)
  ultimately show ?thesis by simp
qed

text \<open>Where the pass leaves a job.\<close>

definition advanced :: "gotime \<Rightarrow> (schedule \<times> gotime) option \<Rightarrow> (schedule \<times> gotime) option" where
  "advanced now j = (case j of
     None \<Rightarrow> None
   | Some (s, t) \<Rightarrow> if now < t then Some (s, t) else if cron_next s now = 0 then None else Some (s, cron_next s now))"

lemma fire_loop_correct:
  "jobs_ok h \<Longrightarrow> 0 \<le> now \<Longrightarrow> fire_loop now h = (fires, h') \<Longrightarrow>
   jobs_ok h' \<and> map_of h' = (\<lambda>k. advanced now (map_of h k)) \<and>
   mset fires = image_mset (\<lambda>e. (fst e, je_next e)) (filter_mset (job_due now) (mset h)) \<and> sorted (map snd fires)"
proof (induction now h arbitrary: fires h' rule: fire_loop.induct)
  case (1 now h)
  have least: "\<not> job_less e (h ! 0)" if "e \<in> set h" for e
    using that 1(2) jobs.heap_head_least by (simp add: jobs_ok_def)
  show ?case
  proof (cases "h = [] \<or> now < je_next (h ! 0)")
    case True
    then have eq: "fires = []" "h' = h" using 1(4) by (subst (asm) fire_loop.simps, simp)+
    have late: "now < je_next e" if "e \<in> set h" for e using least [OF that] True that by (auto simp: job_less_def)
    then have "filter_mset (job_due now) (mset h) = {#}" by (auto simp: job_due_def filter_mset_eq_conv)
    moreover have "map_of h k = advanced now (map_of h k)" for k
      using late map_of_SomeD [of h k] by (force simp: advanced_def split: option.splits)
    ultimately show ?thesis using eq 1(2) by auto
  next
    case False
    obtain k s t where top: "h ! 0 = (k, s, t)" by (metis surj_pair)
    have h: "h \<noteq> []" and due: "job_due now (k, s, t)" using False top by (auto simp: job_due_def)
    obtain fs where rec: "fire_loop now (fire_top now h) = (fs, h')" and fires: "fires = (k, t) # fs"
      using 1(4) False top by (subst (asm) fire_loop.simps) (auto split: prod.splits)
    note step = fire_top_correct [OF 1(2) h top 1(3)]
    note IH = 1(1) [OF False conjunct1 [OF step] 1(3) rec]
    have fresh: "\<not> job_due now (k, s, cron_next s now)" if "cron_next s now \<noteq> 0"
      using cron_next_forward [of s now] that by (auto simp: job_due_def)
    have "filter_mset (job_due now) (add_mset (k, s, t) (mset (fire_top now h))) = filter_mset (job_due now) (mset h)"
      unfolding mset_fire_top [OF h top] using fresh by simp
    then have m: "filter_mset (job_due now) (mset h) = add_mset (k, s, t) (filter_mset (job_due now) (mset (fire_top now h)))"
      using due by simp
    have "map_of h k = Some (s, t)" using h top by (cases h) auto
    then have "advanced now (map_of (fire_top now h) j) = advanced now (map_of h j)" for j
      using step due cron_next_forward [of s now] by (auto simp: advanced_def job_due_def)
    moreover have "t \<le> u" if "(j, u) \<in> set fs" for j u
    proof -
      have "(j, u) \<in># image_mset (\<lambda>e. (fst e, je_next e)) (filter_mset (job_due now) (mset (fire_top now h)))"
        using IH that by (metis set_mset_mset)
      then have "\<exists>e \<in> set h. je_next e = u" using m by (auto dest!: arg_cong [of _ _ set_mset]) force
      then show ?thesis using least top by (fastforce simp: job_less_def)
    qed
    ultimately show ?thesis using IH m fires by (auto simp: fun_eq_iff)
  qed
qed

lemma dp_add_correct:
  assumes "jobs_ok (dp_jobs d)" "0 \<le> now"
  shows "jobs_ok (dp_jobs (dp_add now k s d)) \<and> dp_map (dp_add now k s d) = (dp_map d)(k \<mapsto> (s, cron_next s now))"
proof -
  note drop = drop_job_correct [OF assms(1), of k]
  let ?h = "drop_job k (dp_jobs d)"
  let ?e = "(k, s, cron_next s now)"
  have fresh: "k \<notin> fst ` set ?h" using drop by (metis fun_upd_same map_of_eq_None_iff)
  have "is_heap job_less (heap_push job_less ?h ?e)" using drop by (intro jobs.is_heap_push) (simp add: jobs_ok_def)
  then have "jobs_ok (heap_push job_less ?h ?e) \<and> map_of (heap_push job_less ?h ?e) = map_of (?e # ?h)"
    by (rule jobs_ok_mset) (use drop fresh cron_next_nonneg [OF assms(2)] in \<open>auto simp: mset_heap_push jobs_ok_def\<close>)
  then show ?thesis using drop by (simp add: dp_map_def dp_add_def dp_signal_def)
qed

lemma dp_remove_correct:
  assumes "jobs_ok (dp_jobs d)"
  shows "jobs_ok (dp_jobs (dp_remove k d)) \<and> dp_map (dp_remove k d) = (dp_map d)(k := None)"
proof -
  have "dp_jobs (dp_remove k d) = drop_job k (dp_jobs d)"
    by (simp add: dp_remove_def drop_job_def dp_signal_def split: option.split)
  then show ?thesis using drop_job_correct [OF assms, of k] by (simp add: dp_map_def)
qed

lemma advanced_later: "advanced now j = Some (s, t) \<Longrightarrow> now < t"
  using cron_next_forward by (fastforce simp: advanced_def split: option.splits if_splits)

subsection \<open>Properties\<close>

text \<open>The dispatcher is a map from ids to a schedule and its next instant: \<open>Add\<close> replaces the
  registration of the id by the schedule with its first instant after the clock, \<open>Remove\<close> deletes
  it, both leave every other registration alone, and both keep the heap order and one entry per
  id.\<close>

theorem dispatcher_refines_map:
  assumes "jobs_ok (dp_jobs d)" "0 \<le> now"
  shows "jobs_ok (dp_jobs (dp_add now k s d)) \<and> dp_map (dp_add now k s d) = (dp_map d)(k \<mapsto> (s, cron_next s now)) \<and>
    jobs_ok (dp_jobs (dp_remove k d)) \<and> dp_map (dp_remove k d) = (dp_map d)(k := None)"
  using dp_add_correct [OF assms] dp_remove_correct [OF assms(1)] by blast

definition two_jobs :: dispatcher where
  "two_jobs = \<lparr>dp_jobs = [(''a'', new_year, 60000000000), (''b'', new_year, 31536000000000000)], dp_wake = False, dp_stopped = False\<rparr>"

lemma two_jobs_ok: "jobs_ok (dp_jobs two_jobs)"
proof -
  have "is_heap job_less (dp_jobs two_jobs)"
    by (auto simp: two_jobs_def heap_upto_def job_less_def less_Suc_eq)
  then show ?thesis by (simp add: jobs_ok_def two_jobs_def)
qed

lemma dispatcher_refines_map_witness:
  "dp_map (dp_remove ''a'' two_jobs) ''a'' = None \<and> dp_map (dp_remove ''a'' two_jobs) ''b'' = Some (new_year, 31536000000000000)"
  using dispatcher_refines_map [OF two_jobs_ok, of 0 "''a''" new_year] by (simp add: dp_map_def two_jobs_def)



text \<open>The thirtieth of February parses, and never comes.\<close>

definition feb_30 :: schedule where
  "feb_30 = \<lparr>sc_minute = 1, sc_hour = 1, sc_dom = 2 ^ 30, sc_month = 4, sc_dow = 127, sc_expr = ''0 0 30 2 *''\<rparr>"

lemma feb_30_parsed: "parse_cron ''0 0 30 2 *'' = Ok feb_30"
  by code_simp

lemma february_ends: "t_month t = 2 \<Longrightarrow> t_dom t \<le> 29"
proof -
  obtain y m d where c: "civil (t_day t) = (y, m, d)" by (metis surj_pair)
  assume "t_month t = 2"
  then have "m = 2" using c by (simp add: t_month_def)
  then show ?thesis
    using civil_bounds(4,5) [OF c] c by (simp add: t_dom_def month_start_def days_before_month_simps split: if_splits)
qed

lemma t_dom_pos: "1 \<le> t_dom t"
proof -
  obtain y m d where c: "civil (t_day t) = (y, m, d)" by (metis surj_pair)
  show ?thesis using civil_bounds(3,5) [OF c] c by (simp add: t_dom_def)
qed

lemma feb_30_never: "0 \<le> now \<Longrightarrow> cron_next feb_30 now = 0"
proof (rule ccontr)
  let ?r = "cron_next feb_30 now"
  assume "0 \<le> now" "?r \<noteq> 0"
  then have m: "sched_matches feb_30 ?r" by (rule cron_next_matches)
  have "fm_matches (2 ^ 2) (t_month ?r)" "fm_matches (2 ^ 30) (t_dom ?r)"
    using m by (simp_all add: sched_matches_def feb_30_def)
  then have "nat (t_month ?r) = 2" "nat (t_dom ?r) = 30"
    unfolding fm_matches_bit bit_exp_iff by auto
  then show False using february_ends [of ?r] by linarith
qed

text \<open>A schedule with no instant within five years is registered all the same, with the zero time as its
  instant, which is always due: the goroutine then does not sleep, and its next pass starts one
  callback for that id, scheduled for the zero time, and then drops the job.\<close>

theorem impossible_schedule_fires:
  assumes "jobs_ok (dp_jobs d)" "0 \<le> now" "cron_next s now = 0"
  shows "run_sleep now (dp_add now k s d) = 0 \<and>
    (\<exists>fires d'. run_round now TimerCase (dp_add now k s d) = RunFires fires d' \<and> (k, 0) \<in> set fires \<and>
      dp_map d' k = None)"
proof -
  let ?d = "dp_add now k s d"
  have ok: "jobs_ok (dp_jobs ?d)" and map: "dp_map ?d k = Some (s, 0)"
    using dp_add_correct [OF assms(1,2), of k s] assms(3) by simp_all
  then have e: "(k, s, 0) \<in> set (dp_jobs ?d)" by (auto simp: dp_map_def dest: map_of_SomeD)
  then have "\<not> job_less (k, s, 0) (dp_jobs ?d ! 0)"
    using ok jobs.heap_head_least by (simp add: jobs_ok_def)
  moreover have "dp_jobs ?d \<noteq> []" using e by auto
  ultimately have "run_sleep now ?d = 0" using assms(2) by (simp add: run_sleep_def job_less_def)
  moreover obtain fires h' where r: "fire_loop now (dp_jobs ?d) = (fires, h')" by fastforce
  note fl = fire_loop_correct [OF ok assms(2) r]
  have "(k, s, 0) \<in># filter_mset (job_due now) (mset (dp_jobs ?d))" using e assms(2) by (simp add: job_due_def)
  then have "(k, 0) \<in> set fires" using fl by (force simp flip: set_mset_mset)
  moreover have "map_of h' k = None" using fl map assms by (simp add: advanced_def dp_map_def)
  ultimately show ?thesis using r by (simp add: run_round_def dp_map_def)
qed

lemma impossible_schedule_fires_witness:
  "\<exists>s. parse_cron ''0 0 30 2 *'' = Ok s \<and> run_sleep 5 (dp_add 5 ''job'' s new_dispatcher) = 0"
  using impossible_schedule_fires [of new_dispatcher 5 feb_30 "''job''"] feb_30_never [of 5] feb_30_parsed
  by (simp add: new_dispatcher_def jobs_ok_def)

end
