(* ===== verification/Event_Stream.thy ===== *)
theory Event_Stream
  imports Prelude
begin

section \<open>The event stream broker (internal/stream/broker.go)\<close>

text \<open>
  A ring of published events with consecutive indices and subscriptions that are cursors into
  it. \<open>next_iter\<close> is one pass of the loop of \<open>Next\<close> under the lock, up to the wait on the
  condition variable, which releases the lock: a blocked call is \<open>NextWait\<close> and is resumed by a
  later \<open>next_iter\<close>. Indices count up by one from 1 in 64 bits, which no broker exhausts; they
  are natural numbers. A payload has any type.
\<close>

subsection \<open>State and operations\<close>

record 'p event =
  ev_topic :: string
  ev_key :: string
  ev_index :: nat
  ev_payload :: 'p

record 'p stream =
  st_max :: int
  st_ring :: "'p event list"
  st_next :: nat
  st_first :: nat
  st_closed :: bool

record subscribe_req =
  rq_topics :: "string list"
  rq_keys :: "string list"
  rq_start :: nat

record subscription =
  sb_req :: subscribe_req
  sb_next :: nat
  sb_done :: bool

definition new_stream :: "int \<Rightarrow> 'p stream" where
  "new_stream mx = \<lparr>st_max = mx, st_ring = [], st_next = 1, st_first = 1, st_closed = False\<rparr>"

definition publish :: "'p event \<Rightarrow> 'p stream \<Rightarrow> 'p stream \<times> nat" where
  "publish e b =
     (if st_closed b then (b, 0)
      else
        let e1 = e\<lparr>ev_index := st_next b\<rparr>; ring = st_ring b @ [e1]; b1 = b\<lparr>st_next := Suc (st_next b), st_ring := ring\<rparr> in
        if 0 < st_max b \<and> st_max b < int (length ring)
        then (let n = length ring - nat (st_max b) in
              (b1\<lparr>st_ring := drop n ring, st_first := st_first b + n\<rparr>, ev_index e1))
        else (b1, ev_index e1))"

definition stream_close :: "'p stream \<Rightarrow> 'p stream" where
  "stream_close b = b\<lparr>st_closed := True\<rparr>"

definition last_index :: "'p stream \<Rightarrow> nat" where
  "last_index b = st_next b - 1"

definition req_matches :: "subscribe_req \<Rightarrow> 'p event \<Rightarrow> bool" where
  "req_matches r e \<longleftrightarrow>
     \<not> (rq_topics r \<noteq> [] \<and> ev_topic e \<notin> set (rq_topics r)) \<and> \<not> (rq_keys r \<noteq> [] \<and> ev_key e \<notin> set (rq_keys r))"

definition subscribe :: "subscribe_req \<Rightarrow> 'p stream \<Rightarrow> subscription" where
  "subscribe r b = \<lparr>sb_req = r, sb_next = (if rq_start r = 0 then st_next b else rq_start r), sb_done = False\<rparr>"

datatype 'p next_result = NextEvent "'p event" | NextClosed | NextCancelled | NextWait

text \<open>The scan of the ring: the cursor it leaves and the event it stops at.\<close>

fun scan_ring :: "subscribe_req \<Rightarrow> nat \<Rightarrow> 'p event list \<Rightarrow> nat \<times> 'p event option" where
  "scan_ring r n [] = (n, None)"
| "scan_ring r n (e # es) =
     (if ev_index e < n then scan_ring r n es
      else if req_matches r e then (Suc (ev_index e), Some e)
      else scan_ring r (Suc (ev_index e)) es)"

definition next_iter :: "bool \<Rightarrow> 'p stream \<Rightarrow> subscription \<Rightarrow> subscription \<times> 'p next_result" where
  "next_iter cancelled b s =
     (if st_closed b then (s\<lparr>sb_done := True\<rparr>, NextClosed)
      else if cancelled then (s, NextCancelled)
      else if sb_next s < st_first b then (s\<lparr>sb_done := True\<rparr>, NextClosed)
      else case scan_ring (sb_req s) (sb_next s) (st_ring b) of
        (n, Some e) \<Rightarrow> (s\<lparr>sb_next := n\<rparr>, NextEvent e)
      | (n, None) \<Rightarrow> (s\<lparr>sb_next := n\<rparr>, NextWait))"

definition sub_next :: "bool \<Rightarrow> 'p stream \<Rightarrow> subscription \<Rightarrow> subscription \<times> 'p next_result" where
  "sub_next cancelled b s = (if sb_done s then (s, NextClosed) else next_iter cancelled b s)"

definition sub_close :: "subscription \<Rightarrow> subscription" where
  "sub_close s = s\<lparr>sb_done := True\<rparr>"

subsection \<open>The published history\<close>

text \<open>Events under the indices the broker gave them, and the ring as their end.\<close>

fun indexed_from :: "nat \<Rightarrow> 'p event list \<Rightarrow> bool" where
  "indexed_from n [] \<longleftrightarrow> True"
| "indexed_from n (e # es) \<longleftrightarrow> ev_index e = n \<and> indexed_from (Suc n) es"

definition stream_ok :: "'p event list \<Rightarrow> 'p stream \<Rightarrow> bool" where
  "stream_ok h b \<longleftrightarrow> indexed_from 1 h \<and> st_next b = Suc (length h) \<and> 1 \<le> st_first b \<and> st_first b \<le> st_next b \<and>
     st_ring b = drop (st_first b - 1) h \<and> (0 < st_max b \<longrightarrow> int (length (st_ring b)) \<le> st_max b)"

lemma indexed_from_snoc: "indexed_from n (es @ [e]) \<longleftrightarrow> indexed_from n es \<and> ev_index e = n + length es"
  by (induction es arbitrary: n) auto

lemma indexed_from_append: "indexed_from n (us @ vs) \<longleftrightarrow> indexed_from n us \<and> indexed_from (n + length us) vs"
  by (induction us arbitrary: n) auto

lemma indexed_from_drop: "indexed_from n es \<Longrightarrow> k \<le> length es \<Longrightarrow> indexed_from (n + k) (drop k es)"
proof (induction k arbitrary: n es)
  case (Suc k)
  then obtain e es' where "es = e # es'" by (cases es) auto
  with Suc.IH [of "Suc n" es'] Suc.prems show ?case by simp
qed simp

lemma new_stream_ok: "stream_ok [] (new_stream mx)"
  by (simp add: stream_ok_def new_stream_def)

text \<open>The index is the one the history gives the event.\<close>

definition stamped :: "'p event list \<Rightarrow> 'p event \<Rightarrow> 'p event" where
  "stamped h e = e\<lparr>ev_index := Suc (length h)\<rparr>"

lemma publish_ok:
  assumes "stream_ok h b" "\<not> st_closed b"
  shows "stream_ok (h @ [stamped h e]) (fst (publish e b)) \<and> snd (publish e b) = Suc (length h)"
proof -
  let ?e = "e\<lparr>ev_index := st_next b\<rparr>"
  let ?ring = "st_ring b @ [?e]"
  have h: "st_next b = Suc (length h)" "indexed_from 1 h" "1 \<le> st_first b" "st_first b - 1 \<le> length h"
    "st_ring b = drop (st_first b - 1) h"
    using assms(1) by (auto simp: stream_ok_def)
  have e: "stamped h e = ?e" by (simp add: stamped_def h(1))
  have i: "indexed_from 1 (h @ [?e])" using h(1,2) by (simp add: indexed_from_snoc)
  have ring: "?ring = drop (st_first b - 1) (h @ [?e])" using h(4,5) by simp
  have cut: "drop k ?ring = drop (st_first b + k - 1) (h @ [?e])" for k
  proof -
    have "k + (st_first b - 1) = st_first b + k - 1" using h(3) by simp
    then show ?thesis unfolding ring drop_drop by (simp only:)
  qed
  have len: "length ?ring = Suc (length h) - (st_first b - 1)" using ring h(4) by simp
  show ?thesis
  proof (cases "0 < st_max b \<and> st_max b < int (length ?ring)")
    case True
    then have "st_first b + (length ?ring - nat (st_max b)) \<le> Suc (Suc (length h))" using h(3,4) len by linarith
    moreover define n where "n = length ?ring - nat (st_max b)"
    ultimately have first: "st_first b + n \<le> Suc (Suc (length h))" by simp
    have "length (drop n ?ring) = nat (st_max b)" unfolding length_drop n_def using True by arith
    moreover define r where "r = drop n ?ring"
    ultimately have r: "int (length r) \<le> st_max b" using True by simp
    have "publish e b = (b\<lparr>st_next := Suc (st_next b), st_ring := r, st_first := st_first b + n\<rparr>, st_next b)"
      using True assms(2) by (simp add: publish_def Let_def r_def n_def)
    moreover have "r = drop (st_first b + n - 1) (h @ [?e])" unfolding r_def by (rule cut)
    ultimately show ?thesis
      using i h(1,3) first r by (simp add: e stream_ok_def)
  next
    case False
    define r where "r = ?ring"
    have r: "r = drop (st_first b - 1) (h @ [?e])" unfolding r_def by (rule ring)
    moreover have "0 < st_max b \<longrightarrow> int (length r) \<le> st_max b" unfolding r_def using False by linarith
    moreover have "publish e b = (b\<lparr>st_next := Suc (st_next b), st_ring := r\<rparr>, st_next b)"
      using False assms(2) by (auto simp: publish_def Let_def r_def)
    ultimately show ?thesis using i h(1,3,4) by (simp add: e stream_ok_def)
  qed
qed

subsection \<open>The scan\<close>

text \<open>On consecutive events the scan skips what lies before the cursor and stops at the first match.\<close>

lemma scan_skip: "indexed_from k es \<Longrightarrow> scan_ring r n es = scan_ring r n (drop (n - k) es)"
proof (induction es arbitrary: k)
  case (Cons e es)
  show ?case
  proof (cases "k < n")
    case True
    then have "n - k = Suc (n - Suc k)" by simp
    then show ?thesis using Cons True by simp
  qed simp
qed simp

lemma scan_found:
  "indexed_from n es \<Longrightarrow> scan_ring r n es = (m, Some e) \<Longrightarrow>
   \<exists>us vs. es = us @ e # vs \<and> filter (req_matches r) us = [] \<and> req_matches r e \<and> m = n + length us + 1"
proof (induction es arbitrary: n)
  case (Cons f es)
  show ?case
  proof (cases "req_matches r f")
    case True
    then show ?thesis using Cons.prems by (intro exI [of _ "[]"] exI [of _ es]) auto
  next
    case False
    then obtain us vs where "es = us @ e # vs" "filter (req_matches r) us = []" "req_matches r e" "m = Suc n + length us + 1"
      using Cons.IH [of "Suc n"] Cons.prems by auto
    then show ?thesis using False by (intro exI [of _ "f # us"] exI [of _ vs]) simp
  qed
qed simp

lemma scan_none:
  "indexed_from n es \<Longrightarrow> scan_ring r n es = (m, None) \<Longrightarrow> filter (req_matches r) es = [] \<and> m = n + length es"
proof (induction es arbitrary: n)
  case (Cons e es)
  then have "\<not> req_matches r e" "scan_ring r (Suc n) es = (m, None)" by (auto split: if_splits)
  with Cons show ?case by fastforce
qed simp

subsection \<open>A subscription against the history\<close>

text \<open>
  The events of the history from index \<open>start\<close> up to the cursor that match: what a subscriber that
  began at \<open>start\<close> must have seen.
\<close>

definition due_events :: "subscribe_req \<Rightarrow> nat \<Rightarrow> nat \<Rightarrow> 'p event list \<Rightarrow> 'p event list" where
  "due_events r start n h = filter (req_matches r) (drop (start - 1) (take (n - 1) h))"

datatype 'p stream_op = Publish "'p event" | CloseStream | NextCall bool | NextResume bool | CloseSub

text \<open>Broker, subscription, the history and what the subscriber was given.\<close>

type_synonym 'p stream_state = "'p stream \<times> subscription \<times> 'p event list \<times> 'p event list"

fun given :: "'p next_result \<Rightarrow> 'p event list" where
  "given (NextEvent e) = [e]"
| "given _ = []"

fun stream_step :: "'p stream_op \<Rightarrow> 'p stream_state \<Rightarrow> 'p stream_state" where
  "stream_step (Publish e) (b, s, h, d) =
     (fst (publish e b), s, if st_closed b then h else h @ [stamped h e], d)"
| "stream_step CloseStream (b, s, h, d) = (stream_close b, s, h, d)"
| "stream_step (NextCall c) (b, s, h, d) = (case sub_next c b s of (s', r) \<Rightarrow> (b, s', h, d @ given r))"
| "stream_step (NextResume c) (b, s, h, d) = (case next_iter c b s of (s', r) \<Rightarrow> (b, s', h, d @ given r))"
| "stream_step CloseSub (b, s, h, d) = (b, sub_close s, h, d)"

definition stream_run :: "'p stream_op list \<Rightarrow> 'p stream_state \<Rightarrow> 'p stream_state" where
  "stream_run ops st = fold stream_step ops st"

definition cursor_ok :: "subscribe_req \<Rightarrow> nat \<Rightarrow> 'p stream_state \<Rightarrow> bool" where
  "cursor_ok r start st = (case st of (b, s, h, d) \<Rightarrow>
     stream_ok h b \<and> sb_req s = r \<and> 1 \<le> start \<and> start \<le> sb_next s \<and> (sb_next s \<le> Suc (length h) \<or> sb_next s = start) \<and>
     d = due_events r start (sb_next s) h)"

lemma due_events_grow:
  assumes "n \<le> Suc (length h) \<or> n = start"
  shows "due_events r start n (h @ g) = due_events r start n h"
proof (cases "n \<le> Suc (length h)")
  case False
  then have "start - 1 = n - 1" using assms by simp
  then show ?thesis by (simp add: due_events_def drop_take)
qed (simp add: due_events_def)

lemma due_events_extend:
  assumes "1 \<le> start" "start \<le> n" "n \<le> Suc (length h)" "drop (n - 1) h = us @ vs"
  shows "due_events r start (n + length us) h = due_events r start n h @ filter (req_matches r) us"
proof -
  have "take (n - 1 + length us) h = take (n - 1) h @ us"
    unfolding take_add assms(4) by simp
  moreover have "n + length us - 1 = n - 1 + length us" using assms by simp
  moreover have "start - 1 - length (take (n - 1) h) = 0" using assms by simp
  ultimately show ?thesis by (simp only: due_events_def drop_append drop0 filter_append)
qed

text \<open>One pass of the loop on a cursor that is still in the ring.\<close>

lemma scan_cursor:
  assumes ok: "stream_ok h b" and n: "st_first b \<le> n" "1 \<le> start" "start \<le> n" "n \<le> Suc (length h) \<or> n = start"
    and scan: "scan_ring r n (st_ring b) = (m, x)"
  shows "n \<le> m \<and> (m \<le> Suc (length h) \<or> m = start) \<and>
    due_events r start m h = due_events r start n h @ (case x of None \<Rightarrow> [] | Some e \<Rightarrow> [e]) \<and>
    (x = None \<longrightarrow> max n (Suc (length h)) = m) \<and> (\<forall>e. x = Some e \<longrightarrow> req_matches r e \<and> n \<le> ev_index e \<and> m = Suc (ev_index e))"
proof -
  have ring: "indexed_from (st_first b) (st_ring b)" "st_ring b = drop (st_first b - 1) h" "1 \<le> st_first b"
    using ok indexed_from_drop [of 1 h "st_first b - 1"] by (auto simp: stream_ok_def)
  have "drop (n - st_first b) (st_ring b) = drop (n - 1) h" using n(1) ring by simp
  then have s: "scan_ring r n (drop (n - 1) h) = (m, x)" using scan scan_skip [OF ring(1)] by metis
  show ?thesis
  proof (cases "n \<le> Suc (length h)")
    case False
    then have "drop (n - 1) h = []" by simp
    then show ?thesis using s n(4) False by auto
  next
    case True
    have i: "indexed_from n (drop (n - 1) h)"
      using ok indexed_from_drop [of 1 h "n - 1"] True n by (simp add: stream_ok_def)
    show ?thesis
    proof (cases x)
      case None
      then have "filter (req_matches r) (drop (n - 1) h) = []" "m = n + (length h - (n - 1))"
        using scan_none [OF i] s by auto
      then show ?thesis
        using due_events_extend [of start n h "drop (n - 1) h" "[]" r] n True None by auto
    next
      case (Some e)
      then obtain us vs where us: "drop (n - 1) h = us @ e # vs" "filter (req_matches r) us = []" "req_matches r e"
        "m = n + length us + 1" using scan_found [OF i] s by blast
      have "length us < length h - (n - 1)" using arg_cong [OF us(1), of length] by simp
      then have le: "m \<le> Suc (length h)" using us(4) True n by linarith
      have "ev_index e = n + length us"
        using i unfolding us(1) indexed_from_append by simp
      then show ?thesis
        using due_events_extend [of start n h "us @ [e]" vs r] n us True Some le by auto
    qed
  qed
qed

lemma cursor_next_iter:
  assumes "cursor_ok r start (b, s, h, d)" "next_iter c b s = (s', x)"
  shows "cursor_ok r start (b, s', h, d @ given x)"
proof (cases "st_closed b \<or> c \<or> sb_next s < st_first b")
  case True
  then have "sb_next s' = sb_next s \<and> sb_req s' = sb_req s \<and> given x = []"
    using assms(2) by (auto simp: next_iter_def split: if_splits)
  then show ?thesis using assms(1) by (simp add: cursor_ok_def)
next
  case False
  obtain m y where scan: "scan_ring r (sb_next s) (st_ring b) = (m, y)" by fastforce
  have s': "s' = s\<lparr>sb_next := m\<rparr>" "given x = (case y of None \<Rightarrow> [] | Some e \<Rightarrow> [e])"
    using assms False scan by (auto simp: next_iter_def cursor_ok_def split: option.splits)
  show ?thesis
    using assms(1) False scan_cursor [of h b "sb_next s" start r m y] scan by (auto simp: cursor_ok_def s')
qed

lemma cursor_step: "cursor_ok r start st \<Longrightarrow> cursor_ok r start (stream_step op st)"
proof (cases st)
  case (fields b s h d)
  assume ok: "cursor_ok r start st"
  show ?thesis
  proof (cases op)
    case (Publish e)
    show ?thesis
    proof (cases "st_closed b")
      case True
      then show ?thesis using ok by (simp add: fields Publish publish_def)
    next
      case False
      then show ?thesis
        using ok publish_ok [of h b e] due_events_grow [of "sb_next s" h start r "[stamped h e]"]
        by (auto simp: fields Publish cursor_ok_def)
    qed
  next
    case CloseStream
    have "stream_ok h (stream_close b) = stream_ok h b" unfolding stream_ok_def stream_close_def by simp
    then show ?thesis using ok CloseStream by (simp add: fields cursor_ok_def)
  next
    case (NextCall c)
    then show ?thesis
      using ok cursor_next_iter by (auto simp: fields sub_next_def split: prod.split)
  next
    case (NextResume c)
    then show ?thesis using ok cursor_next_iter by (auto simp: fields split: prod.split)
  next
    case CloseSub
    then show ?thesis using ok by (simp add: fields cursor_ok_def sub_close_def)
  qed
qed

lemma cursor_run: "cursor_ok r start st \<Longrightarrow> cursor_ok r start (stream_run ops st)"
  unfolding stream_run_def by (induction ops arbitrary: st) (simp_all add: cursor_step)

subsection \<open>Properties\<close>

text \<open>C15. A subscription has no gaps: whatever is published, closed and resumed after it is opened, in any
  order, the events handed to it are exactly the published events from its start index up to its
  cursor that pass its filter, in order and each once; when it blocks, that is everything published
  so far; and it is ended early only when the broker was closed or events it had not seen were
  trimmed from the ring, never by skipping them. The ring stays within its bound.\<close>

theorem subscription_has_no_gaps:
  assumes "stream_ok h b" "stream_run ops (b, subscribe r b, h, []) = (b', s', h', d)"
  shows "d = due_events r (sb_next (subscribe r b)) (sb_next s') h' \<and>
    (snd (next_iter False b' s') = NextWait \<longrightarrow> d = due_events r (sb_next (subscribe r b)) (Suc (length h')) h') \<and>
    (snd (next_iter False b' s') = NextClosed \<longrightarrow> st_closed b' \<or> sb_next s' < st_first b') \<and>
    (0 < st_max b' \<longrightarrow> int (length (st_ring b')) \<le> st_max b')"
proof -
  let ?start = "sb_next (subscribe r b)"
  have "cursor_ok r ?start (b, subscribe r b, h, [])"
    using assms(1) by (auto simp: cursor_ok_def subscribe_def due_events_def stream_ok_def drop_take)
  then have ok: "cursor_ok r ?start (b', s', h', d)" using cursor_run [of r ?start "(b, subscribe r b, h, [])" ops] assms(2) by simp
  have wait: "d = due_events r ?start (Suc (length h')) h'" if w: "snd (next_iter False b' s') = NextWait"
  proof -
    obtain s'' where n: "next_iter False b' s' = (s'', NextWait)" using w by (cases "next_iter False b' s'") auto
    obtain m where scan: "scan_ring r (sb_next s') (st_ring b') = (m, None)" "st_first b' \<le> sb_next s'"
      using n ok by (auto simp: next_iter_def cursor_ok_def split: if_splits prod.splits option.splits)
    note sc = scan_cursor [of h' b' "sb_next s'" ?start r m None]
    have "d = due_events r ?start m h'" "m = max (sb_next s') (Suc (length h'))" "m \<le> Suc (length h') \<or> m = ?start"
      using sc scan ok by (auto simp: cursor_ok_def)
    then show ?thesis by (cases "m \<le> Suc (length h')") (auto simp: due_events_def)
  qed
  have "st_closed b' \<or> sb_next s' < st_first b'" if "snd (next_iter False b' s') = NextClosed"
    using that by (auto simp: next_iter_def split: if_splits prod.splits option.splits)
  then show ?thesis using ok wait by (auto simp: cursor_ok_def stream_ok_def)
qed

definition demo_event :: "string \<Rightarrow> nat event" where
  "demo_event t = \<lparr>ev_topic = t, ev_key = ''ns/a'', ev_index = 0, ev_payload = 0\<rparr>"

definition demo_ops :: "nat stream_op list" where
  "demo_ops = [Publish (demo_event ''Job''), Publish (demo_event ''Node''), NextCall False, Publish (demo_event ''Job''), NextCall False]"

definition demo_stream :: "nat stream" where
  "demo_stream = new_stream 8"

definition demo_req :: subscribe_req where
  "demo_req = \<lparr>rq_topics = [''Job''], rq_keys = [], rq_start = 1\<rparr>"

lemma subscription_has_no_gaps_witness:
  "case stream_run demo_ops (demo_stream, subscribe demo_req demo_stream, [], []) of
     (b, s, h, d) \<Rightarrow> map ev_index d = [1, 3] \<and> d = due_events demo_req 1 (sb_next s) h"
proof -
  let ?st = "stream_run demo_ops (demo_stream, subscribe demo_req demo_stream, [], [])"
  obtain b s h d where run: "?st = (b, s, h, d)" by (metis surj_pair)
  have "map ev_index (snd (snd (snd ?st))) = [1, 3]" by code_simp
  moreover have "sb_next (subscribe demo_req demo_stream) = 1" by (simp add: subscribe_def demo_req_def)
  moreover have "stream_ok [] demo_stream" by (simp add: demo_stream_def new_stream_ok)
  ultimately show ?thesis using subscription_has_no_gaps [OF _ run] run by simp
qed

text \<open>Closing a subscription does not release a \<open>Next\<close> that is blocked in it, although \<open>Next\<close> is documented
  to return then: \<open>Close\<close> wakes nobody, and the resumed loop does not look at the flag, so the
  blocked call still hands out the next matching event.\<close>

theorem blocked_next_ignores_close:
  assumes "\<not> st_closed b" "st_first b \<le> sb_next s" "scan_ring (sb_req s) (sb_next s) (st_ring b) = (n, Some e)"
  shows "snd (next_iter False b (sub_close s)) = NextEvent e \<and> snd (sub_next False b (sub_close s)) = NextClosed"
  using assms by (simp add: next_iter_def sub_next_def sub_close_def)

end
