(* ===== verification/Drainer.thy ===== *)
theory Drainer
  imports Prelude
begin

section \<open>The node drainer (internal/drainer/drainer.go)\<close>

text \<open>
  Drains and their goroutines. A drain is named by its place in the list of all drains ever
  begun, since a goroutine outlives its entry in \<open>active\<close>; its context is the flag \<open>rn_cancelled\<close>.
  \<open>run_step\<close> is what one goroutine does between two points where it can be interleaved: the loop
  test with the cut of a batch, one send, the wait for the ticker, the deferred deletion. At a
  \<open>select\<close> with a send or a tick and the context the choice is an argument. \<open>rn_all\<close> and \<open>rn_sent\<close>
  record what a drain began with and what it has sent; the code does not keep them.
\<close>

subsection \<open>State\<close>

datatype drain_mode = DrainDefault | DrainForce

record drain_spec =
  dn_node :: string
  dn_mode :: drain_mode
  dn_deadline :: gotime
  dn_ignore_system :: bool
  dn_batch :: int
  dn_delay :: duration

record drain_alloc =
  da_id :: string
  da_node :: string
  da_system :: bool

record eviction =
  er_alloc :: string
  er_node :: string
  er_system :: bool
  er_force :: bool

datatype drain_pc = AtLoop | Sending "drain_alloc list" | AtWait | Exiting | Gone

record drain =
  rn_spec :: drain_spec
  rn_pending :: "drain_alloc list"
  rn_forced :: bool
  rn_cancelled :: bool
  rn_pc :: drain_pc
  rn_all :: "drain_alloc list"
  rn_sent :: "eviction list"

record drainer =
  dd_active :: "string \<rightharpoonup> nat"
  dd_drains :: "drain list"
  dd_chan :: "eviction list"

abbreviation evictions_cap :: nat where "evictions_cap \<equiv> 64"

definition new_drainer :: drainer where
  "new_drainer = \<lparr>dd_active = Map.empty, dd_drains = [], dd_chan = []\<rparr>"

subsection \<open>Operations\<close>

datatype drain_error = AlreadyDraining

definition drain_defaults :: "drain_spec \<Rightarrow> drain_spec" where
  "drain_defaults sp = sp\<lparr>
     dn_batch := (if dn_batch sp = 0 then 1 else dn_batch sp),
     dn_delay := (if dn_delay sp = 0 then 500000000 else dn_delay sp)\<rparr>"

definition relevant :: "drain_spec \<Rightarrow> drain_alloc list \<Rightarrow> drain_alloc list" where
  "relevant sp as = filter (\<lambda>a. da_node a = dn_node sp \<and> \<not> (da_system a \<and> dn_ignore_system sp)) as"

definition new_drain :: "drain_spec \<Rightarrow> drain_alloc list \<Rightarrow> drain" where
  "new_drain sp as =
     (let sp' = drain_defaults sp; p = relevant sp' as
      in \<lparr>rn_spec = sp', rn_pending = p, rn_forced = (dn_mode sp' = DrainForce), rn_cancelled = False,
          rn_pc = AtLoop, rn_all = p, rn_sent = []\<rparr>)"

definition drain_begin :: "drain_spec \<Rightarrow> drain_alloc list \<Rightarrow> drainer \<Rightarrow> drainer \<times> drain_error option" where
  "drain_begin sp as d =
     (if dd_active d (dn_node sp) \<noteq> None then (d, Some AlreadyDraining)
      else (d\<lparr>dd_active := (dd_active d)(dn_node sp \<mapsto> length (dd_drains d)), dd_drains := dd_drains d @ [new_drain sp as]\<rparr>, None))"

definition drain_cancel :: "string \<Rightarrow> drainer \<Rightarrow> drainer" where
  "drain_cancel n d =
     (case dd_active d n of
        None \<Rightarrow> d
      | Some i \<Rightarrow> d\<lparr>dd_drains := (dd_drains d)[i := (dd_drains d ! i)\<lparr>rn_cancelled := True\<rparr>],
                    dd_active := (dd_active d)(n := None)\<rparr>)"

definition eviction_for :: "bool \<Rightarrow> drain_alloc \<Rightarrow> eviction" where
  "eviction_for forced a = \<lparr>er_alloc = da_id a, er_node = da_node a, er_system = da_system a, er_force = forced\<rparr>"

datatype select_choice = TakeReady | TakeDone

datatype 'a step_result = Stepped 'a | Disabled | Crashed

definition now_forced :: "gotime \<Rightarrow> drain \<Rightarrow> bool" where
  "now_forced now r \<longleftrightarrow>
     rn_forced r \<or> (dn_deadline (rn_spec r) \<noteq> zero_time \<and> dn_deadline (rn_spec r) < now)"

definition batch_size :: "drain \<Rightarrow> int" where
  "batch_size r =
     (if dn_batch (rn_spec r) > int (length (rn_pending r)) then int (length (rn_pending r)) else dn_batch (rn_spec r))"

text \<open>The goroutine's own state, its batch cut and its exits; a negative batch size makes the slice expression panic.\<close>

definition drain_local :: "gotime \<Rightarrow> select_choice \<Rightarrow> bool \<Rightarrow> drain \<Rightarrow> (drain \<times> eviction list) step_result" where
  "drain_local now ch room r =
     (case rn_pc r of
        AtLoop \<Rightarrow>
          if rn_pending r = [] then Stepped (r\<lparr>rn_pc := Exiting\<rparr>, [])
          else if batch_size r < 0 then Crashed
          else Stepped (r\<lparr>rn_forced := now_forced now r, rn_pending := drop (nat (batch_size r)) (rn_pending r),
                          rn_pc := Sending (take (nat (batch_size r)) (rn_pending r))\<rparr>, [])
      | Sending [] \<Rightarrow>
          Stepped (r\<lparr>rn_pc := (if rn_pending r = [] then Exiting else if rn_forced r then AtLoop else AtWait)\<rparr>, [])
      | Sending (a # as) \<Rightarrow>
          (case ch of
             TakeReady \<Rightarrow>
               if room
               then Stepped (r\<lparr>rn_pc := Sending as, rn_sent := rn_sent r @ [eviction_for (rn_forced r) a]\<rparr>, [eviction_for (rn_forced r) a])
               else Disabled
           | TakeDone \<Rightarrow> if rn_cancelled r then Stepped (r\<lparr>rn_pc := Exiting\<rparr>, []) else Disabled)
      | AtWait \<Rightarrow>
          (case ch of
             TakeReady \<Rightarrow> Stepped (r\<lparr>rn_pc := AtLoop\<rparr>, [])
           | TakeDone \<Rightarrow> if rn_cancelled r then Stepped (r\<lparr>rn_pc := Exiting\<rparr>, []) else Disabled)
      | Exiting \<Rightarrow> Stepped (r\<lparr>rn_pc := Gone\<rparr>, [])
      | Gone \<Rightarrow> Disabled)"

definition run_step :: "gotime \<Rightarrow> select_choice \<Rightarrow> nat \<Rightarrow> drainer \<Rightarrow> drainer step_result" where
  "run_step now ch i d =
     (if i < length (dd_drains d)
      then (case drain_local now ch (length (dd_chan d) < evictions_cap) (dd_drains d ! i) of
        Stepped (r, evs) \<Rightarrow>
          Stepped (d\<lparr>dd_drains := (dd_drains d)[i := r], dd_chan := dd_chan d @ evs,
                     dd_active := (if rn_pc (dd_drains d ! i) = Exiting then (dd_active d)(dn_node (rn_spec r) := None) else dd_active d)\<rparr>)
      | Disabled \<Rightarrow> Disabled
      | Crashed \<Rightarrow> Crashed)
      else Disabled)"

definition consume :: "drainer \<Rightarrow> drainer" where
  "consume d = d\<lparr>dd_chan := tl (dd_chan d)\<rparr>"

subsection \<open>Runs\<close>

datatype drain_op = DBegin drain_spec "drain_alloc list" | DCancel string | DStep gotime select_choice nat | DConsume

text \<open>A disabled step does not happen; a crash ends the process.\<close>

fun drain_exec :: "drain_op \<Rightarrow> drainer \<Rightarrow> drainer option" where
  "drain_exec (DBegin sp as) d = Some (fst (drain_begin sp as d))"
| "drain_exec (DCancel n) d = Some (drain_cancel n d)"
| "drain_exec (DStep now ch i) d = (case run_step now ch i d of Stepped d' \<Rightarrow> Some d' | Disabled \<Rightarrow> Some d | Crashed \<Rightarrow> None)"
| "drain_exec DConsume d = Some (consume d)"

fun drain_execs :: "drain_op list \<Rightarrow> drainer \<Rightarrow> drainer option" where
  "drain_execs [] d = Some d"
| "drain_execs (op # ops) d = (case drain_exec op d of None \<Rightarrow> None | Some d' \<Rightarrow> drain_execs ops d')"

subsection \<open>One drain\<close>

fun batch_left :: "drain_pc \<Rightarrow> drain_alloc list" where
  "batch_left (Sending as) = as"
| "batch_left _ = []"

text \<open>Sent, in the current batch and pending make up what the drain began with; it stops early only when cancelled; once forced it stays forced.\<close>

definition force_ok :: "bool list \<Rightarrow> bool \<Rightarrow> bool" where
  "force_ok fs forced \<longleftrightarrow> (\<exists>k m. fs = replicate k False @ replicate m True \<and> (\<not> forced \<longrightarrow> m = 0))"

definition drain_ok :: "drain \<Rightarrow> bool" where
  "drain_ok r \<longleftrightarrow>
     (rn_pc r \<notin> {Exiting, Gone} \<longrightarrow>
        map er_alloc (rn_sent r) @ map da_id (batch_left (rn_pc r)) @ map da_id (rn_pending r) = map da_id (rn_all r)) \<and>
     (\<exists>more. map er_alloc (rn_sent r) @ more = map da_id (rn_all r) \<and> (rn_pc r \<in> {Exiting, Gone} \<longrightarrow> \<not> rn_cancelled r \<longrightarrow> more = [])) \<and>
     force_ok (map er_force (rn_sent r)) (rn_forced r)"

lemma force_ok_Nil [simp]: "force_ok [] forced"
  by (simp add: force_ok_def)

lemma force_ok_mono: "force_ok fs f \<Longrightarrow> f \<longrightarrow> f' \<Longrightarrow> force_ok fs f'"
  by (auto simp: force_ok_def)

lemma force_ok_snoc:
  assumes "force_ok fs forced"
  shows "force_ok (fs @ [forced]) forced"
proof -
  obtain k m where k: "fs = replicate k False @ replicate m True" "\<not> forced \<longrightarrow> m = 0"
    using assms unfolding force_ok_def by blast
  show ?thesis
  proof (cases forced)
    case True
    then show ?thesis using k unfolding force_ok_def by (intro exI [of _ k] exI [of _ "Suc m"]) (simp add: replicate_append_same)
  next
    case False
    then show ?thesis using k unfolding force_ok_def by (intro exI [of _ "Suc k"] exI [of _ 0]) (simp add: replicate_append_same)
  qed
qed

lemma drain_local_ok:
  assumes "drain_ok r" "drain_local now ch room r = Stepped (r', evs)"
  shows "drain_ok r' \<and> rn_sent r' = rn_sent r @ evs \<and> rn_all r' = rn_all r \<and> rn_spec r' = rn_spec r \<and> rn_cancelled r' = rn_cancelled r"
proof (cases "rn_pc r")
  case AtLoop
  show ?thesis
  proof (cases "rn_pending r = []")
    case True
    then show ?thesis using assms AtLoop by (auto simp: drain_local_def drain_ok_def)
  next
    case False
    define n where "n = nat (batch_size r)"
    define f where "f = now_forced now r"
    have n: "evs = []" "rn_forced r \<longrightarrow> f"
      "r' = r\<lparr>rn_forced := f, rn_pending := drop n (rn_pending r), rn_pc := Sending (take n (rn_pending r))\<rparr>"
      using assms(2) AtLoop False by (auto simp: drain_local_def n_def f_def now_forced_def split: if_splits)
    have "map da_id (take n (rn_pending r)) @ map da_id (drop n (rn_pending r)) = map da_id (rn_pending r)"
      by (simp flip: map_append)
    then show ?thesis using assms(1) AtLoop n force_ok_mono [OF _ n(2)] by (auto simp: drain_ok_def)
  qed
next
  case (Sending as)
  show ?thesis
  proof (cases as)
    case Nil
    then show ?thesis using assms Sending by (auto simp: drain_local_def drain_ok_def)
  next
    case (Cons a as')
    show ?thesis
    proof (cases ch)
      case TakeReady
      then have r: "evs = [eviction_for (rn_forced r) a]" "r' = r\<lparr>rn_pc := Sending as', rn_sent := rn_sent r @ evs\<rparr>"
        using assms(2) Sending Cons by (auto simp: drain_local_def split: if_splits)
      have "er_force (eviction_for (rn_forced r) a) = rn_forced r" "er_alloc (eviction_for (rn_forced r) a) = da_id a"
        by (simp_all add: eviction_for_def)
      then show ?thesis
        using assms(1) Sending Cons r force_ok_snoc [of "map er_force (rn_sent r)" "rn_forced r"] by (auto simp: drain_ok_def)
    next
      case TakeDone
      then show ?thesis using assms Sending Cons by (auto simp: drain_local_def drain_ok_def split: if_splits)
    qed
  qed
next
  case AtWait
  then show ?thesis using assms by (auto simp: drain_local_def drain_ok_def split: select_choice.splits if_splits)
qed (use assms in \<open>auto simp: drain_local_def drain_ok_def\<close>)

lemma new_drain_ok: "drain_ok (new_drain sp as)"
  by (simp add: new_drain_def drain_ok_def Let_def)

lemma drain_ok_cancel: "drain_ok r \<Longrightarrow> drain_ok (r\<lparr>rn_cancelled := True\<rparr>)"
  by (auto simp: drain_ok_def)

lemma drains_ok_exec:
  assumes ok: "\<forall>r \<in> set (dd_drains d). drain_ok r" and ex: "drain_exec op d = Some d'"
  shows "\<forall>r \<in> set (dd_drains d'). drain_ok r"
proof (cases op)
  case (DBegin sp as)
  then show ?thesis using ok ex by (auto simp: drain_begin_def new_drain_ok split: if_splits)
next
  case (DCancel n)
  show ?thesis
  proof (cases "dd_active d n")
    case None
    then show ?thesis using ok ex DCancel by (simp add: drain_cancel_def)
  next
    case (Some i)
    then have d': "dd_drains d' = (dd_drains d)[i := (dd_drains d ! i)\<lparr>rn_cancelled := True\<rparr>]"
      using ex DCancel by (auto simp: drain_cancel_def)
    show ?thesis
    proof (cases "i < length (dd_drains d)")
      case True
      then show ?thesis unfolding d' using ok by (intro ball_list_update drain_ok_cancel) auto
    qed (use ok d' in \<open>simp add: list_update_beyond not_less\<close>)
  qed
next
  case (DStep now ch i)
  show ?thesis
  proof (cases "run_step now ch i d")
    case (Stepped d'')
    then obtain r evs where r: "i < length (dd_drains d)" "dd_drains d' = (dd_drains d)[i := r]"
      "drain_local now ch (length (dd_chan d) < evictions_cap) (dd_drains d ! i) = Stepped (r, evs)"
      using ex DStep by (auto simp: run_step_def split: if_splits step_result.splits)
    have "drain_ok r" using drain_local_ok [OF _ r(3)] ok r(1) by simp
    then show ?thesis unfolding r(2) using ok by (intro ball_list_update)
  qed (use ex ok DStep in auto)
next
  case DConsume
  then show ?thesis using ok ex by (auto simp: consume_def)
qed

lemma drains_ok_execs:
  "drain_execs ops d = Some d' \<Longrightarrow> \<forall>r \<in> set (dd_drains d). drain_ok r \<Longrightarrow> \<forall>r \<in> set (dd_drains d'). drain_ok r"
proof (induction ops arbitrary: d)
  case (Cons op ops)
  then obtain d1 where d1: "drain_exec op d = Some d1" "drain_execs ops d1 = Some d'" by (auto split: option.splits)
  show ?case by (rule Cons.IH [OF d1(2) drains_ok_exec [OF Cons.prems(2) d1(1)]])
qed simp

subsection \<open>Termination of a drain\<close>

fun drain_measure :: "drain_pc \<Rightarrow> nat \<Rightarrow> nat" where
  "drain_measure AtLoop p = 4 * p + 2"
| "drain_measure (Sending as) p = 4 * p + length as + 4"
| "drain_measure AtWait p = 4 * p + 3"
| "drain_measure Exiting p = 1"
| "drain_measure Gone p = 0"

abbreviation work :: "drain \<Rightarrow> nat" where "work r \<equiv> drain_measure (rn_pc r) (length (rn_pending r))"

lemma drain_local_work:
  assumes "0 < dn_batch (rn_spec r)" "drain_local now ch room r = Stepped (r', evs)"
  shows "work r' < work r"
proof (cases "rn_pc r")
  case AtLoop
  show ?thesis
  proof (cases "rn_pending r = []")
    case False
    define n where "n = nat (batch_size r)"
    have n: "1 \<le> n" "n \<le> length (rn_pending r)"
      using assms(1) False by (auto simp: n_def batch_size_def Suc_le_eq)
    have "rn_pending r' = drop n (rn_pending r)" "rn_pc r' = Sending (take n (rn_pending r))"
      using assms(2) AtLoop False by (auto simp: drain_local_def n_def split: if_splits)
    then show ?thesis using AtLoop n by simp
  qed (use assms(2) AtLoop in \<open>auto simp: drain_local_def\<close>)
next
  case (Sending as)
  then show ?thesis using assms(2)
    by (cases as) (auto simp: drain_local_def split: select_choice.splits if_splits)
qed (use assms(2) in \<open>auto simp: drain_local_def split: select_choice.splits if_splits\<close>)

lemma drain_local_enabled:
  assumes "0 < dn_batch (rn_spec r)" "rn_pc r \<noteq> Gone"
  shows "\<exists>r' evs. drain_local now TakeReady True r = Stepped (r', evs)"
proof (cases "rn_pc r")
  case AtLoop
  then show ?thesis using assms by (auto simp: drain_local_def batch_size_def)
next
  case (Sending as)
  then show ?thesis by (cases as) (simp_all add: drain_local_def)
qed (use assms in \<open>simp_all add: drain_local_def\<close>)

text \<open>A goroutine left to itself with room in the channel, at any readings of the clock.\<close>

fun drive :: "gotime list \<Rightarrow> drain \<Rightarrow> drain" where
  "drive [] r = r"
| "drive (t # ts) r = (case drain_local t TakeReady True r of Stepped (r', evs) \<Rightarrow> drive ts r' | _ \<Rightarrow> r)"

lemma drive_finishes:
  "drain_ok r \<Longrightarrow> 0 < dn_batch (rn_spec r) \<Longrightarrow> work r \<le> length ts \<Longrightarrow>
   rn_pc (drive ts r) = Gone \<and> drain_ok (drive ts r) \<and> rn_all (drive ts r) = rn_all r \<and> rn_cancelled (drive ts r) = rn_cancelled r"
proof (induction ts arbitrary: r)
  case Nil
  then show ?case by (cases "rn_pc r") auto
next
  case (Cons t ts)
  show ?case
  proof (cases "rn_pc r = Gone")
    case True
    then show ?thesis using Cons.prems by (simp add: drain_local_def)
  next
    case False
    then obtain r' evs where step: "drain_local t TakeReady True r = Stepped (r', evs)"
      using drain_local_enabled [OF Cons.prems(2)] by blast
    note ok = drain_local_ok [OF Cons.prems(1) step]
    have "work r' < work r" by (rule drain_local_work [OF Cons.prems(2) step])
    then show ?thesis using Cons.IH [of r'] Cons.prems ok step by simp
  qed
qed

subsection \<open>Properties\<close>

text \<open>C16. A drain evicts each allocation once: under any interleaving of drains, cancellations and the
  consumer, what a drain has sent is, in order and one by one, a beginning of the
  allocations it was begun with (those of its node, less the exempted system ones), everything when
  its goroutine is gone and it was not cancelled; and once it forces, it forces every later one.\<close>

theorem drain_evicts_each_once:
  assumes "drain_execs ops new_drainer = Some d" "r \<in> set (dd_drains d)"
  shows "(\<exists>rest. map er_alloc (rn_sent r) @ rest = map da_id (rn_all r) \<and>
      (rn_pc r = Gone \<and> \<not> rn_cancelled r \<longrightarrow> rest = [])) \<and>
    (\<exists>k m. map er_force (rn_sent r) = replicate k False @ replicate m True)"
proof -
  have "drain_ok r" using drains_ok_execs [OF assms(1)] assms(2) by (simp add: new_drainer_def)
  then show ?thesis by (auto simp: drain_ok_def force_ok_def)
qed


definition node_spec :: "int \<Rightarrow> drain_spec" where
  "node_spec n = \<lparr>dn_node = ''n1'', dn_mode = DrainDefault, dn_deadline = 0, dn_ignore_system = True, dn_batch = n, dn_delay = 0\<rparr>"

definition node_allocs :: "drain_alloc list" where
  "node_allocs = [\<lparr>da_id = ''a'', da_node = ''n1'', da_system = False\<rparr>, \<lparr>da_id = ''s'', da_node = ''n1'', da_system = True\<rparr>,
     \<lparr>da_id = ''b'', da_node = ''n1'', da_system = False\<rparr>]"


text \<open>Begin, one eviction, cancel, begin again: then the first goroutine leaves and deletes the second's entry.\<close>

definition overlap_ops :: "drain_op list" where
  "overlap_ops = [DBegin (node_spec 1) node_allocs, DStep 0 TakeReady 0, DStep 0 TakeReady 0, DCancel ''n1'',
     DBegin (node_spec 1) node_allocs, DStep 0 TakeReady 0, DStep 0 TakeDone 0, DStep 0 TakeReady 0]"

lemma drain_evicts_each_once_witness:
  "\<exists>d. drain_execs overlap_ops new_drainer = Some d \<and> length (dd_drains d) = 2 \<and>
     (\<exists>rest. map er_alloc (rn_sent (dd_drains d ! 0)) @ rest = map da_id (rn_all (dd_drains d ! 0)))"
proof -
  let ?o = "drain_execs overlap_ops new_drainer"
  have "(case ?o of Some d \<Rightarrow> length (dd_drains d) = 2 | None \<Rightarrow> False)" by code_simp
  then obtain d where d: "?o = Some d" "length (dd_drains d) = 2" by (auto split: option.splits)
  then have "dd_drains d ! 0 \<in> set (dd_drains d)" by simp
  then show ?thesis using drain_evicts_each_once [OF d(1)] d by blast
qed

text \<open>A cancelled drain's goroutine deregisters its successor: its deferred deletion removes whatever
  stands under its node. After cancel and restart the running second drain is no longer registered,
  so it cannot be cancelled, a third drain of the same node is accepted beside it, and both evict
  the same allocations.\<close>

theorem stale_drain_deregisters_successor:
  "\<exists>d. drain_execs overlap_ops new_drainer = Some d \<and> dd_active d ''n1'' = None \<and>
     rn_pc (dd_drains d ! 1) = AtLoop \<and> \<not> rn_cancelled (dd_drains d ! 1) \<and> drain_cancel ''n1'' d = d \<and>
     snd (drain_begin (node_spec 1) node_allocs d) = None"
proof -
  let ?o = "drain_execs overlap_ops new_drainer"
  have "(case ?o of Some d \<Rightarrow> dd_active d ''n1'' = None \<and> rn_pc (dd_drains d ! 1) = AtLoop \<and> \<not> rn_cancelled (dd_drains d ! 1) \<and>
      snd (drain_begin (node_spec 1) node_allocs d) = None | None \<Rightarrow> False)" by code_simp
  then obtain d where d: "?o = Some d" "dd_active d ''n1'' = None" "rn_pc (dd_drains d ! 1) = AtLoop"
    "\<not> rn_cancelled (dd_drains d ! 1)" "snd (drain_begin (node_spec 1) node_allocs d) = None"
    by (auto split: option.splits)
  then have "drain_cancel ''n1'' d = d" by (simp add: drain_cancel_def)
  then show ?thesis using d by blast
qed

text \<open>A negative batch size is not defaulted, and its first batch crashes the process.\<close>

theorem negative_batch_crashes:
  "dn_batch sp < 0 \<Longrightarrow> relevant sp as \<noteq> [] \<Longrightarrow> drain_local now ch room (new_drain sp as) = Crashed"
  by (simp add: drain_local_def new_drain_def Let_def batch_size_def drain_defaults_def relevant_def)

end
