(* ===== verification/Deployment.thy ===== *)
theory Deployment
  imports Prelude
begin

section \<open>The rollout controller (internal/deployment/controller.go)\<close>

text \<open>
  One deployment: its phase and the last reported state of every allocation, in the order the
  allocations were first seen (the code keeps a map and only counts over it). \<open>dep_update\<close> is
  \<open>UpdateAllocs\<close> with the decision engine, \<open>dep_promote\<close> and \<open>dep_fail\<close> the operator's calls. The
  clock is read once in the overlay and once in \<open>decide\<close>; both are one argument. A difference of
  instants saturates at 292 years in Go, which no comparison here can see.
\<close>

subsection \<open>State\<close>

datatype dep_phase = PhasePending | PhaseRunning | PhasePromoted | PhaseSucceeded | PhaseFailed

datatype strategy = Canary | BlueGreen | OtherStrategy string

record dep_spec =
  ds_strategy :: strategy
  ds_canary :: int
  ds_total :: int
  ds_deadline :: duration
  ds_auto :: bool
  ds_min_healthy :: duration

record alloc_state =
  as_canary :: bool
  as_healthy :: bool
  as_since :: gotime

record deployment =
  dp_spec :: dep_spec
  dp_phase :: dep_phase
  dp_started :: gotime
  dp_allocs :: "(string \<times> alloc_state) list"

record decision =
  dc_promote :: bool
  dc_rollback :: bool
  dc_complete :: bool
  dc_reason :: string

abbreviation no_decision :: decision where
  "no_decision \<equiv> \<lparr>dc_promote = False, dc_rollback = False, dc_complete = False, dc_reason = []\<rparr>"

abbreviation em_dash :: string where "em_dash \<equiv> [CHR 0xE2, CHR 0x80, CHR 0x94]"

definition new_deployment :: "dep_spec \<Rightarrow> gotime \<Rightarrow> deployment" where
  "new_deployment sp now = \<lparr>dp_spec = sp, dp_phase = PhasePending, dp_started = now, dp_allocs = []\<rparr>"

definition terminal :: "dep_phase \<Rightarrow> bool" where
  "terminal p \<longleftrightarrow> p = PhaseSucceeded \<or> p = PhaseFailed"

subsection \<open>Updates and decisions\<close>

definition merge_alloc :: "gotime \<Rightarrow> alloc_state \<Rightarrow> alloc_state \<Rightarrow> alloc_state" where
  "merge_alloc now a x =
     x\<lparr>as_since := (if as_healthy a \<and> \<not> as_healthy x then now else as_since x),
       as_healthy := as_healthy a, as_canary := as_canary a\<rparr>"

definition overlay_one :: "gotime \<Rightarrow> string \<times> alloc_state \<Rightarrow> (string \<times> alloc_state) list \<Rightarrow> (string \<times> alloc_state) list" where
  "overlay_one now r xs =
     (if map_of xs (fst r) = None then xs @ [r]
      else map (\<lambda>(k, x). (k, if k = fst r then merge_alloc now (snd r) x else x)) xs)"

definition overlay :: "gotime \<Rightarrow> (string \<times> alloc_state) list \<Rightarrow> (string \<times> alloc_state) list \<Rightarrow> (string \<times> alloc_state) list" where
  "overlay now rs xs = fold (overlay_one now) rs xs"

text \<open>Allocations that count: healthy, and for long enough.\<close>

definition mature :: "gotime \<Rightarrow> dep_spec \<Rightarrow> alloc_state \<Rightarrow> bool" where
  "mature now sp x \<longleftrightarrow> as_healthy x \<and> \<not> (0 < ds_min_healthy sp \<and> now - as_since x < ds_min_healthy sp)"

definition count_mature :: "gotime \<Rightarrow> deployment \<Rightarrow> int" where
  "count_mature now d = int (length (filter (\<lambda>(k, x). mature now (dp_spec d) x) (dp_allocs d)))"

definition count_canaries :: "gotime \<Rightarrow> deployment \<Rightarrow> int" where
  "count_canaries now d = int (length (filter (\<lambda>(k, x). mature now (dp_spec d) x \<and> as_canary x) (dp_allocs d)))"

definition past_deadline :: "gotime \<Rightarrow> deployment \<Rightarrow> bool" where
  "past_deadline now d \<longleftrightarrow> 0 < ds_deadline (dp_spec d) \<and> now - dp_started d > ds_deadline (dp_spec d)"

definition decide :: "gotime \<Rightarrow> deployment \<Rightarrow> deployment \<times> decision" where
  "decide now d =
     (let sp = dp_spec d in
      if past_deadline now d \<and> dp_phase d \<noteq> PhasePromoted
      then (d\<lparr>dp_phase := PhaseFailed\<rparr>, no_decision\<lparr>dc_rollback := True, dc_reason := ''healthy deadline elapsed''\<rparr>)
      else if dp_phase d = PhaseRunning \<and> ds_strategy sp = Canary \<and> count_canaries now d \<ge> ds_canary sp \<and> ds_canary sp > 0
      then (if \<not> ds_auto sp
            then (d, no_decision\<lparr>dc_reason := ''canary healthy '' @ em_dash @ '' awaiting manual promotion''\<rparr>)
            else (d\<lparr>dp_phase := PhasePromoted\<rparr>,
                  no_decision\<lparr>dc_promote := True, dc_reason := ''canary healthy '' @ em_dash @ '' auto-promoting''\<rparr>))
      else if (dp_phase d = PhasePromoted \<or> ds_strategy sp = BlueGreen) \<and> count_mature now d \<ge> ds_total sp \<and> ds_total sp > 0
      then (d\<lparr>dp_phase := PhaseSucceeded\<rparr>, no_decision\<lparr>dc_complete := True, dc_reason := ''all allocations healthy''\<rparr>)
      else (d, no_decision))"

text \<open>\<open>None\<close> is \<open>ErrTerminal\<close>.\<close>

definition dep_update :: "gotime \<Rightarrow> (string \<times> alloc_state) list \<Rightarrow> deployment \<Rightarrow> deployment \<times> decision option" where
  "dep_update now rs d =
     (if terminal (dp_phase d) then (d, None)
      else
        let d1 = d\<lparr>dp_allocs := overlay now rs (dp_allocs d)\<rparr>;
            d2 = (if dp_phase d1 = PhasePending then d1\<lparr>dp_phase := PhaseRunning\<rparr> else d1)
        in case decide now d2 of (d3, dec) \<Rightarrow> (d3, Some dec))"

definition dep_promote :: "deployment \<Rightarrow> deployment \<times> bool" where
  "dep_promote d =
     (if dp_phase d \<noteq> PhaseRunning then (d, False)
      else if int (length (filter (\<lambda>(k, x). as_canary x \<and> as_healthy x) (dp_allocs d))) < ds_canary (dp_spec d)
      then (d, False)
      else (d\<lparr>dp_phase := PhasePromoted\<rparr>, True))"

definition dep_fail :: "string \<Rightarrow> deployment \<Rightarrow> deployment \<times> decision" where
  "dep_fail reason d =
     (d\<lparr>dp_phase := PhaseFailed\<rparr>, no_decision\<lparr>dc_rollback := True, dc_reason := reason\<rparr>)"

subsection \<open>Runs\<close>

datatype dep_op = DepUpdate gotime "(string \<times> alloc_state) list" | DepPromote | DepFail string

fun dep_step :: "dep_op \<Rightarrow> deployment \<Rightarrow> deployment" where
  "dep_step (DepUpdate now rs) d = fst (dep_update now rs d)"
| "dep_step DepPromote d = fst (dep_promote d)"
| "dep_step (DepFail why) d = fst (dep_fail why d)"

definition dep_run :: "dep_op list \<Rightarrow> deployment \<Rightarrow> deployment" where
  "dep_run ops d = fold dep_step ops d"

lemmas dep_defs = dep_update_def decide_def dep_promote_def dep_fail_def terminal_def Let_def

lemma dep_spec_step [simp]: "dp_spec (dep_step op d) = dp_spec d"
  by (cases op) (simp_all add: dep_defs)

text \<open>Every phase change there is.\<close>

inductive phase_step :: "dep_op \<Rightarrow> dep_phase \<Rightarrow> dep_phase \<Rightarrow> bool" for op where
  stay: "phase_step op p p"
| start: "op = DepUpdate t rs \<Longrightarrow> phase_step op PhasePending PhaseRunning"
| promote: "phase_step op PhaseRunning PhasePromoted"
| start_promote: "op = DepUpdate t rs \<Longrightarrow> phase_step op PhasePending PhasePromoted"
| finish: "op = DepUpdate t rs \<Longrightarrow> p \<in> {PhasePending, PhaseRunning, PhasePromoted} \<Longrightarrow> phase_step op p PhaseSucceeded"
| expire: "op = DepUpdate t rs \<Longrightarrow> p \<in> {PhasePending, PhaseRunning} \<Longrightarrow> phase_step op p PhaseFailed"
| abort: "op = DepFail why \<Longrightarrow> phase_step op p PhaseFailed"

lemma phase_steps: "phase_step op (dp_phase d) (dp_phase (dep_step op d))"
proof (cases op)
  case (DepUpdate now rs)
  then show ?thesis
    by (cases "dp_phase d") (auto simp: dep_defs intro: phase_step.intros)
qed (auto simp: dep_defs intro: phase_step.intros)

subsection \<open>Health reports\<close>

text \<open>When an allocation was reported unhealthy, and the deployment against those reports.\<close>

definition unhealthy_times :: "dep_op list \<Rightarrow> string \<Rightarrow> gotime set" where
  "unhealthy_times ops k = {t. \<exists>rs a. DepUpdate t rs \<in> set ops \<and> (k, a) \<in> set rs \<and> \<not> as_healthy a}"

definition since_ok :: "(string \<Rightarrow> gotime set) \<Rightarrow> (string \<times> alloc_state) list \<Rightarrow> bool" where
  "since_ok U xs \<longleftrightarrow> (\<forall>k x t. (k, x) \<in> set xs \<longrightarrow> as_healthy x \<longrightarrow> t \<in> U k \<longrightarrow> t \<le> as_since x) \<and>
     (\<forall>k. k \<notin> fst ` set xs \<longrightarrow> U k = {})"

definition told :: "gotime \<Rightarrow> (string \<times> alloc_state) list \<Rightarrow> (string \<Rightarrow> gotime set) \<Rightarrow> string \<Rightarrow> gotime set" where
  "told now rs U k = U k \<union> {t. t = now \<and> (\<exists>a. (k, a) \<in> set rs \<and> \<not> as_healthy a)}"

lemma since_ok_one:
  assumes "since_ok U xs" "\<forall>k t. t \<in> U k \<longrightarrow> t \<le> now"
  shows "since_ok (told now [r] U) (overlay_one now r xs)"
proof (cases "map_of xs (fst r) = None")
  case True
  then have "fst r \<notin> fst ` set xs" by (simp add: map_of_eq_None_iff)
  then show ?thesis
    using assms True unfolding since_ok_def overlay_one_def told_def by (cases r) (auto simp: image_iff)
next
  case False
  let ?xs = "map (\<lambda>(k, x). (k, if k = fst r then merge_alloc now (snd r) x else x)) xs"
  have keys: "fst ` set ?xs = fst ` set xs" "fst r \<in> fst ` set xs"
    using False by (auto simp: image_image case_prod_beta map_of_eq_None_iff)
  have "t \<le> as_since y" if y: "(k, y) \<in> set ?xs" "as_healthy y" "t \<in> told now [r] U k" for k y t
  proof -
    obtain x where x: "(k, x) \<in> set xs" "y = (if k = fst r then merge_alloc now (snd r) x else x)" using y(1) by auto
    have "t \<in> U k" using y x by (cases r) (auto simp: told_def merge_alloc_def split: if_splits)
    then show ?thesis using assms x y(2) by (auto simp: since_ok_def merge_alloc_def split: if_splits)
  qed
  moreover have "told now [r] U k = {}" if "k \<notin> fst ` set ?xs" for k
    using that assms(1) keys by (cases r) (auto simp: since_ok_def told_def)
  moreover have eq: "overlay_one now r xs = ?xs" unfolding overlay_one_def using False by (rule if_not_P)
  ultimately show ?thesis unfolding since_ok_def eq by blast
qed

lemma since_ok_overlay:
  "since_ok U xs \<Longrightarrow> \<forall>k t. t \<in> U k \<longrightarrow> t \<le> now \<Longrightarrow> since_ok (told now rs U) (overlay now rs xs)"
proof (induction rs arbitrary: U xs)
  case Nil
  then show ?case by (simp add: overlay_def told_def)
next
  case (Cons r rs)
  have "told now rs (told now [r] U) = told now (r # rs) U" by (auto simp: told_def fun_eq_iff)
  moreover have "\<forall>k t. t \<in> told now [r] U k \<longrightarrow> t \<le> now" using Cons.prems(2) by (auto simp: told_def)
  ultimately show ?case using Cons.IH [OF since_ok_one [OF Cons.prems, of r]] by (simp add: overlay_def)
qed

fun op_times :: "dep_op list \<Rightarrow> gotime list" where
  "op_times [] = []"
| "op_times (DepUpdate t rs # ops) = t # op_times ops"
| "op_times (_ # ops) = op_times ops"

lemma op_times_append [simp]: "op_times (xs @ ys) = op_times xs @ op_times ys"
  by (induction xs rule: op_times.induct) simp_all

lemma unhealthy_times_op: "t \<in> unhealthy_times ops k \<Longrightarrow> t \<in> set (op_times ops)"
proof (induction ops rule: op_times.induct)
qed (auto simp: unhealthy_times_def)

lemma still_open: "\<not> terminal (dp_phase (dep_step op d)) \<Longrightarrow> \<not> terminal (dp_phase d)"
  using phase_steps [of op d] by (cases rule: phase_step.cases) (auto simp: terminal_def)

lemma since_ok_run:
  "sorted (op_times ops) \<Longrightarrow> \<not> terminal (dp_phase (dep_run ops (new_deployment sp t0))) \<Longrightarrow>
   since_ok (unhealthy_times ops) (dp_allocs (dep_run ops (new_deployment sp t0)))"
proof (induction ops rule: rev_induct)
  case Nil
  then show ?case by (simp add: since_ok_def unhealthy_times_def dep_run_def new_deployment_def)
next
  case (snoc op ops)
  let ?d = "dep_run ops (new_deployment sp t0)"
  have d: "dep_run (ops @ [op]) (new_deployment sp t0) = dep_step op ?d" by (simp add: dep_run_def)
  have opn: "\<not> terminal (dp_phase ?d)" using snoc.prems(2) still_open unfolding d by blast
  have IH: "since_ok (unhealthy_times ops) (dp_allocs ?d)" using snoc opn by (simp add: sorted_append)
  show ?case
  proof (cases op)
    case (DepUpdate now rs)
    have "dp_allocs (dep_step op ?d) = overlay now rs (dp_allocs ?d)"
      using opn DepUpdate by (simp add: dep_update_def decide_def Let_def)
    moreover have "unhealthy_times (ops @ [op]) = told now rs (unhealthy_times ops)"
      using DepUpdate by (auto simp: unhealthy_times_def told_def fun_eq_iff)
    moreover have "\<forall>k t. t \<in> unhealthy_times ops k \<longrightarrow> t \<le> now"
      using snoc.prems(1) DepUpdate by (auto simp: sorted_append dest!: unhealthy_times_op)
    ultimately show ?thesis unfolding d using since_ok_overlay [OF IH] by simp
  next
    case DepPromote
    then have "unhealthy_times (ops @ [op]) = unhealthy_times ops" by (auto simp: unhealthy_times_def fun_eq_iff)
    then show ?thesis unfolding d using IH DepPromote by (simp add: dep_promote_def)
  next
    case (DepFail why)
    then show ?thesis using snoc.prems(2) unfolding d by (simp add: dep_fail_def terminal_def)
  qed
qed

subsection \<open>Properties\<close>

lemma decide_cases:
  assumes "decide now d = (d', dec)"
  obtains
    (expired) "past_deadline now d" "dp_phase d \<noteq> PhasePromoted" "d' = d\<lparr>dp_phase := PhaseFailed\<rparr>"
      "\<not> dc_promote dec" "dc_rollback dec" "\<not> dc_complete dec"
  | (promoted) "\<not> past_deadline now d" "dp_phase d = PhaseRunning" "ds_strategy (dp_spec d) = Canary"
      "ds_canary (dp_spec d) \<le> count_canaries now d" "0 < ds_canary (dp_spec d)" "ds_auto (dp_spec d)"
      "d' = d\<lparr>dp_phase := PhasePromoted\<rparr>" "dc_promote dec" "\<not> dc_rollback dec" "\<not> dc_complete dec"
  | (complete) "\<not> past_deadline now d \<or> dp_phase d = PhasePromoted" "dp_phase d = PhasePromoted \<or> ds_strategy (dp_spec d) = BlueGreen"
      "ds_total (dp_spec d) \<le> count_mature now d" "0 < ds_total (dp_spec d)"
      "d' = d\<lparr>dp_phase := PhaseSucceeded\<rparr>" "\<not> dc_promote dec" "\<not> dc_rollback dec" "dc_complete dec"
  | (idle) "\<not> past_deadline now d \<or> dp_phase d = PhasePromoted" "d' = d" "\<not> dc_promote dec" "\<not> dc_rollback dec" "\<not> dc_complete dec"
proof -
  let ?sp = "dp_spec d"
  let ?gate = "dp_phase d = PhaseRunning \<and> ds_strategy ?sp = Canary \<and> count_canaries now d \<ge> ds_canary ?sp \<and> ds_canary ?sp > 0"
  let ?all = "(dp_phase d = PhasePromoted \<or> ds_strategy ?sp = BlueGreen) \<and> count_mature now d \<ge> ds_total ?sp \<and> ds_total ?sp > 0"
  consider "past_deadline now d \<and> dp_phase d \<noteq> PhasePromoted"
    | "\<not> (past_deadline now d \<and> dp_phase d \<noteq> PhasePromoted)" ?gate "ds_auto ?sp"
    | "\<not> (past_deadline now d \<and> dp_phase d \<noteq> PhasePromoted)" ?gate "\<not> ds_auto ?sp"
    | "\<not> (past_deadline now d \<and> dp_phase d \<noteq> PhasePromoted)" "\<not> ?gate" ?all
    | "\<not> (past_deadline now d \<and> dp_phase d \<noteq> PhasePromoted)" "\<not> ?gate" "\<not> ?all" by blast
  then show thesis
  proof cases
    case 1 then show ?thesis using assms by (intro expired) (auto simp: decide_def Let_def)
  next
    case 2 then show ?thesis using assms by (intro promoted) (auto simp: decide_def Let_def)
  next
    case 3 then show ?thesis using assms by (intro idle) (auto simp: decide_def Let_def)
  next
    case 4
    have "decide now d = (d\<lparr>dp_phase := PhaseSucceeded\<rparr>, no_decision\<lparr>dc_complete := True, dc_reason := ''all allocations healthy''\<rparr>)"
      unfolding decide_def Let_def if_not_P [OF 4(1)] if_not_P [OF 4(2)] if_P [OF 4(3)] ..
    then show ?thesis using assms 4 by (intro complete) auto
  next
    case 5
    have "decide now d = (d, no_decision)"
      unfolding decide_def Let_def if_not_P [OF 5(1)] if_not_P [OF 5(2)] if_not_P [OF 5(3)] ..
    then show ?thesis using assms 5 by (intro idle) auto
  qed
qed

text \<open>Rollout gates: an update promotes only a canary rollout with automatic promotion, before its
  deadline, when the positive number of canaries asked for have been healthy long enough; it
  rolls back exactly when it fails the deployment, which it does exactly when the deadline has
  passed before promotion; and it completes exactly when it ends the deployment successfully, only
  with the positive number of replicas asked for healthy long enough, after promotion or in a
  blue-green rollout.\<close>

theorem rollout_gates:
  assumes "dep_update now rs d = (d', Some dec)"
  shows "(dc_promote dec \<longrightarrow> dp_phase d' = PhasePromoted \<and> dp_phase d \<in> {PhasePending, PhaseRunning} \<and>
      ds_strategy (dp_spec d) = Canary \<and> ds_auto (dp_spec d) \<and> \<not> past_deadline now d \<and>
      0 < ds_canary (dp_spec d) \<and> ds_canary (dp_spec d) \<le> count_canaries now d') \<and>
    (dc_rollback dec \<longleftrightarrow> dp_phase d' = PhaseFailed) \<and>
    (dc_rollback dec \<longleftrightarrow> past_deadline now d \<and> dp_phase d \<noteq> PhasePromoted) \<and>
    (dc_complete dec \<longleftrightarrow> dp_phase d' = PhaseSucceeded) \<and>
    (dc_complete dec \<longrightarrow> 0 < ds_total (dp_spec d) \<and> ds_total (dp_spec d) \<le> count_mature now d' \<and>
      (dp_phase d = PhasePromoted \<or> ds_strategy (dp_spec d) = BlueGreen))"
proof -
  define d0 where "d0 = d\<lparr>dp_allocs := overlay now rs (dp_allocs d)\<rparr>"
  define d1 where "d1 = (if dp_phase d = PhasePending then d0\<lparr>dp_phase := PhaseRunning\<rparr> else d0)"
  have d1: "dp_spec d1 = dp_spec d" "dp_started d1 = dp_started d" "dp_phase d1 = (if dp_phase d = PhasePending then PhaseRunning else dp_phase d)"
    by (simp_all add: d1_def d0_def)
  have dec: "decide now d1 = (d', dec)" and opn: "\<not> terminal (dp_phase d)"
    using assms unfolding dep_update_def Let_def d0_def [symmetric]
    by (auto simp: d1_def d0_def split: if_splits prod.splits)
  have past: "past_deadline now d1 = past_deadline now d" using d1 by (simp add: past_deadline_def)
  have counts: "count_canaries now (d1\<lparr>dp_phase := p\<rparr>) = count_canaries now d1" "count_mature now (d1\<lparr>dp_phase := p\<rparr>) = count_mature now d1" for p
    by (simp_all add: count_canaries_def count_mature_def)
  have phase: "dp_phase d1 = PhasePromoted \<longleftrightarrow> dp_phase d = PhasePromoted" "dp_phase d1 = PhaseRunning \<longleftrightarrow> dp_phase d \<in> {PhasePending, PhaseRunning}"
    "dp_phase d1 \<noteq> PhaseFailed" "dp_phase d1 \<noteq> PhaseSucceeded"
    using d1(3) opn by (auto simp: terminal_def)
  from dec show ?thesis
    by (cases rule: decide_cases) (use phase past counts d1(1) in \<open>simp_all\<close>)
qed

text \<open>The health gate looks at reports, not at moments: with a clock that does not go back, in any
  deployment that is still open, an allocation that was reported unhealthy at some time counts as
  healthy for promotion or completion only when the minimum healthy time has passed since then.\<close>

theorem unhealthy_reports_delay_the_gate:
  assumes "sorted (op_times ops)" "\<not> terminal (dp_phase (dep_run ops (new_deployment sp t0)))"
    "(k, x) \<in> set (dp_allocs (dep_run ops (new_deployment sp t0)))" "mature now sp x"
    "t \<in> unhealthy_times ops k"
  shows "t + ds_min_healthy sp \<le> now \<or> ds_min_healthy sp \<le> 0"
  using since_ok_run [OF assms(1,2)] assms(3-5) by (fastforce simp: since_ok_def mature_def)

definition demo_spec :: dep_spec where
  "demo_spec = \<lparr>ds_strategy = Canary, ds_canary = 1, ds_total = 2, ds_deadline = 100, ds_auto = True, ds_min_healthy = 10\<rparr>"

definition report :: "bool \<Rightarrow> alloc_state" where
  "report b = \<lparr>as_canary = True, as_healthy = b, as_since = 0\<rparr>"

definition demo_rollout :: "dep_op list" where
  "demo_rollout = [DepUpdate 1 [(''a'', report False)], DepUpdate 5 [(''a'', report True)]]"

lemma rollout_gates_witness:
  "\<exists>d' dec. dep_update 15 [] (dep_run demo_rollout (new_deployment demo_spec 0)) = (d', Some dec) \<and>
     dc_promote dec \<and> dp_phase d' = PhasePromoted"
proof -
  let ?u = "dep_update 15 [] (dep_run demo_rollout (new_deployment demo_spec 0))"
  have u: "(case snd ?u of Some dec \<Rightarrow> dc_promote dec | None \<Rightarrow> False)" by code_simp
  then obtain d' dec where "?u = (d', Some dec)" "dc_promote dec" by (cases ?u) (auto split: option.splits)
  then show ?thesis using rollout_gates by blast
qed

lemma unhealthy_reports_delay_the_gate_witness:
  "\<exists>x. (''a'', x) \<in> set (dp_allocs (dep_run demo_rollout (new_deployment demo_spec 0))) \<and> mature 15 demo_spec x \<and> (1::int) + 10 \<le> 15"
proof -
  let ?d = "dep_run demo_rollout (new_deployment demo_spec 0)"
  have d: "dp_allocs ?d = [(''a'', \<lparr>as_canary = True, as_healthy = True, as_since = 5\<rparr>)]" "\<not> terminal (dp_phase ?d)"
    by code_simp+
  have m: "mature 15 demo_spec \<lparr>as_canary = True, as_healthy = True, as_since = 5\<rparr>" by code_simp
  have x: "(''a'', \<lparr>as_canary = True, as_healthy = True, as_since = 5\<rparr>) \<in> set (dp_allocs ?d)" unfolding d by simp
  have times: "sorted (op_times demo_rollout)" by (simp add: demo_rollout_def)
  have u: "1 \<in> unhealthy_times demo_rollout ''a''" by (auto simp: unhealthy_times_def demo_rollout_def report_def)
  have "(1::int) + ds_min_healthy demo_spec \<le> 15 \<or> ds_min_healthy demo_spec \<le> 0"
    by (rule unhealthy_reports_delay_the_gate [OF times d(2) x m u])
  then show ?thesis using x m by (auto simp: demo_spec_def)
qed

text \<open>
  What the gates do not cover. \<open>Promote\<close> counts canaries that have just turned healthy, so it
  promotes where the engine still waits. An allocation whose first report is healthy brings its
  own \<open>HealthySince\<close>; the zero time passes any minimum. After promotion no deadline applies. And
  \<open>Fail\<close> ends a deployment that had already succeeded.
\<close>

theorem gates_not_enforced:
  "(\<exists>d. count_canaries 5 d < ds_canary (dp_spec d) \<and> snd (dep_promote d)) \<and>
   (\<exists>x. as_since x = 0 \<and> mature 15 demo_spec x \<and> snd (dep_update 15 [(''a'', x)] (new_deployment demo_spec 14)) =
      Some (no_decision\<lparr>dc_promote := True, dc_reason := ''canary healthy '' @ em_dash @ '' auto-promoting''\<rparr>)) \<and>
   (\<forall>now d rs. dp_phase d = PhasePromoted \<longrightarrow> dp_phase (fst (dep_update now rs d)) \<noteq> PhaseFailed) \<and>
   (\<forall>d why. dp_phase d = PhaseSucceeded \<longrightarrow> dp_phase (fst (dep_fail why d)) = PhaseFailed)"
proof (intro conjI allI impI)
  show "\<exists>d. count_canaries 5 d < ds_canary (dp_spec d) \<and> snd (dep_promote d)"
    by (rule exI [of _ "dep_run demo_rollout (new_deployment demo_spec 0)"]) code_simp
  show "\<exists>x. as_since x = 0 \<and> mature 15 demo_spec x \<and> snd (dep_update 15 [(''a'', x)] (new_deployment demo_spec 14)) =
      Some (no_decision\<lparr>dc_promote := True, dc_reason := ''canary healthy '' @ em_dash @ '' auto-promoting''\<rparr>)"
    by (rule exI [of _ "report True"]) code_simp
  show "dp_phase (fst (dep_update now rs d)) \<noteq> PhaseFailed" if "dp_phase d = PhasePromoted" for now d rs
    using that by (auto simp: dep_defs)
  show "dp_phase (fst (dep_fail why d)) = PhaseFailed" for d why by (simp add: dep_fail_def)
qed

end
