(* ===== verification/Snapshot_Frames.thy ===== *)
theory Snapshot_Frames
  imports Prelude "HOL-Library.Word"
begin

section \<open>Framed snapshot streams (internal/snapshot/framer.go)\<close>

text \<open>
  The writer appends frames to a byte stream, the reader takes them off it: length and checksum
  in four big-endian bytes each, then the payload, and a frame of zeros at the end. The stream
  is the list of bytes still to be read; \<open>read_full\<close> is \<open>io.ReadFull\<close> on it, which says \<open>EOF\<close> when
  it got no byte and \<open>ErrUnexpectedEOF\<close> when it got too few. The checksum is \<open>hash/crc32\<close>'s, with
  the IEEE polynomial, bit by bit.
\<close>

unbundle bit_operations_syntax

subsection \<open>The checksum\<close>

definition crc_bit :: "32 word \<Rightarrow> 32 word" where
  "crc_bit r = (if bit r 0 then drop_bit 1 r XOR 0xEDB88320 else drop_bit 1 r)"

definition crc_byte :: "8 word \<Rightarrow> 32 word \<Rightarrow> 32 word" where
  "crc_byte b r = (crc_bit ^^ 8) (r XOR ucast b)"

definition crc32 :: "8 word list \<Rightarrow> 32 word" where
  "crc32 p = NOT (fold crc_byte p (- 1))"

lemma crc32_check: "crc32 [0x31] = 0x83DCEFB7"
  by code_simp

lemma crc_bit_bit:
  "n < 32 \<Longrightarrow> bit (crc_bit x) n \<longleftrightarrow> (bit x (Suc n) \<noteq> (bit x 0 \<and> bit (0xEDB88320 :: 32 word) n))"
  by (auto simp: crc_bit_def bit_simps)

lemma crc_bit_top: "bit (crc_bit x) 31 = bit x 0"
proof -
  have "\<not> bit x (Suc 31)" using bit_imp_le_length [of x 32] by auto
  moreover have "bit (0xEDB88320 :: 32 word) 31" by (simp add: bit_numeral_rec)
  ultimately show ?thesis by (simp add: crc_bit_bit)
qed

lemma crc_bit_inj:
  assumes eq: "crc_bit r = crc_bit s"
  shows "r = s"
proof (rule bit_word_eqI)
  have low: "bit r 0 = bit s 0" using eq crc_bit_top by metis
  fix n assume n: "n < LENGTH(32)"
  show "bit r n = bit s n"
  proof (cases n)
    case (Suc m)
    then have "bit (crc_bit r) m = bit (crc_bit s) m" "m < 32" using eq n by simp_all
    then show ?thesis using low Suc by (auto simp: crc_bit_bit)
  qed (use low in simp)
qed

lemma inj_crc_bits: "(crc_bit ^^ n) r = (crc_bit ^^ n) s \<Longrightarrow> r = s"
  by (induction n) (auto dest: crc_bit_inj)

lemma xor_right_cancel: "(r :: 'a::len word) XOR k = s XOR k \<Longrightarrow> r = s"
proof -
  assume "r XOR k = s XOR k"
  then have "(r XOR k) XOR k = (s XOR k) XOR k" by (simp only:)
  then show "r = s" by (simp add: xor.assoc)
qed

lemma crc_byte_inj: "crc_byte b r = crc_byte b s \<Longrightarrow> r = s"
  unfolding crc_byte_def by (drule inj_crc_bits, erule xor_right_cancel)

lemma crc_byte_inj_byte: "crc_byte b r = crc_byte c r \<Longrightarrow> b = c"
proof -
  assume "crc_byte b r = crc_byte c r"
  then have "r XOR ucast b = r XOR ucast c" unfolding crc_byte_def by (rule inj_crc_bits)
  then have "(ucast b :: 32 word) XOR r = ucast c XOR r" by (simp only: xor.commute)
  then have eq: "(ucast b :: 32 word) = ucast c" by (rule xor_right_cancel)
  show "b = c"
  proof (rule bit_word_eqI)
    fix n assume n: "n < LENGTH(8)"
    have "bit (ucast b :: 32 word) n = bit (ucast c :: 32 word) n" by (simp only: eq)
    then show "bit b n = bit c n" using n by (simp add: bit_simps)
  qed
qed

lemma fold_crc_inj: "fold crc_byte p r = fold crc_byte p s \<Longrightarrow> r = s"
  by (induction p arbitrary: r s) (auto dest: crc_byte_inj)

text \<open>One changed byte changes the checksum.\<close>

lemma crc32_one_byte:
  assumes "i < length p" "b \<noteq> p ! i"
  shows "crc32 (p[i := b]) \<noteq> crc32 p"
proof
  let ?r = "fold crc_byte (take i p) (- 1)"
  assume "crc32 (p[i := b]) = crc32 p"
  then have "fold crc_byte (p[i := b]) (- 1) = fold crc_byte p (- 1)" by (simp add: crc32_def)
  then have "fold crc_byte (drop (Suc i) p) (crc_byte b ?r) = fold crc_byte (drop (Suc i) p) (crc_byte (p ! i) ?r)"
    by (subst (asm) (2) id_take_nth_drop [OF assms(1)]) (simp add: upd_conv_take_nth_drop [OF assms(1)])
  then show False using assms(2) by (auto dest: fold_crc_inj crc_byte_inj_byte)
qed

subsection \<open>The frames\<close>

abbreviation max_frame :: nat where "max_frame \<equiv> 16 * 1024 * 1024"

definition put_uint32 :: "32 word \<Rightarrow> 8 word list" where
  "put_uint32 v = [ucast (drop_bit 24 v), ucast (drop_bit 16 v), ucast (drop_bit 8 v), ucast v]"

fun get_uint32 :: "8 word list \<Rightarrow> 32 word" where
  "get_uint32 [a, b, c, d] =
     push_bit 24 (ucast a) OR push_bit 16 (ucast b) OR push_bit 8 (ucast c) OR ucast d"
| "get_uint32 bs = 0"

datatype write_error = EmptyFrame | FrameTooLong

definition write_frame :: "8 word list \<Rightarrow> 8 word list \<Rightarrow> 8 word list \<times> write_error option" where
  "write_frame p out =
     (if p = [] then (out, Some EmptyFrame)
      else if length p > max_frame then (out, Some FrameTooLong)
      else (out @ (put_uint32 (of_nat (length p)) @ put_uint32 (crc32 p)) @ p, None))"

definition write_close :: "8 word list \<Rightarrow> 8 word list" where
  "write_close out = out @ replicate 8 0"

datatype read_error = EndOfFile | UnexpectedEnd | BadFraming | BadChecksum

record frame_reader =
  fr_input :: "8 word list"
  fr_done :: bool

definition new_reader :: "8 word list \<Rightarrow> frame_reader" where
  "new_reader bs = \<lparr>fr_input = bs, fr_done = False\<rparr>"

definition read_full :: "nat \<Rightarrow> 8 word list \<Rightarrow> read_error + (8 word list \<times> 8 word list)" where
  "read_full n bs =
     (if n \<le> length bs then Inr (take n bs, drop n bs)
      else if bs = [] then Inl EndOfFile else Inl UnexpectedEnd)"

text \<open>A failed read leaves nothing: \<open>ReadFull\<close> has taken every byte there was.\<close>

definition read_next :: "frame_reader \<Rightarrow> frame_reader \<times> (read_error + 8 word list)" where
  "read_next r =
     (if fr_done r then (r, Inl EndOfFile)
      else case read_full 8 (fr_input r) of
        Inl e \<Rightarrow> (r\<lparr>fr_input := []\<rparr>, Inl e)
      | Inr (hdr, rest) \<Rightarrow>
          let len = get_uint32 (take 4 hdr); want = get_uint32 (drop 4 hdr); r1 = r\<lparr>fr_input := rest\<rparr> in
          if len = 0
          then (if want \<noteq> 0 then (r1, Inl BadFraming) else (r1\<lparr>fr_done := True\<rparr>, Inl EndOfFile))
          else if len > of_nat max_frame then (r1, Inl BadFraming)
          else case read_full (unat len) rest of
            Inl e \<Rightarrow> (r1\<lparr>fr_input := []\<rparr>, Inl e)
          | Inr (p, rest') \<Rightarrow>
              (r1\<lparr>fr_input := rest'\<rparr>, if crc32 p \<noteq> want then Inl BadChecksum else Inr p))"

text \<open>The frames a consumer gets before the first error, and that error.\<close>

lemma read_next_shrinks: "read_next r = (r', Inr p) \<Longrightarrow> length (fr_input r') < length (fr_input r)"
  by (auto simp: read_next_def read_full_def Let_def split: if_splits sum.splits prod.splits)

function read_all :: "frame_reader \<Rightarrow> 8 word list list \<times> read_error" where
  "read_all r = (case read_next r of
     (r', Inl e) \<Rightarrow> ([], e)
   | (r', Inr p) \<Rightarrow> (case read_all r' of (ps, e) \<Rightarrow> (p # ps, e)))"
  by pat_completeness auto
termination
  by (relation "measure (\<lambda>r. length (fr_input r))") (auto dest!: sym [of "(_, _)"] simp: read_next_shrinks)

declare read_all.simps [simp del]

fun write_frames :: "8 word list list \<Rightarrow> 8 word list \<Rightarrow> 8 word list" where
  "write_frames [] out = out"
| "write_frames (p # ps) out = write_frames ps (fst (write_frame p out))"

subsection \<open>Reading back a frame\<close>

lemma uint32_roundtrip [simp]: "get_uint32 (put_uint32 v) = v"
proof (rule bit_word_eqI)
  fix n assume n: "n < LENGTH(32)"
  then consider "n < 8" | "8 \<le> n" "n < 16" | "16 \<le> n" "n < 24" | "24 \<le> n" "n < 32" by fastforce
  then show "bit (get_uint32 (put_uint32 v)) n = bit v n"
    by cases (simp_all add: put_uint32_def bit_simps, auto)
qed

lemma length_put_uint32 [simp]: "length (put_uint32 v) = 4"
  by (simp add: put_uint32_def)

lemma of_nat_frame_length:
  assumes "0 < n" "n \<le> max_frame"
  shows "unat (of_nat n :: 32 word) = n" "(of_nat n :: 32 word) \<noteq> 0" "\<not> (16777216 :: 32 word) < of_nat n"
proof -
  have n: "n < 2 ^ 32" using assms(2) by simp
  then show u: "unat (of_nat n :: 32 word) = n" by (simp add: unat_of_nat)
  show "(of_nat n :: 32 word) \<noteq> 0" using u assms(1) by (metis less_irrefl unat_0)
  show "\<not> (16777216 :: 32 word) < of_nat n" using u assms(2) by (simp add: word_less_nat_alt)
qed

text \<open>One frame as the writer emits it, with any payload of that length in its place.\<close>

definition frame_with :: "8 word list \<Rightarrow> 8 word list \<Rightarrow> 8 word list" where
  "frame_with p q = put_uint32 (of_nat (length p)) @ put_uint32 (crc32 p) @ q"

lemma write_frame_ok: "p \<noteq> [] \<Longrightarrow> length p \<le> max_frame \<Longrightarrow> write_frame p out = (out @ frame_with p p, None)"
  by (simp add: write_frame_def frame_with_def)

lemma read_frame:
  assumes "p \<noteq> []" "length p \<le> max_frame" "length q = length p"
  shows "read_next (new_reader (frame_with p q @ rest)) =
    (new_reader rest, if crc32 q \<noteq> crc32 p then Inl BadChecksum else Inr q)"
proof -
  have "0 < length p" using assms(1) by simp
  note len = of_nat_frame_length [OF this assms(2)]
  show ?thesis
    using assms(3) by (simp add: read_next_def new_reader_def read_full_def frame_with_def Let_def len del: of_nat_mult)
qed

lemma write_frames_append:
  assumes "\<forall>p \<in> set ps. p \<noteq> [] \<and> length p \<le> max_frame"
  shows "write_frames ps out = out @ concat (map (\<lambda>p. frame_with p p) ps)"
  using assms by (induction ps arbitrary: out) (simp_all add: write_frame_ok)

lemma read_all_frames:
  assumes "\<forall>p \<in> set ps. p \<noteq> [] \<and> length p \<le> max_frame"
  shows "read_all (new_reader (concat (map (\<lambda>p. frame_with p p) ps) @ rest)) =
    (case read_all (new_reader rest) of (qs, e) \<Rightarrow> (ps @ qs, e))"
  using assms
proof (induction ps)
  case (Cons p ps)
  then have "read_next (new_reader (concat (map (\<lambda>p. frame_with p p) (p # ps)) @ rest)) =
      (new_reader (concat (map (\<lambda>p. frame_with p p) ps) @ rest), Inr p)"
    using read_frame [of p p] by simp
  with Cons show ?case by (subst read_all.simps) (simp split: prod.split)
qed (simp split: prod.split)

lemma read_all_sentinel: "read_all (new_reader (replicate 8 0 @ rest)) = ([], EndOfFile)"
  by (subst read_all.simps) (simp add: read_next_def read_full_def new_reader_def numeral_eq_Suc Let_def)

lemma read_all_empty: "read_all (new_reader []) = ([], EndOfFile)"
  by (subst read_all.simps) (simp add: read_next_def read_full_def new_reader_def)

subsection \<open>Properties\<close>

text \<open>C18. Frames round trip: for payloads the writer accepts (none empty, none longer than 16 MiB), reading
  the closed stream gives back exactly the payloads in order and then the end of the file, whatever
  bytes follow the sentinel; and a stream cut off between two frames, or before the sentinel, reads
  as complete: the reader gives the frames before the cut and the same end of file.\<close>

theorem frames_roundtrip:
  assumes "\<forall>p \<in> set ps. p \<noteq> [] \<and> length p \<le> max_frame"
  shows "read_all (new_reader (write_close (write_frames ps []) @ rest)) = (ps, EndOfFile) \<and>
    read_all (new_reader (write_frames ps [])) = (ps, EndOfFile)"
  using read_all_frames [OF assms, of "replicate 8 0 @ rest"] read_all_frames [OF assms, of "[]"]
  by (simp add: write_close_def write_frames_append [OF assms] read_all_sentinel read_all_empty)

lemma frames_roundtrip_witness:
  "read_all (new_reader (write_close (write_frames [[1, 2], [3]] []))) = ([[1, 2], [3]], EndOfFile)"
  using frames_roundtrip [of "[[1, 2], [3]]" "[]"] by simp

text \<open>A damaged payload is noticed: changing any one byte of a frame's payload makes reading that frame
  fail with a checksum error, and the reader still stands at the start of the next frame.\<close>

theorem damaged_byte_detected:
  assumes "i < length p" "length p \<le> max_frame" "b \<noteq> p ! i"
  shows "read_next (new_reader (frame_with p (p[i := b]) @ rest)) = (new_reader rest, Inl BadChecksum)"
proof -
  have "p \<noteq> []" using assms(1) by auto
  then show ?thesis using read_frame [of p "p[i := b]" rest] crc32_one_byte [OF assms(1,3)] assms(2) by simp
qed

lemma damaged_byte_detected_witness:
  "read_next (new_reader (frame_with [7, 8] [7, 9])) = (new_reader [], Inl BadChecksum)"
  using damaged_byte_detected [of 1 "[7, 8]" 9 "[]"] by simp

end
