(* ===== verification/Label_Selector.thy ===== *)
theory Label_Selector
  imports Go_Strings
begin

section \<open>Label selectors (internal/apimachinery/labels/selector.go)\<close>

text \<open>
  Requirements, their matching against a label set (a map from keys to values), the printer and
  the hand-written parser. An index out of range in the printer is \<open>Panic\<close>. Text is ASCII.
\<close>

subsection \<open>Requirements\<close>

datatype operator = OpEquals | OpNotEquals | OpIn | OpNotIn | OpExists | OpDoesNotExist | OpOther string

record requirement =
  rq_key :: string
  rq_op :: operator
  rq_values :: "string list"

type_synonym selector = "requirement list"

type_synonym labels = "string \<rightharpoonup> string"

definition req_holds :: "requirement \<Rightarrow> labels \<Rightarrow> bool" where
  "req_holds r l =
     (case rq_op r of
        OpEquals \<Rightarrow> length (rq_values r) = 1 \<and> (case l (rq_key r) of None \<Rightarrow> False | Some v \<Rightarrow> v = rq_values r ! 0)
      | OpNotEquals \<Rightarrow> length (rq_values r) = 1 \<and> (case l (rq_key r) of None \<Rightarrow> True | Some v \<Rightarrow> v \<noteq> rq_values r ! 0)
      | OpIn \<Rightarrow> (case l (rq_key r) of None \<Rightarrow> False | Some v \<Rightarrow> v \<in> set (rq_values r))
      | OpNotIn \<Rightarrow> (case l (rq_key r) of None \<Rightarrow> True | Some v \<Rightarrow> v \<notin> set (rq_values r))
      | OpExists \<Rightarrow> l (rq_key r) \<noteq> None
      | OpDoesNotExist \<Rightarrow> l (rq_key r) = None
      | OpOther s \<Rightarrow> False)"

definition sel_everything :: selector where
  "sel_everything = []"

definition sel_nothing :: selector where
  "sel_nothing = [\<lparr>rq_key = ''__nothing__'', rq_op = OpExists, rq_values = []\<rparr>]"

definition sel_add :: "requirement \<Rightarrow> selector \<Rightarrow> selector" where
  "sel_add r s = s @ [r]"

definition sel_matches :: "selector \<Rightarrow> labels \<Rightarrow> bool" where
  "sel_matches s l = list_all (\<lambda>r. req_holds r l) s"

subsection \<open>Printing\<close>

definition req_string :: "requirement \<Rightarrow> (unit, string list) outcome" where
  "req_string r =
     (case rq_op r of
        OpEquals \<Rightarrow> (case rq_values r of [] \<Rightarrow> Panic | v # vs \<Rightarrow> Ok [rq_key r @ ''='' @ v])
      | OpNotEquals \<Rightarrow> (case rq_values r of [] \<Rightarrow> Panic | v # vs \<Rightarrow> Ok [rq_key r @ ''!='' @ v])
      | OpIn \<Rightarrow> Ok [rq_key r @ '' in ('' @ join_with '','' (rq_values r) @ '')'']
      | OpNotIn \<Rightarrow> Ok [rq_key r @ '' notin ('' @ join_with '','' (rq_values r) @ '')'']
      | OpExists \<Rightarrow> Ok [rq_key r]
      | OpDoesNotExist \<Rightarrow> Ok [''!'' @ rq_key r]
      | OpOther s \<Rightarrow> Ok [])"

fun req_strings :: "selector \<Rightarrow> (unit, string list) outcome" where
  "req_strings [] = Ok []"
| "req_strings (r # rs) = outcome_bind (req_string r) (\<lambda>p. outcome_bind (req_strings rs) (\<lambda>ps. Ok (p @ ps)))"

definition sel_string :: "selector \<Rightarrow> (unit, string) outcome" where
  "sel_string s = outcome_bind (req_strings s) (\<lambda>ps. Ok (join_with '','' ps))"

subsection \<open>Parsing\<close>

datatype sel_error = EmptyTerm | BangWithoutKey | NotParenthesised | EmptyList | EmptyValue

text \<open>The scan keeps the nesting depth and the piece read so far.\<close>

fun split_top :: "int \<Rightarrow> string \<Rightarrow> string \<Rightarrow> string list" where
  "split_top d cur [] = [cur]"
| "split_top d cur (x # xs) =
     (if x = CHR ''('' then split_top (d + 1) (cur @ [x]) xs
      else if x = CHR '')'' then split_top (d - 1) (cur @ [x]) xs
      else if x = CHR '','' \<and> d = 0 then cur # split_top d [] xs
      else split_top d (cur @ [x]) xs)"

fun set_values :: "string list \<Rightarrow> (sel_error, string list) outcome" where
  "set_values [] = Ok []"
| "set_values (v # vs) =
     (if trim_space v = [] then Err EmptyValue
      else outcome_bind (set_values vs) (\<lambda>ws. Ok (trim_space v # ws)))"

definition parse_set_term :: "string \<Rightarrow> nat \<Rightarrow> nat \<Rightarrow> operator \<Rightarrow> (sel_error, requirement) outcome" where
  "parse_set_term term start len op =
     (let key = trim_space (take start term); rest = trim_space (drop (start + len) term) in
      if \<not> prefix ''('' rest \<or> \<not> suffix '')'' rest then Err NotParenthesised
      else let inner = trim_space (butlast (tl rest)) in
        if inner = [] then Err EmptyList
        else outcome_bind (set_values (split_on CHR '','' inner)) (\<lambda>vs.
          Ok \<lparr>rq_key = key, rq_op = op, rq_values = vs\<rparr>))"

definition parse_term :: "string \<Rightarrow> (sel_error, requirement) outcome" where
  "parse_term term =
     (if prefix ''!'' term
      then (let key = trim_space (tl term) in
            if key = [] then Err BangWithoutKey else Ok \<lparr>rq_key = key, rq_op = OpDoesNotExist, rq_values = []\<rparr>)
      else case index_of '' notin '' term of
        Some i \<Rightarrow> parse_set_term term i 7 OpNotIn
      | None \<Rightarrow>
      (case index_of '' in '' term of
        Some i \<Rightarrow> parse_set_term term i 4 OpIn
      | None \<Rightarrow>
      (case index_of ''!='' term of
        Some i \<Rightarrow> Ok \<lparr>rq_key = trim_space (take i term), rq_op = OpNotEquals, rq_values = [trim_space (drop (i + 2) term)]\<rparr>
      | None \<Rightarrow>
      (case index_of ''='' term of
        Some i \<Rightarrow> Ok \<lparr>rq_key = trim_space (take i term), rq_op = OpEquals, rq_values = [trim_space (drop (i + 1) term)]\<rparr>
      | None \<Rightarrow> Ok \<lparr>rq_key = term, rq_op = OpExists, rq_values = []\<rparr>))))"

fun parse_terms :: "string list \<Rightarrow> (sel_error, selector) outcome" where
  "parse_terms [] = Ok []"
| "parse_terms (t # ts) =
     (if trim_space t = [] then Err EmptyTerm
      else outcome_bind (parse_term (trim_space t)) (\<lambda>r. outcome_bind (parse_terms ts) (\<lambda>rs. Ok (r # rs))))"

definition parse_selector :: "string \<Rightarrow> (sel_error, selector) outcome" where
  "parse_selector expr =
     (let e = trim_space expr in if e = [] then Ok sel_everything else parse_terms (split_top 0 [] e))"

subsection \<open>Well-formed requirements\<close>

definition label_char :: "char \<Rightarrow> bool" where
  "label_char c \<longleftrightarrow> \<not> ascii_space c \<and> c \<notin> set '',()!=''"

definition label_text :: "string \<Rightarrow> bool" where
  "label_text w \<longleftrightarrow> (\<forall>c \<in> set w. label_char c)"

definition label_word :: "string \<Rightarrow> bool" where
  "label_word w \<longleftrightarrow> w \<noteq> [] \<and> label_text w"

definition req_ok :: "requirement \<Rightarrow> bool" where
  "req_ok r \<longleftrightarrow> label_word (rq_key r) \<and>
     (case rq_op r of
        OpEquals \<Rightarrow> (\<exists>v. rq_values r = [v] \<and> label_text v)
      | OpNotEquals \<Rightarrow> (\<exists>v. rq_values r = [v] \<and> label_text v)
      | OpIn \<Rightarrow> rq_values r \<noteq> [] \<and> (\<forall>v \<in> set (rq_values r). label_word v)
      | OpNotIn \<Rightarrow> rq_values r \<noteq> [] \<and> (\<forall>v \<in> set (rq_values r). label_word v)
      | OpExists \<Rightarrow> rq_values r = []
      | OpDoesNotExist \<Rightarrow> rq_values r = []
      | OpOther s \<Rightarrow> False)"

lemma index_of_skip: "w \<noteq> [] \<Longrightarrow> hd w \<notin> set s \<Longrightarrow> index_of w (s @ r) = map_option (\<lambda>n. length s + n) (index_of w r)"
proof (induction s)
  case (Cons x xs)
  then have "\<not> prefix w (x # xs @ r)" by (auto simp: prefix_Cons neq_Nil_conv)
  then show ?case using Cons by (simp add: option.map_comp comp_def)
qed (simp add: option.map_ident_strong)

lemma label_text_simps [simp]: "label_text []" "label_text (c # w) \<longleftrightarrow> label_char c \<and> label_text w"
  "label_text (v @ w) \<longleftrightarrow> label_text v \<and> label_text w"
  by (auto simp: label_text_def)

lemma label_char_not: "\<not> label_char (CHR '' '')" "\<not> label_char (CHR '','')" "\<not> label_char (CHR ''('')"
  "\<not> label_char (CHR '')'')" "\<not> label_char (CHR ''!'')" "\<not> label_char (CHR ''='')"
  by code_simp+

lemma label_text_not: "label_text w \<Longrightarrow> CHR '' '' \<notin> set w" "label_text w \<Longrightarrow> CHR '','' \<notin> set w"
  "label_text w \<Longrightarrow> CHR ''('' \<notin> set w" "label_text w \<Longrightarrow> CHR '')'' \<notin> set w"
  "label_text w \<Longrightarrow> CHR ''!'' \<notin> set w" "label_text w \<Longrightarrow> CHR ''='' \<notin> set w"
  unfolding label_text_def using label_char_not by blast+

lemma label_text_trim [simp]: "label_text w \<Longrightarrow> trim_space w = w"
  by (rule trim_id) (auto simp: label_text_def label_char_def)

lemma label_word_text: "label_word w \<Longrightarrow> label_text w \<and> w \<noteq> []"
  by (simp add: label_word_def)

subsection \<open>Parsing a printed term\<close>

lemma label_word_hd: "label_word k \<Longrightarrow> \<not> prefix ''!'' (k @ r)"
  by (cases k) (auto simp: label_word_def label_char_not)

lemma label_no_space:
  assumes "label_text k" "label_text v" "CHR '' '' \<notin> set x"
  shows "index_of '' notin '' (k @ x @ v) = None" "index_of '' in '' (k @ x @ v) = None"
  using assms label_text_not(1) by (auto intro!: index_of_absent)

lemma parse_equals:
  assumes "label_word k" "label_text v"
  shows "parse_term (k @ ''='' @ v) = Ok \<lparr>rq_key = k, rq_op = OpEquals, rq_values = [v]\<rparr>"
proof -
  have k: "label_text k" using assms(1) by (simp add: label_word_def)
  note n = label_text_not(5,6) [OF k] label_text_not(5) [OF assms(2)] label_no_space [OF k assms(2), of "''=''"]
  have "index_of ''!='' (k @ ''='' @ v) = None" using n by (auto intro!: index_of_absent)
  moreover have "index_of ''='' (k @ ''='' @ v) = Some (length k)" using n by (intro index_of_at) auto
  ultimately show ?thesis
    using label_word_hd [OF assms(1), of "''='' @ v"] n k assms(2) by (simp add: parse_term_def)
qed

lemma parse_not_equals:
  assumes "label_word k" "label_text v"
  shows "parse_term (k @ ''!='' @ v) = Ok \<lparr>rq_key = k, rq_op = OpNotEquals, rq_values = [v]\<rparr>"
proof -
  have k: "label_text k" using assms(1) by (simp add: label_word_def)
  note n = label_text_not(5) [OF k] label_no_space [OF k assms(2), of "''!=''"]
  have "index_of ''!='' (k @ ''!='' @ v) = Some (length k)" using n by (intro index_of_at) auto
  then show ?thesis
    using label_word_hd [OF assms(1), of "''!='' @ v"] n k assms(2) by (simp add: parse_term_def)
qed

lemma parse_exists:
  assumes "label_word k"
  shows "parse_term k = Ok \<lparr>rq_key = k, rq_op = OpExists, rq_values = []\<rparr>"
proof -
  have k: "label_text k" using assms by (simp add: label_word_def)
  have "index_of ''!='' k = None" "index_of ''='' k = None"
    using label_text_not(5,6) [OF k] by (auto intro!: index_of_absent)
  then show ?thesis
    using label_word_hd [OF assms, of "[]"] label_no_space [OF k, of "[]" "[]"] by (simp add: parse_term_def)
qed

lemma parse_does_not_exist:
  "label_word k \<Longrightarrow> parse_term (''!'' @ k) = Ok \<lparr>rq_key = k, rq_op = OpDoesNotExist, rq_values = []\<rparr>"
  by (simp add: parse_term_def label_word_def)

text \<open>The printed value list.\<close>

lemma join_chars: "c \<in> set (join_with sep ws) \<Longrightarrow> c \<in> set sep \<or> (\<exists>w \<in> set ws. c \<in> set w)"
  by (induction sep ws rule: join_with.induct) auto

lemma join_ne: "ws \<noteq> [] \<Longrightarrow> \<forall>w \<in> set ws. w \<noteq> [] \<Longrightarrow> join_with sep ws \<noteq> []"
  by (induction sep ws rule: join_with.induct) auto

lemma set_values_words: "\<forall>v \<in> set vs. label_word v \<Longrightarrow> set_values vs = Ok vs"
  by (induction vs) (auto simp: label_word_def)

lemma list_inner:
  assumes "vs \<noteq> []" "\<forall>v \<in> set vs. label_word v"
  defines "j \<equiv> join_with '','' vs"
  shows "CHR '' '' \<notin> set j" "CHR ''('' \<notin> set j" "CHR '')'' \<notin> set j" "trim_space j = j" "j \<noteq> []" "split_on CHR '','' j = vs"
proof -
  have t: "label_text v" if "v \<in> set vs" for v using assms(2) that by (simp add: label_word_def)
  show "CHR '' '' \<notin> set j" "CHR ''('' \<notin> set j" "CHR '')'' \<notin> set j"
    using t label_text_not(1,3,4) unfolding j_def by (auto dest!: join_chars)
  have "\<not> ascii_space c" if "c \<in> set j" for c
  proof -
    have "c = CHR '','' \<or> (\<exists>v \<in> set vs. c \<in> set v)" using join_chars that unfolding j_def by fastforce
    moreover have "\<not> ascii_space (CHR '','')" by code_simp
    ultimately show ?thesis using t by (auto simp: label_text_def label_char_def)
  qed
  then show "trim_space j = j" by (intro trim_id) blast
  show "j \<noteq> []" using assms(1,2) unfolding j_def by (intro join_ne) (auto simp: label_word_def)
  show "split_on CHR '','' j = vs" using assms(1) t label_text_not(2) unfolding j_def by (intro split_join) blast+
qed

lemma parse_list:
  assumes "label_word k" "vs \<noteq> []" "\<forall>v \<in> set vs. label_word v" "length k + n = m"
    "drop m term = ''('' @ join_with '','' vs @ '')''" "take (length k) term = k"
  shows "parse_set_term term (length k) n op = Ok \<lparr>rq_key = k, rq_op = op, rq_values = vs\<rparr>"
proof -
  let ?r = "''('' @ join_with '','' vs @ '')''"
  have "trim_space ?r = ?r" by (rule trim_ends) (simp_all add: ascii_space_def)
  moreover have "suffix '')'' ?r" by (simp add: suffix_def)
  moreover have "butlast (tl ?r) = join_with '','' vs" by simp
  ultimately show ?thesis
    using assms list_inner [OF assms(2,3)] set_values_words [OF assms(3)]
    by (simp add: parse_set_term_def Let_def label_word_def)
qed

lemma parse_in:
  assumes "label_word k" "vs \<noteq> []" "\<forall>v \<in> set vs. label_word v"
  shows "parse_term (k @ '' in ('' @ join_with '','' vs @ '')'') = Ok \<lparr>rq_key = k, rq_op = OpIn, rq_values = vs\<rparr>"
proof -
  let ?j = "join_with '','' vs"
  have k: "CHR '' '' \<notin> set k" using assms(1) label_text_not(1) by (simp add: label_word_def)
  have j: "index_of '' notin '' (?j @ '')'') = None"
    using list_inner(1) [OF assms(2,3)] by (intro index_of_absent) auto
  have "index_of '' notin '' (k @ '' in ('' @ ?j @ '')'') = None"
    using index_of_skip [of "'' notin ''" k "'' in ('' @ ?j @ '')''"] k j by simp
  moreover have "index_of '' in '' (k @ '' in ('' @ ?j @ '')'') = Some (length k)"
    using index_of_at [of "'' in ''" k "''('' @ ?j @ '')''"] k by simp
  ultimately show ?thesis
    using label_word_hd [OF assms(1)] parse_list [OF assms, of 4 "length k + 4"] by (simp add: parse_term_def)
qed

lemma parse_notin:
  assumes "label_word k" "vs \<noteq> []" "\<forall>v \<in> set vs. label_word v"
  shows "parse_term (k @ '' notin ('' @ join_with '','' vs @ '')'') = Ok \<lparr>rq_key = k, rq_op = OpNotIn, rq_values = vs\<rparr>"
proof -
  let ?j = "join_with '','' vs"
  have k: "CHR '' '' \<notin> set k" using assms(1) label_text_not(1) by (simp add: label_word_def)
  have "index_of '' notin '' (k @ '' notin ('' @ ?j @ '')'') = Some (length k)"
    using index_of_at [of "'' notin ''" k "''('' @ ?j @ '')''"] k by simp
  then show ?thesis
    using label_word_hd [OF assms(1)] parse_list [OF assms, of 7 "length k + 7"] by (simp add: parse_term_def)
qed

subsection \<open>Parsing a printed selector\<close>

text \<open>A term that the scan for commas passes over, and that trimming leaves alone.\<close>

definition closed_term :: "string \<Rightarrow> bool" where
  "closed_term t \<longleftrightarrow> t \<noteq> [] \<and> \<not> ascii_space (hd t) \<and> \<not> ascii_space (last t) \<and>
     (\<forall>cur rest. split_top 0 cur (t @ rest) = split_top 0 (cur @ t) rest)"

lemma split_plain: "\<forall>c \<in> set w. c \<notin> set '',()'' \<Longrightarrow> split_top d cur (w @ r) = split_top d (cur @ w) r"
  by (induction w arbitrary: cur) auto

lemma split_nested: "CHR ''('' \<notin> set j \<Longrightarrow> CHR '')'' \<notin> set j \<Longrightarrow> split_top 1 cur (j @ r) = split_top 1 (cur @ j) r"
  by (induction j arbitrary: cur) auto

lemma label_text_plain: "label_text w \<Longrightarrow> \<forall>c \<in> set w. c \<notin> set '',()''"
  by (auto simp: label_text_def label_char_not)

lemma label_word_ends: "label_word k \<Longrightarrow> \<not> ascii_space (hd k)" "label_word k \<Longrightarrow> \<not> ascii_space (last k)"
  by (auto simp: label_word_def label_text_def label_char_def)

lemma visible_chars: "\<not> ascii_space (CHR ''='')" "\<not> ascii_space (CHR ''!'')" "\<not> ascii_space (CHR '')'')"
  by code_simp+

lemma closed_plain:
  assumes "label_word k" "label_text v" "\<forall>c \<in> set x. c \<notin> set '',()''" "x \<noteq> [] \<Longrightarrow> \<not> ascii_space (last x)"
  shows "closed_term (k @ x @ v)"
proof -
  have k: "label_text k" using assms(1) by (simp add: label_word_def)
  have "\<forall>c \<in> set (k @ x @ v). c \<notin> set '',()''"
    using assms(3) label_text_plain [OF k] label_text_plain [OF assms(2)] by (simp only: set_append ball_Un simp_thms)
  then have "split_top 0 cur ((k @ x @ v) @ rest) = split_top 0 (cur @ k @ x @ v) rest" for cur rest by (rule split_plain)
  moreover have "\<not> ascii_space (last (k @ x @ v))"
    using assms label_word_ends(2) [OF assms(1)] by (cases "v = []") (auto simp: label_text_def label_char_def last_append)
  ultimately show ?thesis
    using assms(1) label_word_ends(1) [OF assms(1)] by (auto simp: closed_term_def label_word_def hd_append)
qed

lemma closed_list:
  assumes "label_word k" "vs \<noteq> []" "\<forall>v \<in> set vs. label_word v" "\<forall>c \<in> set x. c \<notin> set '',()''"
  shows "closed_term (k @ x @ ''('' @ join_with '','' vs @ '')'')"
proof -
  let ?j = "join_with '','' vs"
  have "\<forall>c \<in> set (k @ x). c \<notin> set '',()''" using assms(1,4) label_text_plain [of k] by (auto simp: label_word_def)
  then have "split_top 0 cur ((k @ x) @ ''('' @ ?j @ '')'' @ rest) = split_top 0 (cur @ k @ x) (''('' @ ?j @ '')'' @ rest)" for cur rest
    by (rule split_plain)
  then have "split_top 0 cur ((k @ x @ ''('' @ ?j @ '')'') @ rest) = split_top 0 (cur @ k @ x @ ''('' @ ?j @ '')'') rest" for cur rest
    using list_inner(2,3) [OF assms(2,3)] by (simp add: split_nested)
  then show ?thesis
    using assms(1) label_word_ends(1) [OF assms(1)] visible_chars by (simp add: closed_term_def label_word_def hd_append)
qed

lemma print_term:
  assumes "req_ok r"
  shows "\<exists>t. req_string r = Ok [t] \<and> parse_term t = Ok r \<and> closed_term t"
proof -
  have k: "label_word (rq_key r)" using assms by (simp add: req_ok_def)
  show ?thesis
  proof (cases "rq_op r")
    case OpEquals
    then obtain v where "rq_values r = [v]" "label_text v" using assms by (auto simp: req_ok_def)
    then show ?thesis using OpEquals parse_equals [OF k] closed_plain [OF k, of v "''=''"] visible_chars
      by (auto simp: req_string_def)
  next
    case OpNotEquals
    then obtain v where "rq_values r = [v]" "label_text v" using assms by (auto simp: req_ok_def)
    then show ?thesis using OpNotEquals parse_not_equals [OF k] closed_plain [OF k, of v "''!=''"] visible_chars
      by (auto simp: req_string_def)
  next
    case OpIn
    then have v: "rq_values r \<noteq> []" "\<forall>v \<in> set (rq_values r). label_word v" using assms by (auto simp: req_ok_def)
    then show ?thesis using OpIn parse_in [OF k v] closed_list [OF k v, of "'' in ''"] by (simp add: req_string_def)
  next
    case OpNotIn
    then have v: "rq_values r \<noteq> []" "\<forall>v \<in> set (rq_values r). label_word v" using assms by (auto simp: req_ok_def)
    then show ?thesis using OpNotIn parse_notin [OF k v] closed_list [OF k v, of "'' notin ''"] by (simp add: req_string_def)
  next
    case OpExists
    then have "rq_values r = []" using assms by (auto simp: req_ok_def)
    then show ?thesis using OpExists parse_exists [OF k] closed_plain [OF k, of "[]" "[]"] by (simp add: req_string_def)
  next
    case OpDoesNotExist
    then have "rq_values r = []" using assms by (auto simp: req_ok_def)
    moreover have "\<forall>c \<in> set (''!'' @ rq_key r). c \<notin> set '',()''"
      using k label_text_plain [of "rq_key r"] by (auto simp: label_word_def)
    then have "split_top 0 cur ((''!'' @ rq_key r) @ rest) = split_top 0 (cur @ ''!'' @ rq_key r) rest" for cur rest by (rule split_plain)
    ultimately show ?thesis using OpDoesNotExist parse_does_not_exist [OF k] k label_word_ends(2) [OF k] visible_chars
      by (simp add: req_string_def closed_term_def label_word_def)
  next
    case (OpOther s)
    then show ?thesis using assms by (simp add: req_ok_def)
  qed
qed

lemma closed_term_split: "closed_term t \<Longrightarrow> split_top 0 [] (t @ rest) = split_top 0 t rest"
  by (simp add: closed_term_def)

lemma split_terms:
  "ts \<noteq> [] \<Longrightarrow> \<forall>t \<in> set ts. closed_term t \<Longrightarrow> split_top 0 [] (join_with '','' ts) = ts"
proof (induction ts rule: induct_list012)
  case (2 t)
  then show ?case using closed_term_split [of t "[]"] by simp
next
  case (3 t u ts)
  then show ?case using closed_term_split [of t "'','' @ join_with '','' (u # ts)"] by simp
qed simp

lemma join_ends:
  "ts \<noteq> [] \<Longrightarrow> \<forall>t \<in> set ts. closed_term t \<Longrightarrow>
   join_with '','' ts \<noteq> [] \<and> \<not> ascii_space (hd (join_with '','' ts)) \<and> \<not> ascii_space (last (join_with '','' ts))"
  by (induction ts rule: induct_list012) (auto simp: closed_term_def hd_append last_append)

lemma print_terms:
  "\<forall>r \<in> set s. req_ok r \<Longrightarrow> \<exists>ts. req_strings s = Ok ts \<and> length ts = length s \<and> (\<forall>t \<in> set ts. closed_term t) \<and> parse_terms ts = Ok s"
proof (induction s)
  case (Cons r s)
  then obtain t ts where t: "req_string r = Ok [t]" "parse_term t = Ok r" "closed_term t"
    "req_strings s = Ok ts" "length ts = length s" "\<forall>t \<in> set ts. closed_term t" "parse_terms ts = Ok s"
    using print_term [of r] by auto
  then have "trim_space t = t" "t \<noteq> []" by (auto simp: closed_term_def intro: trim_ends)
  then show ?case using t by (intro exI [of _ "t # ts"]) simp
qed simp

subsection \<open>Properties\<close>

text \<open>C40. Printing and parsing round trip: a selector of well-formed requirements (keys and values without
  spaces, commas, parentheses, equality or exclamation signs; keys and list values not empty) prints
  without a panic, and parsing what it printed gives the selector back.\<close>

theorem selector_roundtrip:
  assumes "\<forall>r \<in> set s. req_ok r"
  shows "\<exists>e. sel_string s = Ok e \<and> parse_selector e = Ok s"
proof -
  obtain ts where ts: "req_strings s = Ok ts" "length ts = length s" "\<forall>t \<in> set ts. closed_term t" "parse_terms ts = Ok s"
    using print_terms [OF assms] by blast
  show ?thesis
  proof (cases "s = []")
    case True
    then show ?thesis by (simp add: sel_string_def parse_selector_def trim_space_def trim_left_def trim_right_def sel_everything_def)
  next
    case False
    then have ne: "ts \<noteq> []" using ts(2) by auto
    note ends = join_ends [OF ne ts(3)]
    have "trim_space (join_with '','' ts) = join_with '','' ts" using ends by (intro trim_ends) auto
    then have "parse_selector (join_with '','' ts) = Ok s"
      using ends split_terms [OF ne ts(3)] ts(4) by (simp add: parse_selector_def Let_def)
    then show ?thesis using ts(1) by (simp add: sel_string_def)
  qed
qed

definition demo_selector :: selector where
  "demo_selector = [\<lparr>rq_key = ''env'', rq_op = OpIn, rq_values = [''prod'', ''staging'']\<rparr>,
     \<lparr>rq_key = ''beta'', rq_op = OpDoesNotExist, rq_values = []\<rparr>, \<lparr>rq_key = ''tier'', rq_op = OpNotEquals, rq_values = [''debug'']\<rparr>]"

lemma selector_roundtrip_witness:
  "\<exists>e. sel_string demo_selector = Ok e \<and> parse_selector e = Ok demo_selector"
proof -
  have "list_all req_ok demo_selector"
    by (auto simp: demo_selector_def req_ok_def label_word_def label_char_def ascii_space_def)
  then show ?thesis using selector_roundtrip by (simp add: list_all_iff)
qed

text \<open>Matching has the meaning of its grammar: a selector matches exactly when each requirement does, so
  adding a requirement narrows it; and on one label set each negative operator is the exact negation
  of its positive counterpart, absent keys included.\<close>

theorem matching_semantics:
  "(sel_matches (sel_add r s) l \<longleftrightarrow> sel_matches s l \<and> req_holds r l) \<and> sel_matches sel_everything l \<and>
   (req_holds \<lparr>rq_key = k, rq_op = OpNotIn, rq_values = vs\<rparr> l \<longleftrightarrow> \<not> req_holds \<lparr>rq_key = k, rq_op = OpIn, rq_values = vs\<rparr> l) \<and>
   (req_holds \<lparr>rq_key = k, rq_op = OpNotEquals, rq_values = [v]\<rparr> l \<longleftrightarrow> \<not> req_holds \<lparr>rq_key = k, rq_op = OpEquals, rq_values = [v]\<rparr> l) \<and>
   (req_holds \<lparr>rq_key = k, rq_op = OpDoesNotExist, rq_values = []\<rparr> l \<longleftrightarrow> \<not> req_holds \<lparr>rq_key = k, rq_op = OpExists, rq_values = []\<rparr> l) \<and>
   (req_holds \<lparr>rq_key = k, rq_op = OpEquals, rq_values = [v]\<rparr> l \<longleftrightarrow> req_holds \<lparr>rq_key = k, rq_op = OpIn, rq_values = [v]\<rparr> l)"
  by (auto simp: sel_matches_def sel_add_def sel_everything_def req_holds_def split: option.splits)

text \<open>\<open>Nothing\<close> is documented to match no label set; it matches those with its reserved key. The
  printer indexes \<open>Values\<close> unguarded, so a requirement without a value panics it.\<close>

theorem nothing_matches_something:
  "sel_matches sel_nothing [''__nothing__'' \<mapsto> v]" "sel_string [\<lparr>rq_key = k, rq_op = OpEquals, rq_values = []\<rparr>] = Panic"
  by (simp_all add: sel_matches_def sel_nothing_def req_holds_def sel_string_def req_string_def)

end
