(* ===== verification/Rbac_Engine.thy ===== *)
theory Rbac_Engine
  imports Go_Calendar Go_Strings
begin

section \<open>The access-control engine (internal/rbac/engine.go)\<close>

text \<open>
  Roles and bindings, namespaced and cluster-wide, the decision \<open>CanPerform\<close> with its rule and
  condition checks, and the bounded audit log. The code ranges over its maps of bindings in no
  fixed order; the keys in the order visited are an argument. Whether an address lies in a CIDR
  range is package \<open>net\<close>'s answer, the argument \<open>in_cidr\<close>; \<open>None\<close> is a text that does not parse.
  The dynamic value of a condition is \<open>None\<close> when it has not the type its evaluator asks for.
  The hour and minute of a request are read in UTC.
\<close>

subsection \<open>State\<close>

datatype rule_condition =
  IPRestriction "string list option"
| TimeWindow "(string \<times> string) option"
| OtherCondition string

record access_rule =
  pr_verbs :: "string list"
  pr_resources :: "string list"
  pr_conditions :: "rule_condition list"

record subject =
  sj_type :: string
  sj_name :: string
  sj_ns :: string

record role_binding =
  bi_name :: string
  bi_ns :: string
  bi_role :: string
  bi_subjects :: "subject list"

record role =
  rl_name :: string
  rl_ns :: string
  rl_rules :: "access_rule list"

record request_meta =
  rm_ip :: string
  rm_time :: gotime

record audit_entry =
  au_user :: string
  au_action :: string
  au_resource :: string
  au_ns :: string
  au_allowed :: bool
  au_reason :: string

record rbac =
  rb_roles :: "string \<rightharpoonup> role"
  rb_bindings :: "string \<rightharpoonup> role_binding list"
  rb_croles :: "string \<rightharpoonup> role"
  rb_cbindings :: "string \<rightharpoonup> role_binding list"
  rb_audit :: "audit_entry list"

abbreviation max_audit :: nat where "max_audit \<equiv> 10000"

definition new_rbac :: rbac where
  "new_rbac = \<lparr>rb_roles = Map.empty, rb_bindings = Map.empty, rb_croles = Map.empty, rb_cbindings = Map.empty, rb_audit = []\<rparr>"

abbreviation slashed :: "string \<Rightarrow> string \<Rightarrow> string" where
  "slashed ns n \<equiv> ns @ CHR ''/'' # n"

subsection \<open>Conditions\<close>

text \<open>\<open>fmt.Sscanf\<close> with \<open>%d\<close>: leading spaces, a sign, digits; a failure leaves the zero.\<close>

definition scan_int :: "string \<Rightarrow> int" where
  "scan_int s =
     (let t = dropWhile ascii_space s;
          (neg, u) = (case t of c # cs \<Rightarrow> if c = CHR ''-'' then (True, cs) else if c = CHR ''+'' then (False, cs) else (False, t)
                      | [] \<Rightarrow> (False, []));
          ds = takeWhile ascii_digit u;
          v = (if neg then - digits_value ds else digits_value ds)
      in if ds \<noteq> [] \<and> - 9223372036854775808 \<le> v \<and> v \<le> max_i64 \<and> CHR 10 \<notin> set (takeWhile ascii_space s) then v else 0)"

definition minutes_of :: "string \<Rightarrow> int option" where
  "minutes_of s =
     (if CHR '':'' \<in> set s
      then Some (i64 (scan_int (takeWhile (\<lambda>c. c \<noteq> CHR '':'') s) * 60 + scan_int (tl (dropWhile (\<lambda>c. c \<noteq> CHR '':'') s))))
      else None)"

definition time_window :: "gotime \<Rightarrow> (string \<times> string) option \<Rightarrow> bool" where
  "time_window t v =
     (case v of
        None \<Rightarrow> False
      | Some (start, end) \<Rightarrow>
          if start = [] \<or> end = [] then False
          else (case (minutes_of start, minutes_of end) of
            (Some a, Some b) \<Rightarrow>
              let m = t_hour t * 60 + t_minute t in
              if a \<le> b then m \<ge> a \<and> m \<le> b else m \<ge> a \<or> m \<le> b
          | _ \<Rightarrow> False))"

definition ip_restriction :: "(string \<Rightarrow> bool) \<Rightarrow> (string \<Rightarrow> string \<Rightarrow> bool option) \<Rightarrow> string \<Rightarrow> string list option \<Rightarrow> bool" where
  "ip_restriction valid_ip in_cidr ip v =
     (if ip = [] then False
      else case v of
        None \<Rightarrow> False
      | Some cidrs \<Rightarrow> valid_ip ip \<and> list_ex (\<lambda>c. in_cidr (trim_space c) ip = Some True) cidrs)"

definition one_condition :: "(string \<Rightarrow> bool) \<Rightarrow> (string \<Rightarrow> string \<Rightarrow> bool option) \<Rightarrow> request_meta \<Rightarrow> rule_condition \<Rightarrow> bool" where
  "one_condition valid_ip in_cidr m c =
     (case c of
        IPRestriction v \<Rightarrow> ip_restriction valid_ip in_cidr (rm_ip m) v
      | TimeWindow v \<Rightarrow> time_window (rm_time m) v
      | OtherCondition t \<Rightarrow> True)"

definition conditions_hold :: "(string \<Rightarrow> bool) \<Rightarrow> (string \<Rightarrow> string \<Rightarrow> bool option) \<Rightarrow> request_meta option \<Rightarrow> rule_condition list \<Rightarrow> bool" where
  "conditions_hold valid_ip in_cidr meta cs =
     (if cs = [] then True
      else case meta of None \<Rightarrow> False | Some m \<Rightarrow> list_all (one_condition valid_ip in_cidr m) cs)"

subsection \<open>Matching\<close>

definition any_or :: "string list \<Rightarrow> string \<Rightarrow> bool" where
  "any_or vs v = list_ex (\<lambda>w. w = ''*'' \<or> w = v) vs"

definition subject_in :: "subject \<Rightarrow> subject list \<Rightarrow> bool" where
  "subject_in s ss = list_ex (\<lambda>x. sj_type x = sj_type s \<and> sj_name x = sj_name s \<and>
     (if sj_type x = ''ServiceAccount'' then sj_ns x = [] \<or> sj_ns x = sj_ns s else True)) ss"

definition rule_matches :: "(string \<Rightarrow> bool) \<Rightarrow> (string \<Rightarrow> string \<Rightarrow> bool option) \<Rightarrow> request_meta option \<Rightarrow> string \<Rightarrow> string \<Rightarrow> access_rule \<Rightarrow> bool" where
  "rule_matches valid_ip in_cidr meta verb res r \<longleftrightarrow>
     any_or (pr_verbs r) verb \<and> any_or (pr_resources r) res \<and> conditions_hold valid_ip in_cidr meta (pr_conditions r)"

text \<open>The rules of the first binding that gives any.\<close>

fun first_match :: "(role_binding \<Rightarrow> access_rule list) \<Rightarrow> role_binding list \<Rightarrow> access_rule list" where
  "first_match f [] = []"
| "first_match f (b # bs) = (if f b \<noteq> [] then f b else first_match f bs)"

definition listed :: "('k \<rightharpoonup> 'v list) \<Rightarrow> 'k \<Rightarrow> 'v list" where
  "listed m k = (case m k of None \<Rightarrow> [] | Some vs \<Rightarrow> vs)"

definition check_cluster :: "(access_rule \<Rightarrow> bool) \<Rightarrow> subject \<Rightarrow> string list \<Rightarrow> rbac \<Rightarrow> access_rule list" where
  "check_cluster p s keys e =
     first_match (\<lambda>b. if subject_in s (bi_subjects b)
                      then (case rb_croles e (bi_role b) of None \<Rightarrow> [] | Some r \<Rightarrow> filter p (rl_rules r)) else [])
       (concat (map (listed (rb_cbindings e)) keys))"

definition other_namespace :: "string \<Rightarrow> string \<Rightarrow> bool" where
  "other_namespace ns key \<longleftrightarrow> length (split_on CHR ''/'' key) = 2 \<and> split_on CHR ''/'' key ! 0 \<noteq> ns"

definition check_namespaced :: "(access_rule \<Rightarrow> bool) \<Rightarrow> subject \<Rightarrow> string \<Rightarrow> string list \<Rightarrow> rbac \<Rightarrow> access_rule list" where
  "check_namespaced p s ns keys e =
     first_match (\<lambda>b. if subject_in s (bi_subjects b)
                      then (case rb_roles e (slashed (bi_ns b) (bi_role b)) of None \<Rightarrow> [] | Some r \<Rightarrow> filter p (rl_rules r)) else [])
       (concat (map (listed (rb_bindings e)) (filter (\<lambda>k. \<not> other_namespace ns k) keys)))"

definition record_audit :: "audit_entry \<Rightarrow> rbac \<Rightarrow> rbac" where
  "record_audit a e =
     (let l = rb_audit e @ [a] in e\<lparr>rb_audit := (if length l > max_audit then drop (length l - max_audit) l else l)\<rparr>)"

definition can_perform :: "(string \<Rightarrow> bool) \<Rightarrow> (string \<Rightarrow> string \<Rightarrow> bool option) \<Rightarrow> request_meta option \<Rightarrow> string list \<Rightarrow> string list
    \<Rightarrow> string \<Rightarrow> string \<Rightarrow> string \<Rightarrow> string \<Rightarrow> rbac \<Rightarrow> rbac \<times> bool" where
  "can_perform valid_ip in_cidr meta ckeys keys uid res verb ns e =
     (let s = \<lparr>sj_type = ''User'', sj_name = uid, sj_ns = []\<rparr>;
          p = rule_matches valid_ip in_cidr meta verb res;
          ok = check_cluster p s ckeys e \<noteq> [] \<or> (ns \<noteq> [] \<and> check_namespaced p s ns keys e \<noteq> []);
          reason = (if ok then ''allowed by matching rules'' else ''no permissions for '' @ verb @ '' on '' @ res)
      in (record_audit \<lparr>au_user = uid, au_action = verb, au_resource = res, au_ns = ns, au_allowed = ok, au_reason = reason\<rparr> e, ok))"

definition get_audit_log :: "string \<Rightarrow> bool option \<Rightarrow> int \<Rightarrow> rbac \<Rightarrow> audit_entry list" where
  "get_audit_log uid allowed limit e =
     take (nat limit) (filter (\<lambda>a. (uid = [] \<or> au_user a = uid) \<and> (allowed = None \<or> allowed = Some (au_allowed a))) (rev (rb_audit e)))"

subsection \<open>Roles, bindings and quotas\<close>

datatype rb_error = FieldsRequired | AlreadyExists | RbNotFound

definition create_role :: "role \<Rightarrow> rbac \<Rightarrow> rb_error + rbac" where
  "create_role r e =
     (if rl_name r = [] \<or> rl_ns r = [] then Inl FieldsRequired
      else let k = slashed (rl_ns r) (rl_name r) in
        if rb_roles e k \<noteq> None then Inl AlreadyExists else Inr (e\<lparr>rb_roles := (rb_roles e)(k \<mapsto> r)\<rparr>))"

definition create_cluster_role :: "role \<Rightarrow> rbac \<Rightarrow> rb_error + rbac" where
  "create_cluster_role r e =
     (if rl_name r = [] then Inl FieldsRequired
      else if rb_croles e (rl_name r) \<noteq> None then Inl AlreadyExists
      else Inr (e\<lparr>rb_croles := (rb_croles e)(rl_name r \<mapsto> r)\<rparr>))"

definition create_binding :: "role_binding \<Rightarrow> rbac \<Rightarrow> rb_error + rbac" where
  "create_binding b e =
     (if bi_name b = [] \<or> bi_ns b = [] \<or> bi_role b = [] then Inl FieldsRequired
      else let k = slashed (bi_ns b) (bi_name b) in
        Inr (e\<lparr>rb_bindings := (rb_bindings e)(k \<mapsto> listed (rb_bindings e) k @ [b])\<rparr>))"

definition create_cluster_binding :: "role_binding \<Rightarrow> rbac \<Rightarrow> rb_error + rbac" where
  "create_cluster_binding b e =
     (if bi_name b = [] \<or> bi_role b = [] then Inl FieldsRequired
      else Inr (e\<lparr>rb_cbindings := (rb_cbindings e)(bi_name b \<mapsto> listed (rb_cbindings e) (bi_name b) @ [b])\<rparr>))"

text \<open>The clean-up both deletions end with; an entry left empty is deleted.\<close>

definition unbind :: "string \<Rightarrow> (string \<rightharpoonup> role_binding list) \<Rightarrow> string \<rightharpoonup> role_binding list" where
  "unbind n m = (\<lambda>k. case m k of None \<Rightarrow> None
     | Some bs \<Rightarrow> let f = filter (\<lambda>b. bi_role b \<noteq> n) bs in if f = [] then None else Some f)"

definition delete_role :: "string \<Rightarrow> string \<Rightarrow> rbac \<Rightarrow> rb_error + rbac" where
  "delete_role n ns e =
     (if rb_roles e (slashed ns n) = None then Inl RbNotFound
      else Inr (e\<lparr>rb_roles := (rb_roles e)(slashed ns n := None), rb_bindings := unbind n (rb_bindings e)\<rparr>))"

definition delete_cluster_role :: "string \<Rightarrow> rbac \<Rightarrow> rb_error + rbac" where
  "delete_cluster_role n e =
     (if rb_croles e n = None then Inl RbNotFound
      else Inr (e\<lparr>rb_croles := (rb_croles e)(n := None), rb_cbindings := unbind n (rb_cbindings e)\<rparr>))"

definition get_role :: "string \<Rightarrow> string \<Rightarrow> rbac \<Rightarrow> rb_error + role" where
  "get_role n ns e = (case rb_roles e (slashed ns n) of None \<Rightarrow> Inl RbNotFound | Some r \<Rightarrow> Inr r)"

definition get_cluster_role :: "string \<Rightarrow> rbac \<Rightarrow> rb_error + role" where
  "get_cluster_role n e = (case rb_croles e n of None \<Rightarrow> Inl RbNotFound | Some r \<Rightarrow> Inr r)"

definition list_roles :: "string \<Rightarrow> string list \<Rightarrow> rbac \<Rightarrow> role list" where
  "list_roles ns keys e =
     List.map_filter (\<lambda>k. if take (length (slashed ns [])) k = slashed ns [] then rb_roles e k else None) keys"

text \<open>A quota: the largest count per kind, and the counts in use, 64-bit integers.\<close>

record quota =
  qt_ns :: string
  qt_limits :: "string \<rightharpoonup> int"
  qt_used :: "string \<rightharpoonup> int"

type_synonym quotas = "string \<rightharpoonup> quota"

abbreviation used_of :: "quota \<Rightarrow> string \<Rightarrow> int" where
  "used_of q k \<equiv> (case qt_used q k of None \<Rightarrow> 0 | Some n \<Rightarrow> n)"

definition create_quota :: "quota \<Rightarrow> quotas \<Rightarrow> rb_error + quotas" where
  "create_quota q m =
     (if qt_ns q = [] then Inl FieldsRequired
      else if m (qt_ns q) \<noteq> None then Inl AlreadyExists else Inr (m(qt_ns q \<mapsto> q)))"

definition can_allocate :: "string \<Rightarrow> string \<Rightarrow> quotas \<Rightarrow> bool" where
  "can_allocate ns kind m =
     (case m ns of None \<Rightarrow> True
      | Some q \<Rightarrow> (case qt_limits q kind of None \<Rightarrow> True | Some l \<Rightarrow> \<not> used_of q kind \<ge> l))"

definition record_usage :: "string \<Rightarrow> string \<Rightarrow> int \<Rightarrow> quotas \<Rightarrow> rb_error + quotas" where
  "record_usage ns kind n m =
     (case m ns of None \<Rightarrow> Inl RbNotFound
      | Some q \<Rightarrow> Inr (m(ns \<mapsto> q\<lparr>qt_used := (qt_used q)(kind \<mapsto> i64 (used_of q kind + n))\<rparr>)))"

definition get_quota :: "string \<Rightarrow> quotas \<Rightarrow> rb_error + quota" where
  "get_quota ns m = (case m ns of None \<Rightarrow> Inl RbNotFound | Some q \<Rightarrow> Inr q)"

subsection \<open>Steps and the invariant of the keys\<close>

inductive rb_step :: "rbac \<Rightarrow> rbac \<Rightarrow> bool" where
  step_role: "create_role r e = Inr e' \<Longrightarrow> rb_step e e'"
| step_crole: "create_cluster_role r e = Inr e' \<Longrightarrow> rb_step e e'"
| step_binding: "create_binding b e = Inr e' \<Longrightarrow> rb_step e e'"
| step_cbinding: "create_cluster_binding b e = Inr e' \<Longrightarrow> rb_step e e'"
| step_delete: "delete_role n ns e = Inr e' \<Longrightarrow> rb_step e e'"
| step_cdelete: "delete_cluster_role n e = Inr e' \<Longrightarrow> rb_step e e'"
| step_check: "rb_step e (fst (can_perform valid_ip in_cidr meta ckeys keys uid res verb ns e))"

definition keys_match :: "rbac \<Rightarrow> bool" where
  "keys_match e \<longleftrightarrow> (\<forall>k bs b. rb_bindings e k = Some bs \<longrightarrow> b \<in> set bs \<longrightarrow> k = slashed (bi_ns b) (bi_name b))"

definition audit_bounded :: "rbac \<Rightarrow> bool" where
  "audit_bounded e \<longleftrightarrow> length (rb_audit e) \<le> max_audit"

lemmas rb_ops = create_role_def create_cluster_role_def create_binding_def create_cluster_binding_def
  delete_role_def delete_cluster_role_def can_perform_def record_audit_def Let_def

lemma unbind_someD: "unbind n m k = Some bs \<Longrightarrow> \<exists>cs. m k = Some cs \<and> bs = filter (\<lambda>b. bi_role b \<noteq> n) cs"
  by (auto simp: unbind_def Let_def split: option.splits if_splits)

lemma keys_match_unbind: "keys_match e \<Longrightarrow> keys_match (e\<lparr>rb_roles := f, rb_bindings := unbind n (rb_bindings e)\<rparr>)"
  unfolding keys_match_def by (fastforce dest: unbind_someD)

lemma keys_match_binding: "keys_match e \<Longrightarrow> create_binding b e = Inr e' \<Longrightarrow> keys_match e'"
  by (auto simp: keys_match_def create_binding_def Let_def listed_def split: if_splits option.splits)

lemma rb_step_keys: "rb_step e e' \<Longrightarrow> keys_match e \<Longrightarrow> keys_match e'"
proof (induction rule: rb_step.induct)
  case (step_binding b e e') then show ?case by (rule keys_match_binding[rotated])
next
  case (step_delete n ns e e')
  then show ?case by (auto simp: delete_role_def keys_match_unbind split: if_splits)
qed (auto simp: rb_ops keys_match_def split: if_splits)

lemma rb_step_audit: "rb_step e e' \<Longrightarrow> audit_bounded e \<Longrightarrow> audit_bounded e'"
  by (induction rule: rb_step.induct) (auto simp: rb_ops audit_bounded_def split: if_splits)

lemma rb_reachable:
  assumes "rb_step\<^sup>*\<^sup>* new_rbac e"
  shows "keys_match e \<and> audit_bounded e"
  using assms
proof (induction rule: rtranclp_induct)
  case base then show ?case by (simp add: new_rbac_def keys_match_def audit_bounded_def)
next
  case (step e e') then show ?case using rb_step_keys rb_step_audit by blast
qed

subsection \<open>The decision\<close>

text \<open>What a binding grants, read off the tables without their order.\<close>

definition grants :: "(access_rule \<Rightarrow> bool) \<Rightarrow> subject \<Rightarrow> (string \<rightharpoonup> role) \<Rightarrow> string \<Rightarrow> role_binding \<Rightarrow> bool" where
  "grants p s roles k b \<longleftrightarrow> subject_in s (bi_subjects b) \<and> (\<exists>r. roles k = Some r \<and> (\<exists>x \<in> set (rl_rules r). p x))"

definition slash_free :: "rbac \<Rightarrow> bool" where
  "slash_free e \<longleftrightarrow> (\<forall>bs \<in> ran (rb_bindings e). \<forall>b \<in> set bs. CHR ''/'' \<notin> set (bi_name b) \<and> CHR ''/'' \<notin> set (bi_ns b))"

definition cluster_granted :: "(access_rule \<Rightarrow> bool) \<Rightarrow> subject \<Rightarrow> rbac \<Rightarrow> bool" where
  "cluster_granted p s e \<longleftrightarrow> (\<exists>bs \<in> ran (rb_cbindings e). \<exists>b \<in> set bs. grants p s (rb_croles e) (bi_role b) b)"

definition ns_granted :: "(access_rule \<Rightarrow> bool) \<Rightarrow> subject \<Rightarrow> string \<Rightarrow> rbac \<Rightarrow> bool" where
  "ns_granted p s ns e \<longleftrightarrow>
     (\<exists>bs \<in> ran (rb_bindings e). \<exists>b \<in> set bs. bi_ns b = ns \<and> grants p s (rb_roles e) (slashed ns (bi_role b)) b)"

lemma first_match_ne: "first_match f bs \<noteq> [] \<longleftrightarrow> (\<exists>b \<in> set bs. f b \<noteq> [])"
  by (induction bs) auto

lemma binding_rules_ne:
  "(if subject_in s (bi_subjects b) then (case roles k of None \<Rightarrow> [] | Some r \<Rightarrow> filter p (rl_rules r)) else []) \<noteq> []
     \<longleftrightarrow> grants p s roles k b"
  by (auto simp: grants_def filter_empty_conv split: option.split)

lemma in_listed: "b \<in> set (listed m k) \<longleftrightarrow> (\<exists>bs. m k = Some bs \<and> b \<in> set bs)"
  by (cases "m k") (auto simp: listed_def)

lemma listed_ran:
  assumes "set keys = dom m"
  shows "(\<exists>b \<in> set (concat (map (listed m) keys)). P b) \<longleftrightarrow> (\<exists>bs \<in> ran m. \<exists>b \<in> set bs. P b)"
  using assms by (simp add: Bex_def in_listed ran_def dom_def) metis

lemma check_cluster_granted:
  assumes "set keys = dom (rb_cbindings e)"
  shows "check_cluster p s keys e \<noteq> [] \<longleftrightarrow> cluster_granted p s e"
  unfolding check_cluster_def first_match_ne binding_rules_ne cluster_granted_def by (rule listed_ran[OF assms])

lemma other_namespace_slashed:
  assumes "CHR ''/'' \<notin> set n" "CHR ''/'' \<notin> set m"
  shows "other_namespace ns (slashed m n) \<longleftrightarrow> m \<noteq> ns"
  using assms by (simp add: other_namespace_def split_on_append)

lemma visible_bindings:
  assumes "keys_match e" "slash_free e" "set keys = dom (rb_bindings e)"
  shows "b \<in> set (concat (map (listed (rb_bindings e)) (filter (\<lambda>k. \<not> other_namespace ns k) keys)))
     \<longleftrightarrow> (\<exists>bs \<in> ran (rb_bindings e). b \<in> set bs \<and> bi_ns b = ns)"
proof -
  have key: "\<not> other_namespace ns k \<longleftrightarrow> bi_ns b = ns" if "rb_bindings e k = Some bs" "b \<in> set bs" for k bs
  proof -
    have "k = slashed (bi_ns b) (bi_name b)" using assms(1) that by (auto simp: keys_match_def)
    moreover have "CHR ''/'' \<notin> set (bi_name b)" "CHR ''/'' \<notin> set (bi_ns b)"
      using assms(2) that by (auto simp: slash_free_def ran_def)
    ultimately show ?thesis by (simp add: other_namespace_slashed)
  qed
  have "b \<in> set (concat (map (listed (rb_bindings e)) (filter (\<lambda>k. \<not> other_namespace ns k) keys)))
     \<longleftrightarrow> (\<exists>k bs. rb_bindings e k = Some bs \<and> b \<in> set bs \<and> \<not> other_namespace ns k)"
    unfolding set_concat set_map set_filter assms(3) by (auto simp: in_listed dom_def)
  also have "\<dots> \<longleftrightarrow> (\<exists>bs \<in> ran (rb_bindings e). b \<in> set bs \<and> bi_ns b = ns)"
    using key by (auto simp: ran_def)
  finally show ?thesis .
qed

lemma check_namespaced_granted:
  assumes "keys_match e" "slash_free e" "set keys = dom (rb_bindings e)"
  shows "check_namespaced p s ns keys e \<noteq> [] \<longleftrightarrow> ns_granted p s ns e"
  unfolding check_namespaced_def first_match_ne binding_rules_ne ns_granted_def Bex_def visible_bindings[OF assms]
  by (auto simp: grants_def)

text \<open>C30. The decision of the access-control engine. In every state the operations reach, whatever the
  order the binding tables are visited in, a request is allowed exactly when a cluster binding
  of the user names a cluster role with a matching rule, or, for a request in a namespace, a
  binding of that namespace names a role of that namespace with a matching rule: bindings of other
  namespaces do not count. The hypothesis \<open>slash_free\<close> excludes binding names and namespaces with
  a slash, for which this fails (lemma \<open>slash_name_leaks\<close>).
\<close>

theorem rbac_decision_exact:
  assumes "rb_step\<^sup>*\<^sup>* new_rbac e" "slash_free e"
    and "set ckeys = dom (rb_cbindings e)" "set keys = dom (rb_bindings e)"
  shows "snd (can_perform valid_ip in_cidr meta ckeys keys uid res verb ns e) \<longleftrightarrow>
     cluster_granted (rule_matches valid_ip in_cidr meta verb res) \<lparr>sj_type = ''User'', sj_name = uid, sj_ns = []\<rparr> e \<or>
     ns \<noteq> [] \<and> ns_granted (rule_matches valid_ip in_cidr meta verb res) \<lparr>sj_type = ''User'', sj_name = uid, sj_ns = []\<rparr> ns e"
  using rb_reachable[OF assms(1)]
  by (simp add: can_perform_def Let_def check_cluster_granted[OF assms(3)] check_namespaced_granted[OF _ assms(2,4)])

subsection \<open>Examples\<close>

definition ex_role :: role where
  "ex_role = \<lparr>rl_name = ''r'', rl_ns = ''prod'', rl_rules = [\<lparr>pr_verbs = [''get''], pr_resources = [''*''], pr_conditions = []\<rparr>]\<rparr>"

definition ex_binding :: "string \<Rightarrow> role_binding" where
  "ex_binding n = \<lparr>bi_name = n, bi_ns = ''prod'', bi_role = ''r'', bi_subjects = [\<lparr>sj_type = ''User'', sj_name = ''ann'', sj_ns = []\<rparr>]\<rparr>"

definition ex_rbac :: "string \<Rightarrow> rbac" where
  "ex_rbac n = new_rbac\<lparr>rb_roles := [''prod/r'' \<mapsto> ex_role], rb_bindings := [slashed ''prod'' n \<mapsto> [ex_binding n]]\<rparr>"

lemma ex_rbac_reached: "n \<noteq> [] \<Longrightarrow> rb_step\<^sup>*\<^sup>* new_rbac (ex_rbac n)"
proof -
  assume n: "n \<noteq> []"
  have r: "create_role ex_role new_rbac = Inr (new_rbac\<lparr>rb_roles := [''prod/r'' \<mapsto> ex_role]\<rparr>)"
    by (simp add: create_role_def ex_role_def new_rbac_def)
  have b: "create_binding (ex_binding n) (new_rbac\<lparr>rb_roles := [''prod/r'' \<mapsto> ex_role]\<rparr>) = Inr (ex_rbac n)"
    using n by (simp add: create_binding_def ex_binding_def ex_rbac_def new_rbac_def listed_def)
  show ?thesis using step_role[OF r] step_binding[OF b] by (meson r_into_rtranclp rtranclp_trans)
qed

lemma rbac_decision_exact_witness:
  "snd (can_perform (\<lambda>_. True) (\<lambda>_ _. None) None [] [''prod/b''] ''ann'' ''pods'' ''get'' ''prod'' (ex_rbac ''b''))"
proof -
  have "slash_free (ex_rbac ''b'')" by (simp add: slash_free_def ex_rbac_def ex_binding_def new_rbac_def ran_def)
  moreover have "set [] = dom (rb_cbindings (ex_rbac ''b''))" by (simp add: ex_rbac_def new_rbac_def)
  moreover have "set [''prod/b''] = dom (rb_bindings (ex_rbac ''b''))" by (simp add: ex_rbac_def)
  ultimately show ?thesis
    using rbac_decision_exact[of "ex_rbac ''b''" "[]" "[''prod/b'']" "\<lambda>_. True" "\<lambda>_ _. None" None "''ann''" "''pods''" "''get''" "''prod''"]
      ex_rbac_reached[of "''b''"]
    by (simp add: ns_granted_def grants_def ex_rbac_def ex_binding_def ex_role_def ran_def subject_in_def
        rule_matches_def any_or_def conditions_hold_def new_rbac_def)
qed

text \<open>A binding of namespace prod with a slash in its name grants in every namespace.\<close>

lemma slash_name_leaks:
  assumes "ns \<noteq> []"
  shows "snd (can_perform (\<lambda>_. True) (\<lambda>_ _. None) None [] [''prod/a/b''] ''ann'' ''pods'' ''get'' ns (ex_rbac ''a/b''))"
  using assms
  by (simp add: can_perform_def check_namespaced_def other_namespace_def ex_rbac_def ex_binding_def ex_role_def
      subject_in_def rule_matches_def any_or_def conditions_hold_def listed_def Let_def)

text \<open>Deleting a role takes every binding of that role name away, whatever its namespace.\<close>

lemma delete_role_bindings:
  "delete_role n ns e = Inr e' \<Longrightarrow>
     b \<in> set (listed (rb_bindings e') k) \<longleftrightarrow> b \<in> set (listed (rb_bindings e) k) \<and> bi_role b \<noteq> n"
  by (cases "rb_bindings e k") (auto simp: delete_role_def unbind_def listed_def Let_def filter_empty_conv split: if_splits)

text \<open>A condition type that is not known restricts nothing, once the request carries metadata.\<close>

lemma unknown_condition_passes: "conditions_hold valid_ip in_cidr (Some m) [OtherCondition t]"
  by (simp add: conditions_hold_def one_condition_def)

text \<open>The check of a quota reads only what is in use, not what the request adds.\<close>

lemma can_allocate_unlimited: "m ns = None \<Longrightarrow> can_allocate ns kind m"
  by (simp add: can_allocate_def)

text \<open>A time window whose end is before its start runs over midnight.\<close>

lemma time_window_overnight:
  assumes "t_minute t \<ge> 0" "t_minute t < 60"
  shows "time_window t (Some (''22:00'', ''06:00'')) \<longleftrightarrow> t_hour t \<ge> 22 \<or> t_hour t * 60 + t_minute t \<le> 360"
proof -
  have "minutes_of ''22:00'' = Some 1320" "minutes_of ''06:00'' = Some 360" by code_simp+
  then show ?thesis using assms by (auto simp: time_window_def Let_def)
qed

end
