(* ===== verification/Sql_Filter.thy ===== *)
theory Sql_Filter
  imports Go_Strings "HOL-Library.Sublist"
begin

section \<open>The SQL gate (internal/sqlfilter)\<close>

text \<open>
  The read-only gate in front of user-written SQL: parser.go finds the first keyword and counts
  statements, classify.go and blocklist.go are its tables, sqlfilter.go the decision. A query is
  its bytes, in ASCII.
\<close>

subsection \<open>Scanning (parser.go)\<close>

abbreviation quote1 :: char where "quote1 \<equiv> CHR 0x27"
abbreviation quote2 :: char where "quote2 \<equiv> CHR 0x22"
abbreviation backtick :: char where "backtick \<equiv> CHR 0x60"
abbreviation backslash :: char where "backslash \<equiv> CHR 0x5C"
abbreviation newline :: char where "newline \<equiv> CHR 0x0A"

lemma length_trim_space: "length (trim_space s) \<le> length s"
proof -
  have "length (dropWhile ascii_space (rev (dropWhile ascii_space s))) \<le> length (rev (dropWhile ascii_space s))"
    by (rule length_dropWhile_le)
  also have "\<dots> \<le> length s" by (simp add: length_dropWhile_le)
  finally show ?thesis by (simp add: trim_space_def trim_left_def trim_right_def)
qed

text \<open>One comment taken off the front; \<open>None\<close> when the text starts with none.\<close>

definition skip_comment :: "string \<Rightarrow> string option" where
  "skip_comment t =
     (let past = (\<lambda>w. case index_of w t of Some i \<Rightarrow> drop (i + length w) t | None \<Rightarrow> [])
      in if prefix ''--'' t then Some (past [newline])
         else if prefix ''#'' t then Some (past [newline])
         else if prefix ''/*'' t then Some (past ''*/'')
         else None)"

lemma skip_comment_shorter: "skip_comment t = Some u \<Longrightarrow> length u < length t"
  by (auto simp: skip_comment_def Let_def split: if_splits option.splits) (auto simp: prefix_def)

function strip_leading_comments :: "string \<Rightarrow> string" where
  "strip_leading_comments s =
     (let t = trim_space s in
      case skip_comment t of None \<Rightarrow> t | Some u \<Rightarrow> strip_leading_comments u)"
  by auto
termination
proof (relation "measure length")
  fix s t u assume "t = trim_space s" "skip_comment t = Some u"
  then show "(u, s) \<in> measure length" using skip_comment_shorter[of t u] length_trim_space[of s] by simp
qed simp
declare strip_leading_comments.simps [simp del]

lemma length_strip: "length (strip_leading_comments s) \<le> length s"
proof (induction s rule: strip_leading_comments.induct)
  case (1 s)
  show ?case
    using 1[OF refl] skip_comment_shorter[of "trim_space s"] length_trim_space[of s]
    by (subst strip_leading_comments.simps) (fastforce simp: Let_def split: option.split)
qed

function skip_parens :: "string \<Rightarrow> string" where
  "skip_parens r =
     (case r of [] \<Rightarrow> [] | c # cs \<Rightarrow> if c = CHR ''('' then skip_parens (strip_leading_comments (trim_space cs)) else r)"
  by auto
termination
proof (relation "measure length")
  fix r :: string and c cs assume "r = c # cs"
  then show "(strip_leading_comments (trim_space cs), r) \<in> measure length"
    using length_strip[of "trim_space cs"] length_trim_space[of cs] by simp
qed simp
declare skip_parens.simps [simp del]

definition keyword_char :: "char \<Rightarrow> bool" where
  "keyword_char c \<longleftrightarrow> (97 \<le> (of_char c :: nat) \<and> (of_char c :: nat) \<le> 122) \<or> (65 \<le> (of_char c :: nat) \<and> (of_char c :: nat) \<le> 90) \<or> c = CHR ''_''"

definition first_keyword :: "string \<Rightarrow> string" where
  "first_keyword q = to_upper (takeWhile keyword_char (skip_parens (strip_leading_comments (trim_space q))))"

text \<open>
  The three quote flags and the byte before. A quote toggles its flag unless another kind is open
  or, for the first two kinds, a backslash precedes it.
\<close>

record quote_state =
  in_single :: bool
  in_double :: bool
  in_back :: bool
  prev_byte :: char

definition outside :: quote_state where
  "outside = \<lparr>in_single = False, in_double = False, in_back = False, prev_byte = CHR 0x00\<rparr>"

definition toggle :: "char \<Rightarrow> quote_state \<Rightarrow> quote_state" where
  "toggle c st =
     (if c = quote1 \<and> \<not> in_double st \<and> \<not> in_back st \<and> prev_byte st \<noteq> backslash then st\<lparr>in_single := \<not> in_single st\<rparr>
      else if c = quote2 \<and> \<not> in_single st \<and> \<not> in_back st \<and> prev_byte st \<noteq> backslash then st\<lparr>in_double := \<not> in_double st\<rparr>
      else if c = backtick \<and> \<not> in_single st \<and> \<not> in_double st then st\<lparr>in_back := \<not> in_back st\<rparr>
      else st)"

definition quoted :: "quote_state \<Rightarrow> bool" where
  "quoted st \<longleftrightarrow> in_single st \<or> in_double st \<or> in_back st"

definition blank_byte :: "char \<Rightarrow> bool" where
  "blank_byte c \<longleftrightarrow> c \<in> {CHR '' '', CHR 0x09, CHR 0x0A, CHR 0x0D}"

fun count_loop :: "quote_state \<Rightarrow> bool \<Rightarrow> string \<Rightarrow> nat" where
  "count_loop st seen [] = (if seen then 1 else 0)"
| "count_loop st seen (c # cs) =
     (let st1 = toggle c st; st2 = st1\<lparr>prev_byte := c\<rparr> in
      if quoted st1 then count_loop st2 seen cs
      else if c = CHR '';'' then (if seen then 1 else 0) + count_loop st2 False cs
      else count_loop st2 (seen \<or> \<not> blank_byte c) cs)"

definition count_statements :: "string \<Rightarrow> nat" where
  "count_statements q = (if trim_space q = [] then 0 else count_loop outside False q)"

subsection \<open>Tables (classify.go, blocklist.go)\<close>

datatype query_class = ClassRead | ClassWrite | ClassDDL | ClassControl | ClassExec | ClassUnknown

definition read_keywords :: "string list" where
  "read_keywords = [''SELECT'', ''WITH'', ''SHOW'', ''DESCRIBE'', ''DESC'', ''EXPLAIN'', ''TABLE'', ''VALUES'']"

definition write_keywords :: "string list" where
  "write_keywords = [''INSERT'', ''UPDATE'', ''DELETE'', ''REPLACE'', ''UPSERT'', ''MERGE'']"

definition ddl_keywords :: "string list" where
  "ddl_keywords = [''CREATE'', ''ALTER'', ''DROP'', ''TRUNCATE'', ''RENAME'', ''COMMENT'']"

definition control_keywords :: "string list" where
  "control_keywords = [''BEGIN'', ''START'', ''COMMIT'', ''ROLLBACK'', ''SAVEPOINT'', ''RELEASE'', ''GRANT'', ''REVOKE'',
     ''SET'', ''USE'', ''LOCK'', ''UNLOCK'']"

definition exec_keywords :: "string list" where
  "exec_keywords = [''CALL'', ''EXEC'', ''EXECUTE'', ''DO'']"

definition classify :: "string \<Rightarrow> query_class" where
  "classify keyword =
     (let kw = to_upper (trim_space keyword) in
      if kw = [] then ClassUnknown
      else if kw \<in> set read_keywords then ClassRead
      else if kw \<in> set write_keywords then ClassWrite
      else if kw \<in> set ddl_keywords then ClassDDL
      else if kw \<in> set control_keywords then ClassControl
      else if kw \<in> set exec_keywords then ClassExec
      else ClassUnknown)"

definition common_blocklist :: "string list" where
  "common_blocklist = ['' UPDATE '', '' DELETE '', '' DROP '', '' ALTER '', '' TRUNCATE '', '' CREATE '', '' REPLACE '', '' MERGE '',
     '' GRANT '', '' REVOKE '', '' CALL '', '' EXEC '', '' EXECUTE '', '' UPSERT '', '' DO '', '' SET '', '' USE '']"

definition strict_blocklist :: "string list" where
  "strict_blocklist = ['' FOR UPDATE '', '' LOCK IN SHARE MODE '', '' INTO OUTFILE '', '' INTO DUMPFILE '', '' LOAD DATA '', '' COPY '']"

definition contains_blocked :: "string \<Rightarrow> string \<Rightarrow> bool" where
  "contains_blocked q mode =
     (let padded = '' '' @ to_upper (join_with '' '' (fields_of q)) @ '' '' in
      list_ex (contains padded) common_blocklist \<or> (mode = ''strict'' \<and> list_ex (contains padded) strict_blocklist))"

definition legacy_read_only :: "string \<Rightarrow> bool" where
  "legacy_read_only q =
     (let upper = to_upper (trim_space q) in
      upper \<noteq> [] \<and> list_ex (\<lambda>p. prefix p upper) [''SELECT'', ''WITH'', ''SHOW'', ''DESCRIBE'', ''DESC'', ''EXPLAIN''])"

subsection \<open>The decision (sqlfilter.go)\<close>

record sql_filter =
  sf_mode :: string

definition new_filter :: "string \<Rightarrow> sql_filter" where
  "new_filter mode = \<lparr>sf_mode = (if mode = [] then ''compat'' else mode)\<rparr>"

definition is_read_only :: "sql_filter \<Rightarrow> string \<Rightarrow> bool" where
  "is_read_only f query =
     (let trimmed = trim_space query in
      if trimmed = [] then False
      else if count_statements trimmed > 1 then False
      else let cl = classify (first_keyword trimmed) in
        if cl \<in> {ClassWrite, ClassDDL, ClassControl, ClassExec} then False
        else if cl = ClassUnknown \<and> sf_mode f = ''strict'' then False
        else if contains_blocked trimmed (sf_mode f) then False
        else if cl = ClassUnknown then legacy_read_only trimmed
        else cl = ClassRead)"

datatype sql_warning = TimeBased | UnionSelect | FileWrite | SchemaIntrospection | SystemVariable

definition detect_warnings :: "string \<Rightarrow> sql_warning list" where
  "detect_warnings query =
     (let upper = to_upper query in
      (if contains upper ''SLEEP('' \<or> contains upper ''BENCHMARK('' then [TimeBased] else []) @
      (if contains upper ''UNION'' \<and> contains upper ''SELECT'' then [UnionSelect] else []) @
      (if contains upper ''INTO OUTFILE'' \<or> contains upper ''INTO DUMPFILE'' then [FileWrite] else []) @
      (if contains upper ''INFORMATION_SCHEMA'' then [SchemaIntrospection] else []) @
      (if contains upper ''@@'' \<or> contains upper ''SYSTEM_USER'' then [SystemVariable] else []))"

datatype validation_error = EmptyQuery | MultipleStatements

record validation_result =
  vr_valid :: bool
  vr_read_only :: bool
  vr_class :: "query_class option"
  vr_keyword :: string
  vr_error :: "validation_error option"
  vr_warnings :: "sql_warning list"
  vr_statements :: nat

text \<open>\<open>vr_class\<close> is \<open>None\<close> where the code leaves the empty string.\<close>

definition validate :: "sql_filter \<Rightarrow> string \<Rightarrow> validation_result" where
  "validate f query =
     (let trimmed = trim_space query;
          r0 = \<lparr>vr_valid = False, vr_read_only = False, vr_class = None, vr_keyword = [], vr_error = None, vr_warnings = [], vr_statements = 0\<rparr>
      in if trimmed = [] then r0\<lparr>vr_error := Some EmptyQuery\<rparr>
         else let n = count_statements trimmed; r1 = r0\<lparr>vr_statements := n\<rparr> in
           if n > 1 then r1\<lparr>vr_error := Some MultipleStatements\<rparr>
           else let k = first_keyword trimmed in
             r1\<lparr>vr_keyword := k, vr_class := Some (classify k), vr_read_only := is_read_only f trimmed,
                vr_valid := True, vr_warnings := detect_warnings trimmed\<rparr>)"

subsection \<open>Blocked phrases as runs of words\<close>

lemma index_of_None: "index_of w s = None \<longleftrightarrow> \<not> sublist w s"
  by (induction s) (auto simp: sublist_Cons_right)

lemma contains_sublist: "contains s w \<longleftrightarrow> sublist w s"
  by (simp add: contains_def index_of_None del: not_None_eq)

lemma split_on_mid: "split_on c (x @ c # y) = split_on c x @ split_on c y"
proof (induction x)
  case (Cons a x)
  obtain w ws where "split_on c x = w # ws" using split_on_ne by (cases "split_on c x") auto
  then show ?case using Cons by auto
qed simp

text \<open>Words between single spaces.\<close>

definition padded_words :: "string list \<Rightarrow> string" where
  "padded_words ws = concat (map (\<lambda>w. w @ [CHR '' '']) ws)"

lemma padded_join: "ws \<noteq> [] \<Longrightarrow> join_with '' '' ws @ '' '' = padded_words ws"
  by (induction ws rule: induct_list012) (auto simp: padded_words_def)

lemma split_padded: "\<forall>w \<in> set ws. CHR '' '' \<notin> set w \<Longrightarrow> split_on (CHR '' '') (padded_words ws @ s) = ws @ split_on (CHR '' '') s"
  by (induction ws) (auto simp: padded_words_def split_on_append)

lemma sublist_padded:
  assumes v: "\<forall>w \<in> set vs. CHR '' '' \<notin> set w" and w: "\<forall>w \<in> set ws. CHR '' '' \<notin> set w"
  shows "sublist (CHR '' '' # padded_words vs) (CHR '' '' # padded_words ws) \<longleftrightarrow> sublist vs ws"
proof
  assume "sublist (CHR '' '' # padded_words vs) (CHR '' '' # padded_words ws)"
  then obtain p s where eq: "CHR '' '' # padded_words ws = p @ (CHR '' '' # padded_words vs) @ s" by (auto simp: sublist_def)
  have "split_on (CHR '' '') (CHR '' '' # padded_words ws) = [] # ws @ [[]]"
    using split_padded[OF w, of "[]"] by simp
  moreover have "split_on (CHR '' '') (p @ (CHR '' '' # padded_words vs) @ s) = split_on (CHR '' '') p @ vs @ split_on (CHR '' '') s"
    using split_padded[OF v] by (simp add: split_on_mid)
  ultimately have "[] # ws @ [[]] = split_on (CHR '' '') p @ vs @ split_on (CHR '' '') s" using eq by simp
  moreover obtain h t where "split_on (CHR '' '') p = h # t" using split_on_ne by (cases "split_on (CHR '' '') p") auto
  ultimately have "ws @ [[]] = t @ vs @ split_on (CHR '' '') s" by simp
  then have "butlast (ws @ [[]]) = butlast ((t @ vs) @ split_on (CHR '' '') s)" by simp
  then have "ws = t @ vs @ butlast (split_on (CHR '' '') s)" by (simp add: butlast_append)
  then show "sublist vs ws" by (auto simp: sublist_def)
next
  assume "sublist vs ws"
  then obtain a b where "ws = a @ vs @ b" by (auto simp: sublist_def)
  moreover have "\<exists>p. CHR '' '' # padded_words a = p @ '' ''" by (induction a rule: rev_induct) (auto simp: padded_words_def)
  ultimately obtain p where "CHR '' '' # padded_words ws = p @ (CHR '' '' # padded_words vs) @ padded_words b"
    by (auto simp: padded_words_def)
  then show "sublist (CHR '' '' # padded_words vs) (CHR '' '' # padded_words ws)" by (simp only: sublist_appendI)
qed

lemma fields_acc_no_space:
  "\<forall>c \<in> set a. \<not> ascii_space c \<Longrightarrow> w \<in> set (fields_acc a s) \<Longrightarrow> c \<in> set w \<Longrightarrow> \<not> ascii_space c"
proof (induction a s rule: fields_acc.induct)
  case (1 a) then show ?case by (auto split: if_splits)
next
  case (2 a x xs) then show ?case by (auto split: if_splits)
qed

lemma space_upper [simp]: "ascii_space (upper_char c) = ascii_space c"
  by (auto simp: ascii_space_def upper_char_def of_char_of take_bit_eq_mod)

lemma fields_upper: "fields_acc (to_upper w) (to_upper s) = map to_upper (fields_acc w s)"
proof (induction w s rule: fields_acc.induct)
  case (2 w x xs)
  then show ?case by (simp add: to_upper_def)
qed (simp add: to_upper_def)

lemma fields_of_upper: "fields_of (to_upper s) = map to_upper (fields_of s)"
  using fields_upper[of "[]" s] by (simp add: fields_of_def to_upper_def)

lemma fields_of_no_blank: "w \<in> set (fields_of s) \<Longrightarrow> CHR '' '' \<notin> set w"
  using fields_acc_no_space[of "[]" w s "CHR '' ''"] by (auto simp: fields_of_def ascii_space_def)

lemma fields_spaces: "\<forall>c \<in> set s. ascii_space c \<Longrightarrow> fields_acc w s = (if w = [] then [] else [w])"
  by (induction s arbitrary: w) auto

lemma fields_right: "\<forall>c \<in> set r. ascii_space c \<Longrightarrow> fields_acc w (s @ r) = fields_acc w s"
  by (induction w s rule: fields_acc.induct) (auto simp: fields_spaces)

lemma fields_left: "fields_acc [] (dropWhile ascii_space s) = fields_acc [] s"
  by (induction s) auto

lemma fields_of_trim [simp]: "fields_of (trim_space s) = fields_of s"
proof -
  define t where "t = trim_left s"
  have "t = trim_right t @ rev (takeWhile ascii_space (rev t))"
    unfolding trim_right_def by (metis rev_append rev_rev_ident takeWhile_dropWhile_id)
  moreover have "\<forall>c \<in> set (rev (takeWhile ascii_space (rev t))). ascii_space c" using set_takeWhileD by fastforce
  ultimately have "fields_acc [] t = fields_acc [] (trim_right t)" by (metis fields_right)
  then show ?thesis by (simp add: fields_of_def trim_space_def t_def trim_left_def fields_left)
qed

lemma fields_acc_ne: "w \<noteq> [] \<or> (\<exists>c \<in> set s. \<not> ascii_space c) \<Longrightarrow> fields_acc w s \<noteq> []"
  by (induction w s rule: fields_acc.induct) auto

lemma fields_of_ne:
  assumes "trim_space s \<noteq> []"
  shows "fields_of s \<noteq> []"
proof -
  have "\<exists>c \<in> set s. \<not> ascii_space c"
  proof (rule ccontr)
    assume "\<not> ?thesis"
    then have "trim_left s = []" by (simp add: trim_left_def)
    then show False using assms by (simp add: trim_space_def trim_right_def)
  qed
  then show ?thesis by (simp add: fields_of_def fields_acc_ne)
qed

lemma upper_join: "to_upper (join_with '' '' ws) = join_with '' '' (map to_upper ws)"
  by (induction ws rule: induct_list012) (auto simp: to_upper_def upper_char_def)

text \<open>The phrases a mode blocks.\<close>

definition blocked_phrases :: "string \<Rightarrow> string list" where
  "blocked_phrases mode = common_blocklist @ (if mode = ''strict'' then strict_blocklist else [])"

lemma blocklist_padded: "list_all (\<lambda>b. b = CHR '' '' # padded_words (fields_of b)) (common_blocklist @ strict_blocklist)"
  by code_simp

lemma contains_blocked_phrase:
  assumes "fields_of q \<noteq> []"
  shows "contains_blocked q mode \<longleftrightarrow> (\<exists>b \<in> set (blocked_phrases mode). sublist (fields_of b) (fields_of (to_upper q)))"
proof -
  define ws where "ws = fields_of (to_upper q)"
  have ne: "ws \<noteq> []" using assms by (simp add: ws_def fields_of_upper)
  have "'' '' @ to_upper (join_with '' '' (fields_of q)) @ '' '' = CHR '' '' # padded_words ws"
    using padded_join[OF ne] by (simp add: upper_join ws_def fields_of_upper)
  moreover have "sublist b (CHR '' '' # padded_words ws) \<longleftrightarrow> sublist (fields_of b) ws"
    if "b \<in> set (common_blocklist @ strict_blocklist)" for b
  proof -
    have "b = CHR '' '' # padded_words (fields_of b)" using blocklist_padded that unfolding list_all_iff by blast
    then show ?thesis using sublist_padded[of "fields_of b" ws] fields_of_no_blank unfolding ws_def by metis
  qed
  ultimately show ?thesis
    by (auto simp: contains_blocked_def Let_def contains_sublist blocked_phrases_def list_ex_iff ws_def)
qed



subsection \<open>Counting statements\<close>

definition visible :: "string \<Rightarrow> bool" where
  "visible s \<longleftrightarrow> (\<exists>c \<in> set s. \<not> blank_byte c)"

lemma visible_simps [simp]: "\<not> visible []" "visible (c # s) \<longleftrightarrow> \<not> blank_byte c \<or> visible s"
  by (auto simp: visible_def)

lemma count_loop_plain:
  assumes "\<forall>c \<in> set cs. c \<noteq> quote1 \<and> c \<noteq> quote2 \<and> c \<noteq> backtick" "\<not> quoted st"
  shows "count_loop st seen cs =
     (if seen \<or> visible (hd (split_on CHR '';'' cs)) then 1 else 0) + length (filter visible (tl (split_on CHR '';'' cs)))"
  using assms
proof (induction cs arbitrary: st seen)
  case Nil then show ?case by simp
next
  case (Cons c cs)
  have t: "toggle c st = st" using Cons.prems(1) by (simp add: toggle_def)
  obtain w ws where w: "split_on CHR '';'' cs = w # ws" using split_on_ne by (cases "split_on CHR '';'' cs") auto
  have "\<not> quoted (st\<lparr>prev_byte := c\<rparr>)" using Cons.prems(2) by (simp add: quoted_def)
  then have "count_loop (st\<lparr>prev_byte := c\<rparr>) sn cs = (if sn \<or> visible w then 1 else 0) + length (filter visible ws)" for sn
    using Cons.IH[of "st\<lparr>prev_byte := c\<rparr>" sn] Cons.prems(1) w by simp
  then show ?case using t w Cons.prems(2) by (auto simp: Let_def)
qed

text \<open>Without quotes, the count is the number of pieces between semicolons that are not blank.\<close>

lemma count_statements_plain:
  assumes "\<forall>c \<in> set q. c \<noteq> quote1 \<and> c \<noteq> quote2 \<and> c \<noteq> backtick" "trim_space q \<noteq> []"
  shows "count_statements q = length (filter visible (split_on CHR '';'' q))"
proof -
  obtain w ws where "split_on CHR '';'' q = w # ws" using split_on_ne by (cases "split_on CHR '';'' q") auto
  then show ?thesis using assms count_loop_plain[of q outside False]
    by (simp add: count_statements_def outside_def quoted_def)
qed

subsection \<open>What passes the gate\<close>

text \<open>
  INSERT is on no block list, so a WITH clause carries one through; so does a DELETE with a
  parenthesis in front of it.
\<close>

lemma cte_insert_is_read_only:
  "is_read_only (new_filter ''strict'') ''WITH a AS (SELECT 1) INSERT INTO t SELECT * FROM a''"
  by code_simp

lemma cte_delete_is_read_only:
  "is_read_only (new_filter ''strict'') ''WITH a AS (DELETE FROM t RETURNING *) SELECT * FROM a''"
  by code_simp

text \<open>The text \<open>/*/\<close> is taken for a whole comment; a server reads on to the next \<open>*/\<close>.\<close>

lemma short_comment_is_read_only:
  "is_read_only (new_filter ''strict'') ''/*/ SELECT */ INSERT INTO t VALUES (1)''"
  by code_simp

text \<open>A literal that ends in an escaped backslash is not seen to end, and hides a second statement.\<close>

lemma escaped_backslash_hides_statement:
  "count_statements (''SELECT '' @ [quote1, backslash, backslash, quote1] @ ''; INSERT INTO t VALUES (1)'') = 1"
  by code_simp

text \<open>Outside strict mode a word that only starts like a read keyword passes.\<close>

lemma compat_prefix_is_read_only: "is_read_only (new_filter []) ''WITHDRAW 5''"
  by code_simp

end
