(* ===== verification/Sql_Sanitize.thy ===== *)
theory Sql_Sanitize
  imports Sql_Filter
begin

section \<open>Escaping, cleaning and normalising SQL (internal/sqlfilter)\<close>

text \<open>
  sanitize.go escapes values and identifiers and cleans a query; normalize.go strips comments and
  replaces literals by placeholders. A query is its bytes, in ASCII.
\<close>

subsection \<open>Escaping (sanitize.go)\<close>

datatype dialect = MySQL | PostgreSQL | MariaDB | Oracle | Percona | Generic

definition escape_char :: "char \<Rightarrow> string" where
  "escape_char c =
     (if c = quote1 then [quote1, quote1]
      else if c = backslash then [backslash, backslash]
      else if c = CHR 0x00 then []
      else [c])"

definition escape_string :: "string \<Rightarrow> string" where
  "escape_string v = [quote1] @ concat (map escape_char v) @ [quote1]"

definition ascii_letter :: "char \<Rightarrow> bool" where
  "ascii_letter c \<longleftrightarrow> (97 \<le> (of_char c :: nat) \<and> (of_char c :: nat) \<le> 122) \<or> (65 \<le> (of_char c :: nat) \<and> (of_char c :: nat) \<le> 90)"

definition trim_set :: "char set \<Rightarrow> string \<Rightarrow> string" where
  "trim_set ks s = rev (dropWhile (\<lambda>c. c \<in> ks) (rev (dropWhile (\<lambda>c. c \<in> ks) s)))"

definition identifier_quote :: "dialect \<Rightarrow> char" where
  "identifier_quote d = (if d \<in> {MySQL, MariaDB, Percona} then backtick else quote2)"

definition escape_identifier :: "string \<Rightarrow> dialect \<Rightarrow> string" where
  "escape_identifier name d =
     (let clean = filter (\<lambda>r. ascii_letter r \<or> ascii_digit r \<or> r = CHR ''_'' \<or> r = CHR ''.'')
                    (trim_set {backtick, quote2, CHR ''['', CHR '']''} name);
          q = identifier_quote d
      in [q] @ concat (map (\<lambda>c. if c = q then [q, q] else [c]) clean) @ [q])"

subsection \<open>Cleaning (sanitize.go)\<close>

text \<open>
  Each version comment is replaced by its content without the leading version number. The second
  result is the number of comments expanded. The end of the comment lies past its three opening
  bytes (\<open>version_end\<close>), so the slice expression of the code is in range.
\<close>

lemma version_end:
  assumes "index_of ''/*!'' s = Some i" "index_of ''*/'' (drop i s) = Some e"
  shows "3 \<le> e"
proof -
  obtain r where r: "drop i s = ''/*!'' @ r" using index_of_prefix[OF assms(1)] by (auto simp: prefix_def)
  then show ?thesis using assms(2) by (auto split: if_splits)
qed

function expand_versions :: "string \<Rightarrow> string \<times> nat" where
  "expand_versions s =
     (case index_of ''/*!'' s of None \<Rightarrow> (s, 0)
      | Some start \<Rightarrow>
          (case index_of ''*/'' (drop start s) of None \<Rightarrow> (s, 0)
           | Some e \<Rightarrow>
               let content = dropWhile ascii_digit (take (e - 3) (drop (start + 3) s));
                   (t, n) = expand_versions (take start s @ '' '' @ trim_space content @ '' '' @ drop (start + e + 2) s)
               in (t, Suc n)))"
  by auto
termination
proof (relation "measure length")
  fix s content :: string and i e
  assume a: "index_of ''/*!'' s = Some i" "index_of ''*/'' (drop i s) = Some e"
    and c: "content = dropWhile ascii_digit (take (e - 3) (drop (i + 3) s))"
  have "length (trim_space content) \<le> length content" by (rule length_trim_space)
  also have "\<dots> \<le> e - 3" unfolding c by (rule order_trans[OF length_dropWhile_le]) simp
  finally show "(take i s @ '' '' @ trim_space content @ '' '' @ drop (i + e + 2) s, s) \<in> measure length"
    using version_end[OF a] index_of_le[OF a(2)] index_of_le[OF a(1)] by simp
qed simp
declare expand_versions.simps [simp del]

fun collapse_loop :: "bool \<Rightarrow> string \<Rightarrow> string" where
  "collapse_loop p [] = []"
| "collapse_loop p (c # cs) =
     (if ascii_space c then (if p then collapse_loop True cs else CHR '' '' # collapse_loop True cs)
      else c # collapse_loop False cs)"

definition collapse_whitespace :: "string \<Rightarrow> string" where
  "collapse_whitespace s = collapse_loop False s"

text \<open>This scan knows only two kinds of quotes.\<close>

fun find_end_loop :: "bool \<Rightarrow> bool \<Rightarrow> char \<Rightarrow> string \<Rightarrow> nat option" where
  "find_end_loop s d p [] = None"
| "find_end_loop s d p (c # cs) =
     (let s1 = (if c = quote1 \<and> \<not> d \<and> p \<noteq> backslash then \<not> s else s);
          d1 = (if c = quote2 \<and> \<not> s1 \<and> p \<noteq> backslash then \<not> d else d)
      in if \<not> s1 \<and> \<not> d1 \<and> c = CHR '';'' then Some 0 else map_option Suc (find_end_loop s1 d1 c cs))"

definition find_first_statement_end :: "string \<Rightarrow> nat option" where
  "find_first_statement_end q = find_end_loop False False (CHR 0x00) q"

datatype sql_change = NullBytes | InlineComments | VersionComment | TrailingSemicolons | StackedQueries

record sanitize_result =
  sr_original :: string
  sr_sanitized :: string
  sr_changes :: "sql_change list"
  sr_safe :: bool

definition trim_semicolons :: "string \<Rightarrow> string" where
  "trim_semicolons s = rev (dropWhile (\<lambda>c. c = CHR '';'') (rev s))"

text \<open>The query before the check for stacked statements, with the changes made and whether it is still safe.\<close>

definition cleaned :: "string \<Rightarrow> string \<times> sql_change list \<times> bool" where
  "cleaned q =
     (let (s1, c1) = (if CHR 0x00 \<in> set q then (filter (\<lambda>c. c \<noteq> CHR 0x00) q, [NullBytes]) else (q, []));
          (s2, c2, f2) = (if contains s1 ''/**/'' then (replace_all ''/**/'' '' '' s1, c1 @ [InlineComments], False) else (s1, c1, True));
          (s3, n) = expand_versions s2;
          s4 = collapse_whitespace s3;
          t = trim_semicolons (trim_space s4);
          (s5, c5) = (if t \<noteq> trim_space s4 then (t, [TrailingSemicolons]) else (s4, []))
      in (s5, c2 @ replicate n VersionComment @ c5, f2 \<and> n = 0))"

definition sanitize :: "string \<Rightarrow> sanitize_result" where
  "sanitize q =
     (let (s, cs, f) = cleaned q;
          (s', cs', f') =
            (if count_statements s > 1 then
               (case find_first_statement_end s of
                  None \<Rightarrow> (s, cs, f)
                | Some n \<Rightarrow> if n > 0 then (trim_space (take n s), cs @ [StackedQueries], False) else (s, cs, f))
             else (s, cs, f))
      in \<lparr>sr_original = q, sr_sanitized = trim_space s', sr_changes = cs', sr_safe = f'\<rparr>)"

subsection \<open>Normalising (normalize.go)\<close>

text \<open>The argument \<open>p\<close> is the byte before the current one.\<close>

function strip_loop :: "bool \<Rightarrow> bool \<Rightarrow> char \<Rightarrow> string \<Rightarrow> string" where
  "strip_loop s d p [] = []"
| "strip_loop s d p (c # cs) =
     (if c = quote1 \<and> \<not> d \<and> p \<noteq> backslash then c # strip_loop (\<not> s) d c cs
      else if c = quote2 \<and> \<not> s \<and> p \<noteq> backslash then c # strip_loop s (\<not> d) c cs
      else if s \<or> d then c # strip_loop s d c cs
      else if prefix ''/*'' (c # cs) then
        (case index_of ''*/'' (drop 2 (c # cs)) of None \<Rightarrow> []
         | Some e \<Rightarrow> CHR '' '' # strip_loop s d (CHR ''/'') (drop (e + 4) (c # cs)))
      else if prefix ''--'' (c # cs) \<or> c = CHR ''#'' then
        (case index_of [newline] (c # cs) of None \<Rightarrow> []
         | Some e \<Rightarrow> CHR '' '' # strip_loop s d newline (drop (e + 1) (c # cs)))
      else c # strip_loop s d c cs)"
  by pat_completeness auto
termination by (relation "measure (\<lambda>(s, d, p, q). length q)") (simp_all del: index_of.simps)
declare strip_loop.simps [simp del]

definition strip_all_comments :: "string \<Rightarrow> string" where
  "strip_all_comments q = strip_loop False False (CHR 0x00) q"

text \<open>What is left behind a literal whose opening quote has been read.\<close>

fun skip_literal :: "string \<Rightarrow> string" where
  "skip_literal [] = []"
| "skip_literal (c # cs) =
     (if c = quote1 then (case cs of [] \<Rightarrow> [] | x # xs \<Rightarrow> if x = quote1 then skip_literal xs else cs)
      else if c = backslash then (case cs of [] \<Rightarrow> [] | x # xs \<Rightarrow> skip_literal xs)
      else skip_literal cs)"

definition ident_char :: "char \<Rightarrow> bool" where
  "ident_char c \<longleftrightarrow> ascii_letter c \<or> c = CHR ''_'' \<or> ascii_digit c"

definition number_char :: "char \<Rightarrow> bool" where
  "number_char c \<longleftrightarrow> ascii_digit c \<or> c \<in> {CHR ''.'', CHR ''e'', CHR ''E'', CHR ''+'', CHR ''-''}"

definition number_start :: "string \<Rightarrow> bool" where
  "number_start q = (case q of [] \<Rightarrow> False | c # cs \<Rightarrow> ascii_digit c \<or> (c = CHR ''.'' \<and> cs \<noteq> [] \<and> ascii_digit (hd cs)))"

lemma skip_literal_shorter: "length (skip_literal s) \<le> length s"
proof (induction s rule: skip_literal.induct)
  case (2 c cs)
  then show ?case by (cases cs) (simp_all add: le_SucI)
qed simp

function param_loop :: "char \<Rightarrow> string \<Rightarrow> string" where
  "param_loop p [] = []"
| "param_loop p (c # cs) =
     (if c = quote1 then CHR ''?'' # param_loop quote1 (skip_literal cs)
      else if number_start (c # cs) then
        (if ident_char p then c # param_loop c cs
         else CHR ''?'' # param_loop (last (takeWhile number_char (c # cs))) (dropWhile number_char (c # cs)))
      else c # param_loop c cs)"
  by pat_completeness auto
termination
proof (relation "measure (\<lambda>(p, q). length q)")
  fix p c :: char and cs :: string
  assume "number_start (c # cs)"
  then have "number_char c" by (auto simp: number_start_def number_char_def)
  then show "((last (takeWhile number_char (c # cs)), dropWhile number_char (c # cs)), p, c # cs) \<in> measure (\<lambda>(p, q). length q)"
    using length_dropWhile_le[of number_char cs] by simp
qed (auto simp: skip_literal_shorter le_imp_less_Suc)
declare param_loop.simps [simp del]

text \<open>The byte before the first is taken as zero, which is no identifier byte.\<close>

definition parameterize :: "string \<Rightarrow> string" where
  "parameterize q = param_loop (CHR 0x00) q"

definition fingerprint :: "string \<Rightarrow> string" where
  "fingerprint q = parameterize (to_upper q)"

record normalize_result =
  nr_original :: string
  nr_normalized :: string
  nr_fingerprint :: string
  nr_parameterized :: string

definition normalize :: "string \<Rightarrow> normalize_result" where
  "normalize q =
     (let c = trim_space (collapse_whitespace (strip_all_comments q))
      in \<lparr>nr_original = q, nr_normalized = c, nr_fingerprint = fingerprint c, nr_parameterized = parameterize c\<rparr>)"

subsection \<open>Escaped values\<close>

text \<open>The literal scanner reads an escaped value as exactly one literal.\<close>

lemma skip_escaped:
  assumes "\<not> prefix [quote1] rest"
  shows "skip_literal (concat (map escape_char v) @ quote1 # rest) = rest"
proof (induction v)
  case Nil then show ?case using assms by (cases rest) auto
next
  case (Cons c v)
  then show ?case by (simp add: escape_char_def)
qed

lemma param_escaped:
  assumes "\<not> prefix [quote1] rest"
  shows "param_loop p (escape_string v @ rest) = CHR ''?'' # param_loop quote1 rest"
  using skip_escaped[OF assms] by (simp add: escape_string_def param_loop.simps)

lemma number_start_quote: "c \<noteq> quote1 \<Longrightarrow> number_start (c # cs @ quote1 # x) = number_start (c # cs)"
  by (cases cs) (auto simp: number_start_def ascii_digit_def)

lemma dropWhile_quote: "dropWhile number_char (s @ quote1 # x) = dropWhile number_char s @ quote1 # x"
  by (induction s) (auto simp: number_char_def ascii_digit_def)

lemma takeWhile_quote: "takeWhile number_char (s @ quote1 # x) = takeWhile number_char s"
  by (induction s) (auto simp: number_char_def ascii_digit_def)

text \<open>Text without single quotes in front of two literals that scan alike.\<close>

lemma param_context:
  assumes same: "\<And>p. param_loop p (quote1 # x) = param_loop p (quote1 # y)" and "quote1 \<notin> set pre"
  shows "param_loop p (pre @ quote1 # x) = param_loop p (pre @ quote1 # y)"
  using assms(2)
proof (induction "length pre" arbitrary: pre p rule: less_induct)
  case less
  show ?case
  proof (cases pre)
    case Nil then show ?thesis using same by simp
  next
    case (Cons c cs)
    have c: "c \<noteq> quote1" and cs: "quote1 \<notin> set cs" using less.prems Cons by auto
    have step: "param_loop c (cs @ quote1 # x) = param_loop c (cs @ quote1 # y)" using less.hyps[of cs c] Cons cs by simp
    show ?thesis
    proof (cases "number_start (c # cs) \<and> \<not> ident_char p")
      case True
      then have n: "number_char c" by (auto simp: number_start_def number_char_def)
      define d where "d = dropWhile number_char cs"
      have "length d < length pre" unfolding d_def Cons using length_dropWhile_le[of number_char cs] by simp
      moreover have "quote1 \<notin> set d" using cs set_dropWhileD[of quote1 number_char cs] by (auto simp: d_def)
      ultimately have "param_loop q (d @ quote1 # x) = param_loop q (d @ quote1 # y)" for q by (rule less.hyps)
      then show ?thesis
        using True n c by (simp add: Cons param_loop.simps number_start_quote dropWhile_quote takeWhile_quote d_def)
    next
      case False
      then show ?thesis using step c by (auto simp: Cons param_loop.simps number_start_quote)
    qed
  qed
qed

lemma upper_fixed:
  assumes "(of_char k :: nat) < 65 \<or> 90 < (of_char k :: nat) \<and> upper_char k = k"
  shows "upper_char c = k \<longleftrightarrow> c = k"
proof (cases "97 \<le> (of_char c :: nat) \<and> (of_char c :: nat) \<le> 122")
  case True
  then have "(of_char c :: nat) - 32 < 256" by linarith
  then have "(of_char (upper_char c) :: nat) = of_char c - 32"
    using True by (simp add: upper_char_def of_char_of take_bit_eq_mod)
  then have "(of_char (upper_char c) :: nat) \<ge> 65 \<and> (of_char (upper_char c) :: nat) \<le> 90" using True by linarith
  moreover have "upper_char c \<noteq> c"
    using \<open>(of_char (upper_char c) :: nat) = of_char c - 32\<close> True by (metis diff_less less_irrefl zero_less_numeral less_le_trans)
  ultimately show ?thesis using assms True by auto
next
  case False
  then have "upper_char c = c" by (auto simp: upper_char_def)
  then show ?thesis by simp
qed

lemma upper_bytes [simp]:
  "upper_char c = quote1 \<longleftrightarrow> c = quote1" "upper_char c = backslash \<longleftrightarrow> c = backslash" "upper_char c = CHR 0x00 \<longleftrightarrow> c = CHR 0x00"
  by (rule upper_fixed, simp add: upper_char_def)+

lemma upper_bytes_sym: "quote1 = upper_char c \<longleftrightarrow> quote1 = c"
  using upper_bytes(1)[of c] by metis

lemma upper_quote: "quote1 \<in> set (to_upper s) \<longleftrightarrow> quote1 \<in> set s"
  by (induction s) (simp_all add: to_upper_def upper_bytes_sym)

lemma upper_escape: "to_upper (escape_string v) = escape_string (to_upper v)"
proof -
  have "to_upper (concat (map escape_char v)) = concat (map escape_char (to_upper v))"
    by (induction v) (auto simp: to_upper_def escape_char_def upper_char_def[of quote1] upper_char_def[of backslash])
  then show ?thesis by (simp add: escape_string_def to_upper_def upper_char_def)
qed

lemma param_same:
  assumes "quote1 \<notin> set pre" "\<not> prefix [quote1] rest"
  shows "parameterize (pre @ escape_string v @ rest) = parameterize (pre @ escape_string w @ rest)"
  unfolding parameterize_def
  using param_context[OF _ assms(1)] param_escaped[OF assms(2), of _ v] param_escaped[OF assms(2), of _ w]
  by (simp add: escape_string_def)

lemma upper_append: "to_upper (s @ t) = to_upper s @ to_upper t"
  by (simp add: to_upper_def)

text \<open>C32. An escaped value cannot change the shape of a query: after text without single quotes, and
  with no quote following, replacing the escaped value by any other one changes neither the
  parameterized query nor its fingerprint. In particular the scanner reads every escaped value,
  whatever quotes, backslashes and zero bytes it holds, as one literal.\<close>

theorem escaped_value_is_one_literal:
  assumes "quote1 \<notin> set pre" and "\<not> prefix [quote1] rest"
  shows "parameterize (pre @ escape_string v @ rest) = parameterize (pre @ escape_string w @ rest) \<and>
    fingerprint (pre @ escape_string v @ rest) = fingerprint (pre @ escape_string w @ rest)"
proof -
  have "quote1 \<notin> set (to_upper pre)" using assms(1) by (simp add: upper_quote)
  moreover have "\<not> prefix [quote1] (to_upper rest)"
    using assms(2) upper_bytes_sym by (cases rest) (simp_all add: to_upper_def)
  ultimately show ?thesis
    unfolding fingerprint_def upper_append upper_escape by (intro conjI param_same assms)
qed

lemma escaped_value_is_one_literal_witness:
  "parameterize (''name = '' @ escape_string (''x'' @ [quote1] @ '' OR 1=1 -- '' @ [backslash]) @ '' LIMIT 5'')
     = parameterize (''name = '' @ escape_string ''y'' @ '' LIMIT 5'')"
  using escaped_value_is_one_literal[of "''name = ''" "'' LIMIT 5''" "''x'' @ [quote1] @ '' OR 1=1 -- '' @ [backslash]" "''y''"]
  by (simp del: append.simps)

subsection \<open>What sanitising leaves\<close>

lemma count_loop_seen: "count_loop st False s \<le> count_loop st True s"
proof (induction s arbitrary: st)
  case (Cons c s)
  then show ?case by (cases "blank_byte c") (auto simp: Let_def)
qed simp

lemma count_loop_prefix: "count_loop st seen (take n s) \<le> count_loop st seen s"
proof (induction s arbitrary: st seen n)
  case (Cons c s)
  have base: "1 \<le> count_loop st True t" for st t
    by (induction t arbitrary: st) (auto simp: Let_def)
  show ?case
  proof (cases n)
    case 0 then show ?thesis using base[of st "c # s"] by (cases seen) simp_all
  next
    case (Suc m) then show ?thesis using Cons by (simp add: Let_def)
  qed
qed simp

lemma count_loop_prev:
  assumes "a \<noteq> backslash" "b \<noteq> backslash"
  shows "count_loop (st\<lparr>prev_byte := a\<rparr>) seen s = count_loop (st\<lparr>prev_byte := b\<rparr>) seen s"
proof (cases s)
  case (Cons c cs)
  have "(toggle c (st\<lparr>prev_byte := a\<rparr>))\<lparr>prev_byte := c\<rparr> = (toggle c (st\<lparr>prev_byte := b\<rparr>))\<lparr>prev_byte := c\<rparr>"
    "quoted (toggle c (st\<lparr>prev_byte := a\<rparr>)) = quoted (toggle c (st\<lparr>prev_byte := b\<rparr>))"
    using assms by (simp_all add: toggle_def quoted_def)
  then show ?thesis by (simp only: Cons count_loop.simps Let_def)
qed simp

lemma space_bytes:
  assumes "ascii_space c"
  shows "c \<noteq> quote1" "c \<noteq> quote2" "c \<noteq> backtick" "c \<noteq> backslash" "c \<noteq> CHR '';''"
  using assms by (auto simp: ascii_space_def)

lemma count_loop_left: "count_loop outside False (dropWhile ascii_space s) \<le> count_loop outside False s"
proof (induction s)
  case (Cons c s)
  show ?case
  proof (cases "ascii_space c")
    case True
    note b = space_bytes[OF True]
    have "count_loop outside False s = count_loop (outside\<lparr>prev_byte := c\<rparr>) False s"
      using count_loop_prev[OF _ b(4), of "CHR 0x00" outside] by (simp add: outside_def)
    also have "\<dots> \<le> count_loop (outside\<lparr>prev_byte := c\<rparr>) (\<not> blank_byte c) s"
      using count_loop_seen by (cases "blank_byte c") simp_all
    also have "\<dots> = count_loop outside False (c # s)"
      using b by (simp add: toggle_def Let_def quoted_def outside_def)
    finally show ?thesis using Cons True by simp
  qed simp
qed simp

lemma trim_right_take: "\<exists>n. trim_right s = take n s"
proof -
  have "s = trim_right s @ rev (takeWhile ascii_space (rev s))"
    unfolding trim_right_def by (metis rev_append rev_rev_ident takeWhile_dropWhile_id)
  then show ?thesis by (metis append_eq_conv_conj)
qed

lemma count_loop_trim: "count_loop outside False (trim_space s) \<le> count_loop outside False s"
proof -
  obtain n where "trim_space s = take n (dropWhile ascii_space s)"
    using trim_right_take[of "dropWhile ascii_space s"] by (auto simp: trim_space_def trim_left_def)
  then show ?thesis using count_loop_prefix[of outside False n "dropWhile ascii_space s"] count_loop_left[of s] by simp
qed

text \<open>Where the two scans agree: text without backticks.\<close>

lemma no_end_one_statement:
  assumes "find_end_loop (in_single st) (in_double st) (prev_byte st) s = None" "backtick \<notin> set s" "\<not> in_back st"
  shows "count_loop st seen s \<le> 1"
  using assms
proof (induction s arbitrary: st seen)
  case (Cons c s)
  define st1 where "st1 = toggle c st"
  have b: "\<not> in_back st1" using Cons.prems(2,3) by (auto simp: st1_def toggle_def)
  have t: "find_end_loop (in_single st1) (in_double st1) c s = None" "quoted st1 \<or> c \<noteq> CHR '';''"
    using Cons.prems by (auto simp: st1_def toggle_def quoted_def Let_def split: if_splits)
  then have "count_loop (st1\<lparr>prev_byte := c\<rparr>) sn s \<le> 1" for sn
    using Cons.IH[of "st1\<lparr>prev_byte := c\<rparr>" sn] Cons.prems b by simp
  then show ?case using t(2) by (auto simp: Let_def st1_def[symmetric])
qed simp

lemma find_end_take: "find_end_loop s d p q = Some n \<Longrightarrow> find_end_loop s d p (take n q) = None"
proof (induction q arbitrary: s d p n)
  case (Cons c q)
  then show ?case by (auto simp: Let_def split: if_splits)
qed simp

lemma find_end_zero: "find_first_statement_end q = Some 0 \<Longrightarrow> prefix '';'' q"
  by (cases q) (auto simp: find_first_statement_end_def Let_def split: if_splits)

lemma count_le: "count_statements s \<le> count_loop outside False s"
  by (simp add: count_statements_def)

text \<open>Cleaning makes no new bytes but spaces.\<close>

lemma set_replace_all: "set (replace_all old new s) \<subseteq> set s \<union> set new"
proof (induction old new s rule: replace_all.induct)
  case (1 old new s)
  show ?case
  proof (cases "old = []")
    case True then show ?thesis by (simp add: replace_all.simps)
  next
    case False
    note ne = False
    show ?thesis
    proof (cases "index_of old s")
      case None then show ?thesis using ne by (simp add: replace_all.simps)
    next
      case (Some i)
      show ?thesis using 1[OF ne Some] set_take_subset[of i s] set_drop_subset[of "i + length old" s] ne Some
        by (subst replace_all.simps) auto
    qed
  qed
qed

lemma set_trim: "set (trim_space s) \<subseteq> set s"
proof -
  obtain n where "trim_space s = take n (dropWhile ascii_space s)"
    using trim_right_take[of "dropWhile ascii_space s"] by (auto simp: trim_space_def trim_left_def)
  then show ?thesis using set_take_subset[of n "dropWhile ascii_space s"] set_dropWhileD by fastforce
qed

lemma set_expand: "set (fst (expand_versions s)) \<subseteq> set s \<union> {CHR '' ''}"
proof (induction s rule: expand_versions.induct)
  case (1 s)
  show ?case
  proof (cases "index_of ''/*!'' s")
    case None then show ?thesis by (auto simp: expand_versions.simps)
  next
    case (Some i)
    note i = Some
    show ?thesis
    proof (cases "index_of ''*/'' (drop i s)")
      case None then show ?thesis using i by (auto simp: expand_versions.simps)
    next
      case (Some e)
      define content where "content = dropWhile ascii_digit (take (e - 3) (drop (i + 3) s))"
      define t where "t = take i s @ '' '' @ trim_space content @ '' '' @ drop (i + e + 2) s"
      have "set content \<subseteq> set s"
        unfolding content_def by (meson in_set_dropD in_set_takeD set_dropWhileD subsetI)
      then have "set t \<subseteq> set s \<union> {CHR '' ''}"
        using set_trim[of content] set_take_subset[of i s] set_drop_subset[of "i + e + 2" s] by (auto simp: t_def)
      moreover have "set (fst (expand_versions t)) \<subseteq> set t \<union> {CHR '' ''}"
        using 1[OF i Some content_def] by (simp add: t_def)
      moreover have "fst (expand_versions s) = fst (expand_versions t)"
        using i Some by (subst expand_versions.simps) (simp add: t_def content_def Let_def split: prod.split)
      ultimately show ?thesis by auto
    qed
  qed
qed

lemma set_collapse: "set (collapse_whitespace s) \<subseteq> set s \<union> {CHR '' ''}"
proof -
  have "set (collapse_loop p s) \<subseteq> set s \<union> {CHR '' ''}" for p
    by (induction p s rule: collapse_loop.induct) auto
  then show ?thesis by (simp add: collapse_whitespace_def)
qed

lemma set_trim_semicolons: "set (trim_semicolons s) \<subseteq> set s"
  unfolding trim_semicolons_def using set_dropWhileD by fastforce

lemma set_cleaned: "set (fst (cleaned q)) \<subseteq> set q \<union> {CHR '' ''}"
proof -
  define s1 where "s1 = (if CHR 0x00 \<in> set q then filter (\<lambda>c. c \<noteq> CHR 0x00) q else q)"
  define s2 where "s2 = (if contains s1 ''/**/'' then replace_all ''/**/'' '' '' s1 else s1)"
  define s4 where "s4 = collapse_whitespace (fst (expand_versions s2))"
  have "fst (cleaned q) = (if trim_semicolons (trim_space s4) \<noteq> trim_space s4 then trim_semicolons (trim_space s4) else s4)"
    unfolding cleaned_def s1_def s2_def s4_def by (simp add: Let_def split: prod.split)
  moreover have "set s1 \<subseteq> set q" by (auto simp: s1_def)
  moreover have "set s2 \<subseteq> set s1 \<union> {CHR '' ''}" using set_replace_all[of "''/**/''" "'' ''" s1] by (auto simp: s2_def)
  moreover have "set s4 \<subseteq> set s2 \<union> {CHR '' ''}"
    unfolding s4_def using set_collapse[of "fst (expand_versions s2)"] set_expand[of s2] by blast
  moreover have "set (trim_semicolons (trim_space s4)) \<subseteq> set s4" using set_trim_semicolons set_trim by blast
  ultimately show ?thesis by (auto split: if_splits)
qed

text \<open>Sanitising leaves one statement: whatever query without backticks is sanitised, unless its
  cleaned text begins with a semicolon, the result counts as at most one statement. Both
  exceptions are real (lemmas \<open>leading_semicolon_stays\<close> and \<open>backtick_hides_statement\<close>).\<close>

theorem sanitize_one_statement:
  assumes "backtick \<notin> set q" "\<not> prefix '';'' (fst (cleaned q))"
  shows "count_statements (sr_sanitized (sanitize q)) \<le> 1"
proof -
  obtain s cs f where c: "cleaned q = (s, cs, f)" by (cases "cleaned q") auto
  have b: "backtick \<notin> set s" using set_cleaned[of q] assms(1) c by auto
  note none = no_end_one_statement[of outside _ False, simplified outside_def quote_state.simps, folded outside_def]
  show ?thesis
  proof (cases "count_statements s > 1")
    case False
    then have "sr_sanitized (sanitize q) = trim_space s" by (simp add: sanitize_def c)
    moreover have "count_statements (trim_space s) \<le> 1"
      using False count_loop_trim[of s] count_le[of "trim_space s"] by (auto simp: count_statements_def split: if_splits)
    ultimately show ?thesis by simp
  next
    case True
    then have "find_first_statement_end s \<noteq> None"
      using none[of s] b count_le[of s] by (auto simp: find_first_statement_end_def)
    then obtain n where n: "find_first_statement_end s = Some n" by auto
    have "n \<noteq> 0" using find_end_zero[of s] n assms(2) c by auto
    then have r: "sr_sanitized (sanitize q) = trim_space (trim_space (take n s))" using True n by (simp add: sanitize_def c)
    have "count_loop outside False (take n s) \<le> 1"
      using none[of "take n s"] find_end_take n b by (metis find_first_statement_end_def in_set_takeD)
    then show ?thesis
      using count_loop_trim[of "take n s"] count_loop_trim[of "trim_space (take n s)"] count_le[of "trim_space (trim_space (take n s))"] r
      by simp
  qed
qed

lemma sanitize_one_statement_witness:
  "count_statements (sr_sanitized (sanitize ''SELECT 1; DROP TABLE t'')) \<le> 1"
proof (rule sanitize_one_statement)
  show "backtick \<notin> set ''SELECT 1; DROP TABLE t''" by simp
  show "\<not> prefix '';'' (fst (cleaned ''SELECT 1; DROP TABLE t''))" by code_simp
qed

text \<open>A semicolon at the front, or a quote between backticks, keeps stacked statements, and the result counts as safe.\<close>

lemma leading_semicolon_stays:
  "sr_safe (sanitize '';SELECT 1; DROP TABLE t'') \<and>
   count_statements (sr_sanitized (sanitize '';SELECT 1; DROP TABLE t'')) = 2"
  by code_simp

lemma backtick_hides_statement:
  "let q = ''SELECT '' @ [backtick, quote1, backtick] @ ''; DROP TABLE t'' in
   sr_safe (sanitize q) \<and> count_statements (sr_sanitized (sanitize q)) = 2"
  by code_simp

end
