(* ===== verification/Leader_Election.thy ===== *)
theory Leader_Election
  imports Prelude
begin

section \<open>Leader election (internal/controller/leaderelection)\<close>

text \<open>
  Candidates contend for a record in a shared store. The record and the lock over a store with
  revisions are resourcelock/interface.go and leaselock.go, the election itself is
  leaderelection.go: \<open>acquire\<close> and \<open>attemptRenew\<close> each read the record and then write it back under
  the revision read, and other candidates run between the two.

  The store is a parameter: the interface \<open>Backend\<close> has no implementation in the repository. Its
  documented law is that a Put succeeds only on the revision given, zero standing for no record;
  revisions of a key grow. The JSON form of the record is taken to keep it. A call may also fail to
  reach the store, or take effect and lose its answer.
\<close>

subsection \<open>The record and its store\<close>

record le_record =
  le_holder :: string
  le_seconds :: int
  le_acquired :: gotime
  le_renewed :: gotime
  le_transitions :: int

definition le_expired :: "le_record \<Rightarrow> gotime \<Rightarrow> bool" where
  "le_expired r now =
     (if le_holder r = [] then True
      else if le_seconds r \<le> 0 then False
      else now > le_renewed r + i64 (le_seconds r * second))"

record 'b lease_backend =
  be_get :: "'b \<Rightarrow> (le_record \<times> int) option"
  be_put :: "le_record \<Rightarrow> int \<Rightarrow> 'b \<Rightarrow> 'b option"

definition revision_of :: "'b lease_backend \<Rightarrow> 'b \<Rightarrow> int" where
  "revision_of be b = (case be_get be b of None \<Rightarrow> 0 | Some (r, v) \<Rightarrow> v)"

definition backend_ok :: "'b lease_backend \<Rightarrow> bool" where
  "backend_ok be \<longleftrightarrow>
     (\<forall>b r v. be_get be b = Some (r, v) \<longrightarrow> 0 < v) \<and>
     (\<forall>r v b. be_put be r v b \<noteq> None \<longleftrightarrow> v = revision_of be b) \<and>
     (\<forall>r v b b'. be_put be r v b = Some b' \<longrightarrow> (\<exists>v'. be_get be b' = Some (r, v') \<and> v < v'))"

text \<open>What becomes of a call: it reaches the store and is answered, it does not, or only its answer is lost.\<close>

datatype net = Answered | Unreachable | AnswerLost

subsection \<open>The lock (leaselock.go)\<close>

datatype lock_error = NoRecord | LockFailed

record lease_lock =
  ll_id :: string
  ll_rev :: int

definition lock_get :: "'b lease_backend \<Rightarrow> net \<Rightarrow> 'b \<Rightarrow> lease_lock \<Rightarrow> lease_lock \<times> (lock_error + le_record)" where
  "lock_get be n b l =
     (if n \<noteq> Answered then (l, Inl LockFailed)
      else case be_get be b of
        None \<Rightarrow> (l\<lparr>ll_rev := 0\<rparr>, Inl NoRecord)
      | Some (r, v) \<Rightarrow> (l\<lparr>ll_rev := v\<rparr>, Inr r))"

definition backend_put :: "'b lease_backend \<Rightarrow> net \<Rightarrow> le_record \<Rightarrow> int \<Rightarrow> 'b \<Rightarrow> 'b \<times> bool" where
  "backend_put be n r v b =
     (if n = Unreachable then (b, False)
      else case be_put be r v b of None \<Rightarrow> (b, False) | Some b' \<Rightarrow> (b', n = Answered))"

definition lock_create :: "'b lease_backend \<Rightarrow> net \<Rightarrow> le_record \<Rightarrow> 'b \<Rightarrow> lease_lock \<Rightarrow> 'b \<times> lease_lock \<times> bool" where
  "lock_create be n r b l =
     (let (b', ok) = backend_put be n r 0 b in (b', if ok then l\<lparr>ll_rev := 0\<rparr> else l, ok))"

definition lock_update :: "'b lease_backend \<Rightarrow> net \<Rightarrow> le_record \<Rightarrow> 'b \<Rightarrow> lease_lock \<Rightarrow> 'b \<times> bool" where
  "lock_update be n r b l = (if ll_rev l = 0 then (b, False) else backend_put be n r (ll_rev l) b)"

subsection \<open>Configuration\<close>

record le_config =
  cf_lease :: duration
  cf_renew :: duration
  cf_retry :: duration

definition le_defaults :: "le_config \<Rightarrow> le_config" where
  "le_defaults c =
     \<lparr>cf_lease = (if cf_lease c = 0 then 15 * second else cf_lease c),
      cf_renew = (if cf_renew c = 0 then 10 * second else cf_renew c),
      cf_retry = (if cf_retry c = 0 then 2 * second else cf_retry c)\<rparr>"

datatype config_error = LeaseTooShort | RenewTooShort

definition le_validate :: "le_config \<Rightarrow> config_error option" where
  "le_validate c =
     (if cf_lease c \<le> cf_renew c then Some LeaseTooShort
      else if cf_renew c \<le> cf_retry c then Some RenewTooShort
      else None)"

text \<open>\<open>int(d.Seconds())\<close>: whole seconds, rounded towards zero. The float64 between is exact enough for
  leases of less than 2 to the 24 seconds.\<close>

definition lease_seconds :: "le_config \<Rightarrow> int" where
  "lease_seconds c = (if cf_lease c \<ge> 0 then cf_lease c div second else - ((- cf_lease c) div second))"

subsection \<open>Acquiring and renewing\<close>

text \<open>What \<open>acquire\<close> does with the record it read at the instant \<open>now\<close>.\<close>

datatype le_plan = CreateRecord le_record | Reacquire le_record | Steal le_record | Follow string | GiveUp

definition acquire_plan :: "le_config \<Rightarrow> string \<Rightarrow> int \<Rightarrow> lock_error + le_record \<Rightarrow> le_plan" where
  "acquire_plan c me now got =
     (case got of
        Inl NoRecord \<Rightarrow> CreateRecord \<lparr>le_holder = me, le_seconds = lease_seconds c, le_acquired = now, le_renewed = now, le_transitions = 1\<rparr>
      | Inl LockFailed \<Rightarrow> GiveUp
      | Inr cur \<Rightarrow>
          if le_holder cur = me then Reacquire (cur\<lparr>le_renewed := now\<rparr>)
          else if \<not> le_expired cur now then Follow (le_holder cur)
          else Steal (cur\<lparr>le_holder := me, le_seconds := lease_seconds c, le_acquired := now, le_renewed := now,
                          le_transitions := i64 (le_transitions cur + 1)\<rparr>))"

text \<open>The results are the store, the lock, whether leadership was acquired, and whom \<open>OnNewLeader\<close> is told of.\<close>

definition acquire_write :: "'b lease_backend \<Rightarrow> net \<Rightarrow> le_plan \<Rightarrow> 'b \<Rightarrow> lease_lock \<Rightarrow> 'b \<times> lease_lock \<times> bool \<times> string option" where
  "acquire_write be n p b l =
     (case p of
        CreateRecord r \<Rightarrow> (let (b', l', ok) = lock_create be n r b l in (b', l', ok, if ok then Some (le_holder r) else None))
      | Reacquire r \<Rightarrow> (let (b', ok) = lock_update be n r b l in (b', l, True, None))
      | Follow h \<Rightarrow> (b, l, False, Some h)
      | Steal r \<Rightarrow> (let (b', ok) = lock_update be n r b l in (b', l, ok, if ok then Some (le_holder r) else None))
      | GiveUp \<Rightarrow> (b, l, False, None))"

definition renew_write :: "'b lease_backend \<Rightarrow> net \<Rightarrow> int \<Rightarrow> lock_error + le_record \<Rightarrow> 'b \<Rightarrow> lease_lock \<Rightarrow> 'b \<times> bool" where
  "renew_write be n now got b l =
     (case got of
        Inl e \<Rightarrow> (b, False)
      | Inr cur \<Rightarrow>
          if le_holder cur \<noteq> ll_id l then (b, False)
          else lock_update be n (cur\<lparr>le_renewed := now\<rparr>) b l)"

subsection \<open>Candidates\<close>

text \<open>
  A candidate between its steps: waiting to try again, in \<open>acquire\<close> with the instant it read from
  the clock and what Get returned, leading, or leading and inside \<open>attemptRenew\<close>.
\<close>

datatype le_phase = Waiting | Acquiring gotime "lock_error + le_record" | Leading | Renewing "lock_error + le_record"

record candidate =
  ca_lock :: lease_lock
  ca_phase :: le_phase

record 'b election =
  el_now :: gotime
  el_store :: 'b
  el_cands :: "string \<Rightarrow> candidate"

definition fresh_candidate :: "string \<Rightarrow> candidate" where
  "fresh_candidate i = \<lparr>ca_lock = \<lparr>ll_id = i, ll_rev = 0\<rparr>, ca_phase = Waiting\<rparr>"

definition new_election :: "'b \<Rightarrow> int \<Rightarrow> 'b election" where
  "new_election b t = \<lparr>el_now = t, el_store = b, el_cands = fresh_candidate\<rparr>"

definition set_cand :: "string \<Rightarrow> lease_lock \<Rightarrow> le_phase \<Rightarrow> 'b election \<Rightarrow> 'b election" where
  "set_cand i l p s = s\<lparr>el_cands := (el_cands s)(i := \<lparr>ca_lock = l, ca_phase = p\<rparr>)\<rparr>"

definition acquire_begin :: "'b lease_backend \<Rightarrow> net \<Rightarrow> string \<Rightarrow> int \<Rightarrow> 'b election \<Rightarrow> 'b election" where
  "acquire_begin be n i t s =
     (let (l, got) = lock_get be n (el_store s) (ca_lock (el_cands s i)) in set_cand i l (Acquiring t got) s)"

definition acquire_end :: "'b lease_backend \<Rightarrow> le_config \<Rightarrow> net \<Rightarrow> string \<Rightarrow> 'b election \<Rightarrow> 'b election" where
  "acquire_end be c n i s =
     (case ca_phase (el_cands s i) of
        Acquiring t got \<Rightarrow>
          (let (b, l, ok, told) = acquire_write be n (acquire_plan c i t got) (el_store s) (ca_lock (el_cands s i))
           in set_cand i l (if ok then Leading else Waiting) (s\<lparr>el_store := b\<rparr>))
      | _ \<Rightarrow> s)"

definition renew_begin :: "'b lease_backend \<Rightarrow> net \<Rightarrow> string \<Rightarrow> 'b election \<Rightarrow> 'b election" where
  "renew_begin be n i s =
     (let (l, got) = lock_get be n (el_store s) (ca_lock (el_cands s i)) in set_cand i l (Renewing got) s)"

definition renew_end :: "'b lease_backend \<Rightarrow> net \<Rightarrow> string \<Rightarrow> int \<Rightarrow> 'b election \<Rightarrow> 'b election" where
  "renew_end be n i t s =
     (case ca_phase (el_cands s i) of
        Renewing got \<Rightarrow>
          (let (b, ok) = renew_write be n t got (el_store s) (ca_lock (el_cands s i))
           in set_cand i (ca_lock (el_cands s i)) (if ok then Leading else Waiting) (s\<lparr>el_store := b\<rparr>))
      | _ \<Rightarrow> s)"

text \<open>
  One step: time passes, or a candidate does one half of \<open>acquire\<close> or \<open>attemptRenew\<close>, or it restarts.
  An instant read from the clock lies before the step that uses it.
\<close>

inductive le_step :: "'b lease_backend \<Rightarrow> le_config \<Rightarrow> 'b election \<Rightarrow> 'b election \<Rightarrow> bool" for be c where
  step_time: "el_now s \<le> t \<Longrightarrow> le_step be c s (s\<lparr>el_now := t\<rparr>)"
| step_acquire_begin: "ca_phase (el_cands s i) = Waiting \<Longrightarrow> t \<le> el_now s \<Longrightarrow> le_step be c s (acquire_begin be n i t s)"
| step_acquire_end: "ca_phase (el_cands s i) = Acquiring t got \<Longrightarrow> le_step be c s (acquire_end be c n i s)"
| step_renew_begin: "ca_phase (el_cands s i) = Leading \<Longrightarrow> le_step be c s (renew_begin be n i s)"
| step_renew_end: "ca_phase (el_cands s i) = Renewing got \<Longrightarrow> t \<le> el_now s \<Longrightarrow> le_step be c s (renew_end be n i t s)"
| step_restart: "le_step be c s (set_cand i \<lparr>ll_id = i, ll_rev = 0\<rparr> Waiting s)"

subsection \<open>What writes to the store\<close>

lemma expired_mono: "le_expired r t \<Longrightarrow> t \<le> u \<Longrightarrow> le_expired r u"
  by (auto simp: le_expired_def split: if_splits)

lemma revision_0: "backend_ok be \<Longrightarrow> revision_of be b = 0 \<longleftrightarrow> be_get be b = None"
  unfolding backend_ok_def revision_of_def by (cases "be_get be b") fastforce+

lemma backend_put_Some:
  assumes "backend_ok be" "be_put be r v b = Some b'"
  obtains v' where "v = revision_of be b" "be_get be b' = Some (r, v')" "v < v'"
proof -
  have "be_put be r v b \<noteq> None" using assms(2) by simp
  then have "v = revision_of be b" using assms(1) unfolding backend_ok_def by blast
  moreover obtain v' where "be_get be b' = Some (r, v')" "v < v'" using assms unfolding backend_ok_def by blast
  ultimately show ?thesis using that by blast
qed

lemma backend_put_cases:
  assumes "backend_ok be"
  obtains "fst (backend_put be n r v b) = b" "\<not> snd (backend_put be n r v b)"
  | v' where "v = revision_of be b" "be_get be (fst (backend_put be n r v b)) = Some (r, v')" "v < v'"
proof (cases "n = Unreachable \<or> be_put be r v b = None")
  case True then show ?thesis using that(1) by (auto simp: backend_put_def)
next
  case False
  then obtain b' where b: "be_put be r v b = Some b'" by auto
  then have "fst (backend_put be n r v b) = b'" using False by (simp add: backend_put_def)
  then show ?thesis using backend_put_Some[OF assms b] that(2) by metis
qed

text \<open>What a candidate has read is what is stored unless the revision has moved on.\<close>

definition seen :: "'b lease_backend \<Rightarrow> 'b \<Rightarrow> lease_lock \<Rightarrow> lock_error + le_record \<Rightarrow> bool" where
  "seen be b l got \<longleftrightarrow>
     (\<forall>r. got = Inr r \<longrightarrow> 0 < ll_rev l \<and>
        (\<exists>r' v'. be_get be b = Some (r', v') \<and> ll_rev l \<le> v' \<and> (ll_rev l = v' \<longrightarrow> r' = r)))"

definition le_inv :: "'b lease_backend \<Rightarrow> 'b election \<Rightarrow> bool" where
  "le_inv be s \<longleftrightarrow> (\<forall>i. let a = el_cands s i in
     ll_id (ca_lock a) = i \<and>
     (\<forall>t got. ca_phase a = Acquiring t got \<longrightarrow> t \<le> el_now s \<and> seen be (el_store s) (ca_lock a) got) \<and>
     (\<forall>got. ca_phase a = Renewing got \<longrightarrow> seen be (el_store s) (ca_lock a) got))"

text \<open>
  A write of the record \<open>r\<close> by candidate \<open>i\<close>: the first one, one that only moves the renewal of the
  holder's own record, or one that takes over an expired one and counts a transition.
\<close>

definition fair_write :: "gotime \<Rightarrow> (le_record \<times> int) option \<Rightarrow> string \<Rightarrow> le_record \<Rightarrow> bool" where
  "fair_write now old i r \<longleftrightarrow> le_holder r = i \<and>
     (case old of
        None \<Rightarrow> le_transitions r = 1
      | Some (r0, v0) \<Rightarrow>
          le_holder r0 = i \<and> (\<exists>t. r = r0\<lparr>le_renewed := t\<rparr>) \<or>
          le_holder r0 \<noteq> i \<and> le_expired r0 now \<and> le_transitions r = i64 (le_transitions r0 + 1))"

definition moved :: "'b lease_backend \<Rightarrow> gotime \<Rightarrow> string \<Rightarrow> 'b \<Rightarrow> 'b \<Rightarrow> bool" where
  "moved be now i b b' \<longleftrightarrow> b' = b \<or>
     (\<exists>r v. be_get be b' = Some (r, v) \<and> revision_of be b < v \<and> fair_write now (be_get be b) i r)"

lemma seen_moved:
  assumes "moved be now i b b'" "seen be b l got"
  shows "seen be b' l got"
  using assms unfolding moved_def seen_def by (fastforce simp: revision_of_def)

lemma update_moved:
  assumes ok: "backend_ok be" and seen: "seen be b l (Inr r0)"
    and fair: "\<And>v. fair_write now (Some (r0, v)) i r"
  shows "moved be now i b (fst (lock_update be n r b l))"
proof -
  obtain r1 v1 where r1: "be_get be b = Some (r1, v1)" "ll_rev l = v1 \<longrightarrow> r1 = r0" and pos: "0 < ll_rev l"
    using seen by (auto simp: seen_def)
  have u: "lock_update be n r b l = backend_put be n r (ll_rev l) b" using pos by (simp add: lock_update_def)
  show ?thesis
  proof (cases rule: backend_put_cases[OF ok, of n r "ll_rev l" b])
    case 1 then show ?thesis by (simp add: u moved_def)
  next
    case (2 v')
    then have "r1 = r0" using r1 by (simp add: revision_of_def)
    then show ?thesis using 2 r1(1) fair by (auto simp: u moved_def)
  qed
qed

lemma acquire_moved:
  assumes ok: "backend_ok be" and seen: "seen be b l got" and t: "t \<le> now"
  shows "moved be now i b (fst (acquire_write be n (acquire_plan c i t got) b l))"
proof (cases got)
  case (Inl e)
  show ?thesis
  proof (cases e)
    case NoRecord
    define r where "r = \<lparr>le_holder = i, le_seconds = lease_seconds c, le_acquired = t, le_renewed = t, le_transitions = 1\<rparr>"
    have w: "fst (acquire_write be n (acquire_plan c i t got) b l) = fst (backend_put be n r 0 b)"
      using Inl NoRecord by (simp add: acquire_plan_def acquire_write_def lock_create_def r_def split: prod.split)
    show ?thesis
    proof (cases rule: backend_put_cases[OF ok, of n r 0 b])
      case 1 then show ?thesis by (simp add: w moved_def)
    next
      case (2 v')
      then have "be_get be b = None" using revision_0[OF ok] by metis
      then show ?thesis using 2 by (auto simp: w moved_def fair_write_def r_def)
    qed
  qed (simp add: Inl acquire_plan_def acquire_write_def moved_def)
next
  case (Inr r0)
  have s: "seen be b l (Inr r0)" using seen Inr by simp
  consider "le_holder r0 = i" | "le_holder r0 \<noteq> i" "\<not> le_expired r0 t" | "le_holder r0 \<noteq> i" "le_expired r0 t" by blast
  then show ?thesis
  proof cases
    case 1
    have "moved be now i b (fst (lock_update be n (r0\<lparr>le_renewed := t\<rparr>) b l))"
      by (rule update_moved[OF ok s]) (use 1 in \<open>auto simp: fair_write_def\<close>)
    then show ?thesis using 1 Inr by (simp add: acquire_plan_def acquire_write_def case_prod_beta)
  next
    case 2 then show ?thesis using Inr by (simp add: acquire_plan_def acquire_write_def moved_def)
  next
    case 3
    have "le_expired r0 now" using expired_mono[OF 3(2) t] .
    then have "moved be now i b (fst (lock_update be n (r0\<lparr>le_holder := i, le_seconds := lease_seconds c, le_acquired := t,
        le_renewed := t, le_transitions := i64 (le_transitions r0 + 1)\<rparr>) b l))"
      by (intro update_moved[OF ok s]) (use 3 in \<open>auto simp: fair_write_def\<close>)
    then show ?thesis using 3 Inr by (simp add: acquire_plan_def acquire_write_def case_prod_beta)
  qed
qed

lemma renew_moved:
  assumes ok: "backend_ok be" and seen: "seen be b l got" and id: "ll_id l = i"
  shows "moved be now i b (fst (renew_write be n t got b l))"
proof (cases got)
  case (Inr r0)
  show ?thesis
  proof (cases "le_holder r0 = i")
    case True
    have "moved be now i b (fst (lock_update be n (r0\<lparr>le_renewed := t\<rparr>) b l))"
      by (rule update_moved[OF ok]) (use seen Inr True in \<open>auto simp: fair_write_def\<close>)
    then show ?thesis using True Inr id by (simp add: renew_write_def)
  qed (simp add: Inr id renew_write_def moved_def)
qed (simp add: renew_write_def moved_def)

subsection \<open>The invariant\<close>

lemma le_inv_new: "le_inv be (new_election b t)"
  by (simp add: le_inv_def new_election_def fresh_candidate_def Let_def)

lemma le_inv_cand:
  assumes inv: "le_inv be s" and "moved be now i (el_store s) b" and "ll_id l = i"
    and "\<And>t got. p = Acquiring t got \<Longrightarrow> t \<le> el_now s \<and> seen be b l got"
    and "\<And>got. p = Renewing got \<Longrightarrow> seen be b l got"
  shows "le_inv be (set_cand i l p (s\<lparr>el_store := b\<rparr>))"
proof -
  have "seen be b (ca_lock (el_cands s j)) got" if "seen be (el_store s) (ca_lock (el_cands s j)) got" for j got
    by (rule seen_moved[OF assms(2) that])
  then show ?thesis using inv assms(3-) by (simp add: le_inv_def set_cand_def Let_def)
qed

lemma seen_get:
  assumes "backend_ok be" "lock_get be n b l = (l', got)"
  shows "seen be b l' got"
proof -
  have "0 < v" if "be_get be b = Some (r, v)" for r v using assms(1) that unfolding backend_ok_def by blast
  then show ?thesis using assms(2) by (auto simp: lock_get_def seen_def split: if_splits option.splits)
qed

lemma get_id: "lock_get be n b l = (l', got) \<Longrightarrow> ll_id l' = ll_id l"
  by (auto simp: lock_get_def split: if_splits option.splits)

lemma write_id: "acquire_write be n p b l = (b', l', ok, told) \<Longrightarrow> ll_id l' = ll_id l"
  by (auto simp: acquire_write_def lock_create_def split: le_plan.splits prod.splits if_splits)

lemma moved_refl [simp]: "moved be now i b b"
  by (simp add: moved_def)

lemma cand_id: "le_inv be s \<Longrightarrow> ll_id (ca_lock (el_cands s i)) = i"
  by (simp add: le_inv_def Let_def)

lemma acquiring_seen:
  "le_inv be s \<Longrightarrow> ca_phase (el_cands s i) = Acquiring t got \<Longrightarrow> t \<le> el_now s \<and> seen be (el_store s) (ca_lock (el_cands s i)) got"
  by (simp add: le_inv_def Let_def)

lemma renewing_seen:
  "le_inv be s \<Longrightarrow> ca_phase (el_cands s i) = Renewing got \<Longrightarrow> seen be (el_store s) (ca_lock (el_cands s i)) got"
  by (simp add: le_inv_def Let_def)

lemma store_id [simp]: "s\<lparr>el_store := el_store s\<rparr> = s"
  by simp

text \<open>Each step keeps the invariant and moves the store by at most one fair write.\<close>

lemma le_step_moves:
  assumes ok: "backend_ok be" and inv: "le_inv be s" and step: "le_step be c s s'"
  shows "le_inv be s' \<and> (\<exists>i. moved be (el_now s) i (el_store s) (el_store s')) \<and> el_now s \<le> el_now s'"
  using step
proof (cases rule: le_step.cases)
  case (step_time t)
  have "le_inv be s'" using inv step_time unfolding le_inv_def by (fastforce simp: Let_def)
  then show ?thesis using step_time by auto
next
  case (step_acquire_begin i t n)
  obtain l got where g: "lock_get be n (el_store s) (ca_lock (el_cands s i)) = (l, got)" by fastforce
  have s': "s' = set_cand i l (Acquiring t got) s" using step_acquire_begin g by (simp add: acquire_begin_def)
  have "le_inv be (set_cand i l (Acquiring t got) (s\<lparr>el_store := el_store s\<rparr>))"
    using inv g seen_get[OF ok g] get_id[OF g] cand_id[OF inv] step_acquire_begin
    by (intro le_inv_cand[where now = 0]) auto
  then show ?thesis using s' by (auto simp: set_cand_def)
next
  case (step_acquire_end i t got n)
  obtain b l ok' told where w: "acquire_write be n (acquire_plan c i t got) (el_store s) (ca_lock (el_cands s i)) = (b, l, ok', told)"
    using prod_cases4 by blast
  have m: "moved be (el_now s) i (el_store s) b"
    using acquire_moved[OF ok, of "el_store s" "ca_lock (el_cands s i)" got t "el_now s" i n c] acquiring_seen[OF inv step_acquire_end(2)] w
    by simp
  have s': "s' = set_cand i l (if ok' then Leading else Waiting) (s\<lparr>el_store := b\<rparr>)"
    using step_acquire_end w by (simp add: acquire_end_def)
  have "le_inv be s'" unfolding s' using inv m write_id[OF w] cand_id[OF inv] by (intro le_inv_cand) (auto split: if_splits)
  then show ?thesis using m s' by (auto simp: set_cand_def)
next
  case (step_renew_begin i n)
  obtain l got where g: "lock_get be n (el_store s) (ca_lock (el_cands s i)) = (l, got)" by fastforce
  have s': "s' = set_cand i l (Renewing got) s" using step_renew_begin g by (simp add: renew_begin_def)
  have "le_inv be (set_cand i l (Renewing got) (s\<lparr>el_store := el_store s\<rparr>))"
    using inv g seen_get[OF ok g] get_id[OF g] cand_id[OF inv] by (intro le_inv_cand[where now = 0]) auto
  then show ?thesis using s' by (auto simp: set_cand_def)
next
  case (step_renew_end i got t n)
  obtain b ok' where w: "renew_write be n t got (el_store s) (ca_lock (el_cands s i)) = (b, ok')" by fastforce
  have m: "moved be (el_now s) i (el_store s) b"
    using renew_moved[OF ok renewing_seen[OF inv step_renew_end(2)] cand_id[OF inv], of "el_now s" n t] w by simp
  have s': "s' = set_cand i (ca_lock (el_cands s i)) (if ok' then Leading else Waiting) (s\<lparr>el_store := b\<rparr>)"
    using step_renew_end w by (simp add: renew_end_def)
  have "le_inv be s'" unfolding s' using inv m cand_id[OF inv] by (intro le_inv_cand) (auto split: if_splits)
  then show ?thesis using m s' by (auto simp: set_cand_def)
next
  case (step_restart i)
  have "le_inv be (set_cand i \<lparr>ll_id = i, ll_rev = 0\<rparr> Waiting (s\<lparr>el_store := el_store s\<rparr>))"
    using inv by (intro le_inv_cand[where now = 0]) auto
  then show ?thesis using step_restart by (auto simp: set_cand_def)
qed

lemma le_reachable_inv:
  assumes "backend_ok be" "(le_step be c)\<^sup>*\<^sup>* (new_election b t) s"
  shows "le_inv be s"
  using assms(2)
proof (induction rule: rtranclp_induct)
  case base then show ?case by (rule le_inv_new)
next
  case (step s s') then show ?case using le_step_moves[OF assms(1)] by blast
qed

subsection \<open>Properties\<close>

text \<open>The record of a lease that has not run out.\<close>

definition unexpired :: "'b lease_backend \<Rightarrow> 'b election \<Rightarrow> bool" where
  "unexpired be s \<longleftrightarrow> (case be_get be (el_store s) of None \<Rightarrow> False | Some (r, v) \<Rightarrow> \<not> le_expired r (el_now s))"

inductive live_step :: "'b lease_backend \<Rightarrow> le_config \<Rightarrow> 'b election \<Rightarrow> 'b election \<Rightarrow> bool" for be c where
  "unexpired be s \<Longrightarrow> le_step be c s s' \<Longrightarrow> live_step be c s s'"

lemma live_step_keeps:
  assumes ok: "backend_ok be" and inv: "le_inv be s" and step: "live_step be c s s'" and r: "be_get be (el_store s) = Some (r, v)"
  shows "\<exists>r' v'. be_get be (el_store s') = Some (r', v') \<and> le_holder r' = le_holder r \<and> le_transitions r' = le_transitions r"
proof -
  have le: "le_step be c s s'" and live: "\<not> le_expired r (el_now s)" using step r by (auto simp: live_step.simps unexpired_def)
  obtain i where "moved be (el_now s) i (el_store s) (el_store s')" using le_step_moves[OF ok inv le] by auto
  then consider "el_store s' = el_store s"
    | r' v' where "be_get be (el_store s') = Some (r', v')" "fair_write (el_now s) (Some (r, v)) i r'"
    using r by (auto simp: moved_def)
  then show ?thesis
  proof cases
    case 1 then show ?thesis using r by simp
  next
    case 2
    have "\<exists>t. r' = r\<lparr>le_renewed := t\<rparr>" using 2(2) live unfolding fair_write_def option.case prod.case by blast
    then obtain t where "r' = r\<lparr>le_renewed := t\<rparr>" by blast
    then have "le_holder r' = le_holder r \<and> le_transitions r' = le_transitions r" by simp
    then show ?thesis using 2(1) by blast
  qed
qed

text \<open>C20. An unexpired lease is never taken: in every state the election reaches, for any number of
  candidates, stalled and restarted as they may be, with calls that fail or lose their answers, as
  long as the lease in the store has not run out the record keeps its holder and its number of
  transitions.\<close>

theorem lease_exclusive:
  assumes ok: "backend_ok be" and start: "(le_step be c)\<^sup>*\<^sup>* (new_election b t) s"
    and run: "(live_step be c)\<^sup>*\<^sup>* s s'" and r: "be_get be (el_store s) = Some (r, v)"
  shows "\<exists>r' v'. be_get be (el_store s') = Some (r', v') \<and> le_holder r' = le_holder r \<and> le_transitions r' = le_transitions r"
  using run
proof (induction rule: rtranclp_induct)
  case base then show ?case using r by auto
next
  case (step u u')
  have "(le_step be c)\<^sup>*\<^sup>* s u" using step(1) by (rule rtranclp_mono[THEN predicate2D, rotated]) (auto simp: live_step.simps)
  then have "le_inv be u" using start by (intro le_reachable_inv[OF ok]) (rule rtranclp_trans)
  then show ?case using live_step_keeps[OF ok _ step(2)] step(3) by metis
qed

lemma put_wrote:
  assumes "backend_ok be" "backend_put be n r v b = (b', True)"
  shows "\<exists>v'. be_get be b' = Some (r, v')"
proof -
  have "be_put be r v b = Some b'" using assms(2) by (auto simp: backend_put_def split: if_splits option.splits)
  then show ?thesis using backend_put_Some[OF assms(1)] by metis
qed

text \<open>A new leader is in the record: when \<open>acquire\<close> returns true to a candidate that did not find
  its own name in the record, the store holds a record that names it and was renewed at the instant
  of the attempt.\<close>

theorem new_leader_recorded:
  assumes ok: "backend_ok be" and got: "\<not> (\<exists>r. got = Inr r \<and> le_holder r = i)"
    and won: "acquire_write be n (acquire_plan c i t got) b l = (b', l', True, told)"
  shows "told = Some i \<and> (\<exists>r v. be_get be b' = Some (r, v) \<and> le_holder r = i \<and> le_renewed r = t)"
proof (cases "acquire_plan c i t got")
  case (CreateRecord r)
  have w: "backend_put be n r 0 b = (b', True)" "told = Some (le_holder r)"
    using won CreateRecord by (auto simp: acquire_write_def lock_create_def split: prod.splits if_splits)
  have "le_holder r = i \<and> le_renewed r = t"
    using CreateRecord by (auto simp: acquire_plan_def split: sum.splits lock_error.splits if_splits)
  then show ?thesis using put_wrote[OF ok w(1)] w(2) by auto
next
  case (Steal r)
  have w: "lock_update be n r b l = (b', True)" "told = Some (le_holder r)"
    using won Steal by (auto simp: acquire_write_def split: prod.splits if_splits)
  have "le_holder r = i \<and> le_renewed r = t"
    using Steal by (auto simp: acquire_plan_def split: sum.splits lock_error.splits if_splits)
  moreover have "backend_put be n r (ll_rev l) b = (b', True)" using w(1) by (auto simp: lock_update_def split: if_splits)
  ultimately show ?thesis using put_wrote[OF ok, of n r "ll_rev l" b b'] w(2) by auto
next
  case (Reacquire r)
  then show ?thesis using got by (auto simp: acquire_plan_def split: sum.splits lock_error.splits if_splits)
qed (use won in \<open>auto simp: acquire_write_def\<close>)

text \<open>A lease that has run out can be taken: a waiting candidate that is answered, with no other
  write in between, leads after one attempt and is the holder in the store, whether there was no
  record, an expired one or its own.\<close>

theorem free_lease_is_acquired:
  assumes ok: "backend_ok be"
    and free: "\<not> unexpired be s \<or> (\<exists>r v. be_get be (el_store s) = Some (r, v) \<and> le_holder r = i)"
  shows "let s' = acquire_end be c Answered i (acquire_begin be Answered i (el_now s) s) in
     ca_phase (el_cands s' i) = Leading \<and> (\<exists>r v. be_get be (el_store s') = Some (r, v) \<and> le_holder r = i)"
proof -
  define b where "b = el_store s"
  define l where "l = (ca_lock (el_cands s i))\<lparr>ll_rev := revision_of be b\<rparr>"
  define got where "got = (case be_get be b of None \<Rightarrow> Inl NoRecord | Some (r, v) \<Rightarrow> Inr r)"
  have g: "lock_get be Answered b (ca_lock (el_cands s i)) = (l, got)"
    by (auto simp: lock_get_def l_def got_def revision_of_def split: option.split)
  have put: "\<exists>b' v. backend_put be Answered r (revision_of be b) b = (b', True) \<and> be_get be b' = Some (r, v)" for r
  proof -
    have "be_put be r (revision_of be b) b \<noteq> None" using ok unfolding backend_ok_def by blast
    then obtain b' where "be_put be r (revision_of be b) b = Some b'" by auto
    moreover obtain v where "be_get be b' = Some (r, v)" using backend_put_Some[OF ok calculation] by blast
    ultimately show ?thesis by (simp add: backend_put_def)
  qed
  have "\<exists>b' l' told. acquire_write be Answered (acquire_plan c i (el_now s) got) b l = (b', l', True, told) \<and>
     (\<exists>r v. be_get be b' = Some (r, v) \<and> le_holder r = i)"
  proof (cases "be_get be b")
    case None
    define r where "r = \<lparr>le_holder = i, le_seconds = lease_seconds c, le_acquired = el_now s, le_renewed = el_now s, le_transitions = 1\<rparr>"
    obtain b' v where "backend_put be Answered r 0 b = (b', True)" "be_get be b' = Some (r, v)"
      using put[of r] None by (auto simp: revision_of_def)
    then show ?thesis using None by (auto simp: got_def acquire_plan_def acquire_write_def lock_create_def r_def)
  next
    case (Some rv)
    obtain r v where rv: "rv = (r, v)" by fastforce
    have rev: "ll_rev l \<noteq> 0" "ll_rev l = revision_of be b" using revision_0[OF ok, of b] Some by (auto simp: l_def)
    have u: "\<exists>b' v. lock_update be Answered r' b l = (b', True) \<and> be_get be b' = Some (r', v)" for r'
      using put[of r'] rev by (simp add: lock_update_def)
    consider "le_holder r = i" | "le_holder r \<noteq> i" "le_expired r (el_now s)"
      using free Some rv by (auto simp: unexpired_def b_def)
    then show ?thesis
    proof cases
      case 1
      then obtain b' v' where "lock_update be Answered (r\<lparr>le_renewed := el_now s\<rparr>) b l = (b', True)"
        "be_get be b' = Some (r\<lparr>le_renewed := el_now s\<rparr>, v')" using u by blast
      then show ?thesis using 1 Some rv by (auto simp: got_def acquire_plan_def acquire_write_def)
    next
      case 2
      define r' where "r' = r\<lparr>le_holder := i, le_seconds := lease_seconds c, le_acquired := el_now s, le_renewed := el_now s,
        le_transitions := i64 (le_transitions r + 1)\<rparr>"
      obtain b' v' where "lock_update be Answered r' b l = (b', True)" "be_get be b' = Some (r', v')" using u by blast
      then show ?thesis using 2 Some rv by (auto simp: got_def acquire_plan_def acquire_write_def r'_def)
    qed
  qed
  then show ?thesis
    using g by (auto simp: acquire_begin_def acquire_end_def set_cand_def b_def Let_def)
qed

subsection \<open>Examples\<close>

text \<open>A store of one key with its count of writes.\<close>

definition cell_backend :: "(le_record \<times> nat) option lease_backend" where
  "cell_backend = \<lparr>be_get = map_option (\<lambda>(r, n). (r, int (Suc n))),
     be_put = (\<lambda>r v b. case b of None \<Rightarrow> if v = 0 then Some (Some (r, 0)) else None
                         | Some (r0, n) \<Rightarrow> if v = int (Suc n) then Some (Some (r, Suc n)) else None)\<rparr>"

lemma cell_backend_ok: "backend_ok cell_backend"
  unfolding backend_ok_def
proof (intro conjI allI impI)
  fix r :: le_record and v b
  show "be_put cell_backend r v b \<noteq> None \<longleftrightarrow> v = revision_of cell_backend b"
    by (cases b) (auto simp: cell_backend_def revision_of_def split: if_splits)
  show "\<exists>v'. be_get cell_backend b' = Some (r, v') \<and> v < v'" if "be_put cell_backend r v b = Some b'" for b'
    using that by (cases b) (auto simp: cell_backend_def split: if_splits)
  show "0 < v" if "be_get cell_backend b = Some (r, v)"
    using that by (auto simp: cell_backend_def)
qed

definition ex_config :: le_config where
  "ex_config = le_defaults \<lparr>cf_lease = 0, cf_renew = 0, cf_retry = 0\<rparr>"

lemmas el_run = acquire_begin_def acquire_end_def renew_begin_def renew_end_def set_cand_def lock_get_def lock_update_def lock_create_def
  backend_put_def acquire_plan_def acquire_write_def renew_write_def new_election_def fresh_candidate_def cell_backend_def
  ex_config_def le_defaults_def lease_seconds_def le_expired_def i64_id

lemma acquire_steps:
  assumes "ca_phase (el_cands s i) = Waiting" "t \<le> el_now s"
  shows "(le_step be c)\<^sup>*\<^sup>* s (acquire_end be c n i (acquire_begin be m i t s))"
proof -
  obtain got where "ca_phase (el_cands (acquire_begin be m i t s) i) = Acquiring t got"
    by (cases "lock_get be m (el_store s) (ca_lock (el_cands s i))") (simp add: acquire_begin_def set_cand_def)
  then show ?thesis using step_acquire_begin[OF assms] step_acquire_end by (metis r_into_rtranclp rtranclp.rtrancl_into_rtrancl)
qed

definition one_leader :: "(le_record \<times> nat) option election" where
  "one_leader = acquire_end cell_backend ex_config Answered ''a'' (acquire_begin cell_backend Answered ''a'' 0 (new_election None 0))"

lemma one_leader_reached: "(le_step cell_backend ex_config)\<^sup>*\<^sup>* (new_election None 0) one_leader"
  unfolding one_leader_def by (rule acquire_steps) (simp_all add: new_election_def fresh_candidate_def)

definition rec_a :: le_record where
  "rec_a = \<lparr>le_holder = ''a'', le_seconds = 15, le_acquired = 0, le_renewed = 0, le_transitions = 1\<rparr>"

lemma one_leader_eq:
  "one_leader = \<lparr>el_now = 0, el_store = Some (rec_a, 0),
     el_cands = fresh_candidate(''a'' := \<lparr>ca_lock = \<lparr>ll_id = ''a'', ll_rev = 0\<rparr>, ca_phase = Leading\<rparr>)\<rparr>"
  by (simp add: one_leader_def el_run rec_a_def)

lemma lease_exclusive_witness:
  "\<exists>r v. be_get cell_backend (el_store (one_leader\<lparr>el_now := 14 * second\<rparr>)) = Some (r, v) \<and> le_holder r = ''a'' \<and> le_transitions r = 1"
proof -
  have "unexpired cell_backend one_leader" by (simp add: one_leader_eq unexpired_def cell_backend_def le_expired_def rec_a_def i64_id)
  then have "live_step cell_backend ex_config one_leader (one_leader\<lparr>el_now := 14 * second\<rparr>)"
    by (intro live_step.intros step_time) (simp_all add: one_leader_eq)
  moreover have "be_get cell_backend (el_store one_leader) = Some (rec_a, 1)" by (simp add: one_leader_eq cell_backend_def)
  ultimately show ?thesis
    using lease_exclusive[OF cell_backend_ok one_leader_reached, of "one_leader\<lparr>el_now := 14 * second\<rparr>" rec_a 1]
    by (auto simp: rec_a_def)
qed

lemma new_leader_recorded_witness:
  "\<exists>r v. be_get cell_backend (Some (rec_a\<lparr>le_holder := ''b'', le_acquired := 16 * second, le_renewed := 16 * second, le_transitions := 2\<rparr>, 1))
     = Some (r, v) \<and> le_holder r = ''b'' \<and> le_renewed r = 16 * second"
proof -
  have "acquire_write cell_backend Answered (acquire_plan ex_config ''b'' (16 * second) (Inr rec_a)) (Some (rec_a, 0)) \<lparr>ll_id = ''b'', ll_rev = 1\<rparr>
    = (Some (rec_a\<lparr>le_holder := ''b'', le_acquired := 16 * second, le_renewed := 16 * second, le_transitions := 2\<rparr>, 1),
       \<lparr>ll_id = ''b'', ll_rev = 1\<rparr>, True, Some ''b'')"
    by (simp add: el_run rec_a_def)
  from new_leader_recorded[OF cell_backend_ok _ this] show ?thesis by (simp add: rec_a_def)
qed

lemma free_lease_is_acquired_witness:
  "ca_phase (el_cands (acquire_end cell_backend ex_config Answered ''b'' (acquire_begin cell_backend Answered ''b'' 5 (new_election None 5))) ''b'') = Leading"
proof -
  have "\<not> unexpired cell_backend (new_election None 5)" by (simp add: unexpired_def new_election_def cell_backend_def)
  then show ?thesis using free_lease_is_acquired[OF cell_backend_ok, of "new_election None 5" "''b''" ex_config]
    by (simp add: Let_def new_election_def)
qed

subsection \<open>Where it goes wrong\<close>

text \<open>
  Two leaders. A leader that lost touch finds its own name in the expired record; another takes the
  lease before it writes. Its write fails, \<open>acquire\<close> ignores that and returns true.
\<close>

definition after_loss :: "(le_record \<times> nat) option election" where
  "after_loss = (renew_end cell_backend Unreachable ''a'' 0 (renew_begin cell_backend Unreachable ''a'' one_leader))\<lparr>el_now := 16 * second\<rparr>"

definition two_leaders :: "(le_record \<times> nat) option election" where
  "two_leaders = acquire_end cell_backend ex_config Answered ''a''
     (acquire_end cell_backend ex_config Answered ''b'' (acquire_begin cell_backend Answered ''b'' (16 * second)
       (acquire_begin cell_backend Answered ''a'' (16 * second) after_loss)))"

lemma two_leaders_reached: "(le_step cell_backend ex_config)\<^sup>*\<^sup>* (new_election None 0) two_leaders"
proof -
  let ?step = "le_step cell_backend ex_config"
  define u where "u = renew_begin cell_backend Unreachable ''a'' one_leader"
  have "?step one_leader u" unfolding u_def by (rule step_renew_begin) (simp add: one_leader_eq)
  moreover have u: "ca_phase (el_cands u ''a'') = Renewing (Inl LockFailed)" "el_now u = 0"
    by (simp_all add: u_def one_leader_eq renew_begin_def lock_get_def set_cand_def)
  moreover have "?step u (renew_end cell_backend Unreachable ''a'' 0 u)" using step_renew_end[OF u(1)] u(2) by simp
  moreover have "?step (renew_end cell_backend Unreachable ''a'' 0 u) after_loss"
    unfolding after_loss_def u_def[symmetric]
    by (rule step_time) (use u in \<open>simp add: renew_end_def renew_write_def set_cand_def\<close>)
  ultimately have "?step\<^sup>*\<^sup>* (new_election None 0) after_loss"
    using one_leader_reached by (meson rtranclp.rtrancl_into_rtrancl)
  moreover have al: "after_loss = \<lparr>el_now = 16 * second, el_store = Some (rec_a, 0), el_cands = fresh_candidate\<rparr>"
    by (simp add: after_loss_def one_leader_eq el_run fun_eq_iff)
  define v where "v = acquire_begin cell_backend Answered ''a'' (16 * second) after_loss"
  define w where "w = acquire_end cell_backend ex_config Answered ''b'' (acquire_begin cell_backend Answered ''b'' (16 * second) v)"
  have "?step after_loss v" unfolding v_def by (rule step_acquire_begin) (simp_all add: al fresh_candidate_def)
  moreover have "?step\<^sup>*\<^sup>* v w" unfolding w_def by (rule acquire_steps) (simp_all add: v_def al el_run)
  moreover have "ca_phase (el_cands w ''a'') = Acquiring (16 * second) (Inr rec_a)"
    by (simp add: w_def v_def al el_run rec_a_def)
  moreover have "two_leaders = acquire_end cell_backend ex_config Answered ''a'' w" by (simp add: two_leaders_def w_def v_def)
  ultimately show ?thesis using step_acquire_end by (metis (no_types, lifting) rtranclp.rtrancl_into_rtrancl rtranclp_trans)
qed

lemma reacquire_ignores_conflict:
  "(le_step cell_backend ex_config)\<^sup>*\<^sup>* (new_election None 0) two_leaders \<and>
   ca_phase (el_cands two_leaders ''a'') = Leading \<and> ca_phase (el_cands two_leaders ''b'') = Leading \<and>
   map_option (le_holder \<circ> fst) (el_store two_leaders) = Some ''b''"
proof (intro conjI)
  have al: "after_loss = \<lparr>el_now = 16 * second, el_store = Some (rec_a, 0), el_cands = fresh_candidate\<rparr>"
    by (simp add: after_loss_def one_leader_eq el_run fun_eq_iff)
  show "ca_phase (el_cands two_leaders ''a'') = Leading" "ca_phase (el_cands two_leaders ''b'') = Leading"
    "map_option (le_holder \<circ> fst) (el_store two_leaders) = Some ''b''"
    by (simp_all add: two_leaders_def al el_run rec_a_def)
qed (rule two_leaders_reached)

text \<open>A lease of less than a second is stored as zero seconds and never expires.\<close>

lemma subsecond_lease_never_expires:
  assumes "0 \<le> cf_lease c" "cf_lease c < second" "acquire_plan c me now (Inl NoRecord) = CreateRecord r" "me \<noteq> []"
  shows "\<not> le_expired r t"
proof -
  have "le_holder r = me" "le_seconds r = 0" using assms by (auto simp: acquire_plan_def lease_seconds_def)
  then show ?thesis using assms(4) by (simp add: le_expired_def)
qed

subsection \<open>The lock in memory (interface.go)\<close>

definition memlock_get :: "le_record option \<Rightarrow> lock_error + le_record" where
  "memlock_get m = (case m of None \<Rightarrow> Inl NoRecord | Some r \<Rightarrow> Inr r)"

definition memlock_create :: "le_record \<Rightarrow> le_record option \<Rightarrow> le_record option \<times> bool" where
  "memlock_create r m = (if m \<noteq> None then (m, False) else (Some r, True))"

definition memlock_update :: "le_record \<Rightarrow> le_record option \<Rightarrow> le_record option \<times> bool" where
  "memlock_update r m = (Some r, True)"

text \<open>Its Update reports no conflict, whatever was written since the Get.\<close>

lemma memlock_overwrites: "memlock_update r (fst (memlock_update r' m)) = (Some r, True)"
  by (simp add: memlock_update_def)

end
