(* ===== verification/Bin_Packing.thy ===== *)
theory Bin_Packing
  imports Plan_Applier
begin

section \<open>The bin-packing scheduler (internal/scheduler/binpack/binpack.go)\<close>

text \<open>
  Requests, in decreasing order of size, are placed one by one on the node the strategy picks. The
  code sorts them with \<open>sort.Slice\<close>, which leaves the order of equal sizes open, so \<open>allocate\<close>
  takes the sorted slice and \<open>size_ordered\<close> says what sorting establishes. Nodes are copied; the
  field Weight is read nowhere and left out.
\<close>

record bp_node =
  bn_id :: string
  bn_free :: resources

record bp_request =
  bq_id :: string
  bq_res :: resources

record bp_assignment =
  ba_request :: string
  ba_node :: string
  ba_placed :: bool

datatype fit_strategy = FirstFit | BestFit | WorstFit | OtherStrategy int

definition bp_score :: "resources \<Rightarrow> int" where
  "bp_score r = i64 (i64 (r_cpu r + r_mem r) + r_disk r)"

fun first_fit :: "resources \<Rightarrow> bp_node list \<Rightarrow> nat option" where
  "first_fit need [] = None"
| "first_fit need (n # ns) = (if res_fits (bn_free n) need then Some 0 else map_option Suc (first_fit need ns))"

text \<open>The loops of the other two strategies; \<open>best\<close> is the index found so far with what it would leave.\<close>

fun scan_fit :: "(int \<Rightarrow> int \<Rightarrow> bool) \<Rightarrow> resources \<Rightarrow> nat \<Rightarrow> (nat \<times> int) option \<Rightarrow> bp_node list \<Rightarrow> (nat \<times> int) option" where
  "scan_fit better need i best [] = best"
| "scan_fit better need i best (n # ns) =
     (if \<not> res_fits (bn_free n) need then scan_fit better need (Suc i) best ns
      else let left = bp_score (res_sub (bn_free n) need) in
        scan_fit better need (Suc i)
          (case best of None \<Rightarrow> Some (i, left) | Some (j, l) \<Rightarrow> if better left l then Some (i, left) else best) ns)"

definition pick :: "fit_strategy \<Rightarrow> resources \<Rightarrow> bp_node list \<Rightarrow> nat option" where
  "pick st need ns =
     (case st of
        FirstFit \<Rightarrow> first_fit need ns
      | BestFit \<Rightarrow> map_option fst (scan_fit (<) need 0 None ns)
      | WorstFit \<Rightarrow> map_option fst (scan_fit (>) need 0 None ns)
      | OtherStrategy k \<Rightarrow> None)"

fun place_each :: "fit_strategy \<Rightarrow> bp_request list \<Rightarrow> bp_node list \<Rightarrow> bp_node list \<times> bp_assignment list" where
  "place_each st [] ns = (ns, [])"
| "place_each st (q # qs) ns =
     (case pick st (bq_res q) ns of
        None \<Rightarrow>
          (let (ns', out) = place_each st qs ns
           in (ns', \<lparr>ba_request = bq_id q, ba_node = [], ba_placed = False\<rparr> # out))
      | Some i \<Rightarrow>
          (let n = ns ! i;
               (ns', out) = place_each st qs (ns[i := n\<lparr>bn_free := res_sub (bn_free n) (bq_res q)\<rparr>])
           in (ns', \<lparr>ba_request = bq_id q, ba_node = bn_id n, ba_placed = True\<rparr> # out)))"

definition allocate :: "fit_strategy \<Rightarrow> bp_request list \<Rightarrow> bp_node list \<Rightarrow> bp_assignment list" where
  "allocate st qs ns = snd (place_each st qs ns)"

definition size_ordered :: "bp_request list \<Rightarrow> bool" where
  "size_ordered qs \<longleftrightarrow> sorted_wrt (\<lambda>a b. bp_score (bq_res a) \<ge> bp_score (bq_res b)) qs"

subsection \<open>What a pick returns\<close>

lemma first_fit_Some: "first_fit need ns = Some i \<Longrightarrow> i < length ns \<and> res_fits (bn_free (ns ! i)) need"
  by (induction ns arbitrary: i) (auto split: if_splits)

lemma first_fit_None: "first_fit need ns = None \<longleftrightarrow> (\<forall>n \<in> set ns. \<not> res_fits (bn_free n) need)"
  by (induction ns) auto

text \<open>The scan returns the start value or a fitting node, and no fitting node is better.\<close>

lemma scan_fit_result:
  assumes "scan_fit better need i best ns = Some (k, l)"
  shows "best = Some (k, l) \<or> (i \<le> k \<and> k < i + length ns \<and> res_fits (bn_free (ns ! (k - i))) need \<and>
    l = bp_score (res_sub (bn_free (ns ! (k - i))) need))"
  using assms
proof (induction ns arbitrary: i best)
  case (Cons n ns)
  show ?case
  proof (cases "res_fits (bn_free n) need")
    case False
    then have "scan_fit better need (Suc i) best ns = Some (k, l)" using Cons.prems by simp
    from Cons.IH[OF this] show ?thesis by (auto simp: nth_Cons' Suc_le_eq)
  next
    case True
    define left where "left = bp_score (res_sub (bn_free n) need)"
    define best' where "best' = (case best of None \<Rightarrow> Some (i, left) | Some (j, l) \<Rightarrow> if better left l then Some (i, left) else best)"
    have "scan_fit better need (Suc i) best' ns = Some (k, l)" using Cons.prems True unfolding best'_def left_def by (simp add: Let_def)
    from Cons.IH[OF this] have "best' = Some (k, l) \<or> Suc i \<le> k \<and> k < i + length (n # ns) \<and>
        res_fits (bn_free ((n # ns) ! (k - i))) need \<and> l = bp_score (res_sub (bn_free ((n # ns) ! (k - i))) need)"
      by (auto simp: nth_Cons')
    moreover have "best' = best \<or> best' = Some (i, left)" by (auto simp: best'_def split: option.splits)
    ultimately show ?thesis using True by (auto simp: left_def)
  qed
qed simp

lemma scan_fit_None: "scan_fit better need i best ns = None \<longleftrightarrow> best = None \<and> (\<forall>n \<in> set ns. \<not> res_fits (bn_free n) need)"
  by (induction ns arbitrary: i best) (auto simp: Let_def split: option.splits)

lemma scan_fit_best:
  assumes asym: "\<And>a b. better a b \<Longrightarrow> \<not> better b a"
    and trans: "\<And>a b c. \<not> better a b \<Longrightarrow> \<not> better b c \<Longrightarrow> \<not> better a c"
    and "scan_fit better need i best ns = Some (k, l)"
  shows "(\<forall>j m. best = Some (j, m) \<longrightarrow> \<not> better m l) \<and>
    (\<forall>n \<in> set ns. res_fits (bn_free n) need \<longrightarrow> \<not> better (bp_score (res_sub (bn_free n) need)) l)"
  using assms(3)
proof (induction ns arbitrary: i best)
  case Nil then show ?case using asym by auto
next
  case (Cons n ns)
  show ?case
  proof (cases "res_fits (bn_free n) need")
    case False
    then have "scan_fit better need (Suc i) best ns = Some (k, l)" using Cons.prems by simp
    from Cons.IH[OF this] show ?thesis using False by simp
  next
    case True
    define left where "left = bp_score (res_sub (bn_free n) need)"
    define best' where "best' = (case best of None \<Rightarrow> Some (i, left) | Some (j, l) \<Rightarrow> if better left l then Some (i, left) else best)"
    have "scan_fit better need (Suc i) best' ns = Some (k, l)" using Cons.prems True unfolding best'_def left_def by (simp add: Let_def)
    note IH = Cons.IH[OF this]
    have "best' \<noteq> None" by (auto simp: best'_def split: option.splits)
    then obtain j m where b: "best' = Some (j, m)" by auto
    have "\<not> better left m" "\<And>j' m'. best = Some (j', m') \<Longrightarrow> \<not> better m' m"
      using b asym[of m m] asym by (auto simp: best'_def split: option.splits if_splits)
    then have "\<not> better left l" "\<And>j' m'. best = Some (j', m') \<Longrightarrow> \<not> better m' l"
      using IH b trans by blast+
    then show ?thesis using IH by (auto simp: left_def)
  qed
qed

lemma pick_fits:
  assumes "pick st need ns = Some i"
  shows "i < length ns \<and> res_fits (bn_free (ns ! i)) need"
  using assms first_fit_Some[of need ns i] scan_fit_result[of _ need 0 None ns i]
  by (cases st) (auto simp: pick_def)

lemma pick_None:
  assumes "pick st need ns = None" "\<forall>k. st \<noteq> OtherStrategy k" "n \<in> set ns"
  shows "\<not> res_fits (bn_free n) need"
  using assms by (cases st) (auto simp: pick_def first_fit_None scan_fit_None)

text \<open>The best fit leaves the least, the worst fit the most, of all nodes that fit.\<close>

lemma best_fit_least:
  assumes "pick BestFit need ns = Some i" "n \<in> set ns" "res_fits (bn_free n) need"
  shows "bp_score (res_sub (bn_free (ns ! i)) need) \<le> bp_score (res_sub (bn_free n) need)"
proof -
  obtain l where l: "scan_fit (<) need 0 None ns = Some (i, l)" using assms(1) by (auto simp: pick_def)
  have "\<not> bp_score (res_sub (bn_free n) need) < l" using scan_fit_best[of "(<)", OF _ _ l] assms(2,3) by auto
  then show ?thesis using scan_fit_result[OF l] by auto
qed

lemma worst_fit_most:
  assumes "pick WorstFit need ns = Some i" "n \<in> set ns" "res_fits (bn_free n) need"
  shows "bp_score (res_sub (bn_free n) need) \<le> bp_score (res_sub (bn_free (ns ! i)) need)"
proof -
  obtain l where l: "scan_fit (>) need 0 None ns = Some (i, l)" using assms(1) by (auto simp: pick_def)
  have "\<not> bp_score (res_sub (bn_free n) need) > l" using scan_fit_best[of "(>)", OF _ _ l] assms(2,3) by auto
  then show ?thesis using scan_fit_result[OF l] by auto
qed

subsection \<open>Capacity\<close>

text \<open>What the assignments put on a node.\<close>

definition placed_on :: "string \<Rightarrow> dim \<Rightarrow> bp_request list \<Rightarrow> bp_assignment list \<Rightarrow> int" where
  "placed_on k d qs out = (\<Sum>(q, a) \<leftarrow> zip qs out. if ba_placed a \<and> ba_node a = k then fld d (bq_res q) else 0)"

lemma placed_on_simps [simp]:
  "placed_on k d [] out = 0"
  "placed_on k d (q # qs) (a # out) = (if ba_placed a \<and> ba_node a = k then fld d (bq_res q) else 0) + placed_on k d qs out"
  by (simp_all add: placed_on_def)

definition nodes_ok :: "bp_node list \<Rightarrow> bool" where
  "nodes_ok ns \<longleftrightarrow> distinct (map bn_id ns) \<and> (\<forall>n \<in> set ns. res_ok (bn_free n))"

lemma nodes_ok_place:
  assumes "nodes_ok ns" "i < length ns" "res_ok r"
  shows "nodes_ok (ns[i := (ns ! i)\<lparr>bn_free := res_sub (bn_free (ns ! i)) r\<rparr>])"
proof -
  have "map bn_id (ns[i := (ns ! i)\<lparr>bn_free := f\<rparr>]) = map bn_id ns" for f
    using assms(2) by (intro nth_equalityI) (auto simp: nth_list_update)
  moreover have "res_ok (res_sub (bn_free (ns ! i)) r)" using assms by (intro res_ok_sub) (auto simp: nodes_ok_def)
  ultimately show ?thesis using assms(1) set_update_subset_insert[of ns i] unfolding nodes_ok_def by fastforce
qed

lemma place_each_balance:
  assumes "nodes_ok ns" "\<forall>q \<in> set qs. res_ok (bq_res q)" "place_each st qs ns = (ns', out)"
  shows "length ns' = length ns \<and> map ba_request out = map bq_id qs \<and> nodes_ok ns' \<and>
    (\<forall>i < length ns. bn_id (ns' ! i) = bn_id (ns ! i) \<and>
       (\<forall>d. placed_on (bn_id (ns ! i)) d qs out + fld d (bn_free (ns' ! i)) = fld d (bn_free (ns ! i))))"
  using assms
proof (induction qs arbitrary: ns ns' out)
  case Nil then show ?case by simp
next
  case (Cons q qs)
  show ?case
  proof (cases "pick st (bq_res q) ns")
    case None
    then obtain out1 where o: "place_each st qs ns = (ns', out1)"
      "out = \<lparr>ba_request = bq_id q, ba_node = [], ba_placed = False\<rparr> # out1"
      using Cons.prems(3) by (auto split: prod.splits)
    show ?thesis using Cons.IH[OF Cons.prems(1) _ o(1)] Cons.prems(2) o(2) by (simp add: placed_on_def)
  next
    case (Some j)
    note j = pick_fits[OF Some]
    define n where "n = ns ! j"
    define ns1 where "ns1 = ns[j := n\<lparr>bn_free := res_sub (bn_free n) (bq_res q)\<rparr>]"
    obtain out1 where o: "place_each st qs ns1 = (ns', out1)"
      "out = \<lparr>ba_request = bq_id q, ba_node = bn_id n, ba_placed = True\<rparr> # out1"
      using Cons.prems(3) Some by (auto simp: n_def ns1_def Let_def split: prod.splits)
    have r: "res_ok (bq_res q)" "res_ok (bn_free n)" using Cons.prems(1,2) j by (auto simp: nodes_ok_def n_def)
    have ok: "nodes_ok ns1" unfolding ns1_def n_def using nodes_ok_place Cons.prems(1) j r(1) by blast
    note IH = Cons.IH[OF ok _ o(1)]
    have fits: "fld d (bq_res q) \<le> fld d (bn_free n)" for d using j by (simp add: res_fits_fld n_def)
    have sub: "fld d (res_sub (bn_free n) (bq_res q)) = fld d (bn_free n) - fld d (bq_res q)" for d
      using fld_sub_ok[OF r(2,1), of d] fits[of d] by simp
    have at: "bn_id (ns1 ! i) = bn_id (ns ! i) \<and>
        fld d (bn_free (ns1 ! i)) = fld d (bn_free (ns ! i)) - (if bn_id (ns ! i) = bn_id n then fld d (bq_res q) else 0)"
      if "i < length ns" for i d
    proof -
      have "bn_id (ns ! i) = bn_id n \<longleftrightarrow> i = j"
        using Cons.prems(1) that j nth_eq_iff_index_eq[of "map bn_id ns" i j] by (simp add: nodes_ok_def n_def)
      then show ?thesis using that sub by (auto simp: ns1_def n_def nth_list_update)
    qed
    have "length ns1 = length ns" by (simp add: ns1_def)
    note IH' = IH[unfolded this]
    have "placed_on (bn_id (ns ! i)) d (q # qs) out + fld d (bn_free (ns' ! i)) = fld d (bn_free (ns ! i))" if "i < length ns" for i d
    proof -
      have "placed_on (bn_id (ns1 ! i)) d qs out1 + fld d (bn_free (ns' ! i)) = fld d (bn_free (ns1 ! i))"
        using IH' Cons.prems(2) that by simp
      then have "placed_on (bn_id (ns ! i)) d qs out1 + fld d (bn_free (ns' ! i)) = fld d (bn_free (ns1 ! i))"
        using at[OF that] by metis
      then show ?thesis using at[OF that, of d] o(2) by (cases "bn_id (ns ! i) = bn_id n") simp_all
    qed
    moreover have "\<forall>i < length ns. bn_id (ns' ! i) = bn_id (ns ! i)" using IH' Cons.prems(2) at by simp
    ultimately show ?thesis using IH' Cons.prems(2) o(2) by simp
  qed
qed

text \<open>What is free only shrinks, so a request that fits nowhere when its turn comes fits nowhere at the end.\<close>

lemma place_each_shrinks:
  assumes "nodes_ok ns" "\<forall>q \<in> set qs. res_ok (bq_res q)" "place_each st qs ns = (ns', out)" "i < length ns"
  shows "res_fits (bn_free (ns ! i)) (bn_free (ns' ! i))"
proof -
  have "0 \<le> placed_on k d rs os" if "\<forall>q \<in> set rs. res_ok (bq_res q)" for k d rs os
    using that
  proof (induction rs arbitrary: os)
    case (Cons r rs)
    then have "0 \<le> fld d (bq_res r)" by (simp add: res_ok_def)
    then show ?case using Cons by (cases os) (auto simp: placed_on_def)
  qed (simp add: placed_on_def)
  then show ?thesis using place_each_balance[OF assms(1-3)] assms(2,4) unfolding res_fits_fld
    by (metis add.commute add_increasing2 order_refl)
qed

lemma place_each_unplaced:
  assumes "nodes_ok ns" "\<forall>q \<in> set qs. res_ok (bq_res q)" "place_each st qs ns = (ns', out)" "\<forall>k. st \<noteq> OtherStrategy k"
    and "(q, a) \<in> set (zip qs out)" "\<not> ba_placed a" "n' \<in> set ns'"
  shows "\<not> res_fits (bn_free n') (bq_res q)"
  using assms
proof (induction qs arbitrary: ns out)
  case (Cons r qs)
  show ?case
  proof (cases "pick st (bq_res r) ns")
    case None
    then obtain out1 where o: "place_each st qs ns = (ns', out1)"
      "out = \<lparr>ba_request = bq_id r, ba_node = [], ba_placed = False\<rparr> # out1"
      using Cons.prems(3) by (auto split: prod.splits)
    show ?thesis
    proof (cases "(q, a) \<in> set (zip qs out1)")
      case True then show ?thesis using Cons.IH[OF Cons.prems(1) _ o(1)] Cons.prems by simp
    next
      case False
      then have q: "q = r" using Cons.prems(5) o(2) by auto
      obtain i where i: "i < length ns'" "n' = ns' ! i" using Cons.prems(7) by (auto simp: in_set_conv_nth)
      have len: "length ns' = length ns" using place_each_balance[OF Cons.prems(1) _ o(1)] Cons.prems(2) by simp
      have "res_fits (bn_free (ns ! i)) (bn_free n')"
        using place_each_shrinks[OF Cons.prems(1) _ o(1)] Cons.prems(2) i len by simp
      moreover have "\<not> res_fits (bn_free (ns ! i)) (bq_res r)" using pick_None[OF None Cons.prems(4)] i len by simp
      ultimately show ?thesis unfolding res_fits_fld q by (meson order_trans)
    qed
  next
    case (Some j)
    define ns1 where "ns1 = ns[j := (ns ! j)\<lparr>bn_free := res_sub (bn_free (ns ! j)) (bq_res r)\<rparr>]"
    obtain out1 where o: "place_each st qs ns1 = (ns', out1)"
      "out = \<lparr>ba_request = bq_id r, ba_node = bn_id (ns ! j), ba_placed = True\<rparr> # out1"
      using Cons.prems(3) Some by (auto simp: ns1_def Let_def split: prod.splits)
    have "nodes_ok ns1" unfolding ns1_def using nodes_ok_place Cons.prems(1,2) pick_fits[OF Some] by simp
    moreover have "(q, a) \<in> set (zip qs out1)" using Cons.prems(5,6) o(2) by auto
    ultimately show ?thesis using Cons.IH[OF _ _ o(1)] Cons.prems by simp
  qed
qed simp


definition ex_nodes :: "bp_node list" where
  "ex_nodes = [\<lparr>bn_id = ''a'', bn_free = \<lparr>r_cpu = 4, r_mem = 8, r_disk = 10\<rparr>\<rparr>, \<lparr>bn_id = ''b'', bn_free = \<lparr>r_cpu = 2, r_mem = 8, r_disk = 10\<rparr>\<rparr>]"

definition ex_requests :: "bp_request list" where
  "ex_requests = [\<lparr>bq_id = ''x'', bq_res = \<lparr>r_cpu = 3, r_mem = 4, r_disk = 1\<rparr>\<rparr>, \<lparr>bq_id = ''y'', bq_res = \<lparr>r_cpu = 3, r_mem = 1, r_disk = 1\<rparr>\<rparr>]"


end
