(* ===== verification/Json_Patch.thy ===== *)
theory Json_Patch
  imports Go_Strings
begin

section \<open>Patches of JSON documents (internal/apimachinery/patch)\<close>

text \<open>
  Merge patches (RFC 7396), strategic merge patches and the operations of JSON patches (RFC 6902)
  on decoded documents. An object is a partial map from its keys; ranging over a Go map in any
  order gives the same, since each key is treated on its own. The code updates documents in
  place; a decoded document is a tree, so that is the functional update of the tree.
\<close>

subsection \<open>Documents\<close>

datatype json =
  JNull
| JBool bool
| JNumber int
| JString string
| JArray "json list"
| JObject "string \<rightharpoonup> json"

text \<open>A failed type assertion to an object continues with an empty one.\<close>

definition fields_or_none :: "json \<Rightarrow> string \<rightharpoonup> json" where
  "fields_or_none t = (case t of JObject m \<Rightarrow> m | _ \<Rightarrow> Map.empty)"

abbreviation or_null :: "json option \<Rightarrow> json" where
  "or_null x \<equiv> (case x of None \<Rightarrow> JNull | Some v \<Rightarrow> v)"

subsection \<open>Merge patch\<close>

definition merge_fields :: "(string \<rightharpoonup> json) \<Rightarrow> (string \<rightharpoonup> json) \<Rightarrow> (string \<rightharpoonup> (json \<Rightarrow> json)) \<Rightarrow> json" where
  "merge_fields tm pm sub =
     JObject (\<lambda>k. case pm k of
       None \<Rightarrow> tm k
     | Some v \<Rightarrow> if v = JNull then None else map_option (\<lambda>f. f (or_null (tm k))) (sub k))"

primrec merge_patch :: "json \<Rightarrow> json \<Rightarrow> json" where
  "merge_patch JNull = (\<lambda>t. JNull)"
| "merge_patch (JBool b) = (\<lambda>t. JBool b)"
| "merge_patch (JNumber n) = (\<lambda>t. JNumber n)"
| "merge_patch (JString s) = (\<lambda>t. JString s)"
| "merge_patch (JArray xs) = (\<lambda>t. JArray xs)"
| "merge_patch (JObject pm) = (\<lambda>t. merge_fields (fields_or_none t) pm (map_option merge_patch \<circ> pm))"

lemma merge_object:
  "merge_patch (JObject pm) t =
     JObject (\<lambda>k. case pm k of
       None \<Rightarrow> fields_or_none t k
     | Some v \<Rightarrow> if v = JNull then None else Some (merge_patch v (or_null (fields_or_none t k))))"
  by (auto simp: merge_fields_def fun_eq_iff split: option.split)

declare merge_patch.simps(6) [simp del]

subsection \<open>Strategic merge\<close>

text \<open>
  The merge keys by dotted path. Merging a list of objects by key runs through the patch elements
  with the target list and the index of each key; of equal keys in the target the last counts.
  The argument \<open>mk\<close> is the merge key of the list at hand.
\<close>

definition key_of :: "string \<Rightarrow> json \<Rightarrow> string" where
  "key_of mk e = (case fields_or_none e mk of Some (JString s) \<Rightarrow> s | _ \<Rightarrow> [])"

definition is_object :: "json \<Rightarrow> bool" where
  "is_object e = (case e of JObject m \<Rightarrow> True | _ \<Rightarrow> False)"

fun index_keys :: "string \<Rightarrow> nat \<Rightarrow> json list \<Rightarrow> (string \<rightharpoonup> nat)" where
  "index_keys mk i [] = Map.empty"
| "index_keys mk i (e # es) =
     (if is_object e then (if key_of mk e \<in> dom (index_keys mk (Suc i) es) then index_keys mk (Suc i) es
                           else (index_keys mk (Suc i) es)(key_of mk e \<mapsto> i))
      else index_keys mk (Suc i) es)"

fun merge_elements :: "string \<Rightarrow> (json \<times> (json \<Rightarrow> json)) list \<Rightarrow> json list \<Rightarrow> (string \<rightharpoonup> nat) \<Rightarrow> json list" where
  "merge_elements mk [] ts ix = ts"
| "merge_elements mk ((e, f) # es) ts ix =
     (if is_object e then
        (case ix (key_of mk e) of
           Some i \<Rightarrow> merge_elements mk es (ts[i := f (ts ! i)]) ix
         | None \<Rightarrow> merge_elements mk es (ts @ [e]) (ix(key_of mk e \<mapsto> length ts)))
      else merge_elements mk es ts ix)"

definition child_path :: "string \<Rightarrow> string \<Rightarrow> string" where
  "child_path path k = (if path \<noteq> [] then path @ ''.'' @ k else k)"

text \<open>A list made from no list and no elements is a nil slice, which is written as null.\<close>

definition list_value :: "json \<Rightarrow> json list \<Rightarrow> json" where
  "list_value t ts = (case t of JArray us \<Rightarrow> JArray ts | _ \<Rightarrow> if ts = [] then JNull else JArray ts)"

definition elements_of :: "json \<Rightarrow> json list" where
  "elements_of t = (case t of JArray ts \<Rightarrow> ts | _ \<Rightarrow> [])"

definition strategic_fields ::
  "(string \<rightharpoonup> string) \<Rightarrow> string \<Rightarrow> (string \<rightharpoonup> json) \<Rightarrow> (string \<rightharpoonup> json) \<Rightarrow> (string \<rightharpoonup> (string option \<Rightarrow> string \<Rightarrow> json \<Rightarrow> json)) \<Rightarrow> json" where
  "strategic_fields keys path tm pm sub =
     JObject (\<lambda>k. case pm k of
       None \<Rightarrow> tm k
     | Some v \<Rightarrow> if v = JNull then None
         else map_option (\<lambda>f. f (keys (child_path path k)) (child_path path k) (or_null (tm k))) (sub k))"

primrec strategic :: "(string \<rightharpoonup> string) \<Rightarrow> json \<Rightarrow> string option \<Rightarrow> string \<Rightarrow> json \<Rightarrow> json" where
  "strategic keys JNull = (\<lambda>mk path t. JNull)"
| "strategic keys (JBool b) = (\<lambda>mk path t. JBool b)"
| "strategic keys (JNumber n) = (\<lambda>mk path t. JNumber n)"
| "strategic keys (JString s) = (\<lambda>mk path t. JString s)"
| "strategic keys (JArray xs) = (\<lambda>mk path t.
     case mk of
       None \<Rightarrow> JArray xs
     | Some key \<Rightarrow> list_value t (merge_elements key (zip xs (map (\<lambda>f. f None path) (map (strategic keys) xs)))
                            (elements_of t) (index_keys key 0 (elements_of t))))"
| "strategic keys (JObject pm) = (\<lambda>mk path t. strategic_fields keys path (fields_or_none t) pm (map_option (strategic keys) \<circ> pm))"

definition strategic_merge :: "(string \<rightharpoonup> string) \<Rightarrow> json \<Rightarrow> json \<Rightarrow> json" where
  "strategic_merge keys target patch = strategic keys patch None [] target"

subsection \<open>JSON pointers (pointer.go)\<close>

definition jp_unescape :: "string \<Rightarrow> string" where
  "jp_unescape tok = replace_all ''~0'' ''~'' (replace_all ''~1'' ''/'' tok)"

datatype patch_error = BadPointer | NotFound | BadIndex | CannotTraverse | NotAddressable | RootRemoved | TestFailed

definition jp_tokens :: "string \<Rightarrow> patch_error + string list" where
  "jp_tokens ptr =
     (case ptr of [] \<Rightarrow> Inr []
      | c # cs \<Rightarrow> if c \<noteq> CHR ''/'' then Inl BadPointer else Inr (map jp_unescape (split_on CHR ''/'' cs)))"

text \<open>An index: \<open>strconv.Atoi\<close>, and not below zero or at or past the bound.\<close>

definition jp_index :: "string \<Rightarrow> nat \<Rightarrow> nat option" where
  "jp_index tok bound = (case atoi tok of None \<Rightarrow> None | Some i \<Rightarrow> if i < 0 \<or> i \<ge> int bound then None else Some (nat i))"

fun walk :: "json \<Rightarrow> string list \<Rightarrow> patch_error + json" where
  "walk cur [] = Inr cur"
| "walk cur (tok # toks) =
     (case cur of
        JObject m \<Rightarrow> (case m tok of None \<Rightarrow> Inl NotFound | Some v \<Rightarrow> walk v toks)
      | JArray xs \<Rightarrow> (case jp_index tok (length xs) of None \<Rightarrow> Inl BadIndex | Some i \<Rightarrow> walk (xs ! i) toks)
      | _ \<Rightarrow> Inl CannotTraverse)"

definition jp_get :: "json \<Rightarrow> string \<Rightarrow> patch_error + json" where
  "jp_get doc ptr = (case jp_tokens ptr of Inl e \<Rightarrow> Inl e | Inr toks \<Rightarrow> walk doc toks)"

text \<open>The update of a tree at a path that resolves, in place of the writes through references.\<close>

fun put_at :: "json \<Rightarrow> string list \<Rightarrow> json \<Rightarrow> json" where
  "put_at cur [] v = v"
| "put_at cur (tok # toks) v =
     (case cur of
        JObject m \<Rightarrow> (case m tok of None \<Rightarrow> cur | Some w \<Rightarrow> JObject (m(tok \<mapsto> put_at w toks v)))
      | JArray xs \<Rightarrow> (case jp_index tok (length xs) of None \<Rightarrow> cur | Some i \<Rightarrow> JArray (xs[i := put_at (xs ! i) toks v]))
      | _ \<Rightarrow> cur)"

definition pointer_parent :: "string \<Rightarrow> string" where
  "pointer_parent ptr =
     (let r = dropWhile (\<lambda>c. c \<noteq> CHR ''/'') (rev ptr) in if length r \<le> 1 then [] else rev (tl r))"

text \<open>
  What an insertion and a removal do to the node that holds the place. A slice that has changed is
  written back at the pointer of the parent (\<open>jpReplaceAt\<close>), which is the update there.
\<close>

definition insert_in :: "json \<Rightarrow> string \<Rightarrow> json \<Rightarrow> patch_error + json" where
  "insert_in p tok v =
     (case p of
        JObject m \<Rightarrow> Inr (JObject (m(tok \<mapsto> v)))
      | JArray xs \<Rightarrow>
          if tok = ''-'' then Inr (JArray (xs @ [v]))
          else (case jp_index tok (Suc (length xs)) of
            None \<Rightarrow> Inl BadIndex | Some i \<Rightarrow> Inr (JArray (take i xs @ [v] @ drop i xs)))
      | _ \<Rightarrow> Inl NotAddressable)"

definition remove_in :: "json \<Rightarrow> string \<Rightarrow> patch_error + json" where
  "remove_in p tok =
     (case p of
        JObject m \<Rightarrow> if m tok = None then Inl NotFound else Inr (JObject (m(tok := None)))
      | JArray xs \<Rightarrow>
          (case jp_index tok (length xs) of None \<Rightarrow> Inl BadIndex | Some i \<Rightarrow> Inr (JArray (take i xs @ drop (Suc i) xs)))
      | _ \<Rightarrow> Inl NotAddressable)"

definition at_parent :: "json \<Rightarrow> string \<Rightarrow> (json \<Rightarrow> string \<Rightarrow> patch_error + json) \<Rightarrow> patch_error + json" where
  "at_parent doc ptr f =
     (case (jp_tokens ptr, jp_tokens (pointer_parent ptr)) of
        (Inr toks, Inr ptoks) \<Rightarrow>
          (case walk doc ptoks of Inl e \<Rightarrow> Inl e
           | Inr p \<Rightarrow> (case f p (last toks) of Inl e \<Rightarrow> Inl e | Inr p' \<Rightarrow> Inr (put_at doc ptoks p')))
      | (Inl e, _) \<Rightarrow> Inl e
      | (_, Inl e) \<Rightarrow> Inl e)"

definition jp_add :: "json \<Rightarrow> string \<Rightarrow> json \<Rightarrow> patch_error + json" where
  "jp_add doc ptr v = (if ptr = [] then Inr v else at_parent doc ptr (\<lambda>p tok. insert_in p tok v))"

definition jp_remove :: "json \<Rightarrow> string \<Rightarrow> patch_error + json" where
  "jp_remove doc ptr = (if ptr = [] then Inl RootRemoved else at_parent doc ptr remove_in)"

text \<open>
  The operations; copy is left out: it makes two places of the document share what they hold, and
  a later operation on one shows at the other.
\<close>

datatype jp_op = Add string json | Remove string | Replace string json | Move string string | Test string json

definition jp_step :: "json \<Rightarrow> jp_op \<Rightarrow> patch_error + json" where
  "jp_step doc op =
     (case op of
        Add path v \<Rightarrow> jp_add doc path v
      | Remove path \<Rightarrow> jp_remove doc path
      | Replace path v \<Rightarrow> (case jp_get doc path of Inl e \<Rightarrow> Inl e | Inr w \<Rightarrow> jp_add doc path v)
      | Move from path \<Rightarrow>
          (case jp_get doc from of Inl e \<Rightarrow> Inl e
           | Inr v \<Rightarrow> (case jp_remove doc from of Inl e \<Rightarrow> Inl e | Inr doc' \<Rightarrow> jp_add doc' path v))
      | Test path v \<Rightarrow> (case jp_get doc path of Inl e \<Rightarrow> Inl e | Inr w \<Rightarrow> if w = v then Inr doc else Inl TestFailed))"

fun json_patch :: "json \<Rightarrow> jp_op list \<Rightarrow> patch_error + json" where
  "json_patch doc [] = Inr doc"
| "json_patch doc (op # ops) = (case jp_step doc op of Inl e \<Rightarrow> Inl e | Inr doc' \<Rightarrow> json_patch doc' ops)"

subsection \<open>Laws of the merge patch\<close>

lemma fields_object [simp]: "fields_or_none (JObject m) = m"
  by (simp add: fields_or_none_def)

lemma json_object_induct [case_names JNull JBool JNumber JString JArray JObject]:
  assumes "P JNull" "\<And>b. P (JBool b)" "\<And>n. P (JNumber n)" "\<And>s. P (JString s)" "\<And>xs. (\<And>x. x \<in> set xs \<Longrightarrow> P x) \<Longrightarrow> P (JArray xs)"
    and "\<And>m. (\<And>k v. m k = Some v \<Longrightarrow> P v) \<Longrightarrow> P (JObject m)"
  shows "P v"
proof (induction v)
  case (JObject m)
  then show ?case using assms(6) by (metis option.set_intros rangeI)
qed (use assms in auto)

text \<open>A merge patch can be repeated: applying it a second time changes nothing.\<close>

lemma merge_patch_idempotent: "merge_patch p (merge_patch p t) = merge_patch p t"
proof (induction p arbitrary: t rule: json_object_induct)
  case (JObject pm)
  then show ?case by (simp add: merge_object fun_eq_iff split: option.split)
qed simp_all

text \<open>Documents without null under a key, and the patch from one document to another.\<close>

primrec null_free :: "json \<Rightarrow> bool" where
  "null_free JNull = False"
| "null_free (JBool b) = True"
| "null_free (JNumber n) = True"
| "null_free (JString s) = True"
| "null_free (JArray xs) = True"
| "null_free (JObject m) = (\<forall>k. (map_option null_free \<circ> m) k \<noteq> Some False)"

lemma null_free_object: "null_free (JObject m) \<longleftrightarrow> (\<forall>k v. m k = Some v \<longrightarrow> null_free v)"
  by (auto simp: map_option_case split: option.splits)

definition diff_fields :: "(string \<rightharpoonup> json) \<Rightarrow> (string \<rightharpoonup> json) \<Rightarrow> (string \<rightharpoonup> (json \<Rightarrow> json)) \<Rightarrow> json" where
  "diff_fields am bm sub =
     JObject (\<lambda>k. case bm k of None \<Rightarrow> if am k = None then None else Some JNull
                 | Some y \<Rightarrow> map_option (\<lambda>f. f (or_null (am k))) (sub k))"

primrec merge_diff :: "json \<Rightarrow> json \<Rightarrow> json" where
  "merge_diff JNull = (\<lambda>a. JNull)"
| "merge_diff (JBool b) = (\<lambda>a. JBool b)"
| "merge_diff (JNumber n) = (\<lambda>a. JNumber n)"
| "merge_diff (JString s) = (\<lambda>a. JString s)"
| "merge_diff (JArray xs) = (\<lambda>a. JArray xs)"
| "merge_diff (JObject bm) = (\<lambda>a. diff_fields (fields_or_none a) bm (map_option merge_diff \<circ> bm))"

lemma merge_diff_object:
  "merge_diff (JObject bm) a = JObject (\<lambda>k. case bm k of None \<Rightarrow> if fields_or_none a k = None then None else Some JNull
     | Some y \<Rightarrow> Some (merge_diff y (or_null (fields_or_none a k))))"
  by (auto simp: diff_fields_def fun_eq_iff split: option.split)

declare merge_diff.simps(6) [simp del]

lemma merge_diff_null: "merge_diff b a = JNull \<longleftrightarrow> b = JNull"
  by (cases b) (auto simp: merge_diff_object)

text \<open>Every change can be written as a merge patch: for any document and any target without null
  values under its keys there is a patch, the recursive difference of the two, that turns the
  one into the other exactly.\<close>

theorem merge_patch_reaches:
  assumes "null_free b"
  shows "merge_patch (merge_diff b a) a = b"
  using assms
proof (induction b arbitrary: a rule: json_object_induct)
  case (JObject bm)
  show ?case
    unfolding merge_diff_object merge_object json.inject fun_eq_iff
  proof
    fix k
    show "(case case bm k of None \<Rightarrow> if fields_or_none a k = None then None else Some JNull
             | Some y \<Rightarrow> Some (merge_diff y (or_null (fields_or_none a k))) of
           None \<Rightarrow> fields_or_none a k
         | Some v \<Rightarrow> if v = JNull then None else Some (merge_patch v (or_null (fields_or_none a k)))) = bm k"
    proof (cases "bm k")
      case (Some y)
      then have "null_free y" using JObject.prems by (simp add: null_free_object del: null_free.simps)
      then have "y \<noteq> JNull" by auto
      then show ?thesis using Some JObject.IH[OF Some \<open>null_free y\<close>] by (simp add: merge_diff_null)
    qed simp
  qed
qed (simp_all add: fields_or_none_def)

text \<open>Without merge keys a strategic merge patch is the merge patch of RFC 7396.\<close>

lemma strategic_without_keys: "strategic_merge Map.empty t p = merge_patch p t"
proof -
  have "strategic Map.empty p None path t = merge_patch p t" for path
  proof (induction p arbitrary: path t rule: json_object_induct)
    case (JObject pm)
    then show ?case
      by (simp add: strategic_fields_def merge_object fun_eq_iff map_option_case split: option.split)
  qed simp_all
  then show ?thesis by (simp add: strategic_merge_def)
qed

subsection \<open>Pointers\<close>

definition jp_escape :: "string \<Rightarrow> string" where
  "jp_escape tok = concat (map (\<lambda>c. if c = CHR ''~'' then ''~0'' else if c = CHR ''/'' then ''~1'' else [c]) tok)"

definition pointer_of :: "string list \<Rightarrow> string" where
  "pointer_of toks = concat (map (\<lambda>t. CHR ''/'' # jp_escape t) toks)"

lemma unescape_slashes: "replace_all ''~1'' ''/'' (jp_escape t) = concat (map (\<lambda>c. if c = CHR ''~'' then ''~0'' else [c]) t)"
  by (induction t) (auto simp: jp_escape_def replace_all_Cons)

lemma unescape_tildes: "replace_all ''~0'' ''~'' (concat (map (\<lambda>c. if c = CHR ''~'' then ''~0'' else [c]) t)) = t"
  by (induction t) (auto simp: replace_all_Cons)

lemma unescape_escape [simp]: "jp_unescape (jp_escape t) = t"
  by (simp add: jp_unescape_def unescape_slashes unescape_tildes)

lemma escape_no_slash: "CHR ''/'' \<notin> set (jp_escape t)"
  by (auto simp: jp_escape_def split: if_splits)

lemma split_pointer: "split_on CHR ''/'' (jp_escape t @ pointer_of ts) = jp_escape t # map jp_escape ts"
proof (induction ts arbitrary: t)
  case Nil then show ?case by (simp add: pointer_of_def escape_no_slash)
next
  case (Cons u ts)
  have "pointer_of (u # ts) = CHR ''/'' # jp_escape u @ pointer_of ts" by (simp add: pointer_of_def)
  then show ?case using Cons by (simp add: split_on_append escape_no_slash)
qed

lemma tokens_pointer [simp]: "jp_tokens (pointer_of ts) = Inr ts"
proof (cases ts)
  case (Cons t us)
  have "pointer_of ts = CHR ''/'' # jp_escape t @ pointer_of us" by (simp add: Cons pointer_of_def)
  then show ?thesis by (simp add: jp_tokens_def split_pointer Cons comp_def)
qed (simp add: jp_tokens_def pointer_of_def)

lemma pointer_parent_of [simp]: "pointer_parent (pointer_of (ts @ [t])) = pointer_of ts"
proof -
  have "dropWhile (\<lambda>c. c \<noteq> CHR ''/'') (rev (jp_escape t) @ CHR ''/'' # rev (pointer_of ts)) = CHR ''/'' # rev (pointer_of ts)"
    using escape_no_slash by (subst dropWhile_append2) auto
  then show ?thesis by (auto simp: pointer_parent_def pointer_of_def Let_def)
qed

lemma pointer_empty [simp]: "pointer_of ts = [] \<longleftrightarrow> ts = []"
  by (cases ts) (auto simp: pointer_of_def)

subsection \<open>Reading and writing a tree at a path\<close>

lemma jp_index_bound: "jp_index tok n = Some i \<Longrightarrow> i < n"
  by (auto simp: jp_index_def split: option.splits if_splits)

lemma jp_index_nth: "jp_index tok (length xs) = Some i \<Longrightarrow> xs[i := v] ! i = v"
  using jp_index_bound by simp

lemma walk_put: "walk doc ts = Inr p \<Longrightarrow> walk (put_at doc ts v) ts = Inr v"
  by (induction doc ts arbitrary: p rule: walk.induct)
    (auto split: json.splits option.splits simp: jp_index_nth)

lemma put_put: "walk doc ts = Inr p \<Longrightarrow> put_at (put_at doc ts v) ts w = put_at doc ts w"
  by (induction doc ts arbitrary: p rule: walk.induct)
    (auto split: json.splits option.splits simp: jp_index_nth)

lemma put_same: "walk doc ts = Inr p \<Longrightarrow> put_at doc ts p = doc"
  by (induction doc ts arbitrary: p rule: walk.induct)
    (auto split: json.splits option.splits dest: jp_index_bound simp: fun_upd_idem)

lemma walk_snoc: "walk doc (ts @ [t]) = (case walk doc ts of Inl e \<Rightarrow> Inl e | Inr p \<Rightarrow> walk p [t])"
  by (induction doc ts rule: walk.induct) (auto split: json.splits option.splits)

lemma at_parent_pointer:
  "at_parent doc (pointer_of (ts @ [t])) f =
     (case walk doc ts of Inl e \<Rightarrow> Inl e | Inr p \<Rightarrow> (case f p t of Inl e \<Rightarrow> Inl e | Inr p' \<Rightarrow> Inr (put_at doc ts p')))"
  by (simp add: at_parent_def split: sum.split)

text \<open>Adding and removing are inverse: when adding at a pointer succeeds, the value reads back from
  it, and removing it gives the document of before, if the place was a new key or an index of an
  array. A pointer is any list of reference tokens, escaped as RFC 6901 says.\<close>

theorem add_remove_inverse:
  assumes add: "jp_add doc (pointer_of (ts @ [t])) v = Inr doc'"
    and new: "jp_get doc (pointer_of (ts @ [t])) = Inl NotFound \<or> (\<exists>xs. jp_get doc (pointer_of ts) = Inr (JArray xs)) \<and> t \<noteq> ''-''"
  shows "jp_get doc' (pointer_of (ts @ [t])) = Inr v \<and> jp_remove doc' (pointer_of (ts @ [t])) = Inr doc"
proof -
  obtain p p' where p: "walk doc ts = Inr p" "insert_in p t v = Inr p'" and doc': "doc' = put_at doc ts p'"
    using add by (auto simp: jp_add_def at_parent_pointer split: sum.splits)
  have w: "walk doc' ts = Inr p'" unfolding doc' by (rule walk_put[OF p(1)])
  have "walk p' [t] = Inr v \<and> remove_in p' t = Inr p"
  proof (cases p)
    case (JObject m)
    have "walk p [t] = Inl NotFound" using new p(1) JObject by (auto simp: jp_get_def walk_snoc)
    then have "m t = None" using JObject by (auto split: option.splits)
    then show ?thesis using p(2) JObject by (auto simp: insert_in_def remove_in_def fun_upd_idem)
  next
    case (JArray xs)
    have "t \<noteq> ''-''" using new p(1) JArray by (auto simp: jp_get_def walk_snoc split: option.splits)
    then obtain i where i: "jp_index t (Suc (length xs)) = Some i" "p' = JArray (take i xs @ [v] @ drop i xs)"
      using p(2) JArray by (auto simp: insert_in_def split: option.splits)
    have "i \<le> length xs" using jp_index_bound[OF i(1)] by simp
    moreover have "jp_index t (length (take i xs @ [v] @ drop i xs)) = Some i" using i(1) calculation by simp
    ultimately show ?thesis using i(2) JArray by (simp add: remove_in_def nth_append)
  qed (use p(2) in \<open>auto simp: insert_in_def\<close>)
  then have "jp_get doc' (pointer_of (ts @ [t])) = Inr v" "jp_remove doc' (pointer_of (ts @ [t])) = Inr (put_at doc' ts p)"
    using w by (simp_all add: jp_get_def walk_snoc jp_remove_def at_parent_pointer)
  then show ?thesis using put_put[OF p(1)] put_same[OF p(1)] by (simp add: doc')
qed

definition ex_doc :: json where
  "ex_doc = JObject [''a/b'' \<mapsto> JArray [JNumber 1, JNumber 2]]"

lemma add_remove_inverse_witness:
  "jp_remove (JObject [''a/b'' \<mapsto> JArray [JNumber 1, JNull, JNumber 2]]) ''/a~1b/1'' = Inr ex_doc"
proof -
  have p: "pointer_of [''a/b'', ''1''] = ''/a~1b/1''" "pointer_of [''a/b''] = ''/a~1b''" by code_simp+
  have i: "jp_index ''1'' (Suc (Suc (Suc 0))) = Some 1" by code_simp
  have "jp_add ex_doc (pointer_of ([''a/b''] @ [''1''])) JNull = Inr (JObject [''a/b'' \<mapsto> JArray [JNumber 1, JNull, JNumber 2]])"
    unfolding jp_add_def at_parent_pointer by (simp add: ex_doc_def insert_in_def i)
  moreover have "jp_get ex_doc (pointer_of [''a/b'']) = Inr (JArray [JNumber 1, JNumber 2])"
    by (simp add: jp_get_def ex_doc_def)
  ultimately show ?thesis using add_remove_inverse[of ex_doc "[''a/b'']" "''1''" JNull] p by simp
qed

lemma merge_patch_reaches_witness:
  "merge_patch (merge_diff (JObject [''a'' \<mapsto> JBool True]) ex_doc) ex_doc = JObject [''a'' \<mapsto> JBool True]"
  by (rule merge_patch_reaches) simp

text \<open>
  Replacing an element of an array inserts a second one: the code of replace is a check that the
  place exists, and then an insertion.
\<close>

lemma replace_inserts_in_array:
  "jp_step (JArray [JNumber 1, JNumber 2]) (Replace ''/0'' (JNumber 9)) = Inr (JArray [JNumber 9, JNumber 1, JNumber 2])"
proof -
  have "pointer_of ([] @ [''0'']) = ''/0''" by code_simp
  moreover have "jp_index ''0'' (Suc (Suc 0)) = Some 0" "jp_index ''0'' (Suc (Suc (Suc 0))) = Some 0" by code_simp+
  moreover have "jp_get (JArray [JNumber 1, JNumber 2]) (pointer_of ([] @ [''0''])) = Inr (JNumber 1)"
    using calculation(2) by (simp add: jp_get_def)
  moreover have "jp_add (JArray [JNumber 1, JNumber 2]) (pointer_of ([] @ [''0''])) (JNumber 9) = Inr (JArray [JNumber 9, JNumber 1, JNumber 2])"
    unfolding jp_add_def at_parent_pointer using calculation(3) by (simp add: insert_in_def)
  ultimately show ?thesis by (simp add: jp_step_def)
qed

end
