(* ===== verification/Quantity.thy ===== *)
theory Quantity
  imports Complex_Main Go_Strings
begin

section \<open>Resource quantities (internal/apimachinery/resource)\<close>

text \<open>
  Numbers with a unit suffix: quantity.go and parse.go over exact rationals, and the sums of
  resource lists of list.go. A value of package \<open>big\<close> is a rational; where quantities share one
  through a pointer, as the sums do, it is a cell of a heap. Value and MilliValue go through
  float64 and are not modelled.
\<close>

subsection \<open>Numbers as text\<close>

text \<open>\<open>Rat.SetString\<close> on the texts that \<open>splitSuffix\<close> cuts out: sign, digits around at most one point, exponent.\<close>

definition scan_sign :: "string \<Rightarrow> bool \<times> string" where
  "scan_sign s = (case s of c # cs \<Rightarrow> if c = CHR ''-'' then (True, cs) else if c = CHR ''+'' then (False, cs) else (False, s)
                  | [] \<Rightarrow> (False, []))"

definition scan_exponent :: "string \<Rightarrow> int option" where
  "scan_exponent s =
     (case s of [] \<Rightarrow> Some 0
      | c # cs \<Rightarrow>
          if c = CHR ''e'' \<or> c = CHR ''E'' then
            (let (neg, ds) = scan_sign cs; v = digits_value ds in
             if ds = [] \<or> \<not> list_all ascii_digit ds \<or> v > (if neg then max_i64 + 1 else max_i64) then None
             else Some (if neg then - v else v))
          else None)"

definition ten_power :: "int \<Rightarrow> rat" where
  "ten_power k = (if k \<ge> 0 then 10 ^ nat k else 1 / 10 ^ nat (- k))"

definition parse_number :: "string \<Rightarrow> rat option" where
  "parse_number s =
     (let (neg, u) = scan_sign s;
          ip = takeWhile ascii_digit u;
          r = dropWhile ascii_digit u;
          (fp, r2) = (case r of c # cs \<Rightarrow> if c = CHR ''.'' then (takeWhile ascii_digit cs, dropWhile ascii_digit cs) else ([], r)
                      | [] \<Rightarrow> ([], []));
          m = digits_value (ip @ fp)
      in if ip @ fp = [] then None
         else case scan_exponent r2 of
           None \<Rightarrow> None
         | Some e \<Rightarrow>
             if m = 0 then Some 0
             else let n = i64 (e - int (length fp)) in
               if \<bar>n\<bar> > 1000000 then None
               else Some ((if neg then - of_int m else of_int m) * ten_power n))"

subsection \<open>Parsing (parse.go)\<close>

datatype quantity_format = DecimalExponent | BinarySI | DecimalSI

fun number_prefix :: "string \<Rightarrow> string \<times> string" where
  "number_prefix [] = ([], [])"
| "number_prefix (c # cs) =
     (if ascii_digit c \<or> c = CHR ''.'' then (let (n, r) = number_prefix cs in (c # n, r))
      else if c = CHR ''e'' \<or> c = CHR ''E'' then
        (case cs of [] \<Rightarrow> ([], [c])
         | d # ds \<Rightarrow>
             if ascii_digit d then (let (n, r) = number_prefix cs in (c # n, r))
             else if d = CHR ''+'' \<or> d = CHR ''-'' then (let (n, r) = number_prefix ds in (c # d # n, r))
             else ([], c # cs))
      else ([], c # cs))"

definition split_suffix :: "string \<Rightarrow> string \<times> string" where
  "split_suffix s =
     (case s of c # cs \<Rightarrow> if c = CHR ''+'' \<or> c = CHR ''-'' then (let (n, r) = number_prefix cs in (c # n, r)) else number_prefix s
      | [] \<Rightarrow> ([], []))"

definition decimal_suffixes :: "(string \<times> rat) list" where
  "decimal_suffixes = [(''E'', 10 ^ 18), (''P'', 10 ^ 15), (''T'', 10 ^ 12), (''G'', 10 ^ 9), (''M'', 10 ^ 6), (''k'', 10 ^ 3)]"

definition binary_suffixes :: "(string \<times> rat) list" where
  "binary_suffixes = [(''Ei'', 2 ^ 60), (''Pi'', 2 ^ 50), (''Ti'', 2 ^ 40), (''Gi'', 2 ^ 30), (''Mi'', 2 ^ 20), (''Ki'', 2 ^ 10)]"

definition suffix_multiplier :: "string \<Rightarrow> (rat \<times> quantity_format) option" where
  "suffix_multiplier s =
     (if s = [] then Some (1, DecimalSI)
      else if s = ''m'' then Some (1 / 1000, DecimalSI)
      else case map_of decimal_suffixes s of
        Some m \<Rightarrow> Some (m, DecimalSI)
      | None \<Rightarrow> (case map_of binary_suffixes s of Some m \<Rightarrow> Some (m, BinarySI) | None \<Rightarrow> None))"

datatype quantity_error = EmptyQuantity | NoNumber | BadNumber | BadSuffix

definition parse_quantity :: "string \<Rightarrow> quantity_error + rat \<times> quantity_format" where
  "parse_quantity s =
     (let t = trim_space s in
      if t = [] then Inl EmptyQuantity
      else let (num, suffix) = split_suffix t in
        if num = [] then Inl NoNumber
        else case parse_number num of
          None \<Rightarrow> Inl BadNumber
        | Some v \<Rightarrow>
            (case suffix_multiplier suffix of
               None \<Rightarrow> Inl BadSuffix
             | Some (m, f) \<Rightarrow>
                 Inr (v * m, if (CHR ''e'' \<in> set num \<or> CHR ''E'' \<in> set num) \<and> suffix = [] then DecimalExponent else f)))"

subsection \<open>Printing (parse.go)\<close>

definition is_int :: "rat \<Rightarrow> bool" where
  "is_int v \<longleftrightarrow> snd (quotient_of v) = 1"

fun try_suffixes :: "rat \<Rightarrow> (string \<times> rat) list \<Rightarrow> string option" where
  "try_suffixes v [] = None"
| "try_suffixes v ((s, m) # ss) = (if is_int (v / m) then Some (print_int (fst (quotient_of (v / m))) @ s) else try_suffixes v ss)"

text \<open>\<open>Rat.FloatString(12)\<close>: twelve places, rounded half away from zero.\<close>

definition float_string :: "rat \<Rightarrow> string" where
  "float_string v =
     (let (n, d) = quotient_of v; a = nat \<bar>n\<bar>; b = nat d;
          q = a div b; x = (a mod b) * 10 ^ 12;
          r = x div b + (if b \<le> 2 * (x mod b) then 1 else 0);
          (q', r') = (if r \<ge> 10 ^ 12 then (q + 1, r - 10 ^ 12) else (q, r));
          ds = print_nat r'
      in (if n < 0 then ''-'' else []) @ print_nat q' @ ''.'' @ replicate (12 - length ds) CHR ''0'' @ ds)"

definition trim_right_of :: "char \<Rightarrow> string \<Rightarrow> string" where
  "trim_right_of c s = rev (dropWhile (\<lambda>x. x = c) (rev s))"

definition format_quantity :: "rat \<Rightarrow> quantity_format \<Rightarrow> string" where
  "format_quantity v f =
     (let plain = trim_right_of CHR ''.'' (trim_right_of CHR ''0'' (float_string v)) in
      if v = 0 then ''0''
      else case f of
        BinarySI \<Rightarrow> (case try_suffixes v binary_suffixes of Some s \<Rightarrow> s | None \<Rightarrow> plain)
      | DecimalSI \<Rightarrow>
          (case try_suffixes v decimal_suffixes of
             Some s \<Rightarrow> s
           | None \<Rightarrow> if is_int (v * 1000) then print_int (fst (quotient_of (v * 1000))) @ ''m'' else plain)
      | DecimalExponent \<Rightarrow> plain)"

subsection \<open>Quantities and their cells (quantity.go)\<close>

text \<open>A quantity points to its rational, or is nil; copying the struct copies the pointer.\<close>

type_synonym cells = "rat list"

record quantity =
  q_ref :: "nat option"
  q_format :: quantity_format

definition new_quantity :: "cells \<Rightarrow> int \<Rightarrow> quantity_format \<Rightarrow> cells \<times> quantity" where
  "new_quantity h v f = (h @ [of_int v], \<lparr>q_ref = Some (length h), q_format = f\<rparr>)"

definition new_milli_quantity :: "cells \<Rightarrow> int \<Rightarrow> quantity_format \<Rightarrow> cells \<times> quantity" where
  "new_milli_quantity h v f = (h @ [of_int v / 1000], \<lparr>q_ref = Some (length h), q_format = f\<rparr>)"

definition q_sign :: "cells \<Rightarrow> quantity \<Rightarrow> rat" where
  "q_sign h q = (case q_ref q of None \<Rightarrow> 0 | Some c \<Rightarrow> sgn (h ! c))"

definition q_cmp :: "cells \<Rightarrow> quantity \<Rightarrow> quantity \<Rightarrow> rat" where
  "q_cmp h q r =
     (case (q_ref q, q_ref r) of
        (None, None) \<Rightarrow> 0
      | (None, Some d) \<Rightarrow> - sgn (h ! d)
      | (Some c, None) \<Rightarrow> sgn (h ! c)
      | (Some c, Some d) \<Rightarrow> if h ! c < h ! d then -1 else if h ! c = h ! d then 0 else 1)"

text \<open>Add and Sub share their shape: a nil receiver gets a cell of its own, then the cell is overwritten.\<close>

definition q_own :: "cells \<Rightarrow> quantity \<Rightarrow> cells \<times> quantity \<times> nat" where
  "q_own h q = (case q_ref q of None \<Rightarrow> (h @ [0], q\<lparr>q_ref := Some (length h)\<rparr>, length h) | Some c \<Rightarrow> (h, q, c))"

definition q_add :: "cells \<Rightarrow> quantity \<Rightarrow> quantity \<Rightarrow> cells \<times> quantity" where
  "q_add h q r =
     (let (h1, q1, c) = q_own h q in
      case q_ref r of None \<Rightarrow> (h1, q1) | Some d \<Rightarrow> (h1[c := h1 ! c + h1 ! d], q1))"

definition q_sub :: "cells \<Rightarrow> quantity \<Rightarrow> quantity \<Rightarrow> cells \<times> quantity" where
  "q_sub h q r =
     (let (h1, q1, c) = q_own h q in
      case q_ref r of None \<Rightarrow> (h1, q1) | Some d \<Rightarrow> (h1[c := h1 ! c - h1 ! d], q1))"

definition q_string :: "cells \<Rightarrow> quantity \<Rightarrow> string" where
  "q_string h q = (case q_ref q of None \<Rightarrow> ''0'' | Some c \<Rightarrow> format_quantity (h ! c) (q_format q))"

definition marshal_quantity :: "cells \<Rightarrow> quantity \<Rightarrow> string" where
  "marshal_quantity h q = CHR 0x22 # q_string h q @ [CHR 0x22]"

definition trim_quotes :: "string \<Rightarrow> string" where
  "trim_quotes s = trim_right_of CHR 0x22 (dropWhile (\<lambda>c. c = CHR 0x22) s)"

definition unmarshal_quantity :: "cells \<Rightarrow> quantity \<Rightarrow> string \<Rightarrow> cells \<times> quantity \<times> quantity_error option" where
  "unmarshal_quantity h q data =
     (case parse_quantity (trim_quotes (trim_space data)) of
        Inl e \<Rightarrow> (h, q, Some e)
      | Inr (v, f) \<Rightarrow> (h @ [v], \<lparr>q_ref = Some (length h), q_format = f\<rparr>, None))"

definition must_parse :: "cells \<Rightarrow> string \<Rightarrow> (quantity_error, cells \<times> quantity) outcome" where
  "must_parse h s =
     (case parse_quantity s of
        Inl e \<Rightarrow> Panic
      | Inr (v, f) \<Rightarrow> Ok (h @ [v], \<lparr>q_ref = Some (length h), q_format = f\<rparr>))"

subsection \<open>Resource lists (list.go)\<close>

text \<open>An argument is the list of its entries, in the order the range over the map visits them.\<close>

type_synonym resource_list = "(string \<times> quantity) list"

definition add_entry :: "cells \<times> (string \<rightharpoonup> quantity) \<Rightarrow> string \<times> quantity \<Rightarrow> cells \<times> (string \<rightharpoonup> quantity)" where
  "add_entry = (\<lambda>(h, out) (k, v).
     case out k of
       Some e \<Rightarrow> (let (h', s) = q_add h e v in (h', out(k \<mapsto> s)))
     | None \<Rightarrow> (h, out(k \<mapsto> v)))"

definition add_lists :: "cells \<Rightarrow> resource_list \<Rightarrow> resource_list \<Rightarrow> cells \<times> (string \<rightharpoonup> quantity)" where
  "add_lists h a b = foldl add_entry (h, map_of a) b"

definition sub_entry :: "cells \<times> (string \<rightharpoonup> quantity) \<Rightarrow> string \<times> quantity \<Rightarrow> cells \<times> (string \<rightharpoonup> quantity)" where
  "sub_entry = (\<lambda>(h, out) (k, v).
     case out k of
       Some e \<Rightarrow> (let (h', s) = q_sub h e v in (h', out(k \<mapsto> s)))
     | None \<Rightarrow> (let (h1, z) = new_quantity h 0 (q_format v); (h', z') = q_sub h1 z v in (h', out(k \<mapsto> z'))))"

definition sub_lists :: "cells \<Rightarrow> resource_list \<Rightarrow> resource_list \<Rightarrow> cells \<times> (string \<rightharpoonup> quantity)" where
  "sub_lists h a b = foldl sub_entry (h, map_of a) b"

definition less_than_or_equal :: "cells \<Rightarrow> resource_list \<Rightarrow> resource_list \<Rightarrow> bool" where
  "less_than_or_equal h a b =
     list_all (\<lambda>(k, av). case map_of b k of None \<Rightarrow> False | Some bv \<Rightarrow> \<not> q_cmp h av bv > 0) a"

definition equal_lists :: "cells \<Rightarrow> resource_list \<Rightarrow> resource_list \<Rightarrow> bool" where
  "equal_lists h a b =
     (length a = length b \<and>
      list_all (\<lambda>(k, av). case map_of b k of None \<Rightarrow> False | Some bv \<Rightarrow> q_cmp h av bv = 0) a)"

subsection \<open>Reading what was printed\<close>

lemma number_prefix_digits:
  assumes "\<forall>c \<in> set ds. ascii_digit c \<or> c = CHR ''.''" "number_prefix r = ([], r)"
  shows "number_prefix (ds @ r) = (ds, r)"
  using assms by (induction ds) auto

lemma suffixes_plain: "s \<in> {[], ''m''} \<union> fst ` set decimal_suffixes \<union> fst ` set binary_suffixes \<Longrightarrow>
    number_prefix s = ([], s) \<and> (\<forall>c \<in> set s. \<not> ascii_space c)"
proof -
  have "list_all (\<lambda>s. number_prefix s = ([], s) \<and> list_all (\<lambda>c. \<not> ascii_space c) s)
      ([[], ''m''] @ map fst decimal_suffixes @ map fst binary_suffixes)" by code_simp
  then show "s \<in> {[], ''m''} \<union> fst ` set decimal_suffixes \<union> fst ` set binary_suffixes \<Longrightarrow> ?thesis"
    by (auto simp: list_all_iff)
qed

text \<open>A sign, digits, perhaps a point and digits.\<close>

lemma parse_number_decimal:
  assumes d: "\<forall>c \<in> set ip. ascii_digit c" "\<forall>c \<in> set fp. ascii_digit c" "ip \<noteq> []" "length fp \<le> 12"
    and t: "t = (if fp = [] then ip else ip @ ''.'' @ fp)"
  shows "parse_number (if neg then CHR ''-'' # t else t) =
    Some ((if neg then - of_int (digits_value (ip @ fp)) else of_int (digits_value (ip @ fp))) / 10 ^ length fp)"
proof -
  obtain c cs where ip: "ip = c # cs" using d(3) by (cases ip) auto
  have c: "c \<noteq> CHR ''-''" "c \<noteq> CHR ''+''" using d(1) ip not_digit by auto
  have s: "scan_sign (if neg then CHR ''-'' # t else t) = (neg, t)" using c by (auto simp: scan_sign_def t ip)
  have tw: "takeWhile ascii_digit t = ip" "dropWhile ascii_digit t = (if fp = [] then [] else CHR ''.'' # fp)"
    using d(1) not_digit(1) by (auto simp: t takeWhile_append2 dropWhile_append2)
  have f: "takeWhile ascii_digit fp = fp" "dropWhile ascii_digit fp = []" using d(2) by auto
  have n: "i64 (- int (length fp)) = - int (length fp)" using d(4) by (intro i64_id) simp
  have p: "ten_power (- int (length fp)) = 1 / 10 ^ length fp" by (cases "fp = []") (simp_all add: ten_power_def)
  show ?thesis
    unfolding parse_number_def s Let_def prod.case tw using d(3,4) n p by (cases "fp = []") (simp_all add: scan_exponent_def f)
qed

lemma parse_printed:
  assumes d: "\<forall>c \<in> set ip. ascii_digit c" "\<forall>c \<in> set fp. ascii_digit c" "ip \<noteq> []" "length fp \<le> 12"
    and t: "t = (if fp = [] then ip else ip @ ''.'' @ fp)"
    and sfx: "sfx \<in> {[], ''m''} \<union> fst ` set decimal_suffixes \<union> fst ` set binary_suffixes" "suffix_multiplier sfx = Some (m, f)"
  shows "parse_quantity ((if neg then CHR ''-'' # t else t) @ sfx) =
    Inr ((if neg then - of_int (digits_value (ip @ fp)) else of_int (digits_value (ip @ fp))) / 10 ^ length fp * m, f)"
proof -
  define u where "u = (if neg then CHR ''-'' # t else t)"
  obtain c cs where ip: "ip = c # cs" using d(3) by (cases ip) auto
  have c: "c \<noteq> CHR ''-''" "c \<noteq> CHR ''+''" using d(1) ip not_digit by auto
  have ch: "\<forall>x \<in> set t. ascii_digit x \<or> x = CHR ''.''" using d(1,2) by (auto simp: t)
  have "number_prefix (t @ sfx) = (t, sfx)" using number_prefix_digits[OF ch] suffixes_plain[OF sfx(1)] by blast
  moreover have "\<exists>ts. t = c # ts" by (simp add: t ip)
  ultimately have split: "split_suffix (u @ sfx) = (u, sfx)" using c by (auto simp: u_def split_suffix_def)
  have e: "CHR ''e'' \<notin> set u" "CHR ''E'' \<notin> set u" using ch not_digit by (auto simp: u_def)
  have "\<not> ascii_space CHR ''-''" "\<not> ascii_space CHR ''.''" by (simp_all add: ascii_space_def)
  then have "\<forall>x \<in> set (u @ sfx). \<not> ascii_space x"
    using ch suffixes_plain[OF sfx(1)] digit_not_space by (auto simp: u_def)
  then have trim: "trim_space (u @ sfx) = u @ sfx" by (rule trim_id)
  have ne: "u \<noteq> []" by (simp add: u_def t ip)
  show ?thesis
    unfolding u_def[symmetric] parse_quantity_def trim Let_def split
    using parse_number_decimal[OF d t, of neg] ne e sfx(2) by (simp add: u_def[symmetric] split)
qed

lemma print_int_sign: "print_int i = (if i < 0 then CHR ''-'' # print_nat (nat (- i)) else print_nat (nat i))"
  by (simp add: print_int_def)

lemma parse_print_int:
  assumes "sfx \<in> {[], ''m''} \<union> fst ` set decimal_suffixes \<union> fst ` set binary_suffixes" "suffix_multiplier sfx = Some (m, f)"
  shows "parse_quantity (print_int i @ sfx) = Inr (of_int i * m, f)"
proof -
  define ds where "ds = print_nat (nat \<bar>i\<bar>)"
  have ds: "\<forall>c \<in> set ds. ascii_digit c" "ds \<noteq> []" "digits_value ds = \<bar>i\<bar>"
    using print_nat_props[of "nat \<bar>i\<bar>"] by (auto simp: ds_def list_all_iff)
  have "print_int i = (if i < 0 then CHR ''-'' # ds else ds)" by (simp add: print_int_def ds_def)
  then show ?thesis
    using parse_printed[of ds "[]" ds, OF ds(1) _ ds(2) _ _ assms, of "i < 0"] ds(3) by (cases "i < 0") simp_all
qed

lemma is_int_of: "is_int v \<Longrightarrow> of_int (fst (quotient_of v)) = v"
  by (cases "quotient_of v") (auto simp: is_int_def dest: quotient_of_div)

lemma is_int_iff: "is_int v \<longleftrightarrow> (\<exists>i. v = of_int i)"
proof
  show "is_int v \<Longrightarrow> \<exists>i. v = of_int i" using is_int_of[of v] by metis
  show "\<exists>i. v = of_int i \<Longrightarrow> is_int v" by (auto simp: is_int_def)
qed

lemma try_suffixes_parse:
  assumes "try_suffixes v ss = Some s" "\<forall>(sfx, m) \<in> set ss. sfx \<in> {[], ''m''} \<union> fst ` set decimal_suffixes \<union> fst ` set binary_suffixes \<and>
      m \<noteq> 0 \<and> (\<exists>f. suffix_multiplier sfx = Some (m, f))"
  shows "\<exists>f. parse_quantity s = Inr (v, f)"
  using assms
proof (induction v ss rule: try_suffixes.induct)
  case (2 v sfx m ss)
  show ?case
  proof (cases "is_int (v / m)")
    case True
    obtain f where f: "suffix_multiplier sfx = Some (m, f)" using 2(3) by auto
    have "s = print_int (fst (quotient_of (v / m))) @ sfx" using 2(2) True by simp
    then have "parse_quantity s = Inr (of_int (fst (quotient_of (v / m))) * m, f)"
      using parse_print_int[OF _ f] 2(3) by auto
    moreover have "of_int (fst (quotient_of (v / m))) * m = v" using is_int_of[OF True] 2(3) by simp
    ultimately show ?thesis by metis
  qed (use 2 in auto)
qed simp

lemma suffix_lists:
  "\<forall>(sfx, m) \<in> set decimal_suffixes. sfx \<in> {[], ''m''} \<union> fst ` set decimal_suffixes \<union> fst ` set binary_suffixes \<and>
      m \<noteq> 0 \<and> (\<exists>f. suffix_multiplier sfx = Some (m, f))"
  "\<forall>(sfx, m) \<in> set binary_suffixes. sfx \<in> {[], ''m''} \<union> fst ` set decimal_suffixes \<union> fst ` set binary_suffixes \<and>
      m \<noteq> 0 \<and> (\<exists>f. suffix_multiplier sfx = Some (m, f))"
  by (auto simp: decimal_suffixes_def binary_suffixes_def suffix_multiplier_def)

subsection \<open>Twelve places\<close>

lemma trim_right_of_end: "s = t @ replicate k c \<Longrightarrow> t = [] \<or> last t \<noteq> c \<Longrightarrow> trim_right_of c s = t"
proof -
  assume s: "s = t @ replicate k c" and t: "t = [] \<or> last t \<noteq> c"
  have "dropWhile (\<lambda>x. x = c) (replicate k c @ rev t) = rev t"
    using t by (subst dropWhile_append2) (auto simp: hd_rev[symmetric] dropWhile_eq_self_iff)
  then show ?thesis by (simp add: trim_right_of_def s)
qed

lemma zeros_at_end: "\<exists>f k. p = f @ replicate k c \<and> (f = [] \<or> last f \<noteq> c)"
proof (induction p rule: rev_induct)
  case (snoc x p)
  show ?case
  proof (cases "x = c")
    case True
    obtain f k where "p = f @ replicate k c" "f = [] \<or> last f \<noteq> c" using snoc by blast
    then show ?thesis using True by (metis append_assoc replicate_Suc replicate_append_same)
  next
    case False then show ?thesis by (intro exI[of _ "p @ [x]"] exI[of _ 0]) simp
  qed
qed simp

text \<open>Trimming zeros and the point keeps the number.\<close>

lemma trim_decimal:
  assumes ip: "\<forall>c \<in> set ip. ascii_digit c" "ip \<noteq> []" and pd: "\<forall>c \<in> set p. ascii_digit c" "length p = 12"
  obtains fp where "\<forall>c \<in> set fp. ascii_digit c" "length fp \<le> 12"
    "trim_right_of CHR ''.'' (trim_right_of CHR ''0'' (sg @ ip @ ''.'' @ p)) = sg @ (if fp = [] then ip else ip @ ''.'' @ fp)"
    "digits_value (ip @ fp) * 10 ^ 12 = digits_value (ip @ p) * 10 ^ length fp"
proof -
  obtain fp k where p: "p = fp @ replicate k CHR ''0''" "fp = [] \<or> last fp \<noteq> CHR ''0''" using zeros_at_end[of p "CHR ''0''"] by blast
  have k: "length fp + k = 12" using pd(2) p(1) by simp
  have t1: "trim_right_of CHR ''0'' (sg @ ip @ ''.'' @ p) = sg @ ip @ ''.'' @ fp"
    by (rule trim_right_of_end[of _ _ k]) (use p in auto)
  have t2: "trim_right_of CHR ''.'' (sg @ ip @ ''.'' @ fp) = sg @ (if fp = [] then ip else ip @ ''.'' @ fp)"
  proof (cases "fp = []")
    case True
    have "last ip \<noteq> CHR ''.''" using ip last_in_set not_digit(1) by metis
    then show ?thesis using True ip(2) by (intro trim_right_of_end[of _ _ 1]) auto
  next
    case False
    have "last fp \<noteq> CHR ''.''" using False pd(1) p(1) last_in_set[of fp] not_digit(1) by (metis Un_iff set_append)
    then show ?thesis using False by (intro trim_right_of_end[of _ _ 0]) auto
  qed
  have "digits_value (ip @ p) = digits_value (ip @ fp) * 10 ^ k"
    using digits_value_append[of "ip @ fp" "replicate k CHR ''0''"] digits_value_zeros p(1) by simp
  then have "digits_value (ip @ p) * 10 ^ length fp = digits_value (ip @ fp) * 10 ^ (length fp + k)" by (simp add: power_add mult.commute)
  moreover have "\<forall>c \<in> set fp. ascii_digit c" "length fp \<le> 12" using pd(1) p(1) k by auto
  ultimately show ?thesis using that[of fp] t1 t2 k by simp
qed

lemma twelve_places:
  fixes a b T :: nat
  assumes "0 < b" "b dvd a * T" "0 < T"
  defines "x \<equiv> (a mod b) * T"
  shows "x mod b = 0" "x div b < T" "(a div b * T + x div b) * b = a * T"
proof -
  have "a * T = (a div b * b + a mod b) * T" by simp
  then have a: "a * T = b * (a div b * T) + x" unfolding x_def add_mult_distrib by (simp only: ac_simps)
  have "b dvd x" using assms(2) dvd_add_right_iff[of b "b * (a div b * T)" x] unfolding a by simp
  then show m: "x mod b = 0" by simp
  have "x < T * b" using assms(1,3) unfolding x_def by (simp add: mult.commute)
  then show "x div b < T" by (rule less_mult_imp_div_less)
  have "x div b * b = x" using m div_mult_mod_eq[of x b] by simp
  then show "(a div b * T + x div b) * b = a * T" unfolding a add_mult_distrib by (simp only: ac_simps)
qed

lemma twelve_scaled:
  fixes T :: int
  assumes "is_int (v * of_int T)" "0 < T" "v = of_int n / of_int d" "0 < d"
  shows "nat d dvd nat \<bar>n\<bar> * nat T"
proof -
  obtain i where i: "v * of_int T = of_int i" using assms(1) by (auto simp: is_int_iff)
  have "rat_of_int (n * T) = of_int (i * d)" using i assms(3,4) by (simp add: field_simps)
  then have "n * T = i * d" by (simp only: of_int_eq_iff)
  then have "d dvd \<bar>n\<bar> * T" by (metis abs_mult abs_of_pos assms(2) dvd_abs_iff dvd_triv_right)
  then have "nat d dvd nat (\<bar>n\<bar> * T)" using assms(2,4) by (simp add: nat_dvd_iff)
  then show ?thesis by (simp add: nat_mult_distrib)
qed

lemma twelve_value:
  fixes a b q r T :: nat
  assumes "(q * T + r) * b = a * T" "0 < b" "0 < T"
  shows "rat_of_nat (q * T + r) / of_nat T = of_nat a / of_nat b"
proof -
  have "rat_of_nat ((q * T + r) * b) = of_nat (a * T)" using assms(1) by simp
  then show ?thesis using assms(2,3) unfolding of_nat_mult by (simp add: field_simps)
qed

lemma float_string_exact:
  assumes "is_int (v * 10 ^ 12)"
  obtains q p where "float_string v = (if v < 0 then ''-'' else []) @ print_nat q @ ''.'' @ p"
    "\<forall>c \<in> set p. ascii_digit c" "length p = 12"
    "of_int (digits_value (print_nat q @ p)) / 10 ^ 12 = \<bar>v\<bar>"
proof -
  obtain n d where nd: "quotient_of v = (n, d)" by fastforce
  have d: "0 < d" "v = of_int n / of_int d" using quotient_of_denom_pos[OF nd] quotient_of_div[OF nd] by auto
  define a b where "a = nat \<bar>n\<bar>" and "b = nat d"
  have b: "0 < b" using d by (simp add: b_def)
  have dvd: "b dvd a * 10 ^ 12" using twelve_scaled[of v "10 ^ 12" n d] assms d by (simp add: a_def b_def)
  define x r where "x = (a mod b) * 10 ^ 12" and "r = x div b"
  have T: "0 < (10::nat) ^ 12" by simp
  note tp = twelve_places[OF b dvd T, folded x_def, folded r_def]
  define p where "p = replicate (12 - length (print_nat r)) CHR ''0'' @ print_nat r"
  have len: "length (print_nat r) \<le> 12" using print_nat_length[of r 12] tp(2) by simp
  have pd: "\<forall>c \<in> set p. ascii_digit c" using print_nat_digits by (auto simp: p_def ascii_digit_def)
  have dv: "digits_value (print_nat (a div b) @ p) = int (a div b * 10 ^ 12 + r)"
    using len by (simp add: p_def digits_value_append digits_value_zeros print_nat_props)
  have c1: "\<not> b \<le> 2 * (x mod b)" using tp(1) b by simp
  have c2: "\<not> 10 ^ 12 \<le> r" using tp(2) by simp
  have neg: "v < 0 \<longleftrightarrow> n < 0" using d by (simp add: divide_less_0_iff)
  have "float_string v = (if v < 0 then ''-'' else []) @ print_nat (a div b) @ ''.'' @ p"
    unfolding float_string_def nd prod.case Let_def a_def[symmetric] b_def[symmetric] x_def[symmetric] r_def[symmetric]
      if_not_P[OF c1] add_0_right if_not_P[OF c2] p_def neg by (rule refl)
  moreover have "of_int (digits_value (print_nat (a div b) @ p)) / 10 ^ 12 = \<bar>v\<bar>"
  proof -
    have "\<bar>v\<bar> = rat_of_nat a / rat_of_nat b" using d by (simp add: a_def b_def)
    then show ?thesis using twelve_value[OF tp(3) b T] unfolding dv of_int_of_nat_eq by simp
  qed
  ultimately show ?thesis using that pd len by (simp add: p_def)
qed

lemma parse_plain:
  assumes "is_int (v * 10 ^ 12)"
  shows "\<exists>f. parse_quantity (trim_right_of CHR ''.'' (trim_right_of CHR ''0'' (float_string v))) = Inr (v, f)"
proof -
  obtain q p where q: "float_string v = (if v < 0 then ''-'' else []) @ print_nat q @ ''.'' @ p"
    "\<forall>c \<in> set p. ascii_digit c" "length p = 12" "of_int (digits_value (print_nat q @ p)) / 10 ^ 12 = \<bar>v\<bar>"
    using float_string_exact[OF assms] by metis
  have ip: "\<forall>c \<in> set (print_nat q). ascii_digit c" "print_nat q \<noteq> []" using print_nat_digits print_nat_props by auto
  obtain fp where fp: "\<forall>c \<in> set fp. ascii_digit c" "length fp \<le> 12"
    "trim_right_of CHR ''.'' (trim_right_of CHR ''0'' (float_string v)) =
      (if v < 0 then ''-'' else []) @ (if fp = [] then print_nat q else print_nat q @ ''.'' @ fp)"
    "digits_value (print_nat q @ fp) * 10 ^ 12 = digits_value (print_nat q @ p) * 10 ^ length fp"
    using trim_decimal[OF ip q(2,3), of "if v < 0 then ''-'' else []"] unfolding q(1) by metis
  have "rat_of_int (digits_value (print_nat q @ fp)) * 10 ^ 12 = of_int (digits_value (print_nat q @ p)) * 10 ^ length fp"
    using fp(4) by (metis of_int_mult of_int_numeral of_int_power)
  then have val: "of_int (digits_value (print_nat q @ fp)) / 10 ^ length fp = \<bar>v\<bar>" using q(4) by (simp add: field_simps)
  have "suffix_multiplier [] = Some (1, DecimalSI)" by (simp add: suffix_multiplier_def)
  from parse_printed[OF ip(1) fp(1) ip(2) fp(2) refl _ this, of "v < 0"] show ?thesis
    using val fp(3) by (cases "v < 0") (auto simp: field_simps)
qed

text \<open>Printing and parsing a quantity keeps its value, whatever its format: a value with at most twelve
  decimal places prints to a text, with a suffix or as a plain decimal, that parses back to exactly
  that value.\<close>

lemma quantity_roundtrip:
  assumes "is_int (v * 10 ^ 12)"
  shows "\<exists>f'. parse_quantity (format_quantity v f) = Inr (v, f')"
proof (cases "v = 0")
  case True
  have "print_int 0 = ''0''" by code_simp
  then have "format_quantity 0 f = print_int 0 @ []" by (simp add: format_quantity_def)
  then show ?thesis using parse_print_int[of "[]" 1 DecimalSI 0] True by (auto simp: suffix_multiplier_def)
next
  case False
  note plain = parse_plain[OF assms]
  show ?thesis
  proof (cases f)
    case DecimalExponent then show ?thesis using plain False by (simp add: format_quantity_def)
  next
    case BinarySI
    then show ?thesis using plain False try_suffixes_parse[OF _ suffix_lists(2)]
      by (cases "try_suffixes v binary_suffixes") (simp_all add: format_quantity_def)
  next
    case DecimalSI
    have "\<exists>f. parse_quantity (print_int (fst (quotient_of (v * 1000))) @ ''m'') = Inr (v, f)" if "is_int (v * 1000)"
      using parse_print_int[of "''m''" "1 / 1000" DecimalSI] is_int_of[OF that] by (auto simp: suffix_multiplier_def)
    then show ?thesis using plain False DecimalSI try_suffixes_parse[OF _ suffix_lists(1)]
      by (cases "try_suffixes v decimal_suffixes") (simp_all add: format_quantity_def)
  qed
qed

text \<open>The value of an entry; a missing entry and a nil quantity count zero.\<close>

definition q_value :: "cells \<Rightarrow> quantity \<Rightarrow> rat" where
  "q_value h q = (case q_ref q of None \<Rightarrow> 0 | Some c \<Rightarrow> h ! c)"

definition entry_value :: "cells \<Rightarrow> quantity option \<Rightarrow> rat" where
  "entry_value h e = (case e of None \<Rightarrow> 0 | Some q \<Rightarrow> q_value h q)"

lemma trim_right_of_subset: "set (trim_right_of c s) \<subseteq> set s"
  by (auto simp: trim_right_of_def dest: set_dropWhileD)

lemma print_int_chars: "c \<in> set (print_int i) \<Longrightarrow> ascii_digit c \<or> c = CHR ''-''"
  by (auto simp: print_int_def dest: print_nat_digits split: if_splits)

lemma try_suffixes_chars: "try_suffixes v ss = Some s \<Longrightarrow> c \<in> set s \<Longrightarrow> ascii_digit c \<or> c = CHR ''-'' \<or> (\<exists>t \<in> fst ` set ss. c \<in> set t)"
  by (induction v ss rule: try_suffixes.induct) (auto dest: print_int_chars split: if_splits)

lemma float_string_shape:
  "\<exists>neg q r. float_string v = (if neg then ''-'' else []) @ print_nat q @ ''.'' @ replicate (12 - length (print_nat r)) CHR ''0'' @ print_nat r"
  unfolding float_string_def Let_def
  by (split prod.split, intro allI impI, split prod.split, intro allI impI) (rule exI, rule exI, rule exI, rule refl)

lemma float_string_chars:
  assumes "c \<in> set (float_string v)"
  shows "ascii_digit c \<or> c = CHR ''-'' \<or> c = CHR ''.''"
proof -
  obtain neg q r where f: "float_string v = (if neg then ''-'' else []) @ print_nat q @ ''.'' @ replicate (12 - length (print_nat r)) CHR ''0'' @ print_nat r"
    using float_string_shape by blast
  have "ascii_digit CHR ''0''" by (simp add: ascii_digit_def)
  then show ?thesis using assms print_nat_digits[of c] unfolding f by (auto split: if_splits)
qed

lemma not_quote: "\<not> ascii_digit CHR 0x22"
  by (simp add: ascii_digit_def)

lemma format_no_quote: "CHR 0x22 \<notin> set (format_quantity v f)"
proof -
  have plain: "CHR 0x22 \<notin> set (trim_right_of CHR ''.'' (trim_right_of CHR ''0'' (float_string v)))"
  proof
    assume "CHR 0x22 \<in> set (trim_right_of CHR ''.'' (trim_right_of CHR ''0'' (float_string v)))"
    then have "CHR 0x22 \<in> set (float_string v)" using trim_right_of_subset by blast
    then show False using float_string_chars[of "CHR 0x22" v] not_quote by simp
  qed
  have "list_all (\<lambda>s. CHR 0x22 \<notin> set s) (map fst decimal_suffixes @ map fst binary_suffixes)" by code_simp
  then have sfx: "CHR 0x22 \<notin> set s" if n: "try_suffixes v binary_suffixes = Some s \<or> try_suffixes v decimal_suffixes = Some s" for s
    using n try_suffixes_chars[of v binary_suffixes s "CHR 0x22"] try_suffixes_chars[of v decimal_suffixes s "CHR 0x22"] not_quote
    by (auto simp: list_all_iff)
  show ?thesis
    using plain sfx print_int_chars[of "CHR 0x22"] not_quote
    by (cases f) (auto simp: format_quantity_def Let_def split: option.splits if_splits)
qed

lemma trim_quoted:
  assumes "CHR 0x22 \<notin> set s"
  shows "trim_quotes (trim_space (CHR 0x22 # s @ [CHR 0x22])) = s"
proof -
  have "trim_space (CHR 0x22 # s @ [CHR 0x22]) = CHR 0x22 # s @ [CHR 0x22]"
    by (rule trim_ends) (simp_all add: ascii_space_def)
  moreover have "trim_quotes (CHR 0x22 # s @ [CHR 0x22]) = s"
  proof (cases s)
    case (Cons c cs)
    have "last s \<noteq> CHR 0x22" using assms last_in_set[of s] unfolding Cons by force
    then have "trim_right_of CHR 0x22 (s @ [CHR 0x22]) = s" by (intro trim_right_of_end[of _ _ 1]) simp_all
    then show ?thesis using Cons assms by (auto simp: trim_quotes_def)
  qed (simp add: trim_quotes_def trim_right_of_def)
  ultimately show ?thesis by simp
qed

text \<open>C33. A quantity survives JSON: whatever its format, and also when it is nil, a quantity whose amount
  has at most twelve decimal places is marshalled to a text (with a suffix, or a plain decimal) that
  is unmarshalled without an error into a new cell with exactly that amount.\<close>

theorem quantity_json_roundtrip:
  assumes "is_int (q_value h q * 10 ^ 12)"
  shows "\<exists>f. unmarshal_quantity h' old (marshal_quantity h q) =
    (h' @ [q_value h q], \<lparr>q_ref = Some (length h'), q_format = f\<rparr>, None)"
proof -
  have "\<exists>f. q_string h q = format_quantity (q_value h q) f"
    by (cases "q_ref q") (auto simp: q_string_def q_value_def format_quantity_def)
  then obtain f where f: "q_string h q = format_quantity (q_value h q) f" by blast
  then have "trim_quotes (trim_space (marshal_quantity h q)) = format_quantity (q_value h q) f"
    unfolding marshal_quantity_def using trim_quoted[OF format_no_quote] by simp
  then show ?thesis using quantity_roundtrip[OF assms, of f] by (auto simp: unmarshal_quantity_def)
qed

lemma quantity_json_roundtrip_witness:
  "\<exists>f. unmarshal_quantity [] \<lparr>q_ref = None, q_format = DecimalSI\<rparr>
      (marshal_quantity [5 / 2] \<lparr>q_ref = Some 0, q_format = BinarySI\<rparr>) =
    ([5 / 2], \<lparr>q_ref = Some 0, q_format = f\<rparr>, None)"
  using quantity_json_roundtrip[of "[5 / 2]" "\<lparr>q_ref = Some 0, q_format = BinarySI\<rparr>" "[]"]
  by (auto simp: q_value_def is_int_iff intro: exI[of _ "2500000000000"])

subsection \<open>Sums of resource lists\<close>

text \<open>No two keys of \<open>out\<close> share a cell, and the entries still to be added share none with it or each other.\<close>

definition unshared :: "cells \<Rightarrow> (string \<rightharpoonup> quantity) \<Rightarrow> resource_list \<Rightarrow> bool" where
  "unshared h out b \<longleftrightarrow>
     (\<forall>k q c. out k = Some q \<and> q_ref q = Some c \<longrightarrow> c < length h \<and> (\<forall>(k', v) \<in> set b. q_ref v \<noteq> Some c)) \<and>
     (\<forall>k k' q q'. out k = Some q \<and> out k' = Some q' \<and> q_ref q = q_ref q' \<and> q_ref q \<noteq> None \<longrightarrow> k = k') \<and>
     (\<forall>(k, v) \<in> set b. \<forall>c. q_ref v = Some c \<longrightarrow> c < length h) \<and>
     distinct (List.map_filter (\<lambda>(k, v). q_ref v) b) \<and> distinct (map fst b)"

lemma unsharedD:
  assumes "unshared h out ((k, v) # b)"
  shows "out i = Some q \<Longrightarrow> q_ref q = Some c \<Longrightarrow> c < length h \<and> q_ref v \<noteq> Some c \<and> (\<forall>(k', v') \<in> set b. q_ref v' \<noteq> Some c)"
    "out i = Some q \<Longrightarrow> out j = Some q' \<Longrightarrow> q_ref q = Some c \<Longrightarrow> q_ref q' = Some c \<Longrightarrow> i = j"
    "q_ref v = Some c \<Longrightarrow> c < length h \<and> (\<forall>(k', v') \<in> set b. q_ref v' \<noteq> Some c)"
    "(i, w) \<in> set b \<Longrightarrow> q_ref w = Some c \<Longrightarrow> c < length h"
    "distinct (List.map_filter (\<lambda>(k, v). q_ref v) b)" "distinct (map fst b)" "k \<notin> fst ` set b"
proof -
  show "out i = Some q \<Longrightarrow> q_ref q = Some c \<Longrightarrow> c < length h \<and> q_ref v \<noteq> Some c \<and> (\<forall>(k', v') \<in> set b. q_ref v' \<noteq> Some c)"
    using assms unfolding unshared_def by auto
  show "out i = Some q \<Longrightarrow> out j = Some q' \<Longrightarrow> q_ref q = Some c \<Longrightarrow> q_ref q' = Some c \<Longrightarrow> i = j"
    using assms unfolding unshared_def by auto
  show "q_ref v = Some c \<Longrightarrow> c < length h \<and> (\<forall>(k', v') \<in> set b. q_ref v' \<noteq> Some c)"
  proof -
    assume v: "q_ref v = Some c"
    have "c < length h" using assms v unfolding unshared_def by auto
    moreover have "c \<notin> set (List.map_filter (\<lambda>(k, v). q_ref v) b)"
      using assms v unfolding unshared_def by (simp add: List.map_filter_def)
    then have "\<forall>(k', v') \<in> set b. q_ref v' \<noteq> Some c" by (force simp: List.map_filter_def)
    ultimately show ?thesis by blast
  qed
  show "(i, w) \<in> set b \<Longrightarrow> q_ref w = Some c \<Longrightarrow> c < length h" using assms unfolding unshared_def by auto
  show "distinct (List.map_filter (\<lambda>(k, v). q_ref v) b)" "distinct (map fst b)" "k \<notin> fst ` set b"
    using assms unfolding unshared_def by (auto simp: List.map_filter_def split: if_splits)
qed

lemma q_add_cells:
  assumes "q_add h q r = (h1, q1)" "\<forall>c. q_ref q = Some c \<longrightarrow> c < length h \<and> q_ref r \<noteq> Some c" "\<forall>c. q_ref r = Some c \<longrightarrow> c < length h"
  obtains c where "q_ref q1 = Some c" "h1 ! c = q_value h q + q_value h r" "c < length h1" "length h \<le> length h1"
    "\<forall>d < length h. q_ref q \<noteq> Some d \<longrightarrow> h1 ! d = h ! d"
    "q_ref q = Some c \<or> q_ref q = None \<and> c = length h"
  using assms
  by (cases "q_ref q"; cases "q_ref r")
     (auto simp: q_add_def q_own_def q_value_def nth_append nth_list_update intro: that)

lemma add_entry_cells:
  assumes "unshared h out ((k, v) # b)" "add_entry (h, out) (k, v) = (h1, out1)"
  shows "unshared h1 out1 b \<and>
    (\<forall>i. entry_value h1 (out1 i) = entry_value h (out i) + (if i = k then q_value h v else 0)) \<and>
    (\<forall>i w. (i, w) \<in> set b \<longrightarrow> q_value h1 w = q_value h w) \<and>
    (\<forall>i q c. out i = Some q \<and> q_ref q = Some c \<longrightarrow> (\<exists>q'. out1 i = Some q' \<and> q_ref q' = Some c))"
proof (cases "out k")
  case None
  then have e: "h1 = h" "out1 = out(k \<mapsto> v)" using assms(2) by (auto simp: add_entry_def)
  note D = unsharedD[OF assms(1)]
  have "unshared h (out(k \<mapsto> v)) b"
    unfolding unshared_def
  proof (intro conjI allI impI, goal_cases)
    case (1 i q c) then show ?case using D(1)[of i q c] D(3)[of c] by (auto split: if_splits)
  next
    case (2 i q c) then show ?case using D(1)[of i q c] D(3)[of c] by (auto split: if_splits)
  next
    case (3 i j q q')
    obtain c where r: "q_ref q' = Some c" using 3 by (metis not_None_eq)
    have "q_ref q = Some c" using 3 r by simp
    with 3 r show ?case using D(1)[of i q c] D(1)[of j q' c] D(2)[of i q j q' c] by (auto split: if_splits)
  next
    case 4 then show ?case using D(4) by auto
  qed (use D(5,6) in auto)
  then show ?thesis using e None by (auto simp: entry_value_def)
next
  case (Some e)
  obtain s where s: "q_add h e v = (h1, s)" "out1 = out(k \<mapsto> s)" using assms(2) Some by (auto simp: add_entry_def split: prod.splits)
  note D = unsharedD[OF assms(1)]
  have p1: "\<forall>c. q_ref e = Some c \<longrightarrow> c < length h \<and> q_ref v \<noteq> Some c" using D(1)[OF Some] by blast
  have p2: "\<forall>c. q_ref v = Some c \<longrightarrow> c < length h" using D(3) by blast
  obtain c where c: "q_ref s = Some c" "h1 ! c = q_value h e + q_value h v" "c < length h1" "length h \<le> length h1"
    "\<forall>d < length h. q_ref e \<noteq> Some d \<longrightarrow> h1 ! d = h ! d" "q_ref e = Some c \<or> q_ref e = None \<and> c = length h"
    by (rule q_add_cells[OF s(1) p1 p2])
  have other: "q_ref q \<noteq> Some c \<and> q_value h1 q = q_value h q" if n: "out i = Some q" "i \<noteq> k" for i q
  proof (cases "q_ref q")
    case (Some d)
    have "d < length h" "q_ref e \<noteq> Some d" using D(1)[OF n(1) Some] D(2)[OF n(1) \<open>out k = Some e\<close> Some] n(2) by auto
    then show ?thesis using c(5,6) Some by (auto simp: q_value_def)
  qed (simp add: q_value_def)
  have rest: "q_ref w \<noteq> Some c \<and> q_value h1 w = q_value h w" if n: "(i, w) \<in> set b" for i w
  proof (cases "q_ref w")
    case (Some d)
    have "d < length h" using D(4)[OF n Some] .
    moreover have "q_ref e \<noteq> Some d" using D(1)[OF \<open>out k = Some e\<close>, of d] n Some by auto
    ultimately show ?thesis using c(5,6) Some by (auto simp: q_value_def)
  qed (simp add: q_value_def)
  have "unshared h1 out1 b"
    unfolding unshared_def
  proof (intro conjI allI impI, goal_cases)
    case (1 i q d)
    then show ?case using D(1)[of i q d] c(1,3,4) s(2) by (auto split: if_splits)
  next
    case (2 i q d)
    then show ?case using D(1)[of i q d] rest c(1) s(2) by (fastforce split: if_splits)
  next
    case (3 i j q q')
    obtain d where r: "q_ref q' = Some d" using 3 by (metis not_None_eq)
    have "q_ref q = Some d" using 3 r by simp
    with 3 r show ?case using D(2)[of i q j q' d] other[of i q] other[of j q'] c(1) s(2) by (auto split: if_splits)
  next
    case 4 then show ?case using D(4) c(4) by fastforce
  qed (use D(5,6) in auto)
  moreover have "entry_value h1 (out1 i) = entry_value h (out i) + (if i = k then q_value h v else 0)" for i
    using other[of i] s(2) c(1,2) Some by (cases "out i") (auto simp: entry_value_def q_value_def)
  moreover have "out i = Some q \<and> q_ref q = Some d \<longrightarrow> (\<exists>q'. out1 i = Some q' \<and> q_ref q' = Some d)" for i q d
    using s(2) c(1,6) Some by auto
  ultimately show ?thesis using rest by blast
qed

lemma add_lists_cells:
  "unshared h out b \<Longrightarrow> foldl add_entry (h, out) b = (h', out') \<Longrightarrow>
    (\<forall>i. entry_value h' (out' i) = entry_value h (out i) + entry_value h (map_of b i)) \<and>
    (\<forall>i q c. out i = Some q \<and> q_ref q = Some c \<longrightarrow> (\<exists>q'. out' i = Some q' \<and> q_ref q' = Some c))"
proof (induction b arbitrary: h out)
  case Nil then show ?case by (simp add: entry_value_def)
next
  case (Cons e b)
  obtain k v where e: "e = (k, v)" by fastforce
  obtain h1 out1 where s: "add_entry (h, out) (k, v) = (h1, out1)" by fastforce
  note A = add_entry_cells[OF Cons.prems(1)[unfolded e] s]
  have "foldl add_entry (h1, out1) b = (h', out')" using Cons.prems(2) s e by simp
  with Cons.IH A have I: "\<forall>i. entry_value h' (out' i) = entry_value h1 (out1 i) + entry_value h1 (map_of b i)"
    "\<forall>i q c. out1 i = Some q \<and> q_ref q = Some c \<longrightarrow> (\<exists>q'. out' i = Some q' \<and> q_ref q' = Some c)" by blast+
  have "map_of b k = None" using unsharedD(7)[OF Cons.prems(1)[unfolded e]] by (simp add: map_of_eq_None_iff)
  moreover have "entry_value h1 (map_of b i) = entry_value h (map_of b i)" for i
    using A map_of_SomeD[of b i] by (cases "map_of b i") (auto simp: entry_value_def)
  ultimately have "entry_value h' (out' i) = entry_value h (out i) + entry_value h (map_of (e # b) i)" for i
    using I(1) A e by (auto simp: entry_value_def)
  then show ?case using I(2) A by blast
qed

text \<open>The sum of two resource lists has, for every resource, the sum of the two amounts, but it is
  computed in place: where both lists have the resource, the first argument's own amount (when it is
  not nil) has become the sum too.\<close>

theorem list_sum_overwrites_argument:
  assumes "unshared h (map_of a) b" "add_lists h a b = (h', out)"
  shows "entry_value h' (out k) = entry_value h (map_of a k) + entry_value h (map_of b k) \<and>
    (map_of a k = Some q \<and> q_ref q = Some c \<longrightarrow> q_value h' q = q_value h q + entry_value h (map_of b k))"
proof -
  note A = add_lists_cells[OF assms(1) assms(2)[unfolded add_lists_def]]
  have "q_value h' q = entry_value h' (out k)" if n: "map_of a k = Some q" "q_ref q = Some c"
  proof -
    obtain q' where "out k = Some q'" "q_ref q' = Some c" using A n by blast
    then show ?thesis using n by (simp add: entry_value_def q_value_def)
  qed
  then show ?thesis using A by (auto simp: entry_value_def q_value_def)
qed

lemma list_sum_overwrites_argument_witness:
  "q_value (fst (add_lists [2, 3] [(''cpu'', \<lparr>q_ref = Some 0, q_format = DecimalSI\<rparr>)] [(''cpu'', \<lparr>q_ref = Some 1, q_format = DecimalSI\<rparr>)]))
    \<lparr>q_ref = Some 0, q_format = DecimalSI\<rparr> = 2 + 3"
proof -
  let ?q = "\<lambda>i. \<lparr>q_ref = Some i, q_format = DecimalSI\<rparr>"
  have "unshared [2, 3] (map_of [(''cpu'', ?q 0)]) [(''cpu'', ?q 1)]"
    by (auto simp: unshared_def List.map_filter_def split: if_splits)
  from list_sum_overwrites_argument[OF this, of _ _ "''cpu''" "?q 0" 0] show ?thesis
    by (cases "add_lists [2, 3] [(''cpu'', ?q 0)] [(''cpu'', ?q 1)]") (simp add: entry_value_def q_value_def)
qed

end
