(* ===== verification/Object_Meta.thy ===== *)
theory Object_Meta
  imports Json_Patch "HOL-Library.List_Lexorder" "HOL-Library.Char_ord"
begin

section \<open>Object metadata (internal/apimachinery: meta, finalizers, owner, conditions)\<close>

text \<open>
  The parts of an object that every controller touches: the accessor of its metadata, the
  finalizers that hold back its deletion, the references to its owners with the garbage collector
  that follows them, and its conditions. An object is a decoded JSON object; the code updates it
  in place, the model returns it. The collector reaches the store through a resolver, which is a
  parameter.
\<close>

subsection \<open>Metadata (meta/accessor.go)\<close>

type_synonym fields = "string \<rightharpoonup> json"

definition as_string :: "json option \<Rightarrow> string" where
  "as_string v = (case v of Some (JString s) \<Rightarrow> s | _ \<Rightarrow> [])"

definition metadata_of :: "fields \<Rightarrow> fields option" where
  "metadata_of obj = (case obj ''metadata'' of Some (JObject m) \<Rightarrow> Some m | _ \<Rightarrow> None)"

definition metadata_or_create :: "fields \<Rightarrow> fields" where
  "metadata_or_create obj = (case metadata_of obj of Some m \<Rightarrow> m | None \<Rightarrow> Map.empty)"

definition put_metadata :: "fields \<Rightarrow> fields \<Rightarrow> fields" where
  "put_metadata m obj = obj(''metadata'' \<mapsto> JObject m)"

definition accessor :: "json \<Rightarrow> (fields \<times> fields) option" where
  "accessor v = (case v of JObject obj \<Rightarrow> (let m = metadata_or_create obj in Some (put_metadata m obj, m)) | _ \<Rightarrow> None)"

definition strings_of :: "json option \<Rightarrow> string list" where
  "strings_of v = (case v of Some (JArray xs) \<Rightarrow> List.map_filter (\<lambda>x. case x of JString s \<Rightarrow> Some s | _ \<Rightarrow> None) xs | _ \<Rightarrow> [])"

text \<open>The getters and setters read and write one field of the metadata; labels and annotations are read alike.\<close>

definition get_text :: "string \<Rightarrow> fields \<Rightarrow> string" where
  "get_text k m = as_string (m k)"

definition set_text :: "string \<Rightarrow> string \<Rightarrow> fields \<Rightarrow> fields" where
  "set_text k v m = m(k \<mapsto> JString v)"

definition get_generation :: "fields \<Rightarrow> int" where
  "get_generation m = (case m ''generation'' of Some (JNumber n) \<Rightarrow> n | _ \<Rightarrow> 0)"

definition set_generation :: "int \<Rightarrow> fields \<Rightarrow> fields" where
  "set_generation v m = m(''generation'' \<mapsto> JNumber v)"

definition get_string_map :: "string \<Rightarrow> fields \<Rightarrow> (string \<rightharpoonup> string)" where
  "get_string_map k m =
     (case m k of Some (JObject raw) \<Rightarrow> (\<lambda>l. case raw l of Some (JString s) \<Rightarrow> Some s | _ \<Rightarrow> None) | _ \<Rightarrow> Map.empty)"

definition set_string_map :: "string \<Rightarrow> (string \<rightharpoonup> string) \<Rightarrow> fields \<Rightarrow> fields" where
  "set_string_map k v m = m(k \<mapsto> JObject (map_option JString \<circ> v))"

definition get_finalizers :: "fields \<Rightarrow> string list" where
  "get_finalizers m = strings_of (m ''finalizers'')"

definition set_finalizers :: "string list \<Rightarrow> fields \<Rightarrow> fields" where
  "set_finalizers v m = m(''finalizers'' \<mapsto> JArray (map JString v))"

text \<open>A reference of package metav1 has optional flags.\<close>

record owner_ref =
  or_api :: string
  or_kind :: string
  or_name :: string
  or_uid :: string
  or_controller :: "bool option"
  or_block :: "bool option"

definition as_bool :: "json option \<Rightarrow> bool option" where
  "as_bool v = (case v of Some (JBool b) \<Rightarrow> Some b | _ \<Rightarrow> None)"

definition read_ref :: "json \<Rightarrow> owner_ref option" where
  "read_ref v =
     (case v of
        JObject m \<Rightarrow> Some \<lparr>or_api = as_string (m ''apiVersion''), or_kind = as_string (m ''kind''),
          or_name = as_string (m ''name''), or_uid = as_string (m ''uid''),
          or_controller = as_bool (m ''controller''), or_block = as_bool (m ''blockOwnerDeletion'')\<rparr>
      | _ \<Rightarrow> None)"

definition write_ref :: "owner_ref \<Rightarrow> json" where
  "write_ref r = JObject
     (let e = [''apiVersion'' \<mapsto> JString (or_api r), ''kind'' \<mapsto> JString (or_kind r), ''name'' \<mapsto> JString (or_name r),
               ''uid'' \<mapsto> JString (or_uid r)];
          e1 = (case or_controller r of Some b \<Rightarrow> e(''controller'' \<mapsto> JBool b) | None \<Rightarrow> e)
      in case or_block r of Some b \<Rightarrow> e1(''blockOwnerDeletion'' \<mapsto> JBool b) | None \<Rightarrow> e1)"

definition get_owner_refs :: "fields \<Rightarrow> owner_ref list" where
  "get_owner_refs m = (case m ''ownerReferences'' of Some (JArray xs) \<Rightarrow> List.map_filter read_ref xs | _ \<Rightarrow> [])"

definition set_owner_refs :: "owner_ref list \<Rightarrow> fields \<Rightarrow> fields" where
  "set_owner_refs v m = m(''ownerReferences'' \<mapsto> JArray (map write_ref v))"

definition namespace_name :: "fields \<Rightarrow> string" where
  "namespace_name m =
     (if get_text ''namespace'' m = [] then get_text ''name'' m else get_text ''namespace'' m @ ''/'' @ get_text ''name'' m)"

definition type_accessor :: "json \<Rightarrow> string \<times> string" where
  "type_accessor v = (case v of JObject m \<Rightarrow> (as_string (m ''apiVersion''), as_string (m ''kind'')) | _ \<Rightarrow> ([], []))"

subsection \<open>Finalizers (finalizers/finalizers.go)\<close>

definition current_finalizers :: "fields \<Rightarrow> string list" where
  "current_finalizers obj = (case metadata_of obj of Some m \<Rightarrow> strings_of (m ''finalizers'') | None \<Rightarrow> [])"

definition set_list :: "fields \<Rightarrow> string list \<Rightarrow> fields" where
  "set_list obj xs = put_metadata ((metadata_or_create obj)(''finalizers'' \<mapsto> JArray (map JString xs))) obj"

definition fin_contains :: "fields \<Rightarrow> string \<Rightarrow> bool" where
  "fin_contains obj n \<longleftrightarrow> n \<in> set (current_finalizers obj)"

definition fin_add :: "fields \<Rightarrow> string \<Rightarrow> fields \<times> bool" where
  "fin_add obj n = (if fin_contains obj n then (obj, False) else (set_list obj (current_finalizers obj @ [n]), True))"

definition fin_remove :: "fields \<Rightarrow> string \<Rightarrow> fields \<times> bool" where
  "fin_remove obj n =
     (let out = filter (\<lambda>x. x \<noteq> n) (current_finalizers obj)
      in if n \<in> set (current_finalizers obj) then (set_list obj out, True) else (obj, False))"

definition is_being_deleted :: "fields \<Rightarrow> bool" where
  "is_being_deleted obj \<longleftrightarrow>
     (case metadata_of obj of None \<Rightarrow> False
      | Some m \<Rightarrow> (case m ''deletionTimestamp'' of Some (JString s) \<Rightarrow> s \<noteq> [] | _ \<Rightarrow> False))"

text \<open>The stamp is the formatted time.\<close>

definition mark_for_deletion :: "fields \<Rightarrow> string \<Rightarrow> fields \<times> bool" where
  "mark_for_deletion obj stamp =
     (if is_being_deleted obj then (obj, False)
      else (put_metadata ((metadata_or_create obj)(''deletionTimestamp'' \<mapsto> JString stamp)) obj, True))"

definition is_ready_for_physical_delete :: "fields \<Rightarrow> bool" where
  "is_ready_for_physical_delete obj \<longleftrightarrow> is_being_deleted obj \<and> current_finalizers obj = []"

subsection \<open>Owner references (owner/owner.go)\<close>

record owner_key =
  ok_kind :: string
  ok_namespace :: string
  ok_name :: string

record reference =
  rf_api :: string
  rf_kind :: string
  rf_name :: string
  rf_uid :: string
  rf_controller :: bool
  rf_block :: bool

definition key_string :: "owner_key \<Rightarrow> string" where
  "key_string k =
     (if ok_namespace k = [] then ok_kind k @ ''/'' @ ok_name k
      else ok_kind k @ ''/'' @ ok_namespace k @ ''/'' @ ok_name k)"

definition ref_entry :: "json \<Rightarrow> reference option" where
  "ref_entry v =
     (case v of
        JObject m \<Rightarrow> Some \<lparr>rf_api = as_string (m ''apiVersion''), rf_kind = as_string (m ''kind''),
          rf_name = as_string (m ''name''), rf_uid = as_string (m ''uid''),
          rf_controller = (as_bool (m ''controller'') = Some True),
          rf_block = (as_bool (m ''blockOwnerDeletion'') = Some True)\<rparr>
      | _ \<Rightarrow> None)"

definition owners_of :: "fields \<Rightarrow> reference list" where
  "owners_of obj =
     (case metadata_of obj of None \<Rightarrow> []
      | Some m \<Rightarrow> (case m ''ownerReferences'' of Some (JArray xs) \<Rightarrow> List.map_filter ref_entry xs | _ \<Rightarrow> []))"

definition controller_of :: "fields \<Rightarrow> reference option" where
  "controller_of obj = List.find rf_controller (owners_of obj)"

definition new_ref_entry :: "reference \<Rightarrow> json" where
  "new_ref_entry r = JObject [''apiVersion'' \<mapsto> JString (rf_api r), ''kind'' \<mapsto> JString (rf_kind r),
     ''name'' \<mapsto> JString (rf_name r), ''uid'' \<mapsto> JString (rf_uid r), ''controller'' \<mapsto> JBool (rf_controller r),
     ''blockOwnerDeletion'' \<mapsto> JBool (rf_block r)]"

definition add_owner :: "fields \<Rightarrow> reference \<Rightarrow> fields" where
  "add_owner obj r =
     (let m = metadata_or_create obj;
          obj1 = put_metadata m obj;
          existing = (case m ''ownerReferences'' of Some (JArray xs) \<Rightarrow> xs | _ \<Rightarrow> []);
          same = (\<lambda>e. case e of
             JObject f \<Rightarrow> as_string (f ''kind'') = rf_kind r \<and> as_string (f ''name'') = rf_name r \<and> as_string (f ''uid'') = rf_uid r
           | _ \<Rightarrow> False)
      in if list_ex same existing then obj1
         else put_metadata (m(''ownerReferences'' \<mapsto> JArray (existing @ [new_ref_entry r]))) obj1)"

definition ensure_single_controller :: "fields \<Rightarrow> bool" where
  "ensure_single_controller obj \<longleftrightarrow> \<not> length (filter rf_controller (owners_of obj)) > 1"

definition object_key :: "fields \<Rightarrow> owner_key" where
  "object_key obj =
     (let m = metadata_or_create obj
      in \<lparr>ok_kind = as_string (obj ''kind''), ok_namespace = as_string (m ''namespace''), ok_name = as_string (m ''name'')\<rparr>)"

definition uid_of :: "fields \<Rightarrow> string" where
  "uid_of obj = (case metadata_of obj of None \<Rightarrow> [] | Some m \<Rightarrow> as_string (m ''uid''))"

subsection \<open>The garbage collector (owner/owner.go)\<close>

text \<open>The resolver is a state with \<open>ls\<close>, which lists the live objects or fails, and \<open>del\<close>, whose flag says whether it succeeded.\<close>

definition live_uids :: "fields list \<Rightarrow> (string \<rightharpoonup> owner_key)" where
  "live_uids objs = foldl (\<lambda>live obj. if uid_of obj \<noteq> [] then live(uid_of obj \<mapsto> object_key obj) else live) Map.empty objs"

definition child_index :: "fields list \<Rightarrow> string \<Rightarrow> owner_key list" where
  "child_index objs uid = concat (map (\<lambda>obj. map (\<lambda>r. object_key obj) (filter (\<lambda>r. rf_uid r = uid) (owners_of obj))) objs)"

definition orphaned :: "(string \<rightharpoonup> owner_key) \<Rightarrow> fields \<Rightarrow> bool" where
  "orphaned live obj \<longleftrightarrow> owners_of obj \<noteq> [] \<and> list_all (\<lambda>r. live (rf_uid r) = None) (owners_of obj)"

fun delete_orphans ::
  "(owner_key \<Rightarrow> 's \<Rightarrow> 's \<times> bool) \<Rightarrow> (string \<rightharpoonup> owner_key) \<Rightarrow> fields list \<Rightarrow> 's \<Rightarrow> 's \<times> owner_key list \<times> owner_key list" where
  "delete_orphans del live [] s = (s, [], [])"
| "delete_orphans del live (obj # objs) s =
     (if \<not> orphaned live obj then delete_orphans del live objs s
      else let (s1, ok) = del (object_key obj) s; (s2, deleted, failed) = delete_orphans del live objs s1
        in if ok then (s2, object_key obj # deleted, failed) else (s2, deleted, object_key obj # failed))"

text \<open>The collector keeps the child index of its last pass. A pass gives what it deleted and what it failed to delete.\<close>

definition sweep ::
  "('s \<Rightarrow> fields list option) \<Rightarrow> (owner_key \<Rightarrow> 's \<Rightarrow> 's \<times> bool) \<Rightarrow> 's \<times> (string \<Rightarrow> owner_key list) \<Rightarrow>
   ('s \<times> (string \<Rightarrow> owner_key list)) \<times> (owner_key list \<times> owner_key list) option" where
  "sweep ls del = (\<lambda>(s, children).
     case ls s of
       None \<Rightarrow> ((s, children), None)
     | Some objs \<Rightarrow> (let (s', deleted, failed) = delete_orphans del (live_uids objs) objs s
                     in ((s', child_index objs), Some (deleted, failed))))"

subsection \<open>Conditions (conditions/conditions.go)\<close>

datatype object_cond_status = StatusTrue | StatusFalse | StatusUnknown

record object_condition =
  cn_type :: string
  cn_status :: object_cond_status
  cn_generation :: int
  cn_since :: gotime
  cn_reason :: string
  cn_message :: string

text \<open>An empty status, which the argument \<open>None\<close> of \<open>st\<close> stands for, is set to Unknown. The types are sorted
  bytewise; where they are all different, the unstable sort of the code has this one result.\<close>

definition cond_set :: "gotime \<Rightarrow> object_cond_status option \<Rightarrow> object_condition list \<Rightarrow> object_condition \<Rightarrow> object_condition list" where
  "cond_set now st cs c0 =
     (let c1 = c0\<lparr>cn_since := (if cn_since c0 = zero_time then now else cn_since c0),
                  cn_status := (case st of None \<Rightarrow> StatusUnknown | Some v \<Rightarrow> v)\<rparr>;
          upd = (\<lambda>(c, out, found) e.
             if cn_type e \<noteq> cn_type c then (c, out @ [e], found)
             else let c' = (if cn_status e = cn_status c then c\<lparr>cn_since := cn_since e\<rparr> else c) in (c', out @ [c'], True));
          (c, out, found) = foldl upd (c1, [], False) cs
      in sort_key cn_type (if found then out else out @ [c]))"

definition cond_remove :: "object_condition list \<Rightarrow> string \<Rightarrow> object_condition list" where
  "cond_remove cs t = filter (\<lambda>c. cn_type c \<noteq> t) cs"

definition cond_find :: "object_condition list \<Rightarrow> string \<Rightarrow> object_condition option" where
  "cond_find cs t = List.find (\<lambda>c. cn_type c = t) cs"

definition cond_is_true :: "object_condition list \<Rightarrow> string \<Rightarrow> bool" where
  "cond_is_true cs t = (case cond_find cs t of Some c \<Rightarrow> cn_status c = StatusTrue | None \<Rightarrow> False)"

definition cond_is_false :: "object_condition list \<Rightarrow> string \<Rightarrow> bool" where
  "cond_is_false cs t = (case cond_find cs t of Some c \<Rightarrow> cn_status c = StatusFalse | None \<Rightarrow> False)"

definition cond_is_unknown :: "object_condition list \<Rightarrow> string \<Rightarrow> bool" where
  "cond_is_unknown cs t = (case cond_find cs t of Some c \<Rightarrow> cn_status c = StatusUnknown | None \<Rightarrow> True)"

definition cond_status_equal :: "object_condition list \<Rightarrow> string \<Rightarrow> object_cond_status \<Rightarrow> bool" where
  "cond_status_equal cs t v = (case cond_find cs t of Some c \<Rightarrow> cn_status c = v | None \<Rightarrow> False)"

definition cond_is_stale :: "object_condition list \<Rightarrow> string \<Rightarrow> int \<Rightarrow> bool" where
  "cond_is_stale cs t gen = (case cond_find cs t of Some c \<Rightarrow> cn_generation c < gen | None \<Rightarrow> True)"

subsection \<open>Lemmas on the collector\<close>

lemma live_uids_iff: "live_uids objs u = None \<longleftrightarrow> \<not> (\<exists>x \<in> set objs. uid_of x = u \<and> u \<noteq> [])"
proof -
  have "foldl (\<lambda>live obj. if uid_of obj \<noteq> [] then live(uid_of obj \<mapsto> object_key obj) else live) m objs u = None \<longleftrightarrow>
      m u = None \<and> \<not> (\<exists>x \<in> set objs. uid_of x = u \<and> u \<noteq> [])" for m
    by (induction objs arbitrary: m) auto
  then show ?thesis by (simp add: live_uids_def)
qed

text \<open>An object that a pass keeps: it has no owners, or one of them is in the list.\<close>

definition kept_in :: "fields set \<Rightarrow> fields \<Rightarrow> bool" where
  "kept_in X obj \<longleftrightarrow> owners_of obj = [] \<or> (\<exists>r \<in> set (owners_of obj). \<exists>p \<in> X. uid_of p = rf_uid r \<and> uid_of p \<noteq> [])"

lemma orphaned_iff: "orphaned (live_uids objs) obj \<longleftrightarrow> \<not> kept_in (set objs) obj"
  by (auto simp: orphaned_def kept_in_def list_all_iff live_uids_iff)

lemma kept_in_mono: "kept_in X obj \<Longrightarrow> X \<subseteq> Y \<Longrightarrow> kept_in Y obj"
  by (auto simp: kept_in_def)

text \<open>The documented resolver: listing succeeds and deleting a key removes the objects with that key.\<close>

definition resolver_ok :: "('s \<Rightarrow> fields list option) \<Rightarrow> (owner_key \<Rightarrow> 's \<Rightarrow> 's \<times> bool) \<Rightarrow> bool" where
  "resolver_ok ls del \<longleftrightarrow>
     (\<forall>s. ls s \<noteq> None) \<and>
     (\<forall>k s. ls (fst (del k s)) = map_option (filter (\<lambda>x. object_key x \<noteq> k)) (ls s) \<and> snd (del k s))"

lemma delete_orphans_result:
  assumes "resolver_ok ls del" "ls s = Some all"
  shows "ls (fst (delete_orphans del live objs s)) =
      Some (filter (\<lambda>x. object_key x \<notin> object_key ` {x \<in> set objs. orphaned live x}) all)"
    "snd (delete_orphans del live objs s) = (map object_key (filter (orphaned live) objs), [])"
proof -
  have "ls (fst (delete_orphans del live objs s)) =
      Some (filter (\<lambda>x. object_key x \<notin> object_key ` {x \<in> set objs. orphaned live x}) all) \<and>
    snd (delete_orphans del live objs s) = (map object_key (filter (orphaned live) objs), [])"
    using assms(2)
  proof (induction objs arbitrary: s all)
    case (Cons obj objs)
    show ?case
    proof (cases "orphaned live obj")
      case True
      obtain s1 b where sb: "del (object_key obj) s = (s1, b)" by fastforce
      have "ls (fst (del (object_key obj) s)) = map_option (filter (\<lambda>x. object_key x \<noteq> object_key obj)) (ls s)" "snd (del (object_key obj) s)"
        using assms(1) unfolding resolver_ok_def by blast+
      then have d: "del (object_key obj) s = (s1, True)" "ls s1 = Some (filter (\<lambda>x. object_key x \<noteq> object_key obj) all)"
        using Cons.prems sb by simp_all
      have "{x \<in> set (obj # objs). orphaned live x} = insert obj {x \<in> set objs. orphaned live x}" using True by auto
      then show ?thesis using Cons.IH[OF d(2)] d(1) True by (auto simp: split: prod.splits intro!: filter_cong)
    next
      case False
      then have "{x \<in> set (obj # objs). orphaned live x} = {x \<in> set objs. orphaned live x}" by auto
      then show ?thesis using Cons False by simp
    qed
  qed simp
  then show "ls (fst (delete_orphans del live objs s)) =
      Some (filter (\<lambda>x. object_key x \<notin> object_key ` {x \<in> set objs. orphaned live x}) all)"
    "snd (delete_orphans del live objs s) = (map object_key (filter (orphaned live) objs), [])" by blast+
qed

lemma sweep_result:
  assumes "resolver_ok ls del" "ls s = Some objs" "distinct (map object_key objs)" "sweep ls del (s, ch) = ((s', ch'), r)"
  shows "ls s' = Some (filter (kept_in (set objs)) objs)"
    "r = Some (map object_key (filter (\<lambda>x. \<not> kept_in (set objs) x) objs), [])"
proof -
  have eq: "s' = fst (delete_orphans del (live_uids objs) objs s)"
      "r = Some (snd (delete_orphans del (live_uids objs) objs s))"
    using assms(2,4) by (auto simp: sweep_def split: prod.splits)
  have "object_key x \<notin> object_key ` {x \<in> set objs. orphaned (live_uids objs) x} \<longleftrightarrow> kept_in (set objs) x" if n: "x \<in> set objs" for x
    using assms(3) n by (auto simp: orphaned_iff distinct_map dest: inj_onD)
  then show "ls s' = Some (filter (kept_in (set objs)) objs)"
    unfolding eq delete_orphans_result(1)[OF assms(1,2)] by (simp cong: filter_cong)
  show "r = Some (map object_key (filter (\<lambda>x. \<not> kept_in (set objs) x) objs), [])"
    unfolding eq delete_orphans_result(2)[OF assms(1,2)] orphaned_iff ..
qed

definition sweeps ::
  "('s \<Rightarrow> fields list option) \<Rightarrow> (owner_key \<Rightarrow> 's \<Rightarrow> 's \<times> bool) \<Rightarrow> nat \<Rightarrow> 's \<times> (string \<Rightarrow> owner_key list) \<Rightarrow> 's \<times> (string \<Rightarrow> owner_key list)" where
  "sweeps ls del n = (\<lambda>st. fst (sweep ls del st)) ^^ n"

lemma sweeps_Suc: "sweeps ls del (Suc n) st = sweeps ls del n (fst (sweep ls del st))"
  by (simp add: sweeps_def funpow_Suc_right del: funpow.simps)

lemma sweeps_stable:
  assumes "resolver_ok ls del" "distinct (map object_key objs)" "\<forall>x \<in> set objs. kept_in (set objs) x" "ls (fst st) = Some objs"
  shows "ls (fst (sweeps ls del n st)) = Some objs"
  using assms(4)
proof (induction n arbitrary: st)
  case (Suc n)
  obtain s' ch' r where w: "sweep ls del (fst st, snd st) = ((s', ch'), r)" by (metis prod.exhaust)
  have "ls s' = Some objs" using sweep_result(1)[OF assms(1) Suc.prems assms(2) w] assms(3) by (simp add: filter_id_conv)
  then show ?case using Suc.IH[of "(s', ch')"] w by (simp add: sweeps_Suc)
qed (simp add: sweeps_def)


text \<open>A store of objects in a list; an object with a uid and the uids of its owners.\<close>

definition list_del :: "owner_key \<Rightarrow> fields list \<Rightarrow> fields list \<times> bool" where
  "list_del k objs = (filter (\<lambda>x. object_key x \<noteq> k) objs, True)"

definition demo_object :: "string \<Rightarrow> string list \<Rightarrow> fields" where
  "demo_object uid us = [''metadata'' \<mapsto> JObject [''name'' \<mapsto> JString uid, ''uid'' \<mapsto> JString uid,
     ''ownerReferences'' \<mapsto> JArray (map (\<lambda>u. JObject [''uid'' \<mapsto> JString u]) us)]]"

lemma list_del_ok: "resolver_ok Some list_del"
  by (simp add: resolver_ok_def list_del_def)

lemma demo_object_simps [simp]:
  "uid_of (demo_object u us) = u" "object_key (demo_object u us) = \<lparr>ok_kind = [], ok_namespace = [], ok_name = u\<rparr>"
  "map rf_uid (owners_of (demo_object u us)) = us"
proof -
  show "uid_of (demo_object u us) = u" by (simp add: uid_of_def metadata_of_def demo_object_def as_string_def)
  show "object_key (demo_object u us) = \<lparr>ok_kind = [], ok_namespace = [], ok_name = u\<rparr>"
    by (simp add: object_key_def metadata_or_create_def metadata_of_def demo_object_def as_string_def Let_def)
  have "map rf_uid (List.map_filter ref_entry (map (\<lambda>u. JObject [''uid'' \<mapsto> JString u]) us)) = us"
    by (induction us) (auto simp: List.map_filter_def ref_entry_def as_string_def)
  then show "map rf_uid (owners_of (demo_object u us)) = us"
    by (simp add: owners_of_def metadata_of_def demo_object_def)
qed


text \<open>One pass takes one level of a chain only: the grandchild of a deleted object is left to the next pass.\<close>

lemma one_pass_takes_one_level:
  "map object_key (fst (fst (sweep Some list_del ([demo_object ''child'' [''root''], demo_object ''grandchild'' [''child'']], \<lambda>u. [])))) =
    [\<lparr>ok_kind = [], ok_namespace = [], ok_name = ''grandchild''\<rparr>]"
  by code_simp

subsection \<open>What is written is read back\<close>

lemma metadata_put [simp]: "metadata_of (put_metadata m obj) = Some m" "metadata_or_create (put_metadata m obj) = m"
  by (simp_all add: metadata_of_def put_metadata_def metadata_or_create_def)

lemma strings_of_strings [simp]: "strings_of (Some (JArray (map JString xs))) = xs"
  by (induction xs) (auto simp: strings_of_def List.map_filter_def)

lemma strings_of_None [simp]: "strings_of None = []"
  by (simp add: strings_of_def)

lemma read_write_refs: "List.map_filter read_ref (map write_ref v) = v"
proof (induction v)
  case (Cons r v)
  have "read_ref (write_ref r) = Some r"
    by (cases "or_controller r"; cases "or_block r") (simp_all add: read_ref_def write_ref_def as_string_def as_bool_def Let_def)
  then show ?case using Cons by (simp add: List.map_filter_def)
qed (simp add: List.map_filter_def)

lemma accessor_roundtrip:
  "get_text k (set_text k v m) = v" "get_generation (set_generation n m) = n"
  "get_string_map k (set_string_map k w m) = w" "get_finalizers (set_finalizers xs m) = xs"
  "get_owner_refs (set_owner_refs rs m) = rs"
  by (auto simp: get_text_def set_text_def as_string_def get_generation_def set_generation_def get_string_map_def
      set_string_map_def get_finalizers_def set_finalizers_def get_owner_refs_def set_owner_refs_def read_write_refs fun_eq_iff
      split: option.split)

lemma owners_of_add:
  "owners_of (add_owner obj r) =
    (if \<exists>e \<in> set (owners_of obj). rf_kind e = rf_kind r \<and> rf_name e = rf_name r \<and> rf_uid e = rf_uid r
     then owners_of obj else owners_of obj @ [r])"
proof -
  define xs where "xs = (case metadata_or_create obj ''ownerReferences'' of Some (JArray xs) \<Rightarrow> xs | _ \<Rightarrow> [])"
  have o: "owners_of obj = List.map_filter ref_entry xs"
    by (auto simp: owners_of_def xs_def metadata_or_create_def List.map_filter_def split: option.split json.split)
  have ex: "list_ex (\<lambda>e. case e of JObject f \<Rightarrow> as_string (f ''kind'') = rf_kind r \<and> as_string (f ''name'') = rf_name r \<and>
        as_string (f ''uid'') = rf_uid r | _ \<Rightarrow> False) xs \<longleftrightarrow>
      (\<exists>e \<in> set (List.map_filter ref_entry xs). rf_kind e = rf_kind r \<and> rf_name e = rf_name r \<and> rf_uid e = rf_uid r)"
    by (induction xs) (auto simp: List.map_filter_def ref_entry_def split: json.split)
  have "ref_entry (new_ref_entry r) = Some r" by (simp add: ref_entry_def new_ref_entry_def as_string_def as_bool_def)
  then have snoc: "List.map_filter ref_entry (xs @ [new_ref_entry r]) = List.map_filter ref_entry xs @ [r]" by (simp add: List.map_filter_def)
  have keep: "owners_of (put_metadata (metadata_or_create obj) obj) = owners_of obj"
    by (auto simp: owners_of_def metadata_or_create_def split: option.split)
  have new: "owners_of (put_metadata ((metadata_or_create obj)(''ownerReferences'' \<mapsto> JArray ys)) ob) = List.map_filter ref_entry ys" for ys ob
    by (simp add: owners_of_def)
  show ?thesis unfolding add_owner_def Let_def xs_def[symmetric] ex o[symmetric] by (auto simp: keep new snoc o)
qed

subsection \<open>Finalizers hold back the deletion\<close>

lemma set_list_simps: "current_finalizers (set_list obj xs) = xs" "is_being_deleted (set_list obj xs) = is_being_deleted obj"
  by (simp_all add: current_finalizers_def set_list_def is_being_deleted_def)
    (simp add: metadata_or_create_def split: option.split)

lemma fin_add_simps:
  "set (current_finalizers (fst (fin_add obj n))) = insert n (set (current_finalizers obj))"
  "is_being_deleted (fst (fin_add obj n)) = is_being_deleted obj"
  by (auto simp: fin_add_def fin_contains_def set_list_simps)

lemma fin_remove_simps:
  "set (current_finalizers (fst (fin_remove obj n))) = set (current_finalizers obj) - {n}"
  "is_being_deleted (fst (fin_remove obj n)) = is_being_deleted obj"
  by (auto simp: fin_remove_def set_list_simps Let_def)

lemma mark_simps:
  "current_finalizers (fst (mark_for_deletion obj t)) = current_finalizers obj"
  "t \<noteq> [] \<Longrightarrow> is_being_deleted (fst (mark_for_deletion obj t))"
  by (auto simp: mark_for_deletion_def current_finalizers_def is_being_deleted_def metadata_or_create_def split: option.split)

datatype fin_op = AddFinalizer string | RemoveFinalizer string | MarkDeleted string

fun fin_step :: "fields \<Rightarrow> fin_op \<Rightarrow> fields" where
  "fin_step obj (AddFinalizer n) = fst (fin_add obj n)"
| "fin_step obj (RemoveFinalizer n) = fst (fin_remove obj n)"
| "fin_step obj (MarkDeleted t) = fst (mark_for_deletion obj t)"

text \<open>The abstract state: the names that wait, and whether a deletion was asked for.\<close>

fun fin_spec :: "string set \<times> bool \<Rightarrow> fin_op \<Rightarrow> string set \<times> bool" where
  "fin_spec (S, d) (AddFinalizer n) = (insert n S, d)"
| "fin_spec (S, d) (RemoveFinalizer n) = (S - {n}, d)"
| "fin_spec (S, d) (MarkDeleted t) = (S, True)"

text \<open>However finalizers are added and removed and deletions asked for, the object may be deleted for good
  exactly when a deletion was asked for, at any time, and every finalizer ever added has been
  removed since it was last added.\<close>

theorem finalizers_hold_deletion:
  assumes "\<forall>t. MarkDeleted t \<in> set ops \<longrightarrow> t \<noteq> []"
  shows "is_ready_for_physical_delete (foldl fin_step obj ops) \<longleftrightarrow>
    foldl fin_spec (set (current_finalizers obj), is_being_deleted obj) ops = ({}, True)"
proof -
  have "foldl fin_spec (set (current_finalizers obj), is_being_deleted obj) ops =
      (set (current_finalizers (foldl fin_step obj ops)), is_being_deleted (foldl fin_step obj ops))"
    using assms
  proof (induction ops arbitrary: obj)
    case (Cons x ops)
    have "fin_spec (set (current_finalizers obj), is_being_deleted obj) x =
        (set (current_finalizers (fin_step obj x)), is_being_deleted (fin_step obj x))"
      using Cons.prems by (cases x) (simp_all add: fin_add_simps fin_remove_simps mark_simps)
    then show ?case using Cons by simp
  qed simp
  then show ?thesis by (auto simp: is_ready_for_physical_delete_def)
qed

lemma finalizers_hold_deletion_witness:
  "is_ready_for_physical_delete
    (foldl fin_step (demo_object ''a'' []) [AddFinalizer ''db'', MarkDeleted ''t'', RemoveFinalizer ''db''])"
proof -
  have "current_finalizers (demo_object ''a'' []) = []" by (simp add: current_finalizers_def metadata_of_def demo_object_def strings_of_def)
  then show ?thesis
    using finalizers_hold_deletion[of "[AddFinalizer ''db'', MarkDeleted ''t'', RemoveFinalizer ''db'']" "demo_object ''a'' []"] by simp
qed

subsection \<open>One condition per type, stamped when its status changes\<close>

lemma cond_find_iff: "distinct (map cn_type cs) \<Longrightarrow> cond_find cs t = Some c \<longleftrightarrow> c \<in> set cs \<and> cn_type c = t"
  by (induction cs) (auto simp: cond_find_def)

definition stamped :: "object_condition list \<Rightarrow> object_condition \<Rightarrow> object_condition" where
  "stamped cs c =
     (case cond_find cs (cn_type c) of
        Some e \<Rightarrow> if cn_status e = cn_status c then c\<lparr>cn_since := cn_since e\<rparr> else c
      | None \<Rightarrow> c)"

lemma cond_update_loop:
  assumes "distinct (map cn_type cs)"
  shows "foldl (\<lambda>(c, out, found) e. if cn_type e \<noteq> cn_type c then (c, out @ [e], found)
        else let c' = (if cn_status e = cn_status c then c\<lparr>cn_since := cn_since e\<rparr> else c) in (c', out @ [c'], True)) (c, out, found) cs =
    (stamped cs c, out @ map (\<lambda>e. if cn_type e = cn_type c then stamped cs c else e) cs, found \<or> cn_type c \<in> cn_type ` set cs)"
  using assms
proof (induction cs arbitrary: out c found)
  case Nil then show ?case by (simp add: stamped_def cond_find_def)
next
  case (Cons e cs)
  show ?case
  proof (cases "cn_type e = cn_type c")
    case False
    then have "stamped (e # cs) c = stamped cs c" by (simp add: stamped_def cond_find_def)
    then show ?thesis using Cons False by auto
  next
    case True
    define c' where "c' = (if cn_status e = cn_status c then c\<lparr>cn_since := cn_since e\<rparr> else c)"
    have t: "cn_type c' = cn_type c" by (simp add: c'_def)
    have no: "cn_type c \<notin> cn_type ` set cs" using Cons.prems True by auto
    then have "cond_find cs (cn_type c) = None" unfolding cond_find_def find_None_iff by (metis image_eqI)
    then have s: "stamped (e # cs) c = c'" "stamped cs c' = c'" using True t by (auto simp: stamped_def cond_find_def c'_def)
    have "map (\<lambda>x. if cn_type x = cn_type c then c' else x) cs = cs" using no by (intro map_idI) (metis imageI)
    then show ?thesis using Cons.IH[of c' "out @ [c']" True] Cons.prems True s t by (simp add: c'_def[symmetric] Let_def)
  qed
qed

text \<open>Setting a condition is a map update by type: afterwards there is still one condition per type, in
  the order of the types, every other type is as before, and the time of the last transition is the
  old one exactly when the status has not changed.\<close>

theorem cond_set_exact:
  assumes "distinct (map cn_type cs)"
  shows "distinct (map cn_type (cond_set now st cs c)) \<and> sorted (map cn_type (cond_set now st cs c)) \<and>
    (\<forall>t. cond_find (cond_set now st cs c) t =
      (if t = cn_type c
       then let v = (case st of None \<Rightarrow> StatusUnknown | Some v \<Rightarrow> v)
         in Some (c\<lparr>cn_status := v,
                    cn_since := (if cond_status_equal cs t v then cn_since (the (cond_find cs t))
                                 else if cn_since c = zero_time then now else cn_since c)\<rparr>)
       else cond_find cs t))"
proof -
  define c1 where "c1 = c\<lparr>cn_since := (if cn_since c = zero_time then now else cn_since c),
    cn_status := (case st of None \<Rightarrow> StatusUnknown | Some v \<Rightarrow> v)\<rparr>"
  define d where "d = stamped cs c1"
  have t: "cn_type c1 = cn_type c" "cn_type d = cn_type c"
    by (simp_all add: c1_def d_def stamped_def split: option.split)
  define ys where "ys = map (\<lambda>e. if cn_type e = cn_type c then d else e) cs @ (if cn_type c \<in> cn_type ` set cs then [] else [d])"
  have set: "cond_set now st cs c = sort_key cn_type ys"
    unfolding cond_set_def Let_def c1_def[symmetric] cond_update_loop[OF assms, unfolded Let_def]
    by (auto simp: ys_def t(1) d_def[symmetric] cong: if_cong)
  have types: "map cn_type ys = map cn_type cs @ (if cn_type c \<in> cn_type ` set cs then [] else [cn_type c])"
    using t by (auto simp: ys_def)
  have dist: "distinct (map cn_type (sort_key cn_type ys))"
  proof -
    have "distinct (map cn_type ys)" using assms unfolding types by auto
    then show ?thesis by (simp add: distinct_map)
  qed
  have find: "cond_find (sort_key cn_type ys) t' = (if t' = cn_type c then Some d else cond_find cs t')" for t'
  proof (rule option_eqI)
    fix x
    have "x \<in> set ys \<and> cn_type x = t' \<longleftrightarrow> (if t' = cn_type c then x = d else x \<in> set cs \<and> cn_type x = t')"
      using t by (auto simp: ys_def)
    then show "cond_find (sort_key cn_type ys) t' = Some x \<longleftrightarrow> (if t' = cn_type c then Some d else cond_find cs t') = Some x"
      using cond_find_iff[OF dist] cond_find_iff[OF assms] by auto
  qed
  have "d = c\<lparr>cn_status := (case st of None \<Rightarrow> StatusUnknown | Some v \<Rightarrow> v),
      cn_since := (if cond_status_equal cs (cn_type c) (case st of None \<Rightarrow> StatusUnknown | Some v \<Rightarrow> v) then cn_since (the (cond_find cs (cn_type c)))
                   else if cn_since c = zero_time then now else cn_since c)\<rparr>"
    unfolding d_def stamped_def t(1) by (auto simp: c1_def cond_status_equal_def split: option.split)
  then show ?thesis using dist find unfolding set Let_def by auto
qed

lemma cond_set_exact_witness:
  "cond_find (cond_set 9 (Some StatusTrue) [\<lparr>cn_type = ''Ready'', cn_status = StatusTrue, cn_generation = 1, cn_since = 5, cn_reason = [], cn_message = []\<rparr>]
      \<lparr>cn_type = ''Ready'', cn_status = StatusTrue, cn_generation = 2, cn_since = 0, cn_reason = [], cn_message = []\<rparr>) ''Ready'' =
    Some \<lparr>cn_type = ''Ready'', cn_status = StatusTrue, cn_generation = 2, cn_since = 5, cn_reason = [], cn_message = []\<rparr>"
  using cond_set_exact[of "[\<lparr>cn_type = ''Ready'', cn_status = StatusTrue, cn_generation = 1, cn_since = 5, cn_reason = [], cn_message = []\<rparr>]"
      9 "Some StatusTrue" "\<lparr>cn_type = ''Ready'', cn_status = StatusTrue, cn_generation = 2, cn_since = 0, cn_reason = [], cn_message = []\<rparr>"]
  by (simp add: cond_status_equal_def cond_find_def)

end
