(* ===== verification/State_Store.thy ===== *)
theory State_Store
  imports Go_Strings "HOL-Library.List_Lexorder" "HOL-Library.Char_ord" "HOL-Library.AList"
begin

section \<open>The distributed state store (internal/distributedstate)\<close>

text \<open>
  The store in memory (in_memory.go), and the values, counters, sets, queues and the manager that
  work on any store through its interface (structures.go, manager.go). The interface is a record of
  operations that may fail; its laws are the locale at the end, where the counters are shown to be
  linearizable. Lease and revision numbers count up from zero and are not bounded.
\<close>

subsection \<open>The interface (types.go)\<close>

datatype event_type = EventTypePut | EventTypeDelete

record state_event =
  se_type :: event_type
  se_key :: string
  se_value :: string
  se_old :: string
  se_revision :: int
  se_time :: gotime

datatype store_operation = OperationPut string string | OperationDelete string | OperationCompare string string

text \<open>An error is None, or False where nothing else is returned.\<close>

record 's store_ops =
  so_put :: "'s \<Rightarrow> string \<Rightarrow> string \<Rightarrow> 's \<times> bool"
  so_get :: "'s \<Rightarrow> string \<Rightarrow> string option"
  so_delete :: "'s \<Rightarrow> string \<Rightarrow> 's \<times> bool"
  so_cas :: "'s \<Rightarrow> string \<Rightarrow> string \<Rightarrow> string \<Rightarrow> 's \<times> bool option"
  so_get_rev :: "'s \<Rightarrow> string \<Rightarrow> (string \<times> int) option"
  so_put_lease :: "'s \<Rightarrow> string \<Rightarrow> string \<Rightarrow> duration \<Rightarrow> 's \<times> int option"
  so_release :: "'s \<Rightarrow> int \<Rightarrow> 's \<times> bool"
  so_list :: "'s \<Rightarrow> string \<Rightarrow> (string \<times> string) list option"
  so_transaction :: "'s \<Rightarrow> store_operation list \<Rightarrow> 's \<times> bool option"
  so_watch :: "'s \<Rightarrow> string \<Rightarrow> nat \<Rightarrow> 's"

subsection \<open>The store in memory (in_memory.go)\<close>

text \<open>
  Callbacks are numbers; each is started as a goroutine, recorded in \<open>ms_calls\<close>. The data and the
  leases are listed with their keys and numbers, in any order.
\<close>

record lease_entry =
  ls_key :: string
  ls_expire :: gotime

record memory_store =
  ms_data :: "(string \<times> string) list"
  ms_revs :: "string \<rightharpoonup> int"
  ms_watchers :: "string \<Rightarrow> nat list"
  ms_leases :: "(int \<times> lease_entry) list"
  ms_next :: int
  ms_rev :: int
  ms_calls :: "(nat \<times> state_event) list"

definition new_memory_store :: memory_store where
  "new_memory_store = \<lparr>ms_data = [], ms_revs = Map.empty, ms_watchers = (\<lambda>k. []), ms_leases = [], ms_next = 0,
     ms_rev = 0, ms_calls = []\<rparr>"

text \<open>Reading a missing key of a Go map gives the zero value.\<close>

definition ms_value :: "memory_store \<Rightarrow> string \<Rightarrow> string" where
  "ms_value st k = (case map_of (ms_data st) k of None \<Rightarrow> [] | Some v \<Rightarrow> v)"

definition notify_watchers :: "state_event \<Rightarrow> memory_store \<Rightarrow> memory_store" where
  "notify_watchers e st = st\<lparr>ms_calls := ms_calls st @ map (\<lambda>c. (c, e)) (ms_watchers st (se_key e))\<rparr>"

definition ms_write :: "string \<Rightarrow> string \<Rightarrow> memory_store \<Rightarrow> memory_store" where
  "ms_write k v st = st\<lparr>ms_data := AList.update k v (ms_data st), ms_rev := ms_rev st + 1, ms_revs := (ms_revs st)(k \<mapsto> ms_rev st + 1)\<rparr>"

definition ms_erase :: "string \<Rightarrow> memory_store \<Rightarrow> memory_store" where
  "ms_erase k st = st\<lparr>ms_data := AList.delete k (ms_data st), ms_revs := (ms_revs st)(k := None), ms_rev := ms_rev st + 1\<rparr>"

definition ms_put :: "gotime \<Rightarrow> memory_store \<Rightarrow> string \<Rightarrow> string \<Rightarrow> memory_store" where
  "ms_put now st k v =
     notify_watchers \<lparr>se_type = EventTypePut, se_key = k, se_value = v, se_old = ms_value st k, se_revision = ms_rev st + 1, se_time = now\<rparr>
       (ms_write k v st)"

definition ms_delete :: "gotime \<Rightarrow> memory_store \<Rightarrow> string \<Rightarrow> memory_store" where
  "ms_delete now st k =
     notify_watchers \<lparr>se_type = EventTypeDelete, se_key = k, se_value = [], se_old = ms_value st k, se_revision = ms_rev st + 1, se_time = now\<rparr>
       (ms_erase k st)"

definition ms_cas :: "gotime \<Rightarrow> memory_store \<Rightarrow> string \<Rightarrow> string \<Rightarrow> string \<Rightarrow> memory_store \<times> bool" where
  "ms_cas now st k old new =
     (if ms_value st k \<noteq> old then (st, False)
      else (notify_watchers \<lparr>se_type = EventTypePut, se_key = k, se_value = new, se_old = old, se_revision = ms_rev st + 1, se_time = now\<rparr>
              (ms_write k new st), True))"

definition ms_get_rev :: "memory_store \<Rightarrow> string \<Rightarrow> string \<times> int" where
  "ms_get_rev st k = (ms_value st k, case ms_revs st k of None \<Rightarrow> 0 | Some r \<Rightarrow> r)"

definition ms_put_lease :: "gotime \<Rightarrow> memory_store \<Rightarrow> string \<Rightarrow> string \<Rightarrow> duration \<Rightarrow> memory_store \<times> int" where
  "ms_put_lease now st k v ttl =
     (let st1 = ms_write k v st; n = ms_next st + 1
      in (st1\<lparr>ms_next := n, ms_leases := (n, \<lparr>ls_key = k, ls_expire = now + ttl\<rparr>) # ms_leases st1\<rparr>, n))"

definition ms_release :: "memory_store \<Rightarrow> int \<Rightarrow> memory_store" where
  "ms_release st n =
     (case map_of (ms_leases st) n of
        None \<Rightarrow> st
      | Some l \<Rightarrow> st\<lparr>ms_data := AList.delete (ls_key l) (ms_data st), ms_leases := filter (\<lambda>p. fst p \<noteq> n) (ms_leases st)\<rparr>)"

definition ms_watch :: "memory_store \<Rightarrow> string \<Rightarrow> nat \<Rightarrow> memory_store" where
  "ms_watch st k c = st\<lparr>ms_watchers := (ms_watchers st)(k := ms_watchers st k @ [c])\<rparr>"

definition ms_list :: "memory_store \<Rightarrow> string \<Rightarrow> (string \<times> string) list" where
  "ms_list st p = filter (\<lambda>(k, v). take (length p) k = p) (ms_data st)"

definition ms_compare_ok :: "memory_store \<Rightarrow> store_operation \<Rightarrow> bool" where
  "ms_compare_ok st op = (case op of OperationCompare k old \<Rightarrow> ms_value st k = old | _ \<Rightarrow> True)"

definition ms_apply_op :: "memory_store \<Rightarrow> store_operation \<Rightarrow> memory_store" where
  "ms_apply_op st op =
     (case op of OperationPut k v \<Rightarrow> ms_write k v st | OperationDelete k \<Rightarrow> ms_erase k st | OperationCompare k old \<Rightarrow> st)"

definition ms_transaction :: "memory_store \<Rightarrow> store_operation list \<Rightarrow> memory_store \<times> bool" where
  "ms_transaction st ops = (if \<not> list_all (ms_compare_ok st) ops then (st, False) else (foldl ms_apply_op st ops, True))"

text \<open>One tick of the goroutine that removes what has expired.\<close>

definition lease_cleanup :: "gotime \<Rightarrow> memory_store \<Rightarrow> memory_store" where
  "lease_cleanup now st =
     (let gone = map (ls_key \<circ> snd) (filter (\<lambda>p. now > ls_expire (snd p)) (ms_leases st))
      in st\<lparr>ms_data := filter (\<lambda>p. fst p \<notin> set gone) (ms_data st),
            ms_leases := filter (\<lambda>p. \<not> now > ls_expire (snd p)) (ms_leases st)\<rparr>)"

definition memory_ops :: "gotime \<Rightarrow> memory_store store_ops" where
  "memory_ops now = \<lparr>so_put = (\<lambda>st k v. (ms_put now st k v, True)), so_get = (\<lambda>st k. Some (ms_value st k)),
     so_delete = (\<lambda>st k. (ms_delete now st k, True)), so_cas = (\<lambda>st k a b. (let (st', ok) = ms_cas now st k a b in (st', Some ok))),
     so_get_rev = (\<lambda>st k. Some (ms_get_rev st k)),
     so_put_lease = (\<lambda>st k v ttl. (let (st', n) = ms_put_lease now st k v ttl in (st', Some n))),
     so_release = (\<lambda>st n. (ms_release st n, True)), so_list = (\<lambda>st p. Some (ms_list st p)),
     so_transaction = (\<lambda>st ops. (let (st', ok) = ms_transaction st ops in (st', Some ok))), so_watch = ms_watch\<rparr>"

subsection \<open>Values and sets (structures.go)\<close>

definition dv_get :: "'s store_ops \<Rightarrow> string \<Rightarrow> 's \<Rightarrow> string option" where
  "dv_get ops key s = so_get ops s key"

definition dv_set :: "'s store_ops \<Rightarrow> string \<Rightarrow> 's \<Rightarrow> string \<Rightarrow> 's \<times> bool" where
  "dv_set ops key s v = so_put ops s key v"

text \<open>The JSON codec is a parameter.\<close>

definition dv_get_json :: "(string \<Rightarrow> 'a option) \<Rightarrow> 's store_ops \<Rightarrow> string \<Rightarrow> 's \<Rightarrow> 'a option" where
  "dv_get_json decode ops key s = Option.bind (so_get ops s key) decode"

definition dv_set_json :: "('a \<Rightarrow> string option) \<Rightarrow> 's store_ops \<Rightarrow> string \<Rightarrow> 's \<Rightarrow> 'a \<Rightarrow> 's \<times> bool" where
  "dv_set_json encode ops key s v = (case encode v of None \<Rightarrow> (s, False) | Some data \<Rightarrow> so_put ops s key data)"

definition ds_key :: "string \<Rightarrow> string \<Rightarrow> string" where
  "ds_key pre m = pre @ ''/'' @ m"

definition ds_add :: "'s store_ops \<Rightarrow> string \<Rightarrow> 's \<Rightarrow> string \<Rightarrow> 's \<times> bool" where
  "ds_add ops pre s m = so_put ops s (ds_key pre m) ''1''"

definition ds_remove :: "'s store_ops \<Rightarrow> string \<Rightarrow> 's \<Rightarrow> string \<Rightarrow> 's \<times> bool" where
  "ds_remove ops pre s m = so_delete ops s (ds_key pre m)"

definition ds_contains :: "'s store_ops \<Rightarrow> string \<Rightarrow> 's \<Rightarrow> string \<Rightarrow> bool option" where
  "ds_contains ops pre s m = map_option (\<lambda>v. v = ''1'') (so_get ops s (ds_key pre m))"

text \<open>The members are the keys of the items, in any order.\<close>

definition ds_members :: "'s store_ops \<Rightarrow> string \<Rightarrow> 's \<Rightarrow> string list option" where
  "ds_members ops pre s = map_option (map fst) (so_list ops s pre)"

definition ds_size :: "'s store_ops \<Rightarrow> string \<Rightarrow> 's \<Rightarrow> nat option" where
  "ds_size ops pre s = map_option length (ds_members ops pre s)"

subsection \<open>Queues (structures.go)\<close>

text \<open>A handle counts its own items. Dequeue lists and deletes in two calls; the state in between is \<open>s1\<close>.\<close>

definition dq_enqueue :: "'s store_ops \<Rightarrow> string \<Rightarrow> int \<Rightarrow> 's \<Rightarrow> string \<Rightarrow> int \<times> 's \<times> bool" where
  "dq_enqueue ops pre index s v =
     (let i = index + 1; (s', ok) = so_put ops s (ds_key pre (print_int i)) v in (i, s', ok))"

definition min_key :: "(string \<times> string) list \<Rightarrow> string option" where
  "min_key items = (case map fst items of [] \<Rightarrow> None | k # ks \<Rightarrow> Some (foldl min k ks))"

definition dq_peek :: "'s store_ops \<Rightarrow> string \<Rightarrow> 's \<Rightarrow> (string \<times> string) option" where
  "dq_peek ops pre s =
     (case so_list ops s pre of
        None \<Rightarrow> None
      | Some items \<Rightarrow> (case min_key items of None \<Rightarrow> None | Some k \<Rightarrow> Some (k, the (map_of items k))))"

definition dq_dequeue :: "'s store_ops \<Rightarrow> string \<Rightarrow> 's \<Rightarrow> 's \<Rightarrow> 's \<times> string option" where
  "dq_dequeue ops pre s s1 =
     (case dq_peek ops pre s of
        None \<Rightarrow> (s1, None)
      | Some (k, v) \<Rightarrow> (let (s', ok) = so_delete ops s1 k in (s', if ok then Some v else None)))"

definition dq_size :: "'s store_ops \<Rightarrow> string \<Rightarrow> 's \<Rightarrow> nat option" where
  "dq_size ops pre s = map_option length (so_list ops s pre)"

subsection \<open>Counters (structures.go)\<close>

text \<open>
  \<open>Sscanf\<close> with the verb d: spaces, a sign, digits; a text without digits or out of range leaves zero.
\<close>

definition scan_decimal :: "string \<Rightarrow> int" where
  "scan_decimal s =
     (let t = dropWhile (\<lambda>c. ascii_space c \<and> c \<noteq> CHR 0x0A) s;
          neg = (t \<noteq> [] \<and> List.hd t = CHR ''-'');
          u = (if t \<noteq> [] \<and> (List.hd t = CHR ''-'' \<or> List.hd t = CHR ''+'') then tl t else t);
          v = digits_value (takeWhile ascii_digit u)
      in if v > (if neg then max_i64 + 1 else max_i64) then 0 else if neg then - v else v)"

definition counter_value :: "string \<Rightarrow> int" where
  "counter_value s = (if s \<noteq> [] then scan_decimal s else 0)"

text \<open>
  Increment and Decrement differ in \<open>d\<close>, 1 or -1. A handle runs one call at a time; its loop reads and
  swaps in two calls of the store, between which other handles run. \<open>n\<close> counts the failed tries.
\<close>

datatype counter_pc = CIdle | CRead int nat | CSwap int nat string

datatype counter_result = Counted int int | GaveUp

definition counter_step ::
  "'s store_ops \<Rightarrow> string \<Rightarrow> int \<Rightarrow> 's \<times> counter_pc \<Rightarrow> ('s \<times> counter_pc) \<times> counter_result option" where
  "counter_step ops key d = (\<lambda>(s, pc).
     case pc of
       CIdle \<Rightarrow> ((s, CRead d 0), None)
     | CRead e n \<Rightarrow> (case so_get ops s key of None \<Rightarrow> ((s, CIdle), Some GaveUp) | Some cur \<Rightarrow> ((s, CSwap e n cur), None))
     | CSwap e n cur \<Rightarrow>
         (let v = i64 (counter_value cur + e); (s', r) = so_cas ops s key cur (print_int v)
          in case r of
               None \<Rightarrow> ((s', CIdle), Some GaveUp)
             | Some True \<Rightarrow> ((s', CIdle), Some (Counted e v))
             | Some False \<Rightarrow> if Suc n < 10 then ((s', CRead e (Suc n)), None) else ((s', CIdle), Some GaveUp)))"

definition dc_get :: "'s store_ops \<Rightarrow> string \<Rightarrow> 's \<Rightarrow> int option" where
  "dc_get ops key s = map_option counter_value (so_get ops s key)"

text \<open>A run schedules handles at times; \<open>d\<close> is the direction of a call that starts. The log has the results in the order of their swaps.\<close>

definition counters_step ::
  "(gotime \<Rightarrow> 's store_ops) \<Rightarrow> string \<Rightarrow> 's \<times> (nat \<Rightarrow> counter_pc) \<times> (int \<times> int) list \<Rightarrow> gotime \<times> nat \<times> int \<Rightarrow>
   's \<times> (nat \<Rightarrow> counter_pc) \<times> (int \<times> int) list" where
  "counters_step ops key = (\<lambda>(s, pcs, log) (t, i, d).
     (let ((s', pc), r) = counter_step (ops t) key d (s, pcs i)
      in (s', pcs(i := pc), log @ (case r of Some (Counted e v) \<Rightarrow> [(e, v)] | _ \<Rightarrow> []))))"

subsection \<open>The manager (manager.go)\<close>

text \<open>It puts its prefix in front of every key. The deadline it sets on its calls is the caller's context.\<close>

definition dm_put :: "'s store_ops \<Rightarrow> string \<Rightarrow> 's \<Rightarrow> string \<Rightarrow> string \<Rightarrow> 's \<times> bool" where
  "dm_put ops pre s name v = so_put ops s (ds_key pre name) v"

definition dm_get :: "'s store_ops \<Rightarrow> string \<Rightarrow> 's \<Rightarrow> string \<Rightarrow> string option" where
  "dm_get ops pre s name = so_get ops s (ds_key pre name)"

definition dm_delete :: "'s store_ops \<Rightarrow> string \<Rightarrow> 's \<Rightarrow> string \<Rightarrow> 's \<times> bool" where
  "dm_delete ops pre s name = so_delete ops s (ds_key pre name)"

definition dm_update_if_unchanged :: "'s store_ops \<Rightarrow> string \<Rightarrow> 's \<Rightarrow> string \<Rightarrow> string \<Rightarrow> string \<Rightarrow> 's \<times> bool option" where
  "dm_update_if_unchanged ops pre s name old new = so_cas ops s (ds_key pre name) old new"

definition dm_get_with_version :: "'s store_ops \<Rightarrow> string \<Rightarrow> 's \<Rightarrow> string \<Rightarrow> (string \<times> int) option" where
  "dm_get_with_version ops pre s name = so_get_rev ops s (ds_key pre name)"

definition dm_register_with_ttl :: "'s store_ops \<Rightarrow> string \<Rightarrow> 's \<Rightarrow> string \<Rightarrow> string \<Rightarrow> duration \<Rightarrow> 's \<times> int option" where
  "dm_register_with_ttl ops pre s name v ttl = so_put_lease ops s (ds_key pre name) v ttl"

definition dm_deregister :: "'s store_ops \<Rightarrow> 's \<Rightarrow> int \<Rightarrow> 's \<times> bool" where
  "dm_deregister ops s n = so_release ops s n"

definition dm_watch :: "'s store_ops \<Rightarrow> string \<Rightarrow> 's \<Rightarrow> string \<Rightarrow> nat \<Rightarrow> 's" where
  "dm_watch ops pre s name c = so_watch ops s (ds_key pre name) c"

definition dm_list :: "'s store_ops \<Rightarrow> string \<Rightarrow> 's \<Rightarrow> (string \<times> string) list option" where
  "dm_list ops pre s = so_list ops s pre"

definition dm_op :: "string \<Rightarrow> store_operation \<Rightarrow> store_operation" where
  "dm_op pre op =
     (case op of OperationPut k v \<Rightarrow> OperationPut (ds_key pre k) v | OperationDelete k \<Rightarrow> OperationDelete (ds_key pre k)
      | OperationCompare k old \<Rightarrow> OperationCompare (ds_key pre k) old)"

text \<open>The keys are rewritten in the caller's slice: the second result is what it holds afterwards.\<close>

definition dm_execute :: "'s store_ops \<Rightarrow> string \<Rightarrow> 's \<Rightarrow> store_operation list \<Rightarrow> ('s \<times> bool option) \<times> store_operation list" where
  "dm_execute ops pre s xs = (let ys = map (dm_op pre) xs in (so_transaction ops s ys, ys))"

subsection \<open>Printed numbers are read back\<close>

lemma scan_print_int:
  assumes "\<bar>v\<bar> \<le> max_i64"
  shows "scan_decimal (print_int v) = v"
proof -
  define ds where "ds = print_nat (nat \<bar>v\<bar>)"
  have d: "\<forall>c \<in> set ds. ascii_digit c" "ds \<noteq> []" "digits_value ds = \<bar>v\<bar>"
    using print_nat_digits[of _ "nat \<bar>v\<bar>"] print_nat_props[of "nat \<bar>v\<bar>"] by (auto simp: ds_def)
  have tw: "takeWhile ascii_digit ds = ds" using d(1) by simp
  obtain c cs where ds: "ds = c # cs" using d(2) by (cases ds) auto
  have c: "c \<noteq> CHR ''-''" "c \<noteq> CHR ''+''" "\<not> ascii_space c" using d(1) ds not_digit digit_not_space by auto
  have m: "\<not> ascii_space CHR ''-''" by (simp add: ascii_space_def)
  show ?thesis
  proof (cases "v < 0")
    case True
    then have p: "print_int v = CHR ''-'' # ds" by (simp add: print_int_def ds_def)
    show ?thesis unfolding scan_decimal_def p Let_def using True d(3) assms m by (simp add: tw)
  next
    case False
    then have p: "print_int v = ds" by (simp add: print_int_def ds_def)
    show ?thesis unfolding scan_decimal_def p Let_def using False d(3) assms c tw by (simp add: ds)
  qed
qed

lemma counter_print: "\<bar>v\<bar> \<le> max_i64 \<Longrightarrow> counter_value (print_int v) = v"
proof -
  have "print_int v \<noteq> []" using print_nat_props[of "nat v"] by (simp add: print_int_def)
  then show "\<bar>v\<bar> \<le> max_i64 \<Longrightarrow> counter_value (print_int v) = v" by (simp add: counter_value_def scan_print_int)
qed

subsection \<open>The laws of a store\<close>

text \<open>
  What a client may rely on: \<open>val\<close> is what a key holds. A read gives it, a swap succeeds only where the
  key held the old text and then writes the new one, and a swap that fails or cannot tell changes nothing.
\<close>

locale cell_store =
  fixes ops :: "gotime \<Rightarrow> 's store_ops" and val :: "'s \<Rightarrow> string \<Rightarrow> string"
  assumes get_val: "so_get (ops t) s k = Some v \<Longrightarrow> v = val s k"
    and cas_ok: "so_cas (ops t) s k a b = (s', Some True) \<Longrightarrow> val s k = a \<and> val s' = (val s)(k := b)"
    and cas_keeps: "so_cas (ops t) s k a b = (s', r) \<Longrightarrow> r \<noteq> Some True \<Longrightarrow> val s' = val s"
begin

lemma counter_step_cases:
  assumes "counter_step (ops t) key d (s, pc) = ((s', pc'), r)"
  shows "(case r of Some (Counted e v) \<Rightarrow> v = i64 (counter_value (val s key) + e) \<and> val s' key = print_int v \<and> (\<exists>n c. pc = CSwap e n c)
          | _ \<Rightarrow> val s' key = val s key)"
    "pc' = CIdle \<or> pc' = CRead d 0 \<or> (\<exists>e n c. (pc = CRead e n \<or> pc = CSwap e n c) \<and> (pc' = CRead e (Suc n) \<or> (\<exists>c. pc' = CSwap e n c)))"
  using assms cas_ok cas_keeps
  by (fastforce simp: counter_step_def Let_def split: counter_pc.splits option.splits prod.splits bool.splits if_splits)+

text \<open>The calls in flight count by one, and the log so far adds up.\<close>

definition counting :: "string \<Rightarrow> int \<Rightarrow> nat \<Rightarrow> 's \<times> (nat \<Rightarrow> counter_pc) \<times> (int \<times> int) list \<Rightarrow> bool" where
  "counting key v0 m = (\<lambda>(s, pcs, log).
     (\<forall>i e n c. pcs i = CRead e n \<or> pcs i = CSwap e n c \<longrightarrow> \<bar>e\<bar> = 1) \<and>
     length log \<le> m \<and> list_all (\<lambda>(e, v). \<bar>e\<bar> = 1) log \<and>
     counter_value (val s key) = v0 + sum_list (map fst log) \<and>
     (\<forall>j < length log. snd (log ! j) = v0 + sum_list (map fst (take (Suc j) log))))"

lemma unit_sum: "list_all (\<lambda>(e, v). \<bar>e\<bar> = (1::int)) log \<Longrightarrow> \<bar>sum_list (map fst log)\<bar> \<le> int (length log)"
  by (induction log) auto

lemma counting_step:
  assumes "counting key v0 m (s, pcs, log)" "\<bar>d\<bar> = 1" "\<bar>v0\<bar> + int (Suc m) \<le> max_i64"
  shows "counting key v0 (Suc m) (counters_step ops key (s, pcs, log) (t, i, d))"
proof -
  obtain s' pc' r where st: "counter_step (ops t) key d (s, pcs i) = ((s', pc'), r)" by (metis prod.exhaust)
  note C = counter_step_cases[OF st]
  have inv: "\<And>i e n c. pcs i = CRead e n \<or> pcs i = CSwap e n c \<Longrightarrow> \<bar>e\<bar> = 1" "length log \<le> m" "list_all (\<lambda>(e, v). \<bar>e\<bar> = 1) log"
    "counter_value (val s key) = v0 + sum_list (map fst log)"
    "\<And>j. j < length log \<Longrightarrow> snd (log ! j) = v0 + sum_list (map fst (take (Suc j) log))"
    using assms(1) unfolding counting_def by auto
  have pcs: "\<bar>e\<bar> = 1" if n: "pc' = CRead e n \<or> pc' = CSwap e n c" for e n c
    using n C(2) inv(1) assms(2) by auto
  show ?thesis
  proof (cases "\<exists>e v. r = Some (Counted e v)")
    case True
    then obtain e v where r: "r = Some (Counted e v)" by blast
    then have v: "v = i64 (counter_value (val s key) + e)" "val s' key = print_int v" "\<bar>e\<bar> = 1" using C(1) inv(1) by auto
    have "\<bar>v0 + sum_list (map fst log) + e\<bar> \<le> max_i64" using unit_sum[OF inv(3)] inv(2) v(3) assms(3) by linarith
    then have ve: "v = v0 + sum_list (map fst log) + e" "\<bar>v\<bar> \<le> max_i64" using v(1) inv(4) by (simp_all add: i64_id)
    then have "counter_value (val s' key) = v" using v(2) counter_print by simp
    then show ?thesis
      using st r inv v(3) ve pcs unfolding counters_step_def counting_def
      by (auto simp: nth_append less_Suc_eq)
  next
    case False
    then have "val s' key = val s key" "(case r of Some (Counted e v) \<Rightarrow> [(e, v)] | _ \<Rightarrow> []) = []"
      using C(1) by (auto split: option.splits counter_result.splits)
    then show ?thesis using st inv pcs unfolding counters_step_def counting_def by auto
  qed
qed

lemma counters_linear:
  assumes "\<forall>(t, i, d) \<in> set evs. \<bar>d\<bar> = 1" "\<bar>counter_value (val s key)\<bar> + int (length evs) \<le> max_i64"
    "foldl (counters_step ops key) (s, \<lambda>i. CIdle, []) evs = (s', pcs, log)"
  shows "counter_value (val s' key) = counter_value (val s key) + sum_list (map fst log)"
    "j < length log \<Longrightarrow> snd (log ! j) = counter_value (val s key) + sum_list (map fst (take (Suc j) log))"
proof -
  have "counting key (counter_value (val s key)) (length evs) (foldl (counters_step ops key) (s, \<lambda>i. CIdle, []) evs)"
    using assms(1,2)
  proof (induction evs rule: rev_induct)
    case Nil then show ?case by (simp add: counting_def)
  next
    case (snoc x evs)
    obtain t i d where x: "x = (t, i, d)" using prod_cases3 by blast
    obtain s1 pcs1 log1 where m: "foldl (counters_step ops key) (s, \<lambda>i. CIdle, []) evs = (s1, pcs1, log1)" using prod_cases3 by blast
    have "counting key (counter_value (val s key)) (length evs) (s1, pcs1, log1)" using snoc m by auto
    from counting_step[OF this, of d t i] snoc.prems x m show ?case by simp
  qed
  then show "counter_value (val s' key) = counter_value (val s key) + sum_list (map fst log)"
    "j < length log \<Longrightarrow> snd (log ! j) = counter_value (val s key) + sum_list (map fst (take (Suc j) log))"
    unfolding assms(3) counting_def by auto
qed

end

text \<open>The store in memory keeps the laws.\<close>

lemma ms_value_simps [simp]:
  "ms_value (notify_watchers e st) = ms_value st"
  "ms_value (ms_write k v st) = (ms_value st)(k := v)"
  "ms_value (ms_erase k st) = (ms_value st)(k := [])"
  by (auto simp: ms_value_def notify_watchers_def ms_write_def ms_erase_def update_conv' delete_conv' fun_eq_iff)

interpretation mem: cell_store memory_ops ms_value
  by unfold_locales (auto simp: memory_ops_def ms_cas_def split: if_splits)

text \<open>C22. Counters are linearizable: whatever handles increment and decrement one counter of the store in
  memory, however their reads and swaps interleave, every successful call returns what the calls
  that took effect before it, and itself, add up to, and the counter holds what all of them add up
  to (as long as the calls cannot take it out of the range of an int64).\<close>

theorem counters_linearizable:
  assumes "\<forall>(t, i, d) \<in> set evs. \<bar>d\<bar> = 1" "\<bar>counter_value (ms_value s key)\<bar> + int (length evs) \<le> max_i64"
    "foldl (counters_step memory_ops key) (s, \<lambda>i. CIdle, []) evs = (s', pcs, log)"
  shows "counter_value (ms_value s' key) = counter_value (ms_value s key) + sum_list (map fst log) \<and>
    (\<forall>j < length log. snd (log ! j) = counter_value (ms_value s key) + sum_list (map fst (take (Suc j) log)))"
  using mem.counters_linear[OF assms] by blast

lemma counters_linearizable_witness:
  "\<exists>s' pcs log. foldl (counters_step memory_ops ''c'') (new_memory_store, \<lambda>i. CIdle, [])
      [(0, 0, 1), (1, 1, 1), (2, 0, 1), (3, 1, 1), (4, 0, 1), (5, 1, 1), (6, 1, 1), (7, 1, 1)] = (s', pcs, log) \<and>
    counter_value (ms_value s' ''c'') = sum_list (map fst log)"
proof -
  let ?evs = "[(0, 0, 1), (1, 1, 1), (2, 0, 1), (3, 1, 1), (4, 0, 1), (5, 1, 1), (6, 1, 1), (7, 1, 1)] :: (gotime \<times> nat \<times> int) list"
  obtain s' pcs log where f: "foldl (counters_step memory_ops ''c'') (new_memory_store, \<lambda>i. CIdle, []) ?evs = (s', pcs, log)"
    using prod_cases3 by blast
  have z: "counter_value (ms_value new_memory_store ''c'') = 0" by code_simp
  have "\<forall>(t, i, d) \<in> set ?evs. \<bar>d\<bar> = 1" by simp
  moreover have "\<bar>counter_value (ms_value new_memory_store ''c'')\<bar> + int (length ?evs) \<le> max_i64" unfolding z by simp
  ultimately have "counter_value (ms_value s' ''c'') = sum_list (map fst log)" using counters_linearizable[OF _ _ f] z by simp
  then show ?thesis using f by blast
qed

subsection \<open>Sets and queues\<close>

lemma mem_get [simp]: "so_get (memory_ops t) st k = Some (ms_value st k)"
  by (simp add: memory_ops_def)

lemma ds_key_inject: "ds_key p m = ds_key p m' \<longleftrightarrow> m = m'"
  by (simp add: ds_key_def)

text \<open>Membership is exact: what was added last, or not removed since, is contained.\<close>

lemma set_contains:
  "ds_contains (memory_ops t) p (fst (ds_add (memory_ops t) p st m)) m' = (if m' = m then Some True else ds_contains (memory_ops t) p st m')"
  "ds_contains (memory_ops t) p (fst (ds_remove (memory_ops t) p st m)) m' = (if m' = m then Some False else ds_contains (memory_ops t) p st m')"
  unfolding ds_contains_def mem_get ds_add_def ds_remove_def
  by (simp_all add: memory_ops_def ms_put_def ms_delete_def ds_key_inject)

text \<open>Keys are compared as texts, so the tenth item of a queue comes out before the second.\<close>

definition second_and_tenth :: memory_store where
  "second_and_tenth =
     (let (i, s1, ok) = dq_enqueue (memory_ops 0) ''q'' 1 new_memory_store ''b''; (j, s2, ok2) = dq_enqueue (memory_ops 0) ''q'' 9 s1 ''j'' in s2)"

lemma queue_not_fifo: "snd (dq_dequeue (memory_ops 0) ''q'' second_and_tenth second_and_tenth) = Some ''j''"
  by code_simp

text \<open>Two dequeues that overlap get the same item; each handle numbers its own items, so the first item of a second
  handle overwrites the first item of the first; and the items of a queue whose name continues another's are its items too.\<close>

lemma queue_overlap_duplicates:
  "snd (dq_dequeue (memory_ops 0) ''q'' second_and_tenth second_and_tenth) =
    snd (dq_dequeue (memory_ops 0) ''q'' second_and_tenth (fst (dq_dequeue (memory_ops 0) ''q'' second_and_tenth second_and_tenth)))"
  by code_simp

lemma queue_second_handle_overwrites:
  "let (i, s1, ok) = dq_enqueue (memory_ops 0) ''q'' 0 new_memory_store ''first'';
       (j, s2, ok2) = dq_enqueue (memory_ops 0) ''q'' 0 s1 ''second''
   in dq_size (memory_ops 0) ''q'' s2 = Some 1"
  by code_simp

lemma set_prefix_mixes:
  "let s1 = fst (ds_add (memory_ops 0) ''ab'' new_memory_store ''x'') in ds_size (memory_ops 0) ''a'' s1 = Some 1"
  by code_simp

end
