(* ===== verification/Dist_Lock.thy ===== *)
theory Dist_Lock
  imports State_Store
begin

section \<open>Locks and elections on the state store (internal/distributedstate/lock.go)\<close>

text \<open>
  A lock is a key that is swapped from empty to the name of its holder and then put under a lease;
  an election is a key that its leader keeps putting under new leases. Both are cut at every call
  of the store, so that handles interleave there. A handle runs one call at a time.
\<close>

subsection \<open>The lock\<close>

datatype lock_pc = LockIdle | LockLeasing

record lock_handle =
  lk_holder :: string
  lk_timeout :: duration
  lk_lease :: int
  lk_pc :: lock_pc

definition lock_key :: "string \<Rightarrow> string" where
  "lock_key name = ''lock/'' @ name"

text \<open>Acquire up to its first call, then the lease; an error of the lease deletes the key again.\<close>

definition acquire_swap :: "'s store_ops \<Rightarrow> string \<Rightarrow> 's \<times> lock_handle \<Rightarrow> ('s \<times> lock_handle) \<times> bool option" where
  "acquire_swap ops key = (\<lambda>(s, h).
     (case so_cas ops s key [] (lk_holder h) of
        (s', Some True) \<Rightarrow> ((s', h\<lparr>lk_pc := LockLeasing\<rparr>), None)
      | (s', r) \<Rightarrow> ((s', h), Some False)))"

definition acquire_lease :: "'s store_ops \<Rightarrow> string \<Rightarrow> 's \<times> lock_handle \<Rightarrow> ('s \<times> lock_handle) \<times> bool option" where
  "acquire_lease ops key = (\<lambda>(s, h).
     (case so_put_lease ops s key (lk_holder h) (lk_timeout h) of
        (s', Some n) \<Rightarrow> ((s', h\<lparr>lk_lease := n, lk_pc := LockIdle\<rparr>), Some True)
      | (s', None) \<Rightarrow> ((fst (so_delete ops s' key), h\<lparr>lk_pc := LockIdle\<rparr>), Some False)))"

definition release_lock :: "'s store_ops \<Rightarrow> 's \<times> lock_handle \<Rightarrow> ('s \<times> lock_handle) \<times> bool" where
  "release_lock ops = (\<lambda>(s, h).
     (if lk_lease h = 0 then ((s, h), False)
      else (let (s', ok) = so_release ops s (lk_lease h) in ((s', h\<lparr>lk_lease := 0\<rparr>), ok))))"

definition is_held :: "'s store_ops \<Rightarrow> string \<Rightarrow> 's \<Rightarrow> (bool \<times> string) option" where
  "is_held ops key s = map_option (\<lambda>v. if v = [] then (False, []) else (True, v)) (so_get ops s key)"

text \<open>One tick of WaitForRelease: an error, or whether it returns.\<close>

definition wait_tick :: "'s store_ops \<Rightarrow> string \<Rightarrow> 's \<Rightarrow> bool option" where
  "wait_tick ops key s = map_option (\<lambda>r. \<not> fst r) (is_held ops key s)"

text \<open>
  Handles of one lock on the store in memory, at times: a handle starts or continues Acquire, or
  releases; expired leases are removed; and others use the store under other keys.
\<close>

datatype lock_event = Acquire nat | Release nat | CleanUp | OtherPut string string | OtherLease string string duration

definition lock_step :: "string \<Rightarrow> memory_store \<times> (nat \<Rightarrow> lock_handle) \<Rightarrow> gotime \<times> lock_event \<Rightarrow> memory_store \<times> (nat \<Rightarrow> lock_handle)" where
  "lock_step key = (\<lambda>(st, hs) (now, ev).
     (case ev of
        Acquire i \<Rightarrow>
          (let ((st', h), r) = (if lk_pc (hs i) = LockIdle then acquire_swap (memory_ops now) key (st, hs i)
                                else acquire_lease (memory_ops now) key (st, hs i))
           in (st', hs(i := h)))
      | Release i \<Rightarrow>
          if lk_pc (hs i) = LockIdle then (let ((st', h), ok) = release_lock (memory_ops now) (st, hs i) in (st', hs(i := h))) else (st, hs)
      | CleanUp \<Rightarrow> (lease_cleanup now st, hs)
      | OtherPut k v \<Rightarrow> if k = key then (st, hs) else (ms_put now st k v, hs)
      | OtherLease k v ttl \<Rightarrow> if k = key then (st, hs) else (fst (ms_put_lease now st k v ttl), hs)))"

text \<open>A handle holds the lock while it is between the two calls of Acquire and while its lease is in the store.\<close>

definition holds_lock :: "memory_store \<Rightarrow> lock_handle \<Rightarrow> bool" where
  "holds_lock st h \<longleftrightarrow> lk_pc h = LockLeasing \<or> lk_lease h \<in> fst ` set (ms_leases st)"

subsection \<open>The lock is exclusive\<close>

definition lock_inv :: "string \<Rightarrow> memory_store \<times> (nat \<Rightarrow> lock_handle) \<Rightarrow> bool" where
  "lock_inv key = (\<lambda>(st, hs).
     0 \<le> ms_next st \<and> distinct (map fst (ms_leases st)) \<and>
     (\<forall>n l. (n, l) \<in> set (ms_leases st) \<longrightarrow> 0 < n \<and> n \<le> ms_next st \<and> (ls_key l = key \<longleftrightarrow> (\<exists>i. lk_lease (hs i) = n))) \<and>
     (\<forall>i. lk_lease (hs i) \<le> ms_next st \<and> lk_holder (hs i) \<noteq> []) \<and>
     (\<forall>i. lk_pc (hs i) = LockLeasing \<longrightarrow> lk_lease (hs i) \<notin> fst ` set (ms_leases st)) \<and>
     (\<forall>i. holds_lock st (hs i) \<longrightarrow> ms_value st key = lk_holder (hs i)) \<and>
     (ms_value st key \<noteq> [] \<longrightarrow> (\<exists>i. holds_lock st (hs i))) \<and>
     (\<forall>i j. holds_lock st (hs i) \<and> holds_lock st (hs j) \<longrightarrow> i = j))"

lemma ms_value_release:
  "distinct (map fst (ms_leases st)) \<Longrightarrow> (n, l) \<in> set (ms_leases st) \<Longrightarrow> ms_value (ms_release st n) = (ms_value st)(ls_key l := [])"
  by (auto simp: ms_release_def ms_value_def delete_conv' fun_eq_iff)

lemma ms_release_absent: "n \<notin> fst ` set (ms_leases st) \<Longrightarrow> ms_release st n = st"
  by (simp add: ms_release_def map_of_eq_None_iff[THEN iffD2])

lemma ms_value_cleanup:
  "ms_value (lease_cleanup now st) k =
    (if \<exists>n l. (n, l) \<in> set (ms_leases st) \<and> now > ls_expire l \<and> ls_key l = k then [] else ms_value st k)"
proof -
  define gone where "gone = map (ls_key \<circ> snd) (filter (\<lambda>p. now > ls_expire (snd p)) (ms_leases st))"
  have "map_of (filter (\<lambda>p. fst p \<notin> set gone) xs) k = (if k \<in> set gone then None else map_of xs k)" for xs :: "(string \<times> string) list"
    by (induction xs) auto
  moreover have "k \<in> set gone \<longleftrightarrow> (\<exists>n l. (n, l) \<in> set (ms_leases st) \<and> now > ls_expire l \<and> ls_key l = k)"
    by (force simp: gone_def)
  ultimately show ?thesis by (auto simp: lease_cleanup_def ms_value_def gone_def[symmetric] Let_def)
qed

lemma lock_invD:
  assumes "lock_inv key (st, hs)"
  shows "0 \<le> ms_next st" "distinct (map fst (ms_leases st))"
    "(n, l) \<in> set (ms_leases st) \<Longrightarrow> 0 < n \<and> n \<le> ms_next st \<and> (ls_key l = key \<longleftrightarrow> (\<exists>i. lk_lease (hs i) = n))"
    "lk_lease (hs i) \<le> ms_next st" "lk_holder (hs i) \<noteq> []"
    "lk_pc (hs i) = LockLeasing \<Longrightarrow> lk_lease (hs i) \<notin> fst ` set (ms_leases st)"
    "holds_lock st (hs i) \<Longrightarrow> ms_value st key = lk_holder (hs i)"
    "ms_value st key \<noteq> [] \<Longrightarrow> \<exists>i. holds_lock st (hs i)"
    "holds_lock st (hs i) \<Longrightarrow> holds_lock st (hs j) \<Longrightarrow> i = j"
  using assms unfolding lock_inv_def by auto

lemma ms_frame [simp]:
  "ms_leases (notify_watchers e st) = ms_leases st" "ms_next (notify_watchers e st) = ms_next st"
  "ms_leases (ms_write k v st) = ms_leases st" "ms_next (ms_write k v st) = ms_next st"
  "ms_leases (ms_put now st k v) = ms_leases st" "ms_next (ms_put now st k v) = ms_next st"
  "ms_value (ms_put now st k v) = (ms_value st)(k := v)"
  by (simp_all add: ms_put_def) (simp_all add: notify_watchers_def ms_write_def)

lemma holds_frame: "ms_leases st' = ms_leases st \<Longrightarrow> holds_lock st' h = holds_lock st h"
  by (simp add: holds_lock_def)

text \<open>A swap that succeeds finds the key empty, so no one holds the lock.\<close>

lemma acquire_swap_inv:
  assumes "lock_inv key (st, hs)" "lk_pc (hs i) = LockIdle" "acquire_swap (memory_ops now) key (st, hs i) = ((st', h), r)"
  shows "lock_inv key (st', hs(i := h))"
proof (cases "ms_value st key = []")
  case False
  then have "st' = st" "h = hs i" using assms(3) by (auto simp: acquire_swap_def memory_ops_def ms_cas_def)
  then show ?thesis using assms(1) by simp
next
  case True
  note D = lock_invD[OF assms(1)]
  have st: "ms_leases st' = ms_leases st" "ms_next st' = ms_next st" "ms_value st' = (ms_value st)(key := lk_holder (hs i))"
      "h = (hs i)\<lparr>lk_pc := LockLeasing\<rparr>"
    using assms(3) True by (auto simp: acquire_swap_def memory_ops_def ms_cas_def)
  have free: "\<not> holds_lock st (hs j)" for j using D(5,7)[of j] True by auto
  have lease: "lk_lease ((hs(i := h)) j) = lk_lease (hs j)" "lk_holder ((hs(i := h)) j) = lk_holder (hs j)" for j using st(4) by simp_all
  have holds: "holds_lock st' ((hs(i := h)) j) \<longleftrightarrow> j = i" for j
    using free[of j] st by (auto simp: holds_lock_def)
  have absent: "lk_lease (hs j) \<notin> fst ` set (ms_leases st)" for j using free[of j] by (simp add: holds_lock_def)
  show ?thesis
    unfolding lock_inv_def prod.case lease holds st(1,2,3) using D(1-5) absent st(4) by auto
qed

lemma acquire_lease_inv:
  assumes "lock_inv key (st, hs)" "lk_pc (hs i) = LockLeasing" "acquire_lease (memory_ops now) key (st, hs i) = ((st', h), r)"
  shows "lock_inv key (st', hs(i := h))"
proof -
  note D = lock_invD[OF assms(1)]
  define n where "n = ms_next st + 1"
  define l where "l = \<lparr>ls_key = key, ls_expire = now + lk_timeout (hs i)\<rparr>"
  have st: "ms_leases st' = (n, l) # ms_leases st" "ms_next st' = n" "ms_value st' = (ms_value st)(key := lk_holder (hs i))"
      "h = (hs i)\<lparr>lk_lease := n, lk_pc := LockIdle\<rparr>"
    using assms(3)
    by (auto simp: acquire_lease_def memory_ops_def ms_put_lease_def Let_def n_def l_def ms_value_def ms_write_def update_conv' fun_eq_iff)
  have me: "holds_lock st (hs i)" using assms(2) by (simp add: holds_lock_def)
  have n: "n \<noteq> lk_lease (hs j)" for j using D(4)[of j] by (simp add: n_def)
  have fresh: "n \<notin> fst ` set (ms_leases st)" using D(3) by (force simp: n_def)
  have only: "holds_lock st (hs j) \<longleftrightarrow> j = i" for j using D(9)[of j i] me by auto
  have absent: "lk_lease (hs j) \<notin> fst ` set (ms_leases st)" for j
    using only[of j] D(6)[OF assms(2)] by (cases "j = i") (auto simp: holds_lock_def)
  have other: "lk_pc (hs j) = LockIdle" if n: "j \<noteq> i" for j
    using only[of j] n by (cases "lk_pc (hs j)") (auto simp: holds_lock_def)
  have holds: "holds_lock st' ((hs(i := h)) j) \<longleftrightarrow> j = i" for j
    using absent[of j] other[of j] n[of j] st by (auto simp: holds_lock_def)
  have keys: "ls_key l' \<noteq> key" if m: "(m, l') \<in> set (ms_leases st)" for m l'
    using D(3)[OF m] absent m by (metis fst_conv image_eqI)
  have leases: "(m, l') \<in> set (ms_leases st) \<Longrightarrow> \<not> (\<exists>j. lk_lease ((hs(i := h)) j) = m)" for m l'
    using absent fresh st(4) by (auto simp: image_iff) (metis fst_conv)+
  show ?thesis
    unfolding lock_inv_def prod.case holds st(1,2,3)
  proof (intro conjI allI impI)
    fix m l' assume "(m, l') \<in> set ((n, l) # ms_leases st)"
    then consider "m = n" "l' = l" | "(m, l') \<in> set (ms_leases st)" by auto
    then show "0 < m" "m \<le> n" "(ls_key l' = key) = (\<exists>j. lk_lease ((hs(i := h)) j) = m)"
      using D(1) D(3)[of m l'] keys[of m l'] leases[of m l'] st(4) by (cases; auto simp: n_def l_def)+
  next
    fix j
    show "lk_lease ((hs(i := h)) j) \<le> n" "lk_holder ((hs(i := h)) j) \<noteq> []" using D(4,5)[of j] D(5)[of i] st(4) by (auto simp: n_def)
    show "lk_lease ((hs(i := h)) j) \<notin> fst ` set ((n, l) # ms_leases st)" if "lk_pc ((hs(i := h)) j) = LockLeasing"
      using that other[of j] st(4) by (auto split: if_splits)
  qed (use D(1,2,5) fresh st(4) in \<open>auto simp: n_def\<close>)
qed

text \<open>Removing leases (one, or all that expired) frees the lock when its lease is among them.\<close>

lemma remove_leases_inv:
  assumes "lock_inv key (st, hs)" "ms_next st' = ms_next st" "ms_leases st' = filter P (ms_leases st)"
    and v: "ms_value st' key = (if \<exists>n l. (n, l) \<in> set (ms_leases st) \<and> \<not> P (n, l) \<and> ls_key l = key then [] else ms_value st key)"
    and hs': "\<forall>j. lk_pc (hs' j) = lk_pc (hs j) \<and> lk_holder (hs' j) = lk_holder (hs j) \<and>
      (lk_lease (hs' j) = lk_lease (hs j) \<or> lk_lease (hs' j) = 0 \<and> lk_lease (hs j) \<notin> fst ` set (ms_leases st'))"
  shows "lock_inv key (st', hs')"
proof -
  note D = lock_invD[OF assms(1)]
  have sub: "(n, l) \<in> set (ms_leases st') \<Longrightarrow> (n, l) \<in> set (ms_leases st)" for n l using assms(3) by simp
  have zero: "0 \<notin> fst ` set (ms_leases st')" using D(3) sub by fastforce
  have same: "lk_lease (hs' j) \<in> fst ` set (ms_leases st') \<longleftrightarrow> lk_lease (hs j) \<in> fst ` set (ms_leases st')" for j
    using hs'[rule_format, of j] zero by metis
  have holds: "holds_lock st' (hs' j) \<Longrightarrow> holds_lock st (hs j)" for j
    using same[of j] hs'[rule_format, of j] sub by (auto simp: holds_lock_def)
  have taken: "(\<exists>j. lk_lease (hs' j) = n) \<longleftrightarrow> (\<exists>j. lk_lease (hs j) = n)" if n: "(n, l) \<in> set (ms_leases st')" for n l
    using hs' n zero by (metis fst_conv image_eqI)
  have kept: "holds_lock st' (hs' j)" if h: "holds_lock st (hs j)" and k: "ms_value st' key \<noteq> []" for j
  proof (cases "lk_pc (hs j) = LockLeasing")
    case True then show ?thesis using hs' by (simp add: holds_lock_def)
  next
    case False
    then obtain l where l: "(lk_lease (hs j), l) \<in> set (ms_leases st)" using h by (auto simp: holds_lock_def)
    then have "ls_key l = key" using D(3) by blast
    then have "P (lk_lease (hs j), l)" using v k l by (auto split: if_splits)
    then have "lk_lease (hs j) \<in> fst ` set (ms_leases st')" using l assms(3) by force
    then show ?thesis using same[of j] by (simp add: holds_lock_def)
  qed
  have gone: "\<not> holds_lock st' (hs' j)" if g: "(n, l) \<in> set (ms_leases st)" "\<not> P (n, l)" "ls_key l = key" for n l j
  proof
    assume a: "holds_lock st' (hs' j)"
    obtain i where i: "lk_lease (hs i) = n" using D(3)[OF g(1)] g(3) by blast
    then have "holds_lock st (hs i)" using g(1) by (force simp: holds_lock_def)
    then have "i = j" using D(9) holds[OF a] by blast
    moreover have "lk_pc (hs i) \<noteq> LockLeasing" using D(6)[of i] i g(1) by force
    ultimately have "n \<in> fst ` set (ms_leases st')" using a i same[of j] hs' by (simp add: holds_lock_def)
    then obtain l' where "(n, l') \<in> set (ms_leases st)" "P (n, l')" using assms(3) by auto
    then show False using eq_key_imp_eq_value[OF D(2) g(1)] g(2) by blast
  qed
  show ?thesis
    unfolding lock_inv_def prod.case
  proof (intro conjI allI impI)
    show "0 \<le> ms_next st'" "distinct (map fst (ms_leases st'))" using D(1,2) assms(2,3) by (simp_all add: distinct_map_filter)
  next
    fix n l assume a: "(n, l) \<in> set (ms_leases st')"
    show "0 < n" "n \<le> ms_next st'" "(ls_key l = key) = (\<exists>i. lk_lease (hs' i) = n)"
      using D(3)[OF sub[OF a]] taken[OF a] assms(2) by auto
  next
    fix i
    show "lk_lease (hs' i) \<le> ms_next st'" using hs'[rule_format, of i] D(1) D(4)[of i] assms(2) by auto
    show "lk_holder (hs' i) \<noteq> []" using hs' D(5) by simp
    show "lk_lease (hs' i) \<notin> fst ` set (ms_leases st')" if p: "lk_pc (hs' i) = LockLeasing"
    proof -
      have "lk_lease (hs i) \<notin> fst ` set (ms_leases st)" using p hs' D(6) by simp
      then show ?thesis using same[of i] assms(3) by auto
    qed
    show "ms_value st' key = lk_holder (hs' i)" if h: "holds_lock st' (hs' i)"
    proof -
      have "\<not> (\<exists>n l. (n, l) \<in> set (ms_leases st) \<and> \<not> P (n, l) \<and> ls_key l = key)" using gone h by blast
      then have "ms_value st' key = ms_value st key" using v by (simp only: if_False)
      then show ?thesis using D(7)[OF holds[OF h]] hs' by simp
    qed
  next
    assume k: "ms_value st' key \<noteq> []"
    then have "ms_value st key \<noteq> []" using v by (auto split: if_splits)
    then show "\<exists>i. holds_lock st' (hs' i)" using D(8) kept[OF _ k] by blast
  next
    fix i j assume "holds_lock st' (hs' i) \<and> holds_lock st' (hs' j)"
    then show "i = j" using holds D(9) by blast
  qed
qed

lemma release_inv:
  assumes "lock_inv key (st, hs)" "release_lock (memory_ops now) (st, hs i) = ((st', h), r)"
  shows "lock_inv key (st', hs(i := h))"
proof (cases "lk_lease (hs i) = 0")
  case True
  then have "st' = st" "h = hs i" using assms(2) by (auto simp: release_lock_def)
  then show ?thesis using assms(1) by simp
next
  case False
  note D = lock_invD[OF assms(1)]
  define n where "n = lk_lease (hs i)"
  have st: "st' = ms_release st n" "h = (hs i)\<lparr>lk_lease := 0\<rparr>" using assms(2) False by (auto simp: release_lock_def memory_ops_def n_def)
  show ?thesis
  proof (cases "n \<in> fst ` set (ms_leases st)")
    case True
    then obtain l where l: "(n, l) \<in> set (ms_leases st)" by auto
    have key: "ls_key l = key" using D(3)[OF l] n_def by blast
    have m: "map_of (ms_leases st) n = Some l" using l D(2) by simp
    have lf: "ms_leases st' = filter (\<lambda>p. fst p \<noteq> n) (ms_leases st)" "ms_next st' = ms_next st"
      using m st(1) by (simp_all add: ms_release_def)
    have "ms_value st' key = []" using ms_value_release[OF D(2) l] st(1) key by simp
    then show ?thesis
      by (intro remove_leases_inv[OF assms(1) lf(2,1)]) (use l key lf(1) st(2) n_def in \<open>auto split: if_splits\<close>)
  next
    case absent: False
    then have "st' = st" using st(1) ms_release_absent by simp
    then show ?thesis
      by (intro remove_leases_inv[OF assms(1), of _ "\<lambda>p. True"]) (use st(2) absent n_def in auto)
  qed
qed

lemma cleanup_inv:
  assumes "lock_inv key (st, hs)"
  shows "lock_inv key (lease_cleanup now st, hs)"
  by (intro remove_leases_inv[OF assms, of _ "\<lambda>p. \<not> now > ls_expire (snd p)"])
    (simp_all add: ms_value_cleanup, simp_all add: lease_cleanup_def Let_def)

text \<open>The use of other keys leaves the lock alone.\<close>

lemma other_inv:
  assumes "lock_inv key (st, hs)" "k \<noteq> key"
  shows "lock_inv key (ms_put now st k v, hs)" "lock_inv key (fst (ms_put_lease now st k v ttl), hs)"
proof -
  note D = lock_invD[OF assms(1)]
  have h: "holds_lock (ms_put now st k v) x = holds_lock st x" for x by (rule holds_frame) simp
  show "lock_inv key (ms_put now st k v, hs)"
    using assms unfolding lock_inv_def prod.case h by simp
  define st' where "st' = fst (ms_put_lease now st k v ttl)"
  define n where "n = ms_next st + 1"
  have st: "ms_leases st' = (n, \<lparr>ls_key = k, ls_expire = now + ttl\<rparr>) # ms_leases st" "ms_next st' = n" "ms_value st' key = ms_value st key"
    using assms(2) by (auto simp: st'_def ms_put_lease_def Let_def n_def ms_value_def ms_write_def update_conv')
  have n: "lk_lease (hs i) \<noteq> n" for i using D(4)[of i] by (simp add: n_def)
  have h: "holds_lock st' (hs i) = holds_lock st (hs i)" for i using n[of i] st(1) by (auto simp: holds_lock_def)
  have "n \<notin> fst ` set (ms_leases st)" using D(3) by (force simp: n_def)
  then show "lock_inv key (st', hs)"
    unfolding lock_inv_def prod.case h st
  proof (intro conjI allI impI)
    fix m l assume "(m, l) \<in> set ((n, \<lparr>ls_key = k, ls_expire = now + ttl\<rparr>) # ms_leases st)"
    then consider "m = n" "l = \<lparr>ls_key = k, ls_expire = now + ttl\<rparr>" | "(m, l) \<in> set (ms_leases st)" by auto
    then show "0 < m" "m \<le> n" "(ls_key l = key) = (\<exists>i. lk_lease (hs i) = m)"
      using D(1) D(3)[of m l] n assms(2) by (cases; auto simp: n_def)+
  next
    fix i
    show "lk_lease (hs i) \<le> n" using D(4)[of i] by (simp add: n_def)
    show "lk_lease (hs i) \<notin> fst ` set ((n, \<lparr>ls_key = k, ls_expire = now + ttl\<rparr>) # ms_leases st)" if "lk_pc (hs i) = LockLeasing"
      using that D(6) n[of i] by auto
  qed (use D in \<open>auto simp: n_def\<close>)
qed

lemma lock_step_inv: "lock_inv key x \<Longrightarrow> lock_inv key (lock_step key x e)"
proof -
  obtain st hs where x: "x = (st, hs)" by fastforce
  obtain now ev where e: "e = (now, ev)" by fastforce
  show "lock_inv key x \<Longrightarrow> lock_inv key (lock_step key x e)"
    unfolding x e lock_step_def prod.case
  proof (cases ev)
    case (Acquire i)
    assume inv: "lock_inv key (st, hs)"
    show "lock_inv key (case ev of Acquire i \<Rightarrow>
          let ((st', h), r) = if lk_pc (hs i) = LockIdle then acquire_swap (memory_ops now) key (st, hs i) else acquire_lease (memory_ops now) key (st, hs i)
          in (st', hs(i := h))
        | Release i \<Rightarrow> if lk_pc (hs i) = LockIdle then let ((st', h), ok) = release_lock (memory_ops now) (st, hs i) in (st', hs(i := h)) else (st, hs)
        | CleanUp \<Rightarrow> (lease_cleanup now st, hs) | OtherPut k v \<Rightarrow> if k = key then (st, hs) else (ms_put now st k v, hs)
        | OtherLease k v ttl \<Rightarrow> if k = key then (st, hs) else (fst (ms_put_lease now st k v ttl), hs))"
      using acquire_swap_inv[OF inv, of i now] acquire_lease_inv[OF inv, of i now] Acquire
      by (cases "lk_pc (hs i)") (auto split: prod.split)
  qed (use release_inv cleanup_inv other_inv in \<open>auto split: prod.split\<close>)
qed

definition fresh_handles :: "(nat \<Rightarrow> lock_handle) \<Rightarrow> bool" where
  "fresh_handles hs \<longleftrightarrow> (\<forall>i. lk_pc (hs i) = LockIdle \<and> lk_lease (hs i) = 0 \<and> lk_holder (hs i) \<noteq> [])"

lemma lock_run_inv: "fresh_handles hs \<Longrightarrow> lock_inv key (foldl (lock_step key) (new_memory_store, hs) evs)"
proof -
  have "lock_inv key x \<Longrightarrow> lock_inv key (foldl (lock_step key) x evs)" for x
    by (induction evs arbitrary: x) (simp_all add: lock_step_inv)
  moreover have "fresh_handles hs \<Longrightarrow> lock_inv key (new_memory_store, hs)"
    by (auto simp: lock_inv_def fresh_handles_def new_memory_store_def holds_lock_def ms_value_def)
  ultimately show "fresh_handles hs \<Longrightarrow> lock_inv key (foldl (lock_step key) (new_memory_store, hs) evs)" by blast
qed


text \<open>The lock lasts: a handle with a lease keeps it until it releases it or the lease expires.\<close>

lemma lease_stays:
  assumes "lock_inv key (st, hs)" "(lk_lease (hs i), l) \<in> set (ms_leases st)" "now \<le> ls_expire l" "ev \<noteq> Release i"
    "lock_step key (st, hs) (now, ev) = (st', hs')"
  shows "(lk_lease (hs' i), l) \<in> set (ms_leases st') \<and> lk_lease (hs' i) = lk_lease (hs i)"
proof -
  note D = lock_invD[OF assms(1)]
  have me: "holds_lock st (hs i)" using assms(2) by (force simp: holds_lock_def)
  have "lk_lease (hs i) \<in> fst ` set (ms_leases st)" using assms(2) by force
  then have idle: "lk_pc (hs i) = LockIdle" using D(6)[of i] by (cases "lk_pc (hs i)") simp_all
  have v: "ms_value st key \<noteq> []" using D(5,7) me by simp
  show ?thesis
  proof (cases ev)
    case (Acquire j)
    show ?thesis
    proof (cases "lk_pc (hs j) = LockIdle")
      case True
      then have "st' = st" "hs' = hs" using assms(5) Acquire v
        by (auto simp: lock_step_def acquire_swap_def memory_ops_def ms_cas_def)
      then show ?thesis using assms(2) by simp
    next
      case False
      then have "j \<noteq> i" using idle by auto
      then show ?thesis using assms(2,5) Acquire False
        by (auto simp: lock_step_def acquire_lease_def memory_ops_def ms_put_lease_def Let_def)
    qed
  next
    case (Release j)
    then have j: "j \<noteq> i" using assms(4) by simp
    have "lk_lease (hs j) \<noteq> lk_lease (hs i)"
    proof
      assume "lk_lease (hs j) = lk_lease (hs i)"
      then have "holds_lock st (hs j)" using assms(2) by (force simp: holds_lock_def)
      then show False using D(9) me j by blast
    qed
    then show ?thesis using assms(2,5) Release j
      by (auto simp: lock_step_def release_lock_def memory_ops_def ms_release_def split: option.splits if_splits)
  qed (use assms(2,3,5) in \<open>auto simp: lock_step_def lease_cleanup_def ms_put_lease_def Let_def split: if_splits\<close>)
qed

definition demo_handles :: "nat \<Rightarrow> lock_handle" where
  "demo_handles i = \<lparr>lk_holder = (if i = 0 then ''a'' else ''b''), lk_timeout = 10, lk_lease = 0, lk_pc = LockIdle\<rparr>"


subsection \<open>The election\<close>

text \<open>
  A round of tryElection: the read, then a put under a new lease, and where the key was empty a swap
  and, when that fails, the release of the lease. The callback is told of every change. An error
  ends the loop of Start.
\<close>

datatype election_pc = ElectIdle | ElectGot string | ElectPut int | ElectLost int | ElectStopped

record election_handle =
  el_node :: string
  el_ttl :: duration
  el_lease :: int
  el_leader :: bool
  el_told :: "bool list"
  el_pc :: election_pc

definition election_key :: "string \<Rightarrow> string" where
  "election_key k = ''election/'' @ k"

definition el_set_leader :: "bool \<Rightarrow> election_handle \<Rightarrow> election_handle" where
  "el_set_leader b h = (if el_leader h = b then h else h\<lparr>el_leader := b, el_told := el_told h @ [b]\<rparr>)"

definition el_step :: "'s store_ops \<Rightarrow> string \<Rightarrow> 's \<times> election_handle \<Rightarrow> 's \<times> election_handle" where
  "el_step ops key = (\<lambda>(s, h).
     (case el_pc h of
        ElectIdle \<Rightarrow> (case so_get ops s key of None \<Rightarrow> (s, h\<lparr>el_pc := ElectStopped\<rparr>) | Some cur \<Rightarrow> (s, h\<lparr>el_pc := ElectGot cur\<rparr>))
      | ElectGot cur \<Rightarrow>
          if cur = el_node h then
            (case so_put_lease ops s key (el_node h) (el_ttl h) of
               (s', None) \<Rightarrow> (s', h\<lparr>el_leader := False, el_told := el_told h @ [False], el_pc := ElectStopped\<rparr>)
             | (s', Some n) \<Rightarrow> (s', (el_set_leader True h)\<lparr>el_lease := n, el_pc := ElectIdle\<rparr>))
          else if cur = [] then
            (case so_put_lease ops s key (el_node h) (el_ttl h) of
               (s', None) \<Rightarrow> (s', h\<lparr>el_pc := ElectStopped\<rparr>)
             | (s', Some n) \<Rightarrow> (s', h\<lparr>el_pc := ElectPut n\<rparr>))
          else (s, (el_set_leader False h)\<lparr>el_pc := ElectIdle\<rparr>)
      | ElectPut n \<Rightarrow>
          (case so_cas ops s key [] (el_node h) of
             (s', Some True) \<Rightarrow> (s', (el_set_leader True h)\<lparr>el_lease := n, el_pc := ElectIdle\<rparr>)
           | (s', r) \<Rightarrow> (s', h\<lparr>el_pc := ElectLost n\<rparr>))
      | ElectLost n \<Rightarrow> (fst (so_release ops s n), (el_set_leader False h)\<lparr>el_pc := ElectIdle\<rparr>)
      | ElectStopped \<Rightarrow> (s, h)))"

definition el_get_leader :: "'s store_ops \<Rightarrow> string \<Rightarrow> 's \<Rightarrow> string option" where
  "el_get_leader ops key s = so_get ops s key"

text \<open>A whole round without another handle in between is at most four calls.\<close>

fun el_round :: "nat \<Rightarrow> 's store_ops \<Rightarrow> string \<Rightarrow> 's \<times> election_handle \<Rightarrow> 's \<times> election_handle" where
  "el_round 0 ops key x = x"
| "el_round (Suc n) ops key x =
     (let y = el_step ops key x in if el_pc (snd y) = ElectIdle \<or> el_pc (snd y) = ElectStopped then y else el_round n ops key y)"

definition try_election :: "'s store_ops \<Rightarrow> string \<Rightarrow> 's \<times> election_handle \<Rightarrow> 's \<times> election_handle" where
  "try_election ops key x = el_round 4 ops key x"

text \<open>On an empty key the put of the candidate's own name makes the swap from empty fail.\<close>

lemma try_election_empty:
  assumes "ms_value st key = []" "el_pc h = ElectIdle" "el_leader h = False" "el_node h \<noteq> []"
    "(st', h') = try_election (memory_ops now) key (st, h)"
  shows "ms_value st' key = [] \<and> el_pc h' = ElectIdle \<and> el_leader h' = False \<and> el_node h' = el_node h"
proof -
  define st1 n where "st1 = fst (ms_put_lease now st key (el_node h) (el_ttl h))" and "n = snd (ms_put_lease now st key (el_node h) (el_ttl h))"
  have p: "ms_value st1 key = el_node h" "map_of (ms_leases st1) n = Some \<lparr>ls_key = key, ls_expire = now + el_ttl h\<rparr>"
    by (simp_all add: st1_def n_def ms_put_lease_def Let_def ms_value_def ms_write_def update_conv')
  have s1: "el_step (memory_ops now) key (st, h) = (st, h\<lparr>el_pc := ElectGot []\<rparr>)"
    using assms(1,2) by (simp add: el_step_def)
  have s2: "el_step (memory_ops now) key (st, h\<lparr>el_pc := ElectGot []\<rparr>) = (st1, h\<lparr>el_pc := ElectPut n\<rparr>)"
    using assms(4) by (simp add: el_step_def memory_ops_def st1_def n_def Let_def split: prod.split)
  have s3: "el_step (memory_ops now) key (st1, h\<lparr>el_pc := ElectPut n\<rparr>) = (st1, h\<lparr>el_pc := ElectLost n\<rparr>)"
    using assms(4) p(1) by (simp add: el_step_def memory_ops_def ms_cas_def)
  have s4: "el_step (memory_ops now) key (st1, h\<lparr>el_pc := ElectLost n\<rparr>) = (ms_release st1 n, h\<lparr>el_pc := ElectIdle\<rparr>)"
    using assms(3) by (simp add: el_step_def memory_ops_def el_set_leader_def)
  have "try_election (memory_ops now) key (st, h) = (ms_release st1 n, h\<lparr>el_pc := ElectIdle\<rparr>)"
    unfolding try_election_def by (simp add: numeral_eq_Suc s1 s2 s3 s4 Let_def)
  moreover have "ms_value (ms_release st1 n) key = []" using p(2) by (simp add: ms_release_def ms_value_def delete_conv')
  ultimately show ?thesis using assms(3,5) by simp
qed

text \<open>Rounds of candidates one after the other, and removals of expired leases in between.\<close>

definition election_step ::
  "string \<Rightarrow> memory_store \<times> (nat \<Rightarrow> election_handle) \<Rightarrow> gotime \<times> nat option \<Rightarrow> memory_store \<times> (nat \<Rightarrow> election_handle)" where
  "election_step key = (\<lambda>(st, hs) (now, ev).
     (case ev of
        None \<Rightarrow> (lease_cleanup now st, hs)
      | Some i \<Rightarrow> (let (st', h) = try_election (memory_ops now) key (st, hs i) in (st', hs(i := h)))))"

text \<open>Without a race nobody is ever elected: as long as the rounds of the candidates do not overlap (as with
  a single candidate), no candidate is ever leader and the key is empty after every round, however
  many rounds are run and whenever leases expire in between.\<close>

theorem sequential_rounds_elect_nobody:
  assumes "ms_value st key = []" "\<forall>i. el_pc (hs i) = ElectIdle \<and> el_leader (hs i) = False \<and> el_node (hs i) \<noteq> []"
    "foldl (election_step key) (st, hs) evs = (st', hs')"
  shows "ms_value st' key = [] \<and> \<not> el_leader (hs' i)"
proof -
  define good where "good = (\<lambda>(st, hs :: nat \<Rightarrow> election_handle). ms_value st key = [] \<and>
    (\<forall>i. el_pc (hs i) = ElectIdle \<and> el_leader (hs i) = False \<and> el_node (hs i) \<noteq> []))"
  have step: "good (election_step key (st, hs) (now, ev))" if g: "good (st, hs)" for st hs now ev
  proof (cases ev)
    case None then show ?thesis using g by (simp add: good_def election_step_def ms_value_cleanup)
  next
    case (Some i)
    obtain st' h' where t: "(st', h') = try_election (memory_ops now) key (st, hs i)" by (metis prod.exhaust)
    then show ?thesis
      using try_election_empty[OF _ _ _ _ t] g Some by (auto simp: good_def election_step_def t[symmetric])
  qed
  have "good (foldl (election_step key) x evs)" if g: "good x" for x
    using g
  proof (induction evs arbitrary: x)
    case (Cons e evs)
    have "good (election_step key x e)" using step[of "fst x" "snd x" "fst e" "snd e"] Cons.prems by simp
    then show ?case using Cons.IH by simp
  qed simp
  from this[of "(st, hs)"] show ?thesis using assms by (simp add: good_def)
qed

definition demo_candidates :: "nat \<Rightarrow> election_handle" where
  "demo_candidates i = \<lparr>el_node = [char_of (97 + i)], el_ttl = 10, el_lease = 0, el_leader = False, el_told = [], el_pc = ElectIdle\<rparr>"

lemma sequential_rounds_elect_nobody_witness:
  "\<exists>st' hs'. foldl (election_step ''election/x'') (new_memory_store, demo_candidates) [(1, Some 0), (6, Some 0), (7, None), (9, Some 1)] = (st', hs') \<and>
    \<not> el_leader (hs' 0)"
proof -
  have v: "ms_value new_memory_store ''election/x'' = []" by (simp add: ms_value_def new_memory_store_def)
  have c: "\<forall>i. el_pc (demo_candidates i) = ElectIdle \<and> el_leader (demo_candidates i) = False \<and> el_node (demo_candidates i) \<noteq> []"
    by (simp add: demo_candidates_def)
  show ?thesis using sequential_rounds_elect_nobody[OF v c] by (metis prod.exhaust)
qed

text \<open>In a race two candidates can be leaders at once: four have read the empty key, and each of two wins
  because the release of another, which deletes the key, falls between its put and its swap.\<close>

definition election_race :: "memory_store \<times> (nat \<Rightarrow> election_handle)" where
  "election_race = foldl (\<lambda>(st, hs) i. let (st', h) = el_step (memory_ops 1) ''election/x'' (st, hs i) in (st', hs(i := h)))
     (new_memory_store, demo_candidates) [0, 1, 2, 3, 1, 1, 0, 1, 0, 2, 2, 3, 2, 3]"

lemma race_elects_two: "el_leader (snd election_race 0) \<and> el_leader (snd election_race 3)"
  by code_simp

text \<open>A leader that renews gets a second lease; when the first expires, its key is deleted all the same.\<close>

lemma first_lease_ends_renewed_key:
  assumes "ms_put_lease t1 st key v ttl = (st1, n)" "ms_put_lease t2 st1 key v ttl = (st2, m)" "t1 + ttl < now" "now \<le> t2 + ttl"
  shows "ms_value (lease_cleanup now st2) key = []" "m \<in> fst ` set (ms_leases (lease_cleanup now st2))"
proof -
  have l: "(n, \<lparr>ls_key = key, ls_expire = t1 + ttl\<rparr>) \<in> set (ms_leases st2)" "(m, \<lparr>ls_key = key, ls_expire = t2 + ttl\<rparr>) \<in> set (ms_leases st2)"
    using assms(1,2) by (auto simp: ms_put_lease_def Let_def)
  show "ms_value (lease_cleanup now st2) key = []" unfolding ms_value_cleanup using l(1) assms(3) by force
  show "m \<in> fst ` set (ms_leases (lease_cleanup now st2))" using l(2) assms(4) by (force simp: lease_cleanup_def Let_def)
qed

end
