(* ===== verification/Cluster_Health.thy ===== *)
theory Cluster_Health
  imports Prelude "HOL-Library.AList"
begin

section \<open>Autopilot and heartbeats (internal/autopilot, internal/heartbeat)\<close>

text \<open>
  The decisions of autopilot on the members of a cluster (autopilot.go), and the tracker of deadlines
  that reports who is silent (tracker.go). Indices of the log are natural numbers, since the code
  subtracts only the smaller from the larger.
\<close>

subsection \<open>Autopilot\<close>

datatype server_role = RoleVoter | RoleNonVoter | RoleLearner

record server =
  sv_id :: string
  sv_address :: string
  sv_role :: server_role
  sv_last_contact :: duration
  sv_last_index :: nat
  sv_healthy :: bool

record pilot_config =
  pc_max_trailing :: nat
  pc_contact_threshold :: duration
  pc_cleanup :: bool
  pc_min_quorum :: int

datatype pilot_action = ActionNone | ActionPromote | ActionRemove

record pilot_decision =
  pd_server :: server
  pd_action :: pilot_action
  pd_reason :: string

definition new_autopilot :: "pilot_config \<Rightarrow> pilot_config" where
  "new_autopilot cfg = cfg\<lparr>
     pc_contact_threshold := (if pc_contact_threshold cfg = 0 then 200000000 else pc_contact_threshold cfg),
     pc_max_trailing := (if pc_max_trailing cfg = 0 then 250 else pc_max_trailing cfg),
     pc_min_quorum := (if pc_min_quorum cfg = 0 then 3 else pc_min_quorum cfg)\<rparr>"

definition is_voter :: "server \<Rightarrow> bool" where
  "is_voter p \<longleftrightarrow> sv_role p = RoleVoter"

definition caught_up :: "pilot_config \<Rightarrow> nat \<Rightarrow> server \<Rightarrow> bool" where
  "caught_up cfg leader p \<longleftrightarrow> sv_role p = RoleNonVoter \<and> sv_healthy p \<and> sv_last_contact p \<le> pc_contact_threshold cfg \<and>
     (if leader > sv_last_index p then leader - sv_last_index p else 0) \<le> pc_max_trailing cfg"

fun decide_each :: "pilot_config \<Rightarrow> nat \<Rightarrow> int \<Rightarrow> server list \<Rightarrow> pilot_decision list" where
  "decide_each cfg leader voters [] = []"
| "decide_each cfg leader voters (p # ps) =
     (if caught_up cfg leader p then
        \<lparr>pd_server = p, pd_action = ActionPromote, pd_reason = ''non-voter caught up to within trailing/contact thresholds''\<rparr>
          # decide_each cfg leader voters ps
      else if pc_cleanup cfg \<and> \<not> sv_healthy p then
        if is_voter p \<and> voters - 1 < pc_min_quorum cfg then
          \<lparr>pd_server = p, pd_action = ActionNone, pd_reason = ''dead server retained to preserve quorum''\<rparr> # decide_each cfg leader voters ps
        else
          \<lparr>pd_server = p, pd_action = ActionRemove, pd_reason = ''dead server cleanup''\<rparr>
            # decide_each cfg leader (if is_voter p then voters - 1 else voters) ps
      else \<lparr>pd_server = p, pd_action = ActionNone, pd_reason = []\<rparr> # decide_each cfg leader voters ps)"

definition evaluate_cluster :: "pilot_config \<Rightarrow> server list \<Rightarrow> nat \<Rightarrow> pilot_decision list" where
  "evaluate_cluster cfg peers leader =
     decide_each cfg leader (int (length (filter (\<lambda>p. is_voter p \<and> sv_healthy p) peers))) peers"

text \<open>The dead voters it removes, and the voters left when its decisions are carried out.\<close>

definition removed_voters :: "pilot_decision list \<Rightarrow> server list" where
  "removed_voters ds = map pd_server (filter (\<lambda>d. pd_action d = ActionRemove \<and> is_voter (pd_server d)) ds)"

definition voters_after :: "pilot_decision list \<Rightarrow> nat" where
  "voters_after ds = length (filter (\<lambda>d. is_voter (pd_server d) \<and> pd_action d \<noteq> ActionRemove \<or> pd_action d = ActionPromote) ds)"

lemma removed_voters_Cons:
  "removed_voters (d # ds) = (if pd_action d = ActionRemove \<and> is_voter (pd_server d) then [pd_server d] else []) @ removed_voters ds"
  by (simp add: removed_voters_def)

lemma decide_each_removed:
  "int (length (removed_voters (decide_each cfg leader v ps))) =
    (if pc_cleanup cfg then min (int (length (filter (\<lambda>p. is_voter p \<and> \<not> sv_healthy p) ps))) (max 0 (v - pc_min_quorum cfg)) else 0)"
proof (induction ps arbitrary: v)
  case (Cons p ps)
  consider "pc_cleanup cfg" "\<not> sv_healthy p" "is_voter p" "v - 1 < pc_min_quorum cfg"
    | "pc_cleanup cfg" "\<not> sv_healthy p" "is_voter p" "\<not> v - 1 < pc_min_quorum cfg"
    | "\<not> (pc_cleanup cfg \<and> \<not> sv_healthy p \<and> is_voter p)" by blast
  then show ?case
  proof cases
    case 1
    then have "\<not> caught_up cfg leader p" by (simp add: caught_up_def)
    then show ?thesis using 1 Cons[of v] by (simp add: removed_voters_Cons)
  next
    case 2
    then have "\<not> caught_up cfg leader p" by (simp add: caught_up_def)
    then show ?thesis using 2 Cons[of "v - 1"] by (simp add: removed_voters_Cons)
  next
    case 3
    then have "removed_voters (decide_each cfg leader v (p # ps)) = removed_voters (decide_each cfg leader v ps)"
      by (auto simp: removed_voters_Cons)
    then show ?thesis using 3 Cons[of v] by auto
  qed
qed (simp add: removed_voters_def)

lemma decide_each_servers: "map pd_server (decide_each cfg leader v ps) = ps"
  by (induction cfg leader v ps rule: decide_each.induct) auto

lemma decide_each_action:
  "d \<in> set (decide_each cfg leader v ps) \<Longrightarrow>
    (pd_action d = ActionRemove \<longrightarrow> pc_cleanup cfg \<and> \<not> sv_healthy (pd_server d)) \<and>
    (pd_action d = ActionPromote \<longleftrightarrow> caught_up cfg leader (pd_server d))"
  by (induction cfg leader v ps rule: decide_each.induct) (auto split: if_splits)

definition healthy_voters :: "server list \<Rightarrow> nat" where
  "healthy_voters ps = length (filter (\<lambda>p. is_voter p \<and> sv_healthy p) ps)"

definition dead_voters :: "server list \<Rightarrow> nat" where
  "dead_voters ps = length (filter (\<lambda>p. is_voter p \<and> \<not> sv_healthy p) ps)"

text \<open>Autopilot decides on every member, promotes exactly the healthy non-voters that have caught up, removes
  only members that are not healthy, and of the dead voters it removes as many as there are healthy
  voters above the minimum: so with no more healthy voters than the minimum none is removed, and
  the voters never fall below the minimum by its removals.\<close>

theorem autopilot_exact:
  "map pd_server (evaluate_cluster cfg peers leader) = peers \<and>
    (\<forall>d \<in> set (evaluate_cluster cfg peers leader). (pd_action d = ActionRemove \<longrightarrow> \<not> sv_healthy (pd_server d)) \<and>
                    (pd_action d = ActionPromote \<longleftrightarrow> caught_up cfg leader (pd_server d))) \<and>
    int (length (removed_voters (evaluate_cluster cfg peers leader))) =
      (if pc_cleanup cfg then min (int (dead_voters peers)) (max 0 (int (healthy_voters peers) - pc_min_quorum cfg)) else 0) \<and>
    min (int (healthy_voters peers + dead_voters peers)) (pc_min_quorum cfg) \<le> int (voters_after (evaluate_cluster cfg peers leader))"
proof -
  define ds where "ds = evaluate_cluster cfg peers leader"
  have a: "map pd_server ds = peers" by (simp add: ds_def evaluate_cluster_def decide_each_servers)
  have b: "int (length (removed_voters ds)) = (if pc_cleanup cfg then min (int (dead_voters peers)) (max 0 (int (healthy_voters peers) - pc_min_quorum cfg)) else 0)"
    by (simp add: ds_def evaluate_cluster_def decide_each_removed healthy_voters_def dead_voters_def)
  have c: "\<forall>d \<in> set ds. (pd_action d = ActionRemove \<longrightarrow> \<not> sv_healthy (pd_server d)) \<and>
      (pd_action d = ActionPromote \<longleftrightarrow> caught_up cfg leader (pd_server d))"
    using decide_each_action by (fastforce simp: ds_def evaluate_cluster_def)
  have "length (filter is_voter (map pd_server es)) \<le> length (removed_voters es) + voters_after es" for es
    by (induction es) (auto simp: removed_voters_def voters_after_def)
  moreover have "length (filter is_voter xs) = healthy_voters xs + dead_voters xs" for xs
    by (induction xs) (auto simp: healthy_voters_def dead_voters_def)
  ultimately have "healthy_voters peers + dead_voters peers \<le> length (removed_voters ds) + voters_after ds"
    using a by metis
  then show ?thesis using a b c unfolding ds_def[symmetric] by (auto simp: min_def max_def split: if_splits)
qed

definition demo_server :: "string \<Rightarrow> bool \<Rightarrow> server" where
  "demo_server i h = \<lparr>sv_id = i, sv_address = i, sv_role = RoleVoter, sv_last_contact = 0, sv_last_index = 9, sv_healthy = h\<rparr>"

lemma autopilot_exact_witness:
  "length (removed_voters (evaluate_cluster \<lparr>pc_max_trailing = 250, pc_contact_threshold = 200, pc_cleanup = True, pc_min_quorum = 3\<rparr>
    [demo_server ''a'' True, demo_server ''b'' True, demo_server ''c'' False, demo_server ''d'' True, demo_server ''e'' True, demo_server ''f'' False] 9)) = 1"
  using autopilot_exact[of "\<lparr>pc_max_trailing = 250, pc_contact_threshold = 200, pc_cleanup = True, pc_min_quorum = 3\<rparr>"
    "[demo_server ''a'' True, demo_server ''b'' True, demo_server ''c'' False, demo_server ''d'' True, demo_server ''e'' True, demo_server ''f'' False]" 9]
  by (simp add: dead_voters_def healthy_voters_def demo_server_def is_voter_def)

text \<open>With three healthy voters of five and the default minimum, the two dead ones stay for good.\<close>

lemma dead_voters_stay:
  assumes "length (filter (\<lambda>p. is_voter p \<and> sv_healthy p) peers) \<le> 3" "pc_min_quorum cfg = 0"
  shows "removed_voters (evaluate_cluster (new_autopilot cfg) peers leader) = []"
proof -
  have "int (length (removed_voters (evaluate_cluster (new_autopilot cfg) peers leader))) \<le> 0"
    using assms by (simp add: evaluate_cluster_def decide_each_removed new_autopilot_def max_def min_def)
  then show ?thesis by simp
qed

subsection \<open>Heartbeats\<close>

text \<open>
  The deadlines are listed in the order in which a pass of the reaper meets them. The reports are the
  calls of OnExpire, with the time of the pass; whether there is a callback is \<open>tk_callback\<close>.
\<close>

record tracker =
  tk_deadlines :: "(string \<times> gotime) list"
  tk_expired :: "string list"
  tk_callback :: bool
  tk_started :: bool
  tk_closed :: bool
  tk_running :: bool
  tk_reports :: "(gotime \<times> string) list"

definition new_tracker :: "bool \<Rightarrow> tracker" where
  "new_tracker cb = \<lparr>tk_deadlines = [], tk_expired = [], tk_callback = cb, tk_started = False, tk_closed = False,
     tk_running = False, tk_reports = []\<rparr>"

definition tk_start :: "tracker \<Rightarrow> (unit, tracker) outcome" where
  "tk_start t = (if tk_started t then Panic else Ok (t\<lparr>tk_started := True, tk_running := True\<rparr>))"

definition tk_interval :: "duration \<Rightarrow> duration" where
  "tk_interval i = (if i \<le> 0 then 1000000000 else i)"

definition tk_stop :: "tracker \<Rightarrow> tracker" where
  "tk_stop t = (if \<not> tk_started t then t\<lparr>tk_started := True\<rparr> else t\<lparr>tk_closed := True\<rparr>)"

definition tk_set :: "gotime \<Rightarrow> string \<Rightarrow> duration \<Rightarrow> tracker \<Rightarrow> tracker" where
  "tk_set now n ttl t = t\<lparr>tk_deadlines := AList.update n (now + ttl) (tk_deadlines t)\<rparr>"

definition tk_delete :: "string \<Rightarrow> tracker \<Rightarrow> tracker" where
  "tk_delete n t = t\<lparr>tk_deadlines := AList.delete n (tk_deadlines t)\<rparr>"

definition tk_is_alive :: "gotime \<Rightarrow> string \<Rightarrow> tracker \<Rightarrow> bool" where
  "tk_is_alive now n t = (case map_of (tk_deadlines t) n of None \<Rightarrow> False | Some dl \<Rightarrow> now < dl)"

definition tk_take_expired :: "tracker \<Rightarrow> tracker \<times> string list" where
  "tk_take_expired t = (t\<lparr>tk_expired := []\<rparr>, tk_expired t)"

definition tk_reap :: "gotime \<Rightarrow> tracker \<Rightarrow> tracker" where
  "tk_reap now t =
     (let gone = map fst (filter (\<lambda>(n, dl). now > dl) (tk_deadlines t))
      in t\<lparr>tk_deadlines := filter (\<lambda>(n, dl). \<not> now > dl) (tk_deadlines t), tk_expired := tk_expired t @ gone,
           tk_reports := tk_reports t @ (if tk_callback t then map (\<lambda>n. (now, n)) gone else [])\<rparr>)"

text \<open>The loop: at a tick it reaps, unless it has seen the stop channel closed.\<close>

definition tk_tick :: "gotime \<Rightarrow> tracker \<Rightarrow> tracker" where
  "tk_tick now t = (if tk_closed t then t\<lparr>tk_running := False\<rparr> else if tk_running t then tk_reap now t else t)"

datatype beat_event = Beat gotime string duration | Forget string | Tick gotime | TakeExpired

definition beat_step :: "tracker \<Rightarrow> beat_event \<Rightarrow> tracker" where
  "beat_step t e =
     (case e of Beat now n ttl \<Rightarrow> tk_set now n ttl t | Forget n \<Rightarrow> tk_delete n t | Tick now \<Rightarrow> tk_tick now t
      | TakeExpired \<Rightarrow> fst (tk_take_expired t))"

text \<open>What one entity alone would be reported at, given its deadline.\<close>

fun silent_at :: "string \<Rightarrow> gotime option \<Rightarrow> beat_event list \<Rightarrow> gotime list" where
  "silent_at n d [] = []"
| "silent_at n d (e # es) =
     (case e of
        Beat now i ttl \<Rightarrow> silent_at n (if i = n then Some (now + ttl) else d) es
      | Forget i \<Rightarrow> silent_at n (if i = n then None else d) es
      | Tick now \<Rightarrow> (case d of Some dl \<Rightarrow> if now > dl then now # silent_at n None es else silent_at n d es | None \<Rightarrow> silent_at n d es)
      | TakeExpired \<Rightarrow> silent_at n d es)"

abbreviation reports_of :: "string \<Rightarrow> tracker \<Rightarrow> gotime list" where
  "reports_of n t \<equiv> map fst (filter (\<lambda>(now, i). i = n) (tk_reports t))"

lemma reap_one:
  fixes xs :: "(string \<times> gotime) list"
  assumes "distinct (map fst xs)"
  shows "filter (\<lambda>i. i = n) (map fst (filter (\<lambda>(i, dl). now > dl) xs)) =
      (case map_of xs n of Some dl \<Rightarrow> if now > dl then [n] else [] | None \<Rightarrow> [])"
    "map_of (filter (\<lambda>(i, dl). \<not> now > dl) xs) n =
      (case map_of xs n of Some dl \<Rightarrow> if now > dl then None else Some dl | None \<Rightarrow> None)"
proof -
  have none: "filter (\<lambda>i. i = n) (map fst (filter (\<lambda>(i, dl). now > dl) ys)) = [] \<and> map_of (filter (\<lambda>(i, dl). \<not> now > dl) ys) n = None"
    if "n \<notin> fst ` set ys" for ys :: "(string \<times> gotime) list"
    using that by (induction ys) auto
  have "filter (\<lambda>i. i = n) (map fst (filter (\<lambda>(i, dl). now > dl) xs)) =
      (case map_of xs n of Some dl \<Rightarrow> if now > dl then [n] else [] | None \<Rightarrow> []) \<and>
    map_of (filter (\<lambda>(i, dl). \<not> now > dl) xs) n =
      (case map_of xs n of Some dl \<Rightarrow> if now > dl then None else Some dl | None \<Rightarrow> None)"
    using assms
  proof (induction xs)
    case (Cons p xs)
    obtain i dl where p: "p = (i, dl)" by fastforce
    show ?case using Cons none[of xs] p by (cases "i = n") auto
  qed simp
  then show "filter (\<lambda>i. i = n) (map fst (filter (\<lambda>(i, dl). now > dl) xs)) =
      (case map_of xs n of Some dl \<Rightarrow> if now > dl then [n] else [] | None \<Rightarrow> [])"
    "map_of (filter (\<lambda>(i, dl). \<not> now > dl) xs) n =
      (case map_of xs n of Some dl \<Rightarrow> if now > dl then None else Some dl | None \<Rightarrow> None)" by blast+
qed

lemma silent_one_tick:
  assumes "tk_running t" "\<not> tk_closed t" "tk_callback t" "distinct (map fst (tk_deadlines t))"
  shows "reports_of n (beat_step t e) @ silent_at n (map_of (tk_deadlines (beat_step t e)) n) es =
      reports_of n t @ silent_at n (map_of (tk_deadlines t) n) (e # es)"
proof (cases e)
  case (Tick now)
  define gone where "gone = map fst (filter (\<lambda>(i, dl). now > dl) (tk_deadlines t))"
  have m: "map fst (filter (\<lambda>(now, i). i = n) (map (\<lambda>i. (now, i)) xs)) = map (\<lambda>i. now) (filter (\<lambda>i. i = n) xs)" for xs :: "string list"
    by (induction xs) auto
  have "beat_step t e = t\<lparr>tk_deadlines := filter (\<lambda>(i, dl). \<not> now > dl) (tk_deadlines t), tk_expired := tk_expired t @ gone,
      tk_reports := tk_reports t @ map (\<lambda>i. (now, i)) gone\<rparr>"
    using assms Tick by (simp add: beat_step_def tk_tick_def tk_reap_def Let_def gone_def)
  then have "reports_of n (beat_step t e) = reports_of n t @ map (\<lambda>i. now) (filter (\<lambda>i. i = n) gone)"
    "map_of (tk_deadlines (beat_step t e)) n = map_of (filter (\<lambda>(i, dl). \<not> now > dl) (tk_deadlines t)) n"
    by (simp_all add: m)
  then show ?thesis
    using Tick reap_one(1)[OF assms(4), of n now] reap_one(2)[OF assms(4), of now n] unfolding gone_def[symmetric]
    by (cases "map_of (tk_deadlines t) n") auto
qed (simp_all add: beat_step_def tk_set_def tk_delete_def tk_take_expired_def update_conv' delete_conv')

lemma beat_step_keeps:
  assumes "tk_running t" "\<not> tk_closed t" "tk_callback t" "distinct (map fst (tk_deadlines t))"
  shows "tk_running (beat_step t e) \<and> \<not> tk_closed (beat_step t e) \<and> tk_callback (beat_step t e) \<and> distinct (map fst (tk_deadlines (beat_step t e)))"
  using assms
  by (cases e) (simp_all add: beat_step_def tk_set_def tk_delete_def tk_take_expired_def tk_tick_def tk_reap_def Let_def distinct_update distinct_delete distinct_map_filter)

text \<open>Every entity has its own timer: whatever entities beat, are forgotten and reaped together, an entity is
  reported exactly at the ticks at which it alone would be, that is at the first tick after the
  deadline of its last beat, once, unless it beat again or was forgotten before.\<close>

theorem heartbeat_exact:
  assumes "tk_start (new_tracker True) = Ok t"
  shows "reports_of n (foldl beat_step t es) = silent_at n None es"
proof -
  have "reports_of n (foldl beat_step u es) = reports_of n u @ silent_at n (map_of (tk_deadlines u) n) es"
    if u: "tk_running u" "\<not> tk_closed u" "tk_callback u" "distinct (map fst (tk_deadlines u))" for u
    using u
  proof (induction es arbitrary: u)
    case (Cons e es)
    show ?case using Cons.IH[of "beat_step u e"] beat_step_keeps[OF Cons.prems, of e] silent_one_tick[OF Cons.prems, of n e es] by simp
  qed simp
  moreover have "t = (new_tracker True)\<lparr>tk_started := True, tk_running := True\<rparr>" using assms by (simp add: tk_start_def new_tracker_def)
  ultimately show ?thesis by (simp add: new_tracker_def)
qed

lemma heartbeat_exact_witness:
  "\<exists>t. tk_start (new_tracker True) = Ok t \<and>
    reports_of ''a'' (foldl beat_step t [Beat 0 ''a'' 10, Beat 5 ''b'' 10, Beat 8 ''a'' 10, Tick 12, Tick 20, Tick 30]) = [20]"
proof -
  obtain t where t: "tk_start (new_tracker True) = Ok t" by (simp add: tk_start_def new_tracker_def)
  have "reports_of ''a'' (foldl beat_step t [Beat 0 ''a'' 10, Beat 5 ''b'' 10, Beat 8 ''a'' 10, Tick 12, Tick 20, Tick 30]) = [20]"
    unfolding heartbeat_exact[OF t] by simp
  then show ?thesis using t by (intro exI conjI)
qed

text \<open>Stop before Start is documented to make Start do nothing; it makes it panic.\<close>

lemma start_after_stop_panics: "tk_start (tk_stop (new_tracker cb)) = Panic"
  by (simp add: tk_start_def tk_stop_def new_tracker_def)

end
