(* ===== verification/Keyring.thy ===== *)
theory Keyring
  imports Prelude
begin

section \<open>The rotating key ring (internal/keyring)\<close>

text \<open>
  keyring.go: one active key that seals, and retired keys that still open. The authenticated cipher
  (AES-GCM) is a parameter, a pair of functions that seal and open under a key and a nonce; random
  keys, identifiers and nonces are arguments, None where the random source fails. The code never
  overwrites a key, so a key is a value.
\<close>

type_synonym octets = "8 word list"

record 'k cipher =
  seal :: "'k \<Rightarrow> octets \<Rightarrow> octets \<Rightarrow> octets \<Rightarrow> octets"
  unseal :: "'k \<Rightarrow> octets \<Rightarrow> octets \<Rightarrow> octets \<Rightarrow> octets option"
  nonce_size :: nat

record 'k ring_key =
  rk_id :: octets
  rk_key :: 'k

record 'k keyring =
  kr_active :: "'k ring_key option"
  kr_retired :: "octets \<rightharpoonup> 'k ring_key"

datatype keyring_error = NoActiveKey | UnknownKey | TooShort | MissingNonce | RandomFailed | OpenFailed

definition new_keyring :: "'k keyring" where
  "new_keyring = \<lparr>kr_active = None, kr_retired = Map.empty\<rparr>"

text \<open>The identifier is an array of 16 bytes.\<close>

definition rotate_ring :: "('k \<times> octets) option \<Rightarrow> 'k keyring \<Rightarrow> 'k keyring \<times> (keyring_error + octets)" where
  "rotate_ring rnd kr =
     (case rnd of
        None \<Rightarrow> (kr, Inl RandomFailed)
      | Some (k, i) \<Rightarrow>
          (let kr1 = (case kr_active kr of Some a \<Rightarrow> kr\<lparr>kr_retired := (kr_retired kr)(rk_id a \<mapsto> a)\<rparr> | None \<Rightarrow> kr)
           in (kr1\<lparr>kr_active := Some \<lparr>rk_id = i, rk_key = k\<rparr>\<rparr>, Inr i)))"

definition ring_encrypt :: "'k cipher \<Rightarrow> octets option \<Rightarrow> 'k keyring \<Rightarrow> octets \<Rightarrow> octets \<Rightarrow> keyring_error + octets" where
  "ring_encrypt C nonce kr plain aad =
     (case kr_active kr of
        None \<Rightarrow> Inl NoActiveKey
      | Some a \<Rightarrow>
          (case nonce of None \<Rightarrow> Inl RandomFailed | Some n \<Rightarrow> Inr (rk_id a @ n @ seal C (rk_key a) n plain aad)))"

definition ring_decrypt :: "'k cipher \<Rightarrow> 'k keyring \<Rightarrow> octets \<Rightarrow> octets \<Rightarrow> keyring_error + octets" where
  "ring_decrypt C kr c aad =
     (if length c < 16 then Inl TooShort
      else
        let i = take 16 c; rest = drop 16 c;
            ae = (case kr_active kr of
                    Some a \<Rightarrow> if rk_id a = i then Some (rk_key a) else map_option rk_key (kr_retired kr i)
                  | None \<Rightarrow> map_option rk_key (kr_retired kr i))
        in case ae of
             None \<Rightarrow> Inl UnknownKey
           | Some k \<Rightarrow>
               if length rest < nonce_size C then Inl MissingNonce
               else (case unseal C k (take (nonce_size C) rest) (drop (nonce_size C) rest) aad of
                       None \<Rightarrow> Inl OpenFailed | Some p \<Rightarrow> Inr p))"

definition active_id :: "'k keyring \<Rightarrow> octets" where
  "active_id kr = (case kr_active kr of None \<Rightarrow> replicate 16 0 | Some a \<Rightarrow> rk_id a)"

definition retire_key :: "octets \<Rightarrow> 'k keyring \<Rightarrow> 'k keyring" where
  "retire_key i kr = kr\<lparr>kr_retired := (kr_retired kr)(i := None)\<rparr>"

datatype 'k ring_op = Rotate "('k \<times> octets) option" | Retire octets

definition ring_step :: "'k keyring \<Rightarrow> 'k ring_op \<Rightarrow> 'k keyring" where
  "ring_step kr op = (case op of Rotate rnd \<Rightarrow> fst (rotate_ring rnd kr) | Retire i \<Rightarrow> retire_key i kr)"

text \<open>The key a ring opens a ciphertext of \<open>i\<close> with.\<close>

definition opening_key :: "'k keyring \<Rightarrow> octets \<Rightarrow> 'k option" where
  "opening_key kr i =
     (case kr_active kr of
        Some a \<Rightarrow> if rk_id a = i then Some (rk_key a) else map_option rk_key (kr_retired kr i)
      | None \<Rightarrow> map_option rk_key (kr_retired kr i))"

lemma opening_key_step:
  assumes "opening_key kr i = Some k" "op \<noteq> Retire i" "\<forall>k' j. op = Rotate (Some (k', j)) \<longrightarrow> j \<noteq> i"
  shows "opening_key (ring_step kr op) i = Some k"
proof (cases op)
  case (Rotate rnd)
  show ?thesis
  proof (cases rnd)
    case None then show ?thesis using assms(1) Rotate by (simp add: ring_step_def rotate_ring_def)
  next
    case (Some p)
    obtain k' j where p: "p = (k', j)" by fastforce
    have "j \<noteq> i" using assms(3) Rotate Some p by simp
    then show ?thesis using assms(1) Rotate Some p
      by (cases "kr_active kr") (auto simp: ring_step_def rotate_ring_def opening_key_def Let_def split: if_splits)
  qed
next
  case (Retire j)
  then show ?thesis using assms(1,2) by (auto simp: ring_step_def retire_key_def opening_key_def split: option.splits if_splits)
qed

text \<open>What the ring has sealed it opens again, after any rotations and retirements of other keys: as long as
  the key that sealed a plaintext is not itself retired, and no later key gets its identifier, the
  ciphertext decrypts to the plaintext, whether that key is still active or retired by then.\<close>

theorem keyring_roundtrip:
  assumes "\<forall>k n p a. unseal C k n (seal C k n p a) a = Some p" "length nonce = nonce_size C"
    "kr_active kr = Some key" "length (rk_id key) = 16"
    "ring_encrypt C (Some nonce) kr plain aad = Inr c"
    "\<forall>op \<in> set ops. op \<noteq> Retire (rk_id key) \<and> (\<forall>k j. op = Rotate (Some (k, j)) \<longrightarrow> j \<noteq> rk_id key)"
  shows "ring_decrypt C (foldl ring_step kr ops) c aad = Inr plain"
proof -
  have c: "c = rk_id key @ nonce @ seal C (rk_key key) nonce plain aad" using assms(3,5) by (simp add: ring_encrypt_def)
  have "opening_key (foldl ring_step r ops) (rk_id key) = Some (rk_key key)" if r: "opening_key r (rk_id key) = Some (rk_key key)" for r
    using r assms(6)
  proof (induction ops arbitrary: r)
    case (Cons op ops)
    then have "opening_key (ring_step r op) (rk_id key) = Some (rk_key key)" by (intro opening_key_step) auto
    then show ?case using Cons by simp
  qed simp
  then have "opening_key (foldl ring_step kr ops) (rk_id key) = Some (rk_key key)" using assms(3) by (simp add: opening_key_def)
  then show ?thesis
    using assms(1,2,4) by (simp add: ring_decrypt_def c opening_key_def[symmetric] Let_def)
qed

text \<open>A cipher for the witness: the key is put in front and checked.\<close>

definition tag_cipher :: "octets cipher" where
  "tag_cipher = \<lparr>seal = (\<lambda>k n p a. k @ p), unseal = (\<lambda>k n c a. if take (length k) c = k then Some (drop (length k) c) else None), nonce_size = 12\<rparr>"

lemma keyring_roundtrip_witness:
  "ring_decrypt tag_cipher
    (foldl ring_step (fst (rotate_ring (Some ([1], replicate 16 1)) new_keyring)) [Rotate (Some ([2], replicate 16 2)), Retire (replicate 16 3), Rotate None])
    (replicate 16 1 @ replicate 12 0 @ [1, 7]) [] = Inr [7]"
  by (rule keyring_roundtrip[where nonce = "replicate 12 0" and key = "\<lparr>rk_id = replicate 16 1, rk_key = [1]\<rparr>"])
    (simp_all add: tag_cipher_def rotate_ring_def new_keyring_def ring_encrypt_def)

text \<open>Once its key is retired for good, a ciphertext is refused.\<close>

lemma retired_key_refused:
  assumes "kr_active kr = Some a" "rk_id a \<noteq> i" "length i = 16"
  shows "ring_decrypt C (retire_key i kr) (i @ rest) aad = Inl UnknownKey"
  using assms by (simp add: ring_decrypt_def retire_key_def Let_def)

end
