(* ===== verification/Blocking_Query.thy ===== *)
theory Blocking_Query
  imports Prelude
begin

section \<open>Blocking queries (internal/blocking)\<close>

text \<open>
  notifier.go: an index that writers advance and readers wait for, and the loop of a long-polling
  query around it. What happens while a reader is blocked is the environment: the index when it is
  woken and whether its context or timer has fired by then. The index does not wrap.
\<close>

definition new_notifier :: nat where
  "new_notifier = 1"

definition notify_all :: "nat \<Rightarrow> nat \<times> nat" where
  "notify_all n = (n + 1, n + 1)"

text \<open>One iteration of a call of Wait: the index at the call, then at each wake-up the index and whether the context
  or the timer has fired. None is still waiting. A timer is set only for a positive wait.\<close>

fun wait_wakes :: "nat \<Rightarrow> bool \<Rightarrow> (nat \<times> bool \<times> bool) list \<Rightarrow> nat option" where
  "wait_wakes minIndex timed [] = None"
| "wait_wakes minIndex timed ((n, ctx_done, fired) # ws) =
     (if n > minIndex \<or> ctx_done \<or> (timed \<and> fired) then Some n else wait_wakes minIndex timed ws)"

definition wait_index :: "nat \<Rightarrow> bool \<Rightarrow> nat \<Rightarrow> bool \<Rightarrow> (nat \<times> bool \<times> bool) list \<Rightarrow> nat option" where
  "wait_index minIndex timed n ctx_done ws =
     (if minIndex = 0 \<or> n > minIndex then Some n else wait_wakes minIndex timed ((n, ctx_done, False) # ws))"

text \<open>
  An iteration of BlockingQuery: what the query gives (None an error), the time, and the environment
  of its wait. The loop returns Returned with the index, or is still running after the iterations given.
\<close>

record query_round =
  qr_result :: "nat option"
  qr_now :: gotime
  qr_index :: nat
  qr_ctx :: bool
  qr_wakes :: "(nat \<times> bool \<times> bool) list"

datatype query_outcome = QueryError | QueryIndex nat | QueryStale nat | QueryRunning

fun blocking_query :: "nat \<Rightarrow> duration \<Rightarrow> gotime \<Rightarrow> query_round list \<Rightarrow> query_outcome" where
  "blocking_query minIndex maxWait deadline [] = QueryRunning"
| "blocking_query minIndex maxWait deadline (r # rs) =
     (case qr_result r of
        None \<Rightarrow> QueryError
      | Some idx \<Rightarrow>
          if idx > minIndex then QueryIndex idx
          else if maxWait > 0 \<and> deadline - qr_now r \<le> 0 then QueryIndex idx
          else (case wait_index idx (maxWait > 0) (qr_index r) (qr_ctx r) (qr_wakes r) of
                  None \<Rightarrow> QueryRunning
                | Some n \<Rightarrow> if n = idx then QueryStale idx else blocking_query minIndex maxWait deadline rs))"

text \<open>A blocking query spins: while the index of its own result stays at or below the caller's but the shared
  index is ahead of it (or its own index is zero), every wait returns at once and the query is run
  again at once; without a maximal wait, or before the deadline, no number of iterations ends it,
  and cancelling the context does not either.\<close>

theorem blocking_query_spins:
  assumes "\<forall>r \<in> set rs. \<exists>idx. qr_result r = Some idx \<and> idx \<le> minIndex \<and> idx < qr_index r \<and> (maxWait \<le> 0 \<or> qr_now r < deadline)"
  shows "blocking_query minIndex maxWait deadline rs = QueryRunning"
  using assms
proof (induction rs)
  case (Cons r rs)
  obtain idx where i: "qr_result r = Some idx" "idx \<le> minIndex" "idx < qr_index r" "maxWait \<le> 0 \<or> qr_now r < deadline" using Cons.prems by auto
  have "wait_index idx (maxWait > 0) (qr_index r) (qr_ctx r) (qr_wakes r) = Some (qr_index r)" using i(3) by (simp add: wait_index_def)
  then show ?case using i Cons by auto
qed simp

lemma blocking_query_spins_witness:
  "blocking_query 5 0 0 (replicate 3 \<lparr>qr_result = Some 4, qr_now = 0, qr_index = 9, qr_ctx = True, qr_wakes = []\<rparr>) = QueryRunning"
  by (rule blocking_query_spins) simp

text \<open>Otherwise it answers: with an index beyond the caller's, or at the deadline, or with the stale result when the
  context or the timer has fired with the index unchanged.\<close>

lemma blocking_query_returns:
  "blocking_query m w d rs = QueryIndex idx \<Longrightarrow> idx > m \<or> (w > 0 \<and> (\<exists>r \<in> set rs. d \<le> qr_now r))"
  by (induction m w d rs rule: blocking_query.induct) (auto split: option.splits if_splits)

end
