(* ===== verification/Workflow.thy ===== *)
theory Workflow
  imports Json_Patch "HOL-Library.AList"
begin

section \<open>Workflows (internal/workflows)\<close>

text \<open>
  engine.go: the engine that runs the steps of a workflow through handlers and keeps its executions,
  and versioned.go: definitions with numbered versions and their instances. What a handler does to
  the outside is a state \<open>'w\<close> that it is given and returns; its context is the deadline it is given.
  The clock is a sequence of readings. One execution runs at a time here; the pointer to it in the
  table of executions is the update of that table.
\<close>

subsection \<open>Data (engine.go)\<close>

type_synonym wf_data = "string \<rightharpoonup> json"

record wf_step =
  wt_id :: string
  wt_name :: string
  wt_type :: string
  wt_action :: string
  wt_config :: wf_data
  wt_timeout :: duration
  wt_retry :: int

record wf_trigger =
  wg_type :: string
  wg_condition :: wf_data

record workflow =
  wf_name :: string
  wf_namespace :: string
  wf_version :: string
  wf_description :: string
  wf_triggers :: "wf_trigger list"
  wf_steps :: "wf_step list"
  wf_enabled :: bool
  wf_labels :: "string \<rightharpoonup> string"
  wf_annotations :: "string \<rightharpoonup> string"

record step_execution =
  sx_id :: string
  sx_name :: string
  sx_status :: string
  sx_start :: gotime
  sx_end :: "gotime option"
  sx_output :: wf_data
  sx_error :: string

record wf_execution =
  wx_id :: string
  wx_workflow :: string
  wx_status :: string
  wx_start :: gotime
  wx_end :: "gotime option"
  wx_completed :: nat
  wx_total :: nat
  wx_error :: string
  wx_steps :: "step_execution list"
  wx_context :: wf_data

text \<open>A handler gives its output or an error, or panics.\<close>

type_synonym 'w step_handler = "'w \<Rightarrow> duration \<Rightarrow> wf_step \<Rightarrow> wf_data \<Rightarrow> 'w \<times> (string, wf_data) outcome"

subsection \<open>One step\<close>

definition step_timeout :: "wf_step \<Rightarrow> duration" where
  "step_timeout s = (if wt_timeout s = 0 then 30000000000 else wt_timeout s)"

fun retry_step :: "nat \<Rightarrow> 'w step_handler \<Rightarrow> wf_step \<Rightarrow> wf_data \<Rightarrow> 'w \<Rightarrow> 'w \<times> (unit, wf_data) outcome" where
  "retry_step 0 h s input w = (w, Err ())"
| "retry_step (Suc n) h s input w =
     (case h w (step_timeout s) s input of
        (w', Ok out) \<Rightarrow> (w', Ok out)
      | (w', Err e) \<Rightarrow> retry_step n h s input w'
      | (w', Panic) \<Rightarrow> (w', Panic))"

text \<open>
  What a step comes to: its output, with the error of a first try that was retried; an error that is
  recorded; or an error that leaves the loop over the steps at once.
\<close>

datatype wf_step_result = StepDone wf_data string | StepFailed string | StepLeft | StepPanicked

definition run_wf_step :: "(string \<rightharpoonup> 'w step_handler) \<Rightarrow> wf_step \<Rightarrow> wf_data \<Rightarrow> 'w \<Rightarrow> 'w \<times> wf_step_result" where
  "run_wf_step handlers s input w =
     (case handlers (wt_type s) of
        None \<Rightarrow> (w, StepFailed (''no handler for step type: '' @ wt_type s))
      | Some h \<Rightarrow>
          (case h w (step_timeout s) s input of
             (w1, Ok out) \<Rightarrow> (w1, StepDone out [])
           | (w1, Panic) \<Rightarrow> (w1, StepPanicked)
           | (w1, Err e) \<Rightarrow>
               if wt_retry s > 0 then
                 (case retry_step (nat (wt_retry s)) h s input w1 of
                    (w2, Ok out) \<Rightarrow> (w2, StepDone out e)
                  | (w2, Err _) \<Rightarrow> (w2, StepFailed e)
                  | (w2, Panic) \<Rightarrow> (w2, StepPanicked))
               else (w1, StepLeft)))"

definition step_record :: "(nat \<Rightarrow> gotime) \<Rightarrow> nat \<Rightarrow> wf_step \<Rightarrow> wf_step_result \<Rightarrow> step_execution" where
  "step_record clock i s r =
     (let base = \<lparr>sx_id = wt_id s, sx_name = wt_name s, sx_status = ''running'', sx_start = clock (2 * i + 1),
                  sx_end = Some (clock (2 * i + 2)), sx_output = Map.empty, sx_error = []\<rparr>
      in case r of StepDone out e \<Rightarrow> base\<lparr>sx_status := ''success'', sx_output := out, sx_error := e\<rparr>
                 | StepFailed e \<Rightarrow> base\<lparr>sx_status := ''failed'', sx_error := e\<rparr>
                 | _ \<Rightarrow> base)"

subsection \<open>The engine\<close>

text \<open>
  \<open>we_saved\<close> is the sequence of saved states, while a store is configured; \<open>we_locked\<close> is a lock that is
  never released.
\<close>

record 'w engine =
  we_workflows :: "string \<rightharpoonup> workflow"
  we_executions :: "string \<rightharpoonup> wf_execution"
  we_handlers :: "string \<rightharpoonup> 'w step_handler"
  we_persistent :: bool
  we_saved :: "((string \<rightharpoonup> workflow) \<times> (string \<rightharpoonup> wf_execution)) list"
  we_locked :: bool

definition new_engine :: "'w engine" where
  "new_engine = \<lparr>we_workflows = Map.empty, we_executions = Map.empty, we_handlers = Map.empty, we_persistent = False,
     we_saved = [], we_locked = False\<rparr>"

definition persist_state :: "'w engine \<Rightarrow> 'w engine" where
  "persist_state en = (if we_persistent en then en\<lparr>we_saved := we_saved en @ [(we_workflows en, we_executions en)]\<rparr> else en)"

definition put_execution :: "wf_execution \<Rightarrow> 'w engine \<Rightarrow> 'w engine" where
  "put_execution x en = persist_state (en\<lparr>we_executions := (we_executions en)(wx_id x \<mapsto> x)\<rparr>)"

definition load_state :: "'w engine \<Rightarrow> 'w engine" where
  "load_state en =
     (if \<not> we_persistent en \<or> we_saved en = [] then en
      else en\<lparr>we_workflows := fst (last (we_saved en)), we_executions := snd (last (we_saved en))\<rparr>)"

text \<open>An operation on a locked engine does not return.\<close>

definition on_engine :: "('w engine \<Rightarrow> 'w engine \<times> 'a) \<Rightarrow> 'w engine \<Rightarrow> ('w engine \<times> 'a) option" where
  "on_engine f en = (if we_locked en then None else Some (f en))"

definition configure_persistence :: "'w engine \<Rightarrow> ('w engine \<times> unit) option" where
  "configure_persistence = on_engine (\<lambda>en. (en\<lparr>we_persistent := True, we_locked := True\<rparr>, ()))"

definition configure_kv_persistence :: "'w engine \<Rightarrow> ('w engine \<times> unit) option" where
  "configure_kv_persistence = on_engine (\<lambda>en. (load_state (en\<lparr>we_persistent := True\<rparr>), ()))"

definition register_handler :: "string \<Rightarrow> 'w step_handler \<Rightarrow> 'w engine \<Rightarrow> ('w engine \<times> unit) option" where
  "register_handler t h = on_engine (\<lambda>en. (en\<lparr>we_handlers := (we_handlers en)(t \<mapsto> h)\<rparr>, ()))"

definition add_workflow :: "workflow \<Rightarrow> 'w engine \<Rightarrow> ('w engine \<times> bool) option" where
  "add_workflow flow en =
     (if wf_name flow = [] then Some (en, False)
      else on_engine (\<lambda>en. (persist_state (en\<lparr>we_workflows := (we_workflows en)(wf_name flow \<mapsto> flow)\<rparr>), True)) en)"

definition get_workflow :: "string \<Rightarrow> 'w engine \<Rightarrow> ('w engine \<times> workflow option) option" where
  "get_workflow n = on_engine (\<lambda>en. (en, we_workflows en n))"

definition get_execution :: "string \<Rightarrow> 'w engine \<Rightarrow> ('w engine \<times> wf_execution option) option" where
  "get_execution i = on_engine (\<lambda>en. (en, we_executions en i))"

definition list_executions :: "string \<Rightarrow> 'w engine \<Rightarrow> ('w engine \<times> (string \<rightharpoonup> wf_execution)) option" where
  "list_executions n =
     on_engine (\<lambda>en. (en, \<lambda>i. case we_executions en i of Some x \<Rightarrow> if wx_workflow x = n then Some x else None | None \<Rightarrow> None))"

subsection \<open>Execute\<close>

text \<open>The loop over the steps from the i-th; the flag says whether a handler panicked, which ends the whole call.\<close>

fun exec_steps ::
  "(nat \<Rightarrow> gotime) \<Rightarrow> nat \<Rightarrow> wf_step list \<Rightarrow> wf_data \<Rightarrow> 'w engine \<times> 'w \<times> wf_execution \<Rightarrow> ('w engine \<times> 'w \<times> wf_execution) \<times> bool" where
  "exec_steps clock i [] input (en, w, x) = ((en, w, x), False)"
| "exec_steps clock i (s # ss) input (en, w, x) =
     (let (w1, r) = run_wf_step (we_handlers en) s input w;
          x1 = x\<lparr>wx_steps := wx_steps x @ [step_record clock i s r], wx_completed := Suc i\<rparr>;
          en1 = put_execution x1 en
      in case r of
           StepPanicked \<Rightarrow> ((en, w1, x), True)
         | StepLeft \<Rightarrow> ((en, w1, x), False)
         | StepFailed e \<Rightarrow> ((en1, w1, x1\<lparr>wx_status := ''failed'', wx_error := e\<rparr>), False)
         | StepDone out e \<Rightarrow> exec_steps clock (Suc i) ss out (en1, w1, x1))"

datatype execute_error = WorkflowNotFound | WorkflowDisabled

definition execute ::
  "(nat \<Rightarrow> gotime) \<Rightarrow> string \<Rightarrow> string \<Rightarrow> wf_data \<Rightarrow> 'w engine \<times> 'w \<Rightarrow> (('w engine \<times> 'w) \<times> (execute_error, wf_execution) outcome) option" where
  "execute clock xid name ctx = (\<lambda>(en, w).
     (if we_locked en then None
      else case we_workflows en name of
        None \<Rightarrow> Some ((en, w), Err WorkflowNotFound)
      | Some flow \<Rightarrow>
          if \<not> wf_enabled flow then Some ((en, w), Err WorkflowDisabled)
          else
            let x0 = \<lparr>wx_id = xid, wx_workflow = name, wx_status = ''running'', wx_start = clock 0, wx_end = None, wx_completed = 0,
                      wx_total = length (wf_steps flow), wx_error = [], wx_steps = [], wx_context = ctx\<rparr>;
                ((en1, w1, x1), panicked) = exec_steps clock 0 (wf_steps flow) Map.empty (put_execution x0 en, w, x0);
                x2 = x1\<lparr>wx_status := (if wx_status x1 \<noteq> ''failed'' then ''success'' else ''failed''),
                        wx_end := Some (clock (2 * length (wf_steps flow) + 1))\<rparr>
            in if panicked then Some ((en1, w1), Panic) else Some ((put_execution x2 en1, w1), Ok x2)))"

subsection \<open>Built-in handlers and triggers\<close>

text \<open>A configuration without the text it needs makes the type assertion panic.\<close>

definition text_or_panic :: "wf_data \<Rightarrow> string \<Rightarrow> string option" where
  "text_or_panic c k = (case c k of Some (JString v) \<Rightarrow> Some v | _ \<Rightarrow> None)"

definition notification_handler :: "'w step_handler" where
  "notification_handler w d s input =
     (w, case (text_or_panic (wt_config s) ''action'', text_or_panic (wt_config s) ''message'') of
           (Some a, Some m) \<Rightarrow> Ok [''action'' \<mapsto> JString a, ''message'' \<mapsto> JString m, ''status'' \<mapsto> JString ''sent'']
         | _ \<Rightarrow> Panic)"

definition http_handler :: "'w step_handler" where
  "http_handler w d s input =
     (w, case (text_or_panic (wt_config s) ''method'', text_or_panic (wt_config s) ''url'') of
           (Some m, Some u) \<Rightarrow> Ok [''method'' \<mapsto> JString m, ''url'' \<mapsto> JString u, ''statusCode'' \<mapsto> JNumber 200]
         | _ \<Rightarrow> Panic)"

definition register_builtin_handlers :: "'w engine \<Rightarrow> ('w engine \<times> unit) option" where
  "register_builtin_handlers en =
     Option.bind (register_handler ''notification'' notification_handler en) (\<lambda>(en', u). register_handler ''http'' http_handler en')"

definition connect_policy :: "string \<Rightarrow> string list \<Rightarrow> (string \<rightharpoonup> string list) \<Rightarrow> (string \<rightharpoonup> string list)" where
  "connect_policy p ws conns = conns(p \<mapsto> ws)"

definition triggered_workflows :: "string \<Rightarrow> (string \<rightharpoonup> string list) \<Rightarrow> string list" where
  "triggered_workflows p conns = (case conns p of None \<Rightarrow> [] | Some ws \<Rightarrow> ws)"

subsection \<open>Versions (versioned.go)\<close>

text \<open>The steps of a definition matter here only by their identifiers; the configuration is carried along.\<close>

record vw_step =
  vt_id :: string
  vt_name :: string
  vt_number :: int
  vt_type :: string
  vt_config :: wf_data
  vt_next :: string
  vt_error_handler :: string
  vt_timeout :: int

record vw_definition =
  vd_id :: string
  vd_name :: string
  vd_version :: string
  vd_status :: string
  vd_steps :: "vw_step list"
  vd_created :: gotime
  vd_updated :: gotime
  vd_created_by :: string
  vd_description :: string
  vd_tags :: "string list"

record execution_record =
  er_step :: string
  er_name :: string
  er_at :: gotime
  er_duration :: int
  er_status :: string
  er_output :: wf_data
  er_error :: string

record vw_instance =
  vi_id :: string
  vi_workflow :: string
  vi_version :: string
  vi_status :: string
  vi_started :: gotime
  vi_completed :: "gotime option"
  vi_current :: string
  vi_history :: "execution_record list"
  vi_context :: wf_data

record vw_version =
  vv_workflow :: string
  vv_version :: string
  vv_number :: nat
  vv_previous :: string
  vv_created :: gotime
  vv_created_by :: string
  vv_active :: bool

record vw_manager =
  vm_workflows :: "string \<rightharpoonup> vw_definition"
  vm_versions :: "string \<rightharpoonup> vw_version list"
  vm_instances :: "(string \<times> vw_instance) list"
  vm_history :: "string \<rightharpoonup> vw_definition list"
  vm_logs :: "execution_record list"
  vm_migrations :: "string \<rightharpoonup> string \<times> string"
  vm_max_instances :: nat
  vm_max_logs :: nat

definition new_manager :: vw_manager where
  "new_manager = \<lparr>vm_workflows = Map.empty, vm_versions = Map.empty, vm_instances = [], vm_history = Map.empty,
     vm_logs = [], vm_migrations = Map.empty, vm_max_instances = 100000, vm_max_logs = 50000\<rparr>"

text \<open>The identifier made from the clock is an argument.\<close>

definition create_workflow :: "gotime \<Rightarrow> string \<Rightarrow> vw_definition \<Rightarrow> vw_manager \<Rightarrow> vw_manager \<times> vw_version" where
  "create_workflow now fresh d0 m =
     (let d = d0\<lparr>vd_id := (if vd_id d0 = [] then fresh else vd_id d0),
                 vd_version := (if vd_version d0 = [] then ''1.0.0'' else vd_version d0), vd_created := now, vd_updated := now\<rparr>;
          v = \<lparr>vv_workflow = vd_id d, vv_version = vd_version d, vv_number = 1, vv_previous = [], vv_created = now,
               vv_created_by = vd_created_by d, vv_active = True\<rparr>
      in (m\<lparr>vm_workflows := (vm_workflows m)(vd_id d \<mapsto> d), vm_versions := (vm_versions m)(vd_id d \<mapsto> [v]),
            vm_history := (vm_history m)(vd_id d \<mapsto> [d])\<rparr>, v))"

definition or_nil :: "'a list option \<Rightarrow> 'a list" where
  "or_nil x = (case x of None \<Rightarrow> [] | Some xs \<Rightarrow> xs)"

definition publish_version :: "gotime \<Rightarrow> string \<Rightarrow> vw_definition \<Rightarrow> vw_manager \<Rightarrow> (vw_manager \<times> vw_version) option" where
  "publish_version now i d0 m =
     (case vm_workflows m i of
        None \<Rightarrow> None
      | Some old \<Rightarrow>
          (let olds = or_nil (vm_versions m i); n = length olds + 1;
               d = d0\<lparr>vd_id := i, vd_version := print_int (int n) @ ''.0.0'', vd_updated := now\<rparr>;
               v = \<lparr>vv_workflow = i, vv_version = print_int (int n) @ ''.0.0'', vv_number = n, vv_previous = vd_version old,
                    vv_created = now, vv_created_by = vd_created_by d, vv_active = True\<rparr>
           in Some (m\<lparr>vm_workflows := (vm_workflows m)(i \<mapsto> d),
                      vm_versions := (vm_versions m)(i \<mapsto> map (\<lambda>u. u\<lparr>vv_active := False\<rparr>) olds @ [v]),
                      vm_history := (vm_history m)(i \<mapsto> or_nil (vm_history m i) @ [d])\<rparr>, v)))"

text \<open>The oldest instance as the scan over the table finds it; an instance of the zero time never is.\<close>

fun oldest_instance :: "string \<Rightarrow> gotime \<Rightarrow> (string \<times> vw_instance) list \<Rightarrow> string" where
  "oldest_instance oid ot [] = oid"
| "oldest_instance oid ot ((i, x) # xs) =
     (if ot = zero_time \<or> vi_started x < ot then oldest_instance i (vi_started x) xs else oldest_instance oid ot xs)"

definition start_instance :: "gotime \<Rightarrow> string \<Rightarrow> string \<Rightarrow> string \<Rightarrow> wf_data \<Rightarrow> vw_manager \<Rightarrow> (vw_manager \<times> vw_instance) option" where
  "start_instance now fresh i version ctx m =
     (case vm_workflows m i of
        None \<Rightarrow> None
      | Some d \<Rightarrow>
          (let x = \<lparr>vi_id = fresh, vi_workflow = i, vi_version = (if version = [] then vd_version d else version),
                    vi_status = ''running'', vi_started = now, vi_completed = None,
                    vi_current = (case vd_steps d of [] \<Rightarrow> [] | s # ss \<Rightarrow> vt_id s), vi_history = [], vi_context = ctx\<rparr>;
               insts = AList.update fresh x (vm_instances m);
               oid = oldest_instance [] zero_time insts
           in Some (m\<lparr>vm_instances :=
                if length insts > vm_max_instances m \<and> oid \<noteq> [] then AList.delete oid insts else insts\<rparr>, x)))"

definition record_step :: "string \<Rightarrow> execution_record \<Rightarrow> vw_manager \<Rightarrow> vw_manager option" where
  "record_step i e m =
     (case map_of (vm_instances m) i of
        None \<Rightarrow> None
      | Some x \<Rightarrow>
          (let logs = vm_logs m @ [e]
           in Some (m\<lparr>vm_instances := AList.update i (x\<lparr>vi_history := vi_history x @ [e]\<rparr>) (vm_instances m),
                      vm_logs := (if length logs > vm_max_logs m then tl logs else logs)\<rparr>)))"

definition complete_instance :: "gotime \<Rightarrow> string \<Rightarrow> vw_manager \<Rightarrow> vw_manager option" where
  "complete_instance now i m =
     (case map_of (vm_instances m) i of
        None \<Rightarrow> None
      | Some x \<Rightarrow> Some (m\<lparr>vm_instances := AList.update i (x\<lparr>vi_completed := Some now, vi_status := ''completed''\<rparr>) (vm_instances m)\<rparr>))"

definition workflow_versions :: "string \<Rightarrow> vw_manager \<Rightarrow> vw_version list" where
  "workflow_versions i m = or_nil (vm_versions m i)"

definition workflow_version :: "string \<Rightarrow> string \<Rightarrow> vw_manager \<Rightarrow> vw_definition option" where
  "workflow_version i v m = (case vm_history m i of None \<Rightarrow> None | Some ds \<Rightarrow> List.find (\<lambda>d. vd_version d = v) ds)"

definition create_migration :: "string \<Rightarrow> string \<Rightarrow> vw_manager \<Rightarrow> vw_manager" where
  "create_migration a b m = m\<lparr>vm_migrations := (vm_migrations m)(a @ ''-'' @ b \<mapsto> (a, b))\<rparr>"

definition instance_history :: "string \<Rightarrow> int \<Rightarrow> vw_manager \<Rightarrow> vw_instance list" where
  "instance_history i limit m =
     (let xs = filter (\<lambda>x. vi_workflow x = i) (map snd (vm_instances m))
      in if limit > 0 \<and> int (length xs) > limit then drop (length xs - nat limit) xs else xs)"

subsection \<open>What an execution reports\<close>

text \<open>What the steps come to, each with the output of the one before, until one is not done.\<close>

fun step_results :: "(string \<rightharpoonup> 'w step_handler) \<Rightarrow> wf_step list \<Rightarrow> wf_data \<Rightarrow> 'w \<Rightarrow> wf_step_result list" where
  "step_results handlers [] input w = []"
| "step_results handlers (s # ss) input w =
     (case run_wf_step handlers s input w of
        (w', StepDone out e) \<Rightarrow> StepDone out e # step_results handlers ss out w'
      | (w', r) \<Rightarrow> [r])"

fun recorded :: "wf_step_result \<Rightarrow> bool" where
  "recorded (StepDone out e) = True"
| "recorded (StepFailed e) = True"
| "recorded r = False"

lemma put_execution_frame [simp]:
  "we_handlers (put_execution x en) = we_handlers en" "we_executions (put_execution x en) = (we_executions en)(wx_id x \<mapsto> x)"
  "we_locked (put_execution x en) = we_locked en"
  by (simp_all add: put_execution_def persist_state_def)

lemma exec_steps_results:
  assumes "exec_steps clock i ss input (en, w, x) = ((en', w', x'), p)"
  defines "rs \<equiv> step_results (we_handlers en) ss input w"
  shows "we_locked en' = we_locked en \<and> wx_id x' = wx_id x \<and> wx_total x' = wx_total x \<and>
    length (wx_steps x') = length (wx_steps x) + length (filter recorded rs) \<and>
    (filter recorded rs \<noteq> [] \<longrightarrow> wx_completed x' = i + length (filter recorded rs)) \<and>
    (filter recorded rs = [] \<longrightarrow> wx_completed x' = wx_completed x) \<and>
    wx_status x' = (if \<exists>e. StepFailed e \<in> set rs then ''failed'' else wx_status x) \<and>
    (p \<longleftrightarrow> StepPanicked \<in> set rs) \<and> length rs \<le> length ss"
  using assms(1) unfolding rs_def
proof (induction ss arbitrary: i input en w x)
  case (Cons s ss)
  obtain w1 r where r: "run_wf_step (we_handlers en) s input w = (w1, r)" by fastforce
  show ?case
  proof (cases r)
    case (StepDone out e)
    define x1 where "x1 = x\<lparr>wx_steps := wx_steps x @ [step_record clock i s r], wx_completed := Suc i\<rparr>"
    have "exec_steps clock (Suc i) ss out (put_execution x1 en, w1, x1) = ((en', w', x'), p)"
      using Cons.prems r StepDone by (simp add: x1_def Let_def)
    from Cons.IH[OF this] show ?thesis using r StepDone by (auto simp: x1_def)
  qed (use Cons.prems r in \<open>auto simp: Let_def split: if_splits\<close>)
qed simp

lemma step_results_stop:
  "StepLeft \<in> set (step_results handlers ss input w) \<Longrightarrow> length (filter recorded (step_results handlers ss input w)) < length ss"
proof (induction ss arbitrary: input w)
  case (Cons s ss)
  obtain w1 r where "run_wf_step handlers s input w = (w1, r)" by fastforce
  then show ?case using Cons by (cases r) auto
qed simp


definition broken_flow :: workflow where
  "broken_flow = \<lparr>wf_name = ''f'', wf_namespace = [], wf_version = [], wf_description = [], wf_triggers = [],
     wf_steps = [\<lparr>wt_id = ''1'', wt_name = [], wt_type = ''t'', wt_action = [], wt_config = Map.empty, wt_timeout = 0, wt_retry = 0\<rparr>],
     wf_enabled = True, wf_labels = Map.empty, wf_annotations = Map.empty\<rparr>"


text \<open>After ConfigurePersistence the lock is never released: every later operation waits for ever.\<close>

lemma configured_engine_hangs:
  assumes "configure_persistence en = Some (en', u)"
  shows "get_workflow n en' = None" "execute clock xid n ctx (en', w) = None" "configure_kv_persistence en' = None"
  using assms by (auto simp: configure_persistence_def on_engine_def get_workflow_def execute_def configure_kv_persistence_def split: if_splits)

subsection \<open>Versions are counted and one is active\<close>

datatype version_op = CreateWorkflow gotime string vw_definition | PublishVersion gotime string vw_definition

definition version_step :: "vw_manager \<Rightarrow> version_op \<Rightarrow> vw_manager" where
  "version_step m op =
     (case op of
        CreateWorkflow now fresh d \<Rightarrow> fst (create_workflow now fresh d m)
      | PublishVersion now i d \<Rightarrow> (case publish_version now i d m of None \<Rightarrow> m | Some (m', v) \<Rightarrow> m'))"

definition version_ok :: "vw_definition option \<Rightarrow> vw_version list option \<Rightarrow> bool" where
  "version_ok w vs \<longleftrightarrow>
     (case w of
        None \<Rightarrow> vs = None
      | Some d \<Rightarrow> (\<exists>us v. vs = Some (us @ [v]) \<and> list_all (\<lambda>u. \<not> vv_active u) us \<and> vv_active v \<and>
          map vv_number (us @ [v]) = [1..<length us + 2] \<and> vv_version v = vd_version d))"

definition versions_ok :: "vw_manager \<Rightarrow> bool" where
  "versions_ok m \<longleftrightarrow> (\<forall>i. version_ok (vm_workflows m i) (vm_versions m i))"

lemma version_ok_next:
  assumes "version_ok (Some old) (Some vs)" "vv_active v" "vv_number v = length vs + 1" "vv_version v = vd_version d"
  shows "version_ok (Some d) (Some (map (\<lambda>u. u\<lparr>vv_active := False\<rparr>) vs @ [v]))"
proof -
  obtain us u where "vs = us @ [u]" "map vv_number (us @ [u]) = [1..<length us + 2]" using assms(1) by (auto simp: version_ok_def)
  then have "map vv_number (map (\<lambda>u. u\<lparr>vv_active := False\<rparr>) vs @ [v]) = [1..<length (map (\<lambda>u. u\<lparr>vv_active := False\<rparr>) vs) + 2]"
    using assms(3) by (simp add: comp_def)
  then show ?thesis using assms(2,4) unfolding version_ok_def by (auto simp: list_all_iff)
qed

lemma versions_step: "versions_ok m \<Longrightarrow> versions_ok (version_step m op)"
proof (cases op)
  case (CreateWorkflow now fresh d)
  assume ok: "versions_ok m"
  have "version_ok (Some d') (Some [v])" if "vv_active v" "vv_number v = 1" "vv_version v = vd_version d'" for d' v
    using that by (auto simp: version_ok_def)
  then show ?thesis using ok CreateWorkflow by (simp add: versions_ok_def version_step_def create_workflow_def Let_def)
next
  case (PublishVersion now k d)
  assume ok: "versions_ok m"
  show ?thesis
  proof (cases "vm_workflows m k")
    case None then show ?thesis using ok PublishVersion by (simp add: version_step_def publish_version_def)
  next
    case (Some old)
    have vk: "version_ok (Some old) (vm_versions m k)" using ok Some unfolding versions_ok_def by metis
    then obtain vs where vs: "vm_versions m k = Some vs" by (auto simp: version_ok_def)
    show ?thesis
      using ok PublishVersion Some vs version_ok_next[OF vk[unfolded vs]]
      by (simp add: versions_ok_def version_step_def publish_version_def Let_def or_nil_def)
  qed
qed

text \<open>However workflows are created and published, the versions of each are numbered from 1 without a gap,
  and exactly the last one, the current one, is active.\<close>

theorem one_active_version:
  assumes "vm_workflows (foldl version_step new_manager ops) i = Some d"
  shows "\<exists>us v. workflow_versions i (foldl version_step new_manager ops) = us @ [v] \<and> filter vv_active (us @ [v]) = [v] \<and>
    map vv_number (us @ [v]) = [1..<length us + 2] \<and> vv_version v = vd_version d"
proof -
  have "versions_ok m \<Longrightarrow> versions_ok (foldl version_step m ops)" for m
    by (induction ops arbitrary: m) (simp_all add: versions_step)
  moreover have "versions_ok new_manager" by (simp add: versions_ok_def version_ok_def new_manager_def)
  ultimately have "versions_ok (foldl version_step new_manager ops)" by blast
  then have "version_ok (Some d) (vm_versions (foldl version_step new_manager ops) i)" using assms unfolding versions_ok_def by metis
  then
  obtain us v where v: "vm_versions (foldl version_step new_manager ops) i = Some (us @ [v])" "list_all (\<lambda>u. \<not> vv_active u) us" "vv_active v"
    "map vv_number (us @ [v]) = [1..<length us + 2]" "vv_version v = vd_version d"
    unfolding version_ok_def by auto
  have "filter vv_active us = []" using v(2) by (simp add: list_all_iff filter_empty_conv)
  then show ?thesis using v by (intro exI[of _ us] exI[of _ v]) (simp add: workflow_versions_def or_nil_def)
qed

end
