(* ===== verification/Job_Queue.thy ===== *)
theory Job_Queue
  imports Json_Patch "HOL-Library.AList" "HOL-Library.Signed_Division"
begin

section \<open>Background jobs: the queue, its workers and the manager (internal/jobs)\<close>

text \<open>
  job.go, queue.go and manager.go. Jobs are shared by pointer between the queue's table, its slice of
  pending jobs, the worker and the handler, so they live in a heap from references to jobs; the queue
  holds references. \<open>sort.Slice\<close> is not stable: the sort is an argument that permutes its input and
  orders it by falling priority. One poll of a worker is one step; the clock is read at the dequeue,
  at the start of the handler and at its end. What a handler changes is its own job and the outside,
  a state \<open>'w\<close>.
\<close>

subsection \<open>Jobs (job.go)\<close>

type_synonym job_data = "string \<rightharpoonup> json"

record job =
  jb_id :: string
  jb_type :: string
  jb_status :: string
  jb_priority :: int
  jb_data :: job_data
  jb_result :: job_data
  jb_error :: string
  jb_retries :: int
  jb_max_retries :: int
  jb_created :: gotime
  jb_started :: gotime
  jb_completed :: gotime
  jb_timeout :: duration
  jb_tags :: "string list"
  jb_callback :: string
  jb_deadline :: gotime

type_synonym jref = nat
type_synonym job_heap = "jref \<Rightarrow> job"

record job_config =
  jc_max_queue :: int
  jc_max_retries :: int
  jc_timeout :: duration
  jc_priority :: int
  jc_workers :: int

datatype job_error = ErrJobNotFound | ErrInvalidJob | ErrQueueFull | ErrInvalidJobType | ErrJobCancelled
  | ErrNegativeRetries | ErrNegativeTimeout | ErrText string

definition default_job_config :: job_config where
  "default_job_config = \<lparr>jc_max_queue = 10000, jc_max_retries = 3, jc_timeout = 30 * 60 * second,
     jc_priority = 5, jc_workers = 10\<rparr>"

text \<open>The generated identifier is an argument.\<close>

definition create_job :: "job_config \<Rightarrow> string \<Rightarrow> gotime \<Rightarrow> string \<Rightarrow> job_data \<Rightarrow> job" where
  "create_job c i now typ d =
     \<lparr>jb_id = i, jb_type = typ, jb_status = ''pending'', jb_priority = jc_priority c, jb_data = d,
      jb_result = Map.empty, jb_error = [], jb_retries = 0, jb_max_retries = jc_max_retries c,
      jb_created = now, jb_started = zero_time, jb_completed = zero_time, jb_timeout = jc_timeout c,
      jb_tags = [], jb_callback = [], jb_deadline = zero_time\<rparr>"

definition create_job_with_priority :: "job_config \<Rightarrow> string \<Rightarrow> gotime \<Rightarrow> string \<Rightarrow> job_data \<Rightarrow> int \<Rightarrow> job" where
  "create_job_with_priority c i now typ d p = (create_job c i now typ d)\<lparr>jb_priority := p\<rparr>"

definition add_job_tag :: "string \<Rightarrow> job \<Rightarrow> job" where
  "add_job_tag t j = j\<lparr>jb_tags := jb_tags j @ [t]\<rparr>"

definition has_job_tag :: "string \<Rightarrow> job \<Rightarrow> bool" where
  "has_job_tag t j \<longleftrightarrow> t \<in> set (jb_tags j)"

definition job_expired :: "gotime \<Rightarrow> job \<Rightarrow> bool" where
  "job_expired now j \<longleftrightarrow> jb_deadline j \<noteq> zero_time \<and> now > jb_deadline j"

definition job_timed_out :: "gotime \<Rightarrow> gotime \<Rightarrow> job \<Rightarrow> bool" where
  "job_timed_out now start j \<longleftrightarrow> jb_timeout j \<noteq> 0 \<and> now - start > jb_timeout j"

definition job_validator :: "job option \<Rightarrow> (job_error, unit) outcome" where
  "job_validator jo =
     (case jo of
        None \<Rightarrow> Err ErrInvalidJob
      | Some j \<Rightarrow>
          if jb_type j = [] then Err ErrInvalidJobType
          else if jb_max_retries j < 0 then Err ErrNegativeRetries
          else if jb_timeout j < 0 then Err ErrNegativeTimeout
          else Ok ())"

subsection \<open>The queue in memory (queue.go)\<close>

record mqueue =
  mq_jobs :: "(string \<times> jref) list"
  mq_pending :: "jref list"
  mq_max :: int

type_synonym priority_sort = "(jref \<Rightarrow> int) \<Rightarrow> jref list \<Rightarrow> jref list"

definition sorts_falling :: "priority_sort \<Rightarrow> bool" where
  "sorts_falling srt \<longleftrightarrow>
     (\<forall>f xs. mset (srt f xs) = mset xs \<and> sorted_wrt (\<lambda>a b. f b \<le> f a) (srt f xs))"

definition new_memory_queue :: "int \<Rightarrow> mqueue" where
  "new_memory_queue n = \<lparr>mq_jobs = [], mq_pending = [], mq_max = (if n \<le> 0 then 10000 else n)\<rparr>"

definition mq_submit ::
  "priority_sort \<Rightarrow> gotime \<Rightarrow> jref option \<Rightarrow> job_heap \<Rightarrow> mqueue \<Rightarrow> job_heap \<times> mqueue \<times> (job_error, unit) outcome" where
  "mq_submit srt now ro h q =
     (case ro of
        None \<Rightarrow> (h, q, Err ErrInvalidJob)
      | Some r \<Rightarrow>
          (case job_validator (Some (h r)) of
             Ok _ \<Rightarrow>
               if int (length (mq_jobs q)) \<ge> mq_max q then (h, q, Err ErrQueueFull)
               else
                 (let h' = h(r := (h r)\<lparr>jb_created := now, jb_status := ''pending''\<rparr>)
                  in (h', q\<lparr>mq_jobs := AList.update (jb_id (h r)) r (mq_jobs q),
                            mq_pending := srt (\<lambda>x. jb_priority (h' x)) (mq_pending q @ [r])\<rparr>, Ok ()))
           | Err e \<Rightarrow> (h, q, Err e)
           | Panic \<Rightarrow> (h, q, Panic)))"

definition mq_dequeue :: "gotime \<Rightarrow> job_heap \<Rightarrow> mqueue \<Rightarrow> job_heap \<times> mqueue \<times> (job_error, jref) outcome" where
  "mq_dequeue now h q =
     (case mq_pending q of
        [] \<Rightarrow> (h, q, Err ErrJobNotFound)
      | r # rs \<Rightarrow>
          (let q' = q\<lparr>mq_pending := rs\<rparr>
           in if job_expired now (h r) then (h(r := (h r)\<lparr>jb_status := ''cancelled''\<rparr>), q', Err ErrJobCancelled)
              else (h, q', Ok r)))"

definition mq_get :: "string \<Rightarrow> mqueue \<Rightarrow> (job_error, jref) outcome" where
  "mq_get i q = (case map_of (mq_jobs q) i of None \<Rightarrow> Err ErrJobNotFound | Some r \<Rightarrow> Ok r)"

text \<open>The loop of \<open>GetByStatus\<close> over the references of the table, with what it has collected.\<close>

fun by_status_loop :: "job_heap \<Rightarrow> string \<Rightarrow> int \<Rightarrow> jref list \<Rightarrow> jref list \<Rightarrow> jref list" where
  "by_status_loop h st limit acc [] = acc"
| "by_status_loop h st limit acc (r # rs) =
     (if jb_status (h r) = st then
        if limit > 0 \<and> int (length (acc @ [r])) \<ge> limit then acc @ [r]
        else by_status_loop h st limit (acc @ [r]) rs
      else by_status_loop h st limit acc rs)"

definition mq_by_status :: "string list \<Rightarrow> job_heap \<Rightarrow> string \<Rightarrow> int \<Rightarrow> mqueue \<Rightarrow> jref list" where
  "mq_by_status ks h st limit q = by_status_loop h st limit [] (List.map_filter (map_of (mq_jobs q)) ks)"

definition mq_update :: "job_heap \<Rightarrow> jref option \<Rightarrow> mqueue \<Rightarrow> mqueue \<times> (job_error, unit) outcome" where
  "mq_update h ro q =
     (case ro of
        None \<Rightarrow> (q, Err ErrInvalidJob)
      | Some r \<Rightarrow>
          if map_of (mq_jobs q) (jb_id (h r)) = None then (q, Err ErrJobNotFound)
          else (q\<lparr>mq_jobs := AList.update (jb_id (h r)) r (mq_jobs q)\<rparr>, Ok ()))"

fun remove_pending :: "job_heap \<Rightarrow> string \<Rightarrow> jref list \<Rightarrow> jref list" where
  "remove_pending h i [] = []"
| "remove_pending h i (r # rs) = (if jb_id (h r) = i then rs else r # remove_pending h i rs)"

definition mq_delete :: "job_heap \<Rightarrow> string \<Rightarrow> mqueue \<Rightarrow> mqueue \<times> (job_error, unit) outcome" where
  "mq_delete h i q =
     (if map_of (mq_jobs q) i = None then (q, Err ErrJobNotFound)
      else (q\<lparr>mq_jobs := AList.delete i (mq_jobs q), mq_pending := remove_pending h i (mq_pending q)\<rparr>, Ok ()))"

definition mq_clear :: "mqueue \<Rightarrow> mqueue" where
  "mq_clear q = q\<lparr>mq_jobs := [], mq_pending := []\<rparr>"

record queue_stats =
  qs_total :: int
  qs_pending :: int
  qs_running :: int
  qs_completed :: int
  qs_failed :: int
  qs_cancelled :: int
  qs_average :: duration
  qs_oldest :: "jref option"

definition count_status :: "string \<Rightarrow> queue_stats \<Rightarrow> queue_stats" where
  "count_status st s =
     (if st = ''pending'' then s\<lparr>qs_pending := qs_pending s + 1\<rparr>
      else if st = ''running'' then s\<lparr>qs_running := qs_running s + 1\<rparr>
      else if st = ''completed'' then s\<lparr>qs_completed := qs_completed s + 1\<rparr>
      else if st = ''failed'' then s\<lparr>qs_failed := qs_failed s + 1\<rparr>
      else if st = ''cancelled'' then s\<lparr>qs_cancelled := qs_cancelled s + 1\<rparr>
      else s)"

fun stats_loop :: "job_heap \<Rightarrow> jref list \<Rightarrow> gotime \<Rightarrow> queue_stats \<Rightarrow> gotime \<times> queue_stats" where
  "stats_loop h [] oldest s = (oldest, s)"
| "stats_loop h (r # rs) oldest s =
     (let s1 = count_status (jb_status (h r)) s
      in if oldest = zero_time \<or> jb_created (h r) < oldest
         then stats_loop h rs (jb_created (h r)) (s1\<lparr>qs_oldest := Some r\<rparr>)
         else stats_loop h rs oldest s1)"

definition mq_stats :: "string list \<Rightarrow> gotime \<Rightarrow> job_heap \<Rightarrow> mqueue \<Rightarrow> queue_stats" where
  "mq_stats ks now h q =
     (let n = int (length (mq_jobs q));
          (oldest, s) = stats_loop h (List.map_filter (map_of (mq_jobs q)) ks) zero_time
            \<lparr>qs_total = n, qs_pending = 0, qs_running = 0, qs_completed = 0, qs_failed = 0, qs_cancelled = 0,
             qs_average = 0, qs_oldest = None\<rparr>
      in if n > 0 then s\<lparr>qs_average := max (- max_i64 - 1) (min max_i64 (now - oldest)) sdiv n\<rparr> else s)"

subsection \<open>The processor (queue.go)\<close>

text \<open>A handler gets the outside, the instant its context ends, and its job; a panic ends the process.\<close>

type_synonym 'w job_handler = "'w \<Rightarrow> gotime \<Rightarrow> job \<Rightarrow> 'w \<times> job \<times> (string, unit) outcome"

record processor_stats =
  ps_active :: int
  ps_total :: int
  ps_processed :: int
  ps_succeeded :: int
  ps_failed :: int
  ps_average :: duration

record job_result =
  jr_id :: string
  jr_status :: string
  jr_result :: job_data
  jr_error :: string
  jr_duration :: duration
  jr_retries :: int
  jr_at :: gotime

text \<open>
  The processor with the heap, the outside and the queue it was built on. \<open>pr_results\<close> is the buffer of
  the channel of results.
\<close>

record 'w processor =
  pr_heap :: job_heap
  pr_world :: 'w
  pr_queue :: mqueue
  pr_handlers :: "string \<rightharpoonup> 'w job_handler"
  pr_running :: bool
  pr_stats :: processor_stats
  pr_results :: "job_result list"

definition new_memory_processor :: "job_heap \<Rightarrow> 'w \<Rightarrow> mqueue \<Rightarrow> 'w processor" where
  "new_memory_processor h w q =
     \<lparr>pr_heap = h, pr_world = w, pr_queue = q, pr_handlers = Map.empty, pr_running = False,
      pr_stats = \<lparr>ps_active = 0, ps_total = 0, ps_processed = 0, ps_succeeded = 0, ps_failed = 0, ps_average = 0\<rparr>,
      pr_results = []\<rparr>"

definition register_job_handler :: "string \<Rightarrow> 'w job_handler \<Rightarrow> 'w processor \<Rightarrow> 'w processor" where
  "register_job_handler typ f p = p\<lparr>pr_handlers := (pr_handlers p)(typ \<mapsto> f)\<rparr>"

definition start_processor :: "int \<Rightarrow> 'w processor \<Rightarrow> 'w processor \<times> (job_error, unit) outcome" where
  "start_processor n p =
     (if pr_running p then (p, Err (ErrText ''processor already running''))
      else (p\<lparr>pr_running := True, pr_stats := (pr_stats p)\<lparr>ps_total := n\<rparr>\<rparr>, Ok ()))"

definition stop_processor :: "'w processor \<Rightarrow> 'w processor \<times> (job_error, unit) outcome" where
  "stop_processor p =
     (if \<not> pr_running p then (p, Err (ErrText ''processor not running''))
      else (p\<lparr>pr_running := False\<rparr>, Ok ()))"

text \<open>\<open>mp.queue.Update(mp.ctx, job)\<close>, whose error is not looked at.\<close>

definition save_job :: "jref \<Rightarrow> 'w processor \<Rightarrow> 'w processor" where
  "save_job r p = p\<lparr>pr_queue := fst (mq_update (pr_heap p) (Some r) (pr_queue p))\<rparr>"

definition set_job :: "jref \<Rightarrow> job \<Rightarrow> 'w processor \<Rightarrow> 'w processor" where
  "set_job r j p = save_job r (p\<lparr>pr_heap := (pr_heap p)(r := j)\<rparr>)"

definition resubmit :: "priority_sort \<Rightarrow> gotime \<Rightarrow> jref \<Rightarrow> 'w processor \<Rightarrow> 'w processor" where
  "resubmit srt now r p =
     (case mq_submit srt now (Some r) (pr_heap p) (pr_queue p) of
        (h, q, _) \<Rightarrow> p\<lparr>pr_heap := h, pr_queue := q\<rparr>)"

definition bump_stats :: "(processor_stats \<Rightarrow> processor_stats) \<Rightarrow> 'w processor \<Rightarrow> 'w processor" where
  "bump_stats g p = p\<lparr>pr_stats := g (pr_stats p)\<rparr>"

definition no_handler_for :: "gotime \<Rightarrow> jref \<Rightarrow> 'w processor \<Rightarrow> 'w processor" where
  "no_handler_for now r p =
     (let j = pr_heap p r
      in bump_stats (\<lambda>s. s\<lparr>ps_failed := ps_failed s + 1, ps_active := ps_active s - 1\<rparr>)
           (set_job r (j\<lparr>jb_status := ''failed'', jb_error := ''no handler for job type: '' @ jb_type j,
                         jb_completed := now\<rparr>) p))"

definition job_attempt_failed :: "priority_sort \<Rightarrow> gotime \<Rightarrow> string \<Rightarrow> jref \<Rightarrow> 'w processor \<Rightarrow> 'w processor" where
  "job_attempt_failed srt now e r p =
     (let j = pr_heap p r; n = i64 (jb_retries j + 1)
      in if n < jb_max_retries j
         then resubmit srt now r (set_job r (j\<lparr>jb_retries := n, jb_status := ''retrying''\<rparr>) p)
         else bump_stats (\<lambda>s. s\<lparr>ps_failed := ps_failed s + 1\<rparr>)
                (set_job r (j\<lparr>jb_retries := n, jb_status := ''failed'', jb_error := e, jb_completed := now\<rparr>) p))"

definition job_attempt_succeeded :: "gotime \<Rightarrow> jref \<Rightarrow> 'w processor \<Rightarrow> 'w processor" where
  "job_attempt_succeeded now r p =
     bump_stats (\<lambda>s. s\<lparr>ps_succeeded := ps_succeeded s + 1\<rparr>)
       (set_job r ((pr_heap p r)\<lparr>jb_status := ''completed'', jb_completed := now\<rparr>) p)"

definition attempt_counted :: "duration \<Rightarrow> processor_stats \<Rightarrow> processor_stats" where
  "attempt_counted d s =
     (let n = ps_processed s + 1
      in s\<lparr>ps_processed := n, ps_active := ps_active s - 1,
           ps_average := (if n > 0 then i64 (ps_average s * (n - 1) + d) sdiv n else d)\<rparr>)"

definition send_result :: "gotime \<Rightarrow> duration \<Rightarrow> jref \<Rightarrow> 'w processor \<Rightarrow> 'w processor" where
  "send_result now d r p =
     (let j = pr_heap p r
      in if length (pr_results p) < 100
         then p\<lparr>pr_results := pr_results p @ [\<lparr>jr_id = jb_id j, jr_status = jb_status j, jr_result = jb_result j,
                  jr_error = jb_error j, jr_duration = d, jr_retries = jb_retries j, jr_at = now\<rparr>]\<rparr>
         else p)"

definition process_job :: "priority_sort \<Rightarrow> gotime \<Rightarrow> gotime \<Rightarrow> jref \<Rightarrow> 'w processor \<Rightarrow> 'w processor option" where
  "process_job srt t0 t1 r p =
     (let p1 = set_job r ((pr_heap p r)\<lparr>jb_status := ''running'', jb_started := t0\<rparr>)
                 (bump_stats (\<lambda>s. s\<lparr>ps_active := ps_active s + 1\<rparr>) p);
          j = pr_heap p1 r
      in case pr_handlers p1 (jb_type j) of
           None \<Rightarrow> Some (no_handler_for t1 r p1)
         | Some f \<Rightarrow>
             (case f (pr_world p1) (t0 + jb_timeout j) j of
                (w, j', res) \<Rightarrow>
                  (let p2 = p1\<lparr>pr_world := w, pr_heap := (pr_heap p1)(r := j')\<rparr>;
                       finish = (\<lambda>p3. send_result t1 (t1 - t0) r (bump_stats (attempt_counted (t1 - t0)) p3))
                   in case res of
                        Ok _ \<Rightarrow> Some (finish (job_attempt_succeeded t1 r p2))
                      | Err e \<Rightarrow> Some (finish (job_attempt_failed srt t1 e r p2))
                      | Panic \<Rightarrow> None)))"

text \<open>One round of a worker: it leaves when the context is done, and sleeps when \<open>Dequeue\<close> fails.\<close>

definition worker_turn :: "priority_sort \<Rightarrow> gotime \<times> gotime \<times> gotime \<Rightarrow> 'w processor \<Rightarrow> 'w processor option" where
  "worker_turn srt ts p =
     (case ts of
        (t, t0, t1) \<Rightarrow>
          if \<not> pr_running p then Some p
          else
            (case mq_dequeue t (pr_heap p) (pr_queue p) of
               (h, q, res) \<Rightarrow>
                 (let p1 = p\<lparr>pr_heap := h, pr_queue := q\<rparr>
                  in case res of Ok r \<Rightarrow> process_job srt t0 t1 r p1 | _ \<Rightarrow> Some p1)))"

fun worker_turns :: "priority_sort \<Rightarrow> (gotime \<times> gotime \<times> gotime) list \<Rightarrow> 'w processor \<Rightarrow> 'w processor option" where
  "worker_turns srt [] p = Some p"
| "worker_turns srt (t # ts) p =
     (case worker_turn srt t p of None \<Rightarrow> None | Some p' \<Rightarrow> worker_turns srt ts p')"

text \<open>\<open>Process\<close> runs the handler of a job, and nothing else.\<close>

definition process_directly :: "gotime \<Rightarrow> jref \<Rightarrow> 'w processor \<Rightarrow> 'w processor \<times> (string, unit) outcome" where
  "process_directly ends r p =
     (case pr_handlers p (jb_type (pr_heap p r)) of
        None \<Rightarrow> (p, Err (''no handler for job type: '' @ jb_type (pr_heap p r)))
      | Some f \<Rightarrow>
          (case f (pr_world p) ends (pr_heap p r) of
             (w, j, res) \<Rightarrow> (p\<lparr>pr_world := w, pr_heap := (pr_heap p)(r := j)\<rparr>, res)))"

subsection \<open>What one step changes\<close>

abbreviation "pending_of p \<equiv> mq_pending (pr_queue p)"
abbreviation "job_keys p \<equiv> map fst (mq_jobs (pr_queue p))"

definition has_room :: "'w processor \<Rightarrow> bool" where
  "has_room p \<longleftrightarrow> int (length (mq_jobs (pr_queue p))) < mq_max (pr_queue p)"

definition frame :: "jref \<Rightarrow> 'w processor \<Rightarrow> 'w processor \<Rightarrow> bool" where
  "frame r p p' \<longleftrightarrow> pr_handlers p' = pr_handlers p \<and> pr_running p' = pr_running p \<and> job_keys p' = job_keys p
     \<and> mq_max (pr_queue p') = mq_max (pr_queue p) \<and> (\<forall>x. x \<noteq> r \<longrightarrow> pr_heap p' x = pr_heap p x)"

lemma frame_refl [simp]: "frame r p p"
  by (simp add: frame_def)

lemma frame_trans: "frame r p q \<Longrightarrow> frame r q s \<Longrightarrow> frame r p s"
  by (auto simp: frame_def)

lemma frame_room: "frame r p p' \<Longrightarrow> has_room p' = has_room p"
  unfolding frame_def has_room_def by (metis length_map)

lemma set_job_simps [simp]:
  "pr_heap (set_job r j p) = (pr_heap p)(r := j)"
  "pr_world (set_job r j p) = pr_world p"
  "pr_handlers (set_job r j p) = pr_handlers p"
  "pr_stats (set_job r j p) = pr_stats p"
  "pr_results (set_job r j p) = pr_results p"
  "pending_of (set_job r j p) = pending_of p"
  by (simp_all add: set_job_def save_job_def mq_update_def)

lemma set_job_frame: "frame r p (set_job r j p)"
  by (auto simp: set_job_def save_job_def mq_update_def frame_def update_keys map_of_eq_None_iff)

lemma bump_stats_simps [simp]:
  "pr_heap (bump_stats g p) = pr_heap p" "pr_world (bump_stats g p) = pr_world p"
  "pr_queue (bump_stats g p) = pr_queue p" "pr_handlers (bump_stats g p) = pr_handlers p"
  "pr_running (bump_stats g p) = pr_running p" "frame r (bump_stats g p) q = frame r p q"
  "frame r q (bump_stats g p) = frame r q p"
  by (simp_all add: bump_stats_def frame_def)

lemma send_result_simps [simp]:
  "pr_heap (send_result now d r p) = pr_heap p" "pr_queue (send_result now d r p) = pr_queue p"
  "pr_world (send_result now d r p) = pr_world p" "frame x q (send_result now d r p) = frame x q p"
  by (simp_all add: send_result_def Let_def frame_def)

lemma has_room_simps [simp]:
  "has_room (set_job r j p) = has_room p" "has_room (bump_stats g p) = has_room p"
  "has_room (p\<lparr>pr_heap := h\<rparr>) = has_room p" "has_room (p\<lparr>pr_world := w\<rparr>) = has_room p"
  using frame_room [OF set_job_frame] by (simp_all add: has_room_def bump_stats_def)

text \<open>A job that may be submitted, with counters that cannot wrap, and the number of its attempts.\<close>

definition good_job :: "job \<Rightarrow> bool" where
  "good_job j \<longleftrightarrow> jb_type j \<noteq> [] \<and> 0 \<le> jb_max_retries j \<and> jb_max_retries j \<le> max_i64 \<and> 0 \<le> jb_timeout j
     \<and> 0 \<le> jb_retries j \<and> jb_retries j < max_i64"

definition attempts_left :: "job \<Rightarrow> nat" where
  "attempts_left j = max 1 (nat (jb_max_retries j - jb_retries j))"

text \<open>A handler that returns and leaves the identity and the retry budget of its job alone.\<close>

definition behaves :: "'w job_handler \<Rightarrow> bool" where
  "behaves f \<longleftrightarrow> (\<forall>w d j. case f w d j of (w', j', res) \<Rightarrow>
     jb_id j' = jb_id j \<and> jb_type j' = jb_type j \<and> jb_retries j' = jb_retries j
     \<and> jb_max_retries j' = jb_max_retries j \<and> jb_timeout j' = jb_timeout j \<and> res \<noteq> Panic)"

lemma behavesD:
  assumes "behaves f" "f w d j = (w', j', res)"
  shows "jb_id j' = jb_id j \<and> jb_type j' = jb_type j \<and> jb_retries j' = jb_retries j
    \<and> jb_max_retries j' = jb_max_retries j \<and> jb_timeout j' = jb_timeout j \<and> res \<noteq> Panic"
proof -
  have "case f w d j of (w', j', res) \<Rightarrow>
     jb_id j' = jb_id j \<and> jb_type j' = jb_type j \<and> jb_retries j' = jb_retries j
     \<and> jb_max_retries j' = jb_max_retries j \<and> jb_timeout j' = jb_timeout j \<and> res \<noteq> Panic"
    by (rule assms(1) [unfolded behaves_def, rule_format])
  then show ?thesis using assms(2) by simp
qed

definition settled :: "'w processor \<Rightarrow> jref \<Rightarrow> bool" where
  "settled p r \<longleftrightarrow> (let j = pr_heap p r in
     jb_status j = ''completed'' \<or> jb_status j = ''cancelled'' \<or>
     jb_status j = ''failed'' \<and> (pr_handlers p (jb_type j) = None \<or> jb_max_retries j \<le> jb_retries j))"

lemma resubmit_ok:
  assumes "sorts_falling srt" "good_job (pr_heap p r)" "jb_id (pr_heap p r) \<in> set (job_keys p)" "has_room p"
  shows "frame r p (resubmit srt now r p)"
    "pr_heap (resubmit srt now r p) r = (pr_heap p r)\<lparr>jb_created := now, jb_status := ''pending''\<rparr>"
    "mset (pending_of (resubmit srt now r p)) = add_mset r (mset (pending_of p))"
  using assms
  by (auto simp: resubmit_def mq_submit_def job_validator_def good_job_def has_room_def frame_def update_keys
      sorts_falling_def Let_def)

lemma resubmit_full:
  assumes "\<not> has_room p"
  shows "resubmit srt now r p = p"
  using assms
  by (auto simp: resubmit_def mq_submit_def job_validator_def has_room_def split: outcome.splits)

text \<open>What an attempt comes to, when the queue has room.\<close>

definition attempt_result :: "jref \<Rightarrow> 'w processor \<Rightarrow> 'w processor \<Rightarrow> bool" where
  "attempt_result r p p' \<longleftrightarrow> frame r p p' \<and>
     (settled p' r \<and> pending_of p' = pending_of p \<or>
      good_job (pr_heap p' r) \<and> jb_id (pr_heap p' r) = jb_id (pr_heap p r)
      \<and> Suc (attempts_left (pr_heap p' r)) = attempts_left (pr_heap p r)
      \<and> mset (pending_of p') = add_mset r (mset (pending_of p)))"

lemma attempt_succeeded_result: "attempt_result r p (job_attempt_succeeded t1 r p)"
  by (simp add: attempt_result_def job_attempt_succeeded_def set_job_frame settled_def)

lemma no_handler_result:
  "pr_handlers p (jb_type (pr_heap p r)) = None \<Longrightarrow> attempt_result r p (no_handler_for t1 r p)"
  by (simp add: attempt_result_def no_handler_for_def set_job_frame settled_def Let_def)

lemma attempt_failed_result:
  assumes "sorts_falling srt" "good_job (pr_heap p r)" "jb_id (pr_heap p r) \<in> set (job_keys p)" "has_room p"
  shows "attempt_result r p (job_attempt_failed srt t1 e r p)"
proof -
  have n: "i64 (jb_retries (pr_heap p r) + 1) = jb_retries (pr_heap p r) + 1"
    using assms(2) by (intro i64_id) (auto simp: good_job_def)
  show ?thesis
  proof (cases "jb_retries (pr_heap p r) + 1 < jb_max_retries (pr_heap p r)")
    case True
    define j where "j = (pr_heap p r)\<lparr>jb_retries := jb_retries (pr_heap p r) + 1, jb_status := ''retrying''\<rparr>"
    define q where "q = set_job r j p"
    have q: "frame r p q" "pr_heap q r = j" "pending_of q = pending_of p"
      by (simp_all add: q_def set_job_frame)
    have good: "good_job j" using assms(2) True by (simp add: good_job_def j_def)
    have room: "has_room q" using frame_room [OF q(1)] assms(4) by simp
    have known: "jb_id j \<in> set (job_keys q)"
      using q(1) assms(3) unfolding frame_def by (simp add: j_def)
    note re = resubmit_ok [OF assms(1), of q r t1, unfolded q(2), OF good known room]
    have "attempts_left (j\<lparr>jb_created := t1, jb_status := ''pending''\<rparr>) = nat (jb_max_retries j - jb_retries j)"
      using True by (simp add: attempts_left_def j_def)
    moreover have "Suc (nat (jb_max_retries j - jb_retries j)) = attempts_left (pr_heap p r)"
      using True by (simp add: attempts_left_def j_def)
    moreover have "frame r p (resubmit srt t1 r q)" using frame_trans q(1) re(1) by blast
    moreover have "job_attempt_failed srt t1 e r p = resubmit srt t1 r q"
      using True by (simp add: job_attempt_failed_def n Let_def q_def j_def)
    moreover have "good_job (j\<lparr>jb_created := t1, jb_status := ''pending''\<rparr>)"
      using good by (simp add: good_job_def)
    ultimately show ?thesis
      using re q by (simp add: attempt_result_def j_def)
  next
    case False
    then show ?thesis
      by (simp add: attempt_result_def job_attempt_failed_def Let_def n set_job_frame settled_def)
  qed
qed

text \<open>The first part of an attempt and its handler change neither what is checked nor the frame.\<close>

lemma attempt_result_trans:
  assumes "attempt_result r q p'" "frame r p q" "pending_of q = pending_of p"
    "jb_id (pr_heap q r) = jb_id (pr_heap p r)" "attempts_left (pr_heap q r) = attempts_left (pr_heap p r)"
  shows "attempt_result r p p'"
  using frame_trans [OF assms(2)] assms(1) unfolding attempt_result_def assms(3-5) by blast

lemma attempt_result_finish [simp]:
  "attempt_result r p (send_result t d r (bump_stats g p')) = attempt_result r p p'"
  by (simp add: attempt_result_def settled_def Let_def send_result_def bump_stats_def frame_def)

lemma process_job_result:
  fixes p :: "'w processor"
  assumes "sorts_falling srt" "\<forall>f \<in> ran (pr_handlers p). behaves f"
    and good: "good_job (pr_heap p r)" and known: "jb_id (pr_heap p r) \<in> set (job_keys p)" and room: "has_room p"
  shows "\<exists>p'. process_job srt t0 t1 r p = Some p' \<and> attempt_result r p p'"
proof -
  define p1 where "p1 = set_job r ((pr_heap p r)\<lparr>jb_status := ''running'', jb_started := t0\<rparr>)
                 (bump_stats (\<lambda>s. s\<lparr>ps_active := ps_active s + 1\<rparr>) p)"
  have f1: "frame r p p1" unfolding p1_def
    by (rule set_job_frame [of _ "bump_stats _ p", unfolded bump_stats_simps(6)])
  have p1: "pending_of p1 = pending_of p" "pr_handlers p1 = pr_handlers p"
    "jb_id (pr_heap p1 r) = jb_id (pr_heap p r)" "good_job (pr_heap p1 r)"
    "attempts_left (pr_heap p1 r) = attempts_left (pr_heap p r)"
    using good by (simp_all add: p1_def good_job_def attempts_left_def)
  show ?thesis
  proof (cases "pr_handlers p (jb_type (pr_heap p1 r))")
    case None
    then have "process_job srt t0 t1 r p = Some (no_handler_for t1 r p1)"
      by (simp add: process_job_def Let_def p1_def)
    moreover have "attempt_result r p1 (no_handler_for t1 r p1)"
      using None p1 by (simp add: no_handler_result)
    ultimately show ?thesis using attempt_result_trans f1 p1 by blast
  next
    case (Some f)
    obtain w j res where run: "f (pr_world p1) (t0 + jb_timeout (pr_heap p1 r)) (pr_heap p1 r) = (w, j, res)"
      by (metis prod_cases3)
    have "behaves f" using assms(2) Some by (auto simp: ran_def)
    then have j: "jb_id j = jb_id (pr_heap p1 r)" "jb_type j = jb_type (pr_heap p1 r)"
      "jb_retries j = jb_retries (pr_heap p1 r)" "jb_max_retries j = jb_max_retries (pr_heap p1 r)"
      "jb_timeout j = jb_timeout (pr_heap p1 r)" "res \<noteq> Panic"
      using behavesD [of f, OF _ run] by simp_all
    define p2 where "p2 = p1\<lparr>pr_world := w, pr_heap := (pr_heap p1)(r := j)\<rparr>"
    have f2: "frame r p1 p2" by (simp add: p2_def frame_def)
    have p2: "pending_of p2 = pending_of p" "good_job (pr_heap p2 r)"
      "jb_id (pr_heap p2 r) = jb_id (pr_heap p r)" "attempts_left (pr_heap p2 r) = attempts_left (pr_heap p r)"
      using p1 j by (simp_all add: p2_def good_job_def attempts_left_def)
    have f: "frame r p p2" using frame_trans f1 f2 by blast
    have k: "jb_id (pr_heap p2 r) \<in> set (job_keys p2)"
      using known f p2(3) by (simp add: frame_def)
    have rm: "has_room p2" using frame_room [OF f] room by simp
    define finish where "finish q = send_result t1 (t1 - t0) r (bump_stats (attempt_counted (t1 - t0)) q)" for q :: "'w processor"
    have "process_job srt t0 t1 r p = (case res of Ok _ \<Rightarrow> Some (finish (job_attempt_succeeded t1 r p2))
        | Err e \<Rightarrow> Some (finish (job_attempt_failed srt t1 e r p2)) | Panic \<Rightarrow> None)"
      using Some run unfolding process_job_def Let_def p1_def [symmetric]
      by (cases res) (simp_all add: p1(2) p2_def finish_def)
    moreover have "attempt_result r p2 (finish (job_attempt_succeeded t1 r p2))"
      by (simp add: finish_def attempt_succeeded_result)
    moreover have "attempt_result r p2 (finish (job_attempt_failed srt t1 e r p2))" for e
      using attempt_failed_result [OF assms(1) p2(2) k rm] by (simp add: finish_def)
    ultimately show ?thesis
      using attempt_result_trans [OF _ f p2(1,3,4)] j(6) by (cases res) auto
  qed
qed

subsection \<open>The workers empty the queue\<close>

definition drainable :: "'w processor \<Rightarrow> bool" where
  "drainable p \<longleftrightarrow> pr_running p \<and> has_room p \<and> distinct (pending_of p)
     \<and> (\<forall>f \<in> ran (pr_handlers p). behaves f)
     \<and> (\<forall>r \<in> set (pending_of p). good_job (pr_heap p r) \<and> jb_id (pr_heap p r) \<in> set (job_keys p))"

definition work_left :: "'w processor \<Rightarrow> nat" where
  "work_left p = sum_list (map (\<lambda>r. attempts_left (pr_heap p r)) (pending_of p))"

lemma attempts_left_pos: "0 < attempts_left j"
  by (simp add: attempts_left_def)

lemma work_left_mset: "work_left p = (\<Sum>r \<in># mset (pending_of p). attempts_left (pr_heap p r))"
  by (simp add: work_left_def sum_mset_sum_list [symmetric])

lemma settled_frame: "frame r p p' \<Longrightarrow> x \<noteq> r \<Longrightarrow> settled p' x = settled p x"
  by (simp add: frame_def settled_def)

text \<open>
  One round on a queue that is not empty: less work is left, the job at the head is settled or back
  in line, and the others are untouched.
\<close>

lemma drain_round:
  assumes "sorts_falling srt" "drainable p" "pending_of p = r # rs"
  shows "\<exists>p'. worker_turn srt ts p = Some p' \<and> frame r p p' \<and> drainable p' \<and> work_left p' < work_left p
    \<and> (settled p' r \<and> pending_of p' = rs \<or> mset (pending_of p') = mset (pending_of p))"
proof -
  obtain t t0 t1 where ts: "ts = (t, t0, t1)" by (cases ts)
  have d: "pr_running p" "has_room p" "distinct (r # rs)" "\<forall>f \<in> ran (pr_handlers p). behaves f"
    "good_job (pr_heap p r)" "jb_id (pr_heap p r) \<in> set (job_keys p)"
    "\<forall>x \<in> set rs. good_job (pr_heap p x) \<and> jb_id (pr_heap p x) \<in> set (job_keys p)"
    using assms(2,3) by (auto simp: drainable_def)
  define p1 where "p1 = p\<lparr>pr_queue := (pr_queue p)\<lparr>mq_pending := rs\<rparr>\<rparr>"
  have f1: "frame r p p1" by (simp add: p1_def frame_def)
  have p1: "pr_heap p1 = pr_heap p" "pr_handlers p1 = pr_handlers p" "pending_of p1 = rs"
    "job_keys p1 = job_keys p" "has_room p1"
    using d(2) by (simp_all add: p1_def has_room_def)
  have rest: "drainable p'" if "frame r p p'" "set (pending_of p') \<subseteq> insert r (set rs)" "distinct (pending_of p')"
      "r \<in> set (pending_of p') \<Longrightarrow> good_job (pr_heap p' r) \<and> jb_id (pr_heap p' r) = jb_id (pr_heap p r)" for p'
  proof -
    have "good_job (pr_heap p' x) \<and> jb_id (pr_heap p' x) \<in> set (job_keys p')" if x: "x \<in> set (pending_of p')" for x
    proof (cases "x = r")
      case True
      then show ?thesis using \<open>frame r p p'\<close> that x d(6) by (simp add: frame_def \<open>r \<in> set (pending_of p') \<Longrightarrow> _\<close>)
    next
      case False
      then show ?thesis
        using \<open>frame r p p'\<close> x d(7) \<open>set (pending_of p') \<subseteq> _\<close> by (auto simp: frame_def)
    qed
    moreover have "has_room p'" using frame_room [OF \<open>frame r p p'\<close>] d(2) by simp
    ultimately show ?thesis using that(1,3) d(1,4) by (simp add: drainable_def frame_def del: set_map)
  qed
  have same: "(\<Sum>x \<in># mset rs. attempts_left (pr_heap p' x)) = (\<Sum>x \<in># mset rs. attempts_left (pr_heap p x))"
    if "frame r p p'" for p'
    using that d(3) by (intro arg_cong [of _ _ sum_mset] image_mset_cong) (auto simp: frame_def)
  have left: "work_left p = attempts_left (pr_heap p r) + (\<Sum>x \<in># mset rs. attempts_left (pr_heap p x))"
    using assms(3) by (simp add: work_left_mset)
  show ?thesis
  proof (cases "job_expired t (pr_heap p r)")
    case True
    define p' where "p' = p1\<lparr>pr_heap := (pr_heap p)(r := (pr_heap p r)\<lparr>jb_status := ''cancelled''\<rparr>)\<rparr>"
    have "worker_turn srt ts p = Some p'"
      using True d(1) assms(3) by (simp add: worker_turn_def ts mq_dequeue_def Let_def p'_def p1_def)
    moreover have f: "frame r p p'" by (simp add: p'_def p1_def frame_def)
    moreover have pd: "pending_of p' = rs" by (simp add: p'_def p1_def)
    moreover have "settled p' r" by (simp add: p'_def settled_def)
    moreover have "drainable p'" using f pd d(3) by (intro rest) auto
    moreover have "work_left p' < work_left p"
      using same [OF f] left pd attempts_left_pos [of "pr_heap p r"] by (simp add: work_left_mset)
    ultimately show ?thesis by blast
  next
    case False
    have "\<exists>p'. process_job srt t0 t1 r p1 = Some p' \<and> attempt_result r p1 p'"
      using d p1 by (intro process_job_result [OF assms(1)]) simp_all
    then obtain p' where p': "process_job srt t0 t1 r p1 = Some p'" "attempt_result r p1 p'" by blast
    have turn: "worker_turn srt ts p = Some p'"
      using False d(1) assms(3) p'(1) by (simp add: worker_turn_def ts mq_dequeue_def Let_def p1_def)
    have f: "frame r p p'" using frame_trans [OF f1] p'(2) by (simp add: attempt_result_def)
    consider "settled p' r" "pending_of p' = rs"
      | "good_job (pr_heap p' r)" "jb_id (pr_heap p' r) = jb_id (pr_heap p r)"
        "Suc (attempts_left (pr_heap p' r)) = attempts_left (pr_heap p r)" "mset (pending_of p') = add_mset r (mset rs)"
      using p'(2) p1 by (auto simp: attempt_result_def)
    then show ?thesis
    proof cases
      case 1
      have "drainable p'" using f 1(2) d(3) by (intro rest) auto
      moreover have "work_left p' < work_left p"
        using same [OF f] left 1(2) attempts_left_pos [of "pr_heap p r"] by (simp add: work_left_mset)
      ultimately show ?thesis using turn f 1 by blast
    next
      case 2
      have m: "mset (pending_of p') = mset (r # rs)" using 2(4) by simp
      have "drainable p'"
        using f 2(1,2) mset_eq_setD [OF m] mset_eq_imp_distinct_iff [OF m] d(3) by (intro rest) auto
      moreover have "work_left p' < work_left p"
        using same [OF f] left 2(3,4) by (simp add: work_left_mset)
      ultimately show ?thesis using turn f m assms(3) by metis
    qed
  qed
qed

lemma idle_round: "pending_of p = [] \<Longrightarrow> worker_turn srt ts p = Some p"
  by (cases ts) (simp add: worker_turn_def mq_dequeue_def)

lemma idle_rounds: "pending_of p = [] \<Longrightarrow> worker_turns srt ts p = Some p"
  by (induction ts) (simp_all add: idle_round)


text \<open>A sort as the hypotheses ask for it: by falling priority, first come first served.\<close>

definition falling_sort :: priority_sort where
  "falling_sort f xs = sort_key (\<lambda>r. - f r) xs"

lemma falling_sort_ok: "sorts_falling falling_sort"
  unfolding sorts_falling_def
proof (intro allI conjI)
  fix f :: "jref \<Rightarrow> int" and xs
  have "sorted (map (\<lambda>r. - f r) (falling_sort f xs))" by (simp add: falling_sort_def)
  then show "sorted_wrt (\<lambda>a b. f b \<le> f a) (falling_sort f xs)" by (simp add: sorted_map)
qed (simp add: falling_sort_def)

definition sample_job :: "string \<Rightarrow> int \<Rightarrow> job" where
  "sample_job i p = create_job_with_priority default_job_config i 1 ''report'' Map.empty p"

definition flaky_handler :: "nat job_handler" where
  "flaky_handler w d j = (Suc w, j, if jb_retries j < 1 then Err ''again'' else Ok ())"

definition sample_processor :: "nat processor" where
  "sample_processor = (case mq_submit falling_sort 1 (Some 0) (\<lambda>_. sample_job ''a'' 5) (new_memory_queue 3) of
     (h, q, _) \<Rightarrow> (new_memory_processor h 0 q)\<lparr>pr_running := True, pr_handlers := [''report'' \<mapsto> flaky_handler]\<rparr>)"

lemma sample_drainable: "drainable sample_processor" "work_left sample_processor \<le> 3"
  by (simp_all add: sample_processor_def drainable_def work_left_def attempts_left_def mq_submit_def
      job_validator_def sample_job_def create_job_def create_job_with_priority_def default_job_config_def
      new_memory_queue_def new_memory_processor_def has_room_def falling_sort_def good_job_def Let_def
      behaves_def flaky_handler_def)


subsection \<open>A retry needs room\<close>

text \<open>
  Re-queueing goes through \<open>Submit\<close>, which refuses when the table is full, and the table is never
  shrunk by a worker: the job stays \<open>retrying\<close> and is in no queue.
\<close>

text \<open>A retry is lost when the table is full: a job that fails with retries left is not put back
  behind the pending jobs, and its status stays retrying.\<close>

theorem retry_lost_when_full:
  assumes "pr_running p" "\<not> has_room p" "pending_of p = r # rs" "\<not> job_expired t (pr_heap p r)"
    "pr_handlers p (jb_type (pr_heap p r)) = Some f" "behaves f"
    "\<And>w d j. \<exists>w' j' e. f w d j = (w', j', Err e)"
    "i64 (jb_retries (pr_heap p r) + 1) < jb_max_retries (pr_heap p r)"
  shows "\<exists>p'. worker_turn srt (t, t0, t1) p = Some p' \<and> pending_of p' = rs \<and> jb_status (pr_heap p' r) = ''retrying''"
proof -
  define p0 where "p0 = p\<lparr>pr_queue := (pr_queue p)\<lparr>mq_pending := rs\<rparr>\<rparr>"
  have turn: "worker_turn srt (t, t0, t1) p = process_job srt t0 t1 r p0"
    using assms(1,3,4) by (simp add: worker_turn_def mq_dequeue_def Let_def p0_def)
  define p1 where "p1 = set_job r ((pr_heap p0 r)\<lparr>jb_status := ''running'', jb_started := t0\<rparr>)
     (bump_stats (\<lambda>s. s\<lparr>ps_active := ps_active s + 1\<rparr>) p0)"
  have p1: "pending_of p1 = rs" "pr_handlers p1 = pr_handlers p" "jb_type (pr_heap p1 r) = jb_type (pr_heap p r)"
    "jb_retries (pr_heap p1 r) = jb_retries (pr_heap p r)" "jb_max_retries (pr_heap p1 r) = jb_max_retries (pr_heap p r)"
    by (simp_all add: p1_def p0_def)
  have room1: "\<not> has_room p1"
    using assms(2) unfolding p1_def has_room_simps by (simp add: has_room_def p0_def)
  obtain w j e where run: "f (pr_world p1) (t0 + jb_timeout (pr_heap p1 r)) (pr_heap p1 r) = (w, j, Err e)"
    using assms(7) by blast
  note j = behavesD [of f, OF assms(6) run]
  define p2 where "p2 = p1\<lparr>pr_world := w, pr_heap := (pr_heap p1)(r := j)\<rparr>"
  define p3 where "p3 = set_job r (j\<lparr>jb_retries := i64 (jb_retries j + 1), jb_status := ''retrying''\<rparr>) p2"
  have "\<not> has_room p3" using room1 by (simp add: p3_def p2_def)
  then have "job_attempt_failed srt t1 e r p2 = p3"
    using assms(8) j p1 by (simp add: job_attempt_failed_def Let_def resubmit_full p3_def p2_def)
  then have "process_job srt t0 t1 r p0
      = Some (send_result t1 (t1 - t0) r (bump_stats (attempt_counted (t1 - t0)) p3))"
    using assms(5) run p1(2,3) unfolding process_job_def Let_def p1_def [symmetric] by (simp add: p2_def)
  then show ?thesis using turn p1(1) by (simp add: p3_def p2_def)
qed

lemma retry_lost_when_full_witness:
  "\<exists>p'. worker_turn falling_sort (2, 2, 3) (sample_processor\<lparr>pr_queue := (pr_queue sample_processor)\<lparr>mq_max := 1\<rparr>,
       pr_handlers := [''report'' \<mapsto> \<lambda>w d j. (w, j, Err ''no'')]\<rparr>) = Some p'
     \<and> pending_of p' = [] \<and> jb_status (pr_heap p' 0) = ''retrying''"
  by (rule retry_lost_when_full [where f = "\<lambda>w d j. (w, j, Err ''no'')"])
    (simp_all add: sample_processor_def mq_submit_def
      job_validator_def sample_job_def create_job_def create_job_with_priority_def default_job_config_def
      new_memory_queue_def new_memory_processor_def has_room_def falling_sort_def Let_def job_expired_def
      behaves_def i64_id)

subsection \<open>What the queue alone promises\<close>

lemma submit_then_dequeue_highest:
  assumes "sorts_falling srt" "mq_submit srt now (Some r) h q = (h', q', Ok ())"
    "mq_dequeue t h' q' = (h'', q'', Ok x)" "y \<in> set (mq_pending q'')"
  shows "jb_priority (h' y) \<le> jb_priority (h' x)"
proof -
  have "sorted_wrt (\<lambda>a b. jb_priority (h' b) \<le> jb_priority (h' a)) (mq_pending q')"
    using assms(1,2) by (auto simp: mq_submit_def sorts_falling_def Let_def split: outcome.splits if_splits)
  then show ?thesis
    using assms(3,4) by (auto simp: mq_dequeue_def Let_def split: list.splits if_splits)
qed

lemma by_status_exact:
  "by_status_loop h st limit acc rs =
     (if limit > 0 \<and> int (length acc) < limit
      then take (nat limit) (acc @ filter (\<lambda>r. jb_status (h r) = st) rs)
      else if limit > 0 \<and> filter (\<lambda>r. jb_status (h r) = st) rs \<noteq> []
      then acc @ [List.hd (filter (\<lambda>r. jb_status (h r) = st) rs)]
      else acc @ filter (\<lambda>r. jb_status (h r) = st) rs)"
proof (induction rs arbitrary: acc)
  case Nil
  then show ?case by auto
next
  case (Cons r rs)
  show ?case
  proof (cases "jb_status (h r) = st \<and> limit > 0 \<and> int (length (acc @ [r])) < limit")
    case True
    then show ?thesis by (simp add: Cons.IH)
  next
    case False
    show ?thesis
    proof (cases "jb_status (h r) = st \<and> limit > 0")
      case True
      then have "int (length acc) + 1 \<ge> limit" using False by simp
      then show ?thesis using True by (auto simp: nat_eq_iff le_antisym take_Cons')
    qed (auto simp: Cons.IH)
  qed
qed

lemma mq_by_status_exact:
  "mq_by_status ks h st limit q =
     (let rs = filter (\<lambda>r. jb_status (h r) = st) (List.map_filter (map_of (mq_jobs q)) ks)
      in if limit > 0 then take (nat limit) rs else rs)"
  by (simp add: mq_by_status_def by_status_exact Let_def)

lemma stats_loop_counts:
  "qs_failed (snd (stats_loop h rs t s)) = qs_failed s + int (length (filter (\<lambda>r. jb_status (h r) = ''failed'') rs))"
  "qs_completed (snd (stats_loop h rs t s))
     = qs_completed s + int (length (filter (\<lambda>r. jb_status (h r) = ''completed'') rs))"
  "qs_pending (snd (stats_loop h rs t s))
     = qs_pending s + int (length (filter (\<lambda>r. jb_status (h r) = ''pending'') rs))"
  by (induction rs arbitrary: t s) (auto simp: Let_def count_status_def)

text \<open>
  An identifier that is submitted twice: the first job stays pending after it is deleted by name, and
  is handed out although the table does not know it.
\<close>

lemma deleted_job_still_runs:
  "\<exists>h q. mq_submit falling_sort 1 (Some 0) (\<lambda>r. sample_job ''a'' 5) (new_memory_queue 3) = (h, q, Ok ())
     \<and> (\<exists>h1 q1 q2. mq_submit falling_sort 1 (Some 1) h q = (h1, q1, Ok ()) \<and> mq_delete h1 ''a'' q1 = (q2, Ok ())
        \<and> mq_get ''a'' q2 = Err ErrJobNotFound \<and> snd (snd (mq_dequeue 2 h1 q2)) = Ok 1)"
  by (simp add: mq_submit_def job_validator_def sample_job_def create_job_def create_job_with_priority_def
      default_job_config_def new_memory_queue_def falling_sort_def Let_def mq_delete_def mq_get_def mq_dequeue_def
      job_expired_def)

text \<open>A timeout of zero means none to \<open>IsTimedOut\<close>; to a handler it is a context that is over as it starts.\<close>

lemma zero_timeout_context_is_over:
  "jb_timeout j = 0 \<Longrightarrow> \<not> job_timed_out now start j \<and> t0 + jb_timeout j \<le> t0"
  by (simp add: job_timed_out_def)

subsection \<open>The manager (manager.go)\<close>

record 'w job_manager =
  jm_queue :: mqueue
  jm_proc :: "'w processor"
  jm_config :: job_config

text \<open>The processor is built on a queue of its own.\<close>

definition new_job_manager :: "job_config option \<Rightarrow> job_heap \<Rightarrow> 'w \<Rightarrow> 'w job_manager" where
  "new_job_manager co h w =
     (let c = (case co of None \<Rightarrow> default_job_config | Some c \<Rightarrow> c)
      in \<lparr>jm_queue = new_memory_queue (jc_max_queue c),
          jm_proc = new_memory_processor h w (new_memory_queue (jc_max_queue c)), jm_config = c\<rparr>)"

definition jm_submit :: "priority_sort \<Rightarrow> gotime \<Rightarrow> jref option \<Rightarrow> 'w job_manager \<Rightarrow> 'w job_manager \<times> (job_error, unit) outcome" where
  "jm_submit srt now ro m =
     (case mq_submit srt now ro (pr_heap (jm_proc m)) (jm_queue m) of
        (h, q, res) \<Rightarrow> (m\<lparr>jm_queue := q, jm_proc := (jm_proc m)\<lparr>pr_heap := h\<rparr>\<rparr>, res))"

text \<open>\<open>SubmitEmail\<close> allocates its job at a new reference.\<close>

definition jm_submit_email ::
  "priority_sort \<Rightarrow> gotime \<Rightarrow> jref \<Rightarrow> string \<Rightarrow> string \<Rightarrow> string \<Rightarrow> string \<Rightarrow> 'w job_manager
   \<Rightarrow> 'w job_manager \<times> (job_error, unit) outcome" where
  "jm_submit_email srt now r i to subject body m =
     (let j = create_job_with_priority (jm_config m) i now ''email''
                [''to'' \<mapsto> JString to, ''subject'' \<mapsto> JString subject, ''body'' \<mapsto> JString body] 10;
          p = jm_proc m
      in jm_submit srt now (Some r) (m\<lparr>jm_proc := p\<lparr>pr_heap := (pr_heap p)(r := j)\<rparr>\<rparr>))"

definition jm_get_job :: "string \<Rightarrow> 'w job_manager \<Rightarrow> (job_error, jref) outcome" where
  "jm_get_job i m = mq_get i (jm_queue m)"

definition jm_get_stats :: "string list \<Rightarrow> gotime \<Rightarrow> 'w job_manager \<Rightarrow> queue_stats" where
  "jm_get_stats ks now m = mq_stats ks now (pr_heap (jm_proc m)) (jm_queue m)"

definition jm_start_workers :: "int \<Rightarrow> 'w job_manager \<Rightarrow> 'w job_manager \<times> (job_error, unit) outcome" where
  "jm_start_workers n m =
     (let k = (if n \<le> 0 then jc_workers (jm_config m) else n)
      in case start_processor k (jm_proc m) of (p, res) \<Rightarrow> (m\<lparr>jm_proc := p\<rparr>, res))"

definition jm_stop_workers :: "'w job_manager \<Rightarrow> 'w job_manager \<times> (job_error, unit) outcome" where
  "jm_stop_workers m = (case stop_processor (jm_proc m) of (p, res) \<Rightarrow> (m\<lparr>jm_proc := p\<rparr>, res))"

definition jm_register :: "string \<Rightarrow> 'w job_handler \<Rightarrow> 'w job_manager \<Rightarrow> 'w job_manager" where
  "jm_register typ f m = m\<lparr>jm_proc := register_job_handler typ f (jm_proc m)\<rparr>"

text \<open>
  The calls of a client (the scheduler submits through the same queue), the writes it makes through
  the pointers it holds, and the rounds of the workers.
\<close>

datatype 'w jm_call =
    CallSubmit gotime "jref option"
  | CallEmail gotime jref string string string string
  | CallRegister string "'w job_handler"
  | CallStart int
  | CallStop
  | ClientWrite jref job
  | WorkerRound "gotime \<times> gotime \<times> gotime"

fun jm_step :: "priority_sort \<Rightarrow> 'w jm_call \<Rightarrow> 'w job_manager \<Rightarrow> ('w job_manager \<times> jref list) option" where
  "jm_step srt (CallSubmit now ro) m =
     (case jm_submit srt now ro m of (m', res) \<Rightarrow>
        Some (m', if res = Ok () then (case ro of None \<Rightarrow> [] | Some r \<Rightarrow> [r]) else []))"
| "jm_step srt (CallEmail now r i to subject body) m =
     (case jm_submit_email srt now r i to subject body m of (m', res) \<Rightarrow> Some (m', if res = Ok () then [r] else []))"
| "jm_step srt (CallRegister typ f) m = Some (jm_register typ f m, [])"
| "jm_step srt (CallStart n) m = Some (fst (jm_start_workers n m), [])"
| "jm_step srt CallStop m = Some (fst (jm_stop_workers m), [])"
| "jm_step srt (ClientWrite r j) m =
     Some (m\<lparr>jm_proc := (jm_proc m)\<lparr>pr_heap := (pr_heap (jm_proc m))(r := j)\<rparr>\<rparr>, [])"
| "jm_step srt (WorkerRound ts) m =
     (case worker_turn srt ts (jm_proc m) of None \<Rightarrow> None | Some p \<Rightarrow> Some (m\<lparr>jm_proc := p\<rparr>, []))"

fun jm_run :: "priority_sort \<Rightarrow> 'w jm_call list \<Rightarrow> 'w job_manager \<Rightarrow> ('w job_manager \<times> jref list) option" where
  "jm_run srt [] m = Some (m, [])"
| "jm_run srt (c # cs) m =
     (case jm_step srt c m of
        None \<Rightarrow> None
      | Some (m', acc) \<Rightarrow> (case jm_run srt cs m' of None \<Rightarrow> None | Some (m'', acc') \<Rightarrow> Some (m'', acc @ acc')))"

definition idle_with :: "'w \<Rightarrow> 'w job_manager \<Rightarrow> bool" where
  "idle_with w m \<longleftrightarrow> pending_of (jm_proc m) = [] \<and> pr_world (jm_proc m) = w
     \<and> ps_processed (pr_stats (jm_proc m)) = 0 \<and> pr_results (jm_proc m) = []"

lemma jm_submit_effect:
  assumes "sorts_falling srt" "jm_submit srt now ro m = (m', res)"
  shows "idle_with w m' = idle_with w m"
    "mset (mq_pending (jm_queue m')) = mset (mq_pending (jm_queue m))
       + mset (if res = Ok () then (case ro of None \<Rightarrow> [] | Some r \<Rightarrow> [r]) else [])"
  using assms
  by (auto simp: jm_submit_def mq_submit_def idle_with_def sorts_falling_def Let_def
      split: option.splits outcome.splits if_splits)

lemma jm_step_effect:
  assumes "sorts_falling srt" "idle_with w m"
  shows "\<exists>m' acc. jm_step srt c m = Some (m', acc) \<and> idle_with w m'
    \<and> mset (mq_pending (jm_queue m')) = mset (mq_pending (jm_queue m)) + mset acc"
proof (cases c)
  case (CallSubmit now ro)
  then show ?thesis
    using jm_submit_effect [OF assms(1), of now ro m] assms(2)
    by (cases "jm_submit srt now ro m") auto
next
  case (CallEmail now r i to subject body)
  define m1 where "m1 = m\<lparr>jm_proc := (jm_proc m)\<lparr>pr_heap := (pr_heap (jm_proc m))(r :=
     create_job_with_priority (jm_config m) i now ''email''
       [''to'' \<mapsto> JString to, ''subject'' \<mapsto> JString subject, ''body'' \<mapsto> JString body] 10)\<rparr>\<rparr>"
  have "idle_with w m1" "jm_queue m1 = jm_queue m" using assms(2) by (simp_all add: m1_def idle_with_def)
  moreover obtain m' res where m': "jm_submit srt now (Some r) m1 = (m', res)" by (cases "jm_submit srt now (Some r) m1")
  moreover have "jm_step srt c m = Some (m', if res = Ok () then [r] else [])"
    using m' by (simp add: CallEmail jm_submit_email_def m1_def Let_def)
  ultimately show ?thesis using jm_submit_effect [OF assms(1) m'] by auto
next
  case (WorkerRound ts)
  then show ?thesis using assms(2) by (simp add: idle_round idle_with_def)
qed (use assms(2) in \<open>simp_all add: idle_with_def jm_register_def register_job_handler_def jm_start_workers_def
    start_processor_def jm_stop_workers_def stop_processor_def split_def Let_def\<close>)

text \<open>The manager never runs a job: whatever is submitted, registered, started and stopped, and however
  many rounds the workers make, no handler is called and no result sent, the processor's queue stays
  empty, and what is pending in the manager's queue is, with multiplicity, every submission accepted.\<close>

theorem manager_never_runs_jobs:
  assumes "sorts_falling srt"
  shows "\<exists>m accepted. jm_run srt cs (new_job_manager co h w) = Some (m, accepted)
    \<and> pr_world (jm_proc m) = w \<and> ps_processed (pr_stats (jm_proc m)) = 0 \<and> pr_results (jm_proc m) = []
    \<and> pending_of (jm_proc m) = [] \<and> mset (mq_pending (jm_queue m)) = mset accepted"
proof -
  have run: "\<exists>m' acc. jm_run srt cs m = Some (m', acc) \<and> idle_with w m'
    \<and> mset (mq_pending (jm_queue m')) = mset (mq_pending (jm_queue m)) + mset acc" if "idle_with w m" for m
    using that
  proof (induction cs arbitrary: m)
    case (Cons c cs)
    obtain m1 acc where "jm_step srt c m = Some (m1, acc)" "idle_with w m1"
      "mset (mq_pending (jm_queue m1)) = mset (mq_pending (jm_queue m)) + mset acc"
      using jm_step_effect [OF assms Cons.prems] by blast
    moreover obtain m2 acc2 where "jm_run srt cs m1 = Some (m2, acc2)" "idle_with w m2"
      "mset (mq_pending (jm_queue m2)) = mset (mq_pending (jm_queue m1)) + mset acc2"
      using Cons.IH [OF calculation(2)] by blast
    ultimately show ?case by simp
  qed simp
  have "idle_with w (new_job_manager co h w)" "mq_pending (jm_queue (new_job_manager co h w)) = []"
    by (simp_all add: idle_with_def new_job_manager_def new_memory_processor_def new_memory_queue_def Let_def)
  then show ?thesis using run [of "new_job_manager co h w"] by (auto simp: idle_with_def)
qed

lemma manager_never_runs_jobs_witness:
  "\<exists>m accepted. jm_run falling_sort
      [CallRegister ''report'' flaky_handler, CallStart 2, ClientWrite 0 (sample_job ''a'' 5), CallSubmit 1 (Some 0),
       WorkerRound (2, 2, 3), WorkerRound (4, 4, 5)] (new_job_manager None (\<lambda>_. sample_job ''x'' 1) 0) = Some (m, accepted)
    \<and> pr_world (jm_proc m) = 0 \<and> ps_processed (pr_stats (jm_proc m)) = 0 \<and> pr_results (jm_proc m) = []
    \<and> pending_of (jm_proc m) = [] \<and> mset (mq_pending (jm_queue m)) = mset accepted"
  by (rule manager_never_runs_jobs [OF falling_sort_ok])

end
