(* ===== verification/Job_Graph.thy ===== *)
theory Job_Graph
  imports Job_Queue
begin

section \<open>Job dependencies, pipelines, graphs and dead letters (internal/jobs)\<close>

text \<open>
  dependencies.go and deadletterqueue.go. The repository of jobs is an interface over a database, so
  it is an argument from identifiers to a job or an error. New jobs go to references that the caller
  names, with identifiers that it names. The goroutine that cleans the dead letters is its one pass.
\<close>

subsection \<open>Dependencies\<close>

type_synonym job_repo = "string \<Rightarrow> (string, job) outcome"

record job_dependency =
  jd_job :: string
  jd_on :: string
  jd_status :: string
  jd_mode :: string
  jd_created :: gotime

record job_pipeline =
  pl_id :: string
  pl_name :: string
  pl_description :: string
  pl_jobs :: "string list"
  pl_status :: string
  pl_created_by :: string
  pl_created :: gotime
  pl_completed :: "gotime option"
  pl_progress :: int
  pl_failed :: "string list"

record conditional_job =
  cj_id :: string
  cj_condition :: "(job \<Rightarrow> bool) option"
  cj_job :: jref
  cj_parent :: string
  cj_on_success :: bool
  cj_on_failure :: bool
  cj_created :: gotime

record dependency_manager =
  dm_deps :: "string \<rightharpoonup> job_dependency list"
  dm_pipelines :: "string \<rightharpoonup> job_pipeline"
  dm_conditionals :: "string \<rightharpoonup> conditional_job"
  dm_queue :: mqueue
  dm_heap :: job_heap

definition new_dependency_manager :: "job_heap \<Rightarrow> mqueue \<Rightarrow> dependency_manager" where
  "new_dependency_manager h q =
     \<lparr>dm_deps = Map.empty, dm_pipelines = Map.empty, dm_conditionals = Map.empty, dm_queue = q, dm_heap = h\<rparr>"

definition deps_of :: "dependency_manager \<Rightarrow> string \<Rightarrow> job_dependency list" where
  "deps_of m i = (case dm_deps m i of None \<Rightarrow> [] | Some ds \<Rightarrow> ds)"

definition add_dependency ::
  "gotime \<Rightarrow> string \<Rightarrow> string \<Rightarrow> string \<Rightarrow> dependency_manager \<Rightarrow> dependency_manager \<times> (string, unit) outcome" where
  "add_dependency now i on mode m =
     (if i = [] \<or> on = [] then (m, Err ''job IDs cannot be empty'')
      else (m\<lparr>dm_deps := (dm_deps m)(i \<mapsto> deps_of m i @
               [\<lparr>jd_job = i, jd_on = on, jd_status = ''pending'', jd_mode = mode, jd_created = now\<rparr>])\<rparr>, Ok ()))"

fun can_run_loop :: "job_repo \<Rightarrow> job_dependency list \<Rightarrow> (string, bool) outcome" where
  "can_run_loop repo [] = Ok True"
| "can_run_loop repo (d # ds) =
     (case repo (jd_on d) of
        Err e \<Rightarrow> Err (''cannot check dependency: '' @ e)
      | Panic \<Rightarrow> Panic
      | Ok parent \<Rightarrow>
          if jb_status parent \<in> {''pending'', ''running'', ''retrying''} then Ok False
          else if jb_status parent = ''cancelled'' then
            if jd_mode d = ''block'' then Err ''parent job cancelled'' else can_run_loop repo ds
          else if jb_status parent = ''failed'' then
            if jd_mode d = ''block'' then Err ''parent job failed'' else can_run_loop repo ds
          else can_run_loop repo ds)"

definition can_job_run :: "job_repo \<Rightarrow> string \<Rightarrow> dependency_manager \<Rightarrow> (string, bool) outcome" where
  "can_job_run repo i m =
     (case dm_deps m i of
        None \<Rightarrow> Ok True
      | Some ds \<Rightarrow> if ds = [] then Ok True else can_run_loop repo ds)"

subsection \<open>Pipelines and conditional jobs\<close>

definition create_pipeline :: "gotime \<Rightarrow> string \<Rightarrow> job_pipeline \<Rightarrow> dependency_manager \<Rightarrow> dependency_manager" where
  "create_pipeline now gen pl m =
     (let pl' = pl\<lparr>pl_id := (if pl_id pl = [] then gen else pl_id pl),
                   pl_created := (if pl_created pl = zero_time then now else pl_created pl),
                   pl_status := ''pending'', pl_progress := 0\<rparr>
      in m\<lparr>dm_pipelines := (dm_pipelines m)(pl_id pl' \<mapsto> pl')\<rparr>)"

definition set_pipeline :: "string \<Rightarrow> job_pipeline \<Rightarrow> dependency_manager \<Rightarrow> dependency_manager" where
  "set_pipeline i pl m = m\<lparr>dm_pipelines := (dm_pipelines m)(i \<mapsto> pl)\<rparr>"

definition dm_submit :: "priority_sort \<Rightarrow> gotime \<Rightarrow> jref \<Rightarrow> dependency_manager \<Rightarrow> dependency_manager \<times> (job_error, unit) outcome" where
  "dm_submit srt now r m =
     (case mq_submit srt now (Some r) (dm_heap m) (dm_queue m) of (h, q, res) \<Rightarrow> (m\<lparr>dm_heap := h, dm_queue := q\<rparr>, res))"

definition dm_write :: "jref \<Rightarrow> job \<Rightarrow> dependency_manager \<Rightarrow> dependency_manager" where
  "dm_write r j m = m\<lparr>dm_heap := (dm_heap m)(r := j)\<rparr>"

text \<open>
  The loop over the jobs with the identifier before, which the first one has not; each job is
  built at its own reference. A configuration without a string \<open>type\<close> is a failed type assertion.
\<close>

fun submit_pipeline_loop ::
  "job_config \<Rightarrow> priority_sort \<Rightarrow> gotime \<Rightarrow> (string \<rightharpoonup> job_data) \<Rightarrow> (string \<Rightarrow> jref) \<Rightarrow> string \<Rightarrow> string option \<Rightarrow> string list
   \<Rightarrow> dependency_manager \<Rightarrow> dependency_manager \<times> (job_error, unit) outcome" where
  "submit_pipeline_loop c srt now cfgs ref pid prev [] m = (m, Ok ())"
| "submit_pipeline_loop c srt now cfgs ref pid prev (i # is) m =
     (let cfg = (case cfgs i of None \<Rightarrow> Map.empty | Some x \<Rightarrow> x)
      in case cfg ''type'' of
           Some (JString typ) \<Rightarrow>
             (let j = add_job_tag (''pipeline-'' @ pid) ((create_job c i now typ cfg)\<lparr>jb_id := i\<rparr>);
                  m1 = (case prev of None \<Rightarrow> m | Some b \<Rightarrow> fst (add_dependency now i b ''block'' m))
              in case dm_submit srt now (ref i) (dm_write (ref i) j m1) of
                   (m2, Ok _) \<Rightarrow> submit_pipeline_loop c srt now cfgs ref pid (Some i) is m2
                 | (m2, Err e) \<Rightarrow>
                     ((case dm_pipelines m2 pid of
                         None \<Rightarrow> m2
                       | Some pl \<Rightarrow> set_pipeline pid (pl\<lparr>pl_status := ''failed'', pl_failed := pl_failed pl @ [i]\<rparr>) m2), Err e)
                 | (m2, Panic) \<Rightarrow> (m2, Panic))
         | _ \<Rightarrow> (m, Panic))"

definition submit_pipeline ::
  "job_config \<Rightarrow> priority_sort \<Rightarrow> gotime \<Rightarrow> (string \<rightharpoonup> job_data) \<Rightarrow> (string \<Rightarrow> jref) \<Rightarrow> string
   \<Rightarrow> dependency_manager \<Rightarrow> dependency_manager \<times> (job_error, unit) outcome" where
  "submit_pipeline c srt now cfgs ref pid m =
     (case dm_pipelines m pid of
        None \<Rightarrow> (m, Err (ErrText (''pipeline not found: '' @ pid)))
      | Some pl \<Rightarrow>
          submit_pipeline_loop c srt now cfgs ref pid None (pl_jobs pl) (set_pipeline pid (pl\<lparr>pl_status := ''running''\<rparr>) m))"

fun pipeline_tally :: "job_repo \<Rightarrow> string list \<Rightarrow> int \<Rightarrow> string list \<Rightarrow> (string, int \<times> string list) outcome" where
  "pipeline_tally repo [] n failed = Ok (n, failed)"
| "pipeline_tally repo (i # is) n failed =
     (case repo i of
        Err _ \<Rightarrow> pipeline_tally repo is n failed
      | Panic \<Rightarrow> Panic
      | Ok j \<Rightarrow>
          if jb_status j = ''completed'' then pipeline_tally repo is (n + 1) failed
          else if jb_status j = ''failed'' then pipeline_tally repo is n (failed @ [i])
          else pipeline_tally repo is n failed)"

text \<open>A pipeline without jobs divides by zero.\<close>

definition get_pipeline_status ::
  "job_repo \<Rightarrow> gotime \<Rightarrow> string \<Rightarrow> dependency_manager \<Rightarrow> dependency_manager \<times> (string, job_pipeline) outcome" where
  "get_pipeline_status repo now pid m =
     (case dm_pipelines m pid of
        None \<Rightarrow> (m, Err ''pipeline not found'')
      | Some pl \<Rightarrow>
          (case pipeline_tally repo (pl_jobs pl) 0 (pl_failed pl) of
             Ok (n, failed) \<Rightarrow>
               (let k = int (length (pl_jobs pl))
                in if k = 0 then (set_pipeline pid (pl\<lparr>pl_failed := failed\<rparr>) m, Panic)
                   else
                     (let p1 = pl\<lparr>pl_failed := failed, pl_progress := (n * 100) div k\<rparr>;
                          p2 = (if n = k then p1\<lparr>pl_status := ''completed'', pl_completed := Some now\<rparr>
                                else if failed \<noteq> [] then p1\<lparr>pl_status := ''failed''\<rparr> else p1)
                      in (set_pipeline pid p2 m, Ok p2)))
           | Err e \<Rightarrow> (m, Err e)
           | Panic \<Rightarrow> (m, Panic)))"

definition register_conditional :: "gotime \<Rightarrow> string \<Rightarrow> string \<Rightarrow> conditional_job \<Rightarrow> dependency_manager \<Rightarrow> dependency_manager" where
  "register_conditional now gen parent c m =
     m\<lparr>dm_conditionals := (dm_conditionals m)(gen \<mapsto> c\<lparr>cj_parent := parent, cj_id := gen, cj_created := now\<rparr>)\<rparr>"

definition should_execute :: "job \<Rightarrow> conditional_job \<Rightarrow> bool" where
  "should_execute parent c =
     (let go = (if jb_status parent = ''completed'' \<and> cj_on_success c then True
                else jb_status parent = ''failed'' \<and> cj_on_failure c)
      in if go then (case cj_condition c of None \<Rightarrow> True | Some f \<Rightarrow> f parent) else False)"

fun submit_conditionals ::
  "priority_sort \<Rightarrow> gotime \<Rightarrow> job \<Rightarrow> conditional_job list \<Rightarrow> dependency_manager
   \<Rightarrow> dependency_manager \<times> (job_error, unit) outcome" where
  "submit_conditionals srt now parent [] m = (m, Ok ())"
| "submit_conditionals srt now parent (c # cs) m =
     (if should_execute parent c then
        (case dm_submit srt now (cj_job c) m of
           (m1, Ok _) \<Rightarrow> submit_conditionals srt now parent cs m1
         | (m1, Err e) \<Rightarrow> (m1, Err e)
         | (m1, Panic) \<Rightarrow> (m1, Panic))
      else submit_conditionals srt now parent cs m)"

definition evaluate_and_submit ::
  "priority_sort \<Rightarrow> string list \<Rightarrow> gotime \<Rightarrow> job \<Rightarrow> dependency_manager
   \<Rightarrow> dependency_manager \<times> (job_error, unit) outcome" where
  "evaluate_and_submit srt ks now parent m =
     submit_conditionals srt now parent
       (filter (\<lambda>c. cj_parent c = jb_id parent) (List.map_filter (dm_conditionals m) ks)) m"

text \<open>\<open>SubmitBatch\<close> without its pauses, and \<open>SubmitParallel\<close>; the batches only group the log lines.\<close>

fun submit_batch ::
  "priority_sort \<Rightarrow> gotime \<Rightarrow> (string \<rightharpoonup> string list) \<Rightarrow> jref list \<Rightarrow> dependency_manager
   \<Rightarrow> dependency_manager \<times> (job_error, unit) outcome" where
  "submit_batch srt now dependencies [] m = (m, Ok ())"
| "submit_batch srt now dependencies (r # rs) m =
     (case dm_submit srt now r m of
        (m1, Ok _) \<Rightarrow>
          (let i = jb_id (dm_heap m1 r)
           in submit_batch srt now dependencies rs
                (fold (\<lambda>d x. fst (add_dependency now i d ''block'' x))
                   (case dependencies i of None \<Rightarrow> [] | Some ds \<Rightarrow> ds) m1))
      | (m1, Err e) \<Rightarrow> (m1, Err e)
      | (m1, Panic) \<Rightarrow> (m1, Panic))"

fun submit_parallel ::
  "priority_sort \<Rightarrow> gotime \<Rightarrow> string \<Rightarrow> jref list \<Rightarrow> string list \<Rightarrow> dependency_manager
   \<Rightarrow> dependency_manager \<times> string list \<times> (job_error, unit) outcome" where
  "submit_parallel srt now parent [] ids m = (m, ids, Ok ())"
| "submit_parallel srt now parent (r # rs) ids m =
     (case dm_submit srt now r m of
        (m1, Ok _) \<Rightarrow>
          (let i = jb_id (dm_heap m1 r);
               m2 = (if parent \<noteq> [] then fst (add_dependency now i parent ''block'' m1) else m1)
           in submit_parallel srt now parent rs (ids @ [i]) m2)
      | (m1, Err e) \<Rightarrow> (m1, ids, Err e)
      | (m1, Panic) \<Rightarrow> (m1, ids, Panic))"

subsection \<open>Graphs of jobs\<close>

record job_dag =
  dg_id :: string
  dg_status :: string
  dg_created :: gotime
  dg_nodes :: "string \<rightharpoonup> jref"
  dg_edges :: "string \<rightharpoonup> string list"

definition new_job_dag :: "gotime \<Rightarrow> string \<Rightarrow> job_dag" where
  "new_job_dag now i = \<lparr>dg_id = i, dg_status = ''pending'', dg_created = now, dg_nodes = Map.empty, dg_edges = Map.empty\<rparr>"

definition dag_add_node :: "job_heap \<Rightarrow> jref \<Rightarrow> job_dag \<Rightarrow> job_dag" where
  "dag_add_node h r g =
     (let i = jb_id (h r)
      in g\<lparr>dg_nodes := (dg_nodes g)(i \<mapsto> r),
           dg_edges := (if dg_edges g i = None then (dg_edges g)(i \<mapsto> []) else dg_edges g)\<rparr>)"

definition dag_add_edge :: "string \<Rightarrow> string \<Rightarrow> job_dag \<Rightarrow> job_dag \<times> (string, unit) outcome" where
  "dag_add_edge i on g =
     (if dg_nodes g i = None then (g, Err (''job not found: '' @ i))
      else if dg_nodes g on = None then (g, Err (''dependency job not found: '' @ on))
      else (g\<lparr>dg_edges := (dg_edges g)(i \<mapsto> (case dg_edges g i of None \<Rightarrow> [] | Some ds \<Rightarrow> ds) @ [on])\<rparr>, Ok ()))"

fun all_satisfied :: "job_repo \<Rightarrow> string list \<Rightarrow> bool option" where
  "all_satisfied repo [] = Some True"
| "all_satisfied repo (d # ds) =
     (case repo d of
        Err _ \<Rightarrow> Some False
      | Panic \<Rightarrow> None
      | Ok j \<Rightarrow> if jb_status j \<noteq> ''completed'' then Some False else all_satisfied repo ds)"

text \<open>\<open>GetReadyJobs\<close> over an order of the keys; \<open>Nodes[jobID]\<close> is read as it is, nil included.\<close>

fun ready_jobs :: "job_repo \<Rightarrow> string list \<Rightarrow> job_dag \<Rightarrow> jref option list option" where
  "ready_jobs repo [] g = Some []"
| "ready_jobs repo (i # is) g =
     (case all_satisfied repo (case dg_edges g i of None \<Rightarrow> [] | Some ds \<Rightarrow> ds) of
        None \<Rightarrow> None
      | Some b \<Rightarrow>
          (case ready_jobs repo is g of
             None \<Rightarrow> None
           | Some rs \<Rightarrow> Some (if b then dg_nodes g i # rs else rs)))"

subsection \<open>Running a graph\<close>

datatype dag_op = AddNode jref | AddEdge string string

fun dag_apply :: "job_heap \<Rightarrow> dag_op \<Rightarrow> job_dag \<Rightarrow> job_dag" where
  "dag_apply h (AddNode r) g = dag_add_node h r g"
| "dag_apply h (AddEdge i on) g = fst (dag_add_edge i on g)"

text \<open>A repository in which the jobs of a set are completed and the others pending.\<close>

definition repo_with :: "string set \<Rightarrow> job_repo" where
  "repo_with C i = Ok ((sample_job i 5)\<lparr>jb_status := (if i \<in> C then ''completed'' else ''pending'')\<rparr>)"

text \<open>One round runs what is ready to completion.\<close>

definition dag_round :: "job_heap \<Rightarrow> string list \<Rightarrow> job_dag \<Rightarrow> string set \<Rightarrow> string set" where
  "dag_round h ks g C =
     (case ready_jobs (repo_with C) ks g of
        None \<Rightarrow> C
      | Some rs \<Rightarrow> C \<union> set (map (\<lambda>r. jb_id (h r)) (List.map_filter (\<lambda>x. x) rs)))"

fun dag_rounds :: "nat \<Rightarrow> job_heap \<Rightarrow> string list \<Rightarrow> job_dag \<Rightarrow> string set \<Rightarrow> string set" where
  "dag_rounds 0 h ks g C = C"
| "dag_rounds (Suc n) h ks g C = dag_round h ks g (dag_rounds n h ks g C)"

definition dag_deps :: "job_dag \<Rightarrow> string \<Rightarrow> string list" where
  "dag_deps g i = (case dg_edges g i of None \<Rightarrow> [] | Some ds \<Rightarrow> ds)"

definition dag_edges :: "job_dag \<Rightarrow> (string \<times> string) set" where
  "dag_edges g = {(d, i). d \<in> set (dag_deps g i)}"

definition dag_inv :: "job_heap \<Rightarrow> job_dag \<Rightarrow> bool" where
  "dag_inv h g \<longleftrightarrow> dom (dg_edges g) = dom (dg_nodes g)
     \<and> (\<forall>i r. dg_nodes g i = Some r \<longrightarrow> jb_id (h r) = i)
     \<and> (\<forall>i. set (dag_deps g i) \<subseteq> dom (dg_nodes g))"

lemma dag_inv_new: "dag_inv h (new_job_dag now i)"
  by (simp add: dag_inv_def new_job_dag_def dag_deps_def)

lemma dag_deps_add_node [simp]: "dag_deps (dag_add_node h r g) i = dag_deps g i"
  by (simp add: dag_deps_def dag_add_node_def Let_def)

lemma dag_edges_add_edge:
  "dg_edges (fst (dag_add_edge i on g))
     = (if dg_nodes g i = None \<or> dg_nodes g on = None then dg_edges g
        else (dg_edges g)(i \<mapsto> dag_deps g i @ [on]))"
  by (simp add: dag_add_edge_def dag_deps_def)

lemma dag_deps_add_edge:
  "set (dag_deps (fst (dag_add_edge i on g)) x)
     \<subseteq> set (dag_deps g x) \<union> (if dg_nodes g on = None then {} else {on})"
proof (cases "x = i \<and> dg_nodes g i \<noteq> None \<and> dg_nodes g on \<noteq> None")
  case True
  then have "dag_deps (fst (dag_add_edge i on g)) x = dag_deps g x @ [on]"
    unfolding dag_deps_def [of "fst _"] dag_edges_add_edge by (auto split: if_splits)
  then show ?thesis using True by auto
next
  case False
  then have "dg_edges (fst (dag_add_edge i on g)) x = dg_edges g x"
    unfolding dag_edges_add_edge by auto
  then have "dag_deps (fst (dag_add_edge i on g)) x = dag_deps g x"
    unfolding dag_deps_def by simp
  then show ?thesis by simp
qed

lemma dag_inv_apply:
  assumes "dag_inv h g"
  shows "dag_inv h (dag_apply h c g)"
proof (cases c)
  case (AddNode r)
  have "dom (dg_nodes g) \<subseteq> dom (dg_nodes (dag_add_node h r g))"
    by (auto simp: dag_add_node_def Let_def)
  moreover have "dom (dg_edges (dag_add_node h r g)) = dom (dg_nodes (dag_add_node h r g))"
    using assms by (auto simp: dag_inv_def dag_add_node_def Let_def)
  moreover have "jb_id (h x) = i" if "dg_nodes (dag_add_node h r g) i = Some x" for i x
    using that assms by (auto simp: dag_inv_def dag_add_node_def Let_def split: if_splits)
  moreover have "set (dag_deps g i) \<subseteq> dom (dg_nodes g)" for i
    using assms by (simp add: dag_inv_def)
  ultimately show ?thesis
    unfolding dag_inv_def AddNode dag_apply.simps dag_deps_add_node by (meson subset_trans)
next
  case (AddEdge i on)
  have nodes: "dg_nodes (fst (dag_add_edge i on g)) = dg_nodes g" by (simp add: dag_add_edge_def)
  have "dom (dg_edges (fst (dag_add_edge i on g))) = dom (dg_nodes g)"
    using assms by (auto simp: dag_inv_def dag_add_edge_def)
  moreover have "set (dag_deps (fst (dag_add_edge i on g)) x) \<subseteq> dom (dg_nodes g)" for x
  proof -
    have "set (dag_deps g x) \<subseteq> dom (dg_nodes g)" using assms by (simp add: dag_inv_def)
    moreover have "(if dg_nodes g on = None then {} else {on}) \<subseteq> dom (dg_nodes g)" by auto
    ultimately show ?thesis using dag_deps_add_edge [of i on g x] by blast
  qed
  ultimately show ?thesis using assms AddEdge by (simp add: dag_inv_def nodes)
qed

lemma dag_inv_fold: "dag_inv h g \<Longrightarrow> dag_inv h (fold (dag_apply h) cs g)"
  by (induction cs arbitrary: g) (simp_all add: dag_inv_apply)

lemma all_satisfied_repo_with: "all_satisfied (repo_with C) ds = Some (set ds \<subseteq> C)"
  by (induction ds) (auto simp: repo_with_def)

lemma ready_jobs_repo_with:
  "ready_jobs (repo_with C) ks g = Some (map (dg_nodes g) (filter (\<lambda>i. set (dag_deps g i) \<subseteq> C) ks))"
  by (induction ks) (simp_all add: all_satisfied_repo_with dag_deps_def)

lemma dag_round_exact:
  assumes "dag_inv h g" "enumerates ks (dg_edges g)"
  shows "dag_round h ks g C = C \<union> {i \<in> set ks. set (dag_deps g i) \<subseteq> C}"
proof -
  have ks: "\<exists>r. dg_nodes g i = Some r \<and> jb_id (h r) = i" if "i \<in> set ks" for i
    using that assms by (auto simp: dag_inv_def enumerates_def)
  have run: "set (map (\<lambda>r. jb_id (h r)) (List.map_filter (\<lambda>x. x) (map (dg_nodes g) xs))) = set xs"
    if "set xs \<subseteq> set ks" for xs
    using that
  proof (induction xs)
    case (Cons i xs)
    obtain r where "dg_nodes g i = Some r" "jb_id (h r) = i" using ks [of i] Cons.prems by auto
    then show ?case using Cons by (simp add: map_filter_simps)
  qed (simp add: map_filter_simps)
  show ?thesis
    using run [of "filter (\<lambda>i. set (dag_deps g i) \<subseteq> C) ks"]
    unfolding dag_round_def ready_jobs_repo_with option.case by simp
qed

lemma rounds_inside:
  assumes "dag_inv h g" "enumerates ks (dg_edges g)"
  shows "dag_rounds n h ks g {} \<subseteq> set ks"
  by (induction n) (auto simp: dag_round_exact [OF assms])

lemma acyclic_rounds_grow:
  assumes "dag_inv h g" "enumerates ks (dg_edges g)" "acyclic (dag_edges g)"
  shows "n \<le> card (set ks) \<Longrightarrow> n \<le> card (dag_rounds n h ks g {})"
proof (induction n)
  case (Suc n)
  define C where "C = dag_rounds n h ks g {}"
  have sub: "C \<subseteq> set ks" unfolding C_def by (rule rounds_inside [OF assms(1,2)])
  have n: "n \<le> card C" using Suc by (simp add: C_def)
  show ?case
  proof (cases "C = set ks")
    case True
    moreover have "set ks \<union> {i \<in> set ks. set (dag_deps g i) \<subseteq> set ks} = set ks" by auto
    ultimately show ?thesis using Suc.prems by (simp add: dag_round_exact [OF assms(1,2)] C_def [symmetric])
  next
    case False
    have nodes: "set (dag_deps g i) \<subseteq> set ks" for i
      using assms(1,2) by (auto simp: dag_inv_def enumerates_def)
    have ends: "dag_deps g i = []" if "i \<notin> set ks" for i
      using that assms(2) by (auto simp: enumerates_def dag_deps_def dom_def split: option.splits)
    have "dag_edges g \<subseteq> set ks \<times> set ks"
      using nodes ends by (fastforce simp: dag_edges_def)
    then have "finite (dag_edges g)" by (rule finite_subset) simp
    then have "wf (dag_edges g)" using assms(3) by (simp add: finite_acyclic_wf)
    moreover obtain x where "x \<in> set ks - C" using False sub by blast
    ultimately obtain i where i: "i \<in> set ks - C" "\<And>d. (d, i) \<in> dag_edges g \<Longrightarrow> d \<notin> set ks - C"
      by (rule wfE_min) blast
    then have "set (dag_deps g i) \<subseteq> C" using nodes [of i] by (auto simp: dag_edges_def)
    then have "insert i C \<subseteq> dag_rounds (Suc n) h ks g {}"
      using i(1) by (auto simp: dag_round_exact [OF assms(1,2)] C_def [symmetric])
    moreover have "finite (dag_rounds (Suc n) h ks g {})"
      using rounds_inside [OF assms(1,2)] by (rule finite_subset) simp
    ultimately have "card (insert i C) \<le> card (dag_rounds (Suc n) h ks g {})" by (metis card_mono)
    moreover have "finite C" using sub by (rule finite_subset) simp
    ultimately show ?thesis using i(1) n by simp
  qed
qed simp

lemma rounds_rank:
  assumes "dag_inv h g" "enumerates ks (dg_edges g)" "dag_rounds n h ks g {} = set ks"
  shows "acyclic (dag_edges g)"
proof -
  define rank where "rank i = (LEAST k. i \<in> dag_rounds k h ks g {})" for i
  have "(d, i) \<in> measure rank" if "(d, i) \<in> dag_edges g" for d i
  proof -
    have "i \<in> set ks" using that assms(2)
      by (auto simp: dag_edges_def dag_deps_def enumerates_def split: option.splits)
    then have "i \<in> dag_rounds n h ks g {}" using assms(3) by simp
    then have i: "i \<in> dag_rounds (rank i) h ks g {}" unfolding rank_def by (rule LeastI)
    then obtain k where k: "rank i = Suc k" by (cases "rank i") auto
    then have "i \<notin> dag_rounds k h ks g {}" unfolding rank_def by (metis lessI not_less_Least)
    then have "d \<in> dag_rounds k h ks g {}"
      using i that unfolding k by (auto simp: dag_round_exact [OF assms(1,2)] dag_edges_def)
    then have "rank d \<le> k" unfolding rank_def by (rule Least_le)
    then show ?thesis using k by simp
  qed
  then have "dag_edges g \<subseteq> measure rank" by auto
  then have "wf (dag_edges g)" using wf_subset wf_measure by blast
  then show ?thesis by (rule wf_acyclic)
qed

text \<open>C24. A job graph runs to its end exactly if it has no cycle: after as many rounds as it has nodes, each
  running all that GetReadyJobs returns, every node is completed if and only if the dependencies are
  acyclic - which AddEdge does not check.\<close>

theorem dag_completes_iff_acyclic:
  assumes "enumerates ks (dg_edges (fold (dag_apply h) ops (new_job_dag now i)))"
  shows "dag_rounds (length ks) h ks (fold (dag_apply h) ops (new_job_dag now i)) {} = set ks
    \<longleftrightarrow> acyclic (dag_edges (fold (dag_apply h) ops (new_job_dag now i)))"
proof -
  define g where "g = fold (dag_apply h) ops (new_job_dag now i)"
  have inv: "dag_inv h g" unfolding g_def by (intro dag_inv_fold dag_inv_new)
  have ks: "enumerates ks (dg_edges g)" using assms by (simp add: g_def)
  have "dag_rounds (length ks) h ks g {} = set ks" if "acyclic (dag_edges g)"
  proof -
    have "card (set ks) = length ks" using ks unfolding enumerates_def by (metis distinct_card)
    then have "card (set ks) \<le> card (dag_rounds (length ks) h ks g {})"
      using acyclic_rounds_grow [OF inv ks that, of "length ks"] by simp
    then show ?thesis using rounds_inside [OF inv ks] card_seteq by (metis List.finite_set)
  qed
  then show ?thesis using rounds_rank [OF inv ks] unfolding g_def by blast
qed

lemma dag_completes_iff_acyclic_witness:
  "dag_rounds (length [''a'', ''b'']) (\<lambda>r. sample_job (if r = 0 then ''a'' else ''b'') 5) [''a'', ''b'']
       (fold (dag_apply (\<lambda>r. sample_job (if r = 0 then ''a'' else ''b'') 5)) [AddNode 0, AddNode 1, AddEdge ''b'' ''a'']
          (new_job_dag 1 ''g'')) {} = set [''a'', ''b'']
    \<longleftrightarrow> acyclic (dag_edges (fold (dag_apply (\<lambda>r. sample_job (if r = 0 then ''a'' else ''b'') 5))
          [AddNode 0, AddNode 1, AddEdge ''b'' ''a''] (new_job_dag 1 ''g'')))"
  by (rule dag_completes_iff_acyclic)
    (auto simp: new_job_dag_def dag_add_node_def dag_add_edge_def sample_job_def create_job_def
      create_job_with_priority_def enumerates_def Let_def)

text \<open>A completed job without dependencies is ready again and again.\<close>

lemma completed_roots_stay_ready:
  "dag_deps g i = [] \<Longrightarrow> i \<in> set ks \<Longrightarrow> \<exists>rs. ready_jobs (repo_with C) ks g = Some rs \<and> dg_nodes g i \<in> set rs"
  by (simp add: ready_jobs_repo_with)

subsection \<open>Whether a job may run\<close>

definition parent_allows :: "job_repo \<Rightarrow> job_dependency \<Rightarrow> bool" where
  "parent_allows repo d = (case repo (jd_on d) of
     Ok j \<Rightarrow> jb_status j \<notin> {''pending'', ''running'', ''retrying''}
       \<and> (jd_mode d = ''block'' \<longrightarrow> jb_status j \<notin> {''cancelled'', ''failed''})
   | _ \<Rightarrow> False)"

lemma can_run_loop_exact: "can_run_loop repo ds = Ok True \<longleftrightarrow> list_all (parent_allows repo) ds"
  by (induction ds) (auto simp: parent_allows_def split: outcome.splits)

lemma can_job_run_exact: "can_job_run repo i m = Ok True \<longleftrightarrow> list_all (parent_allows repo) (deps_of m i)"
  by (auto simp: can_job_run_def deps_of_def can_run_loop_exact split: option.splits)

text \<open>Any mode but block is read alike: skip and retry both let the job run after a failed parent.\<close>

lemma other_modes_alike:
  "jd_mode d \<noteq> ''block'' \<Longrightarrow> mode \<noteq> ''block'' \<Longrightarrow> parent_allows repo (d\<lparr>jd_mode := mode\<rparr>) = parent_allows repo d"
  by (simp add: parent_allows_def split: outcome.splits)

lemma deps_of_add: "set (deps_of m x) \<subseteq> set (deps_of (fst (add_dependency now i on mode m)) x)"
  by (auto simp: deps_of_def add_dependency_def)

lemma deps_of_added:
  "i \<noteq> [] \<Longrightarrow> on \<noteq> [] \<Longrightarrow>
   \<exists>d \<in> set (deps_of (fst (add_dependency now i on mode m)) i). jd_on d = on \<and> jd_mode d = mode"
  by (simp add: deps_of_def add_dependency_def)

lemma dm_submit_deps: "dm_submit srt now r m = (m', res) \<Longrightarrow> deps_of m' = deps_of m"
  by (auto simp: dm_submit_def deps_of_def fun_eq_iff split: prod.splits)

lemma submit_loop_step:
  assumes "submit_pipeline_loop c srt now cfgs ref pid prev (i # is) m = (m', Ok ())"
  obtains m2 where "submit_pipeline_loop c srt now cfgs ref pid (Some i) is m2 = (m', Ok ())"
    "deps_of m2 = deps_of (case prev of None \<Rightarrow> m | Some b \<Rightarrow> fst (add_dependency now i b ''block'' m))"
proof -
  define cfg where "cfg = (case cfgs i of None \<Rightarrow> Map.empty | Some x \<Rightarrow> x)"
  define m1 where "m1 = (case prev of None \<Rightarrow> m | Some b \<Rightarrow> fst (add_dependency now i b ''block'' m))"
  obtain ty where ty: "cfg ''type'' = Some (JString ty)"
    using assms by (auto simp: cfg_def [symmetric] Let_def split: option.splits json.splits)
  define m3 where "m3 = dm_write (ref i) (add_job_tag (''pipeline-'' @ pid) ((create_job c i now ty cfg)\<lparr>jb_id := i\<rparr>)) m1"
  have "(case dm_submit srt now (ref i) m3 of
           (m2, Ok _) \<Rightarrow> submit_pipeline_loop c srt now cfgs ref pid (Some i) is m2
         | (m2, Err e) \<Rightarrow>
             ((case dm_pipelines m2 pid of None \<Rightarrow> m2
               | Some pl \<Rightarrow> set_pipeline pid (pl\<lparr>pl_status := ''failed'', pl_failed := pl_failed pl @ [i]\<rparr>) m2), Err e)
         | (m2, Panic) \<Rightarrow> (m2, Panic)) = (m', Ok ())"
    using assms ty by (simp add: cfg_def [symmetric] m1_def [symmetric] m3_def Let_def)
  then obtain m2 u where "dm_submit srt now (ref i) m3 = (m2, Ok u)"
    "submit_pipeline_loop c srt now cfgs ref pid (Some i) is m2 = (m', Ok ())"
    by (auto split: prod.splits outcome.splits)
  moreover have "deps_of m3 = deps_of m1" by (simp add: m3_def dm_write_def deps_of_def fun_eq_iff)
  ultimately show ?thesis using that dm_submit_deps unfolding m1_def by metis
qed

lemma submit_loop_keeps_deps:
  "submit_pipeline_loop c srt now cfgs ref pid prev is m = (m', Ok ()) \<Longrightarrow> set (deps_of m x) \<subseteq> set (deps_of m' x)"
proof (induction "is" arbitrary: prev m)
  case (Cons i "is")
  obtain m2 where m2: "submit_pipeline_loop c srt now cfgs ref pid (Some i) is m2 = (m', Ok ())"
    "deps_of m2 = deps_of (case prev of None \<Rightarrow> m | Some b \<Rightarrow> fst (add_dependency now i b ''block'' m))"
    using submit_loop_step [OF Cons.prems] .
  have "set (deps_of m x) \<subseteq> set (deps_of m2 x)"
    using deps_of_add m2(2) by (cases prev) simp_all
  then show ?case using Cons.IH [OF m2(1)] by blast
qed simp

lemma submit_loop_chain:
  assumes "submit_pipeline_loop c srt now cfgs ref pid prev is m = (m', Ok ())" "[] \<notin> set is" "Suc k < length is"
  shows "\<exists>d \<in> set (deps_of m' (is ! Suc k)). jd_on d = is ! k \<and> jd_mode d = ''block''"
  using assms
proof (induction "is" arbitrary: prev m k)
  case (Cons i "is")
  obtain m2 where m2: "submit_pipeline_loop c srt now cfgs ref pid (Some i) is m2 = (m', Ok ())"
    using submit_loop_step [OF Cons.prems(1)] .
  show ?case
  proof (cases k)
    case 0
    then obtain j js where js: "is = j # js" using Cons.prems(3) by (cases "is") auto
    obtain m4 where m4: "submit_pipeline_loop c srt now cfgs ref pid (Some j) js m4 = (m', Ok ())"
      "deps_of m4 = deps_of (fst (add_dependency now j i ''block'' m2))"
      using submit_loop_step [OF m2 [unfolded js]] by auto
    have "i \<noteq> []" "j \<noteq> []" using Cons.prems(2) js by auto
    then show ?thesis
      using deps_of_added [of j i now "''block''" m2] submit_loop_keeps_deps [OF m4(1), of j] m4(2) 0 js by auto
  next
    case (Suc k')
    then show ?thesis using Cons.IH [OF m2, of k'] Cons.prems by simp
  qed
qed simp

text \<open>A pipeline runs in order: once it is submitted, a job of it may run only when the job before it is
  known to the repository and neither waiting, running, retrying, cancelled nor failed.\<close>

theorem pipeline_in_order:
  assumes "submit_pipeline c srt now cfgs ref pid m = (m', Ok ())" "dm_pipelines m pid = Some pl"
    "[] \<notin> set (pl_jobs pl)" "Suc k < length (pl_jobs pl)" "can_job_run repo (pl_jobs pl ! Suc k) m' = Ok True"
  shows "\<exists>j. repo (pl_jobs pl ! k) = Ok j
    \<and> jb_status j \<notin> {''pending'', ''running'', ''retrying'', ''cancelled'', ''failed''}"
proof -
  have "\<exists>d \<in> set (deps_of m' (pl_jobs pl ! Suc k)). jd_on d = pl_jobs pl ! k \<and> jd_mode d = ''block''"
    using assms(1-4) by (intro submit_loop_chain) (simp_all add: submit_pipeline_def)
  then obtain d where "d \<in> set (deps_of m' (pl_jobs pl ! Suc k))" "jd_on d = pl_jobs pl ! k" "jd_mode d = ''block''"
    by blast
  moreover from this assms(5) have "parent_allows repo d"
    by (simp add: can_job_run_exact list_all_iff)
  ultimately show ?thesis by (auto simp: parent_allows_def split: outcome.splits)
qed

definition sample_pipeline :: job_pipeline where
  "sample_pipeline = \<lparr>pl_id = ''p'', pl_name = ''etl'', pl_description = [], pl_jobs = [''a'', ''b''], pl_status = ''pending'',
     pl_created_by = [], pl_created = 1, pl_completed = None, pl_progress = 0, pl_failed = []\<rparr>"

definition sample_manager :: dependency_manager where
  "sample_manager = create_pipeline 1 ''x'' sample_pipeline (new_dependency_manager (\<lambda>_. sample_job ''z'' 1) (new_memory_queue 9))"

definition sample_configs :: "string \<rightharpoonup> job_data" where
  "sample_configs i = Some [''type'' \<mapsto> JString ''report'']"

lemma sample_submitted:
  "\<exists>m. submit_pipeline default_job_config falling_sort 2 sample_configs length ''p'' sample_manager = (m, Ok ())
     \<and> dm_deps m ''b'' = Some [\<lparr>jd_job = ''b'', jd_on = ''a'', jd_status = ''pending'', jd_mode = ''block'', jd_created = 2\<rparr>]"
  by (simp add: submit_pipeline_def sample_manager_def create_pipeline_def sample_pipeline_def new_dependency_manager_def
      set_pipeline_def sample_configs_def dm_write_def dm_submit_def mq_submit_def job_validator_def create_job_def
      default_job_config_def add_job_tag_def new_memory_queue_def falling_sort_def add_dependency_def deps_of_def Let_def)

lemma pipeline_in_order_witness:
  "\<exists>j. repo_with {''a''} (pl_jobs sample_pipeline ! 0) = Ok j
    \<and> jb_status j \<notin> {''pending'', ''running'', ''retrying'', ''cancelled'', ''failed''}"
proof -
  obtain m where m: "submit_pipeline default_job_config falling_sort 2 sample_configs length ''p'' sample_manager = (m, Ok ())"
    "dm_deps m ''b'' = Some [\<lparr>jd_job = ''b'', jd_on = ''a'', jd_status = ''pending'', jd_mode = ''block'', jd_created = 2\<rparr>]"
    using sample_submitted by blast
  show ?thesis
    by (rule pipeline_in_order [OF m(1)])
      (simp_all add: sample_manager_def create_pipeline_def sample_pipeline_def can_job_run_def m(2) repo_with_def)
qed

subsection \<open>What the status of a pipeline reports\<close>

definition has_status :: "job_repo \<Rightarrow> string \<Rightarrow> string \<Rightarrow> bool" where
  "has_status repo st i = (case repo i of Ok j \<Rightarrow> jb_status j = st | _ \<Rightarrow> False)"

abbreviation "completed_in repo is \<equiv> length (filter (has_status repo ''completed'') is)"

lemma pipeline_tally_exact:
  assumes "\<And>i. repo i \<noteq> Panic"
  shows "pipeline_tally repo is n failed
    = Ok (n + int (completed_in repo is), failed @ filter (has_status repo ''failed'') is)"
  using assms
  by (induction "is" arbitrary: n failed) (auto simp: has_status_def split: outcome.splits)

lemma get_pipeline_status_eq:
  assumes "dm_pipelines m pid = Some pl" "\<And>i. repo i \<noteq> Panic" "pl_jobs pl \<noteq> []"
  shows "get_pipeline_status repo now pid m =
    (let failed = pl_failed pl @ filter (has_status repo ''failed'') (pl_jobs pl);
         p1 = pl\<lparr>pl_failed := failed,
                 pl_progress := (int (completed_in repo (pl_jobs pl)) * 100) div int (length (pl_jobs pl))\<rparr>;
         p2 = (if completed_in repo (pl_jobs pl) = length (pl_jobs pl)
               then p1\<lparr>pl_status := ''completed'', pl_completed := Some now\<rparr>
               else if failed \<noteq> [] then p1\<lparr>pl_status := ''failed''\<rparr> else p1)
     in (set_pipeline pid p2 m, Ok p2))"
  using assms by (simp add: get_pipeline_status_def pipeline_tally_exact Let_def)

lemma empty_pipeline_panics:
  "dm_pipelines m pid = Some pl \<Longrightarrow> pl_jobs pl = [] \<Longrightarrow> snd (get_pipeline_status repo now pid m) = Panic"
  by (simp add: get_pipeline_status_def Let_def)

fun poll_pipeline :: "nat \<Rightarrow> job_repo \<Rightarrow> gotime \<Rightarrow> string \<Rightarrow> dependency_manager \<Rightarrow> dependency_manager" where
  "poll_pipeline 0 repo now pid m = m"
| "poll_pipeline (Suc n) repo now pid m = poll_pipeline n repo now pid (fst (get_pipeline_status repo now pid m))"

text \<open>Every look at a pipeline notes its failed jobs once more.\<close>

lemma polls_accumulate:
  assumes "dm_pipelines m pid = Some pl" "\<And>i. repo i \<noteq> Panic" "pl_jobs pl \<noteq> []"
  shows "\<exists>p'. dm_pipelines (poll_pipeline n repo now pid m) pid = Some p' \<and> pl_jobs p' = pl_jobs pl
    \<and> length (pl_failed p') = length (pl_failed pl) + n * length (filter (has_status repo ''failed'') (pl_jobs pl))"
  using assms
proof (induction n arbitrary: m pl)
  case (Suc n)
  define p2 where "p2 = (let failed = pl_failed pl @ filter (has_status repo ''failed'') (pl_jobs pl);
         p1 = pl\<lparr>pl_failed := failed,
                 pl_progress := (int (completed_in repo (pl_jobs pl)) * 100) div int (length (pl_jobs pl))\<rparr>
     in if completed_in repo (pl_jobs pl) = length (pl_jobs pl)
        then p1\<lparr>pl_status := ''completed'', pl_completed := Some now\<rparr>
        else if failed \<noteq> [] then p1\<lparr>pl_status := ''failed''\<rparr> else p1)"
  have m: "fst (get_pipeline_status repo now pid m) = set_pipeline pid p2 m"
    using get_pipeline_status_eq [OF Suc.prems] by (simp add: Let_def p2_def)
  have p2: "pl_jobs p2 = pl_jobs pl" "pl_failed p2 = pl_failed pl @ filter (has_status repo ''failed'') (pl_jobs pl)"
    by (simp_all add: p2_def Let_def)
  have "dm_pipelines (set_pipeline pid p2 m) pid = Some p2" by (simp add: set_pipeline_def)
  from Suc.IH [OF this Suc.prems(2)] show ?case using Suc.prems(3) p2 by (simp add: m add.assoc)
qed simp

text \<open>The status of a pipeline, exactly: its progress is the percentage of its jobs the repository holds as
  completed, rounded down, between 0 and 100, and 100 only together with the status completed; a job once
  seen failed keeps the pipeline failed until all are completed, also after it is retried.\<close>

theorem pipeline_status_exact:
  assumes "dm_pipelines m pid = Some pl" "\<And>i. repo i \<noteq> Panic" "pl_jobs pl \<noteq> []"
  shows "\<exists>p'. snd (get_pipeline_status repo now pid m) = Ok p'
    \<and> dm_pipelines (fst (get_pipeline_status repo now pid m)) pid = Some p'
    \<and> pl_progress p' = (100 * int (completed_in repo (pl_jobs pl))) div int (length (pl_jobs pl))
    \<and> 0 \<le> pl_progress p' \<and> pl_progress p' \<le> 100
    \<and> (pl_progress p' = 100 \<longleftrightarrow> completed_in repo (pl_jobs pl) = length (pl_jobs pl))
    \<and> pl_status p' = (if completed_in repo (pl_jobs pl) = length (pl_jobs pl) then ''completed''
        else if pl_failed pl \<noteq> [] \<or> filter (has_status repo ''failed'') (pl_jobs pl) \<noteq> [] then ''failed''
        else pl_status pl)"
proof -
  define c k where "c = completed_in repo (pl_jobs pl)" and "k = length (pl_jobs pl)"
  have "c \<le> k" by (simp add: c_def k_def)
  have "0 < k" using assms(3) by (simp add: k_def)
  define pr where "pr = (int c * 100) div int k"
  have lo: "0 \<le> pr" using \<open>0 < k\<close> by (simp add: pr_def pos_imp_zdiv_nonneg_iff)
  have "int c * 100 \<le> int k * 100" using \<open>c \<le> k\<close> by simp
  then have "pr \<le> (int k * 100) div int k" unfolding pr_def by (intro zdiv_mono1) (use \<open>0 < k\<close> in simp_all)
  then have hi: "pr \<le> 100" using \<open>0 < k\<close> by simp
  have full: "pr = 100 \<longleftrightarrow> c = k"
  proof
    assume "pr = 100"
    then have "100 * int k \<le> int c * 100"
      unfolding pr_def by (metis \<open>0 < k\<close> div_mod_decomp_int of_nat_0_less_iff pos_mod_sign le_add_same_cancel1)
    then show "c = k" using \<open>c \<le> k\<close> by simp
  qed (use \<open>0 < k\<close> in \<open>simp add: pr_def\<close>)
  show ?thesis
    unfolding get_pipeline_status_eq [OF assms] c_def [symmetric] k_def [symmetric]
    using lo hi full by (simp add: Let_def set_pipeline_def pr_def [symmetric] mult.commute [of 100])
qed

lemma pipeline_status_exact_witness:
  "\<exists>p'. snd (get_pipeline_status (repo_with {''a''}) 9 ''p'' sample_manager) = Ok p'
    \<and> dm_pipelines (fst (get_pipeline_status (repo_with {''a''}) 9 ''p'' sample_manager)) ''p'' = Some p'
    \<and> pl_progress p' = (100 * int (completed_in (repo_with {''a''}) (pl_jobs sample_pipeline))) div int (length (pl_jobs sample_pipeline))
    \<and> 0 \<le> pl_progress p' \<and> pl_progress p' \<le> 100
    \<and> (pl_progress p' = 100 \<longleftrightarrow> completed_in (repo_with {''a''}) (pl_jobs sample_pipeline) = length (pl_jobs sample_pipeline))
    \<and> pl_status p' = (if completed_in (repo_with {''a''}) (pl_jobs sample_pipeline) = length (pl_jobs sample_pipeline) then ''completed''
        else if pl_failed sample_pipeline \<noteq> [] \<or> filter (has_status (repo_with {''a''}) ''failed'') (pl_jobs sample_pipeline) \<noteq> []
        then ''failed'' else pl_status sample_pipeline)"
  by (rule pipeline_status_exact)
    (simp_all add: sample_manager_def create_pipeline_def sample_pipeline_def Let_def repo_with_def)

end
