(* ===== verification/Dead_Letters.thy ===== *)
theory Dead_Letters
  imports Job_Queue
begin

section \<open>The dead letter queue (internal/jobs/deadletterqueue.go)\<close>

text \<open>
  Failed jobs kept for review, their retry through the job queue, and the analysis of their errors.
  Generated identifiers and the references of new jobs are arguments. The background cleaner is its
  one pass; its table is an association list with one entry per identifier.
\<close>

record dead_job =
  dj_id :: string
  dj_original :: string
  dj_type :: string
  dj_data :: job_data
  dj_error :: string
  dj_failures :: int
  dj_last_failed :: gotime
  dj_moved :: gotime
  dj_expires :: gotime
  dj_retryable :: bool
  dj_review :: bool
  dj_notes :: string

record dead_letters =
  dq_jobs :: "(string \<times> dead_job) list"
  dq_max :: int
  dq_retention :: duration

definition new_dead_letters :: "int \<Rightarrow> duration \<Rightarrow> dead_letters" where
  "new_dead_letters n ret =
     \<lparr>dq_jobs = [], dq_max = (if n \<le> 0 then 10000 else n),
      dq_retention = (if ret = 0 then 30 * 24 * 3600 * second else ret)\<rparr>"

definition move_to_dead_letter ::
  "gotime \<Rightarrow> string \<Rightarrow> job option \<Rightarrow> bool \<Rightarrow> dead_letters \<Rightarrow> dead_letters \<times> (job_error, unit) outcome" where
  "move_to_dead_letter now gen jo review q =
     (case jo of
        None \<Rightarrow> (q, Err (ErrText ''job cannot be nil''))
      | Some j \<Rightarrow>
          if int (length (dq_jobs q)) \<ge> dq_max q then (q, Err (ErrText ''dead letter queue is full''))
          else (q\<lparr>dq_jobs := AList.update gen
                  \<lparr>dj_id = gen, dj_original = jb_id j, dj_type = jb_type j, dj_data = jb_data j, dj_error = jb_error j,
                   dj_failures = jb_retries j, dj_last_failed = now, dj_moved = now, dj_expires = now + dq_retention q,
                   dj_retryable = (jb_retries j < jb_max_retries j), dj_review = review, dj_notes = []\<rparr> (dq_jobs q)\<rparr>,
                Ok ()))"

definition get_dead_letter :: "string \<Rightarrow> dead_letters \<Rightarrow> (job_error, dead_job) outcome" where
  "get_dead_letter i q =
     (case map_of (dq_jobs q) i of None \<Rightarrow> Err (ErrText (''DLQ job not found: '' @ i)) | Some d \<Rightarrow> Ok d)"

fun list_dead_loop :: "int \<Rightarrow> string \<Rightarrow> int \<Rightarrow> dead_job list \<Rightarrow> dead_job list" where
  "list_dead_loop limit typ k [] = []"
| "list_dead_loop limit typ k (d # ds) =
     (if k \<ge> limit then []
      else if typ \<noteq> [] \<and> dj_type d \<noteq> typ then list_dead_loop limit typ k ds
      else d # list_dead_loop limit typ (k + 1) ds)"

definition list_dead_letters :: "string list \<Rightarrow> int \<Rightarrow> string \<Rightarrow> dead_letters \<Rightarrow> dead_job list" where
  "list_dead_letters ks limit typ q = list_dead_loop limit typ 0 (List.map_filter (map_of (dq_jobs q)) ks)"

text \<open>A retry builds a new job and submits it; the entry stays where it is.\<close>

definition retry_dead_letter ::
  "job_config \<Rightarrow> priority_sort \<Rightarrow> gotime \<Rightarrow> string \<Rightarrow> jref \<Rightarrow> string \<Rightarrow> dead_letters \<Rightarrow> job_heap \<Rightarrow> mqueue
   \<Rightarrow> job_heap \<times> mqueue \<times> (job_error, unit) outcome" where
  "retry_dead_letter c srt now gen r i q h mq =
     (case map_of (dq_jobs q) i of
        None \<Rightarrow> (h, mq, Err (ErrText (''DLQ job not found: '' @ i)))
      | Some d \<Rightarrow>
          if \<not> dj_retryable d then (h, mq, Err (ErrText (''job not retryable: '' @ i)))
          else mq_submit srt now (Some r)
                 (h(r := add_job_tag (''dlq-'' @ i) (add_job_tag ''dlq-retry'' (create_job c gen now (dj_type d) (dj_data d))))) mq)"

definition update_dead_notes :: "string \<Rightarrow> string \<Rightarrow> dead_letters \<Rightarrow> dead_letters \<times> (job_error, unit) outcome" where
  "update_dead_notes i notes q =
     (case map_of (dq_jobs q) i of
        None \<Rightarrow> (q, Err (ErrText (''DLQ job not found: '' @ i)))
      | Some d \<Rightarrow> (q\<lparr>dq_jobs := AList.update i (d\<lparr>dj_notes := notes\<rparr>) (dq_jobs q)\<rparr>, Ok ()))"

definition delete_dead_letter :: "string \<Rightarrow> dead_letters \<Rightarrow> dead_letters" where
  "delete_dead_letter i q = q\<lparr>dq_jobs := AList.delete i (dq_jobs q)\<rparr>"

definition cleanup_expired :: "gotime \<Rightarrow> dead_letters \<Rightarrow> dead_letters" where
  "cleanup_expired now q = q\<lparr>dq_jobs := filter (\<lambda>(i, d). \<not> dj_expires d < now) (dq_jobs q)\<rparr>"

definition bump_count :: "string \<Rightarrow> (string \<times> int) list \<Rightarrow> (string \<times> int) list" where
  "bump_count k m = AList.update k ((case map_of m k of None \<Rightarrow> 0 | Some n \<Rightarrow> n) + 1) m"

definition dead_letter_stats :: "string list \<Rightarrow> dead_letters \<Rightarrow> int \<times> int \<times> int \<times> (string \<times> int) list" where
  "dead_letter_stats ks q =
     (let ds = List.map_filter (map_of (dq_jobs q)) ks
      in (int (length (dq_jobs q)), int (length (filter dj_retryable ds)), int (length (filter dj_review ds)),
          fold (\<lambda>d. bump_count (dj_type d)) ds []))"

subsection \<open>The processor of dead letters\<close>

type_synonym 'w dead_handler = "'w \<Rightarrow> dead_job \<Rightarrow> 'w \<times> (job_error, unit) outcome"

definition process_dead_letter ::
  "'w dead_handler option \<Rightarrow> job_config \<Rightarrow> priority_sort \<Rightarrow> gotime \<Rightarrow> string \<Rightarrow> jref \<Rightarrow> string \<Rightarrow> dead_letters
   \<Rightarrow> 'w \<times> job_heap \<times> mqueue \<Rightarrow> ('w \<times> job_heap \<times> mqueue) \<times> (job_error, unit) outcome" where
  "process_dead_letter handler c srt now gen r i q s =
     (case s of (w, h, mq) \<Rightarrow>
        (case get_dead_letter i q of
           Err e \<Rightarrow> (s, Err e)
         | Panic \<Rightarrow> (s, Panic)
         | Ok d \<Rightarrow>
             (case handler of
                Some f \<Rightarrow> (case f w d of (w', res) \<Rightarrow> ((w', h, mq), res))
              | None \<Rightarrow>
                  if dj_retryable d then
                    (case retry_dead_letter c srt now gen r i q h mq of (h', mq', res) \<Rightarrow> ((w, h', mq'), res))
                  else (s, Err (ErrText ''job not retryable and no handler provided'')))))"

text \<open>The loop of \<open>ProcessAll\<close>: the entry at position \<open>n\<close> gets the \<open>n\<close>th new identifier and reference.\<close>

fun process_all_loop ::
  "'w dead_handler option \<Rightarrow> job_config \<Rightarrow> priority_sort \<Rightarrow> gotime \<Rightarrow> (nat \<Rightarrow> string) \<Rightarrow> (nat \<Rightarrow> jref) \<Rightarrow> nat \<Rightarrow> dead_letters
   \<Rightarrow> dead_job list \<Rightarrow> 'w \<times> job_heap \<times> mqueue \<Rightarrow> int \<Rightarrow> ('w \<times> job_heap \<times> mqueue) \<times> (job_error, int) outcome" where
  "process_all_loop handler c srt now gen ref n q [] s k = (s, Ok k)"
| "process_all_loop handler c srt now gen ref n q (d # ds) s k =
     (if dj_retryable d then
        (case process_dead_letter handler c srt now (gen n) (ref n) (dj_id d) q s of
           (s', Ok _) \<Rightarrow> process_all_loop handler c srt now gen ref (Suc n) q ds s' (k + 1)
         | (s', Err _) \<Rightarrow> process_all_loop handler c srt now gen ref (Suc n) q ds s' k
         | (s', Panic) \<Rightarrow> (s', Panic))
      else process_all_loop handler c srt now gen ref (Suc n) q ds s k)"

definition process_all_dead ::
  "'w dead_handler option \<Rightarrow> job_config \<Rightarrow> priority_sort \<Rightarrow> gotime \<Rightarrow> (nat \<Rightarrow> string) \<Rightarrow> (nat \<Rightarrow> jref) \<Rightarrow> string list
   \<Rightarrow> dead_letters \<Rightarrow> 'w \<times> job_heap \<times> mqueue \<Rightarrow> ('w \<times> job_heap \<times> mqueue) \<times> (job_error, int) outcome" where
  "process_all_dead handler c srt now gen ref ks q s =
     process_all_loop handler c srt now gen ref 0 q (list_dead_letters ks 1000 [] q) s 0"

subsection \<open>Analysis\<close>

record dead_patterns =
  dp_total :: int
  dp_errors :: "(string \<times> int) list"
  dp_types :: "(string \<times> int) list"
  dp_average :: int
  dp_oldest :: "dead_job option"
  dp_newest :: "dead_job option"

definition note_dead :: "dead_job \<Rightarrow> dead_patterns \<Rightarrow> dead_patterns" where
  "note_dead d p =
     p\<lparr>dp_errors := bump_count (dj_error d) (dp_errors p), dp_types := bump_count (dj_type d) (dp_types p),
       dp_average := i64 (dp_average p + dj_failures d),
       dp_oldest := (case dp_oldest p of None \<Rightarrow> Some d
         | Some o' \<Rightarrow> if dj_moved d < dj_moved o' then Some d else Some o'),
       dp_newest := (case dp_newest p of None \<Rightarrow> Some d
         | Some n \<Rightarrow> if dj_moved n < dj_moved d then Some d else Some n)\<rparr>"

definition analyze_patterns :: "string list \<Rightarrow> dead_letters \<Rightarrow> dead_patterns" where
  "analyze_patterns ks q =
     (let n = int (length (dq_jobs q));
          p0 = \<lparr>dp_total = n, dp_errors = [], dp_types = [], dp_average = 0, dp_oldest = None, dp_newest = None\<rparr>
      in if n = 0 then p0
         else (let p = fold note_dead (List.map_filter (map_of (dq_jobs q)) ks) p0
               in p\<lparr>dp_average := dp_average p sdiv n\<rparr>))"

definition swap_if_more :: "nat \<Rightarrow> nat \<Rightarrow> (string \<times> int) list \<Rightarrow> (string \<times> int) list" where
  "swap_if_more i j xs = (if snd (xs ! j) > snd (xs ! i) then xs[i := xs ! j, j := xs ! i] else xs)"

definition exchange_row :: "nat \<Rightarrow> (string \<times> int) list \<Rightarrow> (string \<times> int) list" where
  "exchange_row i xs = fold (\<lambda>j. swap_if_more i j) [Suc i..<length xs] xs"

definition exchange_sort :: "(string \<times> int) list \<Rightarrow> (string \<times> int) list" where
  "exchange_sort xs = fold exchange_row [0..<length xs] xs"

text \<open>\<open>es\<close> is the table of errors in the order in which it is ranged over.\<close>

definition top_errors :: "int \<Rightarrow> (string \<times> int) list \<Rightarrow> (string \<times> int) list" where
  "top_errors limit es = take (nat limit) (exchange_sort es)"

subsection \<open>The exchange sort\<close>

lemma swap_if_more_length [simp]: "length (swap_if_more i j xs) = length xs"
  by (simp add: swap_if_more_def)

lemma swap_if_more_mset [simp]: "i < length xs \<Longrightarrow> j < length xs \<Longrightarrow> mset (swap_if_more i j xs) = mset xs"
  by (simp add: swap_if_more_def mset_swap)

lemma swap_if_more_nth:
  assumes "i < j" "j < length xs"
  shows "k \<noteq> i \<Longrightarrow> k \<noteq> j \<Longrightarrow> swap_if_more i j xs ! k = xs ! k"
    "snd (swap_if_more i j xs ! i) = max (snd (xs ! i)) (snd (xs ! j))"
    "snd (swap_if_more i j xs ! j) = min (snd (xs ! i)) (snd (xs ! j))"
  using assms by (auto simp: swap_if_more_def nth_list_update)

text \<open>
  A row puts the largest of the rest at its place, keeps what is before, and only permutes the rest,
  which a bound of the rest shows.
\<close>

lemma exchange_row_prefix:
  assumes "i < m" "m \<le> length xs"
  shows "let ys = fold (\<lambda>j. swap_if_more i j) [Suc i..<m] xs
    in length ys = length xs \<and> mset ys = mset xs \<and> (\<forall>k. k < i \<or> m \<le> k \<longrightarrow> ys ! k = xs ! k)
       \<and> (\<forall>k. i < k \<and> k < m \<longrightarrow> snd (ys ! k) \<le> snd (ys ! i))
       \<and> (\<forall>b. (\<forall>k. i \<le> k \<and> k < m \<longrightarrow> snd (xs ! k) \<le> b) \<longrightarrow> (\<forall>k. i \<le> k \<and> k < m \<longrightarrow> snd (ys ! k) \<le> b))"
  using assms
proof (induction m)
  case (Suc m)
  show ?case
  proof (cases "i = m")
    case True
    then show ?thesis by (simp add: Let_def)
  next
    case False
    then have i: "i < m" using Suc.prems by simp
    define ys where "ys = fold (\<lambda>j. swap_if_more i j) [Suc i..<m] xs"
    have ih: "length ys = length xs" "mset ys = mset xs" "\<And>k. k < i \<or> m \<le> k \<Longrightarrow> ys ! k = xs ! k"
      "\<And>k. i < k \<Longrightarrow> k < m \<Longrightarrow> snd (ys ! k) \<le> snd (ys ! i)"
      "\<And>b k. (\<And>k. i \<le> k \<Longrightarrow> k < m \<Longrightarrow> snd (xs ! k) \<le> b) \<Longrightarrow> i \<le> k \<Longrightarrow> k < m \<Longrightarrow> snd (ys ! k) \<le> b"
      using Suc.IH [OF i Suc_leD [OF Suc.prems(2)]] unfolding Let_def ys_def [symmetric] by blast+
    define zs where "zs = swap_if_more i m ys"
    have m: "m < length ys" using ih(1) Suc.prems by simp
    note nth = swap_if_more_nth [OF i m, folded zs_def]
    have step: "fold (\<lambda>j. swap_if_more i j) [Suc i..<Suc m] xs = zs"
      using i by (simp add: zs_def ys_def upt_Suc_append)
    have len: "length zs = length xs" "mset zs = mset xs" using ih(1,2) i m by (simp_all add: zs_def)
    have keep: "zs ! k = xs ! k" if "k < i \<or> Suc m \<le> k" for k
      using that i ih(3) nth(1) by auto
    have top: "snd (zs ! k) \<le> snd (zs ! i)" if "i < k" "k < Suc m" for k
      using that ih(4) [of k] nth by (cases "k = m") (auto simp: less_Suc_eq)
    have bound: "snd (zs ! k) \<le> b" if b: "\<And>k. i \<le> k \<Longrightarrow> k < Suc m \<Longrightarrow> snd (xs ! k) \<le> b" and "i \<le> k" "k < Suc m" for b k
    proof -
      have y: "snd (ys ! x) \<le> b" if "i \<le> x" "x < m" for x
        using ih(5) [of b x] b that by simp
      have "snd (ys ! m) \<le> b" using ih(3) [of m] b [of m] i by simp
      then show ?thesis
        using y [of i] y [of k] i nth that(2,3) by (cases "k = i"; cases "k = m") (auto simp: less_Suc_eq)
    qed
    show ?thesis unfolding step Let_def using len keep top bound by blast
  qed
qed simp

lemma exchange_row_props:
  assumes "i < length xs"
  shows "length (exchange_row i xs) = length xs" "mset (exchange_row i xs) = mset xs"
    "\<And>k. k < i \<Longrightarrow> exchange_row i xs ! k = xs ! k"
    "\<And>k. i < k \<Longrightarrow> k < length xs \<Longrightarrow> snd (exchange_row i xs ! k) \<le> snd (exchange_row i xs ! i)"
    "\<And>b k. (\<And>k. i \<le> k \<Longrightarrow> k < length xs \<Longrightarrow> snd (xs ! k) \<le> b) \<Longrightarrow> i \<le> k \<Longrightarrow> k < length xs
       \<Longrightarrow> snd (exchange_row i xs ! k) \<le> b"
  using exchange_row_prefix [OF assms order.refl] by (simp_all add: exchange_row_def Let_def)

lemma exchange_rows:
  assumes "n \<le> length xs"
  shows "let ys = fold exchange_row [0..<n] xs
    in length ys = length xs \<and> mset ys = mset xs
       \<and> (\<forall>j k. j < n \<and> j < k \<and> k < length xs \<longrightarrow> snd (ys ! k) \<le> snd (ys ! j))"
  using assms
proof (induction n)
  case (Suc n)
  define ys where "ys = fold exchange_row [0..<n] xs"
  have ih: "length ys = length xs" "mset ys = mset xs"
    "\<And>j k. j < n \<Longrightarrow> j < k \<Longrightarrow> k < length xs \<Longrightarrow> snd (ys ! k) \<le> snd (ys ! j)"
    using Suc.IH Suc.prems by (simp_all add: Let_def ys_def [symmetric])
  have n: "n < length ys" using Suc.prems ih(1) by simp
  note row = exchange_row_props [OF n]
  have "snd (exchange_row n ys ! k) \<le> snd (exchange_row n ys ! j)" if "j < Suc n" "j < k" "k < length xs" for j k
  proof (cases "j = n")
    case True
    then show ?thesis using row(4) that ih(1) by simp
  next
    case False
    then have j: "j < n" using that by simp
    then have e: "exchange_row n ys ! j = ys ! j" by (rule row(3))
    show ?thesis
    proof (cases "k < n")
      case True
      then show ?thesis using row(3) e ih(3) j that by simp
    next
      case False
      then show ?thesis using row(5) [of "snd (ys ! j)" k] ih(1) ih(3) [OF j] e j that by simp
    qed
  qed
  then show ?case using row(1,2) ih(1,2) by (simp add: Let_def ys_def [symmetric])
qed simp

text \<open>The most frequent errors: whatever order the table of errors is ranged over, the answer is the first
  limit entries (none for a negative limit) of an arrangement of the whole table by falling count.\<close>

theorem top_errors_exact:
  "\<exists>ys. mset ys = mset es \<and> sorted_wrt (\<lambda>a b. snd b \<le> snd a) ys
     \<and> top_errors limit es = take (nat limit) ys \<and> length (top_errors limit es) = min (nat limit) (length es)"
proof -
  have "length (exchange_sort es) = length es" "mset (exchange_sort es) = mset es"
    "sorted_wrt (\<lambda>a b. snd b \<le> snd a) (exchange_sort es)"
    using exchange_rows [of "length es" es]
    by (simp_all add: exchange_sort_def Let_def sorted_wrt_iff_nth_less)
  then show ?thesis unfolding top_errors_def by (intro exI [of _ "exchange_sort es"]) simp
qed

subsection \<open>What is retryable\<close>

lemma resubmit_not_failed:
  assumes "jb_status (pr_heap p r) = ''retrying''"
  shows "jb_status (pr_heap (resubmit srt now r p) r) \<noteq> ''failed''"
  using assms by (auto simp: resubmit_def mq_submit_def Let_def split: outcome.splits if_splits)

lemma attempt_failed_uses_up:
  assumes "jb_status (pr_heap (job_attempt_failed srt now e r p) r) = ''failed''"
  shows "jb_max_retries (pr_heap (job_attempt_failed srt now e r p) r) \<le> jb_retries (pr_heap (job_attempt_failed srt now e r p) r)"
proof -
  define j where "j = (pr_heap p r)\<lparr>jb_retries := i64 (jb_retries (pr_heap p r) + 1), jb_status := ''retrying''\<rparr>"
  have "jb_status (pr_heap (resubmit srt now r (set_job r j p)) r) \<noteq> ''failed''"
    by (rule resubmit_not_failed) (simp add: j_def)
  then have "\<not> i64 (jb_retries (pr_heap p r) + 1) < jb_max_retries (pr_heap p r)"
    using assms by (auto simp: job_attempt_failed_def Let_def j_def)
  then show ?thesis by (simp add: job_attempt_failed_def Let_def)
qed

lemma failed_by_handler:
  assumes "process_job srt t0 t1 r p = Some p'" "pr_handlers p (jb_type (pr_heap p r)) = Some f"
    "jb_status (pr_heap p' r) = ''failed''"
  shows "jb_max_retries (pr_heap p' r) \<le> jb_retries (pr_heap p' r)"
proof -
  define p1 where "p1 = set_job r ((pr_heap p r)\<lparr>jb_status := ''running'', jb_started := t0\<rparr>)
                 (bump_stats (\<lambda>s. s\<lparr>ps_active := ps_active s + 1\<rparr>) p)"
  obtain w j res where run: "f (pr_world p1) (t0 + jb_timeout (pr_heap p1 r)) (pr_heap p1 r) = (w, j, res)"
    by (metis prod_cases3)
  define p2 where "p2 = p1\<lparr>pr_world := w, pr_heap := (pr_heap p1)(r := j)\<rparr>"
  have h: "pr_handlers p1 (jb_type (pr_heap p1 r)) = Some f" using assms(2) by (simp add: p1_def)
  show ?thesis
  proof (cases res)
    case (Ok u)
    then have "pr_heap p' r = pr_heap (job_attempt_succeeded t1 r p2) r"
      using assms(1) h run unfolding process_job_def Let_def p1_def [symmetric] by (auto simp: p2_def)
    then have "jb_status (pr_heap p' r) = ''completed''" by (simp add: job_attempt_succeeded_def)
    then show ?thesis using assms(3) by simp
  next
    case (Err e)
    then have "pr_heap p' r = pr_heap (job_attempt_failed srt t1 e r p2) r"
      using assms(1) h run unfolding process_job_def Let_def p1_def [symmetric] by (auto simp: p2_def)
    then show ?thesis using assms(3) attempt_failed_uses_up by metis
  next
    case Panic
    then show ?thesis using assms(1) h run unfolding process_job_def Let_def p1_def [symmetric] by simp
  qed
qed

text \<open>What a handler failed is never retried from the dead letters: a job that a worker leaves failed
  after its handler ran is entered as not retryable, so its default processing is an error and submits
  nothing, whatever limits and counters the job has.\<close>

theorem worked_out_jobs_not_retryable:
  assumes "process_job srt t0 t1 r p = Some p'" "pr_handlers p (jb_type (pr_heap p r)) = Some f"
    "jb_status (pr_heap p' r) = ''failed''"
    "move_to_dead_letter now gen (Some (pr_heap p' r)) review q = (q', Ok ())"
  shows "process_dead_letter None c srt' now' gen' r' gen q' s
    = (s, Err (ErrText ''job not retryable and no handler provided''))"
proof -
  have "\<not> jb_retries (pr_heap p' r) < jb_max_retries (pr_heap p' r)"
    using failed_by_handler [OF assms(1-3)] by simp
  then obtain d where "map_of (dq_jobs q') gen = Some d" "\<not> dj_retryable d"
    using assms(4) by (auto simp: move_to_dead_letter_def update_conv split: if_splits)
  then show ?thesis by (simp add: process_dead_letter_def get_dead_letter_def split: prod.split)
qed

lemma worked_out_jobs_not_retryable_witness:
  "process_dead_letter None default_job_config falling_sort 9 ''n'' 7 ''d''
      (fst (move_to_dead_letter 8 ''d''
        (Some (pr_heap (the (process_job falling_sort 2 3 0
          (sample_processor\<lparr>pr_heap := \<lambda>_. (sample_job ''a'' 5)\<lparr>jb_max_retries := 1\<rparr>\<rparr>))) 0)) False (new_dead_letters 5 1)))
      ((), \<lambda>_. sample_job ''z'' 1, new_memory_queue 3)
    = (((), \<lambda>_. sample_job ''z'' 1, new_memory_queue 3), Err (ErrText ''job not retryable and no handler provided''))"
proof -
  define p where "p = sample_processor\<lparr>pr_heap := \<lambda>_. (sample_job ''a'' 5)\<lparr>jb_max_retries := 1\<rparr>\<rparr>"
  have h: "pr_handlers p (jb_type (pr_heap p 0)) = Some flaky_handler"
    by (simp add: p_def sample_processor_def sample_job_def create_job_def create_job_with_priority_def
        mq_submit_def job_validator_def default_job_config_def new_memory_queue_def Let_def)
  have "\<exists>p'. process_job falling_sort 2 3 0 p = Some p' \<and> jb_status (pr_heap p' 0) = ''failed''"
    using h unfolding process_job_def Let_def
    by (simp add: flaky_handler_def p_def sample_job_def create_job_def create_job_with_priority_def
        default_job_config_def job_attempt_failed_def i64_id Let_def)
  then obtain p' where p': "process_job falling_sort 2 3 0 p = Some p'" "jb_status (pr_heap p' 0) = ''failed''"
    by blast
  have "move_to_dead_letter 8 ''d'' (Some (pr_heap p' 0)) False (new_dead_letters 5 1)
      = (fst (move_to_dead_letter 8 ''d'' (Some (pr_heap p' 0)) False (new_dead_letters 5 1)), Ok ())"
    by (simp add: move_to_dead_letter_def new_dead_letters_def)
  from worked_out_jobs_not_retryable [OF p'(1) h p'(2) this]
  show ?thesis unfolding p_def [symmetric] p'(1) option.sel .
qed

text \<open>A retry leaves the entry in place, so each pass over the dead letters submits it once more.\<close>

lemma retried_again:
  assumes "map_of (dq_jobs q) i = Some d" "dj_retryable d" "dj_type d \<noteq> []" "0 \<le> jc_max_retries c" "0 \<le> jc_timeout c"
    "sorts_falling srt" "int (length (mq_jobs mq)) < mq_max mq"
    "retry_dead_letter c srt now gen r i q h mq = (h', mq', res)"
  shows "res = Ok () \<and> mset (mq_pending mq') = add_mset r (mset (mq_pending mq))"
  using assms
  by (auto simp: retry_dead_letter_def mq_submit_def job_validator_def create_job_def add_job_tag_def
      sorts_falling_def Let_def)

lemma cleanup_exact:
  "distinct (map fst (dq_jobs q)) \<Longrightarrow>
   map_of (dq_jobs (cleanup_expired now q)) i
     = (case map_of (dq_jobs q) i of None \<Rightarrow> None | Some d \<Rightarrow> if dj_expires d < now then None else Some d)"
proof -
  assume d: "distinct (map fst (dq_jobs q))"
  have "map_of (filter (\<lambda>(i, d). \<not> dj_expires d < now) xs) i
      = (case map_of xs i of None \<Rightarrow> None | Some d \<Rightarrow> if dj_expires d < now then None else Some d)"
    if "distinct (map fst xs)" for xs
    using that
    by (induction xs) (auto split: option.splits simp: map_of_eq_None_iff image_iff dest: map_of_SomeD)
  from this [OF d] show ?thesis by (simp add: cleanup_expired_def)
qed

end
