(* ===== verification/Cached_Store.thy ===== *)
theory Cached_Store
  imports State_Store
begin

section \<open>The cached state store (distributedstate/cache.go)\<close>

text \<open>
  A cache with a time to live in front of any state store. Each call runs the underlying operation
  and then updates the cache; the calls of one client do not overlap here, and other clients write the
  underlying store between them. A run keeps, beside the results, the states of the underlying store
  after each step with their instants.
\<close>

record store_cache_entry =
  sc_value :: string
  sc_revision :: int
  sc_at :: gotime

type_synonym store_cache = "string \<rightharpoonup> store_cache_entry"

definition cache_fill :: "gotime \<Rightarrow> string \<Rightarrow> string \<Rightarrow> store_cache \<Rightarrow> store_cache" where
  "cache_fill now k v c = c(k \<mapsto> \<lparr>sc_value = v, sc_revision = 0, sc_at = now\<rparr>)"

definition cs_put :: "'s store_ops \<Rightarrow> gotime \<Rightarrow> string \<Rightarrow> string \<Rightarrow> 's \<times> store_cache \<Rightarrow> ('s \<times> store_cache) \<times> bool" where
  "cs_put ops now k v x =
     (case x of (s, c) \<Rightarrow>
        (case so_put ops s k v of (s', ok) \<Rightarrow> ((s', if ok then cache_fill now k v c else c), ok)))"

definition cs_get :: "'s store_ops \<Rightarrow> duration \<Rightarrow> gotime \<Rightarrow> string \<Rightarrow> 's \<times> store_cache \<Rightarrow> ('s \<times> store_cache) \<times> string option" where
  "cs_get ops ttl now k x =
     (case x of (s, c) \<Rightarrow>
        (let miss = (case so_get ops s k of None \<Rightarrow> ((s, c), None) | Some v \<Rightarrow> ((s, cache_fill now k v c), Some v))
         in case c k of
              None \<Rightarrow> miss
            | Some e \<Rightarrow> if now - sc_at e < ttl then ((s, c), Some (sc_value e)) else miss))"

definition cs_delete :: "'s store_ops \<Rightarrow> string \<Rightarrow> 's \<times> store_cache \<Rightarrow> ('s \<times> store_cache) \<times> bool" where
  "cs_delete ops k x =
     (case x of (s, c) \<Rightarrow> (case so_delete ops s k of (s', ok) \<Rightarrow> ((s', if ok then c(k := None) else c), ok)))"

definition cs_cas ::
  "'s store_ops \<Rightarrow> gotime \<Rightarrow> string \<Rightarrow> string \<Rightarrow> string \<Rightarrow> 's \<times> store_cache \<Rightarrow> ('s \<times> store_cache) \<times> bool option" where
  "cs_cas ops now k old new x =
     (case x of (s, c) \<Rightarrow>
        (case so_cas ops s k old new of (s', r) \<Rightarrow> ((s', if r = Some True then cache_fill now k new c else c), r)))"

definition cs_get_rev :: "'s store_ops \<Rightarrow> gotime \<Rightarrow> string \<Rightarrow> 's \<times> store_cache \<Rightarrow> ('s \<times> store_cache) \<times> (string \<times> int) option" where
  "cs_get_rev ops now k x =
     (case x of (s, c) \<Rightarrow>
        (case so_get_rev ops s k of
           None \<Rightarrow> ((s, c), None)
         | Some (v, r) \<Rightarrow> ((s, c(k \<mapsto> \<lparr>sc_value = v, sc_revision = r, sc_at = now\<rparr>)), Some (v, r))))"

definition cs_put_lease ::
  "'s store_ops \<Rightarrow> gotime \<Rightarrow> string \<Rightarrow> string \<Rightarrow> duration \<Rightarrow> 's \<times> store_cache \<Rightarrow> ('s \<times> store_cache) \<times> int option" where
  "cs_put_lease ops now k v lease x =
     (case x of (s, c) \<Rightarrow>
        (case so_put_lease ops s k v lease of (s', r) \<Rightarrow> ((s', if r = None then c else cache_fill now k v c), r)))"

text \<open>A released lease drops the entries whose time is up, not those of the lease.\<close>

definition cs_release :: "'s store_ops \<Rightarrow> duration \<Rightarrow> gotime \<Rightarrow> int \<Rightarrow> 's \<times> store_cache \<Rightarrow> ('s \<times> store_cache) \<times> bool" where
  "cs_release ops ttl now n x =
     (case x of (s, c) \<Rightarrow>
        (case so_release ops s n of (s', ok) \<Rightarrow>
           ((s', if ok then (\<lambda>k. case c k of None \<Rightarrow> None | Some e \<Rightarrow> if now - sc_at e > ttl then None else Some e) else c), ok)))"

text \<open>The callback put around the one of a watcher.\<close>

definition cs_on_event :: "gotime \<Rightarrow> string \<Rightarrow> state_event \<Rightarrow> store_cache \<Rightarrow> store_cache" where
  "cs_on_event now k e c =
     (case se_type e of
        EventTypeDelete \<Rightarrow> c(k := None)
      | EventTypePut \<Rightarrow> c(k \<mapsto> \<lparr>sc_value = se_value e, sc_revision = se_revision e, sc_at = now\<rparr>))"

definition cs_list :: "'s store_ops \<Rightarrow> string \<Rightarrow> 's \<times> store_cache \<Rightarrow> (string \<times> string) list option" where
  "cs_list ops p x = so_list ops (fst x) p"

definition cs_note_op :: "gotime \<Rightarrow> store_operation \<Rightarrow> store_cache \<Rightarrow> store_cache" where
  "cs_note_op now op c =
     (case op of OperationDelete k \<Rightarrow> c(k := None) | OperationPut k v \<Rightarrow> cache_fill now k v c | OperationCompare k v \<Rightarrow> c)"

definition cs_transaction ::
  "'s store_ops \<Rightarrow> gotime \<Rightarrow> store_operation list \<Rightarrow> 's \<times> store_cache \<Rightarrow> ('s \<times> store_cache) \<times> bool option" where
  "cs_transaction ops now tx x =
     (case x of (s, c) \<Rightarrow>
        (case so_transaction ops s tx of (s', r) \<Rightarrow> ((s', if r = Some True then fold (cs_note_op now) tx c else c), r)))"

definition cs_invalidate :: "string \<Rightarrow> store_cache \<Rightarrow> store_cache" where
  "cs_invalidate k c = c(k := None)"

definition cs_invalidate_all :: "store_cache \<Rightarrow> store_cache" where
  "cs_invalidate_all c = Map.empty"

subsection \<open>Runs\<close>

datatype 's cs_call =
    CsPut string string
  | CsGet string
  | CsDelete string
  | CsCas string string string
  | CsGetRev string
  | CsPutLease string string duration
  | CsRelease int
  | CsTransaction "store_operation list"
  | CsInvalidate string
  | CsInvalidateAll
  | Others "'s \<Rightarrow> 's"

fun cs_step ::
  "'s store_ops \<Rightarrow> duration \<Rightarrow> gotime \<Rightarrow> 's cs_call \<Rightarrow> 's \<times> store_cache \<Rightarrow> ('s \<times> store_cache) \<times> (string \<times> string) list" where
  "cs_step ops ttl now (CsPut k v) x = (fst (cs_put ops now k v x), [])"
| "cs_step ops ttl now (CsGet k) x =
     (case cs_get ops ttl now k x of (x', r) \<Rightarrow> (x', case r of None \<Rightarrow> [] | Some v \<Rightarrow> [(k, v)]))"
| "cs_step ops ttl now (CsDelete k) x = (fst (cs_delete ops k x), [])"
| "cs_step ops ttl now (CsCas k old new) x = (fst (cs_cas ops now k old new x), [])"
| "cs_step ops ttl now (CsGetRev k) x =
     (case cs_get_rev ops now k x of (x', r) \<Rightarrow> (x', case r of None \<Rightarrow> [] | Some (v, _) \<Rightarrow> [(k, v)]))"
| "cs_step ops ttl now (CsPutLease k v lease) x = (fst (cs_put_lease ops now k v lease x), [])"
| "cs_step ops ttl now (CsRelease n) x = (fst (cs_release ops ttl now n x), [])"
| "cs_step ops ttl now (CsTransaction tx) x = (fst (cs_transaction ops now tx x), [])"
| "cs_step ops ttl now (CsInvalidate k) x = ((fst x, cs_invalidate k (snd x)), [])"
| "cs_step ops ttl now CsInvalidateAll x = ((fst x, cs_invalidate_all (snd x)), [])"
| "cs_step ops ttl now (Others f) x = ((f (fst x), snd x), [])"

record 's cs_trace =
  ct_state :: "'s \<times> store_cache"
  ct_history :: "(gotime \<times> 's) list"
  ct_reads :: "(gotime \<times> string \<times> string) list"

definition cs_trace_step :: "(gotime \<Rightarrow> 's store_ops) \<Rightarrow> duration \<Rightarrow> gotime \<times> 's cs_call \<Rightarrow> 's cs_trace \<Rightarrow> 's cs_trace" where
  "cs_trace_step ops ttl tc w =
     (case tc of (t, call) \<Rightarrow>
        (case cs_step (ops t) ttl t call (ct_state w) of
           (x, reads) \<Rightarrow>
             \<lparr>ct_state = x, ct_history = ct_history w @ [(t, fst x)], ct_reads = ct_reads w @ map (\<lambda>(k, v). (t, k, v)) reads\<rparr>))"

definition cs_run :: "(gotime \<Rightarrow> 's store_ops) \<Rightarrow> duration \<Rightarrow> (gotime \<times> 's cs_call) list \<Rightarrow> 's \<Rightarrow> 's cs_trace" where
  "cs_run ops ttl calls s =
     fold (cs_trace_step ops ttl) calls \<lparr>ct_state = (s, Map.empty), ct_history = [], ct_reads = []\<rparr>"

subsection \<open>What the cache asks of a store\<close>

fun tx_value :: "string \<Rightarrow> store_operation list \<Rightarrow> string option \<Rightarrow> string option" where
  "tx_value k [] v = v"
| "tx_value k (OperationPut j w # ops) v = tx_value k ops (if j = k then Some w else v)"
| "tx_value k (OperationDelete j # ops) v = tx_value k ops (if j = k then None else v)"
| "tx_value k (OperationCompare j w # ops) v = tx_value k ops v"

definition touches :: "string \<Rightarrow> store_operation \<Rightarrow> bool" where
  "touches k op = (case op of OperationPut j w \<Rightarrow> j = k | OperationDelete j \<Rightarrow> j = k | OperationCompare j w \<Rightarrow> False)"

lemma tx_value_untouched: "\<not> list_ex (touches k) tx \<Longrightarrow> tx_value k tx v = v"
  by (induction k tx v rule: tx_value.induct) (auto simp: touches_def)

lemma note_ops_untouched: "\<not> list_ex (touches k) tx \<Longrightarrow> fold (cs_note_op t) tx c k = c k"
  by (induction tx arbitrary: c) (auto simp: touches_def cs_note_op_def cache_fill_def split: store_operation.splits)

lemma note_ops_touched:
  "list_ex (touches k) tx \<Longrightarrow>
   fold (cs_note_op t) tx c k = map_option (\<lambda>w. \<lparr>sc_value = w, sc_revision = 0, sc_at = t\<rparr>) (tx_value k tx v)"
proof (induction tx arbitrary: c v)
  case (Cons op tx)
  show ?case
  proof (cases "list_ex (touches k) tx")
    case True
    then show ?thesis using Cons.IH by (cases op) simp_all
  next
    case False
    then have "touches k op" using Cons.prems by simp
    moreover have "fold (cs_note_op t) (op # tx) c k = cs_note_op t op c k"
      using False by (simp add: note_ops_untouched)
    ultimately show ?thesis
      using False cs_note_op_def [of t op c] unfolding \<open>fold _ _ _ _ = _\<close>
      by (cases op) (simp_all add: touches_def tx_value_untouched cache_fill_def)
  qed
qed simp

lemma note_ops_cache:
  "fold (cs_note_op t) tx c k = Some e \<Longrightarrow> c k = Some e \<or> sc_at e = t \<and> tx_value k tx None = Some (sc_value e)"
  using note_ops_touched [of k tx t c None] note_ops_untouched [of k tx t c]
  by (cases "list_ex (touches k) tx") auto

locale readable_store = cell_store ops val
  for ops :: "gotime \<Rightarrow> 's store_ops" and val :: "'s \<Rightarrow> string \<Rightarrow> string" +
  assumes get_rev_law: "so_get_rev (ops t) s k = Some (v, r) \<Longrightarrow> v = val s k"
    and put_law: "so_put (ops t) s k v = (s', True) \<Longrightarrow> val s' k = v"
    and put_lease_law: "so_put_lease (ops t) s k v lease = (s', Some n) \<Longrightarrow> val s' k = v"
    and transaction_law: "so_transaction (ops t) s tx = (s', Some True) \<Longrightarrow> tx_value k tx None = Some v \<Longrightarrow> val s' k = v"
begin

text \<open>A step keeps an entry, drops it, or makes one of the value the store then holds.\<close>

definition step_dated :: "gotime \<Rightarrow> store_cache \<Rightarrow> 's \<times> store_cache \<Rightarrow> bool" where
  "step_dated t c x \<longleftrightarrow> (\<forall>k e. snd x k = Some e \<longrightarrow> c k = Some e \<or> sc_at e = t \<and> val (fst x) k = sc_value e)"

lemma step_dated_same: "step_dated t c (s, c)"
  by (simp add: step_dated_def)

lemma step_dated_drop: "step_dated t c (s, c(k := None))"
  by (simp add: step_dated_def)

lemma step_dated_fill: "val s k = v \<Longrightarrow> step_dated t c (s, c(k \<mapsto> \<lparr>sc_value = v, sc_revision = r, sc_at = t\<rparr>))"
  by (simp add: step_dated_def)

lemmas step_dated_cases = step_dated_same step_dated_drop step_dated_fill [of _ _ _ _ _ 0, folded cache_fill_def]

lemma cs_step_dated:
  assumes "cs_step (ops t) ttl t call (s, c) = (x, reads)"
  shows "step_dated t c x"
proof (cases call)
  case (CsPut k v)
  then show ?thesis
    using assms put_law by (auto simp: cs_put_def intro!: step_dated_cases split: prod.splits if_splits)
next
  case (CsGet k)
  then show ?thesis
    using assms get_val by (auto simp: cs_get_def Let_def intro!: step_dated_cases split: prod.splits if_splits option.splits)
next
  case (CsDelete k)
  then show ?thesis
    using assms by (auto simp: cs_delete_def intro!: step_dated_cases split: prod.splits if_splits)
next
  case (CsCas k old new)
  then show ?thesis
    using assms cas_ok by (auto simp: cs_cas_def intro!: step_dated_cases split: prod.splits if_splits)
next
  case (CsGetRev k)
  then show ?thesis
    using assms get_rev_law
    by (auto simp: cs_get_rev_def intro!: step_dated_same step_dated_fill split: prod.splits option.splits)
next
  case (CsPutLease k v lease)
  then show ?thesis
    using assms put_lease_law by (auto simp: cs_put_lease_def intro!: step_dated_cases split: prod.splits if_splits)
next
  case (CsRelease n)
  then show ?thesis
    using assms by (auto simp: cs_release_def step_dated_def split: prod.splits if_splits option.splits)
next
  case (CsTransaction tx)
  obtain s' r where tx: "so_transaction (ops t) s tx = (s', r)" by (cases "so_transaction (ops t) s tx")
  show ?thesis
  proof (cases "r = Some True")
    case True
    then have "step_dated t c (s', fold (cs_note_op t) tx c)"
      using transaction_law tx note_ops_cache [of t tx c] unfolding step_dated_def fst_conv snd_conv by blast
    then show ?thesis using assms CsTransaction tx True by (auto simp: cs_transaction_def)
  next
    case False
    then show ?thesis using assms CsTransaction tx by (auto simp: cs_transaction_def step_dated_same)
  qed
qed (use assms in \<open>auto simp: step_dated_def cs_invalidate_def cs_invalidate_all_def split: if_splits\<close>)

text \<open>A read is of an entry not yet too old, or of the store.\<close>

lemma cs_step_reads:
  assumes "cs_step (ops t) ttl t call (s, c) = (x, reads)" "(k, v) \<in> set reads"
  shows "(\<exists>e. c k = Some e \<and> t - sc_at e < ttl \<and> v = sc_value e) \<or> v = val (fst x) k"
proof (cases call)
  case (CsGet j)
  then show ?thesis
    using assms get_val by (auto simp: cs_get_def Let_def split: prod.splits if_splits option.splits)
next
  case (CsGetRev j)
  then show ?thesis
    using assms get_rev_law by (auto simp: cs_get_rev_def split: prod.splits option.splits)
qed (use assms in auto)

definition dated :: "'s cs_trace \<Rightarrow> bool" where
  "dated w \<longleftrightarrow> (\<forall>k e. snd (ct_state w) k = Some e \<longrightarrow>
     (\<exists>s. (sc_at e, s) \<in> set (ct_history w) \<and> val s k = sc_value e))"

definition fresh_read :: "duration \<Rightarrow> (gotime \<times> 's) list \<Rightarrow> gotime \<times> string \<times> string \<Rightarrow> bool" where
  "fresh_read ttl hist r = (case r of (t, k, v) \<Rightarrow> list_ex (\<lambda>(t', s). t - t' < max ttl 1 \<and> val s k = v) hist)"

lemma trace_step_fresh:
  assumes "dated w" "list_all (fresh_read ttl (ct_history w)) (ct_reads w)"
  shows "dated (cs_trace_step ops ttl tc w)"
    "list_all (fresh_read ttl (ct_history (cs_trace_step ops ttl tc w))) (ct_reads (cs_trace_step ops ttl tc w))"
proof -
  obtain t call where tc: "tc = (t, call)" by (cases tc)
  obtain s c where st: "ct_state w = (s, c)" by (cases "ct_state w")
  obtain x reads where step: "cs_step (ops t) ttl t call (s, c) = (x, reads)"
    by (cases "cs_step (ops t) ttl t call (s, c)")
  define w' where "w' = \<lparr>ct_state = x, ct_history = ct_history w @ [(t, fst x)],
    ct_reads = ct_reads w @ map (\<lambda>(k, v). (t, k, v)) reads\<rparr>"
  have w': "cs_trace_step ops ttl tc w = w'" by (simp add: cs_trace_step_def tc st step w'_def)
  have old: "\<exists>s'. (sc_at e, s') \<in> set (ct_history w) \<and> val s' k = sc_value e" if "c k = Some e" for k e
    using assms(1) st that by (auto simp: dated_def)
  have "dated w'"
    using cs_step_dated [OF step] old unfolding dated_def step_dated_def w'_def by fastforce
  moreover have "fresh_read ttl (ct_history w') (t, k, v)" if r: "(k, v) \<in> set reads" for k v
    using cs_step_reads [OF step r]
  proof
    assume "v = val (fst x) k"
    then show ?thesis by (simp add: fresh_read_def w'_def less_max_iff_disj)
  next
    assume "\<exists>e. c k = Some e \<and> t - sc_at e < ttl \<and> v = sc_value e"
    then obtain e where e: "c k = Some e" "t - sc_at e < ttl" "v = sc_value e" by blast
    moreover obtain s' where "(sc_at e, s') \<in> set (ct_history w)" "val s' k = v" using old [OF e(1)] e(3) by blast
    ultimately show ?thesis by (auto simp: fresh_read_def w'_def list_ex_iff intro!: bexI [of _ "(sc_at e, s')"])
  qed
  moreover have "fresh_read ttl (ct_history w') r" if "fresh_read ttl (ct_history w) r" for r
    using that by (auto simp: fresh_read_def w'_def split: prod.splits)
  ultimately show "dated (cs_trace_step ops ttl tc w)"
    "list_all (fresh_read ttl (ct_history (cs_trace_step ops ttl tc w))) (ct_reads (cs_trace_step ops ttl tc w))"
    using assms(2) unfolding w' by (auto simp: list_all_iff w'_def)
qed

lemma run_fresh: "list_all (fresh_read ttl (ct_history (cs_run ops ttl calls s))) (ct_reads (cs_run ops ttl calls s))"
proof -
  have "dated (fold (cs_trace_step ops ttl) calls w) \<and>
      list_all (fresh_read ttl (ct_history (fold (cs_trace_step ops ttl) calls w))) (ct_reads (fold (cs_trace_step ops ttl) calls w))"
    if "dated w" "list_all (fresh_read ttl (ct_history w)) (ct_reads w)" for w
    using that
  proof (induction calls arbitrary: w)
    case (Cons tc calls)
    then show ?case using trace_step_fresh [OF Cons.prems] by simp
  qed simp
  then show ?thesis by (simp add: cs_run_def dated_def)
qed

end

subsection \<open>In front of the store in memory\<close>

lemma ms_write_value: "ms_value (ms_write k v st) j = (if j = k then v else ms_value st j)"
  by (simp add: ms_value_def ms_write_def update_conv')

lemma notify_value [simp]: "ms_value (notify_watchers e st) k = ms_value st k"
  by (simp add: ms_value_def notify_watchers_def)

lemma ms_tx_value:
  "tx_value k tx v = Some w \<Longrightarrow> (v = None \<or> v = Some (ms_value st k)) \<Longrightarrow> ms_value (foldl ms_apply_op st tx) k = w"
proof (induction k tx v arbitrary: st rule: tx_value.induct)
  case (2 k j u ops v)
  then show ?case by (auto simp: ms_apply_op_def ms_write_value split: if_splits)
next
  case (3 k j ops v)
  have "ms_value (ms_erase j st) k = ms_value st k" if "j \<noteq> k"
    using that by (simp add: ms_value_def ms_erase_def delete_conv')
  then show ?case using 3 by (auto simp: ms_apply_op_def split: if_splits)
next
  case (4 k j u ops v)
  then show ?case by (auto simp: ms_apply_op_def)
qed auto

lemma leased_value [simp]: "ms_value (st\<lparr>ms_next := n, ms_leases := ls\<rparr>) k = ms_value st k"
  by (simp add: ms_value_def)

interpretation memory_cache: readable_store memory_ops ms_value
  by unfold_locales
    (auto simp: memory_ops_def ms_get_rev_def ms_put_def ms_put_lease_def ms_transaction_def ms_write_value Let_def
      ms_tx_value split: prod.splits if_splits)


subsection \<open>What the cache does not do\<close>

text \<open>
  An event that is delivered late replaces a newer entry: the revision is stored and never compared.
\<close>

lemma late_event_replaces_newer:
  assumes "c k = Some e" "se_type ev = EventTypePut" "se_revision ev < sc_revision e"
  shows "cs_on_event now k ev c k = Some \<lparr>sc_value = se_value ev, sc_revision = se_revision ev, sc_at = now\<rparr>"
  using assms by (simp add: cs_on_event_def)

text \<open>
  A lease that is released: the value is gone from the store and still read from the cache.
\<close>

lemma released_lease_still_read:
  "(case cs_put_lease (memory_ops 1) 1 ''k'' ''v'' 5 (new_memory_store, Map.empty) of (x, r) \<Rightarrow>
      (case cs_release (memory_ops 2) 10 2 1 x of (y, ok) \<Rightarrow>
         r = Some 1 \<and> ok \<and> ms_value (fst y) ''k'' = [] \<and> snd (cs_get (memory_ops 3) 10 3 ''k'' y) = Some ''v''))"
  by (simp add: cs_put_lease_def memory_ops_def ms_put_lease_def ms_write_def new_memory_store_def cs_release_def
      ms_release_def cs_get_def cache_fill_def ms_value_def Let_def)

end
