(* ===== verification/Rpc_Pool.thy ===== *)
theory Rpc_Pool
  imports Prelude
begin

section \<open>The connection pool (rpcpool/pool.go)\<close>

text \<open>
  Idle connections per target with the instant of their last use. A connection is a number; the
  network is what is dialled and closed. What \<open>Dial\<close> and \<open>Close\<close> of a connection answer is an argument.
\<close>

record rpc_pool =
  pp_max :: int
  pp_idle :: duration
  pp_dials :: bool
  pp_store :: "string \<Rightarrow> (nat \<times> gotime) list"

text \<open>\<open>pp_dials\<close> says whether a dial function is configured.\<close>

definition new_pool :: "int \<Rightarrow> duration \<Rightarrow> bool \<Rightarrow> rpc_pool" where
  "new_pool n idle dials =
     \<lparr>pp_max = (if n \<le> 0 then 4 else n), pp_idle = (if idle \<le> 0 then 2 * 60 * second else idle), pp_dials = dials,
      pp_store = (\<lambda>a. [])\<rparr>"

text \<open>The loop that closes what is idle for too long, from the head.\<close>

fun evict_idle :: "gotime \<Rightarrow> (nat \<times> gotime) list \<Rightarrow> nat list \<times> (nat \<times> gotime) list" where
  "evict_idle cutoff [] = ([], [])"
| "evict_idle cutoff ((c, used) # es) =
     (if used < cutoff then (case evict_idle cutoff es of (closed, rest) \<Rightarrow> (c # closed, rest)) else ([], (c, used) # es))"

datatype pool_answer = Pooled nat | MustDial | NoDialFunc

definition pool_get :: "gotime \<Rightarrow> string \<Rightarrow> rpc_pool \<Rightarrow> rpc_pool \<times> nat list \<times> pool_answer" where
  "pool_get now addr p =
     (case evict_idle (now - pp_idle p) (pp_store p addr) of
        (closed, rest) \<Rightarrow>
          if rest \<noteq> [] then (p\<lparr>pp_store := (pp_store p)(addr := butlast rest)\<rparr>, closed, Pooled (fst (last rest)))
          else (p\<lparr>pp_store := (pp_store p)(addr := rest)\<rparr>, closed, if pp_dials p then MustDial else NoDialFunc))"

definition pool_put :: "gotime \<Rightarrow> string \<Rightarrow> nat \<Rightarrow> rpc_pool \<Rightarrow> rpc_pool \<times> nat list" where
  "pool_put now addr c p =
     (if int (length (pp_store p addr)) \<ge> pp_max p then (p, [c])
      else (p\<lparr>pp_store := (pp_store p)(addr := pp_store p addr @ [(c, now)])\<rparr>, []))"

definition pool_discard :: "nat \<Rightarrow> rpc_pool \<Rightarrow> rpc_pool \<times> nat list" where
  "pool_discard c p = (p, [c])"

text \<open>
  \<open>Close\<close> over an order of the targets; \<open>fails\<close> says which connections answer an error, and the first
  of those is the result.
\<close>

definition pool_close :: "string list \<Rightarrow> (nat \<Rightarrow> string option) \<Rightarrow> rpc_pool \<Rightarrow> rpc_pool \<times> nat list \<times> string option" where
  "pool_close ks fails p =
     (let cs = concat (map (\<lambda>a. map fst (pp_store p a)) ks)
      in (p\<lparr>pp_store := (\<lambda>a. if a \<in> set ks then [] else pp_store p a)\<rparr>, cs,
          case List.map_filter fails cs of [] \<Rightarrow> None | e # es \<Rightarrow> Some e))"

subsection \<open>The pool and its callers\<close>

text \<open>
  \<open>nt_dialled\<close> is the target each connection was dialled for, \<open>nt_lent\<close> what callers hold,
  \<open>nt_closed\<close> what is closed. Callers give back, or discard, what they hold, to its target; time does
  not go back. Every answer to a Get is written down with its instant and target.
\<close>

record rpc_net =
  nt_pool :: rpc_pool
  nt_dialled :: "nat \<rightharpoonup> string"
  nt_lent :: "nat set"
  nt_closed :: "nat set"
  nt_clock :: gotime

inductive net_step :: "rpc_net \<Rightarrow> rpc_net \<Rightarrow> bool" where
  borrow: "nt_clock s \<le> now \<Longrightarrow> pool_get now addr (nt_pool s) = (p, closed, Pooled c) \<Longrightarrow>
    net_step s (s\<lparr>nt_pool := p, nt_closed := nt_closed s \<union> set closed, nt_lent := insert c (nt_lent s), nt_clock := now\<rparr>)"
| dial: "nt_clock s \<le> now \<Longrightarrow> pool_get now addr (nt_pool s) = (p, closed, MustDial) \<Longrightarrow> nt_dialled s c = None \<Longrightarrow>
    net_step s (s\<lparr>nt_pool := p, nt_closed := nt_closed s \<union> set closed, nt_dialled := (nt_dialled s)(c \<mapsto> addr),
      nt_lent := insert c (nt_lent s), nt_clock := now\<rparr>)"
| refused: "nt_clock s \<le> now \<Longrightarrow> pool_get now addr (nt_pool s) = (p, closed, r) \<Longrightarrow> (\<And>c. r \<noteq> Pooled c) \<Longrightarrow>
    net_step s (s\<lparr>nt_pool := p, nt_closed := nt_closed s \<union> set closed, nt_clock := now\<rparr>)"
| put_back: "nt_clock s \<le> now \<Longrightarrow> c \<in> nt_lent s \<Longrightarrow> nt_dialled s c = Some addr \<Longrightarrow>
    pool_put now addr c (nt_pool s) = (p, closed) \<Longrightarrow>
    net_step s (s\<lparr>nt_pool := p, nt_closed := nt_closed s \<union> set closed, nt_lent := nt_lent s - {c}, nt_clock := now\<rparr>)"
| discard: "c \<in> nt_lent s \<Longrightarrow> pool_discard c (nt_pool s) = (p, closed) \<Longrightarrow>
    net_step s (s\<lparr>nt_pool := p, nt_closed := nt_closed s \<union> set closed, nt_lent := nt_lent s - {c}\<rparr>)"
| close_all: "{a. pp_store (nt_pool s) a \<noteq> []} \<subseteq> set ks \<Longrightarrow> pool_close ks fails (nt_pool s) = (p, closed, e) \<Longrightarrow>
    net_step s (s\<lparr>nt_pool := p, nt_closed := nt_closed s \<union> set closed\<rparr>)"

definition net_start :: "int \<Rightarrow> duration \<Rightarrow> bool \<Rightarrow> rpc_net" where
  "net_start n idle dials = \<lparr>nt_pool = new_pool n idle dials, nt_dialled = Map.empty, nt_lent = {}, nt_closed = {}, nt_clock = 0\<rparr>"

inductive net_reachable :: "rpc_net \<Rightarrow> rpc_net \<Rightarrow> bool" for s0 where
  start: "net_reachable s0 s0"
| step: "net_reachable s0 s \<Longrightarrow> net_step s s' \<Longrightarrow> net_reachable s0 s'"

definition idle_in :: "rpc_net \<Rightarrow> string \<Rightarrow> nat list" where
  "idle_in s a = map fst (pp_store (nt_pool s) a)"

text \<open>
  Every dialled connection is idle in the pool of its own target, once, or lent, or closed, and only
  one of these; the slices are ordered by last use and within the limit.
\<close>

definition net_inv :: "rpc_net \<Rightarrow> bool" where
  "net_inv s \<longleftrightarrow> 0 < pp_max (nt_pool s)
     \<and> (\<forall>a. distinct (idle_in s a) \<and> int (length (idle_in s a)) \<le> pp_max (nt_pool s)
          \<and> sorted (map snd (pp_store (nt_pool s) a)) \<and> (\<forall>e \<in> set (pp_store (nt_pool s) a). snd e \<le> nt_clock s)
          \<and> (\<forall>c \<in> set (idle_in s a). nt_dialled s c = Some a \<and> c \<notin> nt_lent s \<and> c \<notin> nt_closed s))
     \<and> nt_lent s \<inter> nt_closed s = {} \<and> nt_lent s \<union> nt_closed s \<subseteq> dom (nt_dialled s)
     \<and> (\<forall>c a. nt_dialled s c = Some a \<longrightarrow> c \<in> set (idle_in s a) \<or> c \<in> nt_lent s \<or> c \<in> nt_closed s)"

lemma evict_idle_split:
  "evict_idle cutoff es = (closed, rest) \<Longrightarrow> \<exists>gone. es = gone @ rest \<and> closed = map fst gone
     \<and> (\<forall>e \<in> set gone. snd e < cutoff) \<and> (rest \<noteq> [] \<longrightarrow> cutoff \<le> snd (List.hd rest))"
proof (induction cutoff es arbitrary: closed rest rule: evict_idle.induct)
  case (2 cutoff c used es)
  show ?case
  proof (cases "used < cutoff")
    case True
    obtain cl r where e: "evict_idle cutoff es = (cl, r)" by (cases "evict_idle cutoff es")
    then obtain gone where "es = gone @ r" "cl = map fst gone" "\<forall>e \<in> set gone. snd e < cutoff"
      "r \<noteq> [] \<longrightarrow> cutoff \<le> snd (List.hd r)"
      using "2.IH" [OF True e] by blast
    moreover have "closed = c # cl" "rest = r" using "2.prems" True e by simp_all
    ultimately show ?thesis using True by (intro exI [of _ "(c, used) # gone"]) simp
  qed (use "2.prems" in auto)
qed simp

lemma pool_get_cases:
  assumes "pool_get now addr p = (p', closed, r)"
  obtains gone rest where "pp_store p addr = gone @ rest" "closed = map fst gone"
      "rest \<noteq> [] \<longrightarrow> now - pp_idle p \<le> snd (List.hd rest)"
      "p' = p\<lparr>pp_store := (pp_store p)(addr := butlast rest)\<rparr>"
      "rest \<noteq> [] \<longleftrightarrow> (\<exists>c. r = Pooled c)" "\<forall>c. r = Pooled c \<longrightarrow> c = fst (last rest)"
proof -
  obtain cl rest where e: "evict_idle (now - pp_idle p) (pp_store p addr) = (cl, rest)"
    by (cases "evict_idle (now - pp_idle p) (pp_store p addr)")
  obtain gone where "pp_store p addr = gone @ rest" "cl = map fst gone" "rest \<noteq> [] \<longrightarrow> now - pp_idle p \<le> snd (List.hd rest)"
    using evict_idle_split [OF e] by blast
  then show ?thesis
    using that [of gone rest] assms e by (auto simp: pool_get_def split: if_splits)
qed

subsection \<open>The invariant\<close>

text \<open>What one target contributes, for any slice of entries.\<close>

definition slice_ok :: "rpc_net \<Rightarrow> string \<Rightarrow> (nat \<times> gotime) list \<Rightarrow> bool" where
  "slice_ok s a es \<longleftrightarrow> distinct (map fst es) \<and> int (length es) \<le> pp_max (nt_pool s) \<and> sorted (map snd es)
     \<and> (\<forall>e \<in> set es. snd e \<le> nt_clock s \<and> nt_dialled s (fst e) = Some a \<and> fst e \<notin> nt_lent s \<and> fst e \<notin> nt_closed s)"

lemma net_inv_slices:
  "net_inv s \<longleftrightarrow> 0 < pp_max (nt_pool s) \<and> (\<forall>a. slice_ok s a (pp_store (nt_pool s) a))
     \<and> nt_lent s \<inter> nt_closed s = {} \<and> nt_lent s \<union> nt_closed s \<subseteq> dom (nt_dialled s)
     \<and> (\<forall>c a. nt_dialled s c = Some a \<longrightarrow> c \<in> set (idle_in s a) \<or> c \<in> nt_lent s \<or> c \<in> nt_closed s)"
  by (auto simp: net_inv_def slice_ok_def idle_in_def)

lemma slice_ok_parts:
  "slice_ok s a (gone @ rest) \<Longrightarrow> slice_ok s a gone \<and> slice_ok s a rest"
  by (auto simp: slice_ok_def sorted_append)

lemma slice_ok_snoc:
  assumes "slice_ok s a es" "int (length es) < pp_max (nt_pool s)" "nt_dialled s c = Some a" "c \<notin> set (map fst es)"
    "c \<notin> nt_closed s" "c \<notin> nt_lent s" "nt_clock s = now"
  shows "slice_ok s a (es @ [(c, now)])"
  using assms by (auto simp: slice_ok_def sorted_append)

lemma slice_ok_mono:
  assumes "slice_ok s a es" "pp_max (nt_pool s') = pp_max (nt_pool s)" "nt_clock s \<le> nt_clock s'"
    "\<And>c. c \<in> set (map fst es) \<Longrightarrow> nt_dialled s' c = nt_dialled s c \<and> (c \<in> nt_lent s' \<longrightarrow> c \<in> nt_lent s)
       \<and> (c \<in> nt_closed s' \<longrightarrow> c \<in> nt_closed s)"
  shows "slice_ok s' a es"
  using assms unfolding slice_ok_def by fastforce

lemma slice_dialled: "slice_ok s a es \<Longrightarrow> c \<in> set (map fst es) \<Longrightarrow> nt_dialled s c = Some a"
  by (auto simp: slice_ok_def)

text \<open>What every way through Get has in common: the idle connections of the target are cut in two.\<close>

lemma get_split:
  assumes "net_inv s" "pool_get now addr (nt_pool s) = (p, closed, r)"
  obtains gone rest where "pp_store (nt_pool s) addr = gone @ rest" "closed = map fst gone"
    "pp_max p = pp_max (nt_pool s)" "pp_store p = (pp_store (nt_pool s))(addr := butlast rest)"
    "rest \<noteq> [] \<longleftrightarrow> (\<exists>c. r = Pooled c)" "\<forall>c. r = Pooled c \<longrightarrow> c = fst (last rest)"
    "rest \<noteq> [] \<longrightarrow> now - pp_idle (nt_pool s) \<le> snd (List.hd rest)"
    "slice_ok s addr gone" "slice_ok s addr rest" "set (map fst gone) \<inter> set (map fst rest) = {}"
proof -
  obtain gone rest where g: "pp_store (nt_pool s) addr = gone @ rest" "closed = map fst gone"
      "rest \<noteq> [] \<longrightarrow> now - pp_idle (nt_pool s) \<le> snd (List.hd rest)"
      "p = (nt_pool s)\<lparr>pp_store := (pp_store (nt_pool s))(addr := butlast rest)\<rparr>"
      "rest \<noteq> [] \<longleftrightarrow> (\<exists>c. r = Pooled c)" "\<forall>c. r = Pooled c \<longrightarrow> c = fst (last rest)"
    using pool_get_cases [OF assms(2)] .
  have "slice_ok s addr (gone @ rest)" using assms(1) unfolding net_inv_slices g(1) [symmetric] by blast
  then show ?thesis
    using that [OF g(1,2) _ _ g(5,6,3)] slice_ok_parts g(4) by (auto simp: slice_ok_def)
qed

lemma slice_ok_butlast: "slice_ok s a es \<Longrightarrow> slice_ok s a (butlast es)"
  by (cases es rule: rev_cases) (auto dest: slice_ok_parts)

text \<open>A step that changes one target and moves only its connections.\<close>

lemma net_inv_at:
  assumes "net_inv s" "pp_max (nt_pool s') = pp_max (nt_pool s)" "nt_clock s \<le> nt_clock s'"
    "pp_store (nt_pool s') = (pp_store (nt_pool s))(addr := es')" "slice_ok s' addr es'"
    and other: "\<And>c b. nt_dialled s c = Some b \<Longrightarrow> b \<noteq> addr \<Longrightarrow>
      nt_dialled s' c = Some b \<and> (c \<in> nt_lent s' \<longleftrightarrow> c \<in> nt_lent s) \<and> (c \<in> nt_closed s' \<longleftrightarrow> c \<in> nt_closed s)"
    and other': "\<And>c b. nt_dialled s' c = Some b \<Longrightarrow> b \<noteq> addr \<Longrightarrow> nt_dialled s c = Some b"
    and sets: "nt_lent s' \<inter> nt_closed s' = {}" "nt_lent s' \<union> nt_closed s' \<subseteq> dom (nt_dialled s')"
    and cover: "\<And>c. nt_dialled s' c = Some addr \<Longrightarrow> c \<in> set (map fst es') \<or> c \<in> nt_lent s' \<or> c \<in> nt_closed s'"
  shows "net_inv s'"
proof -
  have inv: "slice_ok s b (pp_store (nt_pool s) b)"
    "\<And>c. nt_dialled s c = Some b \<Longrightarrow> c \<in> set (idle_in s b) \<or> c \<in> nt_lent s \<or> c \<in> nt_closed s" for b
    using assms(1) by (simp_all add: net_inv_slices)
  have "slice_ok s' b (pp_store (nt_pool s') b)" for b
  proof (cases "b = addr")
    case True
    then show ?thesis using assms(4,5) by simp
  next
    case False
    have "slice_ok s' b (pp_store (nt_pool s) b)"
    proof (rule slice_ok_mono [OF inv(1) assms(2,3)])
      fix c
      assume "c \<in> set (map fst (pp_store (nt_pool s) b))"
      then have "nt_dialled s c = Some b" by (rule slice_dialled [OF inv(1)])
      from other [OF this False] this show "nt_dialled s' c = nt_dialled s c \<and> (c \<in> nt_lent s' \<longrightarrow> c \<in> nt_lent s)
        \<and> (c \<in> nt_closed s' \<longrightarrow> c \<in> nt_closed s)" by simp
    qed
    then show ?thesis using assms(4) False by simp
  qed
  moreover have "c \<in> set (idle_in s' b) \<or> c \<in> nt_lent s' \<or> c \<in> nt_closed s'" if c: "nt_dialled s' c = Some b" for c b
  proof (cases "b = addr")
    case True
    then show ?thesis using cover c assms(4) by (simp add: idle_in_def)
  next
    case False
    then have "idle_in s' b = idle_in s b" using assms(4) by (simp add: idle_in_def)
    then show ?thesis using inv(2) [OF other' [OF c False]] other [OF other' [OF c False] False] by auto
  qed
  ultimately show ?thesis using assms(1,2) sets by (simp add: net_inv_slices)
qed

lemma lent_closed_dialled:
  "net_inv s \<Longrightarrow> c \<in> nt_lent s \<or> c \<in> nt_closed s \<Longrightarrow> nt_dialled s c \<noteq> None"
  by (auto simp: net_inv_slices)

lemma net_inv_step:
  assumes inv: "net_inv s" and "net_step s s'"
  shows "net_inv s'"
  using assms(2)
proof cases
  case (borrow now addr p closed c)
  obtain gone rest where g: "pp_store (nt_pool s) addr = gone @ rest" "closed = map fst gone"
    "pp_max p = pp_max (nt_pool s)" "pp_store p = (pp_store (nt_pool s))(addr := butlast rest)"
    "rest \<noteq> [] \<longleftrightarrow> (\<exists>c'. Pooled c = Pooled c')" "\<forall>c'. Pooled c = Pooled c' \<longrightarrow> c' = fst (last rest)"
    "rest \<noteq> [] \<longrightarrow> now - pp_idle (nt_pool s) \<le> snd (List.hd rest)"
    "slice_ok s addr gone" "slice_ok s addr rest" "set (map fst gone) \<inter> set (map fst rest) = {}"
    using get_split [OF inv borrow(3)] .
  obtain front used where rest: "rest = front @ [(c, used)]"
    using g(5,6) by (cases rest rule: rev_cases) auto
  have c: "nt_dialled s c = Some addr" "c \<notin> nt_lent s" "c \<notin> nt_closed s" "c \<notin> fst ` set front" "c \<notin> set closed"
    using g(9,10) by (auto simp: rest slice_ok_def g(2))
  have gone: "nt_dialled s x = Some addr \<and> x \<notin> nt_lent s \<and> x \<notin> nt_closed s" if "x \<in> set closed" for x
    using that g(8) by (auto simp: slice_ok_def g(2))
  have "slice_ok s addr front" using g(9) slice_ok_parts rest by blast
  then have front: "slice_ok s' addr front"
    using borrow(2) g(3,10) c(4) unfolding borrow(1)
    by (elim slice_ok_mono) (auto simp: g(2) rest)
  show ?thesis
  proof (rule net_inv_at [OF inv _ _ _ front])
    show "x \<in> set (map fst front) \<or> x \<in> nt_lent s' \<or> x \<in> nt_closed s'" if "nt_dialled s' x = Some addr" for x
    proof -
      have "x \<in> fst ` set (gone @ rest) \<or> x \<in> nt_lent s \<or> x \<in> nt_closed s"
        using inv that by (simp add: net_inv_slices idle_in_def borrow(1) flip: g(1))
      then show ?thesis by (auto simp: borrow(1) g(2) rest)
    qed
  qed (use inv c gone borrow(2) g(3,4) in \<open>auto simp: borrow(1) rest net_inv_slices\<close>)
next
  case (dial now addr p closed c)
  obtain gone rest where g: "pp_store (nt_pool s) addr = gone @ rest" "closed = map fst gone"
    "pp_max p = pp_max (nt_pool s)" "pp_store p = (pp_store (nt_pool s))(addr := butlast rest)"
    "rest \<noteq> [] \<longleftrightarrow> (\<exists>c'. MustDial = Pooled c')" "\<forall>c'. MustDial = Pooled c' \<longrightarrow> c' = fst (last rest)"
    "rest \<noteq> [] \<longrightarrow> now - pp_idle (nt_pool s) \<le> snd (List.hd rest)"
    "slice_ok s addr gone" "slice_ok s addr rest" "set (map fst gone) \<inter> set (map fst rest) = {}"
    using get_split [OF inv dial(3)] .
  have rest: "rest = []" using g(5) by simp
  have gone: "nt_dialled s x = Some addr \<and> x \<notin> nt_lent s \<and> x \<notin> nt_closed s" if "x \<in> set closed" for x
    using that g(8) by (auto simp: slice_ok_def g(2))
  have old: "nt_dialled s x \<noteq> None" if "x \<in> nt_lent s \<or> x \<in> nt_closed s" for x
    using that lent_closed_dialled [OF inv] by blast
  show ?thesis
  proof (rule net_inv_at [OF inv, where addr = addr and es' = "[]"])
    show "x \<in> set (map fst []) \<or> x \<in> nt_lent s' \<or> x \<in> nt_closed s'" if "nt_dialled s' x = Some addr" for x
    proof (cases "x = c")
      case False
      then have "x \<in> fst ` set (gone @ rest) \<or> x \<in> nt_lent s \<or> x \<in> nt_closed s"
        using inv that by (simp add: net_inv_slices idle_in_def dial(1) flip: g(1))
      then show ?thesis by (auto simp: dial(1) g(2) rest)
    qed (simp add: dial(1))
    show "slice_ok s' addr []" using inv g(3) by (simp add: slice_ok_def dial(1) net_inv_slices)
  qed (use inv gone old dial(2,4) g(3,4) in \<open>auto simp: dial(1) rest net_inv_slices split: if_splits\<close>)
next
  case (refused now addr p closed r)
  obtain gone rest where g: "pp_store (nt_pool s) addr = gone @ rest" "closed = map fst gone"
    "pp_max p = pp_max (nt_pool s)" "pp_store p = (pp_store (nt_pool s))(addr := butlast rest)"
    "rest \<noteq> [] \<longleftrightarrow> (\<exists>c'. r = Pooled c')" "\<forall>c'. r = Pooled c' \<longrightarrow> c' = fst (last rest)"
    "rest \<noteq> [] \<longrightarrow> now - pp_idle (nt_pool s) \<le> snd (List.hd rest)"
    "slice_ok s addr gone" "slice_ok s addr rest" "set (map fst gone) \<inter> set (map fst rest) = {}"
    using get_split [OF inv refused(3)] .
  have rest: "rest = []" using g(5) refused(4) by blast
  have gone: "nt_dialled s x = Some addr \<and> x \<notin> nt_lent s \<and> x \<notin> nt_closed s" if "x \<in> set closed" for x
    using that g(8) by (auto simp: slice_ok_def g(2))
  show ?thesis
  proof (rule net_inv_at [OF inv, where addr = addr and es' = "[]"])
    show "x \<in> set (map fst []) \<or> x \<in> nt_lent s' \<or> x \<in> nt_closed s'" if "nt_dialled s' x = Some addr" for x
    proof -
      have "x \<in> fst ` set (gone @ rest) \<or> x \<in> nt_lent s \<or> x \<in> nt_closed s"
        using inv that by (simp add: net_inv_slices idle_in_def refused(1) flip: g(1))
      then show ?thesis by (auto simp: refused(1) g(2) rest)
    qed
    show "slice_ok s' addr []" using inv g(3) by (simp add: slice_ok_def refused(1) net_inv_slices)
  qed (use inv gone refused(2) g(3,4) in \<open>auto simp: refused(1) rest net_inv_slices\<close>)
next
  case (put_back now c addr p closed)
  have slice: "slice_ok s addr (pp_store (nt_pool s) addr)" using inv by (simp add: net_inv_slices)
  have c: "c \<notin> fst ` set (pp_store (nt_pool s) addr)" "c \<notin> nt_closed s"
    using slice put_back(3) inv by (auto simp: slice_ok_def net_inv_slices)
  have cover: "x \<in> fst ` set (pp_store (nt_pool s) addr) \<or> x \<in> nt_lent s \<or> x \<in> nt_closed s"
    if "nt_dialled s x = Some addr" for x
    using inv that by (simp add: net_inv_slices idle_in_def)
  show ?thesis
  proof (cases "int (length (pp_store (nt_pool s) addr)) \<ge> pp_max (nt_pool s)")
    case True
    then have p: "p = nt_pool s" "closed = [c]" using put_back(5) by (simp_all add: pool_put_def)
    have slice': "slice_ok s' addr (pp_store (nt_pool s) addr)"
      using slice put_back(2) c unfolding put_back(1) p
      by (elim slice_ok_mono) auto
    show ?thesis
      by (rule net_inv_at [OF inv _ _ _ slice'])
        (use inv c cover put_back(2-4) in \<open>auto simp: put_back(1) p net_inv_slices\<close>)
  next
    case False
    then have p: "p = (nt_pool s)\<lparr>pp_store := (pp_store (nt_pool s))(addr := pp_store (nt_pool s) addr @ [(c, now)])\<rparr>"
      "closed = []" using put_back(5) by (simp_all add: pool_put_def)
    have "slice_ok s' addr (pp_store (nt_pool s) addr)"
      using slice put_back(2) c unfolding put_back(1) p by (elim slice_ok_mono) auto
    then have slice': "slice_ok s' addr (pp_store (nt_pool s) addr @ [(c, now)])"
      by (rule slice_ok_snoc) (use False c put_back(4) in \<open>auto simp: put_back(1) p\<close>)
    show ?thesis
      by (rule net_inv_at [OF inv _ _ _ slice'])
        (use inv c cover put_back(2-4) in \<open>auto simp: put_back(1) p net_inv_slices\<close>)
  qed
next
  case (discard c p closed)
  have p: "p = nt_pool s" "closed = [c]" using discard(3) by (simp_all add: pool_discard_def)
  obtain addr where d: "nt_dialled s c = Some addr" using lent_closed_dialled [OF inv] discard(2) by blast
  have slice: "slice_ok s addr (pp_store (nt_pool s) addr)" using inv by (simp add: net_inv_slices)
  have c: "c \<notin> fst ` set (pp_store (nt_pool s) addr)" "c \<notin> nt_closed s"
    using slice discard(2) inv by (auto simp: slice_ok_def net_inv_slices)
  have cover: "x \<in> fst ` set (pp_store (nt_pool s) addr) \<or> x \<in> nt_lent s \<or> x \<in> nt_closed s"
    if "nt_dialled s x = Some addr" for x
    using inv that by (simp add: net_inv_slices idle_in_def)
  have slice': "slice_ok s' addr (pp_store (nt_pool s) addr)"
    using slice c unfolding discard(1) p by (elim slice_ok_mono) auto
  show ?thesis
    by (rule net_inv_at [OF inv _ _ _ slice'])
      (use inv c d cover discard(2) in \<open>auto simp: discard(1) p net_inv_slices\<close>)
next
  case (close_all ks fails p closed e)
  have p: "pp_max p = pp_max (nt_pool s)" "pp_store p = (\<lambda>a. if a \<in> set ks then [] else pp_store (nt_pool s) a)"
    "closed = concat (map (\<lambda>a. map fst (pp_store (nt_pool s) a)) ks)"
    using close_all(3) by (auto simp: pool_close_def Let_def)
  have empty: "pp_store p a = []" for a using close_all(2) by (auto simp: p(2))
  have "pp_store (nt_pool s) a = [] \<or> a \<in> set ks" for a using close_all(2) by blast
  then have closed: "set closed = (\<Union>a. set (idle_in s a))"
    by (force simp: p(3) idle_in_def)
  have idle: "nt_dialled s x = Some a \<and> x \<notin> nt_lent s \<and> x \<notin> nt_closed s" if "x \<in> set (idle_in s a)" for x a
    using inv that by (auto simp: net_inv_def)
  have gone: "nt_dialled s x \<noteq> None \<and> x \<notin> nt_lent s" if "x \<in> set closed" for x
    using that idle by (auto simp: closed)
  have cover: "x \<in> set closed \<or> x \<in> nt_lent s \<or> x \<in> nt_closed s" if "nt_dialled s x = Some a" for x a
    using inv that unfolding net_inv_slices closed by blast
  have "slice_ok s' a []" for a
    using inv by (simp add: slice_ok_def close_all(1) p(1) net_inv_slices)
  then show ?thesis
    using inv gone cover by (auto simp: net_inv_slices close_all(1) p(1) empty)
qed

lemma net_reachable_inv:
  assumes "net_reachable (net_start n idle dials) s"
  shows "net_inv s"
  using assms
proof induction
  case start
  then show ?case by (simp add: net_inv_def net_start_def new_pool_def idle_in_def)
next
  case (step s s')
  then show ?case using net_inv_step by blast
qed

text \<open>C39. What the pool hands out is usable: in every state that callers reach who give back or discard what
  they hold, a pooled connection that Get returns was dialled for the same target, is held by nobody
  else, is not closed, and was used no longer ago than the idle time.\<close>

theorem pool_lends_live:
  assumes "net_reachable (net_start n idle dials) s" "pool_get now addr (nt_pool s) = (p, closed, Pooled c)"
  shows "nt_dialled s c = Some addr \<and> c \<notin> nt_lent s \<and> c \<notin> nt_closed s \<union> set closed
    \<and> (\<exists>used. (c, used) \<in> set (pp_store (nt_pool s) addr) \<and> now - used \<le> pp_idle (nt_pool s))"
proof -
  have inv: "net_inv s" using net_reachable_inv assms(1) .
  obtain gone rest where g: "pp_store (nt_pool s) addr = gone @ rest" "closed = map fst gone"
    "pp_max p = pp_max (nt_pool s)" "pp_store p = (pp_store (nt_pool s))(addr := butlast rest)"
    "rest \<noteq> [] \<longleftrightarrow> (\<exists>c'. Pooled c = Pooled c')" "\<forall>c'. Pooled c = Pooled c' \<longrightarrow> c' = fst (last rest)"
    "rest \<noteq> [] \<longrightarrow> now - pp_idle (nt_pool s) \<le> snd (List.hd rest)"
    "slice_ok s addr gone" "slice_ok s addr rest" "set (map fst gone) \<inter> set (map fst rest) = {}"
    using get_split [OF inv assms(2)] .
  obtain front used where rest: "rest = front @ [(c, used)]"
    using g(5,6) by (cases rest rule: rev_cases) auto
  have "sorted (map snd rest)" using g(9) by (simp add: slice_ok_def)
  then have "snd (List.hd rest) \<le> used" by (cases front) (auto simp: rest sorted_append)
  then have "now - used \<le> pp_idle (nt_pool s)" using g(7) rest by simp
  moreover have "(c, used) \<in> set (pp_store (nt_pool s) addr)" by (simp add: g(1) rest)
  ultimately show ?thesis using g(9,10) by (auto simp: slice_ok_def rest g(2))
qed

lemma pool_lends_live_witness:
  "nt_dialled (net_start 2 5 True\<lparr>nt_pool := (new_pool 2 5 True)\<lparr>pp_store := (\<lambda>a. [])(''h'' := [(7, 1)])\<rparr>,
        nt_dialled := [7 \<mapsto> ''h''], nt_clock := 1\<rparr>) 7 = Some ''h''
   \<and> 7 \<notin> nt_lent (net_start 2 5 True\<lparr>nt_pool := (new_pool 2 5 True)\<lparr>pp_store := (\<lambda>a. [])(''h'' := [(7, 1)])\<rparr>,
        nt_dialled := [7 \<mapsto> ''h''], nt_clock := 1\<rparr>)
   \<and> 7 \<notin> nt_closed (net_start 2 5 True\<lparr>nt_pool := (new_pool 2 5 True)\<lparr>pp_store := (\<lambda>a. [])(''h'' := [(7, 1)])\<rparr>,
        nt_dialled := [7 \<mapsto> ''h''], nt_clock := 1\<rparr>) \<union> set []
   \<and> (\<exists>used. (7, used) \<in> set (pp_store (nt_pool (net_start 2 5 True\<lparr>nt_pool := (new_pool 2 5 True)\<lparr>pp_store := (\<lambda>a. [])(''h'' := [(7, 1)])\<rparr>,
        nt_dialled := [7 \<mapsto> ''h''], nt_clock := 1\<rparr>)) ''h'') \<and> 3 - used \<le> pp_idle (nt_pool (net_start 2 5 True\<lparr>nt_pool := (new_pool 2 5 True)\<lparr>pp_store := (\<lambda>a. [])(''h'' := [(7, 1)])\<rparr>,
        nt_dialled := [7 \<mapsto> ''h''], nt_clock := 1\<rparr>)))"
proof -
  define s0 where "s0 = net_start 2 5 True"
  define s1 where "s1 = s0\<lparr>nt_pool := new_pool 2 5 True, nt_closed := {} \<union> set [], nt_dialled := [7 \<mapsto> ''h''], nt_lent := {7}, nt_clock := 0\<rparr>"
  have get: "pool_get 0 ''h'' (nt_pool s0) = (new_pool 2 5 True, [], MustDial)"
    by (simp add: pool_get_def s0_def net_start_def new_pool_def fun_upd_idem)
  have "net_step s0 (s0\<lparr>nt_pool := new_pool 2 5 True, nt_closed := nt_closed s0 \<union> set [], nt_dialled := (nt_dialled s0)(7 \<mapsto> ''h''),
      nt_lent := insert 7 (nt_lent s0), nt_clock := 0\<rparr>)"
    by (rule net_step.dial [OF _ get]) (simp_all add: s0_def net_start_def)
  then have r1: "net_reachable s0 s1"
    using net_reachable.step [OF net_reachable.start] by (simp add: s1_def s0_def net_start_def)
  define q where "q = (new_pool 2 5 True)\<lparr>pp_store := (\<lambda>a. [])(''h'' := [(7, 1)])\<rparr>"
  have put: "pool_put 1 ''h'' 7 (nt_pool s1) = (q, [])"
    by (simp add: pool_put_def s1_def q_def new_pool_def)
  have "net_step s1 (s1\<lparr>nt_pool := q, nt_closed := nt_closed s1 \<union> set [], nt_lent := nt_lent s1 - {7}, nt_clock := 1\<rparr>)"
    by (rule net_step.put_back [OF _ _ _ put]) (simp_all add: s1_def)
  moreover define s2 where "s2 = net_start 2 5 True\<lparr>nt_pool := q, nt_dialled := [7 \<mapsto> ''h''], nt_clock := 1\<rparr>"
  moreover have "s1\<lparr>nt_pool := q, nt_closed := nt_closed s1 \<union> set [], nt_lent := nt_lent s1 - {7}, nt_clock := 1\<rparr> = s2"
    by (simp add: s1_def s2_def s0_def net_start_def)
  ultimately have r2: "net_reachable (net_start 2 5 True) s2"
    using net_reachable.step [OF r1] s0_def by simp
  have get2: "pool_get 3 ''h'' (nt_pool s2) = (new_pool 2 5 True, [], Pooled 7)"
    by (simp add: pool_get_def s2_def q_def new_pool_def fun_upd_idem)
  show ?thesis
    using pool_lends_live [OF r2 get2] unfolding s2_def q_def by simp
qed

text \<open>The slices stay within the limit, and every connection is idle, lent or closed.\<close>

lemma pool_accounts:
  assumes "net_reachable (net_start n idle dials) s"
  shows "int (length (pp_store (nt_pool s) a)) \<le> pp_max (nt_pool s)"
    "nt_dialled s c = Some a \<Longrightarrow> c \<in> set (idle_in s a) \<or> c \<in> nt_lent s \<or> c \<in> nt_closed s"
  using net_reachable_inv [OF assms] by (auto simp: net_inv_def idle_in_def)

subsection \<open>What the limit and Close do not do\<close>

text \<open>A closed pool keeps what is put into it.\<close>

lemma closed_pool_keeps:
  assumes "a \<in> set ks" "0 < pp_max p" "pool_close ks fails p = (p', closed, e)"
  shows "pp_store (fst (pool_put now a c p')) a = [(c, now)]"
  using assms by (auto simp: pool_close_def pool_put_def Let_def)

text \<open>The limit is on idle connections: any number can be lent for one target.\<close>

lemma lent_unbounded:
  "\<exists>s. net_reachable (net_start n idle True) s \<and> card (nt_lent s) = k \<and> finite (nt_lent s) \<and> nt_dialled s = (\<lambda>c. if c \<in> nt_lent s then Some a else None)
    \<and> pp_store (nt_pool s) = (\<lambda>a. []) \<and> pp_dials (nt_pool s)"
proof (induction k)
  case 0
  show ?case by (rule exI [of _ "net_start n idle True"]) (auto simp: net_start_def new_pool_def intro: net_reachable.start)
next
  case (Suc k)
  then obtain s where s: "net_reachable (net_start n idle True) s" "card (nt_lent s) = k" "finite (nt_lent s)"
    "nt_dialled s = (\<lambda>c. if c \<in> nt_lent s then Some a else None)" "pp_store (nt_pool s) = (\<lambda>a. [])" "pp_dials (nt_pool s)"
    by blast
  obtain c where c: "c \<notin> nt_lent s" using s(3) ex_new_if_finite infinite_UNIV_nat by blast
  have get: "pool_get (nt_clock s) a (nt_pool s) = (nt_pool s, [], MustDial)"
    using s(5,6) by (simp add: pool_get_def fun_upd_idem)
  have st: "net_step s (s\<lparr>nt_pool := nt_pool s, nt_closed := nt_closed s \<union> set [], nt_dialled := (nt_dialled s)(c \<mapsto> a),
      nt_lent := insert c (nt_lent s), nt_clock := nt_clock s\<rparr>)"
    by (rule net_step.dial [OF _ get]) (simp_all add: s(4) c)
  show ?case
    by (rule exI, rule conjI, rule net_reachable.step [OF s(1) st]) (use s(2-6) c in \<open>auto simp: fun_eq_iff\<close>)
qed

end
