(* ===== verification/Field_Selector.thy ===== *)
theory Field_Selector
  imports Go_Strings "HOL-Library.List_Lexorder" "HOL-Library.Char_ord"
begin

section \<open>Field selectors (apimachinery/fields/selector.go)\<close>

text \<open>
  Equalities and inequalities on the fields of an object, joined by commas. A selector is a pointer:
  None is nil. \<open>sort.Slice\<close> is an argument that permutes its input and orders it by field. Text is
  ASCII.
\<close>

type_synonym fields_map = "string \<rightharpoonup> string"

record field_term =
  ft_field :: string
  ft_equal :: bool
  ft_value :: string

type_synonym field_selector = "field_term list"

definition fields_has :: "fields_map \<Rightarrow> string \<Rightarrow> bool" where
  "fields_has f k \<longleftrightarrow> f k \<noteq> None"

definition fields_get :: "fields_map \<Rightarrow> string \<Rightarrow> string" where
  "fields_get f k = (case f k of None \<Rightarrow> [] | Some v \<Rightarrow> v)"

definition fs_everything :: field_selector where
  "fs_everything = []"

definition fs_nothing :: field_selector where
  "fs_nothing = [\<lparr>ft_field = ''__never__'', ft_equal = True, ft_value = ''__never__''\<rparr>]"

definition fs_empty :: "field_selector option \<Rightarrow> bool" where
  "fs_empty s = (case s of None \<Rightarrow> True | Some ts \<Rightarrow> length ts = 0)"

fun terms_match :: "field_term list \<Rightarrow> fields_map \<Rightarrow> bool" where
  "terms_match [] f = True"
| "terms_match (t # ts) f =
     (let v = fields_get f (ft_field t)
      in if ft_equal t \<and> v \<noteq> ft_value t then False
         else if \<not> ft_equal t \<and> v = ft_value t then False
         else terms_match ts f)"

definition fs_matches :: "field_selector option \<Rightarrow> fields_map \<Rightarrow> bool" where
  "fs_matches s f = (case s of None \<Rightarrow> True | Some ts \<Rightarrow> terms_match ts f)"

text \<open>The requirements of a nil selector read its terms: a nil dereference.\<close>

definition fs_requirements :: "field_selector option \<Rightarrow> (unit, (string \<times> string \<times> string) list) outcome" where
  "fs_requirements s =
     (case s of None \<Rightarrow> Panic
      | Some ts \<Rightarrow> Ok (map (\<lambda>t. (ft_field t, if ft_equal t then ''='' else ''!='', ft_value t)) ts))"

definition print_field_term :: "field_term \<Rightarrow> string" where
  "print_field_term t = ft_field t @ (if ft_equal t then ''='' else ''!='') @ ft_value t"

type_synonym field_sort = "field_term list \<Rightarrow> field_term list"

definition sorts_fields :: "field_sort \<Rightarrow> bool" where
  "sorts_fields srt \<longleftrightarrow> (\<forall>ts. mset (srt ts) = mset ts \<and> sorted (map ft_field (srt ts)))"

definition fs_string :: "field_sort \<Rightarrow> field_selector option \<Rightarrow> string" where
  "fs_string srt s = (if fs_empty s then [] else join_with '','' (map print_field_term (srt (the s))))"

definition parse_field_term :: "string \<Rightarrow> (string, field_term) outcome" where
  "parse_field_term s =
     (case index_of ''!='' s of
        Some i \<Rightarrow> Ok \<lparr>ft_field = trim_space (take i s), ft_equal = False, ft_value = trim_space (drop (i + 2) s)\<rparr>
      | None \<Rightarrow>
          (case index_of ''=='' s of
             Some i \<Rightarrow> Ok \<lparr>ft_field = trim_space (take i s), ft_equal = True, ft_value = trim_space (drop (i + 2) s)\<rparr>
           | None \<Rightarrow>
               (case index_of ''='' s of
                  Some i \<Rightarrow> Ok \<lparr>ft_field = trim_space (take i s), ft_equal = True, ft_value = trim_space (drop (i + 1) s)\<rparr>
                | None \<Rightarrow> Err (''field selector term has no operator: '' @ s))))"

fun parse_field_terms :: "string list \<Rightarrow> (string, field_term list) outcome" where
  "parse_field_terms [] = Ok []"
| "parse_field_terms (w # ws) =
     outcome_bind (parse_field_term (trim_space w)) (\<lambda>t. outcome_bind (parse_field_terms ws) (\<lambda>ts. Ok (t # ts)))"

definition parse_field_selector :: "string \<Rightarrow> (string, field_selector) outcome" where
  "parse_field_selector s =
     (let e = trim_space s in if e = [] then Ok fs_everything else parse_field_terms (split_on CHR '','' e))"

definition one_term_equal :: "string \<Rightarrow> string \<Rightarrow> field_selector" where
  "one_term_equal k v = [\<lparr>ft_field = k, ft_equal = True, ft_value = v\<rparr>]"

fun and_selectors :: "field_selector option list \<Rightarrow> field_selector" where
  "and_selectors [] = []"
| "and_selectors (s # ss) = (case s of None \<Rightarrow> and_selectors ss | Some ts \<Rightarrow> ts @ and_selectors ss)"

subsection \<open>Matching\<close>

definition term_holds :: "fields_map \<Rightarrow> field_term \<Rightarrow> bool" where
  "term_holds f t \<longleftrightarrow> (if ft_equal t then fields_get f (ft_field t) = ft_value t else fields_get f (ft_field t) \<noteq> ft_value t)"

lemma terms_match_all: "terms_match ts f \<longleftrightarrow> list_all (term_holds f) ts"
  by (induction ts) (auto simp: term_holds_def Let_def)

lemma and_selectors_all: "terms_match (and_selectors ss) f \<longleftrightarrow> list_all (\<lambda>s. fs_matches s f) ss"
proof (induction ss)
  case (Cons s ss)
  then show ?case by (cases s) (simp_all add: terms_match_all fs_matches_def)
qed simp

text \<open>The selector of nothing matches an object with the reserved field, and an absent field is an empty one.\<close>

lemma nothing_field_matches: "fs_matches (Some fs_nothing) [''__never__'' \<mapsto> ''__never__'']"
  by (simp add: fs_matches_def fs_nothing_def fields_get_def)

lemma absent_is_empty: "f k = None \<Longrightarrow> fs_matches (Some (one_term_equal k [])) f"
  by (simp add: fs_matches_def one_term_equal_def fields_get_def)

subsection \<open>Printing and parsing\<close>

definition plain_text :: "string \<Rightarrow> bool" where
  "plain_text w \<longleftrightarrow> (\<forall>c \<in> set w. \<not> ascii_space c \<and> c \<noteq> CHR '','' \<and> c \<noteq> CHR ''='' \<and> c \<noteq> CHR ''!'')"

definition plain_term :: "field_term \<Rightarrow> bool" where
  "plain_term t \<longleftrightarrow> plain_text (ft_field t) \<and> plain_text (ft_value t)"

lemma plain_trim: "plain_text w \<Longrightarrow> trim_space w = w"
  by (rule trim_id) (simp add: plain_text_def)

lemma print_field_chars:
  assumes "plain_term t"
  shows "CHR '','' \<notin> set (print_field_term t)" "\<forall>c \<in> set (print_field_term t). \<not> ascii_space c" "print_field_term t \<noteq> []"
  using assms by (auto simp: print_field_term_def plain_term_def plain_text_def ascii_space_def)

lemma index_of_two_absent:
  assumes "CHR ''!'' \<notin> set s"
  shows "index_of ''!='' s = None"
  using assms by (intro index_of_absent) auto

lemma double_equal_absent:
  assumes "CHR ''='' \<notin> set w" "CHR ''='' \<notin> set v"
  shows "index_of ''=='' (w @ CHR ''='' # v) = None"
  using assms
proof (induction w)
  case Nil
  then have "index_of ''=='' v = None" by (intro index_of_absent) auto
  moreover have "\<not> prefix ''=='' (CHR ''='' # v)" using Nil by (cases v) auto
  ultimately show ?case by simp
qed (auto simp: prefix_Cons)

lemma parse_printed_field:
  assumes "plain_term t"
  shows "parse_field_term (print_field_term t) = Ok t"
proof -
  have f: "CHR ''!'' \<notin> set (ft_field t)" "CHR ''='' \<notin> set (ft_field t)" "trim_space (ft_field t) = ft_field t"
    and v: "CHR ''!'' \<notin> set (ft_value t)" "CHR ''='' \<notin> set (ft_value t)" "trim_space (ft_value t) = ft_value t"
    using assms plain_trim by (auto simp: plain_term_def plain_text_def)
  show ?thesis
  proof (cases "ft_equal t")
    case True
    have "index_of ''!='' (ft_field t @ CHR ''='' # ft_value t) = None"
      using f v by (intro index_of_two_absent) auto
    moreover have "index_of ''=='' (ft_field t @ CHR ''='' # ft_value t) = None"
      using f v by (intro double_equal_absent)
    moreover have "index_of ''='' (ft_field t @ ''='' @ ft_value t) = Some (length (ft_field t))"
      using f by (intro index_of_at) simp_all
    ultimately show ?thesis using True f v by (simp add: parse_field_term_def print_field_term_def)
  next
    case False
    have "index_of ''!='' (ft_field t @ ''!='' @ ft_value t) = Some (length (ft_field t))"
      using f by (intro index_of_at) simp_all
    then show ?thesis using False f v by (simp add: parse_field_term_def print_field_term_def)
  qed
qed

lemma parse_printed_fields:
  "list_all plain_term ts \<Longrightarrow> parse_field_terms (map print_field_term ts) = Ok ts"
proof (induction ts)
  case (Cons t ts)
  then have "trim_space (print_field_term t) = print_field_term t" by (intro trim_id print_field_chars) simp
  then show ?case using Cons by (simp add: parse_printed_field)
qed simp

lemma join_with_chars: "c \<in> set (join_with sep ws) \<Longrightarrow> c \<in> set sep \<or> (\<exists>w \<in> set ws. c \<in> set w)"
  by (induction sep ws rule: join_with.induct) auto

text \<open>A field selector survives printing and parsing: if its fields and values have no spaces, commas,
  equals or exclamation marks (empty ones allowed), the text parses to its terms in field order, and what
  is parsed matches the same objects.\<close>

theorem field_selector_roundtrip:
  assumes "sorts_fields srt" "list_all plain_term ts"
  shows "\<exists>us. parse_field_selector (fs_string srt (Some ts)) = Ok us \<and> mset us = mset ts
    \<and> sorted (map ft_field us) \<and> fs_matches (Some us) = fs_matches (Some ts)"
proof -
  have srt: "mset (srt ts) = mset ts" "sorted (map ft_field (srt ts))" using assms(1) by (auto simp: sorts_fields_def)
  have same: "fs_matches (Some (srt ts)) = fs_matches (Some ts)"
    using mset_eq_setD [OF srt(1)] by (auto simp: fs_matches_def terms_match_all list_all_iff fun_eq_iff)
  have plain: "list_all plain_term (srt ts)"
    using assms(2) mset_eq_setD [OF srt(1)] by (simp add: list_all_iff)
  show ?thesis
  proof (cases "ts = []")
    case True
    then show ?thesis
      by (simp add: fs_string_def fs_empty_def parse_field_selector_def fs_everything_def trim_space_def trim_left_def trim_right_def)
  next
    case False
    then have ne: "srt ts \<noteq> []" using srt(1) by auto
    define ws where "ws = map print_field_term (srt ts)"
    have ws: "\<forall>w \<in> set ws. CHR '','' \<notin> set w" "\<forall>w \<in> set ws. \<forall>c \<in> set w. \<not> ascii_space c" "ws \<noteq> []" "\<forall>w \<in> set ws. w \<noteq> []"
      using plain print_field_chars ne by (auto simp: ws_def list_all_iff)
    have chars: "\<forall>c \<in> set (join_with '','' ws). \<not> ascii_space c"
      using ws(2) join_with_chars [of _ "'',''" ws] by (fastforce simp: ascii_space_def)
    have "join_with '','' ws \<noteq> []" using ws(3,4) by (cases ws rule: remdups_adj.cases) auto
    moreover have "split_on CHR '','' (join_with '','' ws) = ws" by (rule split_join [OF ws(3,1)])
    ultimately have "parse_field_selector (fs_string srt (Some ts)) = parse_field_terms ws"
      using False chars by (simp add: fs_string_def fs_empty_def parse_field_selector_def trim_id ws_def Let_def)
    then show ?thesis
      using parse_printed_fields [OF plain] srt same by (simp add: ws_def)
  qed
qed

lemma field_selector_roundtrip_witness:
  "\<exists>us. parse_field_selector (fs_string (sort_key ft_field) (Some
        [\<lparr>ft_field = ''status'', ft_equal = False, ft_value = ''Done''\<rparr>, \<lparr>ft_field = ''node'', ft_equal = True, ft_value = []\<rparr>])) = Ok us
    \<and> mset us = mset [\<lparr>ft_field = ''status'', ft_equal = False, ft_value = ''Done''\<rparr>, \<lparr>ft_field = ''node'', ft_equal = True, ft_value = []\<rparr>]
    \<and> sorted (map ft_field us) \<and> fs_matches (Some us) = fs_matches (Some
        [\<lparr>ft_field = ''status'', ft_equal = False, ft_value = ''Done''\<rparr>, \<lparr>ft_field = ''node'', ft_equal = True, ft_value = []\<rparr>])"
  by (rule field_selector_roundtrip) (simp_all add: sorts_fields_def plain_term_def plain_text_def ascii_space_def)

text \<open>The set grammar of label selectors is refused.\<close>

lemma set_grammar_refused: "\<exists>e. parse_field_selector ''phase in (A, B)'' = Err e"
  by (rule exI [of _ "''field selector term has no operator: '' @ ''phase in (A''"]) code_simp

end
