(* ===== verification/Admission.thy ===== *)
theory Admission
  imports Json_Patch Go_Strings
begin

section \<open>Admission of writes (internal/admission)\<close>

text \<open>
  chain.go, pathutil.go and plugins.go: mutators rewrite the object of a request in order, then
  validators accept or reject it. The object of a request is a pointer to a map: None is nil, and a
  write through it panics. A plugin is its name and a function; a mutator changes the request that it
  is given, also when it fails. The text of the clock and the pattern of a name are arguments.
\<close>

subsection \<open>Paths into objects (pathutil.go)\<close>

type_synonym json_object = "string \<rightharpoonup> json"

definition split_path :: "string \<Rightarrow> string list" where
  "split_path p = (if p = [] then [] else split_on CHR ''.'' p)"

fun walk_path :: "string list \<Rightarrow> json \<Rightarrow> json option" where
  "walk_path [] v = Some v"
| "walk_path (k # ks) v =
     (case v of JObject m \<Rightarrow> (case m k of None \<Rightarrow> None | Some w \<Rightarrow> walk_path ks w) | _ \<Rightarrow> None)"

definition lookup_path :: "json_object \<Rightarrow> string list \<Rightarrow> json option" where
  "lookup_path m path = (if path = [] then None else walk_path path (JObject m))"

definition value_present :: "json \<Rightarrow> bool" where
  "value_present v =
     (case v of JNull \<Rightarrow> False | JString s \<Rightarrow> s \<noteq> [] | JArray vs \<Rightarrow> length vs > 0 | JObject m \<Rightarrow> m \<noteq> Map.empty | _ \<Rightarrow> True)"

definition is_present :: "json_object \<Rightarrow> string list \<Rightarrow> bool" where
  "is_present m path = (case lookup_path m path of None \<Rightarrow> False | Some v \<Rightarrow> value_present v)"

fun set_if_absent :: "string list \<Rightarrow> json \<Rightarrow> json_object \<Rightarrow> json_object" where
  "set_if_absent [] v m = m"
| "set_if_absent [k] v m = (if \<not> is_present m [k] then m(k \<mapsto> v) else m)"
| "set_if_absent (k # j # ks) v m =
     m(k \<mapsto> JObject (set_if_absent (j # ks) v (case m k of Some (JObject n) \<Rightarrow> n | _ \<Rightarrow> Map.empty)))"

text \<open>A missing value is nil, which equals an empty map here.\<close>

definition nil_or_empty :: "json option \<Rightarrow> bool" where
  "nil_or_empty a = (case a of None \<Rightarrow> True | Some JNull \<Rightarrow> True | Some (JObject m) \<Rightarrow> m = Map.empty | _ \<Rightarrow> False)"

definition deep_equal :: "json option \<Rightarrow> json option \<Rightarrow> bool" where
  "deep_equal a b \<longleftrightarrow> nil_or_empty a \<and> nil_or_empty b \<or> a = b"

subsection \<open>Requests and the chain (chain.go)\<close>

record adm_request =
  rq_uid :: string
  rq_group :: string
  rq_version :: string
  rq_kind :: string
  rq_namespace :: string
  rq_object_name :: string
  rq_operation :: string
  rq_object :: "json_object option"
  rq_old :: "json_object option"
  rq_username :: string

datatype adm_error = Rejection string string | PlainError string | WrappedError string adm_error

fun is_rejection :: "adm_error \<Rightarrow> bool" where
  "is_rejection (Rejection p r) = True"
| "is_rejection (PlainError s) = False"
| "is_rejection (WrappedError s e) = is_rejection e"

fun error_text :: "adm_error \<Rightarrow> string" where
  "error_text (Rejection p r) = ''admission rejected by '' @ p @ '': '' @ r"
| "error_text (PlainError s) = s"
| "error_text (WrappedError s e) = s @ error_text e"

type_synonym adm_mutator = "string \<times> (adm_request \<Rightarrow> adm_request \<times> (adm_error, unit) outcome)"
type_synonym adm_validator = "string \<times> (adm_request \<Rightarrow> (adm_error, unit) outcome)"

record adm_chain =
  ac_mutators :: "adm_mutator list"
  ac_validators :: "adm_validator list"
  ac_timeout :: duration

definition new_chain :: "duration \<Rightarrow> adm_chain" where
  "new_chain t = \<lparr>ac_mutators = [], ac_validators = [], ac_timeout = (if t \<le> 0 then 3 * second else t)\<rparr>"

definition register_mutator :: "adm_mutator \<Rightarrow> adm_chain \<Rightarrow> adm_chain" where
  "register_mutator m c = c\<lparr>ac_mutators := ac_mutators c @ [m]\<rparr>"

definition register_validator :: "adm_validator \<Rightarrow> adm_chain \<Rightarrow> adm_chain" where
  "register_validator v c = c\<lparr>ac_validators := ac_validators c @ [v]\<rparr>"

fun run_mutators :: "adm_mutator list \<Rightarrow> adm_request \<Rightarrow> adm_request \<times> (adm_error, unit) outcome" where
  "run_mutators [] req = (req, Ok ())"
| "run_mutators ((n, f) # ms) req =
     (case f req of
        (req', Ok _) \<Rightarrow> run_mutators ms req'
      | (req', Err e) \<Rightarrow> (req', Err (WrappedError (''mutator '' @ n @ '' failed: '') e))
      | (req', Panic) \<Rightarrow> (req', Panic))"

fun run_validators :: "adm_validator list \<Rightarrow> adm_request \<Rightarrow> (adm_error, unit) outcome" where
  "run_validators [] req = Ok ()"
| "run_validators ((n, f) # vs) req =
     (case f req of
        Ok _ \<Rightarrow> run_validators vs req
      | Err e \<Rightarrow> Err (if is_rejection e then e else Rejection n (error_text e))
      | Panic \<Rightarrow> Panic)"

definition admit :: "adm_chain \<Rightarrow> adm_request \<Rightarrow> adm_request \<times> (adm_error, unit) outcome" where
  "admit c req =
     (case run_mutators (ac_mutators c) req of
        (req', Ok _) \<Rightarrow> (req', run_validators (ac_validators c) req')
      | (req', Err e) \<Rightarrow> (req', Err e)
      | (req', Panic) \<Rightarrow> (req', Panic))"

subsection \<open>The bundled plugins (plugins.go)\<close>

definition default_value_mutate :: "string \<Rightarrow> json \<Rightarrow> adm_request \<Rightarrow> adm_request \<times> (adm_error, unit) outcome" where
  "default_value_mutate path v req =
     (case rq_object req of
        None \<Rightarrow> if split_path path = [] then (req, Ok ()) else (req, Panic)
      | Some m \<Rightarrow> (req\<lparr>rq_object := Some (set_if_absent (split_path path) v m)\<rparr>, Ok ()))"

definition default_value_mutator :: "string \<Rightarrow> string \<Rightarrow> json \<Rightarrow> adm_mutator" where
  "default_value_mutator name path v = (name, default_value_mutate path v)"

definition timestamp_mutate :: "string \<Rightarrow> adm_request \<Rightarrow> adm_request \<times> (adm_error, unit) outcome" where
  "timestamp_mutate ts req =
     (case rq_object req of
        None \<Rightarrow> (req, Panic)
      | Some m \<Rightarrow>
          (let meta = (case m ''metadata'' of Some (JObject n) \<Rightarrow> n | _ \<Rightarrow> Map.empty);
               meta' = (if rq_operation req = ''CREATE'' then
                          (if meta ''creationTimestamp'' = None then meta(''creationTimestamp'' \<mapsto> JString ts) else meta)
                            (''lastModified'' \<mapsto> JString ts)
                        else if rq_operation req = ''UPDATE'' then meta(''lastModified'' \<mapsto> JString ts)
                        else meta)
           in (req\<lparr>rq_object := Some (m(''metadata'' \<mapsto> JObject meta'))\<rparr>, Ok ())))"

definition object_of :: "json_object option \<Rightarrow> json_object" where
  "object_of o' = (case o' of None \<Rightarrow> Map.empty | Some m \<Rightarrow> m)"

definition required_fields_validate :: "string \<Rightarrow> string list \<Rightarrow> adm_request \<Rightarrow> (adm_error, unit) outcome" where
  "required_fields_validate name flds req =
     (let missing = filter (\<lambda>f. \<not> is_present (object_of (rq_object req)) (split_path f)) flds
      in if missing \<noteq> [] then Err (Rejection name (''required field(s) missing: ['' @ join_with '' '' missing @ '']''))
         else Ok ())"

definition name_format_validate :: "string \<Rightarrow> (string \<times> (string \<Rightarrow> bool)) option \<Rightarrow> adm_request \<Rightarrow> (adm_error, unit) outcome" where
  "name_format_validate name pat req =
     (if rq_object_name req = [] then Err (Rejection name ''metadata.name is empty'')
      else (case pat of
              None \<Rightarrow> Ok ()
            | Some (txt, f) \<Rightarrow>
                if \<not> f (rq_object_name req)
                then Err (Rejection name (''name '' @ rq_object_name req @ '' does not match '' @ txt)) else Ok ()))"

fun immutable_loop :: "string \<Rightarrow> json_object \<Rightarrow> json_object \<Rightarrow> string list \<Rightarrow> (adm_error, unit) outcome" where
  "immutable_loop name old new [] = Ok ()"
| "immutable_loop name old new (f # fs) =
     (if \<not> deep_equal (lookup_path old (split_path f)) (lookup_path new (split_path f))
      then Err (Rejection name (''field '' @ f @ '' is immutable'')) else immutable_loop name old new fs)"

definition immutable_fields_validate :: "string \<Rightarrow> string list \<Rightarrow> adm_request \<Rightarrow> (adm_error, unit) outcome" where
  "immutable_fields_validate name flds req =
     (case rq_old req of
        None \<Rightarrow> Ok ()
      | Some old \<Rightarrow> if rq_operation req \<noteq> ''UPDATE'' then Ok () else immutable_loop name old (object_of (rq_object req)) flds)"

subsection \<open>Defaults\<close>

lemma is_present_one: "is_present m [k] = (case m k of None \<Rightarrow> False | Some v \<Rightarrow> value_present v)"
  by (simp add: is_present_def lookup_path_def split: option.splits)

lemma lookup_path_Cons:
  "lookup_path m (k # ks) = (case m k of None \<Rightarrow> None | Some w \<Rightarrow> walk_path ks w)"
  by (simp add: lookup_path_def)

lemma walk_object: "ks \<noteq> [] \<Longrightarrow> walk_path ks (JObject m) = lookup_path m ks"
  by (simp add: lookup_path_def)

lemma walk_other: "ks \<noteq> [] \<Longrightarrow> (\<And>m. v \<noteq> JObject m) \<Longrightarrow> walk_path ks v = None"
  by (cases ks; cases v) auto

lemma default_lookup:
  "path \<noteq> [] \<Longrightarrow> lookup_path (set_if_absent path v m) path = (if is_present m path then lookup_path m path else Some v)"
proof (induction path v m rule: set_if_absent.induct)
  case (2 k v m)
  then show ?case by (auto simp: lookup_path_Cons is_present_one split: option.splits)
next
  case (3 k j ks v m)
  define n where "n = (case m k of Some (JObject n) \<Rightarrow> n | _ \<Rightarrow> Map.empty)"
  have n: "lookup_path m (k # j # ks) = lookup_path n (j # ks)"
    by (auto simp: lookup_path_def n_def split: option.splits json.splits)
  have "lookup_path (set_if_absent (k # j # ks) v m) (k # j # ks) = lookup_path (set_if_absent (j # ks) v n) (j # ks)"
    by (simp add: lookup_path_def n_def)
  also have "\<dots> = (if is_present n (j # ks) then lookup_path n (j # ks) else Some v)"
    using 3 by (simp add: n_def)
  finally show ?case unfolding is_present_def n .
qed simp

lemma default_idempotent: "set_if_absent path v (set_if_absent path v m) = set_if_absent path v m"
  by (induction path v m rule: set_if_absent.induct) (auto simp: fun_eq_iff)

lemma default_frame:
  "\<not> prefix q path \<Longrightarrow> \<not> prefix path q \<Longrightarrow> lookup_path (set_if_absent path v m) q = lookup_path m q"
proof (induction path v m arbitrary: q rule: set_if_absent.induct)
  case (2 k v m)
  then obtain i ys where "q = i # ys" "i \<noteq> k" by (cases q) auto
  then show ?case by (simp add: lookup_path_Cons)
next
  case (3 k j ks v m)
  then obtain i ys where q: "q = i # ys" by (cases q) auto
  define n where "n = (case m k of Some (JObject n) \<Rightarrow> n | _ \<Rightarrow> Map.empty)"
  show ?case
  proof (cases "i = k")
    case True
    then have p: "\<not> prefix ys (j # ks)" "\<not> prefix (j # ks) ys" "ys \<noteq> []" using 3(2,3) q by auto
    have "lookup_path n ys = lookup_path m q"
      using p(3) walk_other [of ys]
      by (auto simp: q True lookup_path_Cons n_def walk_object split: option.splits json.splits)
         (cases ys; simp add: lookup_path_Cons)+
    then show ?thesis
      using 3(1) [of ys] p by (simp add: q True lookup_path_Cons walk_object n_def)
  qed (simp add: q lookup_path_Cons)
qed simp

text \<open>Defaulting touches what it names: after a default is set at a path, the path has the value it had, if
  that was present (not nil, nor an empty text, list or map), and the default otherwise; every path that
  is neither above nor below reads as before; and setting it again changes nothing.\<close>

theorem default_exact:
  assumes "rq_object req = Some m" "path \<noteq> []"
  shows "\<exists>m'. default_value_mutate path v req = (req\<lparr>rq_object := Some m'\<rparr>, Ok ())
    \<and> lookup_path m' (split_path path) = (if is_present m (split_path path) then lookup_path m (split_path path) else Some v)
    \<and> (\<forall>q. prefix q (split_path path) \<or> prefix (split_path path) q \<or> lookup_path m' q = lookup_path m q)
    \<and> default_value_mutate path v (req\<lparr>rq_object := Some m'\<rparr>) = (req\<lparr>rq_object := Some m'\<rparr>, Ok ())"
proof (intro exI conjI)
  let ?p = "split_path path"
  have ne: "?p \<noteq> []" using assms(2) by (simp add: split_path_def)
  show "default_value_mutate path v req = (req\<lparr>rq_object := Some (set_if_absent ?p v m)\<rparr>, Ok ())"
    using assms(1) by (simp add: default_value_mutate_def)
  show "lookup_path (set_if_absent ?p v m) ?p = (if is_present m ?p then lookup_path m ?p else Some v)"
    using default_lookup [OF ne] .
  show "\<forall>q. prefix q ?p \<or> prefix ?p q \<or> lookup_path (set_if_absent ?p v m) q = lookup_path m q"
    using default_frame by blast
  show "default_value_mutate path v (req\<lparr>rq_object := Some (set_if_absent ?p v m)\<rparr>)
      = (req\<lparr>rq_object := Some (set_if_absent ?p v m)\<rparr>, Ok ())"
    by (simp add: default_value_mutate_def default_idempotent)
qed

definition sample_request :: adm_request where
  "sample_request = \<lparr>rq_uid = [], rq_group = [], rq_version = ''v1'', rq_kind = ''App'', rq_namespace = [],
     rq_object_name = ''web'', rq_operation = ''UPDATE'', rq_object = Some [''kind'' \<mapsto> JString ''App''],
     rq_old = Some [''kind'' \<mapsto> JString ''App''], rq_username = []\<rparr>"

lemma default_exact_witness:
  "\<exists>m'. default_value_mutate ''spec.n'' (JNumber 1) sample_request = (sample_request\<lparr>rq_object := Some m'\<rparr>, Ok ())
    \<and> lookup_path m' (split_path ''spec.n'') = (if is_present [''kind'' \<mapsto> JString ''App''] (split_path ''spec.n'')
        then lookup_path [''kind'' \<mapsto> JString ''App''] (split_path ''spec.n'') else Some (JNumber 1))
    \<and> (\<forall>q. prefix q (split_path ''spec.n'') \<or> prefix (split_path ''spec.n'') q
          \<or> lookup_path m' q = lookup_path [''kind'' \<mapsto> JString ''App''] q)
    \<and> default_value_mutate ''spec.n'' (JNumber 1) (sample_request\<lparr>rq_object := Some m'\<rparr>)
        = (sample_request\<lparr>rq_object := Some m'\<rparr>, Ok ())"
  by (rule default_exact) (simp_all add: sample_request_def)

text \<open>A value on the way that is no map is replaced by one, and a nil object is written to.\<close>

lemma default_replaces_scalar:
  "set_if_absent [''spec'', ''n''] v [''spec'' \<mapsto> JString ''text''] = [''spec'' \<mapsto> JObject [''n'' \<mapsto> v]]"
  by (simp add: is_present_one)

lemma default_on_nil_panics:
  "rq_object req = None \<Longrightarrow> path \<noteq> [] \<Longrightarrow> snd (default_value_mutate path v req) = Panic"
  by (simp add: default_value_mutate_def split_path_def)

subsection \<open>What is admitted\<close>

lemma run_validators_ok: "run_validators vs req = Ok () \<longleftrightarrow> list_all (\<lambda>(n, f). f req = Ok ()) vs"
  by (induction vs) (auto split: outcome.splits)

lemma admit_ok:
  "admit c req = (req', Ok ()) \<longleftrightarrow>
     run_mutators (ac_mutators c) req = (req', Ok ()) \<and> list_all (\<lambda>(n, f). f req' = Ok ()) (ac_validators c)"
  by (auto simp: admit_def run_validators_ok split: prod.splits outcome.splits)

lemma validator_errors_are_rejections: "run_validators vs req = Err e \<Longrightarrow> is_rejection e"
  by (induction vs) (auto split: outcome.splits if_splits)

lemma immutable_loop_ok:
  "immutable_loop name old new fs = Ok ()
   \<longleftrightarrow> list_all (\<lambda>f. deep_equal (lookup_path old (split_path f)) (lookup_path new (split_path f))) fs"
  by (induction fs) auto

text \<open>A mutator that fails after another leaves the change of the first in the request.\<close>

lemma failed_mutator_keeps_changes:
  "f req = (req', Ok ()) \<Longrightarrow> g req' = (req'', Err e) \<Longrightarrow>
   admit \<lparr>ac_mutators = [(a, f), (b, g)], ac_validators = vs, ac_timeout = t\<rparr> req
     = (req'', Err (WrappedError (''mutator '' @ b @ '' failed: '') e))"
  by (simp add: admit_def)

text \<open>C37. What is admitted was checked as it will be stored: when a chain with the validators of required and
  of immutable fields admits an update, in the object that the mutators left every required field is
  present, and every immutable field equals the one of the old object (nil and the empty map being equal).\<close>

theorem admitted_update_checked:
  assumes "admit c req = (req', Ok ())"
    "(a, required_fields_validate a needed) \<in> set (ac_validators c)"
    "(b, immutable_fields_validate b fixed) \<in> set (ac_validators c)"
    "rq_operation req' = ''UPDATE''" "rq_old req' = Some old" "rq_object req' = Some new"
  shows "run_mutators (ac_mutators c) req = (req', Ok ())
    \<and> list_all (\<lambda>f. is_present new (split_path f)) needed
    \<and> list_all (\<lambda>f. deep_equal (lookup_path old (split_path f)) (lookup_path new (split_path f))) fixed"
proof -
  have run: "run_mutators (ac_mutators c) req = (req', Ok ())"
    and ok: "\<And>n f. (n, f) \<in> set (ac_validators c) \<Longrightarrow> f req' = Ok ()"
    using assms(1) by (auto simp: admit_ok list_all_iff)
  have "required_fields_validate a needed req' = Ok ()" using ok assms(2) by blast
  then have "list_all (\<lambda>f. is_present new (split_path f)) needed"
    using assms(6) by (simp add: required_fields_validate_def Let_def object_of_def filter_empty_conv list_all_iff split: if_splits)
  moreover have "immutable_fields_validate b fixed req' = Ok ()" using ok assms(3) by blast
  ultimately show ?thesis
    using run assms(4-6) by (simp add: immutable_fields_validate_def object_of_def immutable_loop_ok)
qed

definition sample_chain :: adm_chain where
  "sample_chain = \<lparr>ac_mutators = [default_value_mutator ''d'' ''n'' (JNumber 1)],
     ac_validators = [(''r'', required_fields_validate ''r'' [''n'']), (''i'', immutable_fields_validate ''i'' [''kind''])],
     ac_timeout = 1\<rparr>"

lemma admitted_update_checked_witness:
  "run_mutators (ac_mutators sample_chain) sample_request
     = (sample_request\<lparr>rq_object := Some [''kind'' \<mapsto> JString ''App'', ''n'' \<mapsto> JNumber 1]\<rparr>, Ok ())
   \<and> list_all (\<lambda>f. is_present [''kind'' \<mapsto> JString ''App'', ''n'' \<mapsto> JNumber 1] (split_path f)) [''n'']
   \<and> list_all (\<lambda>f. deep_equal (lookup_path [''kind'' \<mapsto> JString ''App''] (split_path f))
       (lookup_path [''kind'' \<mapsto> JString ''App'', ''n'' \<mapsto> JNumber 1] (split_path f))) [''kind'']"
  by (rule admitted_update_checked [where c = sample_chain and a = "''r''" and b = "''i''"])
    (simp_all add: sample_chain_def sample_request_def admit_def default_value_mutator_def default_value_mutate_def
      split_path_def is_present_one required_fields_validate_def object_of_def value_present_def
      immutable_fields_validate_def lookup_path_def deep_equal_def)

end
