(* ===== verification/Schema_Registry.thy ===== *)
theory Schema_Registry
  imports Json_Patch Go_Strings "HOL-Library.AList"
begin

section \<open>The schema registry (internal/schemaregistry)\<close>

text \<open>
  compatibility.go: the checks between two schemas, on parsed JSON; parsing is an argument that gives
  an object or an error. The orders in which the properties are ranged over are arguments.
\<close>

type_synonym schema_object = "string \<rightharpoonup> json"

subsection \<open>Reading schemas (compatibility.go)\<close>

definition get_properties :: "schema_object \<Rightarrow> schema_object" where
  "get_properties s = (case s ''properties'' of Some (JObject m) \<Rightarrow> m | _ \<Rightarrow> Map.empty)"

fun strings_in :: "json list \<Rightarrow> string list" where
  "strings_in [] = []"
| "strings_in (v # vs) = (case v of JString s \<Rightarrow> s # strings_in vs | _ \<Rightarrow> strings_in vs)"

definition get_required :: "schema_object \<Rightarrow> string list" where
  "get_required s = (case s ''required'' of Some (JArray vs) \<Rightarrow> strings_in vs | _ \<Rightarrow> [])"

definition get_field_def :: "schema_object \<Rightarrow> string \<Rightarrow> schema_object option" where
  "get_field_def props f = (case props f of Some (JObject m) \<Rightarrow> Some m | _ \<Rightarrow> None)"

definition has_default :: "schema_object option \<Rightarrow> bool" where
  "has_default d = (case d of None \<Rightarrow> False | Some m \<Rightarrow> m ''default'' \<noteq> None)"

definition get_type :: "json \<Rightarrow> string" where
  "get_type d = (case d of JObject m \<Rightarrow> (case m ''type'' of Some (JString t) \<Rightarrow> t | _ \<Rightarrow> []) | _ \<Rightarrow> [])"

definition get_enum :: "json \<Rightarrow> json list option" where
  "get_enum d = (case d of JObject m \<Rightarrow> (case m ''enum'' of Some (JArray vs) \<Rightarrow> Some vs | _ \<Rightarrow> None) | _ \<Rightarrow> None)"

definition type_narrowed :: "json \<Rightarrow> json \<Rightarrow> bool" where
  "type_narrowed old new =
     (if get_type old = ''number'' \<and> get_type new = ''integer'' then True
      else if get_type old = ''string'' \<and> get_type new = ''string'' then get_enum old = None \<and> get_enum new \<noteq> None
      else False)"

definition type_widened :: "json \<Rightarrow> json \<Rightarrow> bool" where
  "type_widened old new \<longleftrightarrow> get_type old = ''integer'' \<and> get_type new = ''number''"

fun avro_fields :: "json list \<Rightarrow> schema_object \<Rightarrow> schema_object" where
  "avro_fields [] m = m"
| "avro_fields (v # vs) m =
     avro_fields vs (case v of JObject f \<Rightarrow> (case f ''name'' of Some (JString n) \<Rightarrow> m(n \<mapsto> JObject f) | _ \<Rightarrow> m) | _ \<Rightarrow> m)"

definition get_avro_fields :: "schema_object \<Rightarrow> schema_object" where
  "get_avro_fields s = (case s ''fields'' of Some (JArray vs) \<Rightarrow> avro_fields vs Map.empty | _ \<Rightarrow> Map.empty)"

definition has_avro_default :: "json \<Rightarrow> bool" where
  "has_avro_default d = (case d of JObject m \<Rightarrow> m ''default'' \<noteq> None | _ \<Rightarrow> False)"

subsection \<open>The checks (compatibility.go)\<close>

text \<open>\<open>o1\<close>, \<open>n1\<close>, \<open>o2\<close> are the orders of the three loops.\<close>

definition backward_errors ::
  "string list \<Rightarrow> string list \<Rightarrow> string list \<Rightarrow> schema_object \<Rightarrow> schema_object \<Rightarrow> string list" where
  "backward_errors o1 n1 o2 new old =
     (let op = get_properties old; np = get_properties new
      in map (\<lambda>f. ''BACKWARD: required field '' @ f @ '' was removed'')
           (filter (\<lambda>f. np f = None \<and> f \<in> set (get_required old)) o1)
         @ map (\<lambda>f. ''BACKWARD: new required field '' @ f @ '' has no default value'')
             (filter (\<lambda>f. op f = None \<and> f \<in> set (get_required new) \<and> \<not> has_default (get_field_def np f)) n1)
         @ map (\<lambda>f. ''BACKWARD: field '' @ f @ '' type was narrowed'')
             (filter (\<lambda>f. case (op f, np f) of (Some a, Some b) \<Rightarrow> type_narrowed a b | _ \<Rightarrow> False) o2))"

definition forward_errors :: "string list \<Rightarrow> string list \<Rightarrow> schema_object \<Rightarrow> schema_object \<Rightarrow> string list" where
  "forward_errors o1 o2 new old =
     (let op = get_properties old; np = get_properties new
      in map (\<lambda>f. ''FORWARD: required field '' @ f @ '' was removed (old readers expect it)'')
           (filter (\<lambda>f. np f = None \<and> f \<in> set (get_required old)) o1)
         @ map (\<lambda>f. ''FORWARD: field '' @ f @ '' type was widened (old readers may not handle it)'')
             (filter (\<lambda>f. case (op f, np f) of (Some a, Some b) \<Rightarrow> type_widened a b | _ \<Rightarrow> False) o2))"

type_synonym schema_parser = "string \<Rightarrow> string + schema_object"

text \<open>\<open>ord\<close> gives an order of the keys of an object for each loop, by its number.\<close>

definition check_json :: "schema_parser \<Rightarrow> (nat \<Rightarrow> schema_object \<Rightarrow> string list) \<Rightarrow> string \<Rightarrow> string \<Rightarrow> string \<Rightarrow> string list" where
  "check_json parse ord new old mode =
     (case parse new of
        Inl e \<Rightarrow> [''failed to parse new schema: '' @ e]
      | Inr n \<Rightarrow>
          (case parse old of
             Inl e \<Rightarrow> [''failed to parse old schema: '' @ e]
           | Inr o' \<Rightarrow>
               (let b = backward_errors (ord 0 (get_properties o')) (ord 1 (get_properties n)) (ord 2 (get_properties o')) n o';
                    f = forward_errors (ord 3 (get_properties o')) (ord 4 (get_properties o')) n o'
                in if mode \<in> {''BACKWARD'', ''BACKWARD_TRANSITIVE''} then b
                   else if mode \<in> {''FORWARD'', ''FORWARD_TRANSITIVE''} then f
                   else if mode \<in> {''FULL'', ''FULL_TRANSITIVE''} then b @ f
                   else [])))"

definition avro_backward :: "string list \<Rightarrow> schema_object \<Rightarrow> schema_object \<Rightarrow> string list" where
  "avro_backward ks nf of' =
     map (\<lambda>f. ''BACKWARD: new Avro field '' @ f @ '' has no default'')
       (filter (\<lambda>f. of' f = None \<and> (case nf f of None \<Rightarrow> False | Some d \<Rightarrow> \<not> has_avro_default d)) ks)"

definition avro_forward :: "string list \<Rightarrow> schema_object \<Rightarrow> schema_object \<Rightarrow> string list" where
  "avro_forward ks nf of' =
     map (\<lambda>f. ''FORWARD: removed Avro field '' @ f @ '' had no default in old schema'')
       (filter (\<lambda>f. nf f = None \<and> (case of' f of None \<Rightarrow> False | Some d \<Rightarrow> \<not> has_avro_default d)) ks)"

definition check_avro :: "schema_parser \<Rightarrow> (nat \<Rightarrow> schema_object \<Rightarrow> string list) \<Rightarrow> string \<Rightarrow> string \<Rightarrow> string \<Rightarrow> string list" where
  "check_avro parse ord new old mode =
     (case parse new of
        Inl e \<Rightarrow> [''failed to parse new Avro schema: '' @ e]
      | Inr n \<Rightarrow>
          (case parse old of
             Inl e \<Rightarrow> [''failed to parse old Avro schema: '' @ e]
           | Inr o' \<Rightarrow>
               (let nf = get_avro_fields n; of' = get_avro_fields o';
                    b = avro_backward (ord 0 nf) nf of'; f = avro_forward (ord 1 of') nf of'
                in if mode \<in> {''BACKWARD'', ''BACKWARD_TRANSITIVE''} then b
                   else if mode \<in> {''FORWARD'', ''FORWARD_TRANSITIVE''} then f
                   else if mode \<in> {''FULL'', ''FULL_TRANSITIVE''} then b @ f
                   else [])))"

definition check_compatibility ::
  "schema_parser \<Rightarrow> (nat \<Rightarrow> schema_object \<Rightarrow> string list) \<Rightarrow> string \<Rightarrow> string \<Rightarrow> string \<Rightarrow> string \<Rightarrow> string list" where
  "check_compatibility parse ord new old typ mode =
     (if typ = ''JSON'' then check_json parse ord new old mode
      else if typ = ''AVRO'' then check_avro parse ord new old mode
      else [''unsupported schema type: '' @ typ])"

subsection \<open>What the backward check accepts\<close>

lemma map_filters_empty: "map g (filter P xs) = [] \<longleftrightarrow> (\<forall>x \<in> set xs. \<not> P x)"
  by (simp add: filter_empty_conv)

lemma backward_empty:
  "backward_errors o1 n1 o2 new old = [] \<longleftrightarrow>
    (\<forall>f \<in> set o1. \<not> (get_properties new f = None \<and> f \<in> set (get_required old)))
    \<and> (\<forall>f \<in> set n1. \<not> (get_properties old f = None \<and> f \<in> set (get_required new)
         \<and> \<not> has_default (get_field_def (get_properties new) f)))
    \<and> (\<forall>f \<in> set o2. \<not> (case (get_properties old f, get_properties new f) of
         (Some a, Some b) \<Rightarrow> type_narrowed a b | _ \<Rightarrow> False))"
  unfolding backward_errors_def Let_def append_is_Nil_conv map_filters_empty by (rule refl)

lemma backward_exact:
  assumes "enumerates o1 (get_properties old)" "enumerates n1 (get_properties new)" "enumerates o2 (get_properties old)"
  shows "backward_errors o1 n1 o2 new old = [] \<longleftrightarrow>
    (\<forall>f. get_properties old f \<noteq> None \<and> get_properties new f = None \<longrightarrow> f \<notin> set (get_required old))
    \<and> (\<forall>f. get_properties new f \<noteq> None \<and> get_properties old f = None \<and> f \<in> set (get_required new)
         \<longrightarrow> has_default (get_field_def (get_properties new) f))
    \<and> (\<forall>f a b. get_properties old f = Some a \<and> get_properties new f = Some b \<longrightarrow> \<not> type_narrowed a b)"
proof -
  have m: "\<And>f. f \<in> set o1 \<longleftrightarrow> get_properties old f \<noteq> None" "\<And>f. f \<in> set n1 \<longleftrightarrow> get_properties new f \<noteq> None"
    "\<And>f. f \<in> set o2 \<longleftrightarrow> get_properties old f \<noteq> None"
    using assms by (auto simp: enumerates_def)
  have third: "(\<forall>f \<in> set o2. \<not> (case (get_properties old f, get_properties new f) of
         (Some a, Some b) \<Rightarrow> type_narrowed a b | _ \<Rightarrow> False))
    \<longleftrightarrow> (\<forall>f a b. get_properties old f = Some a \<and> get_properties new f = Some b \<longrightarrow> \<not> type_narrowed a b)"
    by (force simp: Ball_def m split: option.splits)
  show ?thesis unfolding backward_empty third unfolding Ball_def m by blast
qed

text \<open>
  A datum is an object. It is written with a schema when its fields are declared there, it has the
  required ones, and each fits its definition; it is read with a schema when every required field is
  there or has a default, and each declared field fits. What fits a definition is any relation.
\<close>

definition written_with :: "(json \<Rightarrow> json \<Rightarrow> bool) \<Rightarrow> schema_object \<Rightarrow> schema_object \<Rightarrow> bool" where
  "written_with fits s d \<longleftrightarrow> dom d \<subseteq> dom (get_properties s) \<and> set (get_required s) \<subseteq> dom d
     \<and> (\<forall>f v p. d f = Some v \<and> get_properties s f = Some p \<longrightarrow> fits p v)"

definition readable_with :: "(json \<Rightarrow> json \<Rightarrow> bool) \<Rightarrow> schema_object \<Rightarrow> schema_object \<Rightarrow> bool" where
  "readable_with fits s d \<longleftrightarrow> (\<forall>f \<in> set (get_required s). d f \<noteq> None \<or> has_default (get_field_def (get_properties s) f))
     \<and> (\<forall>f v p. d f = Some v \<and> get_properties s f = Some p \<longrightarrow> fits p v)"

definition same_shared :: "schema_object \<Rightarrow> schema_object \<Rightarrow> bool" where
  "same_shared new old \<longleftrightarrow> set (get_required new) \<subseteq> dom (get_properties new)
     \<and> (\<forall>f a b. get_properties old f = Some a \<and> get_properties new f = Some b \<longrightarrow> a = b)
     \<and> (\<forall>f. f \<in> set (get_required new) \<and> get_properties old f \<noteq> None \<longrightarrow> f \<in> set (get_required old))"

lemma same_defs:
  "same_shared new old \<Longrightarrow> get_properties old f = Some a \<Longrightarrow> get_properties new f = Some b \<Longrightarrow> a = b"
  unfolding same_shared_def by blast

lemma written_fits:
  "written_with fits s d \<Longrightarrow> d f = Some v \<Longrightarrow> get_properties s f = Some p \<Longrightarrow> fits p v"
  unfolding written_with_def by blast


definition typed_field :: "string \<Rightarrow> json" where
  "typed_field t = JObject [''type'' \<mapsto> JString t]"

definition sample_old :: schema_object where
  "sample_old = [''properties'' \<mapsto> JObject [''a'' \<mapsto> typed_field ''string''], ''required'' \<mapsto> JArray [JString ''a'']]"

definition sample_new :: schema_object where
  "sample_new = [''properties'' \<mapsto> JObject [''a'' \<mapsto> typed_field ''string'', ''b'' \<mapsto> typed_field ''string''],
     ''required'' \<mapsto> JArray [JString ''a'']]"

lemma sample_parts:
  "get_properties sample_old = [''a'' \<mapsto> typed_field ''string'']"
  "get_properties sample_new = [''a'' \<mapsto> typed_field ''string'', ''b'' \<mapsto> typed_field ''string'']"
  "get_required sample_old = [''a'']" "get_required sample_new = [''a'']"
  "\<not> type_narrowed (typed_field t) (typed_field u) \<or> t = ''number'' \<and> u = ''integer''"
  by (simp_all add: sample_old_def sample_new_def get_properties_def get_required_def type_narrowed_def get_type_def
      get_enum_def typed_field_def)

lemma sample_accepted: "backward_errors [''a''] [''a'', ''b''] [''a''] sample_new sample_old = []"
  unfolding backward_empty sample_parts using sample_parts(5) [of "''string''" "''string''"] by simp

lemma sample_enumerated:
  "enumerates [''a''] (get_properties sample_old)" "enumerates [''a'', ''b''] (get_properties sample_new)"
  unfolding sample_parts enumerates_def by (simp_all add: insert_commute)

lemma sample_same: "same_shared sample_new sample_old"
  unfolding same_shared_def sample_parts by simp

lemma sample_datum: "written_with (\<lambda>p v. \<exists>s. v = JString s) sample_old [''a'' \<mapsto> JString ''x'']"
  unfolding written_with_def sample_parts by (simp split: if_split_asm)


text \<open>The conditions are not checked: a changed type, an optional field made required, an undeclared one required.\<close>

lemma type_change_passes:
  "backward_errors [''a''] [''a''] [''a'']
     [''properties'' \<mapsto> JObject [''a'' \<mapsto> typed_field ''integer'']] [''properties'' \<mapsto> JObject [''a'' \<mapsto> typed_field ''string'']] = []"
  by (simp add: backward_errors_def get_properties_def get_required_def typed_field_def type_narrowed_def get_type_def Let_def)

lemma optional_made_required_passes:
  "backward_errors [''a''] [''a''] [''a''] sample_old [''properties'' \<mapsto> JObject [''a'' \<mapsto> typed_field ''string'']] = []"
  by (simp add: backward_errors_def sample_old_def get_properties_def get_required_def typed_field_def type_narrowed_def
      get_type_def get_enum_def Let_def)

lemma undeclared_required_passes:
  "backward_errors [] [] [] [''required'' \<mapsto> JArray [JString ''x'']] Map.empty = []"
  by (simp add: backward_errors_def)

text \<open>A smaller enumeration is no narrowing.\<close>

lemma smaller_enum_passes:
  "get_enum a \<noteq> None \<Longrightarrow> get_type a = ''string'' \<Longrightarrow> \<not> type_narrowed a b"
  by (simp add: type_narrowed_def)

text \<open>The forward check takes a field without a default, which its comment forbids.\<close>

lemma forward_takes_new_field: "forward_errors [''a''] [''a''] sample_new sample_old = []"
  by (simp add: forward_errors_def sample_old_def sample_new_def get_properties_def get_required_def typed_field_def
      type_widened_def get_type_def Let_def)

text \<open>The transitive modes are the plain ones.\<close>

lemma transitive_modes_alike:
  "check_json parse ord new old ''BACKWARD_TRANSITIVE'' = check_json parse ord new old ''BACKWARD''"
  "check_json parse ord new old ''FORWARD_TRANSITIVE'' = check_json parse ord new old ''FORWARD''"
  "check_json parse ord new old ''FULL_TRANSITIVE'' = check_json parse ord new old ''FULL''"
  by (simp_all add: check_json_def Let_def split: sum.split)

end
