(* ===== verification/Schema_Registration.thy ===== *)
theory Schema_Registration
  imports Schema_Registry
begin

section \<open>Registration of schemas (internal/schemaregistry: reconciler.go, handlers.go)\<close>

text \<open>
  The handlers create and delete the schemas of a subject; the reconciler checks a new one against the
  highest version and gives it an identifier and a version. The store of the schemas is the list that
  List gives; whether the two Lists of the reconciler succeed is an argument. Both stores are there, and
  their other calls go through. The digest of a schema is an argument.
\<close>

record reg_condition =
  rc_type :: string
  rc_status :: string
  rc_reason :: string
  rc_message :: string
  rc_since :: gotime

record schema_resource =
  sr_namespace :: string
  sr_name :: string
  sr_generation :: int
  sr_subject :: string
  sr_type :: string
  sr_schema :: string
  sr_mode :: string
  sr_observed :: int
  sr_phase :: string
  sr_conditions :: "reg_condition list"
  sr_transition :: gotime
  sr_id :: int
  sr_version :: int
  sr_print :: string
  sr_latest :: bool
  sr_registered :: "gotime option"
  sr_compatible_with :: "int list"
  sr_errors :: "string list"
  sr_compatible :: bool
  sr_field_count :: int

record subject_resource =
  sj_name :: string
  sj_generation :: int
  sj_mode :: string
  sj_type :: string
  sj_latest_version :: int
  sj_latest_id :: int
  sj_registered :: "gotime option"
  sj_count :: int
  sj_transition :: gotime

record schema_registry =
  rg_schemas :: "schema_resource list"
  rg_subjects :: "string \<rightharpoonup> subject_resource"
  rg_ids :: int

definition empty_registry :: schema_registry where
  "empty_registry = \<lparr>rg_schemas = [], rg_subjects = Map.empty, rg_ids = 0\<rparr>"

definition schema_key :: "schema_resource \<Rightarrow> string" where
  "schema_key s = (if sr_namespace s = [] then sr_name s else sr_namespace s @ ''/'' @ sr_name s)"

text \<open>Update writes whatever is there, Create nothing where there is something.\<close>

fun put_schema :: "schema_resource \<Rightarrow> schema_resource list \<Rightarrow> schema_resource list" where
  "put_schema s [] = [s]"
| "put_schema s (t # ts) = (if schema_key t = schema_key s then s # ts else t # put_schema s ts)"

subsection \<open>The reconciler (reconciler.go)\<close>

fun upsert_reg_condition :: "reg_condition list \<Rightarrow> reg_condition \<Rightarrow> reg_condition list" where
  "upsert_reg_condition [] c = [c]"
| "upsert_reg_condition (e # es) c = (if rc_type e = rc_type c then c # es else e # upsert_reg_condition es c)"

fun count_marks :: "string \<Rightarrow> nat" where
  "count_marks [] = 0"
| "count_marks (c # cs) =
     (if length cs \<le> 3 then 0
      else (if take 4 (c # cs) = ''name'' \<or> take 4 (c # cs) = ''type'' then 1 else 0) + count_marks cs)"

definition count_fields :: "string \<Rightarrow> int" where
  "count_fields s = int (count_marks s div 2)"

definition subject_compatibility :: "schema_registry \<Rightarrow> string \<Rightarrow> string" where
  "subject_compatibility r subj = (case rg_subjects r subj of None \<Rightarrow> [] | Some j \<Rightarrow> sj_mode j)"

fun previous_loop :: "string \<Rightarrow> string \<Rightarrow> schema_resource list \<Rightarrow> schema_resource option \<Rightarrow> int \<Rightarrow> schema_resource option" where
  "previous_loop subj name [] best v = best"
| "previous_loop subj name (s # ss) best v =
     (if sr_subject s = subj \<and> sr_name s \<noteq> name \<and> v < sr_version s
      then previous_loop subj name ss (Some s) (sr_version s) else previous_loop subj name ss best v)"

definition find_previous_version :: "bool \<Rightarrow> schema_registry \<Rightarrow> string \<Rightarrow> string \<Rightarrow> schema_resource option" where
  "find_previous_version listed r subj name = (if \<not> listed then None else previous_loop subj name (rg_schemas r) None 0)"

fun max_version_loop :: "string \<Rightarrow> schema_resource list \<Rightarrow> int \<Rightarrow> int" where
  "max_version_loop subj [] v = v"
| "max_version_loop subj (s # ss) v =
     max_version_loop subj ss (if sr_subject s = subj \<and> v < sr_version s then sr_version s else v)"

definition get_next_version :: "bool \<Rightarrow> schema_registry \<Rightarrow> string \<Rightarrow> int" where
  "get_next_version listed r subj = (if \<not> listed then 1 else max_version_loop subj (rg_schemas r) 0 + 1)"

definition update_subject_status :: "gotime \<Rightarrow> schema_resource \<Rightarrow> schema_registry \<Rightarrow> schema_registry" where
  "update_subject_status now s r =
     (case rg_subjects r (sr_subject s) of
        None \<Rightarrow> r
      | Some j \<Rightarrow> r\<lparr>rg_subjects := (rg_subjects r)(sr_subject s \<mapsto>
          j\<lparr>sj_latest_version := sr_version s, sj_latest_id := sr_id s, sj_registered := Some now,
            sj_count := sj_count j + 1, sj_transition := now\<rparr>)\<rparr>)"

definition effective_mode :: "schema_registry \<Rightarrow> schema_resource \<Rightarrow> string" where
  "effective_mode r s =
     (let m = (if sr_mode s = [] then subject_compatibility r (sr_subject s) else sr_mode s)
      in if m = [] then ''BACKWARD'' else m)"

type_synonym schema_checker = "string \<Rightarrow> string \<Rightarrow> string \<Rightarrow> string \<Rightarrow> string list"

definition violations :: "schema_checker option \<Rightarrow> string \<Rightarrow> schema_resource option \<Rightarrow> schema_resource \<Rightarrow> string list" where
  "violations checker mode prev s =
     (case (prev, checker) of
        (Some p, Some check) \<Rightarrow> if mode = ''NONE'' then [] else check (sr_schema s) (sr_schema p) (sr_type s) mode
      | _ \<Rightarrow> [])"

definition rejected :: "gotime \<Rightarrow> string \<Rightarrow> string list \<Rightarrow> schema_resource \<Rightarrow> schema_resource" where
  "rejected now mode es s =
     (let cs = upsert_reg_condition (sr_conditions s)
            \<lparr>rc_type = ''Compatible'', rc_status = ''False'', rc_reason = ''IncompatibleSchema'',
             rc_message = ''schema is not '' @ mode @ '' compatible: '' @ print_nat (length es) @ '' violations'', rc_since = now\<rparr>;
          cs' = upsert_reg_condition cs
            \<lparr>rc_type = ''Ready'', rc_status = ''False'', rc_reason = ''CompatibilityCheckFailed'', rc_message = es ! 0, rc_since = now\<rparr>
      in s\<lparr>sr_compatible := False, sr_errors := es, sr_phase := ''Incompatible'', sr_conditions := cs',
           sr_observed := sr_generation s, sr_transition := now\<rparr>)"

text \<open>\<open>ident\<close> and \<open>version\<close> are what the schema has or is given.\<close>

definition registered :: "gotime \<Rightarrow> string \<Rightarrow> schema_resource option \<Rightarrow> int \<Rightarrow> int \<Rightarrow> schema_resource \<Rightarrow> schema_resource" where
  "registered now mode prev ident version s =
     (let cs = upsert_reg_condition (sr_conditions s)
            \<lparr>rc_type = ''Compatible'', rc_status = ''True'', rc_reason = ''CompatibilityCheckPassed'',
             rc_message = ''schema is '' @ mode @ '' compatible (version '' @ print_int version @ '')'', rc_since = now\<rparr>;
          cs' = upsert_reg_condition cs
            \<lparr>rc_type = ''Ready'', rc_status = ''True'', rc_reason = ''Registered'',
             rc_message = ''schema registered as version '' @ print_int version @ '' with ID '' @ print_int ident, rc_since = now\<rparr>
      in s\<lparr>sr_compatible := True, sr_errors := [], sr_id := ident, sr_version := version, sr_latest := True,
           sr_registered := Some now, sr_phase := ''Registered'', sr_field_count := count_fields (sr_schema s),
           sr_compatible_with := sr_compatible_with s @ (case prev of None \<Rightarrow> [] | Some p \<Rightarrow> [sr_version p]),
           sr_conditions := cs', sr_observed := sr_generation s, sr_transition := now\<rparr>)"

definition reconcile_schema ::
  "(string \<Rightarrow> string) \<Rightarrow> schema_checker option \<Rightarrow> gotime \<Rightarrow> bool \<times> bool \<Rightarrow> schema_resource \<Rightarrow> schema_registry \<Rightarrow> schema_registry" where
  "reconcile_schema digest checker now listed s0 r =
     (if sr_generation s0 \<le> sr_observed s0 \<and> 0 < sr_id s0 then r
      else
        let s = s0\<lparr>sr_print := digest (sr_schema s0)\<rparr>;
            mode = effective_mode r s;
            prev = find_previous_version (fst listed) r (sr_subject s) (sr_name s);
            es = violations checker mode prev s
        in if es \<noteq> [] then r\<lparr>rg_schemas := put_schema (rejected now mode es s) (rg_schemas r)\<rparr>
           else
             let ids = (if sr_id s = 0 then rg_ids r + 1 else rg_ids r);
                 ident = (if sr_id s = 0 then ids else sr_id s);
                 version = (if sr_version s = 0 then get_next_version (snd listed) r (sr_subject s) else sr_version s);
                 s' = registered now mode prev ident version s;
                 xs = (case prev of None \<Rightarrow> rg_schemas r | Some p \<Rightarrow> put_schema (p\<lparr>sr_latest := False\<rparr>) (rg_schemas r))
             in update_subject_status now s' (r\<lparr>rg_ids := ids, rg_schemas := put_schema s' xs\<rparr>))"

subsection \<open>The handlers (handlers.go)\<close>

text \<open>\<open>rnd\<close> is the random part of the name. An empty schema is refused.\<close>

definition new_schema :: "string \<Rightarrow> string \<Rightarrow> string \<Rightarrow> string \<Rightarrow> schema_resource" where
  "new_schema subj rnd typ text =
     \<lparr>sr_namespace = [], sr_name = subj @ ''-'' @ rnd, sr_generation = 1, sr_subject = subj,
      sr_type = (if typ = [] then ''JSON'' else typ), sr_schema = text, sr_mode = [], sr_observed = 0, sr_phase = [],
      sr_conditions = [], sr_transition = zero_time, sr_id = 0, sr_version = 0, sr_print = [], sr_latest = False,
      sr_registered = None, sr_compatible_with = [], sr_errors = [], sr_compatible = False, sr_field_count = 0\<rparr>"

definition new_subject :: "string \<Rightarrow> string \<Rightarrow> subject_resource" where
  "new_subject subj typ =
     \<lparr>sj_name = subj, sj_generation = 1, sj_mode = ''BACKWARD'', sj_type = (if typ = [] then ''JSON'' else typ), sj_latest_version = 0,
      sj_latest_id = 0, sj_registered = None, sj_count = 0, sj_transition = zero_time\<rparr>"

definition register_schema :: "string \<Rightarrow> string \<Rightarrow> string \<Rightarrow> string \<Rightarrow> schema_registry \<Rightarrow> (string, string) outcome \<times> schema_registry" where
  "register_schema subj rnd typ text r =
     (if text = [] then (Err ''schema field is required'', r)
      else
        let r' = (if rg_subjects r subj = None then r\<lparr>rg_subjects := (rg_subjects r)(subj \<mapsto> new_subject subj typ)\<rparr> else r);
            s = new_schema subj rnd typ text
        in if \<exists>t \<in> set (rg_schemas r). schema_key t = schema_key s then (Err ''failed to register schema'', r')
           else (Ok (sr_name s), r'\<lparr>rg_schemas := rg_schemas r @ [s]\<rparr>))"

definition list_versions :: "schema_registry \<Rightarrow> string \<Rightarrow> (string, int list) outcome" where
  "list_versions r subj =
     (let vs = map sr_version (filter (\<lambda>s. sr_subject s = subj \<and> 0 < sr_version s) (rg_schemas r))
      in if vs = [] then Err ''subject not found'' else Ok vs)"

text \<open>The word latest stands for the version \<open>-1\<close>.\<close>

fun lookup_loop :: "string \<Rightarrow> int \<Rightarrow> schema_resource list \<Rightarrow> schema_resource option \<Rightarrow> schema_resource option" where
  "lookup_loop subj v [] found = found"
| "lookup_loop subj v (s # ss) found =
     (if sr_subject s \<noteq> subj then lookup_loop subj v ss found
      else if v = - 1 then
        lookup_loop subj v ss
          (case found of None \<Rightarrow> Some s | Some f \<Rightarrow> if sr_version f < sr_version s then Some s else Some f)
      else if sr_version s = v then Some s
      else lookup_loop subj v ss found)"

definition parse_version :: "string \<Rightarrow> int option" where
  "parse_version vs = (if vs = ''latest'' then Some (- 1) else atoi vs)"

definition get_schema_by_version :: "schema_registry \<Rightarrow> string \<Rightarrow> string \<Rightarrow> (string, schema_resource) outcome" where
  "get_schema_by_version r subj vs =
     (case parse_version vs of
        None \<Rightarrow> Err ''invalid version number''
      | Some v \<Rightarrow> (case lookup_loop subj v (rg_schemas r) None of None \<Rightarrow> Err ''schema not found'' | Some s \<Rightarrow> Ok s))"

definition list_subjects :: "string list \<Rightarrow> schema_registry \<Rightarrow> string list" where
  "list_subjects ks r = map (\<lambda>k. case rg_subjects r k of None \<Rightarrow> [] | Some j \<Rightarrow> sj_name j) ks"

definition get_schema_by_id :: "schema_registry \<Rightarrow> int \<Rightarrow> (string, schema_resource) outcome" where
  "get_schema_by_id r i =
     (case List.find (\<lambda>s. sr_id s = i) (rg_schemas r) of None \<Rightarrow> Err ''schema not found'' | Some s \<Rightarrow> Ok s)"

definition set_subject_compatibility :: "string \<Rightarrow> string \<Rightarrow> schema_registry \<Rightarrow> (string, string) outcome \<times> schema_registry" where
  "set_subject_compatibility subj mode r =
     (case rg_subjects r subj of
        None \<Rightarrow> (Err ''subject not found'', r)
      | Some j \<Rightarrow> (Ok mode, r\<lparr>rg_subjects := (rg_subjects r)
          (subj \<mapsto> j\<lparr>sj_mode := mode, sj_generation := i64 (sj_generation j + 1)\<rparr>)\<rparr>))"

definition get_subject_compatibility :: "schema_registry \<Rightarrow> string \<Rightarrow> (string, string) outcome" where
  "get_subject_compatibility r subj =
     (case rg_subjects r subj of None \<Rightarrow> Err ''subject not found'' | Some j \<Rightarrow> Ok (sj_mode j))"

definition dry_check ::
  "schema_checker \<Rightarrow> string \<Rightarrow> string \<Rightarrow> string \<Rightarrow> string \<Rightarrow> schema_registry \<Rightarrow> (string, bool \<times> string list) outcome" where
  "dry_check check subj vs typ text r =
     (case parse_version vs of
        None \<Rightarrow> Err ''invalid version''
      | Some v \<Rightarrow>
          (case lookup_loop subj v (rg_schemas r) None of
             None \<Rightarrow> Err ''target schema version not found''
           | Some t \<Rightarrow>
               (let mode = (case rg_subjects r subj of None \<Rightarrow> ''BACKWARD'' | Some j \<Rightarrow> sj_mode j);
                    es = check text (sr_schema t) (if typ = [] then ''JSON'' else typ) mode
                in Ok (es = [], es))))"

definition delete_schema_version :: "string \<Rightarrow> int \<Rightarrow> schema_registry \<Rightarrow> (string, int) outcome \<times> schema_registry" where
  "delete_schema_version subj v r =
     (case List.find (\<lambda>s. sr_subject s = subj \<and> sr_version s = v) (rg_schemas r) of
        None \<Rightarrow> (Err ''schema version not found'', r)
      | Some s \<Rightarrow> (Ok v, r\<lparr>rg_schemas := filter (\<lambda>t. schema_key t \<noteq> sr_name s) (rg_schemas r)\<rparr>))"

subsection \<open>Histories\<close>

text \<open>A history of requests and reconciliations of what is stored, whose Lists succeed.\<close>

datatype registry_event =
    Register string string string string
  | DeleteVersion string int
  | SetMode string string
  | Reconciled string gotime

fun registry_step :: "(string \<Rightarrow> string) \<Rightarrow> schema_checker option \<Rightarrow> schema_registry \<Rightarrow> registry_event \<Rightarrow> schema_registry" where
  "registry_step digest check r (Register subj rnd typ text) = snd (register_schema subj rnd typ text r)"
| "registry_step digest check r (DeleteVersion subj v) = snd (delete_schema_version subj v r)"
| "registry_step digest check r (SetMode subj mode) = snd (set_subject_compatibility subj mode r)"
| "registry_step digest check r (Reconciled name now) =
     (case List.find (\<lambda>s. sr_name s = name) (rg_schemas r) of
        None \<Rightarrow> r
      | Some s \<Rightarrow> reconcile_schema digest check now (True, True) s r)"

subsection \<open>The loops over the versions\<close>

text \<open>What the loop looks for, and its choice.\<close>

definition candidate :: "string \<Rightarrow> string \<Rightarrow> schema_resource \<Rightarrow> bool" where
  "candidate subj name s \<longleftrightarrow> sr_subject s = subj \<and> sr_name s \<noteq> name"

lemma previous_step:
  "candidate subj name s \<and> v < sr_version s \<Longrightarrow>
     previous_loop subj name (s # ss) best v = previous_loop subj name ss (Some s) (sr_version s)"
  "\<not> (candidate subj name s \<and> v < sr_version s) \<Longrightarrow>
     previous_loop subj name (s # ss) best v = previous_loop subj name ss best v"
  by (simp_all only: previous_loop.simps candidate_def conj_assoc simp_thms if_True if_False)

definition chosen :: "string \<Rightarrow> string \<Rightarrow> schema_resource list \<Rightarrow> int \<Rightarrow> schema_resource \<Rightarrow> bool" where
  "chosen subj name ss v p \<longleftrightarrow> p \<in> set ss \<and> candidate subj name p \<and> v < sr_version p
     \<and> (\<forall>t \<in> set ss. candidate subj name t \<longrightarrow> sr_version t \<le> sr_version p)"

definition none_above :: "string \<Rightarrow> string \<Rightarrow> schema_resource list \<Rightarrow> int \<Rightarrow> bool" where
  "none_above subj name ss v \<longleftrightarrow> (\<forall>t \<in> set ss. candidate subj name t \<longrightarrow> sr_version t \<le> v)"

lemma none_above_Cons:
  "none_above subj name (s # ss) v \<longleftrightarrow> (candidate subj name s \<longrightarrow> sr_version s \<le> v) \<and> none_above subj name ss v"
  by (simp add: none_above_def)

lemma chosen_Cons:
  "chosen subj name ss v p \<Longrightarrow> (candidate subj name s \<longrightarrow> sr_version s \<le> sr_version p) \<Longrightarrow> chosen subj name (s # ss) v p"
  by (simp add: chosen_def)

lemma chosen_here:
  "candidate subj name s \<Longrightarrow> v < sr_version s \<Longrightarrow> none_above subj name ss (sr_version s) \<Longrightarrow> chosen subj name (s # ss) v s"
  by (simp add: chosen_def none_above_def)

lemma chosen_less: "chosen subj name ss v p \<Longrightarrow> w \<le> v \<Longrightarrow> chosen subj name ss w p"
  by (simp add: chosen_def)

lemma chosen_above: "chosen subj name ss v p \<Longrightarrow> v < sr_version p"
  by (simp add: chosen_def)

lemma previous_loop_cases:
  "previous_loop subj name ss best v = best \<and> none_above subj name ss v
   \<or> (\<exists>p. previous_loop subj name ss best v = Some p \<and> chosen subj name ss v p)"
proof (induction ss arbitrary: best v)
  case Nil
  show ?case by (simp add: none_above_def)
next
  case (Cons s ss)
  show ?case
  proof (cases "candidate subj name s \<and> v < sr_version s")
    case True
    note step = previous_step(1) [OF True]
    from Cons.IH [of "Some s" "sr_version s"] show ?thesis
    proof
      assume "previous_loop subj name ss (Some s) (sr_version s) = Some s \<and> none_above subj name ss (sr_version s)"
      then show ?thesis using step True chosen_here by metis
    next
      assume "\<exists>p. previous_loop subj name ss (Some s) (sr_version s) = Some p \<and> chosen subj name ss (sr_version s) p"
      then obtain p where p: "previous_loop subj name ss (Some s) (sr_version s) = Some p" "chosen subj name ss (sr_version s) p" by blast
      have "chosen subj name (s # ss) (sr_version s) p" using chosen_Cons [OF p(2)] chosen_above [OF p(2)] by simp
      then have "chosen subj name (s # ss) v p" using True chosen_less [of subj name "s # ss" "sr_version s" p v] by simp
      then show ?thesis using step p(1) by metis
    qed
  next
    case False
    note step = previous_step(2) [OF False]
    from Cons.IH [of best v] show ?thesis
    proof
      assume "previous_loop subj name ss best v = best \<and> none_above subj name ss v"
      then show ?thesis unfolding step none_above_Cons using False by (meson not_less)
    next
      assume "\<exists>p. previous_loop subj name ss best v = Some p \<and> chosen subj name ss v p"
      then obtain p where p: "previous_loop subj name ss best v = Some p" "chosen subj name ss v p" by blast
      have "candidate subj name s \<longrightarrow> sr_version s \<le> sr_version p" using chosen_above [OF p(2)] False by (meson not_less order_trans less_imp_le)
      then show ?thesis unfolding step using p chosen_Cons [OF p(2)] by blast
    qed
  qed
qed

lemma find_previous_cases:
  "find_previous_version True r subj name = None \<and> none_above subj name (rg_schemas r) 0
   \<or> (\<exists>p. find_previous_version True r subj name = Some p \<and> chosen subj name (rg_schemas r) 0 p)"
  using previous_loop_cases [of subj name "rg_schemas r" None 0] by (simp add: find_previous_version_def)

lemma max_version_ge: "v \<le> max_version_loop subj ss v"
  by (induction subj ss v rule: max_version_loop.induct) (auto split: if_splits)

lemma max_version_all: "t \<in> set ss \<Longrightarrow> sr_subject t = subj \<Longrightarrow> sr_version t \<le> max_version_loop subj ss v"
proof (induction subj ss v rule: max_version_loop.induct)
  case (2 subj s ss v)
  show ?case
  proof (cases "t = s")
    case True
    then show ?thesis
      using 2(3) max_version_ge [of "if sr_subject s = subj \<and> v < sr_version s then sr_version s else v" subj ss]
      by (auto split: if_splits)
  next
    case False
    then show ?thesis using 2 by simp
  qed
qed simp

subsection \<open>The writes of the store\<close>

abbreviation plain_keys :: "schema_resource list \<Rightarrow> bool" where
  "plain_keys xs \<equiv> list_all (\<lambda>s. sr_namespace s = []) xs"

lemma put_schema_names:
  "plain_keys xs \<Longrightarrow> sr_namespace s = [] \<Longrightarrow> sr_name s \<in> sr_name ` set xs \<Longrightarrow>
     map sr_name (put_schema s xs) = map sr_name xs"
  by (induction s xs rule: put_schema.induct) (auto simp: schema_key_def)

lemma put_schema_set:
  "plain_keys xs \<Longrightarrow> sr_namespace s = [] \<Longrightarrow> distinct (map sr_name xs) \<Longrightarrow>
     set (put_schema s xs) = insert s {t \<in> set xs. sr_name t \<noteq> sr_name s}"
proof (induction s xs rule: put_schema.induct)
  case (2 s t ts)
  then show ?case by (auto simp: schema_key_def image_iff)
qed simp

lemma put_schema_plain: "plain_keys xs \<Longrightarrow> sr_namespace s = [] \<Longrightarrow> plain_keys (put_schema s xs)"
  by (induction s xs rule: put_schema.induct) auto

subsection \<open>What holds of every history\<close>

text \<open>A schema is unregistered, or has an identifier and a version of its own and is reconciled.\<close>

definition settled :: "int \<Rightarrow> schema_resource \<Rightarrow> bool" where
  "settled ids s \<longleftrightarrow> sr_namespace s = []
     \<and> (sr_id s = 0 \<and> sr_version s = 0 \<and> \<not> sr_latest s
        \<or> 0 < sr_id s \<and> sr_id s \<le> ids \<and> 0 < sr_version s \<and> sr_generation s \<le> sr_observed s)"

definition apart :: "schema_resource \<Rightarrow> schema_resource \<Rightarrow> bool" where
  "apart s t \<longleftrightarrow> (0 < sr_id s \<longrightarrow> sr_id s \<noteq> sr_id t \<and> (sr_subject s = sr_subject t \<longrightarrow> sr_version s \<noteq> sr_version t))
     \<and> (sr_latest s \<and> sr_subject s = sr_subject t \<longrightarrow> sr_version t < sr_version s)"

definition registry_ok :: "schema_registry \<Rightarrow> bool" where
  "registry_ok r \<longleftrightarrow> 0 \<le> rg_ids r \<and> distinct (map sr_name (rg_schemas r))
     \<and> (\<forall>s \<in> set (rg_schemas r). settled (rg_ids r) s)
     \<and> (\<forall>s \<in> set (rg_schemas r). \<forall>t \<in> set (rg_schemas r). sr_name s \<noteq> sr_name t \<longrightarrow> apart s t)"

lemma okD:
  assumes "registry_ok r"
  shows "0 \<le> rg_ids r" "distinct (map sr_name (rg_schemas r))" "plain_keys (rg_schemas r)"
    "s \<in> set (rg_schemas r) \<Longrightarrow> settled (rg_ids r) s"
    "s \<in> set (rg_schemas r) \<Longrightarrow> t \<in> set (rg_schemas r) \<Longrightarrow> sr_name s \<noteq> sr_name t \<Longrightarrow> apart s t"
  using assms unfolding registry_ok_def list_all_iff settled_def by blast+

lemma apart_latest: "apart s t \<Longrightarrow> sr_latest s \<Longrightarrow> sr_subject s = sr_subject t \<Longrightarrow> sr_version t < sr_version s"
  by (simp add: apart_def)

lemma settled_mono: "settled ids s \<Longrightarrow> ids \<le> ids' \<Longrightarrow> settled ids' s"
  unfolding settled_def by linarith

text \<open>Writing one schema keeps it if what is written is settled and apart from the others.\<close>

lemma registry_ok_put:
  assumes "registry_ok r" "s \<in> set (rg_schemas r)" "sr_name s' = sr_name s" "rg_ids r \<le> ids" "settled ids s'"
    "\<forall>t. t \<in> set (rg_schemas r) \<and> sr_name t \<noteq> sr_name s \<longrightarrow> apart s' t \<and> apart t s'"
  shows "registry_ok (r\<lparr>rg_ids := ids, rg_schemas := put_schema s' (rg_schemas r)\<rparr>)"
proof -
  note ok = okD [OF assms(1)]
  have ns: "sr_namespace s' = []" using assms(5) by (simp add: settled_def)
  have names: "map sr_name (put_schema s' (rg_schemas r)) = map sr_name (rg_schemas r)"
    using assms(2,3) by (intro put_schema_names ok ns) simp
  have mem: "set (put_schema s' (rg_schemas r)) = insert s' {t \<in> set (rg_schemas r). sr_name t \<noteq> sr_name s'}"
    by (intro put_schema_set ok ns)
  have "settled ids t" if "t \<in> set (put_schema s' (rg_schemas r))" for t
    using that assms(5) settled_mono [OF ok(4) assms(4)] unfolding mem by blast
  moreover have "apart t u" if "t \<in> set (put_schema s' (rg_schemas r))" "u \<in> set (put_schema s' (rg_schemas r))"
    "sr_name t \<noteq> sr_name u" for t u
    using that ok(5) assms(3,6) unfolding mem by (metis (mono_tags, lifting) insert_iff mem_Collect_eq)
  moreover have "0 \<le> ids" using ok(1) assms(4) by simp
  ultimately show ?thesis unfolding registry_ok_def using ok(2) by (simp add: names)
qed

text \<open>A write that changes neither identity nor version, and marks nothing as the latest.\<close>

definition touched :: "schema_resource \<Rightarrow> schema_resource \<Rightarrow> bool" where
  "touched s s' \<longleftrightarrow> sr_name s' = sr_name s \<and> sr_namespace s' = sr_namespace s \<and> sr_subject s' = sr_subject s
     \<and> sr_generation s' = sr_generation s \<and> sr_id s' = sr_id s \<and> sr_version s' = sr_version s
     \<and> (sr_latest s' \<longrightarrow> sr_latest s) \<and> (sr_observed s' = sr_generation s \<or> sr_observed s' = sr_observed s)"

lemma touched_settled: "touched s s' \<Longrightarrow> settled ids s \<Longrightarrow> settled ids s'"
  unfolding touched_def settled_def by (elim conjE) (simp, linarith)

lemma touched_apart: "touched s s' \<Longrightarrow> apart s t \<Longrightarrow> apart s' t" "touched s s' \<Longrightarrow> apart t s \<Longrightarrow> apart t s'"
  unfolding touched_def apart_def by simp_all

lemma registry_ok_touch:
  assumes "registry_ok r" "s \<in> set (rg_schemas r)" "touched s s'"
  shows "registry_ok (r\<lparr>rg_schemas := put_schema s' (rg_schemas r)\<rparr>)"
proof -
  have "registry_ok (r\<lparr>rg_ids := rg_ids r, rg_schemas := put_schema s' (rg_schemas r)\<rparr>)"
  proof (rule registry_ok_put [OF assms(1,2)])
    show "sr_name s' = sr_name s" using assms(3) by (simp add: touched_def)
    show "settled (rg_ids r) s'" using touched_settled [OF assms(3) okD(4) [OF assms(1,2)]] .
    show "\<forall>t. t \<in> set (rg_schemas r) \<and> sr_name t \<noteq> sr_name s \<longrightarrow> apart s' t \<and> apart t s'"
      using okD(5) [OF assms(1)] touched_apart [OF assms(3)] assms(2) by metis
  qed simp
  then show ?thesis by simp
qed

lemma registry_ok_same: "rg_schemas r' = rg_schemas r \<Longrightarrow> rg_ids r' = rg_ids r \<Longrightarrow> registry_ok r' = registry_ok r"
  by (simp add: registry_ok_def)

lemma update_subject_same [simp]:
  "rg_schemas (update_subject_status now s r) = rg_schemas r" "rg_ids (update_subject_status now s r) = rg_ids r"
  by (simp_all add: update_subject_status_def split: option.split)

text \<open>The list after the previous version has been unmarked.\<close>

definition unmark :: "schema_resource option \<Rightarrow> schema_resource list \<Rightarrow> schema_resource list" where
  "unmark prev xs = (case prev of None \<Rightarrow> xs | Some p \<Rightarrow> put_schema (p\<lparr>sr_latest := False\<rparr>) xs)"

lemma unmark_ok:
  assumes "registry_ok r" "s \<in> set (rg_schemas r)"
    "prev = find_previous_version True r (sr_subject s) (sr_name s)" "r1 = r\<lparr>rg_schemas := unmark prev (rg_schemas r)\<rparr>"
  shows "registry_ok r1 \<and> s \<in> set (rg_schemas r1)
    \<and> (\<forall>t. t \<in> set (rg_schemas r1) \<and> sr_name t \<noteq> sr_name s \<and> sr_subject t = sr_subject s \<longrightarrow>
         \<not> sr_latest t \<and> sr_version t \<le> max_version_loop (sr_subject s) (rg_schemas r) 0)"
proof -
  note ok = okD [OF assms(1)]
  note highest = max_version_all [where ss = "rg_schemas r" and v = 0]
  from find_previous_cases [of r "sr_subject s" "sr_name s"] show ?thesis
  proof
    assume none: "find_previous_version True r (sr_subject s) (sr_name s) = None \<and> none_above (sr_subject s) (sr_name s) (rg_schemas r) 0"
    then have r1: "r1 = r" using assms(3,4) by (simp add: unmark_def)
    have "\<not> sr_latest t" if "t \<in> set (rg_schemas r)" "sr_name t \<noteq> sr_name s" "sr_subject t = sr_subject s" for t
    proof -
      have "sr_version t \<le> 0" using none that by (simp add: none_above_def candidate_def)
      then show ?thesis using ok(4) [OF that(1)] unfolding settled_def by linarith
    qed
    then show ?thesis unfolding r1 using assms(1,2) highest by blast
  next
    assume "\<exists>p. find_previous_version True r (sr_subject s) (sr_name s) = Some p \<and> chosen (sr_subject s) (sr_name s) (rg_schemas r) 0 p"
    then obtain p where p: "find_previous_version True r (sr_subject s) (sr_name s) = Some p"
      and ch: "chosen (sr_subject s) (sr_name s) (rg_schemas r) 0 p" by blast
    define q where "q = p\<lparr>sr_latest := False\<rparr>"
    have r1: "r1 = r\<lparr>rg_schemas := put_schema q (rg_schemas r)\<rparr>" using assms(3,4) p by (simp add: unmark_def q_def)
    have pin: "p \<in> set (rg_schemas r)" "sr_subject p = sr_subject s" "sr_name p \<noteq> sr_name s"
      using ch by (simp_all add: chosen_def candidate_def)
    have q: "touched p q" "sr_name q = sr_name p" "\<not> sr_latest q" "sr_version q = sr_version p" "sr_namespace q = []"
      using ok(4) [OF pin(1)] by (simp_all add: touched_def q_def settled_def)
    have mem: "set (rg_schemas r1) = insert q {t \<in> set (rg_schemas r). sr_name t \<noteq> sr_name q}"
      using put_schema_set [OF ok(3) q(5) ok(2)] by (simp add: r1)
    have old: "\<not> sr_latest t" if "t \<in> set (rg_schemas r)" "sr_name t \<noteq> sr_name s" "sr_name t \<noteq> sr_name p" "sr_subject t = sr_subject s" for t
    proof -
      have "sr_version t \<le> sr_version p" using ch that by (simp add: chosen_def candidate_def)
      then show ?thesis using apart_latest [OF ok(5) [OF that(1) pin(1) that(3)]] that(4) pin(2) by (metis leD)
    qed
    have "registry_ok r1" unfolding r1 by (rule registry_ok_touch [OF assms(1) pin(1) q(1)])
    moreover have "s \<in> set (rg_schemas r1)" unfolding mem using assms(2) pin(3) q(2) by simp
    moreover have "\<not> sr_latest t \<and> sr_version t \<le> max_version_loop (sr_subject s) (rg_schemas r) 0"
      if "t \<in> set (rg_schemas r1)" "sr_name t \<noteq> sr_name s" "sr_subject t = sr_subject s" for t
    proof (cases "t = q")
      case True
      then show ?thesis using q(3,4) highest [OF pin(1,2)] by simp
    next
      case False
      then have "t \<in> set (rg_schemas r)" "sr_name t \<noteq> sr_name p" using that(1) q(2) unfolding mem by simp_all
      then show ?thesis using old that(2,3) highest by simp
    qed
    ultimately show ?thesis by blast
  qed
qed

lemma newest_apart:
  assumes "settled ids t" "sr_id s = ids + 1" "sr_subject t = sr_subject s \<longrightarrow> \<not> sr_latest t \<and> sr_version t < sr_version s" "0 \<le> ids"
  shows "apart s t \<and> apart t s"
proof -
  have "sr_id t \<le> ids" using assms(1,4) unfolding settled_def by (elim conjE disjE) simp_all
  then have "sr_id s \<noteq> sr_id t" using assms(2) by simp
  then show ?thesis unfolding apart_def using assms(3) by (metis less_irrefl)
qed

lemma registered_fields:
  assumes "s' = registered now mode prev i v s"
  shows "sr_name s' = sr_name s" "sr_namespace s' = sr_namespace s" "sr_subject s' = sr_subject s" "sr_id s' = i"
    "sr_version s' = v" "sr_latest s'" "sr_observed s' = sr_generation s'"
  unfolding assms registered_def Let_def by simp_all

lemma rejected_touched: "touched s (rejected now mode es (s\<lparr>sr_print := d\<rparr>))"
  unfolding rejected_def Let_def touched_def by simp

lemma reconcile_ok:
  assumes "registry_ok r" "s \<in> set (rg_schemas r)"
  shows "registry_ok (reconcile_schema digest check now (True, True) s r)"
proof (cases "sr_generation s \<le> sr_observed s \<and> 0 < sr_id s")
  case True
  then show ?thesis using assms(1) by (simp add: reconcile_schema_def)
next
  case False
  define s1 where "s1 = s\<lparr>sr_print := digest (sr_schema s)\<rparr>"
  define mode where "mode = effective_mode r s1"
  define prev where "prev = find_previous_version True r (sr_subject s) (sr_name s)"
  define es where "es = violations check mode prev s1"
  have same: "sr_subject s1 = sr_subject s" "sr_name s1 = sr_name s" "sr_id s1 = sr_id s" "sr_version s1 = sr_version s"
    "sr_namespace s1 = sr_namespace s"
    by (simp_all add: s1_def)
  have new: "sr_id s = 0" "sr_version s = 0" "sr_namespace s = []"
    using okD(4) [OF assms] False unfolding settled_def by blast+
  show ?thesis
  proof (cases "es = []")
    case False': False
    have "reconcile_schema digest check now (True, True) s r = r\<lparr>rg_schemas := put_schema (rejected now mode es s1) (rg_schemas r)\<rparr>"
      using False False' unfolding reconcile_schema_def Let_def s1_def [symmetric] mode_def [symmetric] fst_conv same
        prev_def [symmetric] es_def [symmetric] by (simp only: if_False if_True simp_thms)
    moreover have "touched s (rejected now mode es s1)" unfolding s1_def by (rule rejected_touched)
    ultimately show ?thesis using registry_ok_touch [OF assms] by simp
  next
    case True
    define v where "v = max_version_loop (sr_subject s) (rg_schemas r) 0 + 1"
    define s' where "s' = registered now mode prev (rg_ids r + 1) v s1"
    define r1 where "r1 = r\<lparr>rg_schemas := unmark prev (rg_schemas r)\<rparr>"
    have run: "reconcile_schema digest check now (True, True) s r
        = update_subject_status now s' (r\<lparr>rg_ids := rg_ids r + 1, rg_schemas := put_schema s' (unmark prev (rg_schemas r))\<rparr>)"
      using False True unfolding reconcile_schema_def Let_def s1_def [symmetric] mode_def [symmetric] fst_conv snd_conv same
        prev_def [symmetric] es_def [symmetric] new s'_def v_def get_next_version_def unmark_def
      by (simp only: if_False if_True simp_thms new same)
    note s' = registered_fields [OF s'_def]
    from unmark_ok [OF assms prev_def r1_def] have ok1: "registry_ok r1" and s1in: "s \<in> set (rg_schemas r1)"
      and others: "\<And>t. t \<in> set (rg_schemas r1) \<Longrightarrow> sr_name t \<noteq> sr_name s \<Longrightarrow> sr_subject t = sr_subject s \<Longrightarrow>
         \<not> sr_latest t \<and> sr_version t < v"
      by (simp, simp, simp add: v_def)
    have ids: "rg_ids r1 = rg_ids r" by (simp add: r1_def)
    have pos: "0 < v" using max_version_ge [of 0 "sr_subject s" "rg_schemas r"] by (simp add: v_def)
    have "registry_ok (r1\<lparr>rg_ids := rg_ids r + 1, rg_schemas := put_schema s' (rg_schemas r1)\<rparr>)"
    proof (rule registry_ok_put [OF ok1 s1in])
      show "settled (rg_ids r + 1) s'" using okD(1) [OF assms(1)] pos by (simp add: settled_def s' same new)
      show "\<forall>t. t \<in> set (rg_schemas r1) \<and> sr_name t \<noteq> sr_name s \<longrightarrow> apart s' t \<and> apart t s'"
        using newest_apart [of "rg_ids r"] okD(1,4) [OF ok1] others s' same unfolding ids by metis
    qed (simp_all add: s' same ids)
    then show ?thesis unfolding run registry_ok_same [OF update_subject_same] by (simp add: r1_def)
  qed
qed

lemma new_schema_ok: "0 \<le> ids \<Longrightarrow> settled ids (new_schema subj rnd typ text)"
  "apart (new_schema subj rnd typ text) t" "settled ids t \<Longrightarrow> apart t (new_schema subj rnd typ text)"
  by (simp_all add: settled_def apart_def new_schema_def) linarith

lemma register_ok:
  assumes "registry_ok r"
  shows "registry_ok (snd (register_schema subj rnd typ text r))"
proof -
  note ok = okD [OF assms]
  define s where "s = new_schema subj rnd typ text"
  define r' where "r' = (if rg_subjects r subj = None then r\<lparr>rg_subjects := (rg_subjects r)(subj \<mapsto> new_subject subj typ)\<rparr> else r)"
  have r': "rg_schemas r' = rg_schemas r" "rg_ids r' = rg_ids r" by (simp_all add: r'_def)
  have run: "snd (register_schema subj rnd typ text r) =
    (if text = [] then r else if \<exists>t \<in> set (rg_schemas r). schema_key t = schema_key s then r'
     else r'\<lparr>rg_schemas := rg_schemas r @ [s]\<rparr>)"
    by (simp add: register_schema_def Let_def r'_def s_def)
  show ?thesis
  proof (cases "\<exists>t \<in> set (rg_schemas r). schema_key t = schema_key s")
    case True
    then show ?thesis unfolding run using assms registry_ok_same [OF r'] by simp
  next
    case False
    have key: "schema_key t = sr_name t" if "t \<in> set (rg_schemas r)" for t
      using ok(4) [OF that] by (simp add: settled_def schema_key_def)
    have "schema_key s = sr_name s" by (simp add: s_def new_schema_def schema_key_def)
    then have fresh: "sr_name s \<notin> set (map sr_name (rg_schemas r))" using False key by (metis (no_types, lifting) image_iff list.set_map)
    have "settled (rg_ids r) s" using ok(1) by (simp add: s_def new_schema_ok)
    then have settled: "settled (rg_ids r) t" if "t \<in> insert s (set (rg_schemas r))" for t using that ok(4) by blast
    have "apart t u" if "t \<in> insert s (set (rg_schemas r))" "u \<in> insert s (set (rg_schemas r))" "sr_name t \<noteq> sr_name u" for t u
      using that ok(5) new_schema_ok(2,3) settled unfolding s_def by (metis insert_iff)
    then have "registry_ok (r'\<lparr>rg_schemas := rg_schemas r @ [s]\<rparr>)"
      unfolding registry_ok_def using ok(1,2) fresh settled by (simp add: r')
    then show ?thesis unfolding run using assms registry_ok_same [OF r'] by simp
  qed
qed

lemma delete_ok:
  assumes "registry_ok r"
  shows "registry_ok (snd (delete_schema_version subj v r))"
proof -
  have "registry_ok (r\<lparr>rg_schemas := filter P (rg_schemas r)\<rparr>)" for P
    unfolding registry_ok_def using okD [OF assms] by (simp add: distinct_map_filter)
  then show ?thesis using assms by (simp add: delete_schema_version_def split: option.split)
qed

lemma set_mode_ok: "registry_ok r \<Longrightarrow> registry_ok (snd (set_subject_compatibility subj mode r))"
  by (simp add: set_subject_compatibility_def registry_ok_def split: option.split)

lemma find_member: "List.find P xs = Some x \<Longrightarrow> x \<in> set xs"
  by (auto simp: find_Some_iff)

lemma registry_step_ok:
  assumes "registry_ok r"
  shows "registry_ok (registry_step digest check r e)"
proof (cases e)
  case (Reconciled name now)
  show ?thesis
  proof (cases "List.find (\<lambda>s. sr_name s = name) (rg_schemas r)")
    case None
    then show ?thesis using assms by (simp add: Reconciled)
  next
    case (Some s)
    then show ?thesis using reconcile_ok [OF assms find_member [OF Some]] by (simp add: Reconciled)
  qed
qed (simp_all add: assms register_ok delete_ok set_mode_ok)

lemma history_ok: "registry_ok r \<Longrightarrow> registry_ok (foldl (registry_step digest check) r es)"
  by (induction es arbitrary: r) (simp_all add: registry_step_ok)

lemma distinct_on:
  "distinct (map f xs) \<Longrightarrow> \<forall>s \<in> set xs. \<forall>t \<in> set xs. f s \<noteq> f t \<and> P s \<and> P t \<longrightarrow> g s \<noteq> g t \<Longrightarrow> distinct (map g (filter P xs))"
proof (induction xs)
  case (Cons x xs)
  then show ?case by (simp add: image_iff)
qed simp


text \<open>Where a List fails nothing is checked, and the version is \<open>1\<close> again; the identifiers start with the process.\<close>

lemma put_schema_in: "s \<in> set (put_schema s xs)"
  by (induction s xs rule: put_schema.induct) simp_all

lemma unlisted_registration_unchecked:
  assumes "sr_id s = 0" "sr_version s = 0"
  shows "list_ex (\<lambda>t. sr_name t = sr_name s \<and> sr_compatible t \<and> sr_latest t \<and> sr_version t = 1 \<and> sr_id t = rg_ids r + 1)
    (rg_schemas (reconcile_schema digest check now (False, False) s r))"
proof -
  let ?s = "s\<lparr>sr_print := digest (sr_schema s)\<rparr>"
  let ?t = "registered now (effective_mode r ?s) None (rg_ids r + 1) 1 ?s"
  have "rg_schemas (reconcile_schema digest check now (False, False) s r) = put_schema ?t (rg_schemas r)"
    using assms by (simp add: reconcile_schema_def Let_def find_previous_version_def violations_def get_next_version_def)
  then show ?thesis unfolding list_ex_iff
    by (intro bexI [where x = ?t]) (simp_all add: put_schema_in registered_def Let_def)
qed

text \<open>The number of a deleted version is given again.\<close>

lemma deleted_version_given_again:
  "sr_subject a = subj \<Longrightarrow> sr_version a = 1 \<Longrightarrow> schema_key a \<noteq> sr_name b \<Longrightarrow> sr_subject b = subj \<Longrightarrow> sr_version b = 2 \<Longrightarrow>
     schema_key b = sr_name b \<Longrightarrow> rg_schemas r = [a, b] \<Longrightarrow>
     get_next_version True (snd (delete_schema_version subj 2 r)) subj = sr_version b"
  by (simp add: delete_schema_version_def get_next_version_def)

text \<open>A schema that is not registered, or was refused, is served as the latest when there is no other; and the
  version \<open>-1\<close> means the latest.\<close>

lemma unregistered_schema_served:
  "rg_schemas r = [new_schema subj rnd typ text] \<Longrightarrow>
     get_schema_by_version r subj ''latest'' = Ok (new_schema subj rnd typ text)"
  by (simp add: get_schema_by_version_def parse_version_def new_schema_def)

lemma minus_one_is_latest: "get_schema_by_version r subj ''-1'' = get_schema_by_version r subj ''latest''"
proof -
  have "atoi ''-1'' = Some (- 1)" by code_simp
  then show ?thesis by (simp add: get_schema_by_version_def parse_version_def)
qed

text \<open>So does the identifier \<open>0\<close> find one that has none yet.\<close>

lemma id_zero_is_pending:
  "rg_schemas r = [new_schema subj rnd typ text] \<Longrightarrow> get_schema_by_id r 0 = Ok (new_schema subj rnd typ text)"
  by (simp add: get_schema_by_id_def new_schema_def)

text \<open>The mode of a subject is any string; one that is not known checks nothing, and the empty one, which the
  reconciler takes for BACKWARD, makes the dry check accept what the reconciler refuses.\<close>

lemma unknown_mode_checks_nothing:
  "parse new = Inr n \<Longrightarrow> parse old = Inr o' \<Longrightarrow>
     mode \<notin> {''BACKWARD'', ''BACKWARD_TRANSITIVE'', ''FORWARD'', ''FORWARD_TRANSITIVE'', ''FULL'', ''FULL_TRANSITIVE''} \<Longrightarrow>
     check_json parse ord new old mode = []"
  by (simp add: check_json_def Let_def)

lemma empty_mode_dry_check_passes:
  assumes "rg_subjects r subj = Some j" "sj_mode j = []" "lookup_loop subj (- 1) (rg_schemas r) None = Some t"
    "parse text = Inr n" "parse (sr_schema t) = Inr o'" "sr_mode s = []" "sr_subject s = subj"
  shows "dry_check (check_compatibility parse ord) subj ''latest'' ''JSON'' text r = Ok (True, [])"
    "effective_mode r s = ''BACKWARD''"
proof -
  have "check_compatibility parse ord text (sr_schema t) ''JSON'' [] = []"
    using unknown_mode_checks_nothing [OF assms(4,5), of "[]"] by (simp add: check_compatibility_def)
  then show "dry_check (check_compatibility parse ord) subj ''latest'' ''JSON'' text r = Ok (True, [])"
    using assms(1-3) by (simp add: dry_check_def parse_version_def)
  show "effective_mode r s = ''BACKWARD''"
    using assms by (simp add: effective_mode_def subject_compatibility_def)
qed

end
