(* ===== verification/Storage_Access.thy ===== *)
theory Storage_Access
  imports Go_Strings
begin

section \<open>Access to the object storage (internal/storage/access)\<close>

text \<open>
  The controller of access.go: access keys, shares and policies, the decisions of its middleware, the rate
  limit per bucket, and what is kept in the key-value store of the Raft mode. Time, random identifiers and
  the orders of map loops are arguments; so are the limits in the specification of a bucket. Fields of the
  models that the controller does not read or write are left out.
\<close>

record tenant_policy =
  tp_tenant :: string
  tp_user :: string
  tp_role :: string
  tp_bucket :: string
  tp_expires :: "gotime option"
  tp_granted :: gotime

record access_key =
  ak_id :: string
  ak_secret :: string
  ak_name :: string
  ak_description :: string
  ak_user :: string
  ak_tenant :: string
  ak_role :: string
  ak_buckets :: "string list"
  ak_prefix :: string
  ak_active :: bool
  ak_expires :: "gotime option"
  ak_created :: gotime
  ak_used :: "gotime option"

record bucket_share =
  bs_id :: string
  bs_bucket :: string
  bs_tenant :: string
  bs_grantee :: string
  bs_role :: string
  bs_expires :: "gotime option"
  bs_by :: string
  bs_at :: gotime
  bs_active :: bool

record storage_context =
  st_user :: string
  st_email :: string
  st_tenant :: string
  st_roles :: "string list"

record access_state =
  ac_policies :: "string \<rightharpoonup> tenant_policy"
  ac_keys :: "string \<rightharpoonup> access_key"
  ac_shares :: "string \<rightharpoonup> bucket_share"
  ac_rates :: "string \<rightharpoonup> gotime \<times> int"
  ac_window :: duration
  ac_read_limit :: int
  ac_write_limit :: int

definition new_access :: "int \<Rightarrow> int \<Rightarrow> access_state" where
  "new_access rd wr =
     \<lparr>ac_policies = Map.empty, ac_keys = Map.empty, ac_shares = Map.empty, ac_rates = Map.empty,
      ac_window = 60 * second, ac_read_limit = rd, ac_write_limit = wr\<rparr>"

subsection \<open>Roles\<close>

definition map_iam_role :: "string \<Rightarrow> string" where
  "map_iam_role role =
     (let r = to_lower (trim_space role)
      in if r \<in> {''sysadmin'', ''system-manager'', ''system_admin'', ''system-admin''} then ''storage-admin''
         else if r = ''admin'' then ''storage-admin''
         else if r = ''manager'' then ''storage-writer''
         else if r = ''user'' then ''storage-reader''
         else if r = ''uploader'' then ''storage-uploader''
         else ''storage-reader'')"

definition role_order :: "string \<Rightarrow> int" where
  "role_order r =
     (if r = ''storage-admin'' then 4 else if r = ''storage-writer'' then 3 else if r = ''storage-browser'' then 2
      else if r = ''storage-reader'' then 1 else if r = ''storage-uploader'' then 1 else 0)"

definition role_at_least :: "string \<Rightarrow> string \<Rightarrow> bool" where
  "role_at_least have need \<longleftrightarrow> role_order need \<le> role_order have"

definition has_role :: "string list \<Rightarrow> string list \<Rightarrow> bool" where
  "has_role roles targets \<longleftrightarrow> list_ex (\<lambda>r. to_lower (trim_space r) \<in> set targets) roles"

abbreviation system_roles :: "string list" where
  "system_roles \<equiv> [''sysadmin'', ''system-manager'']"

subsection \<open>Access keys\<close>

definition create_access_key ::
  "gotime \<Rightarrow> string \<Rightarrow> string \<Rightarrow> string \<Rightarrow> string \<Rightarrow> string \<Rightarrow> string \<Rightarrow> string \<Rightarrow> string list \<Rightarrow> gotime option \<Rightarrow>
   access_state \<Rightarrow> access_key \<times> access_state" where
  "create_access_key now rnd secret user tenant name descr role buckets expires a =
     (let k = \<lparr>ak_id = ''AXAK'' @ rnd, ak_secret = secret, ak_name = name, ak_description = descr, ak_user = user,
               ak_tenant = tenant, ak_role = role, ak_buckets = buckets, ak_prefix = [], ak_active = True,
               ak_expires = expires, ak_created = now, ak_used = None\<rparr>
      in (k, a\<lparr>ac_keys := (ac_keys a)(ak_id k \<mapsto> k)\<rparr>))"

definition key_expired :: "gotime \<Rightarrow> access_key \<Rightarrow> bool" where
  "key_expired now k = (case ak_expires k of None \<Rightarrow> False | Some e \<Rightarrow> e < now)"

definition validate_access_key :: "gotime \<Rightarrow> string \<Rightarrow> string \<Rightarrow> access_state \<Rightarrow> access_key option \<times> access_state" where
  "validate_access_key now i secret a =
     (case ac_keys a i of
        None \<Rightarrow> (None, a)
      | Some k \<Rightarrow>
          if \<not> ak_active k \<or> key_expired now k \<or> ak_secret k \<noteq> secret then (None, a)
          else let k' = k\<lparr>ak_used := Some now\<rparr> in (Some k', a\<lparr>ac_keys := (ac_keys a)(i \<mapsto> k')\<rparr>))"

definition resolve_access_key :: "gotime \<Rightarrow> string \<Rightarrow> access_state \<Rightarrow> (string, access_key) outcome" where
  "resolve_access_key now i a =
     (case ac_keys a i of
        None \<Rightarrow> Err (''access key '' @ i @ '' not found'')
      | Some k \<Rightarrow>
          if \<not> ak_active k then Err (''access key '' @ i @ '' is inactive'')
          else if key_expired now k then Err (''access key '' @ i @ '' is expired'')
          else Ok k)"

fun newest_key :: "gotime \<Rightarrow> string \<Rightarrow> string \<Rightarrow> access_state \<Rightarrow> string list \<Rightarrow> access_key option \<Rightarrow> access_key option" where
  "newest_key now user tenant a [] best = best"
| "newest_key now user tenant a (i # is) best =
     newest_key now user tenant a is
       (case ac_keys a i of
          None \<Rightarrow> best
        | Some k \<Rightarrow>
            if \<not> ak_active k \<or> ak_user k \<noteq> user \<or> ak_tenant k \<noteq> tenant \<or> key_expired now k then best
            else case best of None \<Rightarrow> Some k | Some b \<Rightarrow> if ak_created b < ak_created k then Some k else best)"

definition resolve_for_presign ::
  "gotime \<Rightarrow> string list \<Rightarrow> string \<Rightarrow> string \<Rightarrow> string \<Rightarrow> access_state \<Rightarrow> (string, access_key) outcome" where
  "resolve_for_presign now ks user tenant preferred a =
     (if trim_space preferred \<noteq> [] then
        outcome_bind (resolve_access_key now (trim_space preferred) a)
          (\<lambda>k. if ak_user k \<noteq> user \<or> ak_tenant k \<noteq> tenant
               then Err (''access key '' @ preferred @ '' does not belong to user'') else Ok k)
      else case newest_key now user tenant a ks None of
             None \<Rightarrow> Err (''no active access key found for user '' @ user @ '' in tenant '' @ tenant)
           | Some k \<Rightarrow> Ok k)"

definition has_suffix :: "string \<Rightarrow> string \<Rightarrow> bool" where
  "has_suffix s w \<longleftrightarrow> length w \<le> length s \<and> drop (length s - length w) s = w"

definition bucket_scope_matches :: "string \<Rightarrow> string \<Rightarrow> bool" where
  "bucket_scope_matches entry bucket =
     (let s = to_lower (trim_space entry); b = to_lower (trim_space bucket)
      in if s = [] \<or> b = [] then False
         else if s = ''*'' \<or> s = b then True
         else has_suffix b (''-'' @ s) \<or> has_suffix s (''-'' @ b))"

definition trim_slash :: "string \<Rightarrow> string" where
  "trim_slash s = (case s of [] \<Rightarrow> [] | c # cs \<Rightarrow> if c = CHR ''/'' then cs else s)"

definition validate_object_request :: "gotime \<Rightarrow> access_key option \<Rightarrow> string \<Rightarrow> string \<Rightarrow> string \<Rightarrow> (string, unit) outcome" where
  "validate_object_request now ko method0 bucket0 key0 =
     (case ko of
        None \<Rightarrow> Err ''access key is required''
      | Some k \<Rightarrow>
          if \<not> ak_active k then Err ''access key is inactive''
          else if key_expired now k then Err ''access key is expired''
          else
            let bucket = trim_space bucket0; key = trim_slash (trim_space key0); meth = to_upper (trim_space method0)
            in if bucket = [] \<or> key = [] then Err ''bucket and object key are required''
               else if contains bucket ''*'' \<or> contains key ''*'' then Err ''wildcard bucket/key is not allowed''
               else if meth \<noteq> ''GET'' \<and> meth \<noteq> ''PUT'' then Err (''method '' @ meth @ '' is not allowed for presigned access'')
               else if \<not> (if meth = ''GET'' then role_at_least (ak_role k) ''storage-reader'' \<or> ak_role k = ''storage-browser''
                          else role_at_least (ak_role k) ''storage-writer'' \<or> ak_role k = ''storage-uploader'')
                 then Err (''access key role '' @ ak_role k @ '' does not allow '' @ meth)
               else if ak_buckets k \<noteq> [] \<and> \<not> list_ex (\<lambda>b. bucket_scope_matches b bucket) (ak_buckets k)
                 then Err (''access key is not allowed for bucket '' @ bucket)
               else
                 let prefx = trim_space (ak_prefix k)
                 in if prefx = [] then Ok ()
                    else if contains prefx ''*'' then Err ''wildcard prefix scope is not allowed''
                    else if key \<noteq> prefx \<and> take (length prefx) key \<noteq> prefx then Err ''object key is outside access key prefix scope''
                    else Ok ())"

text \<open>The secret is blanked in a list.\<close>

definition list_access_keys :: "string list \<Rightarrow> string \<Rightarrow> string \<Rightarrow> access_state \<Rightarrow> access_key list" where
  "list_access_keys ks user tenant a =
     map (\<lambda>k. k\<lparr>ak_secret := []\<rparr>)
       (filter (\<lambda>k. (user = [] \<or> ak_user k = user) \<and> (tenant = [] \<or> ak_tenant k = tenant)) (List.map_filter (ac_keys a) ks))"

definition revoke_access_key :: "string \<Rightarrow> string \<Rightarrow> access_state \<Rightarrow> (string, unit) outcome \<times> access_state" where
  "revoke_access_key i user a =
     (case ac_keys a i of
        None \<Rightarrow> (Err (''access key '' @ i @ '' not found''), a)
      | Some k \<Rightarrow>
          if ak_user k \<noteq> user \<and> user \<noteq> [] then (Err (''access key '' @ i @ '' does not belong to user '' @ user), a)
          else (Ok (), a\<lparr>ac_keys := (ac_keys a)(i \<mapsto> k\<lparr>ak_active := False\<rparr>)\<rparr>))"

definition delete_access_key :: "string \<Rightarrow> string \<Rightarrow> access_state \<Rightarrow> (string, unit) outcome \<times> access_state" where
  "delete_access_key i user a =
     (case ac_keys a i of
        None \<Rightarrow> (Err (''access key '' @ i @ '' not found''), a)
      | Some k \<Rightarrow>
          if ak_user k \<noteq> user \<and> user \<noteq> [] then (Err (''access key '' @ i @ '' does not belong to user '' @ user), a)
          else (Ok (), a\<lparr>ac_keys := (ac_keys a)(i := None)\<rparr>))"

definition active_key_count :: "string list \<Rightarrow> access_state \<Rightarrow> nat" where
  "active_key_count ks a = length (filter ak_active (List.map_filter (ac_keys a) ks))"

subsection \<open>Shares\<close>

definition share_bucket :: "gotime \<Rightarrow> string \<Rightarrow> bucket_share \<Rightarrow> access_state \<Rightarrow> bucket_share \<times> access_state" where
  "share_bucket now i s a =
     (let s' = s\<lparr>bs_id := i, bs_at := now, bs_active := True\<rparr> in (s', a\<lparr>ac_shares := (ac_shares a)(i \<mapsto> s')\<rparr>))"

definition list_bucket_shares :: "string list \<Rightarrow> string \<Rightarrow> string \<Rightarrow> access_state \<Rightarrow> bucket_share list" where
  "list_bucket_shares ks tenant bucket a =
     filter (\<lambda>s. (tenant = [] \<or> bs_tenant s = tenant) \<and> (bucket = [] \<or> bs_bucket s = bucket)) (List.map_filter (ac_shares a) ks)"

definition list_user_shares :: "string list \<Rightarrow> string \<Rightarrow> access_state \<Rightarrow> bucket_share list" where
  "list_user_shares ks user a = filter (\<lambda>s. bs_grantee s = user \<and> bs_active s) (List.map_filter (ac_shares a) ks)"

definition revoke_share :: "string \<Rightarrow> access_state \<Rightarrow> (string, unit) outcome \<times> access_state" where
  "revoke_share i a =
     (case ac_shares a i of
        None \<Rightarrow> (Err (''share '' @ i @ '' not found''), a)
      | Some s \<Rightarrow> (Ok (), a\<lparr>ac_shares := (ac_shares a)(i \<mapsto> s\<lparr>bs_active := False\<rparr>)\<rparr>))"

definition delete_share :: "string \<Rightarrow> access_state \<Rightarrow> (string, unit) outcome \<times> access_state" where
  "delete_share i a =
     (if ac_shares a i = None then (Err (''share '' @ i @ '' not found''), a)
      else (Ok (), a\<lparr>ac_shares := (ac_shares a)(i := None)\<rparr>))"

definition active_share_count :: "string list \<Rightarrow> access_state \<Rightarrow> nat" where
  "active_share_count ks a = length (filter bs_active (List.map_filter (ac_shares a) ks))"

subsection \<open>Policies\<close>

definition policy_key :: "string \<Rightarrow> string \<Rightarrow> string \<Rightarrow> string" where
  "policy_key tenant user bucket = tenant @ ''/'' @ user @ ''/'' @ bucket"

definition set_policy :: "gotime \<Rightarrow> tenant_policy \<Rightarrow> access_state \<Rightarrow> access_state" where
  "set_policy now p a =
     a\<lparr>ac_policies := (ac_policies a)(policy_key (tp_tenant p) (tp_user p) (tp_bucket p) \<mapsto> p\<lparr>tp_granted := now\<rparr>)\<rparr>"

definition get_policy :: "string \<Rightarrow> string \<Rightarrow> string \<Rightarrow> access_state \<Rightarrow> tenant_policy option" where
  "get_policy tenant user bucket a = ac_policies a (policy_key tenant user bucket)"

definition list_policies :: "string list \<Rightarrow> string \<Rightarrow> access_state \<Rightarrow> tenant_policy list" where
  "list_policies ks tenant a = filter (\<lambda>p. tenant = [] \<or> tp_tenant p = tenant) (List.map_filter (ac_policies a) ks)"

definition delete_policy :: "string \<Rightarrow> string \<Rightarrow> string \<Rightarrow> access_state \<Rightarrow> (string, unit) outcome \<times> access_state" where
  "delete_policy tenant user bucket a =
     (let k = policy_key tenant user bucket
      in if ac_policies a k = None then (Err ''policy not found'', a)
         else (Ok (), a\<lparr>ac_policies := (ac_policies a)(k := None)\<rparr>))"

definition in_time :: "gotime \<Rightarrow> gotime option \<Rightarrow> bool" where
  "in_time now e = (case e of None \<Rightarrow> True | Some t \<Rightarrow> now < t)"

definition policy_grants :: "gotime \<Rightarrow> string \<Rightarrow> tenant_policy option \<Rightarrow> bool" where
  "policy_grants now need po =
     (case po of None \<Rightarrow> False | Some p \<Rightarrow> role_at_least (tp_role p) need \<and> in_time now (tp_expires p))"

definition share_grants :: "gotime \<Rightarrow> string \<Rightarrow> string \<Rightarrow> string \<Rightarrow> bucket_share \<Rightarrow> bool" where
  "share_grants now user bucket need s \<longleftrightarrow>
     bs_grantee s = user \<and> bs_bucket s = bucket \<and> bs_active s \<and> role_at_least (bs_role s) need \<and> in_time now (bs_expires s)"

definition has_bucket_access :: "gotime \<Rightarrow> string list \<Rightarrow> string \<Rightarrow> string \<Rightarrow> string \<Rightarrow> string \<Rightarrow> access_state \<Rightarrow> bool" where
  "has_bucket_access now ks user tenant bucket need a \<longleftrightarrow>
     policy_grants now need (ac_policies a (policy_key tenant user bucket))
     \<or> policy_grants now need (ac_policies a (policy_key tenant user ''*''))
     \<or> list_ex (share_grants now user bucket need) (List.map_filter (ac_shares a) ks)"

subsection \<open>The rate limit\<close>

text \<open>\<open>spec\<close> gives the two limits in the specification of a bucket that the store knows.\<close>

definition effective_limits :: "(string \<Rightarrow> string \<Rightarrow> (int \<times> int) option) \<Rightarrow> string \<Rightarrow> string \<Rightarrow> access_state \<Rightarrow> int \<times> int" where
  "effective_limits spec tenant bucket a =
     (if trim_space tenant = [] \<or> trim_space bucket = [] then (ac_read_limit a, ac_write_limit a)
      else case spec (trim_space tenant) (trim_space bucket) of
             None \<Rightarrow> (ac_read_limit a, ac_write_limit a)
           | Some (r, w) \<Rightarrow> (if 0 < r then r else ac_read_limit a, if 0 < w then w else ac_write_limit a))"

definition rate_tick :: "gotime \<Rightarrow> string \<Rightarrow> access_state \<Rightarrow> int \<times> access_state" where
  "rate_tick now k a =
     (let (start, n) = (case ac_rates a k of None \<Rightarrow> (now, 0)
                        | Some (start, n) \<Rightarrow> if ac_window a \<le> now - start then (now, 0) else (start, n))
      in (n + 1, a\<lparr>ac_rates := (ac_rates a)(k \<mapsto> (start, n + 1))\<rparr>))"

record access_request =
  ar_path :: string
  ar_method :: string
  ar_bucket :: string
  ar_presigned :: bool
  ar_presigned_tenant :: string

definition op_class :: "access_request \<Rightarrow> string" where
  "op_class rq = (if to_upper (trim_space (ar_method rq)) \<in> {''PUT'', ''POST'', ''DELETE'', ''PATCH''} then ''write'' else ''read'')"

definition object_limit :: "(string \<Rightarrow> string \<Rightarrow> (int \<times> int) option) \<Rightarrow> string \<Rightarrow> string \<Rightarrow> string \<Rightarrow> access_state \<Rightarrow> int" where
  "object_limit spec tenant bucket cls a =
     (let (r, w) = effective_limits spec tenant bucket a; limit = (if cls = ''write'' then w else r)
      in if limit \<le> 0 then (if ac_read_limit a \<le> 0 then 240 else ac_read_limit a) else limit)"

definition rate_key :: "string \<Rightarrow> string \<Rightarrow> string \<Rightarrow> string" where
  "rate_key tenant bucket cls = join_with ''|'' [tenant, bucket, cls]"

definition counted_path :: "string \<Rightarrow> bool" where
  "counted_path p \<longleftrightarrow> contains p ''/storage/buckets/''
     \<and> (contains p ''/objects'' \<or> contains p ''/multi-delete'' \<or> contains p ''/object-metadata'')"

definition enforce_rate_limit ::
  "(string \<Rightarrow> string \<Rightarrow> (int \<times> int) option) \<Rightarrow> gotime \<Rightarrow> access_request \<Rightarrow> storage_context option \<Rightarrow> access_state \<Rightarrow> bool \<times> access_state" where
  "enforce_rate_limit spec now rq sc a =
     (if \<not> counted_path (ar_path rq) then (True, a)
      else
        let bucket = (if trim_space (ar_bucket rq) = [] then ''-'' else trim_space (ar_bucket rq));
            t = (case sc of None \<Rightarrow> [] | Some c \<Rightarrow> trim_space (st_tenant c));
            tenant = (if t = [] then trim_space (ar_presigned_tenant rq) else t);
            limit = object_limit spec tenant bucket (op_class rq) a;
            (count, a') = rate_tick now (rate_key tenant bucket (op_class rq)) a
        in (count \<le> limit, a'))"

subsection \<open>The middleware\<close>

text \<open>The claims that the outer middleware may have left.\<close>

datatype iam_claims = NoClaims | BadClaims | IamClaims string string "string list"

record auth_headers =
  ah_key :: string
  ah_secret :: string
  ah_tenant :: string

datatype auth_verdict =
    AuthRefused string
  | AuthKey storage_context access_key
  | AuthUser storage_context
  | AuthPresigned

definition require_storage_auth ::
  "gotime \<Rightarrow> auth_headers \<Rightarrow> iam_claims \<Rightarrow> bool \<Rightarrow> access_state \<Rightarrow> auth_verdict \<times> access_state" where
  "require_storage_auth now h claims presigned a =
     (if ah_key h \<noteq> [] \<and> ah_secret h \<noteq> [] then
        (case validate_access_key now (ah_key h) (ah_secret h) a of
           (None, a') \<Rightarrow> (AuthRefused ''invalid storage access key'', a')
         | (Some k, a') \<Rightarrow>
             (AuthKey \<lparr>st_user = ak_user k, st_email = [], st_tenant = ak_tenant k, st_roles = [ak_role k]\<rparr> k, a'))
      else (case claims of
              NoClaims \<Rightarrow> (if presigned then AuthPresigned else AuthRefused ''authentication required'')
            | BadClaims \<Rightarrow> AuthRefused ''invalid authentication claims''
            | IamClaims sub email roles \<Rightarrow>
                let t = trim_space (ah_tenant h)
                in AuthUser \<lparr>st_user = sub, st_email = email,
                     st_tenant = (if t \<noteq> [] \<and> has_role roles [''sysadmin'', ''system-manager'', ''admin''] then t else sub),
                     st_roles = roles\<rparr>, a))"

datatype access_verdict = Granted | Unauthenticated | Denied | RateLimited

definition require_storage_role ::
  "gotime \<Rightarrow> string list \<Rightarrow> storage_context option \<Rightarrow> string \<Rightarrow> string list \<Rightarrow> access_state \<Rightarrow> access_verdict" where
  "require_storage_role now ks sc bucket allowed a =
     (case sc of
        None \<Rightarrow> Unauthenticated
      | Some c \<Rightarrow>
          if has_role (st_roles c) system_roles \<or> list_ex (\<lambda>r. list_ex (\<lambda>w. map_iam_role r = w) allowed) (st_roles c)
             \<or> list_ex (\<lambda>r. list_ex (\<lambda>w. r = w) allowed) (st_roles c)
             \<or> bucket \<noteq> [] \<and> list_ex (\<lambda>w. has_bucket_access now ks (st_user c) (st_tenant c) bucket w a) allowed
          then Granted else Denied)"

definition bucket_decision ::
  "gotime \<Rightarrow> string list \<Rightarrow> storage_context \<Rightarrow> access_key option \<Rightarrow> string \<Rightarrow> string \<Rightarrow> access_state \<Rightarrow> access_verdict" where
  "bucket_decision now ks c ko bucket need a =
     (if has_role (st_roles c) system_roles \<or> bucket = [] then Granted
      else if (case ko of None \<Rightarrow> False
               | Some k \<Rightarrow> ak_buckets k \<noteq> [] \<and> \<not> list_ex (\<lambda>b. bucket_scope_matches b bucket) (ak_buckets k)) then Denied
      else if list_ex (\<lambda>r. role_at_least (map_iam_role r) need) (st_roles c) then Granted
      else if has_bucket_access now ks (st_user c) (st_tenant c) bucket need a then Granted
      else Denied)"

definition require_bucket_access ::
  "(string \<Rightarrow> string \<Rightarrow> (int \<times> int) option) \<Rightarrow> gotime \<Rightarrow> string list \<Rightarrow> storage_context option \<Rightarrow> access_key option \<Rightarrow>
   access_request \<Rightarrow> string \<Rightarrow> access_state \<Rightarrow> access_verdict \<times> access_state" where
  "require_bucket_access spec now ks sc ko rq need a =
     (case sc of
        None \<Rightarrow>
          if ar_presigned rq then (case enforce_rate_limit spec now rq None a of (ok, a') \<Rightarrow> (if ok then Granted else RateLimited, a'))
          else (Unauthenticated, a)
      | Some c \<Rightarrow>
          (case enforce_rate_limit spec now rq sc a of
             (ok, a') \<Rightarrow> (if ok then bucket_decision now ks c ko (ar_bucket rq) need a' else RateLimited, a')))"

subsection \<open>What is kept\<close>

record 'j access_codec =
  enc_policy :: "tenant_policy \<Rightarrow> 'j"
  dec_policy :: "'j \<Rightarrow> tenant_policy option"
  enc_key :: "access_key \<Rightarrow> 'j"
  dec_key :: "'j \<Rightarrow> access_key option"
  enc_share :: "bucket_share \<Rightarrow> 'j"
  dec_share :: "'j \<Rightarrow> bucket_share option"

type_synonym 'j access_kv = "string \<rightharpoonup> 'j"

definition policy_prefix :: string where "policy_prefix = ''storage:access:policies/''"
definition keys_prefix :: string where "keys_prefix = ''storage:access:keys/''"
definition share_prefix :: string where "share_prefix = ''storage:access:shares/''"

definition persist_policy :: "'j access_codec \<Rightarrow> tenant_policy \<Rightarrow> 'j access_kv \<Rightarrow> 'j access_kv" where
  "persist_policy c p kv = kv(policy_prefix @ policy_key (tp_tenant p) (tp_user p) (tp_bucket p) \<mapsto> enc_policy c p)"

definition persist_key :: "'j access_codec \<Rightarrow> access_key \<Rightarrow> 'j access_kv \<Rightarrow> 'j access_kv" where
  "persist_key c k kv = kv(keys_prefix @ ak_id k \<mapsto> enc_key c k)"

definition persist_share :: "'j access_codec \<Rightarrow> bucket_share \<Rightarrow> 'j access_kv \<Rightarrow> 'j access_kv" where
  "persist_share c s kv = kv(share_prefix @ bs_id s \<mapsto> enc_share c s)"

text \<open>The values under a prefix, in an order of the keys.\<close>

definition list_prefix :: "string list \<Rightarrow> string \<Rightarrow> 'j access_kv \<Rightarrow> 'j list" where
  "list_prefix ks p kv = List.map_filter kv (filter (\<lambda>k. take (length p) k = p) ks)"

definition load_policies :: "'j access_codec \<Rightarrow> 'j list \<Rightarrow> (string \<rightharpoonup> tenant_policy) \<Rightarrow> string \<rightharpoonup> tenant_policy" where
  "load_policies c vs m =
     fold (\<lambda>v m. case dec_policy c v of None \<Rightarrow> m | Some p \<Rightarrow> m(policy_key (tp_tenant p) (tp_user p) (tp_bucket p) \<mapsto> p)) vs m"

definition load_keys :: "'j access_codec \<Rightarrow> 'j list \<Rightarrow> (string \<rightharpoonup> access_key) \<Rightarrow> string \<rightharpoonup> access_key" where
  "load_keys c vs m = fold (\<lambda>v m. case dec_key c v of None \<Rightarrow> m | Some k \<Rightarrow> m(ak_id k \<mapsto> k)) vs m"

definition load_shares :: "'j access_codec \<Rightarrow> 'j list \<Rightarrow> (string \<rightharpoonup> bucket_share) \<Rightarrow> string \<rightharpoonup> bucket_share" where
  "load_shares c vs m = fold (\<lambda>v m. case dec_share c v of None \<Rightarrow> m | Some s \<Rightarrow> m(bs_id s \<mapsto> s)) vs m"

definition load_from_kv :: "'j access_codec \<Rightarrow> string list \<Rightarrow> 'j access_kv \<Rightarrow> access_state \<Rightarrow> access_state" where
  "load_from_kv c ks kv a =
     a\<lparr>ac_policies := load_policies c (list_prefix ks policy_prefix kv) (ac_policies a),
       ac_keys := load_keys c (list_prefix ks keys_prefix kv) (ac_keys a),
       ac_shares := load_shares c (list_prefix ks share_prefix kv) (ac_shares a)\<rparr>"

definition persist_all :: "'j access_codec \<Rightarrow> string list \<Rightarrow> string list \<Rightarrow> string list \<Rightarrow> access_state \<Rightarrow> 'j access_kv \<Rightarrow> 'j access_kv" where
  "persist_all c ps ks ss a kv =
     fold (persist_share c) (List.map_filter (ac_shares a) ss)
       (fold (persist_key c) (List.map_filter (ac_keys a) ks)
         (fold (persist_policy c) (List.map_filter (ac_policies a) ps) kv))"

text \<open>The operations with what they write; a write of the store goes through.\<close>

datatype access_op =
    OpCreateKey gotime string string string string string string string "string list" "gotime option"
  | OpValidate gotime string string
  | OpRevokeKey string string
  | OpDeleteKey string string
  | OpShare gotime string bucket_share
  | OpRevokeShare string
  | OpDeleteShare string
  | OpSetPolicy gotime tenant_policy
  | OpDeletePolicy string string string
  | OpCount gotime string

fun access_step :: "'j access_codec \<Rightarrow> access_op \<Rightarrow> access_state \<times> 'j access_kv \<Rightarrow> access_state \<times> 'j access_kv" where
  "access_step c (OpCreateKey now rnd secret user tenant name descr role buckets expires) (a, kv) =
     (case create_access_key now rnd secret user tenant name descr role buckets expires a of (k, a') \<Rightarrow> (a', persist_key c k kv))"
| "access_step c (OpValidate now i secret) (a, kv) = (snd (validate_access_key now i secret a), kv)"
| "access_step c (OpRevokeKey i user) (a, kv) =
     (case revoke_access_key i user a of
        (Ok _, a') \<Rightarrow> (a', case ac_keys a' i of None \<Rightarrow> kv | Some k \<Rightarrow> persist_key c k kv)
      | (_, a') \<Rightarrow> (a', kv))"
| "access_step c (OpDeleteKey i user) (a, kv) =
     (case delete_access_key i user a of
        (Ok _, a') \<Rightarrow> (a', kv(keys_prefix @ i := None))
      | (_, a') \<Rightarrow> (a', kv))"
| "access_step c (OpShare now i s) (a, kv) = (case share_bucket now i s a of (s', a') \<Rightarrow> (a', persist_share c s' kv))"
| "access_step c (OpRevokeShare i) (a, kv) =
     (case revoke_share i a of
        (Ok _, a') \<Rightarrow> (a', case ac_shares a' i of None \<Rightarrow> kv | Some s \<Rightarrow> persist_share c s kv)
      | (_, a') \<Rightarrow> (a', kv))"
| "access_step c (OpDeleteShare i) (a, kv) =
     (case delete_share i a of
        (Ok _, a') \<Rightarrow> (a', kv(share_prefix @ i := None))
      | (_, a') \<Rightarrow> (a', kv))"
| "access_step c (OpSetPolicy now p) (a, kv) = (set_policy now p a, persist_policy c (p\<lparr>tp_granted := now\<rparr>) kv)"
| "access_step c (OpDeletePolicy tenant user bucket) (a, kv) =
     (case delete_policy tenant user bucket a of
        (Ok _, a') \<Rightarrow> (a', kv(policy_prefix @ policy_key tenant user bucket := None))
      | (_, a') \<Rightarrow> (a', kv))"
| "access_step c (OpCount now k) (a, kv) = (snd (rate_tick now k a), kv)"

subsection \<open>A revoked key stays dead\<close>

definition dead_key :: "string \<Rightarrow> access_state \<Rightarrow> bool" where
  "dead_key i a \<longleftrightarrow> (case ac_keys a i of None \<Rightarrow> True | Some k \<Rightarrow> \<not> ak_active k)"

definition creates :: "string \<Rightarrow> access_op \<Rightarrow> bool" where
  "creates i op = (case op of OpCreateKey now rnd secret user tenant name descr role buckets expires \<Rightarrow> ''AXAK'' @ rnd = i | _ \<Rightarrow> False)"

lemma keys_frame [simp]:
  "ac_keys (snd (share_bucket now i s a)) = ac_keys a" "ac_keys (snd (revoke_share i a)) = ac_keys a"
  "ac_keys (snd (delete_share i a)) = ac_keys a" "ac_keys (set_policy now p a) = ac_keys a"
  "ac_keys (snd (delete_policy t u b a)) = ac_keys a" "ac_keys (snd (rate_tick now x a)) = ac_keys a"
  by (simp_all add: share_bucket_def revoke_share_def delete_share_def set_policy_def delete_policy_def rate_tick_def Let_def
      split: option.split prod.split)

lemma step_state:
  "fst (access_step c (OpRevokeKey i user) (a, kv)) = snd (revoke_access_key i user a)"
  "fst (access_step c (OpDeleteKey i user) (a, kv)) = snd (delete_access_key i user a)"
  "fst (access_step c (OpShare now i s) (a, kv)) = snd (share_bucket now i s a)"
  "fst (access_step c (OpRevokeShare i) (a, kv)) = snd (revoke_share i a)"
  "fst (access_step c (OpDeleteShare i) (a, kv)) = snd (delete_share i a)"
  "fst (access_step c (OpDeletePolicy t u b) (a, kv)) = snd (delete_policy t u b a)"
  by (simp_all split: prod.split outcome.split)

lemma validate_keys:
  "ac_keys (snd (validate_access_key now i secret a)) =
     (case ac_keys a i of None \<Rightarrow> ac_keys a
      | Some k \<Rightarrow> if \<not> ak_active k \<or> key_expired now k \<or> ak_secret k \<noteq> secret then ac_keys a
                  else (ac_keys a)(i \<mapsto> k\<lparr>ak_used := Some now\<rparr>))"
  by (simp add: validate_access_key_def Let_def split: option.split)

lemma dead_step: "dead_key i a \<Longrightarrow> \<not> creates i op \<Longrightarrow> dead_key i (fst (access_step c op (a, kv)))"
proof (cases op)
  case (OpCreateKey now rnd secret user tenant name descr role buckets expires)
  assume "dead_key i a" "\<not> creates i op"
  then show ?thesis by (simp add: OpCreateKey dead_key_def creates_def create_access_key_def Let_def)
next
  case (OpValidate now j secret)
  assume "dead_key i a"
  then show ?thesis
    by (cases "ac_keys a j"; cases "i = j") (simp_all add: OpValidate dead_key_def validate_keys)
next
  case (OpRevokeKey j user)
  assume "dead_key i a"
  then show ?thesis unfolding OpRevokeKey step_state
    by (cases "ac_keys a j"; cases "i = j") (simp_all add: dead_key_def revoke_access_key_def)
next
  case (OpDeleteKey j user)
  assume "dead_key i a"
  then show ?thesis unfolding OpDeleteKey step_state
    by (cases "ac_keys a j"; cases "i = j") (simp_all add: dead_key_def delete_access_key_def)
qed (simp_all add: dead_key_def step_state del: access_step.simps(5-7,9))

lemma dead_run: "dead_key i (fst x) \<Longrightarrow> \<not> list_ex (creates i) ops \<Longrightarrow> dead_key i (fst (fold (access_step c) ops x))"
proof (induction ops arbitrary: x)
  case (Cons op ops)
  then show ?case using dead_step [of i "fst x" op c "snd x"] by simp
qed simp

text \<open>What may sign for a user: a key that is there, active and his.\<close>

definition usable_at :: "gotime \<Rightarrow> string \<Rightarrow> string \<Rightarrow> access_state \<Rightarrow> string \<Rightarrow> access_key \<Rightarrow> bool" where
  "usable_at now user tenant a i k \<longleftrightarrow>
     ac_keys a i = Some k \<and> ak_active k \<and> \<not> key_expired now k \<and> ak_user k = user \<and> ak_tenant k = tenant"

lemma newest_usable:
  "newest_key now user tenant a is best = Some k \<Longrightarrow> best = Some k \<or> (\<exists>i. usable_at now user tenant a i k)"
proof (induction "is" arbitrary: best)
  case (Cons i "is")
  from Cons.prems have "newest_key now user tenant a is
      (case ac_keys a i of None \<Rightarrow> best
       | Some k \<Rightarrow> if \<not> ak_active k \<or> ak_user k \<noteq> user \<or> ak_tenant k \<noteq> tenant \<or> key_expired now k then best
                   else case best of None \<Rightarrow> Some k | Some b \<Rightarrow> if ak_created b < ak_created k then Some k else best) = Some k"
    by simp
  from Cons.IH [OF this] show ?case
  proof
    assume pick: "(case ac_keys a i of None \<Rightarrow> best
       | Some k \<Rightarrow> if \<not> ak_active k \<or> ak_user k \<noteq> user \<or> ak_tenant k \<noteq> tenant \<or> key_expired now k then best
                   else case best of None \<Rightarrow> Some k | Some b \<Rightarrow> if ak_created b < ak_created k then Some k else best) = Some k"
    show ?thesis
    proof (cases "ac_keys a i")
      case None
      then show ?thesis using pick by simp
    next
      case (Some x)
      then have "best = Some k \<or> usable_at now user tenant a i x \<and> x = k"
        using pick by (simp add: usable_at_def split: if_split_asm option.split_asm)
      then show ?thesis by blast
    qed
  qed simp
qed simp

lemma presign_usable:
  "resolve_for_presign now ks user tenant preferred a = Ok k \<Longrightarrow> \<exists>i. usable_at now user tenant a i k"
proof (cases "trim_space preferred = []")
  case True
  assume "resolve_for_presign now ks user tenant preferred a = Ok k"
  then have "newest_key now user tenant a ks None = Some k"
    using True by (simp add: resolve_for_presign_def split: option.split_asm)
  then show ?thesis using newest_usable by blast
next
  case False
  assume "resolve_for_presign now ks user tenant preferred a = Ok k"
  then have "usable_at now user tenant a (trim_space preferred) k"
    using False by (simp add: resolve_for_presign_def resolve_access_key_def usable_at_def outcome_bind_Ok_iff
        split: option.split_asm if_split_asm)
  then show ?thesis by blast
qed

text \<open>C26. Revocation is final: once a key is revoked, then after any further operations (other than the creation of
  a key under the same random identifier) no secret validates it, it resolves to an error, and whatever key
  is found for a presigned address is another one, active, not expired, and of that user and tenant.\<close>

theorem revoked_key_stays_dead:
  assumes "revoke_access_key i user a = (Ok (), a')" "\<not> list_ex (creates i) ops"
    "(a'', kv') = fold (access_step c) ops (a', kv)"
  shows "fst (validate_access_key now i secret a'') = None
    \<and> (\<exists>e. resolve_access_key now i a'' = Err e)
    \<and> (\<forall>k. resolve_for_presign now ks u t preferred a'' = Ok k \<longrightarrow> (\<exists>j. j \<noteq> i \<and> usable_at now u t a'' j k))"
proof -
  have "dead_key i a'" using assms(1)
    by (cases "ac_keys a i") (auto simp: revoke_access_key_def dead_key_def split: if_split_asm)
  then have dead: "dead_key i a''" using dead_run [of i "(a', kv)" ops c] assms(2) by (simp flip: assms(3))
  have "fst (validate_access_key now i secret a'') = None \<and> (\<exists>e. resolve_access_key now i a'' = Err e)"
    using dead by (cases "ac_keys a'' i") (simp_all add: dead_key_def validate_access_key_def resolve_access_key_def)
  moreover have "j \<noteq> i" if "usable_at now u t a'' j k" for j k
    using that dead by (cases "j = i") (simp_all add: usable_at_def dead_key_def)
  ultimately show ?thesis using presign_usable by metis
qed

subsection \<open>How much a bucket is used\<close>

text \<open>A run of requests with their instants; the result says which of them pass.\<close>

definition request_target :: "access_request \<Rightarrow> storage_context option \<Rightarrow> string \<times> string \<times> string" where
  "request_target rq sc =
     (let t = (case sc of None \<Rightarrow> [] | Some c \<Rightarrow> trim_space (st_tenant c))
      in (if t = [] then trim_space (ar_presigned_tenant rq) else t,
          if trim_space (ar_bucket rq) = [] then ''-'' else trim_space (ar_bucket rq), op_class rq))"

fun rate_run ::
  "(string \<Rightarrow> string \<Rightarrow> (int \<times> int) option) \<Rightarrow> (gotime \<times> access_request \<times> storage_context option) list \<Rightarrow> access_state \<Rightarrow>
   (gotime \<times> bool \<times> (string \<times> string \<times> string)) list" where
  "rate_run spec [] a = []"
| "rate_run spec ((now, rq, sc) # es) a =
     (case enforce_rate_limit spec now rq sc a of
        (ok, a') \<Rightarrow> (now, ok \<and> counted_path (ar_path rq), request_target rq sc) # rate_run spec es a')"

definition target_key :: "string \<times> string \<times> string \<Rightarrow> string" where
  "target_key x = (case x of (t, b, c) \<Rightarrow> rate_key t b c)"

text \<open>The counters alone.\<close>

definition window_tick :: "duration \<Rightarrow> gotime \<Rightarrow> (gotime \<times> int) option \<Rightarrow> gotime \<times> int" where
  "window_tick w now x = (case x of None \<Rightarrow> (now, 1) | Some (s, n) \<Rightarrow> if w \<le> now - s then (now, 1) else (s, n + 1))"

lemma rate_tick_window:
  "rate_tick now k a = (let x = window_tick (ac_window a) now (ac_rates a k) in (snd x, a\<lparr>ac_rates := (ac_rates a)(k \<mapsto> x)\<rparr>))"
  by (simp add: rate_tick_def window_tick_def Let_def split: option.split prod.split)

text \<open>Ticks of one counter: an instant, and whether the request is one of those that are counted.\<close>

fun passes :: "duration \<Rightarrow> int \<Rightarrow> (gotime \<times> bool) list \<Rightarrow> (gotime \<times> int) option \<Rightarrow> gotime list" where
  "passes w limit [] x = []"
| "passes w limit ((now, mine) # es) x =
     (let y = window_tick w now x in (if mine \<and> snd y \<le> limit then [now] else []) @ passes w limit es (Some y))"

definition within :: "gotime \<Rightarrow> duration \<Rightarrow> gotime list \<Rightarrow> int" where
  "within t w ts = int (length (filter (\<lambda>u. t \<le> u \<and> u < t + w) ts))"

lemma within_simps [simp]: "within t w [] = 0" "within t w (ts @ us) = within t w ts + within t w us" "0 \<le> within t w ts"
  "within t w [u] = (if t \<le> u \<and> u < t + w then 1 else 0)"
  by (simp_all add: within_def)

lemma passes_late: "\<forall>e \<in> set es. t + w' \<le> fst e \<Longrightarrow> within t w' (passes w limit es x) = 0"
proof (induction es arbitrary: x)
  case (Cons e es)
  then show ?case by (cases e) (simp add: Let_def)
qed simp

text \<open>A window that starts inside the interval is the only one in it.\<close>

lemma passes_inside:
  "sorted (map fst es) \<Longrightarrow> t \<le> s \<Longrightarrow> within t w (passes w limit es (Some (s, n))) \<le> max 0 (limit - n)"
proof (induction es arbitrary: n)
  case (Cons e es)
  obtain now mine where e: "e = (now, mine)" by (cases e)
  show ?case
  proof (cases "w \<le> now - s")
    case True
    have "\<forall>e' \<in> set (e # es). t + w \<le> fst e'" using Cons.prems True by (auto simp: e)
    then have "within t w (passes w limit (e # es) (Some (s, n))) = 0" by (rule passes_late)
    then show ?thesis by simp
  next
    case False
    have "within t w (passes w limit es (Some (s, n + 1))) \<le> max 0 (limit - (n + 1))"
      using Cons.prems by (intro Cons.IH) simp_all
    then show ?thesis using False by (auto simp: e window_tick_def Let_def)
  qed
qed simp

text \<open>One that straddles its beginning may be followed by a second.\<close>

lemma passes_straddling:
  "sorted (map fst es) \<Longrightarrow> s < t \<Longrightarrow> t < s + w \<Longrightarrow> 0 < limit \<Longrightarrow>
     within t w (passes w limit es (Some (s, n))) \<le> max 0 (limit - n) + limit"
proof (induction es arbitrary: n)
  case (Cons e es)
  obtain now mine where e: "e = (now, mine)" by (cases e)
  show ?case
  proof (cases "w \<le> now - s")
    case True
    have "within t w (passes w limit es (Some (now, 1))) \<le> max 0 (limit - 1)"
      using Cons.prems True by (intro passes_inside) (simp_all add: e)
    then show ?thesis using True Cons.prems by (auto simp: e window_tick_def Let_def)
  next
    case False
    have "within t w (passes w limit es (Some (s, n + 1))) \<le> max 0 (limit - (n + 1)) + limit"
      using Cons.prems by (intro Cons.IH) simp_all
    then show ?thesis using False by (auto simp: e window_tick_def Let_def)
  qed
qed simp

lemma passes_before:
  "sorted (map fst es) \<Longrightarrow> s < t \<Longrightarrow> 1 \<le> n \<Longrightarrow> 0 < limit \<Longrightarrow> within t w (passes w limit es (Some (s, n))) \<le> 2 * limit - 1"
proof (induction es arbitrary: s n)
  case (Cons e es)
  obtain now mine where e: "e = (now, mine)" by (cases e)
  show ?case
  proof (cases "t < s + w")
    case True
    then have "within t w (passes w limit (e # es) (Some (s, n))) \<le> max 0 (limit - n) + limit"
      using Cons.prems by (intro passes_straddling)
    then show ?thesis using Cons.prems by linarith
  next
    case early: False
    show ?thesis
    proof (cases "w \<le> now - s")
      case False
      have "within t w (passes w limit es (Some (s, n + 1))) \<le> 2 * limit - 1" using Cons.prems by (intro Cons.IH) simp_all
      then show ?thesis using False early by (simp add: e window_tick_def Let_def)
    next
      case True
      show ?thesis
      proof (cases "now < t")
        case True': True
        have "within t w (passes w limit es (Some (now, 1))) \<le> 2 * limit - 1"
          using Cons.prems True' by (intro Cons.IH) simp_all
        then show ?thesis using True True' by (simp add: e window_tick_def Let_def)
      next
        case False
        have "within t w (passes w limit es (Some (now, 1))) \<le> max 0 (limit - 1)"
          using Cons.prems False by (intro passes_inside) simp_all
        then show ?thesis using True False Cons.prems by (auto simp: e window_tick_def Let_def)
      qed
    qed
  qed
qed simp

lemma passes_bound:
  assumes "sorted (map fst es)" "0 < limit"
  shows "within t w (passes w limit es None) \<le> 2 * limit - 1"
proof (cases es)
  case (Cons e es')
  obtain now mine where e: "e = (now, mine)" by (cases e)
  show ?thesis
  proof (cases "now < t")
    case True
    have "within t w (passes w limit es' (Some (now, 1))) \<le> 2 * limit - 1"
      using assms True by (intro passes_before) (simp_all add: Cons e)
    then show ?thesis using True by (simp add: Cons e window_tick_def Let_def)
  next
    case False
    have "within t w (passes w limit es' (Some (now, 1))) \<le> max 0 (limit - 1)"
      using assms False by (intro passes_inside) (simp_all add: Cons e)
    then show ?thesis using False assms(2) by (auto simp: Cons e window_tick_def Let_def)
  qed
qed (use assms(2) in simp)

lemma enforce_window:
  "enforce_rate_limit spec now rq sc a =
     (if \<not> counted_path (ar_path rq) then (True, a)
      else case request_target rq sc of (t, b, c) \<Rightarrow>
        let y = window_tick (ac_window a) now (ac_rates a (rate_key t b c))
        in (snd y \<le> object_limit spec t b c a, a\<lparr>ac_rates := (ac_rates a)(rate_key t b c \<mapsto> y)\<rparr>))"
  by (simp add: enforce_rate_limit_def request_target_def rate_tick_window Let_def)

lemma effective_limits_frame: "effective_limits spec t b (a\<lparr>ac_rates := r\<rparr>) = effective_limits spec t b a"
  by (cases "spec (trim_space t) (trim_space b)") (simp_all add: effective_limits_def split: prod.split)

lemma object_limit_frame [simp]: "object_limit spec t b c (a\<lparr>ac_rates := r\<rparr>) = object_limit spec t b c a"
  unfolding object_limit_def effective_limits_frame by (cases "effective_limits spec t b a") (simp add: Let_def)

lemma object_limit_pos: "0 < object_limit spec t b c a"
  by (simp add: object_limit_def Let_def split: prod.split)

definition ticks_of :: "string \<times> string \<times> string \<Rightarrow> (gotime \<times> access_request \<times> storage_context option) list \<Rightarrow> (gotime \<times> bool) list" where
  "ticks_of x es =
     map (\<lambda>(now, rq, sc). (now, request_target rq sc = x))
       (filter (\<lambda>(now, rq, sc). counted_path (ar_path rq) \<and> target_key (request_target rq sc) = target_key x) es)"

lemma rate_run_passes:
  "map fst (filter (\<lambda>(now, ok, y). ok \<and> y = x) (rate_run spec es a)) =
     passes (ac_window a) (case x of (t, b, c) \<Rightarrow> object_limit spec t b c a) (ticks_of x es) (ac_rates a (target_key x))"
proof (induction es arbitrary: a)
  case Nil
  show ?case by (simp add: ticks_of_def)
next
  case (Cons e es)
  obtain now rq sc where e: "e = (now, rq, sc)" by (cases e)
  obtain t b c where y: "request_target rq sc = (t, b, c)" by (cases "request_target rq sc")
  obtain t' b' c' where x: "x = (t', b', c')" by (cases x)
  show ?case
  proof (cases "counted_path (ar_path rq)")
    case False
    then show ?thesis using Cons.IH by (simp add: e enforce_window ticks_of_def)
  next
    case True
    then show ?thesis using Cons.IH
      by (cases "rate_key t b c = rate_key t' b' c'") (auto simp: e x y enforce_window ticks_of_def target_key_def Let_def)
  qed
qed

lemma sorted_ticks: "sorted (map fst es) \<Longrightarrow> sorted (map fst (ticks_of x es))"
proof (induction es)
  case (Cons e es)
  obtain now rq sc where e: "e = (now, rq, sc)" by (cases e)
  have "\<forall>u \<in> set (ticks_of x es). now \<le> fst u" using Cons.prems by (auto simp: e ticks_of_def)
  then show ?case using Cons by (simp add: e ticks_of_def)
qed (simp add: ticks_of_def)

text \<open>C27. How much of a bucket is used: among any requests in the order of their instants, for any tenants and
  buckets, those that the limit lets pass to one bucket of one tenant, reading or writing, in any minute
  are fewer than twice the limit.\<close>

theorem rate_limit_bounds_every_minute:
  assumes "sorted (map fst es)"
  shows "int (length (filter (\<lambda>(now, ok, y). ok \<and> y = (t, b, c) \<and> u \<le> now \<and> now < u + 60 * second)
      (rate_run spec es (new_access rd wr)))) < 2 * object_limit spec t b c (new_access rd wr)"
proof -
  let ?a = "new_access rd wr"
  let ?r = "rate_run spec es ?a"
  have "int (length (filter (\<lambda>(now, ok, y). ok \<and> y = (t, b, c) \<and> u \<le> now \<and> now < u + 60 * second) ?r))
      = within u (60 * second) (map fst (filter (\<lambda>(now, ok, y). ok \<and> y = (t, b, c)) ?r))"
    by (simp add: within_def filter_map comp_def case_prod_unfold conj_ac)
  also have "\<dots> = within u (60 * second) (passes (60 * second) (object_limit spec t b c ?a) (ticks_of (t, b, c) es) None)"
    unfolding rate_run_passes by (simp add: new_access_def)
  also have "\<dots> \<le> 2 * object_limit spec t b c ?a - 1"
    using passes_bound [OF sorted_ticks [OF assms] object_limit_pos] .
  finally show ?thesis by simp
qed

definition sample_read :: access_request where
  "sample_read = \<lparr>ar_path = ''/storage/buckets/b/objects'', ar_method = ''GET'', ar_bucket = ''b'', ar_presigned = True, ar_presigned_tenant = ''t''\<rparr>"

lemma rate_limit_bounds_every_minute_witness:
  "int (length (filter (\<lambda>(now, ok, y). ok \<and> y = (''t'', ''b'', ''read'') \<and> 5 \<le> now \<and> now < 5 + 60 * second)
      (rate_run (\<lambda>t b. None) [(0, sample_read, None), (7, sample_read, None), (9, sample_read, None)] (new_access 2 1))))
   < 2 * object_limit (\<lambda>t b. None) ''t'' ''b'' ''read'' (new_access 2 1)"
  by (rule rate_limit_bounds_every_minute) simp

subsection \<open>What a restart brings back\<close>

text \<open>The codec gives back what it was given.\<close>

definition codec_laws :: "'j access_codec \<Rightarrow> bool" where
  "codec_laws c \<longleftrightarrow> dec_policy c \<circ> enc_policy c = Some \<and> dec_key c \<circ> enc_key c = Some \<and> dec_share c \<circ> enc_share c = Some"

lemma codecD [simp]:
  "codec_laws c \<Longrightarrow> dec_policy c (enc_policy c p) = Some p" "codec_laws c \<Longrightarrow> dec_key c (enc_key c k) = Some k"
  "codec_laws c \<Longrightarrow> dec_share c (enc_share c s) = Some s"
  by (simp_all add: codec_laws_def fun_eq_iff)

lemma prefixes_apart [simp]:
  "policy_prefix @ x \<noteq> keys_prefix @ y" "keys_prefix @ y \<noteq> policy_prefix @ x"
  "policy_prefix @ x \<noteq> share_prefix @ y" "share_prefix @ y \<noteq> policy_prefix @ x"
  "keys_prefix @ x \<noteq> share_prefix @ y" "share_prefix @ y \<noteq> keys_prefix @ x"
  by (simp_all add: policy_prefix_def keys_prefix_def share_prefix_def)

definition policy_id :: "tenant_policy \<Rightarrow> string" where
  "policy_id p = policy_key (tp_tenant p) (tp_user p) (tp_bucket p)"

definition unused :: "access_key \<Rightarrow> access_key" where
  "unused k = k\<lparr>ak_used := None\<rparr>"

text \<open>What is stored under a prefix, and a table whose entries carry their own keys.\<close>

definition stored_at :: "string \<Rightarrow> ('j \<Rightarrow> 'v option) \<Rightarrow> 'j access_kv \<Rightarrow> string \<rightharpoonup> 'v" where
  "stored_at p dec kv = (\<lambda>i. Option.bind (kv (p @ i)) dec)"

definition self_keyed :: "('v \<Rightarrow> string) \<Rightarrow> (string \<rightharpoonup> 'v) \<Rightarrow> bool" where
  "self_keyed f m \<longleftrightarrow> (\<forall>i v. m i = Some v \<longrightarrow> f v = i)"

lemma self_keyed_upd [simp]: "self_keyed f m \<Longrightarrow> f v = i \<Longrightarrow> self_keyed f (m(i \<mapsto> v))"
  "self_keyed f m \<Longrightarrow> self_keyed f (m(i := None))"
  by (simp_all add: self_keyed_def)

lemma stored_at_upd [simp]:
  "stored_at p dec (kv(p @ i \<mapsto> w)) = (stored_at p dec kv)(i := dec w)"
  "stored_at p dec (kv(p @ i := None)) = (stored_at p dec kv)(i := None)"
  by (auto simp: stored_at_def fun_eq_iff)

lemma stored_at_other:
  "(\<And>j. p @ j \<noteq> x) \<Longrightarrow> stored_at p dec (kv(x := w)) = stored_at p dec kv"
  by (simp add: stored_at_def fun_eq_iff)

definition kept :: "'j access_codec \<Rightarrow> access_state \<Rightarrow> 'j access_kv \<Rightarrow> bool" where
  "kept c a kv \<longleftrightarrow>
     self_keyed policy_id (ac_policies a) \<and> self_keyed ak_id (ac_keys a) \<and> self_keyed bs_id (ac_shares a)
     \<and> stored_at policy_prefix (dec_policy c) kv = ac_policies a
     \<and> map_option unused \<circ> stored_at keys_prefix (dec_key c) kv = map_option unused \<circ> ac_keys a
     \<and> stored_at share_prefix (dec_share c) kv = ac_shares a"

lemma kept_put_key: "codec_laws c \<Longrightarrow> kept c a kv \<Longrightarrow> ak_id k = i \<Longrightarrow>
    kept c (a\<lparr>ac_keys := (ac_keys a)(i \<mapsto> k)\<rparr>) (persist_key c k kv)"
  by (simp add: kept_def persist_key_def stored_at_other fun_upd_comp)

lemma kept_ids: "kept c a kv \<Longrightarrow> ac_keys a i = Some k \<Longrightarrow> ak_id k = i" "kept c a kv \<Longrightarrow> ac_shares a i = Some s \<Longrightarrow> bs_id s = i"
  by (simp_all add: kept_def self_keyed_def)

lemma same_upd: "m i = Some k \<Longrightarrow> g k' = g k \<Longrightarrow> map_option g \<circ> m(i \<mapsto> k') = map_option g \<circ> m"
  by (auto simp: fun_eq_iff)

lemma kept_keys: "kept c a kv \<Longrightarrow> map_option unused \<circ> m = map_option unused \<circ> ac_keys a \<Longrightarrow> self_keyed ak_id m \<Longrightarrow>
    kept c (a\<lparr>ac_keys := m\<rparr>) kv"
  unfolding kept_def by simp

lemma kept_touch_key:
  assumes "kept c a kv" "ac_keys a i = Some k" "ak_id k' = ak_id k" "unused k' = unused k"
  shows "kept c (a\<lparr>ac_keys := (ac_keys a)(i \<mapsto> k')\<rparr>) kv"
proof (rule kept_keys [OF assms(1)])
  show "map_option unused \<circ> (ac_keys a)(i \<mapsto> k') = map_option unused \<circ> ac_keys a"
    using assms(2,4) by (rule same_upd)
  have "self_keyed ak_id (ac_keys a)" using assms(1) unfolding kept_def by blast
  then show "self_keyed ak_id ((ac_keys a)(i \<mapsto> k'))"
    by (rule self_keyed_upd(1)) (use kept_ids(1) [OF assms(1,2)] assms(3) in \<open>simp only:\<close>)
qed

lemma kept_drop_key: "kept c a kv \<Longrightarrow> kept c (a\<lparr>ac_keys := (ac_keys a)(i := None)\<rparr>) (kv(keys_prefix @ i := None))"
  by (simp add: kept_def stored_at_other fun_upd_comp)

lemma kept_put_share: "codec_laws c \<Longrightarrow> kept c a kv \<Longrightarrow> bs_id s = i \<Longrightarrow>
    kept c (a\<lparr>ac_shares := (ac_shares a)(i \<mapsto> s)\<rparr>) (persist_share c s kv)"
  by (simp add: kept_def persist_share_def stored_at_other)

lemma kept_drop_share: "kept c a kv \<Longrightarrow> kept c (a\<lparr>ac_shares := (ac_shares a)(i := None)\<rparr>) (kv(share_prefix @ i := None))"
  by (simp add: kept_def stored_at_other)

lemma kept_put_policy: "codec_laws c \<Longrightarrow> kept c a kv \<Longrightarrow> policy_id p = i \<Longrightarrow>
    kept c (a\<lparr>ac_policies := (ac_policies a)(i \<mapsto> p)\<rparr>) (persist_policy c p kv)"
  by (simp add: kept_def persist_policy_def policy_id_def [symmetric] stored_at_other)

lemma kept_drop_policy: "kept c a kv \<Longrightarrow> kept c (a\<lparr>ac_policies := (ac_policies a)(i := None)\<rparr>) (kv(policy_prefix @ i := None))"
  by (simp add: kept_def stored_at_other)

lemma kept_step:
  assumes "codec_laws c" "kept c a kv"
  shows "case access_step c op (a, kv) of (a', kv') \<Rightarrow> kept c a' kv'"
proof (cases op)
  case (OpCreateKey now rnd secret user tenant name descr role buckets expires)
  then show ?thesis using assms by (simp add: create_access_key_def Let_def kept_put_key)
next
  case (OpValidate now i secret)
  show ?thesis
  proof (cases "ac_keys a i")
    case (Some k)
    then show ?thesis using assms(2) kept_touch_key [OF assms(2) Some, of "k\<lparr>ak_used := Some now\<rparr>"]
      by (simp add: OpValidate validate_access_key_def Let_def unused_def)
  qed (use assms(2) in \<open>simp add: OpValidate validate_access_key_def\<close>)
next
  case (OpRevokeKey i user)
  then show ?thesis using assms kept_ids(1) [OF assms(2), of i]
    by (cases "ac_keys a i") (simp_all add: revoke_access_key_def kept_put_key)
next
  case (OpDeleteKey i user)
  then show ?thesis using assms(2) kept_drop_key [OF assms(2)] by (cases "ac_keys a i") (simp_all add: delete_access_key_def)
next
  case (OpShare now i s)
  then show ?thesis using assms by (simp add: share_bucket_def Let_def kept_put_share)
next
  case (OpRevokeShare i)
  then show ?thesis using assms kept_ids(2) [OF assms(2), of i]
    by (cases "ac_shares a i") (simp_all add: revoke_share_def kept_put_share)
next
  case (OpDeleteShare i)
  then show ?thesis using assms(2) kept_drop_share [OF assms(2)] by (simp add: delete_share_def)
next
  case (OpSetPolicy now p)
  then show ?thesis using kept_put_policy [OF assms, of "p\<lparr>tp_granted := now\<rparr>"] by (simp add: set_policy_def policy_id_def)
next
  case (OpDeletePolicy t u b)
  then show ?thesis using assms(2) kept_drop_policy [OF assms(2)] by (simp add: delete_policy_def Let_def)
next
  case (OpCount now k)
  then show ?thesis using assms(2) by (simp add: rate_tick_window Let_def kept_def)
qed

lemma kept_run: "codec_laws c \<Longrightarrow> kept c (fst x) (snd x) \<Longrightarrow>
    kept c (fst (fold (access_step c) ops x)) (snd (fold (access_step c) ops x))"
proof (induction ops arbitrary: x)
  case (Cons op ops)
  then show ?case using kept_step [of c "fst x" "snd x" op] by (simp add: case_prod_unfold)
qed simp

text \<open>Loading one table: what is found under the prefix.\<close>

lemma load_fold:
  assumes "\<forall>v \<in> set vs. \<forall>k. dec v = Some k \<and> f k = i \<longrightarrow> m' = Some k" "m' = None \<longrightarrow> m i = None"
    "\<forall>k. m' = Some k \<longrightarrow> (\<exists>v \<in> set vs. dec v = Some k \<and> f k = i)"
  shows "fold (\<lambda>v m. case dec v of None \<Rightarrow> m | Some k \<Rightarrow> m(f k \<mapsto> k)) vs m i = m'"
proof -
  have keep: "m i = m' \<Longrightarrow> \<forall>v \<in> set vs. \<forall>k. dec v = Some k \<and> f k = i \<longrightarrow> m' = Some k \<Longrightarrow>
      fold (\<lambda>v m. case dec v of None \<Rightarrow> m | Some k \<Rightarrow> m(f k \<mapsto> k)) vs m i = m'" for vs m
    by (induction vs arbitrary: m) (auto split: option.split)
  show ?thesis
  proof (cases "m i = m'")
    case True
    then show ?thesis using keep assms(1) by blast
  next
    case False
    then obtain k where k: "m' = Some k" using assms(2) by (cases m') auto
    then obtain v where v: "v \<in> set vs" "dec v = Some k" "f k = i" using assms(3) by blast
    then obtain xs ys where "vs = xs @ v # ys" by (meson split_list)
    moreover have "fold (\<lambda>v m. case dec v of None \<Rightarrow> m | Some k \<Rightarrow> m(f k \<mapsto> k)) ys (m'' (i \<mapsto> k)) i = m'" for m''
      by (rule keep) (use assms(1) k calculation in auto)
    ultimately show ?thesis using v by simp
  qed
qed

lemma map_filter_mem: "v \<in> set (List.map_filter g xs) \<longleftrightarrow> (\<exists>x \<in> set xs. g x = Some v)"
  by (induction xs) (auto simp: List.map_filter_simps split: option.split)

lemma list_prefix_values:
  assumes "enumerates ks kv"
  shows "v \<in> set (list_prefix ks p kv) \<longleftrightarrow> (\<exists>i. kv (p @ i) = Some v)"
proof -
  have "v \<in> set (list_prefix ks p kv) \<longleftrightarrow> (\<exists>k \<in> set ks. take (length p) k = p \<and> kv k = Some v)"
    by (simp add: list_prefix_def map_filter_mem) blast
  also have "\<dots> \<longleftrightarrow> (\<exists>i. kv (p @ i) = Some v)"
  proof
    assume "\<exists>k \<in> set ks. take (length p) k = p \<and> kv k = Some v"
    then obtain k where "take (length p) k = p" "kv k = Some v" by blast
    then show "\<exists>i. kv (p @ i) = Some v" by (metis append_take_drop_id)
  next
    assume "\<exists>i. kv (p @ i) = Some v"
    then obtain i where i: "kv (p @ i) = Some v" by blast
    then have "p @ i \<in> set ks" using enumerates_in [OF assms] by blast
    then show "\<exists>k \<in> set ks. take (length p) k = p \<and> kv k = Some v" using i by (intro bexI [of _ "p @ i"]) auto
  qed
  finally show ?thesis .
qed

lemma load_table:
  assumes "enumerates ks kv" "self_keyed f (stored_at p dec kv)"
  shows "fold (\<lambda>v m. case dec v of None \<Rightarrow> m | Some k \<Rightarrow> m(f k \<mapsto> k)) (list_prefix ks p kv) Map.empty = stored_at p dec kv"
proof
  fix i
  have at: "stored_at p dec kv (f k) = Some k" if v: "v \<in> set (list_prefix ks p kv)" and k: "dec v = Some k" for v k
  proof -
    obtain j where "kv (p @ j) = Some v" using v list_prefix_values [OF assms(1)] by blast
    then have "stored_at p dec kv j = Some k" using k by (simp add: stored_at_def)
    moreover from this have "f k = j" using assms(2) by (simp add: self_keyed_def)
    ultimately show ?thesis by simp
  qed
  show "fold (\<lambda>v m. case dec v of None \<Rightarrow> m | Some k \<Rightarrow> m(f k \<mapsto> k)) (list_prefix ks p kv) Map.empty i = stored_at p dec kv i"
  proof (rule load_fold)
    show "\<forall>v \<in> set (list_prefix ks p kv). \<forall>k. dec v = Some k \<and> f k = i \<longrightarrow> stored_at p dec kv i = Some k"
      using at by blast
    show "\<forall>k. stored_at p dec kv i = Some k \<longrightarrow> (\<exists>v \<in> set (list_prefix ks p kv). dec v = Some k \<and> f k = i)"
    proof (intro allI impI)
      fix k assume k: "stored_at p dec kv i = Some k"
      then obtain v where v: "kv (p @ i) = Some v" "dec v = Some k" by (auto simp: stored_at_def bind_eq_Some_conv)
      then have "v \<in> set (list_prefix ks p kv)" using list_prefix_values [OF assms(1)] by blast
      then show "\<exists>v \<in> set (list_prefix ks p kv). dec v = Some k \<and> f k = i"
        using v(2) assms(2) k by (auto simp: self_keyed_def)
    qed
  qed simp
qed

lemma unused_id: "ak_id (unused k) = ak_id k"
  by (simp add: unused_def)


text \<open>The documents of the witness are the values themselves.\<close>

datatype access_document = PolicyDocument tenant_policy | KeyDocument access_key | ShareDocument bucket_share

definition plain_codec :: "access_document access_codec" where
  "plain_codec =
     \<lparr>enc_policy = PolicyDocument, dec_policy = (\<lambda>d. case d of PolicyDocument p \<Rightarrow> Some p | _ \<Rightarrow> None),
      enc_key = KeyDocument, dec_key = (\<lambda>d. case d of KeyDocument k \<Rightarrow> Some k | _ \<Rightarrow> None),
      enc_share = ShareDocument, dec_share = (\<lambda>d. case d of ShareDocument s \<Rightarrow> Some s | _ \<Rightarrow> None)\<rparr>"

lemma plain_codec_laws: "codec_laws plain_codec"
  by (simp add: codec_laws_def plain_codec_def fun_eq_iff)

definition sample_key :: access_key where
  "sample_key = \<lparr>ak_id = ''AXAK1'', ak_secret = ''s'', ak_name = [], ak_description = [], ak_user = ''u'', ak_tenant = ''t'',
     ak_role = ''storage-writer'', ak_buckets = [], ak_prefix = [], ak_active = True, ak_expires = None, ak_created = 1, ak_used = None\<rparr>"

definition sample_ops :: "access_op list" where
  "sample_ops = [OpCreateKey 1 ''1'' ''s'' ''u'' ''t'' [] [] ''storage-writer'' [] None]"

lemma sample_run:
  "((new_access 0 0)\<lparr>ac_keys := [''AXAK1'' \<mapsto> sample_key]\<rparr>, [keys_prefix @ ''AXAK1'' \<mapsto> KeyDocument sample_key])
   = fold (access_step plain_codec) sample_ops (new_access 0 0, Map.empty)"
  by (simp add: sample_ops_def sample_key_def new_access_def create_access_key_def persist_key_def plain_codec_def Let_def)

lemma sample_kv: "enumerates [keys_prefix @ ''AXAK1''] [keys_prefix @ ''AXAK1'' \<mapsto> KeyDocument sample_key]"
  by (simp add: enumerates_def)


lemma sample_revoked:
  "revoke_access_key ''AXAK1'' ''u'' ((new_access 0 0)\<lparr>ac_keys := [''AXAK1'' \<mapsto> sample_key]\<rparr>)
     = (Ok (), (new_access 0 0)\<lparr>ac_keys := [''AXAK1'' \<mapsto> sample_key\<lparr>ak_active := False\<rparr>]\<rparr>)"
  by (simp add: revoke_access_key_def sample_key_def)

lemma sample_later:
  "((new_access 0 0)\<lparr>ac_keys := [''AXAK1'' \<mapsto> sample_key\<lparr>ak_active := False\<rparr>]\<rparr>, Map.empty)
     = fold (access_step plain_codec) [OpValidate 2 ''AXAK1'' ''s''] ((new_access 0 0)\<lparr>ac_keys := [''AXAK1'' \<mapsto> sample_key\<lparr>ak_active := False\<rparr>]\<rparr>, Map.empty)"
  by (simp add: validate_access_key_def)

lemma sample_nothing_created: "\<not> list_ex (creates ''AXAK1'') [OpValidate 2 ''AXAK1'' ''s'']"
  by (simp add: creates_def)

lemma revoked_key_stays_dead_witness:
  "fst (validate_access_key 3 ''AXAK1'' ''s'' ((new_access 0 0)\<lparr>ac_keys := [''AXAK1'' \<mapsto> sample_key\<lparr>ak_active := False\<rparr>]\<rparr>)) = None"
  using revoked_key_stays_dead [OF sample_revoked sample_nothing_created sample_later, where now = 3 and secret = "''s''"] by (rule conjunct1)

subsection \<open>Who gets in\<close>

text \<open>Any role at all is a reader, whose bucket it is plays no part: a user with any role reads every bucket.\<close>

lemma every_role_reads: "role_at_least (map_iam_role r) ''storage-reader''"
  by (simp add: role_at_least_def role_order_def map_iam_role_def Let_def)

lemma any_user_reads_any_bucket:
  "st_roles c = r # rs \<Longrightarrow> bucket_decision now ks c None bucket ''storage-reader'' a = Granted"
  using every_role_reads by (simp add: bucket_decision_def)

text \<open>The roles of access keys are not among the names that are mapped: every key is a reader for the middleware of
  buckets, so that a writer key cannot write; and an uploader may read wherever a reader may.\<close>

lemma key_roles_are_readers:
  "map_iam_role ''storage-writer'' = ''storage-reader''" "map_iam_role ''storage-uploader'' = ''storage-reader''"
  "map_iam_role ''storage-admin'' = ''storage-reader''"
  by code_simp+

lemma writer_key_cannot_write:
  assumes "st_roles c = [''storage-writer'']" "bucket \<noteq> []" "ac_policies a = Map.empty" "ac_shares a = Map.empty"
  shows "bucket_decision now ks c None bucket ''storage-writer'' a = Denied"
proof -
  have "\<not> has_role [''storage-writer''] system_roles" by code_simp
  moreover have "\<not> role_at_least ''storage-reader'' ''storage-writer''" by code_simp
  moreover have "List.map_filter (Map.empty :: string \<rightharpoonup> bucket_share) ks = []" by (induction ks) (simp_all add: List.map_filter_simps)
  ultimately show ?thesis
    using assms by (simp add: bucket_decision_def key_roles_are_readers has_bucket_access_def policy_grants_def)
qed

lemma uploader_reads: "role_at_least ''storage-uploader'' ''storage-reader''"
  by code_simp

text \<open>A share names a bucket without its tenant: it opens the buckets of that name of every tenant.\<close>

lemma share_crosses_tenants:
  assumes "ac_shares a i = Some s" "i \<in> set ks" "share_grants now user bucket need s"
  shows "has_bucket_access now ks user tenant bucket need a"
proof -
  have "s \<in> set (List.map_filter (ac_shares a) ks)" unfolding map_filter_mem using assms(1,2) by (rule bexI)
  then show ?thesis using assms(3) unfolding has_bucket_access_def list_ex_iff by (intro disjI2 bexI)
qed

text \<open>The key of a policy is no injection.\<close>

lemma policy_keys_collide: "policy_key ''a/b'' ''c'' x = policy_key ''a'' ''b/c'' x"
  by (simp add: policy_key_def)

text \<open>The scope of a key matches the buckets that end in its name.\<close>

lemma scope_matches_longer_name: "bucket_scope_matches ''data'' ''other-data''"
  by code_simp

text \<open>A bucket without a limit on writes is limited by the default for reads.\<close>

lemma write_limit_is_read_limit:
  "0 < rd \<Longrightarrow> object_limit (\<lambda>t b. None) t b ''write'' (new_access rd 0) = rd"
  by (simp add: object_limit_def effective_limits_def new_access_def)

end
