(* ===== verification/Token_Limiter.thy ===== *)
theory Token_Limiter
  imports Prelude
begin

section \<open>Calls per token (internal/auth: rate_limit.go, rate_limit_middleware.go)\<close>

text \<open>
  The table of tokens with their numbers of calls. The middleware asks whether a call may be made and then
  counts it, in two sections under the lock: requests overlap between the two. The order of map loops is
  an argument.
\<close>

record token_usage =
  tu_user :: string
  tu_calls :: int
  tu_issued :: gotime
  tu_used :: gotime
  tu_max :: int
  tu_validity :: duration

record token_limiter =
  tl_tokens :: "string \<rightharpoonup> token_usage"
  tl_max :: int
  tl_validity :: duration

definition new_token_limiter :: "int \<Rightarrow> int \<Rightarrow> token_limiter" where
  "new_token_limiter calls minutes = \<lparr>tl_tokens = Map.empty, tl_max = calls, tl_validity = i64 (minutes * (60 * second))\<rparr>"

definition register_token_with_policy :: "gotime \<Rightarrow> string \<Rightarrow> string \<Rightarrow> int \<Rightarrow> duration \<Rightarrow> token_limiter \<Rightarrow> token_limiter" where
  "register_token_with_policy now tok user calls validity l =
     l\<lparr>tl_tokens := (tl_tokens l)(tok \<mapsto>
        \<lparr>tu_user = user, tu_calls = 0, tu_issued = now, tu_used = now,
         tu_max = (if calls \<le> 0 then tl_max l else calls), tu_validity = (if validity \<le> 0 then tl_validity l else validity)\<rparr>)\<rparr>"

definition register_token :: "gotime \<Rightarrow> string \<Rightarrow> string \<Rightarrow> token_limiter \<Rightarrow> token_limiter" where
  "register_token now tok user l = register_token_with_policy now tok user (tl_max l) (tl_validity l) l"

definition usage_validity :: "token_limiter \<Rightarrow> token_usage \<Rightarrow> duration" where
  "usage_validity l u = (if tu_validity u \<le> 0 then tl_validity l else tu_validity u)"

definition expires_at :: "token_limiter \<Rightarrow> token_usage \<Rightarrow> gotime" where
  "expires_at l u = tu_issued u + usage_validity l u"

datatype token_check = TokAllowed int gotime | TokUntracked | TokExpired gotime | TokExhausted int int gotime

definition check_token :: "gotime \<Rightarrow> string \<Rightarrow> token_limiter \<Rightarrow> token_check" where
  "check_token now tok l =
     (case tl_tokens l tok of
        None \<Rightarrow> TokUntracked
      | Some u \<Rightarrow>
          if expires_at l u < now then TokExpired (expires_at l u)
          else if tu_max u \<le> tu_calls u then TokExhausted (tu_calls u) (tu_max u) (expires_at l u)
          else TokAllowed (tu_max u - tu_calls u) (expires_at l u))"

definition increment_calls :: "gotime \<Rightarrow> string \<Rightarrow> token_limiter \<Rightarrow> token_limiter \<times> bool" where
  "increment_calls now tok l =
     (case tl_tokens l tok of
        None \<Rightarrow> (l, False)
      | Some u \<Rightarrow> (l\<lparr>tl_tokens := (tl_tokens l)(tok \<mapsto> u\<lparr>tu_calls := tu_calls u + 1, tu_used := now\<rparr>)\<rparr>, True))"

text \<open>Calls made and remaining, expiry, whether expired, time remaining, last use.\<close>

definition token_stats :: "gotime \<Rightarrow> string \<Rightarrow> token_limiter \<Rightarrow> (string \<times> int \<times> int \<times> gotime \<times> bool \<times> duration \<times> gotime) option" where
  "token_stats now tok l =
     (case tl_tokens l tok of
        None \<Rightarrow> None
      | Some u \<Rightarrow> Some (tu_user u, tu_calls u, tu_max u - tu_calls u, expires_at l u, expires_at l u < now, expires_at l u - now, tu_used u))"

definition revoke_token :: "string \<Rightarrow> token_limiter \<Rightarrow> token_limiter" where
  "revoke_token tok l = l\<lparr>tl_tokens := (tl_tokens l)(tok := None)\<rparr>"

definition cleanup_tokens :: "gotime \<Rightarrow> token_limiter \<Rightarrow> token_limiter" where
  "cleanup_tokens now l =
     l\<lparr>tl_tokens := (\<lambda>tok. case tl_tokens l tok of None \<Rightarrow> None | Some u \<Rightarrow> if expires_at l u < now then None else Some u)\<rparr>"

definition active_usages :: "gotime \<Rightarrow> string list \<Rightarrow> token_limiter \<Rightarrow> token_usage list" where
  "active_usages now ks l = filter (\<lambda>u. now < expires_at l u) (List.map_filter (tl_tokens l) ks)"

definition active_token_count :: "gotime \<Rightarrow> string list \<Rightarrow> token_limiter \<Rightarrow> nat" where
  "active_token_count now ks l = length (active_usages now ks l)"

definition all_token_stats :: "gotime \<Rightarrow> string list \<Rightarrow> token_limiter \<Rightarrow> nat \<times> int \<times> (string \<times> int \<times> int \<times> gotime) list" where
  "all_token_stats now ks l =
     (let us = active_usages now ks l
      in (length us, sum_list (map tu_calls us), map (\<lambda>u. (tu_user u, tu_calls u, tu_max u - tu_calls u, expires_at l u)) us))"

definition token_policy :: "string \<Rightarrow> token_limiter \<Rightarrow> (int \<times> duration) option" where
  "token_policy tok l = (case tl_tokens l tok of None \<Rightarrow> None | Some u \<Rightarrow> Some (tu_max u, usage_validity l u))"

subsection \<open>The middleware\<close>

text \<open>
  A server of \<open>n\<close> slots: a request that the check lets pass is in flight until its call has been counted. What
  was let pass is noted.
\<close>

datatype token_event =
    TokCheck gotime nat string
  | TokCount gotime nat
  | TokRegister gotime string string int duration
  | TokRevoke string
  | TokClean gotime

record token_server =
  ts_limiter :: token_limiter
  ts_flight :: "(nat \<times> string) list"
  ts_passed :: "string list"

definition limit_check :: "gotime \<Rightarrow> nat \<Rightarrow> string \<Rightarrow> token_server \<Rightarrow> token_server" where
  "limit_check now i tok s =
     (case check_token now tok (ts_limiter s) of
        TokAllowed _ _ \<Rightarrow> s\<lparr>ts_flight := (i, tok) # ts_flight s, ts_passed := tok # ts_passed s\<rparr>
      | _ \<Rightarrow> s)"

definition limit_count :: "gotime \<Rightarrow> nat \<Rightarrow> token_server \<Rightarrow> token_server" where
  "limit_count now i s =
     (case List.find (\<lambda>p. fst p = i) (ts_flight s) of
        None \<Rightarrow> s
      | Some p \<Rightarrow> s\<lparr>ts_limiter := fst (increment_calls now (snd p) (ts_limiter s)), ts_flight := remove1 p (ts_flight s)\<rparr>)"

fun limiter_step :: "nat \<Rightarrow> token_event \<Rightarrow> token_server \<Rightarrow> token_server" where
  "limiter_step n (TokCheck now i tok) s =
     (if n \<le> length (ts_flight s) \<or> i \<in> fst ` set (ts_flight s) then s else limit_check now i tok s)"
| "limiter_step n (TokCount now i) s = limit_count now i s"
| "limiter_step n (TokRegister now tok user calls validity) s =
     s\<lparr>ts_limiter := register_token_with_policy now tok user calls validity (ts_limiter s)\<rparr>"
| "limiter_step n (TokRevoke tok) s = s\<lparr>ts_limiter := revoke_token tok (ts_limiter s)\<rparr>"
| "limiter_step n (TokClean now) s = s\<lparr>ts_limiter := cleanup_tokens now (ts_limiter s)\<rparr>"

subsection \<open>How many calls a token makes\<close>

definition flights :: "string \<Rightarrow> token_server \<Rightarrow> nat" where
  "flights tok s = length (filter (\<lambda>p. snd p = tok) (ts_flight s))"

definition calls_passed :: "string \<Rightarrow> token_server \<Rightarrow> nat" where
  "calls_passed tok s = length (filter (\<lambda>t. t = tok) (ts_passed s))"

lemma flights_frame [simp]: "flights tok (s\<lparr>ts_limiter := l\<rparr>) = flights tok s" "calls_passed tok (s\<lparr>ts_limiter := l\<rparr>) = calls_passed tok s"
  by (simp_all add: flights_def calls_passed_def)

text \<open>As long as the token is tracked, its calls are those that passed and are not in flight.\<close>

definition counted_inv :: "nat \<Rightarrow> string \<Rightarrow> int \<Rightarrow> token_server \<Rightarrow> bool" where
  "counted_inv n tok m s \<longleftrightarrow>
     length (ts_flight s) \<le> n \<and> int (calls_passed tok s) \<le> m + int n - 1
     \<and> (case tl_tokens (ts_limiter s) tok of None \<Rightarrow> True
        | Some u \<Rightarrow> tu_max u = m \<and> tu_calls u + int (flights tok s) = int (calls_passed tok s))"

definition registers :: "string \<Rightarrow> token_event \<Rightarrow> bool" where
  "registers tok e = (case e of TokRegister now t user calls validity \<Rightarrow> t = tok | _ \<Rightarrow> False)"

lemma flights_le: "flights tok s \<le> length (ts_flight s)"
  by (simp add: flights_def)

lemma check_allowed:
  "check_token now tok l = TokAllowed r e \<Longrightarrow> \<exists>u. tl_tokens l tok = Some u \<and> tu_calls u < tu_max u"
  by (simp add: check_token_def split: option.split_asm if_split_asm)

lemma limit_check_inv:
  assumes "counted_inv n tok m s" "length (ts_flight s) < n"
  shows "counted_inv n tok m (limit_check now i t s)"
proof (cases "check_token now t (ts_limiter s)")
  case (TokAllowed r e)
  then obtain u where u: "tl_tokens (ts_limiter s) t = Some u" "tu_calls u < tu_max u" using check_allowed by blast
  have run: "limit_check now i t s = s\<lparr>ts_flight := (i, t) # ts_flight s, ts_passed := t # ts_passed s\<rparr>"
    by (simp add: limit_check_def TokAllowed)
  show ?thesis
  proof (cases "t = tok")
    case True
    then have "tu_calls u < m" "tu_max u = m" "tu_calls u + int (flights tok s) = int (calls_passed tok s)"
      using assms(1) u by (simp_all add: counted_inv_def)
    moreover have "int (flights tok s) < int n" using flights_le [of tok s] assms(2) by linarith
    ultimately show ?thesis unfolding run using True u assms(2)
      by (simp add: counted_inv_def flights_def calls_passed_def)
  next
    case False
    then show ?thesis unfolding run using assms
      by (simp add: counted_inv_def flights_def calls_passed_def split: option.splits)
  qed
qed (use assms(1) in \<open>simp_all add: limit_check_def\<close>)

lemma remove1_filter_length:
  "p \<in> set xs \<Longrightarrow> length (filter P xs) = length (filter P (remove1 p xs)) + (if P p then 1 else 0)"
  by (induction xs) auto

lemma limit_count_inv:
  assumes "counted_inv n tok m s"
  shows "counted_inv n tok m (limit_count now i s)"
proof (cases "List.find (\<lambda>p. fst p = i) (ts_flight s)")
  case None
  then show ?thesis using assms by (simp add: limit_count_def)
next
  case (Some p)
  obtain j t where p: "p = (j, t)" by (cases p)
  have pin: "p \<in> set (ts_flight s)" using Some by (auto simp: find_Some_iff)
  have len: "length (remove1 p (ts_flight s)) \<le> n" using assms pin by (auto simp: counted_inv_def length_remove1)
  show ?thesis
  proof (cases "t = tok")
    case True
    have "flights tok s = length (filter (\<lambda>q. snd q = tok) (remove1 p (ts_flight s))) + 1"
      using remove1_filter_length [OF pin, of "\<lambda>q. snd q = tok"] by (simp add: flights_def p True)
    then show ?thesis using assms len
      by (simp add: limit_count_def Some counted_inv_def p True increment_calls_def calls_passed_def flights_def split: option.splits)
  next
    case False
    have "length (filter (\<lambda>q. snd q = tok) (remove1 p (ts_flight s))) = flights tok s"
      using remove1_filter_length [OF pin, of "\<lambda>q. snd q = tok"] False by (simp add: flights_def p)
    then show ?thesis using assms len False
      by (simp add: limit_count_def Some counted_inv_def p increment_calls_def calls_passed_def flights_def split: option.splits)
  qed
qed

lemma limiter_step_inv:
  assumes "counted_inv n tok m s" "\<not> registers tok e"
  shows "counted_inv n tok m (limiter_step n e s)"
proof (cases e)
  case (TokCheck now i t)
  then show ?thesis using assms(1) limit_check_inv [OF assms(1)] by simp
next
  case (TokCount now i)
  then show ?thesis using limit_count_inv [OF assms(1)] by simp
next
  case (TokRegister now t user calls validity)
  then show ?thesis using assms
    by (simp add: counted_inv_def registers_def register_token_with_policy_def split: option.splits)
next
  case (TokRevoke t)
  then show ?thesis using assms(1)
    by (simp add: counted_inv_def revoke_token_def split: option.splits)
next
  case (TokClean now)
  then show ?thesis using assms(1)
    by (simp add: counted_inv_def cleanup_tokens_def split: option.splits)
qed

text \<open>C29. How often a token can be used: from its registration for a positive number of calls, and as long as it is
  not registered again, however requests overlap on a server of \<open>n\<close> slots, the requests with it that are
  let pass exceed that number by less than \<open>n\<close>; one at a time they never exceed it.\<close>

theorem token_calls_bounded:
  assumes "0 < m" "\<not> list_ex (registers tok) es"
    "s0 = \<lparr>ts_limiter = register_token_with_policy now tok user m validity l, ts_flight = [], ts_passed = []\<rparr>"
  shows "int (calls_passed tok (fold (limiter_step n) es s0)) < m + int n"
proof -
  have run: "counted_inv n tok m s \<Longrightarrow> \<not> list_ex (registers tok) es \<Longrightarrow> counted_inv n tok m (fold (limiter_step n) es s)" for s es
    by (induction es arbitrary: s) (simp_all add: limiter_step_inv)
  have "counted_inv n tok m s0"
    using assms(1) by (simp add: assms(3) counted_inv_def register_token_with_policy_def flights_def calls_passed_def)
  from run [OF this assms(2)] show ?thesis by (simp add: counted_inv_def)
qed

lemma token_calls_bounded_witness:
  "int (calls_passed ''t'' (fold (limiter_step 2) [TokCheck 1 1 ''t'', TokCheck 1 2 ''t'', TokCount 2 1, TokCheck 3 3 ''t'']
     \<lparr>ts_limiter = register_token_with_policy 0 ''t'' ''u'' 1 100 (new_token_limiter 500 10), ts_flight = [], ts_passed = []\<rparr>)) < 1 + int 2"
  by (rule token_calls_bounded [where user = "''u''" and validity = 100 and l = "new_token_limiter 500 10" and now = 0])
    (simp_all add: registers_def)

text \<open>The excess is real, and a token that is registered again starts from nothing.\<close>

lemma overlapping_checks_exceed:
  "calls_passed ''t'' (fold (limiter_step 2) [TokCheck 1 1 ''t'', TokCheck 1 2 ''t'']
     \<lparr>ts_limiter = register_token_with_policy 0 ''t'' ''u'' 1 100 (new_token_limiter 500 10), ts_flight = [], ts_passed = []\<rparr>) = 2"
  by (simp add: limit_check_def check_token_def register_token_with_policy_def expires_at_def usage_validity_def calls_passed_def)

lemma registration_resets_calls:
  "0 < m \<Longrightarrow> 0 < v \<Longrightarrow> check_token now tok (register_token_with_policy now tok user m v l) = TokAllowed m (now + v)"
  by (simp add: check_token_def register_token_with_policy_def expires_at_def usage_validity_def)

end
