(* ===== verification/Alert_Silencer.thy ===== *)
theory Alert_Silencer
  imports Go_Strings
begin

section \<open>Silences and maintenance windows (internal/alerting/silencer.go)\<close>

text \<open>
  The silencer and its state in the key-value store, which every change writes in a goroutine of its own:
  a save first encodes the tables and then writes, and the two steps of several saves interleave. The orders
  of map loops, the hour of the day and the parser of durations are arguments.
\<close>

record silence_matcher =
  sm_field :: string
  sm_value :: string
  sm_regex :: bool

record silence =
  si_id :: string
  si_by :: string
  si_comment :: string
  si_matchers :: "silence_matcher list"
  si_starts :: gotime
  si_ends :: gotime
  si_active :: bool
  si_created :: gotime

record maintenance_window =
  mw_id :: string
  mw_name :: string
  mw_description :: string
  mw_schedule :: string
  mw_duration :: string
  mw_sources :: "string list"
  mw_active :: bool

record alert_silencer =
  as_silences :: "string \<rightharpoonup> silence"
  as_windows :: "string \<rightharpoonup> maintenance_window"

definition new_silencer :: alert_silencer where
  "new_silencer = \<lparr>as_silences = Map.empty, as_windows = Map.empty\<rparr>"

definition add_silence :: "gotime \<Rightarrow> silence \<Rightarrow> alert_silencer \<Rightarrow> alert_silencer" where
  "add_silence now s a = a\<lparr>as_silences := (as_silences a)(si_id s \<mapsto> s\<lparr>si_active := True, si_created := now\<rparr>)\<rparr>"

definition remove_silence :: "string \<Rightarrow> alert_silencer \<Rightarrow> alert_silencer \<times> bool" where
  "remove_silence i a =
     (case as_silences a i of
        None \<Rightarrow> (a, False)
      | Some s \<Rightarrow> (a\<lparr>as_silences := (as_silences a)(i \<mapsto> s\<lparr>si_active := False\<rparr>)\<rparr>, True))"

definition equal_fold :: "string \<Rightarrow> string \<Rightarrow> bool" where
  "equal_fold s t \<longleftrightarrow> to_lower s = to_lower t"

text \<open>An alert: name, source, severity and labels.\<close>

type_synonym alert = "string \<times> string \<times> string \<times> (string \<rightharpoonup> string)"

definition match_field :: "silence_matcher \<Rightarrow> alert \<Rightarrow> bool" where
  "match_field m x =
     (case x of (name, source, severity, labels) \<Rightarrow>
        let actual = (if sm_field m = ''name'' then name
                      else if sm_field m = ''source'' then source
                      else if sm_field m = ''severity'' then severity
                      else if take 6 (sm_field m) = ''label:''
                        then (case labels (drop 6 (sm_field m)) of None \<Rightarrow> [] | Some v \<Rightarrow> v)
                      else [])
        in if sm_regex m then contains actual (filter (\<lambda>c. c \<noteq> CHR ''*'') (sm_value m))
           else equal_fold actual (sm_value m))"

definition matches_silence :: "silence \<Rightarrow> alert \<Rightarrow> bool" where
  "matches_silence s x \<longleftrightarrow> list_all (\<lambda>m. match_field m x) (si_matchers s) \<and> si_matchers s \<noteq> []"

text \<open>\<open>dur\<close> is the parser of durations.\<close>

definition in_maintenance :: "(string \<Rightarrow> duration option) \<Rightarrow> int \<Rightarrow> maintenance_window \<Rightarrow> string \<Rightarrow> bool" where
  "in_maintenance dur hour w source =
     (if mw_sources w \<noteq> [] \<and> \<not> list_ex (\<lambda>s. equal_fold s source) (mw_sources w) then False
      else case dur (mw_duration w) of
             None \<Rightarrow> False
           | Some d \<Rightarrow> 2 \<le> hour \<and> hour < 2 + (if 0 \<le> d then d div (3600 * second) else - ((- d) div (3600 * second))))"

definition silence_applies :: "gotime \<Rightarrow> alert \<Rightarrow> silence \<Rightarrow> bool" where
  "silence_applies now x s \<longleftrightarrow> si_active s \<and> \<not> now < si_starts s \<and> \<not> si_ends s < now \<and> matches_silence s x"

definition is_silenced ::
  "(string \<Rightarrow> duration option) \<Rightarrow> gotime \<Rightarrow> int \<Rightarrow> string list \<Rightarrow> string list \<Rightarrow> alert \<Rightarrow> alert_silencer \<Rightarrow> bool" where
  "is_silenced dur now hour ks ws x a \<longleftrightarrow>
     list_ex (silence_applies now x) (List.map_filter (as_silences a) ks)
     \<or> list_ex (\<lambda>w. mw_active w \<and> in_maintenance dur hour w (fst (snd x))) (List.map_filter (as_windows a) ws)"

definition list_active_silences :: "gotime \<Rightarrow> string list \<Rightarrow> alert_silencer \<Rightarrow> silence list" where
  "list_active_silences now ks a =
     filter (\<lambda>s. si_active s \<and> si_starts s < now \<and> now < si_ends s) (List.map_filter (as_silences a) ks)"

definition expire_old :: "gotime \<Rightarrow> string list \<Rightarrow> alert_silencer \<Rightarrow> alert_silencer \<times> nat" where
  "expire_old now ks a =
     (a\<lparr>as_silences := (\<lambda>i. case as_silences a i of None \<Rightarrow> None
          | Some s \<Rightarrow> Some (if si_active s \<and> si_ends s < now then s\<lparr>si_active := False\<rparr> else s))\<rparr>,
      length (filter (\<lambda>s. si_active s \<and> si_ends s < now) (List.map_filter (as_silences a) ks)))"

definition add_maintenance :: "maintenance_window \<Rightarrow> alert_silencer \<Rightarrow> alert_silencer" where
  "add_maintenance w a = a\<lparr>as_windows := (as_windows a)(mw_id w \<mapsto> w)\<rparr>"

definition remove_maintenance :: "string \<Rightarrow> alert_silencer \<Rightarrow> alert_silencer \<times> bool" where
  "remove_maintenance i a =
     (if as_windows a i = None then (a, False) else (a\<lparr>as_windows := (as_windows a)(i := None)\<rparr>, True))"

subsection \<open>Saving\<close>

text \<open>A save that has not encoded yet is \<open>None\<close>, one that has is what it encoded.\<close>

record silencer_host =
  sh_silencer :: alert_silencer
  sh_kv :: "alert_silencer option"
  sh_saves :: "alert_silencer option list"

datatype silencer_event =
    SilAdd gotime silence
  | SilRemove string
  | SilExpire gotime
  | SilAddWindow maintenance_window
  | SilRemoveWindow string
  | SaveEncode nat
  | SavePut nat

definition spawn_save :: "silencer_host \<Rightarrow> silencer_host" where
  "spawn_save h = h\<lparr>sh_saves := sh_saves h @ [None]\<rparr>"

fun silencer_step :: "silencer_event \<Rightarrow> silencer_host \<Rightarrow> silencer_host" where
  "silencer_step (SilAdd now s) h = spawn_save (h\<lparr>sh_silencer := add_silence now s (sh_silencer h)\<rparr>)"
| "silencer_step (SilRemove i) h =
     (case remove_silence i (sh_silencer h) of (a, ok) \<Rightarrow> if ok then spawn_save (h\<lparr>sh_silencer := a\<rparr>) else h)"
| "silencer_step (SilExpire now) h = h\<lparr>sh_silencer := fst (expire_old now [] (sh_silencer h))\<rparr>"
| "silencer_step (SilAddWindow w) h = spawn_save (h\<lparr>sh_silencer := add_maintenance w (sh_silencer h)\<rparr>)"
| "silencer_step (SilRemoveWindow i) h =
     (case remove_maintenance i (sh_silencer h) of (a, ok) \<Rightarrow> if ok then spawn_save (h\<lparr>sh_silencer := a\<rparr>) else h)"
| "silencer_step (SaveEncode n) h =
     (if n < length (sh_saves h) \<and> sh_saves h ! n = None
      then h\<lparr>sh_saves := (sh_saves h)[n := Some (sh_silencer h)]\<rparr> else h)"
| "silencer_step (SavePut n) h =
     (if n < length (sh_saves h) \<and> sh_saves h ! n \<noteq> None then h\<lparr>sh_kv := sh_saves h ! n\<rparr> else h)"

definition load_silencer :: "silencer_host \<Rightarrow> alert_silencer" where
  "load_silencer h = (case sh_kv h of None \<Rightarrow> new_silencer | Some a \<Rightarrow> a)"

subsection \<open>Properties\<close>

text \<open>Expiry changes no decision of the instant or later.\<close>

lemma list_ex_map_filter: "list_ex P (List.map_filter g xs) \<longleftrightarrow> (\<exists>i \<in> set xs. case g i of None \<Rightarrow> False | Some v \<Rightarrow> P v)"
  by (induction xs) (auto simp: List.map_filter_simps split: option.split)

lemma expiry_invisible:
  assumes "now \<le> now'"
  shows "is_silenced dur now' hour ks ws x (fst (expire_old now js a)) = is_silenced dur now' hour ks ws x a"
proof -
  have "(case as_silences (fst (expire_old now js a)) i of None \<Rightarrow> False | Some s \<Rightarrow> silence_applies now' x s)
      = (case as_silences a i of None \<Rightarrow> False | Some s \<Rightarrow> silence_applies now' x s)" for i
    using assms by (cases "as_silences a i") (simp_all add: expire_old_def silence_applies_def matches_silence_def)
  then show ?thesis unfolding is_silenced_def list_ex_map_filter by (simp add: expire_old_def)
qed

text \<open>A save that encodes and writes after every other change and write keeps the state.\<close>

lemma last_save_keeps:
  "n < length (sh_saves h) \<Longrightarrow> sh_saves h ! n = None \<Longrightarrow>
     load_silencer (silencer_step (SavePut n) (silencer_step (SaveEncode n) h)) = sh_silencer h"
  by (simp add: load_silencer_def)

text \<open>But a save that encoded before a removal and writes after the save of the removal brings the silence back.\<close>

lemma late_save_undoes_removal:
  assumes "h0 = \<lparr>sh_silencer = new_silencer, sh_kv = None, sh_saves = []\<rparr>"
    "h = fold silencer_step [SilAdd now s, SaveEncode 0, SilRemove (si_id s), SaveEncode 1, SavePut 1, SavePut 0] h0"
  shows "as_silences (sh_silencer h) (si_id s) = Some (s\<lparr>si_active := False, si_created := now\<rparr>)
    \<and> as_silences (load_silencer h) (si_id s) = Some (s\<lparr>si_active := True, si_created := now\<rparr>)"
  using assms by (simp add: spawn_save_def add_silence_def remove_silence_def new_silencer_def load_silencer_def)

text \<open>A star inside a pattern is deleted, not expanded; a pattern of stars matches what is absent.\<close>

lemma star_inside_never_expands:
  "\<not> match_field \<lparr>sm_field = ''name'', sm_value = ''db*up'', sm_regex = True\<rparr> (''db1up'', [], [], Map.empty)"
  by code_simp

lemma contains_Nil: "contains s []"
  by (cases s) (simp_all add: contains_def)

lemma star_matches_absent: "match_field \<lparr>sm_field = f, sm_value = ''*'', sm_regex = True\<rparr> x"
  by (cases x) (simp add: match_field_def contains_Nil Let_def)

text \<open>The schedule of a window is not read, and one shorter than an hour never opens.\<close>

lemma schedule_ignored: "in_maintenance dur hour (w\<lparr>mw_schedule := s\<rparr>) source = in_maintenance dur hour w source"
  by (simp add: in_maintenance_def)

lemma short_window_never_opens:
  "dur (mw_duration w) = Some d \<Longrightarrow> 0 \<le> d \<Longrightarrow> d < 3600 * second \<Longrightarrow> \<not> in_maintenance dur hour w source"
  by (simp add: in_maintenance_def)

end
