(* ===== verification/Memory_Cache.thy ===== *)
theory Memory_Cache
  imports Prelude "HOL-Library.AList"
begin

section \<open>The cache in memory (internal/cache/memory.go)\<close>

text \<open>
  The table is a list of entries with different keys, in any order; after Close there is none, reading finds
  nothing and a write panics. A value is an integer, a string or another object; the JSON codec is an
  argument. The loop that evicts ranges over the keys in an order that is an argument.
\<close>

datatype 'o cached_value = CachedInt int | CachedText string | CachedObject 'o

record 'o memory_entry =
  me_value :: "'o cached_value"
  me_expires :: gotime

record 'o memory_cache =
  mc_data :: "(string \<times> 'o memory_entry) list option"
  mc_max :: nat

datatype cache_error = ErrKeyNotFound | ErrInvalidDuration | ErrWrongType | ErrCodec string | ErrUnhealthy

definition new_memory_cache :: "int \<Rightarrow> 'o memory_cache" where
  "new_memory_cache n = \<lparr>mc_data = Some [], mc_max = (if n \<le> 0 then 1000 else nat n)\<rparr>"

definition mc_entry :: "'o memory_cache \<Rightarrow> string \<Rightarrow> 'o memory_entry option" where
  "mc_entry m k = (case mc_data m of None \<Rightarrow> None | Some d \<Rightarrow> map_of d k)"

definition mc_get :: "gotime \<Rightarrow> string \<Rightarrow> 'o memory_cache \<Rightarrow> (cache_error, 'o cached_value) outcome" where
  "mc_get now k m =
     (case mc_entry m k of
        None \<Rightarrow> Err ErrKeyNotFound
      | Some e \<Rightarrow> if me_expires e < now then Err ErrKeyNotFound else Ok (me_value e))"

text \<open>The loop starts with no key and the zero instant.\<close>

fun oldest_loop :: "'o memory_cache \<Rightarrow> string list \<Rightarrow> string \<Rightarrow> gotime \<Rightarrow> string" where
  "oldest_loop m [] k t = k"
| "oldest_loop m (j # js) k t =
     (case mc_entry m j of
        None \<Rightarrow> oldest_loop m js k t
      | Some e \<Rightarrow> if t = zero_time \<or> me_expires e < t then oldest_loop m js j (me_expires e) else oldest_loop m js k t)"

definition evict_oldest :: "string list \<Rightarrow> 'o memory_cache \<Rightarrow> 'o memory_cache" where
  "evict_oldest ks m =
     (let k = oldest_loop m ks [] zero_time
      in if k = [] then m else m\<lparr>mc_data := map_option (AList.delete k) (mc_data m)\<rparr>)"

definition mc_store :: "string \<Rightarrow> 'o memory_entry \<Rightarrow> 'o memory_cache \<Rightarrow> (cache_error, unit) outcome \<times> 'o memory_cache" where
  "mc_store k e m =
     (case mc_data m of None \<Rightarrow> (Panic, m) | Some d \<Rightarrow> (Ok (), m\<lparr>mc_data := Some (AList.update k e d)\<rparr>))"

definition mc_set ::
  "gotime \<Rightarrow> string list \<Rightarrow> string \<Rightarrow> 'o cached_value \<Rightarrow> duration \<Rightarrow> 'o memory_cache \<Rightarrow> (cache_error, unit) outcome \<times> 'o memory_cache" where
  "mc_set now ks k v ttl m =
     (if ttl \<le> 0 then (Err ErrInvalidDuration, m)
      else
        let n = (case mc_data m of None \<Rightarrow> 0 | Some d \<Rightarrow> length d);
            m' = (if mc_max m \<le> n \<and> mc_entry m k = None then evict_oldest ks m else m)
        in mc_store k \<lparr>me_value = v, me_expires = now + ttl\<rparr> m')"

definition mc_delete :: "string \<Rightarrow> 'o memory_cache \<Rightarrow> 'o memory_cache" where
  "mc_delete k m = m\<lparr>mc_data := map_option (AList.delete k) (mc_data m)\<rparr>"

definition mc_clear :: "'o memory_cache \<Rightarrow> 'o memory_cache" where
  "mc_clear m = m\<lparr>mc_data := Some []\<rparr>"

definition mc_exists :: "gotime \<Rightarrow> string \<Rightarrow> 'o memory_cache \<Rightarrow> bool" where
  "mc_exists now k m = (case mc_entry m k of None \<Rightarrow> False | Some e \<Rightarrow> \<not> me_expires e < now)"

definition mc_get_string :: "gotime \<Rightarrow> string \<Rightarrow> 'o memory_cache \<Rightarrow> (cache_error, string) outcome" where
  "mc_get_string now k m =
     outcome_bind (mc_get now k m) (\<lambda>v. case v of CachedText s \<Rightarrow> Ok s | _ \<Rightarrow> Err ErrWrongType)"

definition mc_get_json ::
  "('o cached_value \<Rightarrow> string + string) \<Rightarrow> (string \<Rightarrow> string + 't) \<Rightarrow> gotime \<Rightarrow> string \<Rightarrow> 'o memory_cache \<Rightarrow> (cache_error, 't) outcome" where
  "mc_get_json marshal unmarshal now k m =
     outcome_bind (mc_get now k m) (\<lambda>v.
       let text = (case v of CachedText s \<Rightarrow> Inr s | _ \<Rightarrow> marshal v)
       in case text of
            Inl e \<Rightarrow> Err (ErrCodec e)
          | Inr s \<Rightarrow> (case unmarshal s of Inl e \<Rightarrow> Err (ErrCodec e) | Inr t \<Rightarrow> Ok t))"

definition mc_set_json ::
  "('t \<Rightarrow> string + string) \<Rightarrow> gotime \<Rightarrow> string list \<Rightarrow> string \<Rightarrow> 't \<Rightarrow> duration \<Rightarrow> 'o memory_cache \<Rightarrow> (cache_error, unit) outcome \<times> 'o memory_cache" where
  "mc_set_json marshal now ks k v ttl m =
     (case marshal v of Inl e \<Rightarrow> (Err (ErrCodec e), m) | Inr s \<Rightarrow> mc_set now ks k (CachedText s) ttl m)"

definition day :: duration where "day = 24 * 3600 * second"

definition mc_increment :: "gotime \<Rightarrow> string \<Rightarrow> int \<Rightarrow> 'o memory_cache \<Rightarrow> (cache_error, unit) outcome \<times> 'o memory_cache" where
  "mc_increment now k n m =
     (let fresh = mc_store k \<lparr>me_value = CachedInt n, me_expires = now + day\<rparr> m
      in case mc_entry m k of
           None \<Rightarrow> fresh
         | Some e \<Rightarrow>
             if me_expires e < now then fresh
             else (case me_value e of
                     CachedInt i \<Rightarrow> mc_store k (e\<lparr>me_value := CachedInt (i64 (i + n))\<rparr>) m
                   | _ \<Rightarrow> (Err ErrWrongType, m)))"

definition mc_decrement :: "gotime \<Rightarrow> string \<Rightarrow> int \<Rightarrow> 'o memory_cache \<Rightarrow> (cache_error, unit) outcome \<times> 'o memory_cache" where
  "mc_decrement now k n m = mc_increment now k (i64 (- n)) m"

definition mc_get_counter :: "gotime \<Rightarrow> string \<Rightarrow> 'o memory_cache \<Rightarrow> (cache_error, int) outcome" where
  "mc_get_counter now k m =
     outcome_bind (mc_get now k m) (\<lambda>v. case v of CachedInt i \<Rightarrow> Ok i | _ \<Rightarrow> Err ErrWrongType)"

definition mc_health :: "'o memory_cache \<Rightarrow> (cache_error, unit) outcome" where
  "mc_health m = (if mc_data m = None then Err ErrUnhealthy else Ok ())"

definition mc_close :: "'o memory_cache \<Rightarrow> 'o memory_cache" where
  "mc_close m = m\<lparr>mc_data := None\<rparr>"

definition mc_cleanup :: "gotime \<Rightarrow> 'o memory_cache \<Rightarrow> 'o memory_cache" where
  "mc_cleanup now m = m\<lparr>mc_data := map_option (filter (\<lambda>(k, e). \<not> me_expires e < now)) (mc_data m)\<rparr>"

subsection \<open>The calls and what was written last\<close>

datatype 'o cache_call =
    CallSet gotime "string list" string "'o cached_value" duration
  | CallIncrement gotime string int
  | CallDelete string
  | CallClear
  | CallCleanup gotime
  | CallClose

fun cache_step :: "'o cache_call \<Rightarrow> 'o memory_cache \<Rightarrow> 'o memory_cache" where
  "cache_step (CallSet now ks k v ttl) m = snd (mc_set now ks k v ttl m)"
| "cache_step (CallIncrement now k n) m = snd (mc_increment now k n m)"
| "cache_step (CallDelete k) m = mc_delete k m"
| "cache_step CallClear m = mc_clear m"
| "cache_step (CallCleanup now) m = mc_cleanup now m"
| "cache_step CallClose m = mc_close m"

subsection \<open>Bounded, if nothing is counted\<close>

definition mc_ok :: "'o memory_cache \<Rightarrow> bool" where
  "mc_ok m \<longleftrightarrow> 0 < mc_max m \<and>
     (case mc_data m of None \<Rightarrow> True
      | Some d \<Rightarrow> distinct (map fst d) \<and> length d \<le> mc_max m \<and> list_all (\<lambda>(k, e). k \<noteq> [] \<and> 0 < me_expires e) d)"

lemma mc_okD: "mc_ok m \<Longrightarrow> mc_data m = Some d \<Longrightarrow> distinct (map fst d) \<and> length d \<le> mc_max m \<and> list_all (\<lambda>(k, e). k \<noteq> [] \<and> 0 < me_expires e) d"
  by (simp add: mc_ok_def)

lemma mc_entry_ok: "mc_ok m \<Longrightarrow> mc_entry m k = Some e \<Longrightarrow> k \<noteq> [] \<and> 0 < me_expires e"
  by (auto simp: mc_ok_def mc_entry_def list_all_iff split: option.split_asm dest: map_of_SomeD)

lemma oldest_loop_keeps:
  "mc_ok m \<Longrightarrow> mc_entry m k \<noteq> None \<Longrightarrow> mc_entry m (oldest_loop m js k t) \<noteq> None"
  by (induction js arbitrary: k t) (auto split: option.split)

text \<open>Where there is an entry, the loop finds one.\<close>

lemma oldest_loop_finds:
  "mc_ok m \<Longrightarrow> j \<in> set js \<Longrightarrow> mc_entry m j \<noteq> None \<Longrightarrow> mc_entry m (oldest_loop m js [] zero_time) \<noteq> None"
proof (induction js)
  case (Cons i js)
  show ?case
  proof (cases "mc_entry m i")
    case None
    then show ?thesis using Cons by auto
  next
    case (Some e)
    then show ?thesis using oldest_loop_keeps [OF Cons.prems(1)] by simp
  qed
qed simp

lemma delete_entries: "list_all P d \<Longrightarrow> list_all P (AList.delete k d)"
  by (auto simp: list_all_iff AList.delete_eq)

lemma delete_shorter:
  assumes "k \<in> fst ` set d"
  shows "length (AList.delete k d) < length d"
proof -
  obtain v where "(k, v) \<in> set d" using assms by force
  then show ?thesis unfolding AList.delete_eq by (rule length_filter_less) simp
qed

lemma evict_ok:
  assumes "mc_ok m" "mc_data m = Some d" "d \<noteq> []" "set ks = fst ` set d"
  shows "mc_ok (evict_oldest ks m) \<and> (\<exists>d'. mc_data (evict_oldest ks m) = Some d' \<and> length d' < length d \<and> mc_max (evict_oldest ks m) = mc_max m)"
proof -
  let ?k = "oldest_loop m ks [] zero_time"
  obtain j e d0 where d: "d = (j, e) # d0" using assms(3) by (cases d) auto
  have "mc_entry m ?k \<noteq> None"
    by (rule oldest_loop_finds [OF assms(1), of j]) (simp_all add: assms(2,4) d mc_entry_def)
  then obtain e' where e': "mc_entry m ?k = Some e'" by blast
  then have ne: "?k \<noteq> []" using mc_entry_ok [OF assms(1)] by blast
  have "?k \<in> fst ` set d" using e' assms(2) by (force simp: mc_entry_def dest: map_of_SomeD)
  then have short: "length (AList.delete ?k d) < length d" by (rule delete_shorter)
  have "mc_data (evict_oldest ks m) = Some (AList.delete ?k d)" "mc_max (evict_oldest ks m) = mc_max m"
    using ne by (simp_all add: evict_oldest_def assms(2) Let_def)
  moreover have "mc_ok (evict_oldest ks m)"
    using calculation short mc_okD [OF assms(1,2)] assms(1) delete_entries [of _ d ?k]
    by (simp add: mc_ok_def AList.distinct_delete)
  ultimately show ?thesis using short by blast
qed

lemma update_length: "length (AList.update k v d) = (if k \<in> fst ` set d then length d else Suc (length d))"
  by (induction d) auto

lemma update_entries: "list_all P d \<Longrightarrow> P (k, v) \<Longrightarrow> list_all P (AList.update k v d)"
  by (induction d) auto

lemma store_ok:
  assumes "mc_ok m" "k \<noteq> []" "0 < me_expires e" "\<forall>d. mc_data m = Some d \<longrightarrow> k \<in> fst ` set d \<or> length d < mc_max m"
  shows "mc_ok (snd (mc_store k e m))"
proof (cases "mc_data m")
  case (Some d)
  then show ?thesis using assms mc_okD [OF assms(1) Some]
    by (auto simp: mc_store_def mc_ok_def update_length AList.distinct_update intro!: update_entries)
qed (use assms(1) in \<open>simp add: mc_store_def\<close>)

text \<open>What Set is called with: an order of the keys there are, a key that is not empty, an instant of the clock.\<close>

definition set_fits :: "'o memory_cache \<Rightarrow> 'o cache_call \<Rightarrow> bool" where
  "set_fits m c =
     (case c of
        CallSet now ks k v ttl \<Rightarrow> 0 \<le> now \<and> k \<noteq> [] \<and> (case mc_data m of None \<Rightarrow> True | Some d \<Rightarrow> set ks = fst ` set d)
      | CallIncrement now k n \<Rightarrow> False
      | _ \<Rightarrow> True)"

lemma set_ok:
  assumes "mc_ok m" "set_fits m (CallSet now ks k v ttl)"
  shows "mc_ok (snd (mc_set now ks k v ttl m))"
proof (cases "ttl \<le> 0")
  case True
  then show ?thesis using assms(1) by (simp add: mc_set_def)
next
  case ttl: False
  have fits: "0 \<le> now" "k \<noteq> []" using assms(2) by (simp_all add: set_fits_def)
  show ?thesis
  proof (cases "mc_data m")
    case None
    then show ?thesis using assms(1) ttl by (simp add: mc_set_def mc_store_def mc_entry_def Let_def evict_oldest_def mc_ok_def)
  next
    case (Some d)
    have "k \<in> fst ` set d" if "mc_entry m k \<noteq> None" using that Some by (force simp: mc_entry_def dest: map_of_SomeD)
    show ?thesis
    proof (cases "mc_max m \<le> length d \<and> mc_entry m k = None")
      case True
      have "d \<noteq> []" "set ks = fst ` set d" using True assms Some by (auto simp: mc_ok_def set_fits_def)
      from evict_ok [OF assms(1) Some this] obtain d' where
        d': "mc_ok (evict_oldest ks m)" "mc_data (evict_oldest ks m) = Some d'" "length d' < length d" "mc_max (evict_oldest ks m) = mc_max m" by blast
      have "mc_ok (snd (mc_store k \<lparr>me_value = v, me_expires = now + ttl\<rparr> (evict_oldest ks m)))"
        by (rule store_ok [OF d'(1) fits(2)]) (use fits ttl d' mc_okD [OF assms(1) Some] in auto)
      then show ?thesis using True ttl by (simp add: mc_set_def Some Let_def)
    next
      case False
      have "mc_ok (snd (mc_store k \<lparr>me_value = v, me_expires = now + ttl\<rparr> m))"
        by (rule store_ok [OF assms(1) fits(2)]) (use fits ttl False Some \<open>mc_entry m k \<noteq> None \<Longrightarrow> k \<in> fst ` set d\<close> in auto)
      moreover have "\<not> (mc_max m \<le> (case mc_data m of None \<Rightarrow> 0 | Some d \<Rightarrow> length d) \<and> mc_entry m k = None)"
        using False Some by simp
      ultimately show ?thesis using ttl unfolding mc_set_def Let_def by (simp only: if_False snd_conv)
    qed
  qed
qed

lemma cache_step_ok: "mc_ok m \<Longrightarrow> set_fits m c \<Longrightarrow> mc_ok (cache_step c m)"
proof (cases c)
  case (CallSet now ks k v ttl)
  assume "mc_ok m" "set_fits m c"
  then show ?thesis unfolding CallSet using set_ok by simp
next
  case (CallDelete k)
  assume "mc_ok m"
  then show ?thesis
  proof (cases "mc_data m")
    case (Some d)
    have "length (AList.delete k d) \<le> mc_max m" using mc_okD [OF \<open>mc_ok m\<close> Some] AList.length_delete_le [of k d] by linarith
    then show ?thesis using mc_okD [OF \<open>mc_ok m\<close> Some] \<open>mc_ok m\<close> delete_entries [of _ d k]
      by (simp add: CallDelete mc_delete_def mc_ok_def Some AList.distinct_delete)
  qed (simp add: CallDelete mc_delete_def mc_ok_def)
next
  case (CallCleanup now)
  assume "mc_ok m"
  then show ?thesis
  proof (cases "mc_data m")
    case (Some d)
    have "length (filter P d) \<le> mc_max m" for P
      using mc_okD [OF \<open>mc_ok m\<close> Some] length_filter_le [of P d] by linarith
    moreover have "list_all Q d \<Longrightarrow> list_all Q (filter P d)" for P Q by (simp add: list_all_iff)
    ultimately show ?thesis using mc_okD [OF \<open>mc_ok m\<close> Some] \<open>mc_ok m\<close>
      by (simp add: CallCleanup mc_cleanup_def mc_ok_def Some distinct_map_filter)
  qed (simp add: CallCleanup mc_cleanup_def mc_ok_def)
qed (simp_all add: set_fits_def mc_clear_def mc_close_def mc_ok_def)

fun calls_fit :: "'o memory_cache \<Rightarrow> 'o cache_call list \<Rightarrow> bool" where
  "calls_fit m [] = True"
| "calls_fit m (c # cs) = (set_fits m c \<and> calls_fit (cache_step c m) cs)"

theorem memory_cache_bounded:
  assumes "calls_fit (new_memory_cache n) cs"
  shows "case mc_data (fold cache_step cs (new_memory_cache n)) of None \<Rightarrow> True
    | Some d \<Rightarrow> length d \<le> (if n \<le> 0 then 1000 else nat n) \<and> distinct (map fst d)"
proof -
  have "mc_ok m \<Longrightarrow> calls_fit m cs \<Longrightarrow> mc_ok (fold cache_step cs m)" for m :: "'a memory_cache" and cs
    by (induction cs arbitrary: m) (simp_all add: cache_step_ok)
  moreover have "mc_ok (new_memory_cache n :: 'a memory_cache)" by (simp add: mc_ok_def new_memory_cache_def)
  ultimately have ok: "mc_ok (fold cache_step cs (new_memory_cache n))" using assms by blast
  have step: "mc_max (cache_step c m) = mc_max m" for c and m :: "'a memory_cache"
    by (cases c) (simp_all add: mc_set_def mc_store_def mc_increment_def mc_delete_def mc_clear_def mc_cleanup_def mc_close_def
        evict_oldest_def Let_def split: option.split cached_value.split)
  have "mc_max (fold cache_step cs m) = mc_max m" for m :: "'a memory_cache" and cs
    by (induction cs arbitrary: m) (simp_all add: step)
  then have "mc_max (fold cache_step cs (new_memory_cache n :: 'a memory_cache)) = (if n \<le> 0 then 1000 else nat n)"
    by (simp add: new_memory_cache_def)
  note limit = this
  show ?thesis
  proof (cases "mc_data (fold cache_step cs (new_memory_cache n :: 'a memory_cache))")
    case (Some d)
    show ?thesis using mc_okD [OF ok Some] unfolding limit Some option.case by blast
  qed simp
qed

text \<open>Counters are put in without a look at the limit; an empty key is never evicted; a closed cache panics.\<close>

lemma counters_ignore_limit:
  "mc_data m = Some d \<Longrightarrow> map_of d k = None \<Longrightarrow>
     (case mc_data (snd (mc_increment now k n m)) of None \<Rightarrow> False | Some d' \<Rightarrow> length d' = Suc (length d))"
  by (simp add: mc_increment_def mc_entry_def mc_store_def update_length) (simp add: map_of_eq_None_iff)

lemma empty_key_never_evicted: "evict_oldest [[]] m = m"
  by (simp add: evict_oldest_def split: option.split)

lemma closed_cache_panics: "0 < ttl \<Longrightarrow> fst (mc_set now ks k v ttl (mc_close m)) = Panic"
  by (simp add: mc_set_def mc_close_def mc_store_def mc_entry_def evict_oldest_def Let_def)

end
