(* ===== verification/Event_Recorder.thy ===== *)
theory Event_Recorder
  imports Prelude
begin

section \<open>The event recorder (internal/events/recorder.go)\<close>

text \<open>
  Events by the key of their resource, at most a fixed number of each. An event of the type and reason of
  one that is there is counted on it. Identifiers and the order of a loop over the keys are arguments.
\<close>

record involved_object =
  io_kind :: string
  io_name :: string
  io_namespace :: string
  io_uid :: string

record recorded_event =
  re_id :: string
  re_type :: string
  re_reason :: string
  re_message :: string
  re_time :: gotime
  re_object :: involved_object
  re_reporter :: string
  re_first :: gotime
  re_last :: gotime
  re_count :: int
  re_metadata :: "(string \<rightharpoonup> string) option"
  re_related :: "involved_object list"

record event_recorder =
  er_events :: "string \<rightharpoonup> recorded_event list"
  er_max :: nat

definition new_recorder :: event_recorder where
  "new_recorder = \<lparr>er_events = Map.empty, er_max = 1000\<rparr>"

text \<open>A resource: namespace, name, and unique identifier.\<close>

type_synonym resource_meta = "string \<times> string \<times> string"

definition event_key :: "resource_meta \<Rightarrow> string" where
  "event_key x = (case x of (ns, name, uid) \<Rightarrow> ns @ ''/'' @ name)"

definition involved :: "resource_meta \<Rightarrow> involved_object" where
  "involved x = (case x of (ns, name, uid) \<Rightarrow> \<lparr>io_kind = ''Resource'', io_name = name, io_namespace = ns, io_uid = uid\<rparr>)"

definition new_event :: "gotime \<Rightarrow> string \<Rightarrow> resource_meta \<Rightarrow> string \<Rightarrow> string \<Rightarrow> string \<Rightarrow> recorded_event" where
  "new_event now i x typ reason message =
     \<lparr>re_id = i, re_type = typ, re_reason = reason, re_message = message, re_time = now, re_object = involved x,
      re_reporter = ''axiom-nizam'', re_first = now, re_last = now, re_count = 1, re_metadata = None, re_related = []\<rparr>"

text \<open>The loop that looks for a similar event and counts on the first.\<close>

fun count_similar :: "gotime \<Rightarrow> string \<Rightarrow> string \<Rightarrow> recorded_event list \<Rightarrow> recorded_event list option" where
  "count_similar now typ reason [] = None"
| "count_similar now typ reason (e # es) =
     (if re_type e = typ \<and> re_reason e = reason then Some (e\<lparr>re_count := i64 (re_count e + 1), re_last := now\<rparr> # es)
      else map_option (Cons e) (count_similar now typ reason es))"

definition events_at :: "event_recorder \<Rightarrow> string \<Rightarrow> recorded_event list" where
  "events_at r k = (case er_events r k of None \<Rightarrow> [] | Some es \<Rightarrow> es)"

definition append_event :: "string \<Rightarrow> recorded_event \<Rightarrow> event_recorder \<Rightarrow> event_recorder" where
  "append_event k e r =
     (let es = events_at r k @ [e] in r\<lparr>er_events := (er_events r)(k \<mapsto> if er_max r < length es then tl es else es)\<rparr>)"

definition record_with_metadata ::
  "gotime \<Rightarrow> string \<Rightarrow> resource_meta \<Rightarrow> string \<Rightarrow> string \<Rightarrow> string \<Rightarrow> (string \<rightharpoonup> string) option \<Rightarrow> event_recorder \<Rightarrow> event_recorder" where
  "record_with_metadata now i x typ reason message metadata r =
     (case count_similar now typ reason (events_at r (event_key x)) of
        Some es \<Rightarrow> r\<lparr>er_events := (er_events r)(event_key x \<mapsto> es)\<rparr>
      | None \<Rightarrow> append_event (event_key x) ((new_event now i x typ reason message)\<lparr>re_metadata := metadata\<rparr>) r)"

definition record_event :: "gotime \<Rightarrow> string \<Rightarrow> resource_meta \<Rightarrow> string \<Rightarrow> string \<Rightarrow> string \<Rightarrow> event_recorder \<Rightarrow> event_recorder" where
  "record_event now i x typ reason message r = record_with_metadata now i x typ reason message None r"

definition record_related ::
  "gotime \<Rightarrow> string \<Rightarrow> resource_meta \<Rightarrow> string \<Rightarrow> string \<Rightarrow> string \<Rightarrow> resource_meta list \<Rightarrow> event_recorder \<Rightarrow> event_recorder" where
  "record_related now i x typ reason message related r =
     append_event (event_key x) ((new_event now i x typ reason message)\<lparr>re_related := map involved related\<rparr>) r"

definition get_events :: "string \<Rightarrow> string \<Rightarrow> event_recorder \<Rightarrow> recorded_event list" where
  "get_events name ns r = events_at r (event_key (ns, name, []))"

definition get_events_by_type :: "string \<Rightarrow> string \<Rightarrow> string \<Rightarrow> event_recorder \<Rightarrow> recorded_event list" where
  "get_events_by_type name ns typ r = filter (\<lambda>e. re_type e = typ) (get_events name ns r)"

definition recent_events :: "gotime \<Rightarrow> duration \<Rightarrow> string list \<Rightarrow> event_recorder \<Rightarrow> recorded_event list" where
  "recent_events now d ks r = filter (\<lambda>e. now - d < re_time e) (concat (map (events_at r) ks))"

definition clear_events :: "gotime \<Rightarrow> event_recorder \<Rightarrow> event_recorder" where
  "clear_events before r =
     r\<lparr>er_events := (\<lambda>k. case er_events r k of None \<Rightarrow> None
        | Some es \<Rightarrow> (let fs = filter (\<lambda>e. before < re_time e) es in if fs = [] then None else Some fs))\<rparr>"

subsection \<open>Counting is exact\<close>

definition similar :: "string \<Rightarrow> string \<Rightarrow> recorded_event \<Rightarrow> bool" where
  "similar typ reason e \<longleftrightarrow> re_type e = typ \<and> re_reason e = reason"

definition counted :: "string \<Rightarrow> string \<Rightarrow> recorded_event list \<Rightarrow> int" where
  "counted typ reason es = sum_list (map re_count (filter (similar typ reason) es))"

text \<open>A record of a run: instant, identifier, resource, type, reason and message.\<close>

type_synonym event_entry = "gotime \<times> string \<times> resource_meta \<times> string \<times> string \<times> string"

definition record_entry :: "event_entry \<Rightarrow> event_recorder \<Rightarrow> event_recorder" where
  "record_entry y r = (case y of (now, i, x, typ, reason, message) \<Rightarrow> record_event now i x typ reason message r)"

definition is_entry :: "string \<Rightarrow> string \<Rightarrow> string \<Rightarrow> event_entry \<Rightarrow> bool" where
  "is_entry k typ reason y = (case y of (now, i, x, t, s, message) \<Rightarrow> event_key x = k \<and> t = typ \<and> s = reason)"

definition kinds :: "recorded_event list \<Rightarrow> (string \<times> string) list" where
  "kinds es = map (\<lambda>e. (re_type e, re_reason e)) es"

definition small :: "int \<Rightarrow> recorded_event list \<Rightarrow> bool" where
  "small n es \<longleftrightarrow> list_all (\<lambda>e. 0 \<le> re_count e \<and> re_count e \<le> n) es"

lemma small_simps [simp]: "small n []" "small n (e # es) \<longleftrightarrow> 0 \<le> re_count e \<and> re_count e \<le> n \<and> small n es"
  "small n (es @ fs) \<longleftrightarrow> small n es \<and> small n fs"
  by (simp_all add: small_def)

lemma small_mono: "small n es \<Longrightarrow> n \<le> m \<Longrightarrow> small m es"
  by (induction es) simp_all

lemma counted_simps [simp]: "counted t s [] = 0" "counted t s (e # es) = (if similar t s e then re_count e else 0) + counted t s es"
  "counted t s (es @ fs) = counted t s es + counted t s fs"
  by (simp_all add: counted_def)

lemma kinds_simps [simp]: "kinds [] = []" "kinds (e # es) = (re_type e, re_reason e) # kinds es" "kinds (es @ fs) = kinds es @ kinds fs"
  "length (kinds es) = length es"
  by (simp_all add: kinds_def)

lemma count_similar_None: "count_similar now typ reason es = None \<longleftrightarrow> (typ, reason) \<notin> set (kinds es)"
  by (induction es) auto

lemma count_similar_kinds: "count_similar now typ reason es = Some es' \<Longrightarrow> kinds es' = kinds es"
  by (induction es arbitrary: es') (auto split: if_split_asm)

lemma count_similar_small:
  "count_similar now typ reason es = Some es' \<Longrightarrow> small n es \<Longrightarrow> n < max_i64 \<Longrightarrow> small (n + 1) es'"
proof (induction es arbitrary: es')
  case (Cons e es)
  then show ?case
    by (cases "re_type e = typ \<and> re_reason e = reason") (auto simp: i64_id small_mono)
qed simp

lemma count_similar_counted:
  "count_similar now typ reason es = Some es' \<Longrightarrow> small n es \<Longrightarrow> n < max_i64 \<Longrightarrow>
     counted t s es' = counted t s es + (if t = typ \<and> s = reason then 1 else 0)"
proof (induction es arbitrary: es')
  case (Cons e es)
  then show ?case
    by (cases "re_type e = typ \<and> re_reason e = reason") (auto simp: i64_id similar_def)
qed simp

text \<open>After \<open>n\<close> records: different kinds, counts of at most \<open>n\<close>, and no more events than that.\<close>

definition recorder_ok :: "int \<Rightarrow> event_recorder \<Rightarrow> bool" where
  "recorder_ok n r \<longleftrightarrow> er_max r = 1000
     \<and> (\<forall>k. distinct (kinds (events_at r k)) \<and> small n (events_at r k) \<and> int (length (events_at r k)) \<le> n)"

lemma record_at:
  assumes "recorder_ok n r" "n < 1000"
  shows "events_at (record_event now i x typ reason message r) k =
    (if k \<noteq> event_key x then events_at r k
     else case count_similar now typ reason (events_at r k) of
            Some es \<Rightarrow> es | None \<Rightarrow> events_at r k @ [new_event now i x typ reason message])"
proof -
  have "int (length (events_at r (event_key x))) \<le> n" "er_max r = 1000" using assms(1) by (simp_all add: recorder_ok_def)
  then have "\<not> er_max r < length (events_at r (event_key x) @ [e])" for e :: recorded_event using assms(2) by simp
  moreover have "(new_event now i x typ reason message)\<lparr>re_metadata := None\<rparr> = new_event now i x typ reason message"
    by (simp add: new_event_def)
  ultimately show ?thesis
    by (cases "count_similar now typ reason (events_at r (event_key x))")
      (simp_all add: record_event_def record_with_metadata_def append_event_def Let_def events_at_def [of "_ \<lparr>er_events := _\<rparr>"] events_at_def [symmetric])
qed

lemma record_ok:
  assumes "recorder_ok n r" "n < 1000" "0 \<le> n"
  shows "recorder_ok (n + 1) (record_event now i x typ reason message r)
    \<and> counted t s (events_at (record_event now i x typ reason message r) k)
        = counted t s (events_at r k) + (if k = event_key x \<and> t = typ \<and> s = reason then 1 else 0)"
proof -
  let ?e = "new_event now i x typ reason message"
  have e: "re_type ?e = typ" "re_reason ?e = reason" "re_count ?e = 1" by (simp_all add: new_event_def)
  have ok: "distinct (kinds (events_at r j))" "small n (events_at r j)" "int (length (events_at r j)) \<le> n" "er_max r = 1000" for j
    using assms(1) by (simp_all add: recorder_ok_def)
  have "er_max (record_event now i x typ reason message r) = 1000"
    using ok(4) by (simp add: record_event_def record_with_metadata_def append_event_def Let_def split: option.split)
  moreover have "distinct (kinds (events_at (record_event now i x typ reason message r) j))
      \<and> small (n + 1) (events_at (record_event now i x typ reason message r) j)
      \<and> int (length (events_at (record_event now i x typ reason message r) j)) \<le> n + 1
      \<and> counted t s (events_at (record_event now i x typ reason message r) j)
        = counted t s (events_at r j) + (if j = event_key x \<and> t = typ \<and> s = reason then 1 else 0)" for j
  proof (cases "j = event_key x")
    case False
    then show ?thesis unfolding record_at [OF assms(1,2)] using ok(1-3) [of j] small_mono [of n _ "n + 1"] by simp
  next
    case True
    show ?thesis
    proof (cases "count_similar now typ reason (events_at r j)")
      case None
      then have "(typ, reason) \<notin> set (kinds (events_at r j))" by (simp add: count_similar_None)
      then show ?thesis unfolding record_at [OF assms(1,2)] using ok(1-3) [of j] small_mono [of n _ "n + 1"] True None assms(3) e
        by (simp add: similar_def)
    next
      case (Some es)
      have "length es = length (events_at r j)" using count_similar_kinds [OF Some] by (metis kinds_simps(4))
      then show ?thesis unfolding record_at [OF assms(1,2)] using ok(1-3) [of j] True Some assms(2) count_similar_kinds [OF Some]
          count_similar_small [OF Some ok(2)] count_similar_counted [OF Some ok(2)]
        by simp
    qed
  qed
  ultimately show ?thesis unfolding recorder_ok_def by blast
qed

text \<open>Up to a thousand records are counted exactly: for every resource there is one event of a type and reason at
  most, and its count is how often they were recorded.\<close>

theorem records_counted:
  assumes "length ys \<le> 1000"
  shows "distinct (kinds (events_at (fold record_entry ys new_recorder) k))
    \<and> counted typ reason (events_at (fold record_entry ys new_recorder) k) = int (length (filter (is_entry k typ reason) ys))"
proof -
  have "recorder_ok n r \<Longrightarrow> 0 \<le> n \<Longrightarrow> n + int (length ys) \<le> 1000 \<Longrightarrow>
      distinct (kinds (events_at (fold record_entry ys r) k))
      \<and> counted typ reason (events_at (fold record_entry ys r) k) = counted typ reason (events_at r k) + int (length (filter (is_entry k typ reason) ys))" for n r
  proof (induction ys arbitrary: n r)
    case Nil
    then show ?case by (simp add: recorder_ok_def)
  next
    case (Cons y ys)
    obtain now i x t s m where y: "y = (now, i, x, t, s, m)" by (metis prod.exhaust)
    have "n < 1000" using Cons.prems(3) by simp
    note step = record_ok [OF Cons.prems(1) this Cons.prems(2), of now i x t s m "typ" reason k]
    have "n + 1 + int (length ys) \<le> 1000" "0 \<le> n + 1" using Cons.prems(2,3) by simp_all
    from Cons.IH [OF conjunct1 [OF step] this(2,1)] show ?case
      using conjunct2 [OF step] by (auto simp: y record_entry_def is_entry_def)
  qed
  from this [of 0 new_recorder] show ?thesis
    using assms by (simp add: recorder_ok_def new_recorder_def events_at_def)
qed

text \<open>The instant of an event is that of its first record: one that goes on is cleared with the old ones, and is not
  among the recent ones.\<close>

lemma recurring_event_cleared:
  assumes "k = event_key x" "0 < before" "before < 9"
  shows "events_at (clear_events before (record_event 9 j x typ reason message (record_event 0 i x typ reason message new_recorder))) k = []"
  using assms by (simp add: record_event_def record_with_metadata_def append_event_def new_recorder_def events_at_def new_event_def
      clear_events_def Let_def)

text \<open>Related records are not merged, though they are counted on by later ones; the messages of what is counted are lost.\<close>

lemma later_message_lost:
  "map re_message (events_at (record_event 9 j x typ reason m2 (record_event 0 i x typ reason m1 new_recorder)) (event_key x)) = [m1]"
  by (simp add: record_event_def record_with_metadata_def append_event_def new_recorder_def events_at_def new_event_def Let_def)

end
