(* ===== verification/Spec2Isabelle.thy ===== *)
theory Spec2Isabelle
  imports Eval_Broker Plan_Applier Gatekeeper_Challenge Gatekeeper_Policy Delaying_Queue Resource_Stores KV_Store
    Resilience Client_Cache Dispatcher Event_Stream Drainer Deployment Snapshot_Frames Label_Selector Rbac_Engine
    Sql_Sanitize Leader_Election Bin_Packing Json_Patch Quantity Object_Meta Dist_Lock Cluster_Health Keyring Blocking_Query Workflow Job_Graph Dead_Letters Cached_Store Rpc_Pool Field_Selector Admission Schema_Registration Storage_Access Token_Limiter Alert_Silencer Memory_Cache Event_Recorder
begin

text \<open>
  AxiomNizam: a verification development for the core of the Go program under src/internal.

  The program is a platform server. Its core is a set of control-plane components, written after
  Nomad, Consul and Kubernetes, that keep state under a mutex or inside a replicated log and are
  called by the HTTP layer, by reconcilers and by each other. This library models those
  components as functions on explicit state and proves what they promise.

  \<^bold>\<open>Scheduling.\<close> Evaluations wait in the evaluation broker (evalbroker/broker.go, pq.go) for a
  scheduler, whose plans the applier (planner/applier.go) commits against the nodes. Cron jobs
  (periodic/schedule.go) are fired by the dispatcher (periodic/dispatcher.go). A node that is
  taken out is emptied by the drainer (drainer/drainer.go), a new version of a job is rolled
  out under the rollout controller (deployment/controller.go), and changes are published on the
  event stream (stream/broker.go).
  \<^item> Eval_Broker: Enqueue, Dequeue, Ack, Nack, the visibility reaper and the timers of Nack over
    one state, and the concurrent system that interleaves them. An evaluation that is held is
    never lost; the ready slice stays a heap with one entry per identifier; coalescing,
    dequeue order and the delivery limit.
  \<^item> Plan_Applier: Submit with its eviction and commit loops over 64-bit sums: no node is
    committed past its capacity, and the used resources stay the sum of the recorded demands.
  \<^item> Bin_Packing: the placement of scheduler/binpack/binpack.go over the same resources; no node is
    filled past what is free, and what is left out fits nowhere.
  \<^item> Go_Calendar, Cron_Schedule: the civil calendar of package time in UTC with its day, month
    and year laws; the parser with its 64-bit masks, and Next, shown to return the first match.
  \<^item> Dispatcher: a heap of jobs by next instant; Add and Remove as map updates, and what one pass
    of the goroutine fires.
  \<^item> Drainer: drains, their goroutines cut at every point where they interleave, cancellation.
    What a drain sends, that it ends, and what a stale goroutine does to its successor.
  \<^item> Deployment: UpdateAllocs with the decision engine, Promote and Fail; when a rollout may be
    promoted, completed and rolled back, and what the health gate means over time.
  \<^item> Event_Stream: the ring of published events and the cursor of a subscription, related to the
    whole published history.

  \<^bold>\<open>Queues and controllers.\<close> Work_Queue and Rate_Limiters model workqueue/queue.go and
  ratelimiters.go: the de-duplicating queue, the priority queue, the requeue limiters, one
  round of a worker, and the queue side of platform/controller/generic_controller.go, which
  feeds it from a store. Delaying_Queue models workqueue/delaying.go, whose heap is drained
  into such a queue. Client_Cache models client/cache (key.go, threadsafe_store.go,
  delta_fifo.go): the indexed store and the queue of deltas in front of every controller.
  Label_Selector models apimachinery/labels/selector.go: matching, printing and parsing.
  Json_Patch models apimachinery/patch: merge patches, keyed lists, pointers and JSON patches.
  Object_Meta models the metadata helpers of apimachinery: accessor, finalizers, owner references
  with the garbage collector, and conditions. Quantity models apimachinery/resource: quantities as text, and the sums of resource lists.
  Leader_Election models controller/leaderelection: candidates that read and write the lease
  record in turn, over a store with revisions; an unexpired lease is never taken.
  State_Store models distributedstate: the store in memory with its leases and the counters, sets
  and queues on any store; counters are linearizable. Dist_Lock models its locks, which are
  exclusive, and its elections, which are not.
  Cluster_Health models autopilot and heartbeat, Keyring the rotating keys, Blocking_Query the
  long-polling loop of blocking.
  Workflow models the engine of workflows and its versioned definitions.
  Job_Queue models the background jobs of jobs: the queue by priority, the workers, which empty it,
  and the manager, whose workers never see its queue. Job_Graph models dependencies, pipelines and
  graphs of jobs, Dead_Letters the jobs that failed.
  Cached_Store models the cache in front of a state store (distributedstate/cache.go), whose reads
  are stale by less than its time to live; Rpc_Pool the pool of connections (rpcpool/pool.go).

  \<^bold>\<open>Checks on what users store.\<close> Admission models the chain of mutators and validators with the
  bundled plugins (admission), Field_Selector the selectors on fields (apimachinery/fields).
  Schema_Registry models the compatibility checks between schemas (schemaregistry/compatibility.go)
  and shows what an accepted schema can read; Schema_Registration the reconciler that gives
  identifiers and versions, with the handlers around it.
  Resilience models platform/resilience/resilience.go: the circuit breaker under overlapping
  calls and the retry loop.

  \<^bold>\<open>Replicated state.\<close> Commands that Raft has committed are applied to go-memdb by the state
  machine of platform/raft (fsm.go, commands.go), modelled in Platform_FSM with its snapshots.
  Resource_Stores models the typed stores above it (platform/store/memdb_store.go and
  raft_store.go, and Server.Apply of platform/raft/server.go), Watch_Hub their subscriptions,
  KV_Store the key-value store with expiry (platform/store/kvstore.go). Snapshot_Frames models
  the framed stream format of snapshot/framer.go with its CRC-32. Gatekeeper_FSM models the
  second state machine, of the multi-factor component (gatekeeper/raft, gatekeeper/models),
  and Gatekeeper_Challenge the service that issues and verifies challenges over the
  version-checked SQL update, the phase machine and the one-time codes (gatekeeper/challenge,
  gatekeeper/totp, gatekeeper/pgstore/challenge_repository.go). Gatekeeper_Policy models the
  evaluators, rules and scorers that decide whether a second factor is asked for
  (gatekeeper/policy, gatekeeper/risk). Rbac_Engine models the access-control engine of
  rbac/engine.go: roles, bindings, the decision with its conditions, and quotas.

  Storage_Access models the access controller of the object storage (storage/access): access keys,
  shares and policies, what the middleware decides, the rate limit per bucket and the persistence.

  Token_Limiter models the limit of calls per token (auth/rate_limit.go) and its middleware, whose
  check and count overlap. Alert_Silencer models the silences of alerts (alerting/silencer.go).

  Memory_Cache models the bounded cache of cache/memory.go, Event_Recorder the recorder of events,
  which counts similar ones (events/recorder.go).

  \<^bold>\<open>User-written SQL.\<close> Sql_Filter models the gate in front of it (sqlfilter/parser.go, classify.go,
  blocklist.go, sqlfilter.go) and shows exactly which queries pass for read-only; Sql_Sanitize
  models sqlfilter/sanitize.go and normalize.go and shows that an escaped value is one literal.

  \<^bold>\<open>Shared theories.\<close> Prelude holds the types of instants and durations, 64-bit wrap-around,
  the outcome type and the generic lemmas. Go_Heap is container/heap with the locale of strict
  weak orders, interpreted on the orders of the evaluation broker, the delaying queue and the
  dispatcher. Go_Encoding is what the snapshots need of base64 and JSON, Go_Strings what the
  parsers need of strings and strconv.

  \<^bold>\<open>Conventions.\<close> A struct is a record with the fields of the source, an enumeration a datatype.
  A method is a function from the state to the new state and its result. An error is a value: an
  option, a sum, or the type outcome, whose third constructor Panic stands for a failed type
  assertion, an index out of range, a negative shift or a send on a closed channel. Sections
  under one lock are single steps; a method that gives the lock up in between is cut there,
  and its parts interleave. The clock, random bytes and the order in which a map is iterated
  are arguments wherever the result can depend on them. Instants count nanoseconds from the
  zero time of package time and are not bounded; a 64-bit int wraps where a caller can make it.
  Loops are structural recursions or functions with a measure; no fuel is used. In the
  properties that run a component, a run is a list of operations in any order.

  \<^bold>\<open>Parameters.\<close> Third-party code is a parameter with its documented laws as hypotheses: go-memdb
  as a record of operations with the laws of a table keyed by id, the JSON codec of a resource
  as encode and decode that agree on the resources in question, hashicorp/raft as its verdict on
  an Apply, HMAC and AES-GCM as functions. Each such hypothesis is instantiated in a witness.

  \<^bold>\<open>What the groups of lemmas show.\<close> Each theory has a section of invariants kept by every
  operation, one of the refinement of an abstract map, list or history where the component has
  such a contract, and its properties with witnesses at concrete inputs. Where the code does
  something else than its documentation or its evident purpose, a theorem states what it does;
  among them: reads of the Raft store panic, a conditional write of the key-value store wins
  once per node, the reaper of the broker counts no delivery, parallel guesses of a code count
  once, a stale drain deregisters its successor, a stream cut at a frame boundary reads as
  complete, an impossible schedule fires once.

  \<^bold>\<open>Not modelled.\<close> The HTTP layer, the frontend, the command line and start-up; wrappers of
  database drivers, of etcd and of the S3 client; the generated scoring tables of vectorplus,
  kubeplus, reviewflow and netintel; scanners and data pipelines that call external engines;
  state kept in float64 (the token bucket, backoff with jitter, the composite risk score);
  logging and metrics. The memory model of Go is not modelled: accesses outside a lock are
  taken to be atomic. Text is ASCII in the parsers.
\<close>

end
